(* ===== verification/Prelude.thy ===== *)
theory Prelude
  imports Main "HOL-Library.Word"
begin

section \<open>Shared vocabulary of the development\<close>

text \<open>
  What every component uses: names for Rust's integer types, byte strings and their big- and
  little-endian readings, text as lists of Unicode code points with the operations of Rust's
  \<^verbatim>\<open>str\<close> the sources call (\<^verbatim>\<open>trim\<close>, \<^verbatim>\<open>strip_prefix\<close>, \<^verbatim>\<open>split_once\<close>, \<^verbatim>\<open>lines\<close>, \<^verbatim>\<open>parse\<close>,
  \<^verbatim>\<open>to_string\<close>), and \<^verbatim>\<open>Result\<close> as a sum with \<open>Inl\<close> for the error. The definitions here model
  the language and its standard library; they stand for no line of the repository.
\<close>

named_theorems bytes_simps \<open>lengths and round trips of the byte-level encodings\<close>
named_theorems text_simps \<open>evaluation and characterisation of the text operations\<close>
named_theorems res_simps \<open>sequencing of fallible computations\<close>

subsection \<open>Integers and bytes\<close>

type_synonym u8 = "8 word"
type_synonym u16 = "16 word"
type_synonym u32 = "32 word"
type_synonym u64 = "64 word"
type_synonym bytes = "u8 list"

definition u64_max :: nat where
  "u64_max = 2 ^ 64 - 1"

text \<open>Saturating arithmetic on an unsigned 64-bit value read as a natural number.\<close>

definition sat_add64 :: "nat \<Rightarrow> nat \<Rightarrow> nat" where
  "sat_add64 a b = min u64_max (a + b)"

definition sat_mul64 :: "nat \<Rightarrow> nat \<Rightarrow> nat" where
  "sat_mul64 a b = min u64_max (a * b)"

text \<open>The 64-bit signed reading of an integer: arithmetic on \<^verbatim>\<open>i64\<close> wraps in the release build.\<close>

definition wrap_i64 :: "int \<Rightarrow> int" where
  "wrap_i64 x = (x + 2 ^ 63) mod 2 ^ 64 - 2 ^ 63"

text \<open>The cast \<^verbatim>\<open>as i32\<close>.\<close>

definition wrap_i32 :: "int \<Rightarrow> int" where
  "wrap_i32 x = (x + 2 ^ 31) mod 2 ^ 32 - 2 ^ 31"

text \<open>\<open>to_be_bytes\<close> of a value of \<open>n\<close> bytes and \<open>from_be_bytes\<close>.\<close>

fun nat_to_be :: "nat \<Rightarrow> nat \<Rightarrow> bytes" where
  "nat_to_be 0 m = []"
| "nat_to_be (Suc n) m = nat_to_be n (m div 256) @ [word_of_nat m]"

fun be_acc :: "nat \<Rightarrow> bytes \<Rightarrow> nat" where
  "be_acc a [] = a"
| "be_acc a (b # bs) = be_acc (a * 256 + unat b) bs"

definition be_to_nat :: "bytes \<Rightarrow> nat" where
  "be_to_nat bs = be_acc 0 bs"

definition le_to_nat :: "bytes \<Rightarrow> nat" where
  "le_to_nat bs = be_to_nat (rev bs)"

definition nat_to_le :: "nat \<Rightarrow> nat \<Rightarrow> bytes" where
  "nat_to_le n m = rev (nat_to_be n m)"

text \<open>The bytes \<open>at .. at + n\<close> of a slice, \<open>None\<close> when the range does not fit (\<^verbatim>\<open>slice::get\<close>).\<close>

definition get_range :: "'a list \<Rightarrow> nat \<Rightarrow> nat \<Rightarrow> 'a list option" where
  "get_range xs at n = (if at + n \<le> length xs then Some (take n (drop at xs)) else None)"

text \<open>\<^verbatim>\<open>chunks\<close> of a slice: pieces of the given positive size, the last one shorter.\<close>

function chunks :: "nat \<Rightarrow> 'a list \<Rightarrow> 'a list list" where
  "chunks n xs = (if xs = [] \<or> n = 0 then [] else take n xs # chunks n (drop n xs))"
  by pat_completeness auto
termination by (relation "measure (\<lambda>(n, xs). length xs)") auto

declare chunks.simps [simp del]

subsection \<open>Fallible computations\<close>

fun bindR :: "'e + 'a \<Rightarrow> ('a \<Rightarrow> 'e + 'b) \<Rightarrow> 'e + 'b" where
  "bindR (Inl e) f = Inl e"
| "bindR (Inr x) f = f x"

definition ok_or :: "'e \<Rightarrow> 'a option \<Rightarrow> 'e + 'a" where
  "ok_or e x = (case x of None \<Rightarrow> Inl e | Some y \<Rightarrow> Inr y)"

fun ok :: "'e + 'a \<Rightarrow> 'a option" where
  "ok (Inl e) = None"
| "ok (Inr x) = Some x"

fun is_ok :: "'e + 'a \<Rightarrow> bool" where
  "is_ok (Inl e) = False"
| "is_ok (Inr x) = True"

text \<open>\<^verbatim>\<open>ensure!\<close>, and \<^verbatim>\<open>collect\<close> of an iterator of results: the first error is the result.\<close>

definition ensure :: "'e \<Rightarrow> bool \<Rightarrow> 'e + unit" where
  "ensure e b = (if b then Inr () else Inl e)"

fun mapR :: "('a \<Rightarrow> 'e + 'b) \<Rightarrow> 'a list \<Rightarrow> 'e + 'b list" where
  "mapR f [] = Inr []"
| "mapR f (x # xs) = bindR (f x) (\<lambda>y. bindR (mapR f xs) (\<lambda>ys. Inr (y # ys)))"

text \<open>
  The outcome of replacing a file through a temporary one: the temporary file cannot be created,
  is left with part of the content, cannot be renamed, or all goes well.
\<close>

datatype 'c write_fault = NoFault | CreateFault | WriteFault 'c | RenameFault

subsection \<open>Text\<close>

text \<open>
  A \<^verbatim>\<open>str\<close> is a list of code points. \<open>lit\<close> embeds an ASCII literal. \<open>is_white\<close> is the Unicode
  property White\_Space, which \<^verbatim>\<open>trim\<close>, \<^verbatim>\<open>trim_start\<close> and \<^verbatim>\<open>split_whitespace\<close> use.
\<close>

type_synonym ustr = "int list"

definition lit :: "string \<Rightarrow> ustr" where
  "lit s = map of_char s"

definition is_white :: "int \<Rightarrow> bool" where
  "is_white c \<longleftrightarrow>
     (9 \<le> c \<and> c \<le> 13) \<or> c = 32 \<or> c = 133 \<or> c = 160 \<or> c = 5760 \<or> (8192 \<le> c \<and> c \<le> 8202)
     \<or> c = 8232 \<or> c = 8233 \<or> c = 8239 \<or> c = 8287 \<or> c = 12288"

definition is_digit :: "int \<Rightarrow> bool" where
  "is_digit c \<longleftrightarrow> 48 \<le> c \<and> c \<le> 57"

definition is_alpha :: "int \<Rightarrow> bool" where
  "is_alpha c \<longleftrightarrow> (65 \<le> c \<and> c \<le> 90) \<or> (97 \<le> c \<and> c \<le> 122)"

definition ascii_lower :: "int \<Rightarrow> int" where
  "ascii_lower c = (if 65 \<le> c \<and> c \<le> 90 then c + 32 else c)"

definition is_alnum :: "int \<Rightarrow> bool" where
  "is_alnum c \<longleftrightarrow> is_alpha c \<or> is_digit c"

text \<open>The number of bytes of a text in UTF-8, which is what \<^verbatim>\<open>str::len\<close> counts.\<close>

definition utf8_width :: "int \<Rightarrow> nat" where
  "utf8_width c = (if c < 128 then 1 else if c < 2048 then 2 else if c < 65536 then 3 else 4)"

definition utf8_len :: "ustr \<Rightarrow> nat" where
  "utf8_len s = sum_list (map utf8_width s)"

definition trim_start :: "ustr \<Rightarrow> ustr" where
  "trim_start s = dropWhile is_white s"

definition trim_end :: "ustr \<Rightarrow> ustr" where
  "trim_end s = rev (dropWhile is_white (rev s))"

definition trim :: "ustr \<Rightarrow> ustr" where
  "trim s = trim_end (trim_start s)"

fun strip_prefix :: "'a list \<Rightarrow> 'a list \<Rightarrow> 'a list option" where
  "strip_prefix [] s = Some s"
| "strip_prefix (p # ps) [] = None"
| "strip_prefix (p # ps) (c # s) = (if c = p then strip_prefix ps s else None)"

definition strip_suffix :: "'a list \<Rightarrow> 'a list \<Rightarrow> 'a list option" where
  "strip_suffix p s = map_option rev (strip_prefix (rev p) (rev s))"

text \<open>Split at the first occurrence of a code point (\<^verbatim>\<open>split_once\<close>, and \<^verbatim>\<open>find\<close> with the two slices).\<close>

fun split_once :: "'a \<Rightarrow> 'a list \<Rightarrow> ('a list \<times> 'a list) option" where
  "split_once d [] = None"
| "split_once d (c # s) =
     (if c = d then Some ([], s)
      else map_option (\<lambda>(a, b). (c # a, b)) (split_once d s))"

text \<open>
  \<^verbatim>\<open>str::lines\<close>: the pieces between line feeds, with one carriage return before a line feed
  removed; a last piece without a line feed is kept as it is, and an empty last piece dropped.
\<close>

definition strip_cr :: "ustr \<Rightarrow> ustr" where
  "strip_cr l = (if l \<noteq> [] \<and> last l = 13 then butlast l else l)"

fun str_lines_acc :: "ustr \<Rightarrow> ustr \<Rightarrow> ustr list" where
  "str_lines_acc acc [] = (if acc = [] then [] else [rev acc])"
| "str_lines_acc acc (c # s) =
     (if c = 10 then strip_cr (rev acc) # str_lines_acc [] s else str_lines_acc (c # acc) s)"

definition str_lines :: "ustr \<Rightarrow> ustr list" where
  "str_lines s = str_lines_acc [] s"

text \<open>\<^verbatim>\<open>writeln!\<close> of each line.\<close>

definition unlines :: "ustr list \<Rightarrow> ustr" where
  "unlines ls = concat (map (\<lambda>l. l @ [10]) ls)"

text \<open>\<^verbatim>\<open>split_whitespace\<close>: the maximal runs of non-blank code points.\<close>

fun split_white_acc :: "ustr \<Rightarrow> ustr \<Rightarrow> ustr list" where
  "split_white_acc acc [] = (if acc = [] then [] else [rev acc])"
| "split_white_acc acc (c # s) =
     (if is_white c then (if acc = [] then split_white_acc [] s else rev acc # split_white_acc [] s)
      else split_white_acc (c # acc) s)"

definition split_whitespace :: "ustr \<Rightarrow> ustr list" where
  "split_whitespace s = split_white_acc [] s"

text \<open>\<^verbatim>\<open>split\<close> on a code point: always at least one piece.\<close>

fun split_acc :: "int \<Rightarrow> ustr \<Rightarrow> ustr \<Rightarrow> ustr list" where
  "split_acc d acc [] = [rev acc]"
| "split_acc d acc (c # s) = (if c = d then rev acc # split_acc d [] s else split_acc d (c # acc) s)"

definition split_on :: "int \<Rightarrow> ustr \<Rightarrow> ustr list" where
  "split_on d s = split_acc d [] s"

text \<open>
  \<^verbatim>\<open>parse::<u*>\<close>: an optional plus sign and at least one decimal digit, the value at most the
  type's maximum. \<^verbatim>\<open>parse::<i64>\<close> also takes a minus sign.
\<close>

fun digits_val :: "nat \<Rightarrow> ustr \<Rightarrow> nat option" where
  "digits_val a [] = Some a"
| "digits_val a (c # s) = (if is_digit c then digits_val (a * 10 + nat (c - 48)) s else None)"

definition parse_digits :: "ustr \<Rightarrow> nat option" where
  "parse_digits s = (if s = [] then None else digits_val 0 s)"

definition parse_unsigned :: "nat \<Rightarrow> ustr \<Rightarrow> nat option" where
  "parse_unsigned mx s =
     (case parse_digits (case strip_prefix (lit ''+'') s of Some r \<Rightarrow> r | None \<Rightarrow> s) of
        None \<Rightarrow> None
      | Some n \<Rightarrow> if n \<le> mx then Some n else None)"

definition parse_i64 :: "ustr \<Rightarrow> int option" where
  "parse_i64 s =
     (case strip_prefix (lit ''-'') s of
        Some r \<Rightarrow> (case parse_digits r of
                    None \<Rightarrow> None | Some n \<Rightarrow> if n \<le> 2 ^ 63 then Some (- int n) else None)
      | None \<Rightarrow> map_option int (parse_unsigned (2 ^ 63 - 1) s))"

text \<open>\<^verbatim>\<open>to_string\<close> of an unsigned number.\<close>

fun show_nat :: "nat \<Rightarrow> ustr" where
  "show_nat n = (if n < 10 then [48 + int n] else show_nat (n div 10) @ [48 + int (n mod 10)])"

declare show_nat.simps [simp del]

definition show_int :: "int \<Rightarrow> ustr" where
  "show_int i = (if i < 0 then lit ''-'' @ show_nat (nat (- i)) else show_nat (nat i))"

subsection \<open>Sorted search\<close>

text \<open>
  \<^verbatim>\<open>partition_point\<close> on a slice: the number of leading elements that satisfy the predicate
  (the documented result when the slice is partitioned by it).
\<close>

definition partition_point :: "('a \<Rightarrow> bool) \<Rightarrow> 'a list \<Rightarrow> nat" where
  "partition_point P xs = length (takeWhile P xs)"

text \<open>\<^verbatim>\<open>filter_map\<close> of an iterator, and \<^verbatim>\<open>windows(2)\<close> of a slice.\<close>

definition filter_map :: "('a \<Rightarrow> 'b option) \<Rightarrow> 'a list \<Rightarrow> 'b list" where
  "filter_map f xs = List.map_filter f xs"

definition windows2 :: "'a list \<Rightarrow> ('a \<times> 'a) list" where
  "windows2 xs = zip xs (tl xs)"

section \<open>Contracts shared by the components\<close>

text \<open>
  An encoder and its decoder. The laws are stated once; each codec of the program interprets
  the locale on its own functions.
\<close>

locale codec =
  fixes enc :: "'a \<Rightarrow> 'b"
    and dec :: "'b \<Rightarrow> 'a option"
    and valid :: "'a \<Rightarrow> bool"
  assumes dec_enc: "valid x \<Longrightarrow> dec (enc x) = Some x"
begin

lemma enc_inj: "valid x \<Longrightarrow> valid y \<Longrightarrow> enc x = enc y \<Longrightarrow> x = y"
  by (metis dec_enc option.inject)

end

text \<open>
  A self-delimiting encoder: the decoder reads one value off the front of a longer sequence.
  Concatenations of such encodings are uniquely readable.
\<close>

locale prefix_codec =
  fixes enc :: "'a \<Rightarrow> 'b list"
    and dec :: "'b list \<Rightarrow> ('a \<times> 'b list) option"
    and valid :: "'a \<Rightarrow> bool"
  assumes dec_enc_append: "valid x \<Longrightarrow> dec (enc x @ rest) = Some (x, rest)"
begin

lemma enc_append_inj:
  "valid x \<Longrightarrow> valid y \<Longrightarrow> enc x @ r = enc y @ r' \<Longrightarrow> x = y \<and> r = r'"
  by (metis dec_enc_append option.inject prod.inject)

end

sublocale prefix_codec \<subseteq> codec enc "\<lambda>b. map_option fst (dec b)" valid
  by unfold_locales (use dec_enc_append [where rest = "[]"] in simp)

text \<open>
  Replacing a file through a temporary file: whatever fails, the target keeps its old content,
  and on success it holds exactly the new one.
\<close>

locale atomic_writer =
  fixes replace :: "'fault \<Rightarrow> 'content \<Rightarrow> ('path \<Rightarrow> 'content option) \<Rightarrow>
      ('path \<Rightarrow> 'content option) \<times> ('err + unit)"
    and target :: 'path
  assumes write_ok: "replace f c fs = (fs', Inr ()) \<Longrightarrow> fs' target = Some c"
    and write_err: "replace f c fs = (fs', Inl e) \<Longrightarrow> fs' target = fs target"
begin

lemma old_or_new: "fst (replace f c fs) target = fs target \<or> fst (replace f c fs) target = Some c"
  by (cases "replace f c fs"; cases "snd (replace f c fs)") (auto dest: write_ok write_err)

end

text \<open>An invariant that every step of a machine keeps holds after every run.\<close>

locale invariant_machine =
  fixes step :: "'s \<Rightarrow> 'e \<Rightarrow> 's"
    and inv :: "'s \<Rightarrow> bool"
  assumes step_inv: "inv s \<Longrightarrow> inv (step s e)"
begin

lemma run_inv: "inv s \<Longrightarrow> inv (foldl step s es)"
  by (induction es arbitrary: s) (auto intro: step_inv)

end

text \<open>
  An invariant of a step relation: it holds in every initial state and every step keeps it, so it holds
  in every state that can be reached.
\<close>

locale reachable_invariant =
  fixes init :: "'s \<Rightarrow> bool"
    and step :: "'s \<Rightarrow> 's \<Rightarrow> bool"
    and inv :: "'s \<Rightarrow> bool"
  assumes init_inv: "init s \<Longrightarrow> inv s"
    and step_inv: "step s s' \<Longrightarrow> inv s \<Longrightarrow> inv s'"
begin

lemma reached_inv: "init s0 \<Longrightarrow> step\<^sup>*\<^sup>* s0 s \<Longrightarrow> inv s"
  by (rotate_tac, induction rule: rtranclp_induct) (auto intro: init_inv step_inv)

end

section \<open>Lemmas\<close>

text \<open>Evaluating the text functions on literals.\<close>

lemmas text_eval = trim_def trim_start_def trim_end_def strip_suffix_def split_whitespace_def split_on_def
  is_white_def parse_unsigned_def parse_digits_def is_digit_def List.map_filter_simps ok_or_def

subsection \<open>Bytes\<close>

lemma length_nat_to_be [simp, bytes_simps]: "length (nat_to_be n m) = n"
  by (induction n arbitrary: m) auto

lemma be_acc_append [simp]: "be_acc a (xs @ ys) = be_acc (be_acc a xs) ys"
  by (induction xs arbitrary: a) auto

lemma unat_word_of_nat_u8 [simp]: "unat (word_of_nat m :: u8) = m mod 256"
  by (simp add: unat_of_nat)

lemma be_acc_nat_to_be: "be_acc a (nat_to_be n m) = a * 256 ^ n + m mod 256 ^ n"
proof (induction n arbitrary: m)
  case 0
  show ?case by simp
next
  case (Suc n)
  have "m mod 256 ^ Suc n = (m div 256) mod 256 ^ n * 256 + m mod 256"
    by (simp add: mod_mult2_eq)
  with Suc show ?case by (simp add: algebra_simps)
qed

lemma be_to_nat_nat_to_be [bytes_simps]: "be_to_nat (nat_to_be n m) = m mod 256 ^ n"
  by (simp add: be_to_nat_def be_acc_nat_to_be)

lemma be_to_nat_snoc [simp]: "be_to_nat (bs @ [b]) = be_to_nat bs * 256 + unat b"
  by (simp add: be_to_nat_def)

lemma unat_u8_less [simp]: "unat (b :: u8) < 256"
  using unsigned_less [of b] by simp

lemma be_to_nat_less: "be_to_nat bs < 256 ^ length bs"
proof (induction bs rule: rev_induct)
  case Nil
  show ?case by (simp add: be_to_nat_def)
next
  case (snoc b bs)
  have "be_to_nat bs * 256 + unat b < (be_to_nat bs + 1) * 256"
    using unat_u8_less [of b] by simp
  also have "\<dots> \<le> 256 ^ length bs * 256"
    using snoc by simp
  finally show ?case by (simp add: mult.commute)
qed

lemma nat_to_be_be_to_nat [bytes_simps]: "length bs = n \<Longrightarrow> nat_to_be n (be_to_nat bs) = bs"
proof (induction bs arbitrary: n rule: rev_induct)
  case Nil
  then show ?case by simp
next
  case (snoc b bs)
  have "(be_to_nat bs * 256 + unat b) div 256 = be_to_nat bs"
    using unat_u8_less [of b] by simp
  moreover have "unat (word_of_nat (be_to_nat bs * 256 + unat b) :: u8) = unat b"
    unfolding unat_word_of_nat_u8 using unat_u8_less [of b] by simp
  then have "(word_of_nat (be_to_nat bs * 256 + unat b) :: u8) = b"
    by (rule word_unat_eq_iff [THEN iffD2])
  ultimately show ?case using snoc by auto
qed

lemma length_nat_to_le [simp, bytes_simps]: "length (nat_to_le n m) = n"
  by (simp add: nat_to_le_def)

lemma le_to_nat_nat_to_le [bytes_simps]: "le_to_nat (nat_to_le n m) = m mod 256 ^ n"
  by (simp add: le_to_nat_def nat_to_le_def be_to_nat_nat_to_be)

lemma nat_to_le_le_to_nat [bytes_simps]: "length bs = n \<Longrightarrow> nat_to_le n (le_to_nat bs) = bs"
  by (simp add: le_to_nat_def nat_to_le_def nat_to_be_be_to_nat)

lemma le_to_nat_less: "le_to_nat bs < 256 ^ length bs"
  using be_to_nat_less [of "rev bs"] by (simp add: le_to_nat_def)

lemma nat_to_be_inject:
  "m < 256 ^ n \<Longrightarrow> m' < 256 ^ n \<Longrightarrow> nat_to_be n m = nat_to_be n m' \<longleftrightarrow> m = m'"
  by (metis be_to_nat_nat_to_be mod_less)

lemma wrap_i32_id: "- (2 ^ 31) \<le> x \<Longrightarrow> x < 2 ^ 31 \<Longrightarrow> wrap_i32 x = x"
  by (simp add: wrap_i32_def)

lemma wrap_i64_id: "- (2 ^ 63) \<le> x \<Longrightarrow> x < 2 ^ 63 \<Longrightarrow> wrap_i64 x = x"
  by (simp add: wrap_i64_def)

lemma get_range_Some: "get_range xs at n = Some ys \<Longrightarrow> length ys = n \<and> at + n \<le> length xs"
  by (auto simp: get_range_def split: if_splits)

subsection \<open>Fallible computations\<close>

lemma bindR_Inr_iff [res_simps]: "bindR r f = Inr y \<longleftrightarrow> (\<exists>x. r = Inr x \<and> f x = Inr y)"
  by (cases r) auto

lemma bindR_Inl_iff [res_simps]:
  "bindR r f = Inl e \<longleftrightarrow> r = Inl e \<or> (\<exists>x. r = Inr x \<and> f x = Inl e)"
  by (cases r) auto

lemma ok_or_Inr_iff [res_simps]: "ok_or e x = Inr y \<longleftrightarrow> x = Some y"
  by (auto simp: ok_or_def split: option.splits)

lemma ok_or_Inl_iff [res_simps]: "ok_or e x = Inl d \<longleftrightarrow> x = None \<and> d = e"
  by (auto simp: ok_or_def split: option.splits)

lemma ensure_Inr_iff [res_simps]: "ensure e b = Inr u \<longleftrightarrow> b"
  by (simp add: ensure_def)

lemma ensure_Inl_iff [res_simps]: "ensure e b = Inl d \<longleftrightarrow> \<not> b \<and> d = e"
  by (auto simp: ensure_def)

lemma mapR_Inr_iff: "mapR f xs = Inr ys \<longleftrightarrow> list_all2 (\<lambda>x y. f x = Inr y) xs ys"
proof (induction xs arbitrary: ys)
  case (Cons x xs)
  then show ?case by (cases ys) (auto simp: bindR_Inr_iff)
qed (auto simp: list_all2_Nil)

subsection \<open>Text\<close>

lemma lit_Nil [simp]: "lit [] = []"
  by (simp add: lit_def)

lemma lit_Cons [simp]: "lit (c # s) = of_char c # lit s"
  by (simp add: lit_def)

lemma strip_prefix_append [simp]: "strip_prefix p (p @ s) = Some s"
  by (induction p) auto

lemma strip_prefix_Some: "strip_prefix p s = Some r \<longleftrightarrow> s = p @ r"
  by (induction p s rule: strip_prefix.induct) auto

lemma strip_prefix_snoc:
  "p \<noteq> [] \<Longrightarrow> last p \<noteq> x \<Longrightarrow>
     strip_prefix p (s @ [x]) = map_option (\<lambda>r. r @ [x]) (strip_prefix p s)"
proof (induction p s rule: strip_prefix.induct)
  case (2 p ps)
  then show ?case by (cases ps) auto
next
  case (3 p ps c s)
  then show ?case by (cases ps) auto
qed simp

lemma split_once_snoc:
  "x \<noteq> d \<Longrightarrow> split_once d (s @ [x]) = map_option (\<lambda>(a, b). (a, b @ [x])) (split_once d s)"
  by (induction s) (auto simp: option.map_comp comp_def split_def)

lemma split_once_Some: "split_once d s = Some (a, b) \<longleftrightarrow> s = a @ d # b \<and> d \<notin> set a"
proof (induction s arbitrary: a)
  case Nil
  show ?case by simp
next
  case (Cons c s)
  show ?case
  proof (cases a)
    case Nil
    then show ?thesis by auto
  next
    case (Cons x a')
    with Cons.IH [of a'] show ?thesis by auto
  qed
qed

lemma split_once_None: "split_once d s = None \<longleftrightarrow> d \<notin> set s"
  by (induction s) auto

lemma split_once_append [text_simps]: "d \<notin> set a \<Longrightarrow> split_once d (a @ d # b) = Some (a, b)"
  by (simp add: split_once_Some)

lemma trim_end_snoc_white [text_simps]: "is_white c \<Longrightarrow> trim_end (s @ [c]) = trim_end s"
  by (simp add: trim_end_def)

lemma trim_end_snoc_black [text_simps]: "\<not> is_white c \<Longrightarrow> trim_end (s @ [c]) = s @ [c]"
  by (simp add: trim_end_def)

lemma trim_start_black [text_simps]: "\<not> is_white c \<Longrightarrow> trim_start (c # s) = c # s"
  by (simp add: trim_start_def)

lemma trim_start_append_white:
  "trim_start (s @ [c]) = (if trim_start s = [] \<and> is_white c then [] else trim_start s @ [c])"
  by (induction s) (auto simp: trim_start_def)

lemma trim_snoc_white [text_simps]: "is_white c \<Longrightarrow> trim (s @ [c]) = trim s"
  by (auto simp: trim_def trim_start_append_white trim_end_snoc_white)

lemma trim_Nil [simp]: "trim [] = []"
  by (simp add: trim_def trim_start_def trim_end_def)

lemma trim_black_ends:
  "\<not> is_white a \<Longrightarrow> \<not> is_white b \<Longrightarrow> trim (a # s @ [b]) = a # s @ [b]"
  using trim_end_snoc_black [of b "a # s"] by (simp add: trim_def trim_start_black)

lemma str_lines_acc_line:
  "10 \<notin> set l \<Longrightarrow> str_lines_acc acc (l @ 10 # s) = strip_cr (rev acc @ l) # str_lines_acc [] s"
  by (induction l arbitrary: acc) auto

lemma str_lines_unlines [text_simps]:
  "(\<And>l. l \<in> set ls \<Longrightarrow> 10 \<notin> set l) \<Longrightarrow> str_lines (unlines ls) = map strip_cr ls"
proof (induction ls)
  case Nil
  show ?case by (simp add: str_lines_def unlines_def)
next
  case (Cons l ls)
  have "str_lines (unlines (l # ls)) = str_lines_acc [] (l @ 10 # unlines ls)"
    by (simp add: str_lines_def unlines_def)
  also have "\<dots> = strip_cr l # str_lines (unlines ls)"
    using Cons.prems by (simp add: str_lines_acc_line str_lines_def)
  finally show ?case using Cons by simp
qed

lemma str_lines_acc_no_lf:
  "10 \<notin> set acc \<Longrightarrow> l \<in> set (str_lines_acc acc s) \<Longrightarrow> 10 \<notin> set l"
  by (induction acc s rule: str_lines_acc.induct)
     (auto simp: strip_cr_def split: if_splits dest: in_set_butlastD list.set_sel(2))

lemma str_lines_no_lf: "l \<in> set (str_lines s) \<Longrightarrow> 10 \<notin> set l"
  using str_lines_acc_no_lf [of "[]"] by (auto simp: str_lines_def)

subsection \<open>Decimal numbers\<close>

lemma digits_val_append:
  "digits_val a (s @ t) = (case digits_val a s of None \<Rightarrow> None | Some b \<Rightarrow> digits_val b t)"
  by (induction s arbitrary: a) auto

lemma show_nat_nonempty [simp]: "show_nat n \<noteq> []"
  by (subst show_nat.simps) simp

lemma show_nat_digits: "c \<in> set (show_nat n) \<Longrightarrow> is_digit c"
proof (induction n rule: show_nat.induct)
  case (1 n)
  then show ?case
    by (subst (asm) show_nat.simps) (auto simp: is_digit_def split: if_splits)
qed

lemma digits_val_show_nat: "digits_val 0 (show_nat n) = Some n"
proof (induction n rule: show_nat.induct)
  case (1 n)
  show ?case
  proof (cases "n < 10")
    case True
    then show ?thesis by (subst show_nat.simps) (simp add: is_digit_def)
  next
    case False
    with 1 have "digits_val 0 (show_nat (n div 10)) = Some (n div 10)" by simp
    with False show ?thesis
      by (subst show_nat.simps) (simp add: digits_val_append is_digit_def)
  qed
qed

lemma parse_digits_show_nat [text_simps]: "parse_digits (show_nat n) = Some n"
  by (simp add: parse_digits_def digits_val_show_nat)

lemma strip_prefix_nondigit:
  "\<not> is_digit p \<Longrightarrow> strip_prefix [p] (show_nat n) = None"
  using show_nat_digits [of _ n] by (cases "show_nat n") auto

lemma parse_unsigned_show_nat [text_simps]: "n \<le> mx \<Longrightarrow> parse_unsigned mx (show_nat n) = Some n"
  by (simp add: parse_unsigned_def strip_prefix_nondigit is_digit_def parse_digits_show_nat)

lemma parse_i64_show_int [text_simps]:
  "- (2 ^ 63) \<le> i \<Longrightarrow> i < 2 ^ 63 \<Longrightarrow> parse_i64 (show_int i) = Some i"
  by (auto simp: parse_i64_def show_int_def strip_prefix_nondigit is_digit_def
        parse_digits_show_nat parse_unsigned_show_nat nat_le_iff nat_less_iff)

lemma trim_show_nat [text_simps]: "trim (show_nat n) = show_nat n"
proof -
  have b: "\<not> is_white c" if "c \<in> set (show_nat n)" for c
    using show_nat_digits [OF that] by (auto simp: is_white_def is_digit_def)
  have w: "dropWhile is_white s = s" if "\<And>c. c \<in> set s \<Longrightarrow> \<not> is_white c" for s
    using that by (cases s) auto
  from b w [of "show_nat n"] w [of "rev (show_nat n)"] show ?thesis
    by (simp add: trim_def trim_start_def trim_end_def)
qed

subsection \<open>Sorted search\<close>

lemma concat_chunks: "0 < n \<Longrightarrow> concat (chunks n xs) = xs"
  by (induction n xs rule: chunks.induct) (simp add: chunks.simps)

lemma chunks_sizes: "c \<in> set (chunks n xs) \<Longrightarrow> c \<noteq> [] \<and> length c \<le> n"
  by (induction n xs rule: chunks.induct) (subst (asm) (2) chunks.simps, auto split: if_splits)

lemma partition_point_le [simp]: "partition_point P xs \<le> length xs"
  by (simp add: partition_point_def length_takeWhile_le)

lemma partition_point_sat: "i < partition_point P xs \<Longrightarrow> P (xs ! i)"
  by (auto simp: partition_point_def takeWhile_nth dest: set_takeWhileD)
     (metis nth_mem set_takeWhileD takeWhile_nth)

lemma partition_point_unsat: "partition_point P xs < length xs \<Longrightarrow> \<not> P (xs ! partition_point P xs)"
  by (simp add: partition_point_def nth_length_takeWhile)

text \<open>
  Searching ordered, disjoint intervals: the last element below the key, tested for its upper end,
  is the one element that contains the key.
\<close>

lemma partition_point_Cons: "partition_point P (x # xs) = (if P x then Suc (partition_point P xs) else 0)"
  by (simp add: partition_point_def)

lemma partition_point_find:
  assumes "sorted_wrt (\<lambda>a b. P b \<longrightarrow> P a \<and> \<not> Q a) xs"
  shows "(case partition_point P xs of 0 \<Rightarrow> None | Suc i \<Rightarrow> if Q (xs ! i) then Some (xs ! i) else None)
    = List.find (\<lambda>x. P x \<and> Q x) xs"
  using assms
proof (induction xs)
  case Nil
  show ?case by (simp add: partition_point_def)
next
  case (Cons x xs)
  have none: "List.find (\<lambda>x. P x \<and> Q x) xs = None" if "\<not> P x"
    using that Cons.prems by (auto simp: find_None_iff)
  have skip: "\<not> Q x" if "partition_point P xs \<noteq> 0"
    using that Cons.prems by (cases xs) (auto simp: partition_point_Cons partition_point_def [of P "[]"] split: if_splits)
  show ?case
  proof (cases "partition_point P xs")
    case 0
    with Cons none show ?thesis by (auto simp: partition_point_Cons)
  next
    case (Suc i)
    with Cons none skip show ?thesis by (auto simp: partition_point_Cons)
  qed
qed

lemma takeWhile_sorted_le: "sorted xs \<Longrightarrow> takeWhile (\<lambda>x. x \<le> (t :: 'a :: linorder)) xs = filter (\<lambda>x. x \<le> t) xs"
  by (induction xs) (force simp: filter_empty_conv eq_commute [of "[]"])+

text \<open>The element before the partition point is the greatest one at most the key.\<close>

lemma partition_point_greatest:
  assumes "sorted xs"
  shows "partition_point (\<lambda>x. x \<le> (t :: 'a :: linorder)) xs = 0 \<Longrightarrow> x \<in> set xs \<Longrightarrow> \<not> x \<le> t"
    and "partition_point (\<lambda>x. x \<le> t) xs = Suc i \<Longrightarrow> xs ! i \<in> set xs \<and> xs ! i \<le> t \<and> (x \<in> set xs \<longrightarrow> x \<le> t \<longrightarrow> x \<le> xs ! i)"
proof -
  let ?f = "filter (\<lambda>x. x \<le> t) xs"
  have tw: "takeWhile (\<lambda>x. x \<le> t) xs = ?f" by (rule takeWhile_sorted_le [OF assms])
  show "partition_point (\<lambda>x. x \<le> t) xs = 0 \<Longrightarrow> x \<in> set xs \<Longrightarrow> \<not> x \<le> t"
    by (auto simp: partition_point_def tw filter_empty_conv)
  assume i: "partition_point (\<lambda>x. x \<le> t) xs = Suc i"
  then have len: "length ?f = Suc i" by (simp add: partition_point_def tw)
  have nth: "xs ! i = ?f ! i" using takeWhile_nth [of i "\<lambda>x. x \<le> t" xs] len tw by simp
  have srt: "sorted ?f" using assms by (rule sorted_wrt_filter)
  have "?f ! i \<in> set ?f" using len by (intro nth_mem) simp
  moreover have "x \<le> ?f ! i" if "x \<in> set ?f" for x
  proof -
    from that obtain j where "j < length ?f" "x = ?f ! j" by (metis in_set_conv_nth)
    then show ?thesis using len srt by (auto intro!: sorted_nth_mono)
  qed
  ultimately show "xs ! i \<in> set xs \<and> xs ! i \<le> t \<and> (x \<in> set xs \<longrightarrow> x \<le> t \<longrightarrow> x \<le> xs ! i)"
    unfolding nth by auto
qed

end
