(* ===== verification/Config.thy ===== *)
theory Config
  imports Prelude
begin

section \<open>The configuration file\<close>

text \<open>
  \<^verbatim>\<open>crates/config/src/lib.rs\<close>: reading and rewriting \<^verbatim>\<open>sentryusb.conf\<close>. A \<^verbatim>\<open>SetupConfig\<close> to be
  written is the list of its entries in the hash map's iteration order (the keys are distinct,
  the order is arbitrary); one that was read is the map itself. The file system is a map from
  paths to contents, and an input/output fault is an argument of \<open>write_file\<close>.
\<close>

type_synonym setup_config = "ustr \<Rightarrow> ustr option"
type_synonym setup_entries = "(ustr \<times> ustr) list"
type_synonym files = "ustr \<Rightarrow> ustr option"

datatype config_error =
    OpenFailed
  | InvalidKey ustr
  | NewlineInValue ustr
  | TmpCreateFailed
  | TmpWriteFailed
  | RenameFailed
  | BadSshPort ustr

definition to_ascii_lowercase :: "ustr \<Rightarrow> ustr" where
  "to_ascii_lowercase s = map ascii_lower s"

definition cifs_noserverino_enabled :: "setup_config \<Rightarrow> bool" where
  "cifs_noserverino_enabled config =
     (case config (lit ''CIFS_NOSERVERINO'') of
        None \<Rightarrow> False
      | Some value \<Rightarrow> to_ascii_lowercase (trim value)
          \<in> set [lit ''true'', lit ''yes'', lit ''1'', lit ''on''])"

definition validate_rsync_ssh_port :: "setup_config \<Rightarrow> config_error + nat option" where
  "validate_rsync_ssh_port config =
     (let raw = (case config (lit ''RSYNC_SSH_PORT'') of None \<Rightarrow> [] | Some v \<Rightarrow> trim v)
      in if raw = [] then Inr None
         else case parse_unsigned 65535 raw of
                Some port \<Rightarrow> if port > 0 then Inr (Some port) else Inl (BadSshPort raw)
              | None \<Rightarrow> Inl (BadSshPort raw))"

definition rsync_ssh_port :: "setup_config \<Rightarrow> nat option" where
  "rsync_ssh_port config =
     (case ok (validate_rsync_ssh_port config) of None \<Rightarrow> None | Some p \<Rightarrow> p)"

fun is_valid_key :: "ustr \<Rightarrow> bool" where
  "is_valid_key [] = False"
| "is_valid_key (first # rest) =
     ((is_alpha first \<or> first = 95) \<and> list_all (\<lambda>b. is_alnum b \<or> b = 95) rest)"

text \<open>The inline-comment scan of \<open>unquote\<close>: the first \<open>#\<close> preceded by a blank or a tab.\<close>

fun comment_cut :: "ustr \<Rightarrow> int \<Rightarrow> ustr \<Rightarrow> ustr option" where
  "comment_cut pre prev [] = None"
| "comment_cut pre prev (c # s) =
     (if c = 35 \<and> (prev = 32 \<or> prev = 9) then Some (rev pre)
      else comment_cut (prev # pre) c s)"

definition strip_comment :: "ustr \<Rightarrow> ustr" where
  "strip_comment s =
     (case s of [] \<Rightarrow> []
      | c # cs \<Rightarrow> (case comment_cut [] c cs of Some t \<Rightarrow> trim t | None \<Rightarrow> s))"

definition unquote :: "ustr \<Rightarrow> ustr" where
  "unquote s0 =
     (let s = trim s0
      in if length s \<ge> 2 \<and> (hd s = 39 \<and> last s = 39 \<or> hd s = 34 \<and> last s = 34)
         then butlast (tl s)
         else if take 2 s = [36, 39] \<and> last s = 39 \<and> length s \<ge> 3 then butlast (drop 2 s)
         else strip_comment s)"

definition special :: "int list" where
  "special = [32, 9, 10, 13, 39, 34, 92, 36, 33, 35, 38, 124, 59, 40, 41, 123, 125, 91, 93,
              60, 62, 63, 42, 126, 96]"

definition escape_quotes :: "ustr \<Rightarrow> ustr" where
  "escape_quotes s = concat (map (\<lambda>c. if c = 39 then [39, 92, 39, 39] else [c]) s)"

definition quote :: "ustr \<Rightarrow> ustr" where
  "quote s =
     (if s = [] then [39, 39]
      else if \<not> list_ex (\<lambda>c. c \<in> set special) s then s
      else [39] @ escape_quotes s @ [39])"

definition parse_key_value :: "ustr \<Rightarrow> (ustr \<times> ustr) option" where
  "parse_key_value s =
     (case split_once 61 s of
        None \<Rightarrow> None
      | Some (key, v) \<Rightarrow> if is_valid_key key then Some (key, unquote v) else None)"

definition parse_export_line :: "ustr \<Rightarrow> (ustr \<times> ustr) option" where
  "parse_export_line line =
     (case strip_prefix (lit ''export '') (trim_start line) of
        None \<Rightarrow> None
      | Some rest \<Rightarrow> parse_key_value rest)"

definition parse_commented_export_line :: "ustr \<Rightarrow> (ustr \<times> ustr) option" where
  "parse_commented_export_line line =
     (case strip_prefix [35] (trim_start line) of
        None \<Rightarrow> None
      | Some rest \<Rightarrow>
          (case strip_prefix (lit ''export '') (trim_start rest) of
             None \<Rightarrow> None
           | Some rest' \<Rightarrow> parse_key_value rest'))"

fun parse_lines :: "ustr list \<Rightarrow> setup_config \<Rightarrow> setup_config \<Rightarrow> setup_config \<times> setup_config" where
  "parse_lines [] active commented = (active, commented)"
| "parse_lines (line # ls) active commented =
     (case parse_export_line line of
        Some (key, val) \<Rightarrow> parse_lines ls (active(key \<mapsto> val)) commented
      | None \<Rightarrow>
          (case parse_commented_export_line line of
             Some (key, val) \<Rightarrow> parse_lines ls active (commented(key \<mapsto> val))
           | None \<Rightarrow> parse_lines ls active commented))"

definition parse_file :: "ustr \<Rightarrow> files \<Rightarrow> config_error + (setup_config \<times> setup_config)" where
  "parse_file path fs =
     (case fs path of
        None \<Rightarrow> Inl OpenFailed
      | Some content \<Rightarrow> Inr (parse_lines (str_lines content) Map.empty Map.empty))"

definition export_line :: "ustr \<Rightarrow> ustr \<Rightarrow> ustr" where
  "export_line key val = lit ''export '' @ key @ [61] @ quote val"

text \<open>
  The two loops of \<open>write_file\<close>. The first maps each line to an output line and notes the key it
  met; the second appends an export line for every entry whose key was not met.
\<close>

definition rewrite_line :: "setup_entries \<Rightarrow> ustr \<Rightarrow> ustr option \<times> ustr" where
  "rewrite_line cfg line =
     (case parse_export_line line of
        Some (key, _) \<Rightarrow>
          (Some key,
           case map_of cfg key of Some val \<Rightarrow> export_line key val | None \<Rightarrow> 35 # line)
      | None \<Rightarrow>
          (case parse_commented_export_line line of
             Some (key, _) \<Rightarrow>
               (Some key, case map_of cfg key of Some val \<Rightarrow> export_line key val | None \<Rightarrow> line)
           | None \<Rightarrow> (None, line)))"

definition new_lines :: "setup_entries \<Rightarrow> ustr \<Rightarrow> ustr list" where
  "new_lines cfg content =
     (let rs = map (rewrite_line cfg) (str_lines content);
          seen = List.map_filter fst rs
      in map snd rs @ map (\<lambda>(key, val). export_line key val) (filter (\<lambda>(key, val). key \<notin> set seen) cfg))"

text \<open>\<open><path>.tmp\<close>, then the rename over \<open>path\<close>, with the outcome of each call in \<open>fault\<close>.\<close>

definition replace_file :: "ustr \<Rightarrow> ustr write_fault \<Rightarrow> ustr \<Rightarrow> files \<Rightarrow> files \<times> (config_error + unit)" where
  "replace_file path fault content fs =
     (let tmp = path @ lit ''.tmp''
      in case fault of
           CreateFault \<Rightarrow> (fs, Inl TmpCreateFailed)
         | WriteFault partial \<Rightarrow> (fs(tmp \<mapsto> partial), Inl TmpWriteFailed)
         | RenameFault \<Rightarrow> (fs(tmp := None), Inl RenameFailed)
         | NoFault \<Rightarrow> (fs(tmp := None, path \<mapsto> content), Inr ()))"

definition write_file ::
  "ustr \<Rightarrow> setup_entries \<Rightarrow> ustr write_fault \<Rightarrow> files \<Rightarrow> files \<times> (config_error + unit)" where
  "write_file path cfg fault fs =
     (case find (\<lambda>(k, v). \<not> is_valid_key k) cfg of
        Some (bad, _) \<Rightarrow> (fs, Inl (InvalidKey bad))
      | None \<Rightarrow>
          (case find (\<lambda>(k, v). 10 \<in> set v \<or> 13 \<in> set v) cfg of
             Some (k, _) \<Rightarrow> (fs, Inl (NewlineInValue k))
           | None \<Rightarrow>
               (case fs path of
                  None \<Rightarrow> (fs, Inl OpenFailed)
                | Some content \<Rightarrow> replace_file path fault (unlines (new_lines cfg content)) fs)))"

definition get_config_value :: "setup_config \<Rightarrow> setup_config \<Rightarrow> ustr \<Rightarrow> ustr option" where
  "get_config_value active commented key =
     (case active key of Some v \<Rightarrow> Some v | None \<Rightarrow> commented key)"

subsection \<open>Quoting\<close>

lemma comment_cut_no_hash: "35 \<notin> set s \<Longrightarrow> comment_cut pre c s = None"
  by (induction s arbitrary: pre c) auto

lemma strip_comment_no_hash: "35 \<notin> set s \<Longrightarrow> strip_comment s = s"
  by (auto simp: strip_comment_def comment_cut_no_hash split: list.splits)

lemma set_trim: "set (trim s) \<subseteq> set s"
  using set_dropWhileD [of _ is_white s]
  by (auto simp: trim_def trim_start_def trim_end_def dest!: set_dropWhileD)

lemma unquote_bare:
  assumes "\<not> list_ex (\<lambda>c. c \<in> set special) s"
  shows "unquote s = trim s"
proof -
  have no: "c \<notin> set (trim s)" if "c \<in> set special" for c
    using assms that set_trim [of s] by (auto simp: list_ex_iff)
  have h: "hd (trim s) \<noteq> q" if "q \<in> set special" "trim s \<noteq> []" for q
    using no [OF that(1)] that(2) by (metis list.set_sel(1))
  have "take 2 (trim s) \<noteq> [36, 39]"
  proof
    assume "take 2 (trim s) = [36, 39]"
    then have "36 \<in> set (trim s)" by (metis in_set_takeD list.set_intros(1))
    with no [of 36] show False by (simp add: special_def)
  qed
  moreover have "\<not> (length (trim s) \<ge> 2 \<and> (hd (trim s) = 39 \<or> hd (trim s) = 34))"
    using h [of 39] h [of 34] by (cases "trim s = []") (auto simp: special_def)
  ultimately show ?thesis
    using no [of 35] by (auto simp: unquote_def Let_def special_def strip_comment_no_hash)
qed

lemma unquote_wrapped: "unquote ([39] @ s @ [39]) = s"
proof -
  have "trim ([39] @ s @ [39]) = [39] @ s @ [39]"
    using trim_black_ends [of 39 39 s] by (simp add: is_white_def)
  then show ?thesis by (simp add: unquote_def Let_def butlast_append)
qed

lemma escape_quotes_Cons:
  "escape_quotes (c # s) = (if c = 39 then [39, 92, 39, 39] else [c]) @ escape_quotes s"
  by (simp add: escape_quotes_def)

lemma length_escape_quotes: "length s \<le> length (escape_quotes s)"
  by (induction s) (auto simp: escape_quotes_def)

lemma escape_quotes_id_iff: "escape_quotes s = s \<longleftrightarrow> 39 \<notin> set s"
proof (induction s)
  case Nil
  show ?case by (simp add: escape_quotes_def)
next
  case (Cons c s)
  show ?case
  proof (cases "c = 39")
    case True
    have "length (escape_quotes (c # s)) \<noteq> length (c # s)"
      using True length_escape_quotes [of s] by (simp add: escape_quotes_Cons)
    then have "escape_quotes (c # s) \<noteq> c # s" by metis
    with True show ?thesis by simp
  next
    case False
    with Cons show ?thesis by (simp add: escape_quotes_Cons)
  qed
qed

text \<open>A value needs no quotes when it has none of the characters \<open>quote\<close> looks for.\<close>

definition bare :: "ustr \<Rightarrow> bool" where
  "bare v \<longleftrightarrow> \<not> list_ex (\<lambda>c. c \<in> set special) v"

lemma unquote_quote:
  "unquote (quote v) = (if bare v then trim v else escape_quotes v)"
  using unquote_wrapped [of "[]"] unquote_wrapped [of "escape_quotes v"]
  by (auto simp: quote_def bare_def unquote_bare)

subsection \<open>Lines\<close>

lemma unquote_snoc_cr: "unquote (s @ [13]) = unquote s"
  by (simp add: unquote_def trim_snoc_white is_white_def)

lemma parse_key_value_snoc_cr: "parse_key_value (s @ [13]) = parse_key_value s"
  by (auto simp: parse_key_value_def split_once_snoc unquote_snoc_cr split: option.splits prod.splits)

lemma parse_export_line_snoc_cr: "parse_export_line (l @ [13]) = parse_export_line l"
proof (cases "trim_start l = []")
  case True
  then show ?thesis by (simp add: parse_export_line_def trim_start_append_white is_white_def)
next
  case False
  then show ?thesis
    by (auto simp: parse_export_line_def trim_start_append_white strip_prefix_snoc
          parse_key_value_snoc_cr split: option.splits)
qed

lemma parse_export_line_strip_cr [simp]: "parse_export_line (strip_cr l) = parse_export_line l"
  by (metis append_butlast_last_id parse_export_line_snoc_cr strip_cr_def)

lemma parse_export_line_hash [simp]: "parse_export_line (35 # l) = None"
  by (simp add: parse_export_line_def trim_start_black is_white_def)

lemma valid_key_no_eq: "is_valid_key k \<Longrightarrow> 61 \<notin> set k"
  by (cases k) (auto simp: is_alpha_def is_alnum_def is_digit_def list_all_iff)

lemma parse_export_line_export_line:
  "is_valid_key k \<Longrightarrow> parse_export_line (export_line k v) = Some (k, unquote (quote v))"
  using valid_key_no_eq [of k]
  by (simp add: parse_export_line_def export_line_def trim_start_black is_white_def
        parse_key_value_def split_once_append)

lemma parse_lines_active:
  "fst (parse_lines ls a c) = a ++ map_of (rev (List.map_filter parse_export_line ls))"
proof (induction ls arbitrary: a c)
  case Nil
  show ?case by (simp add: map_filter_simps)
next
  case (Cons l ls)
  show ?case
    by (auto simp: Cons map_filter_simps map_add_def fun_eq_iff split: option.splits)
qed

subsection \<open>What a rewrite produces\<close>

text \<open>An output line is inert or the export line of an entry; no line holds a line feed.\<close>

definition good_line :: "setup_entries \<Rightarrow> ustr \<Rightarrow> bool" where
  "good_line cfg l \<longleftrightarrow>
     10 \<notin> set l \<and>
     (parse_export_line l = None \<or> (\<exists>k v. map_of cfg k = Some v \<and> l = export_line k v))"

definition clean_entries :: "setup_entries \<Rightarrow> bool" where
  "clean_entries cfg \<longleftrightarrow> (\<forall>(k, v) \<in> set cfg. is_valid_key k \<and> 10 \<notin> set v \<and> 13 \<notin> set v)"

lemma quote_no_lf: "10 \<notin> set v \<Longrightarrow> 10 \<notin> set (quote v)"
  by (auto simp: quote_def escape_quotes_def)

lemma good_export_line:
  assumes "clean_entries cfg" "map_of cfg k = Some v"
  shows "good_line cfg (export_line k v)"
proof -
  from assms have "is_valid_key k" "10 \<notin> set v"
    by (auto simp: clean_entries_def dest: map_of_SomeD)
  then have "10 \<notin> set (export_line k v)"
    using quote_no_lf [of v]
    by (cases k) (auto simp: export_line_def is_alpha_def is_alnum_def is_digit_def list_all_iff)
  with assms(2) show ?thesis by (auto simp: good_line_def)
qed

lemma rewrite_line_good:
  assumes "clean_entries cfg" "10 \<notin> set line"
  shows "good_line cfg (snd (rewrite_line cfg line))"
  using assms good_export_line [OF assms(1)]
  by (auto simp: rewrite_line_def good_line_def split: option.splits)

lemma rewrite_line_seen:
  assumes "fst (rewrite_line cfg line) = Some k" "map_of cfg k = Some v"
  shows "snd (rewrite_line cfg line) = export_line k v"
  using assms by (auto simp: rewrite_line_def split: option.splits prod.splits)

lemma new_lines_good:
  assumes "clean_entries cfg" "distinct (map fst cfg)" "l \<in> set (new_lines cfg content)"
  shows "good_line cfg l"
  using assms
  by (auto simp: new_lines_def Let_def rewrite_line_good str_lines_no_lf good_export_line
        map_of_eq_Some_iff split: prod.splits)

lemma new_lines_complete:
  assumes "map_of cfg k = Some v"
  shows "export_line k v \<in> set (new_lines cfg content)"
proof (cases "\<exists>l \<in> set (str_lines content). fst (rewrite_line cfg l) = Some k")
  case True
  then obtain l where "l \<in> set (str_lines content)" "fst (rewrite_line cfg l) = Some k" by blast
  with rewrite_line_seen [OF _ assms] show ?thesis
    by (auto simp: new_lines_def Let_def intro!: image_eqI [where x = l])
next
  case False
  then have "k \<notin> set (List.map_filter fst (map (rewrite_line cfg) (str_lines content)))"
    by (auto simp: List.map_filter_def)
  with map_of_SomeD [OF assms] show ?thesis
    by (auto simp: new_lines_def Let_def intro!: rev_image_eqI [where x = "(k, v)"])
qed

lemma find_clean:
  assumes "find (\<lambda>(k, v). \<not> is_valid_key k) cfg = None"
    and "find (\<lambda>(k, v). 10 \<in> set v \<or> 13 \<in> set v) cfg = None"
  shows "clean_entries cfg"
  using assms by (auto simp: clean_entries_def find_None_iff)

lemma write_file_ok:
  assumes "write_file path cfg fault fs = (fs', Inr ())"
  shows "clean_entries cfg \<and>
    (\<exists>content. fs path = Some content \<and> fs' path = Some (unlines (new_lines cfg content)))"
  using assms find_clean [of cfg]
  by (auto simp: write_file_def replace_file_def Let_def split: option.splits write_fault.splits)

lemma export_in_new_lines:
  assumes "clean_entries cfg" "distinct (map fst cfg)"
  shows "map_of (rev (List.map_filter parse_export_line (new_lines cfg content)))
    = (\<lambda>k. map_option (\<lambda>v. unquote (quote v)) (map_of cfg k))" (is "map_of (rev ?xs) = ?m")
proof
  fix k
  have key: "is_valid_key k'" if "map_of cfg k' = Some v" for k' v
    using that assms(1) by (auto simp: clean_entries_def dest: map_of_SomeD)
  have sound: "?m k' = Some x" if "(k', x) \<in> set ?xs" for k' x
    using that new_lines_good [OF assms] parse_export_line_export_line [OF key]
    by (force simp: List.map_filter_def good_line_def)
  show "map_of (rev ?xs) k = ?m k"
  proof (cases "map_of cfg k")
    case None
    have "map_of (rev ?xs) k = None"
    proof (rule ccontr)
      assume "map_of (rev ?xs) k \<noteq> None"
      then obtain x where "(k, x) \<in> set ?xs" by (auto dest: map_of_SomeD)
      with sound None show False by fastforce
    qed
    with None show ?thesis by simp
  next
    case (Some v)
    have "(k, unquote (quote v)) \<in> set ?xs"
      using new_lines_complete [OF Some] parse_export_line_export_line [OF key [OF Some]]
      by (force simp: List.map_filter_def)
    then obtain y where y: "map_of (rev ?xs) k = Some y"
      by (metis option.exhaust set_rev weak_map_of_SomeI option.distinct(1))
    then have "?m k = Some y"
      by (intro sound) (metis map_of_SomeD set_rev)
    with y show ?thesis by metis
  qed
qed

lemma parse_unlines_new_lines:
  assumes "clean_entries cfg" "distinct (map fst cfg)"
  shows "fst (parse_lines (str_lines (unlines (new_lines cfg content))) Map.empty Map.empty)
    = (\<lambda>k. map_option (\<lambda>v. unquote (quote v)) (map_of cfg k))"
proof -
  have "str_lines (unlines (new_lines cfg content)) = map strip_cr (new_lines cfg content)"
    using new_lines_good [OF assms] by (intro str_lines_unlines) (auto simp: good_line_def)
  moreover have "List.map_filter parse_export_line (map strip_cr ls)
      = List.map_filter parse_export_line ls" for ls
    by (induction ls) (simp_all add: map_filter_simps split: option.splits)
  ultimately show ?thesis
    by (simp add: parse_lines_active export_in_new_lines [OF assms])
qed

interpretation conf_file: atomic_writer "replace_file path" path for path
  by unfold_locales
     (auto simp: replace_file_def Let_def split: write_fault.splits)

subsection \<open>Properties\<close>



text \<open>
  Exactly which values survive \<open>quote\<close> followed by \<open>unquote\<close>: a value without special
  characters iff it has no white space at its ends, any other value iff it has no single quote
  (\<open>quote\<close> turns \<open>'\<close> into \<open>'\''\<close> and \<open>unquote\<close> never turns it back).
\<close>

theorem quote_survives_iff:
  "unquote (quote v) = v \<longleftrightarrow> (if bare v then trim v = v else 39 \<notin> set v)"
  by (simp add: unquote_quote escape_quotes_id_iff)

text \<open>
  \<open>write_file\<close> replaces the file as a whole or leaves it alone: whatever the fault, the file
  holds its old content or the complete new text, and it holds the old content whenever the
  call reports an error.
\<close>

theorem config_write_atomic:
  assumes "fs path = Some content"
  shows "fst (write_file path cfg fault fs) path \<in> {fs path, Some (unlines (new_lines cfg content))}
    \<and> (\<not> is_ok (snd (write_file path cfg fault fs)) \<longrightarrow>
        fst (write_file path cfg fault fs) path = fs path)"
proof -
  let ?new = "unlines (new_lines cfg content)"
  have "fst (write_file path cfg fault fs) = fs
      \<or> write_file path cfg fault fs = replace_file path fault ?new fs"
    using assms by (auto simp: write_file_def split: option.splits)
  then show ?thesis
    using conf_file.old_or_new [of path fault ?new fs] conf_file.write_err [of path fault ?new fs]
    by (cases "replace_file path fault ?new fs"; cases "snd (replace_file path fault ?new fs)") auto
qed

theorem config_write_atomic_witness:
  "[lit ''c'' \<mapsto> lit ''export A=1''] (lit ''c'') = Some (lit ''export A=1'') \<and>
   snd (write_file (lit ''c'') [] RenameFault [lit ''c'' \<mapsto> lit ''export A=1'']) = Inl RenameFailed \<and>
   fst (write_file (lit ''c'') [] RenameFault [lit ''c'' \<mapsto> lit ''export A=1'']) (lit ''c'')
     = Some (lit ''export A=1'')"
proof -
  let ?fs = "[lit ''c'' \<mapsto> lit ''export A=1'']"
  have 1: "?fs (lit ''c'') = Some (lit ''export A=1'')" by code_simp
  have 2: "snd (write_file (lit ''c'') [] RenameFault ?fs) = Inl RenameFailed" by code_simp
  show ?thesis using 1 2 config_write_atomic [where fs = ?fs, OF 1, of "[]" RenameFault] by simp
qed

text \<open>
  The rewrite keeps the file's structure: line \<open>i\<close> of the old file corresponds to line \<open>i\<close> of
  the new one, a line that is neither an export nor a commented export is copied unchanged, and
  an active variable that is no longer configured is commented out in a form from which
  \<open>parse_commented_export_line\<close> reads the same key and value.
\<close>

theorem config_write_structure:
  assumes "i < length (str_lines content)" and "line = str_lines content ! i"
  shows "case parse_export_line line of
      None \<Rightarrow> parse_commented_export_line line = None \<longrightarrow> new_lines cfg content ! i = line
    | Some (k, v) \<Rightarrow> map_of cfg k = None \<longrightarrow>
        parse_export_line (new_lines cfg content ! i) = None \<and>
        parse_commented_export_line (new_lines cfg content ! i) = Some (k, v)"
proof -
  have n: "new_lines cfg content ! i = snd (rewrite_line cfg line)"
    using assms by (simp add: new_lines_def Let_def nth_append)
  have c: "parse_commented_export_line (35 # l) = parse_export_line l" for l
    by (simp add: parse_commented_export_line_def parse_export_line_def trim_start_black is_white_def)
  show ?thesis
    by (auto simp: n rewrite_line_def c split: option.splits prod.splits)
qed

theorem config_write_structure_witness:
  "0 < length (str_lines (lit ''export A=1'')) \<and>
   parse_export_line (str_lines (lit ''export A=1'') ! 0) = Some (lit ''A'', lit ''1'') \<and>
   parse_commented_export_line (new_lines [(lit ''B'', lit ''2'')] (lit ''export A=1'') ! 0)
     = Some (lit ''A'', lit ''1'')"
proof -
  have 1: "0 < length (str_lines (lit ''export A=1''))" by code_simp
  have 2: "parse_export_line (str_lines (lit ''export A=1'') ! 0) = Some (lit ''A'', lit ''1'')"
    by code_simp
  have 3: "map_of [(lit ''B'', lit ''2'')] (lit ''A'') = None" by code_simp
  show ?thesis
    using 1 2 3 config_write_structure [OF 1 refl, of "[(lit ''B'', lit ''2'')]"] by simp
qed

text \<open>
  A hostile key or a multi-line value is refused before anything is touched: if some key is
  not a plain shell identifier or some value contains a line break, \<open>write_file\<close> returns an
  error and the file system is unchanged.
\<close>

theorem config_write_refuses:
  assumes "(k, v) \<in> set cfg" and "\<not> is_valid_key k \<or> 10 \<in> set v \<or> 13 \<in> set v"
  shows "\<not> is_ok (snd (write_file path cfg fault fs)) \<and> fst (write_file path cfg fault fs) = fs"
proof -
  have "\<not> clean_entries cfg" using assms by (auto simp: clean_entries_def)
  with find_clean [of cfg] show ?thesis
    by (auto simp: write_file_def split: option.splits)
qed

theorem config_write_refuses_witness:
  "(lit ''A\<newline>B'', lit ''1'') \<in> set [(lit ''A\<newline>B'', lit ''1'')] \<and>
   \<not> is_ok (snd (write_file (lit ''c'') [(lit ''A\<newline>B'', lit ''1'')] NoFault [lit ''c'' \<mapsto> []])) \<and>
   fst (write_file (lit ''c'') [(lit ''A\<newline>B'', lit ''1'')] NoFault [lit ''c'' \<mapsto> []])
     = [lit ''c'' \<mapsto> []]"
proof -
  have 1: "(lit ''A\<newline>B'', lit ''1'') \<in> set [(lit ''A\<newline>B'', lit ''1'')]" by simp
  have 2: "\<not> is_valid_key (lit ''A\<newline>B'') \<or> 10 \<in> set (lit ''1'') \<or> 13 \<in> set (lit ''1'')"
    by code_simp
  show ?thesis using 1 config_write_refuses [OF 1 2] by blast
qed

end
