(* ===== verification/FreeSpace.thy ===== *)
theory FreeSpace
  imports Prelude "HOL-Library.Sublist"
begin

section \<open>Free-space management\<close>

text \<open>
  \<^verbatim>\<open>crates/usb_gadget/src/space.rs\<close>: the block and inode reserves, the stall guard, the choice of
  the snapshots that may be released, and the whole of \<open>manage_free_space\<close>. The host (the two
  \<^verbatim>\<open>stat\<close> calls, \<^verbatim>\<open>/proc/mounts\<close>, the latch file, the snapshots-directory lock) and the snapshot
  operations it calls are fields of a record over an arbitrary world; sizes are natural numbers
  bounded by \<open>u64_max\<close> where the code parses or saturates them. Next to its result the loop
  returns the names it released, in order (the code logs each of them).
\<close>

datatype stat_output = StatSpawnError | StatExit bool ustr

datatype space_error =
    LockBusy
  | StatFailed
  | UnexpectedStatOutput
  | BadStatNumber
  | ZeroCapacity
  | ReserveAboveCapacity
  | NoSnapshotsInodes
  | NoSnapshotsBlocks
  | OnlyProtectedInodes nat
  | OnlyProtectedBlocks nat
  | InodePressureStall "nat option"
  | StillBelowReserve

record 'w host =
  h_lock :: "'w \<Rightarrow> bool"
  h_space :: "'w \<Rightarrow> stat_output"
  h_inodes :: "'w \<Rightarrow> stat_output"
  h_mounts :: "'w \<Rightarrow> ustr option"
  h_latch :: "'w \<Rightarrow> ustr option"
  h_write_latch :: "ustr \<Rightarrow> 'w \<Rightarrow> 'w"
  h_remove_latch :: "'w \<Rightarrow> 'w"
  h_snapshots_by_age :: "'w \<Rightarrow> ustr list"
  h_release :: "ustr \<Rightarrow> 'w \<Rightarrow> 'w \<times> bool"

definition inode_reserve_floor :: nat where "inode_reserve_floor = 20000"
definition inode_reserve_divisor :: nat where "inode_reserve_divisor = 20"
definition inode_reserve_cap_divisor :: nat where "inode_reserve_cap_divisor = 4"
definition max_stale_inode_releases :: nat where "max_stale_inode_releases = 3"
definition fixed_reserve_bytes :: nat where "fixed_reserve_bytes = 10 * 1024 * 1024 * 1024"
definition reserve_pct_divisor :: nat where "reserve_pct_divisor = 33"

definition inode_reserve :: "nat \<Rightarrow> nat" where
  "inode_reserve total_inodes =
     min (max (total_inodes div inode_reserve_divisor) inode_reserve_floor)
         (total_inodes div inode_reserve_cap_divisor)"

definition default_reserve_bytes :: "nat \<Rightarrow> nat" where
  "default_reserve_bytes tot = sat_add64 fixed_reserve_bytes (tot div reserve_pct_divisor)"

text \<open>One line of \<^verbatim>\<open>/proc/mounts\<close>: device, mount point, type, options.\<close>

definition mount_line_rw :: "ustr \<Rightarrow> bool" where
  "mount_line_rw line =
     (case split_whitespace line of
        _ # mp # _ # opts # _ \<Rightarrow> mp = lit ''/mutable'' \<and> lit ''rw'' \<in> set (split_on 44 opts)
      | _ \<Rightarrow> False)"

definition mutable_rw_mounted :: "ustr option \<Rightarrow> bool" where
  "mutable_rw_mounted mounts =
     (case mounts of None \<Rightarrow> False | Some m \<Rightarrow> list_ex mount_line_rw (str_lines m))"

definition targets_met :: "nat \<Rightarrow> nat \<Rightarrow> nat option \<Rightarrow> nat \<Rightarrow> bool" where
  "targets_met free reserve free_inodes ireserve \<longleftrightarrow>
     free \<ge> reserve \<and> (case free_inodes of None \<Rightarrow> True | Some f \<Rightarrow> f > ireserve)"

text \<open>\<open>StallGuard::record\<close> on the counter \<open>consecutive\<close>: the new counter and whether it trips.\<close>

definition stall_record :: "nat \<Rightarrow> bool \<Rightarrow> nat option \<Rightarrow> nat option \<Rightarrow> nat \<times> bool" where
  "stall_record consecutive block_target_met inodes_before inodes_after =
     (if \<not> block_target_met then (0, False)
      else case (inodes_before, inodes_after) of
             (Some before, Some after) \<Rightarrow>
               if after \<le> before
               then (consecutive + 1, consecutive + 1 \<ge> max_stale_inode_releases)
               else (0, False)
           | _ \<Rightarrow> (0, False))"

text \<open>The numeric slot of a name: \<^verbatim>\<open>snap-\<close>, then digits only, within \<^verbatim>\<open>u32\<close>.\<close>

definition slot_num :: "ustr \<Rightarrow> nat option" where
  "slot_num name =
     (case strip_prefix (lit ''snap-'') name of
        None \<Rightarrow> None
      | Some s \<Rightarrow>
          if s \<noteq> [] \<and> list_all is_digit s then parse_unsigned (2 ^ 32 - 1) s else None)"

text \<open>
  \<^verbatim>\<open>max_by_key\<close> returns the last of several maximal elements.
\<close>

fun max_slot :: "ustr list \<Rightarrow> (nat \<times> ustr) option \<Rightarrow> (nat \<times> ustr) option" where
  "max_slot [] best = best"
| "max_slot (n # ns) best =
     (case slot_num n of
        None \<Rightarrow> max_slot ns best
      | Some s \<Rightarrow>
          max_slot ns (case best of None \<Rightarrow> Some (s, n)
                       | Some (b, m) \<Rightarrow> if s \<ge> b then Some (s, n) else Some (b, m)))"

definition releasable :: "ustr list \<Rightarrow> ustr list" where
  "releasable in_age_order =
     (if length in_age_order < 2 then []
      else case max_slot in_age_order None of
             None \<Rightarrow> butlast in_age_order
           | Some (_, highest) \<Rightarrow> filter (\<lambda>n. n \<noteq> highest) (butlast in_age_order))"

definition get_space :: "stat_output \<Rightarrow> space_error + nat \<times> nat" where
  "get_space out =
     (case out of
        StatSpawnError \<Rightarrow> Inl StatFailed
      | StatExit success stdout \<Rightarrow>
          if \<not> success then Inl StatFailed
          else case split_whitespace stdout of
                 p0 # p1 # p2 # _ \<Rightarrow>
                   bindR (ok_or BadStatNumber (parse_unsigned u64_max p0)) (\<lambda>blocks.
                   bindR (ok_or BadStatNumber (parse_unsigned u64_max p1)) (\<lambda>block_size.
                   bindR (ok_or BadStatNumber (parse_unsigned u64_max p2)) (\<lambda>free_blocks.
                     if blocks = 0 \<or> block_size = 0 then Inl ZeroCapacity
                     else Inr (sat_mul64 blocks block_size, sat_mul64 free_blocks block_size))))
               | _ \<Rightarrow> Inl UnexpectedStatOutput)"

definition get_inodes :: "stat_output \<Rightarrow> space_error + nat \<times> nat" where
  "get_inodes out =
     (case out of
        StatSpawnError \<Rightarrow> Inl StatFailed
      | StatExit success stdout \<Rightarrow>
          if \<not> success then Inl StatFailed
          else case split_whitespace stdout of
                 p0 # p1 # _ \<Rightarrow>
                   bindR (ok_or BadStatNumber (parse_unsigned u64_max p0)) (\<lambda>tot.
                   bindR (ok_or BadStatNumber (parse_unsigned u64_max p1)) (\<lambda>free.
                     if tot = 0 then Inl ZeroCapacity else Inr (tot, free)))
               | _ \<Rightarrow> Inl UnexpectedStatOutput)"

definition read_stall_latch :: "ustr option \<Rightarrow> nat option" where
  "read_stall_latch latch =
     (case latch of None \<Rightarrow> None | Some s \<Rightarrow> parse_unsigned u64_max (trim s))"

definition halt_inode_eviction :: "'w host \<Rightarrow> nat option \<Rightarrow> 'w \<Rightarrow> 'w" where
  "halt_inode_eviction h free_inodes w =
     h_write_latch h (show_nat (case free_inodes of None \<Rightarrow> 0 | Some f \<Rightarrow> f)) w"

text \<open>\<^verbatim>\<open>/mutable\<close>'s inode figures, only while it is mounted read-write and readable.\<close>

definition mutable_inodes :: "'w host \<Rightarrow> 'w \<Rightarrow> (nat \<times> nat) option" where
  "mutable_inodes h w =
     (if mutable_rw_mounted (h_mounts h w) then ok (get_inodes (h_inodes h w)) else None)"

definition meets_default_reserve :: "'w host \<Rightarrow> 'w \<Rightarrow> space_error + bool" where
  "meets_default_reserve h w =
     bindR (get_space (h_space h w)) (\<lambda>(tot, free).
       let mi = mutable_inodes h w;
           ireserve = (case mi of None \<Rightarrow> 0 | Some (t, _) \<Rightarrow> inode_reserve t)
       in Inr (h_latch h w = None \<and>
               targets_met free (default_reserve_bytes tot) (map_option snd mi) ireserve))"

text \<open>The free inodes read before and after a release while the inode policy is on.\<close>

definition probe_inodes :: "'w host \<Rightarrow> nat \<Rightarrow> 'w \<Rightarrow> nat option" where
  "probe_inodes h ireserve w =
     (if ireserve > 0 then map_option snd (ok (get_inodes (h_inodes h w))) else None)"

fun release_loop ::
  "'w host \<Rightarrow> nat \<Rightarrow> nat \<Rightarrow> ustr list \<Rightarrow> nat \<Rightarrow> 'w \<Rightarrow> 'w \<times> ustr list \<times> (space_error + bool)" where
  "release_loop h reserve ireserve [] guard w = (w, [], Inr False)"
| "release_loop h reserve ireserve (snap # snaps) guard w =
     (let inodes_before = probe_inodes h ireserve w;
          (w1, released) = h_release h snap w
      in if \<not> released then release_loop h reserve ireserve snaps guard w1
         else case get_space (h_space h w1) of
                Inl e \<Rightarrow> (w1, [snap], Inl e)
              | Inr (_, new_free) \<Rightarrow>
                  let new_free_inodes = probe_inodes h ireserve w1
                  in if targets_met new_free reserve new_free_inodes ireserve
                     then (w1, [snap], Inr True)
                     else let (guard', trip) =
                                (if ireserve > 0
                                 then stall_record guard (new_free \<ge> reserve) inodes_before new_free_inodes
                                 else (guard, False))
                          in if trip
                             then ((case new_free_inodes of None \<Rightarrow> w1
                                    | Some f \<Rightarrow> h_write_latch h (show_nat f) w1),
                                   [snap], Inl (InodePressureStall new_free_inodes))
                             else (let (w2, rel, res) = release_loop h reserve ireserve snaps guard' w1
                                   in (w2, snap # rel, res)))"

text \<open>The inode target after the unreachable-target check and the standing latch were applied.\<close>

definition inode_target :: "(nat \<times> nat) option \<Rightarrow> nat \<times> nat option" where
  "inode_target mi =
     (case mi of
        None \<Rightarrow> (0, None)
      | Some (t, f) \<Rightarrow> if inode_reserve t \<ge> t then (0, None) else (inode_reserve t, Some f))"

definition honor_latch :: "'w host \<Rightarrow> nat \<times> nat option \<Rightarrow> 'w \<Rightarrow> 'w \<times> nat \<times> nat option" where
  "honor_latch h target w =
     (case read_stall_latch (h_latch h w) of
        None \<Rightarrow> (w, target)
      | Some latched \<Rightarrow>
          (case snd target of
             Some now \<Rightarrow> if now > latched then (h_remove_latch h w, target) else (w, 0, None)
           | None \<Rightarrow> (w, 0, None)))"

definition manage_free_space ::
  "'w host \<Rightarrow> nat option \<Rightarrow> 'w \<Rightarrow> 'w \<times> ustr list \<times> (space_error + unit)" where
  "manage_free_space h reserve_bytes w0 =
     (if \<not> h_lock h w0 then (w0, [], Inl LockBusy)
      else case get_space (h_space h w0) of
        Inl e \<Rightarrow> (w0, [], Inl e)
      | Inr (tot, free) \<Rightarrow>
          let reserve = (case reserve_bytes of Some r \<Rightarrow> r | None \<Rightarrow> default_reserve_bytes tot)
          in if reserve \<ge> tot then (w0, [], Inl ReserveAboveCapacity)
             else let (w, ireserve, free_inodes) = honor_latch h (inode_target (mutable_inodes h w0)) w0
                  in if targets_met free reserve free_inodes ireserve then (w, [], Inr ())
                     else let snapshots = h_snapshots_by_age h w
                          in if snapshots = []
                             then (if free \<ge> reserve
                                   then (halt_inode_eviction h free_inodes w, [], Inl NoSnapshotsInodes)
                                   else (w, [], Inl NoSnapshotsBlocks))
                             else if releasable snapshots = []
                             then (if free \<ge> reserve
                                   then (halt_inode_eviction h free_inodes w, [],
                                         Inl (OnlyProtectedInodes (length snapshots)))
                                   else (w, [], Inl (OnlyProtectedBlocks (length snapshots))))
                             else (case release_loop h reserve ireserve (releasable snapshots) 0 w of
                                     (w', rel, Inl e) \<Rightarrow> (w', rel, Inl e)
                                   | (w', rel, Inr recovered) \<Rightarrow>
                                       (w', rel, if recovered then Inr () else Inl StillBelowReserve)))"

subsection \<open>Reserves\<close>

lemmas reserve_defs = inode_reserve_def default_reserve_bytes_def inode_reserve_floor_def
  inode_reserve_divisor_def inode_reserve_cap_divisor_def fixed_reserve_bytes_def
  reserve_pct_divisor_def sat_add64_def u64_max_def

lemma inode_reserve_quarter: "4 * inode_reserve t \<le> t"
  by (auto simp: reserve_defs min_def)

lemma inode_reserve_less: "0 < t \<Longrightarrow> inode_reserve t < t"
  using inode_reserve_quarter [of t] by linarith

lemma get_inodes_pos: "get_inodes out = Inr (t, f) \<Longrightarrow> 0 < t"
  by (auto simp: get_inodes_def res_simps split: stat_output.splits if_splits list.splits)

lemma get_space_pos: "get_space out = Inr (t, f) \<Longrightarrow> 0 < t \<and> t \<le> u64_max"
  by (auto simp: get_space_def res_simps sat_mul64_def u64_max_def
        split: stat_output.splits if_splits list.splits)

subsection \<open>Which snapshots may be released\<close>

lemma max_slot_bounds:
  assumes "max_slot ns best = Some (s, n)"
  shows "(n \<in> set ns \<and> slot_num n = Some s \<or> best = Some (s, n)) \<and>
    (\<forall>m \<in> set ns. \<forall>t. slot_num m = Some t \<longrightarrow> t \<le> s) \<and> (\<forall>b m. best = Some (b, m) \<longrightarrow> b \<le> s)"
  using assms
proof (induction ns best rule: max_slot.induct)
  case (1 best)
  then show ?case by simp
next
  case (2 n' ns best)
  show ?case
  proof (cases "slot_num n'")
    case None
    with 2 show ?thesis by auto
  next
    case (Some t)
    with 2 show ?thesis by (auto split: option.splits if_splits)
  qed
qed

lemma max_slot_Some: "slot_num m = Some t \<Longrightarrow> m \<in> set ns \<or> best \<noteq> None \<Longrightarrow> max_slot ns best \<noteq> None"
  by (induction ns best rule: max_slot.induct) (auto split: option.splits)

lemma releasable_subseq: "subseq (releasable xs) xs"
proof -
  have "subseq (butlast xs) xs"
    by (metis append_butlast_last_id butlast.simps(1) subseq_order.refl subseq_rev_drop_many)
  then show ?thesis
    by (auto simp: releasable_def intro: subseq_order.trans [OF subseq_filter_left]
          split: option.splits)
qed

lemma subseq_set: "subseq xs ys \<Longrightarrow> set xs \<subseteq> set ys"
  by (induction rule: list_emb.induct) auto

lemma releasable_not_last: "distinct xs \<Longrightarrow> n \<in> set (releasable xs) \<Longrightarrow> n \<noteq> last xs"
  by (cases xs rule: rev_cases) (auto simp: releasable_def split: if_splits option.splits)

lemma releasable_below_highest:
  assumes "n \<in> set (releasable xs)" "slot_num n = Some s"
  shows "\<exists>m \<in> set xs. m \<noteq> n \<and> (\<exists>t \<ge> s. slot_num m = Some t)"
proof -
  from assms(1) have nx: "n \<in> set xs"
    by (auto simp: releasable_def dest: in_set_butlastD split: if_splits option.splits)
  obtain t m where m: "max_slot xs None = Some (t, m)"
    using max_slot_Some [OF assms(2), of xs None] nx by force
  from max_slot_bounds [OF m] nx assms(2) have hi: "m \<in> set xs" "slot_num m = Some t" "s \<le> t" by auto
  from assms(1) m have ne: "m \<noteq> n"
    by (auto simp: releasable_def split: if_splits)
  show ?thesis
    by (rule bexI [OF _ hi(1)]) (intro conjI ne exI [of _ t] hi)
qed

subsection \<open>The release loop\<close>

text \<open>
  One iteration of the loop, as a case analysis: the release failed; the space could not be
  read; both targets are met; the guard tripped; the loop goes on.
\<close>

lemma release_loop_Cons_cases:
  assumes "release_loop h reserve ireserve (snap # snaps) guard w = (w', rel, res)"
  obtains
    (failed) w1 where "h_release h snap w = (w1, False)"
      "release_loop h reserve ireserve snaps guard w1 = (w', rel, res)"
  | (unreadable) e where "h_release h snap w = (w', True)" "get_space (h_space h w') = Inl e"
      "rel = [snap]" "res = Inl e"
  | (met) t f where "h_release h snap w = (w', True)" "get_space (h_space h w') = Inr (t, f)"
      "targets_met f reserve (probe_inodes h ireserve w') ireserve" "rel = [snap]" "res = Inr True"
  | (trip) w1 t f g where "h_release h snap w = (w1, True)" "get_space (h_space h w1) = Inr (t, f)"
      "0 < ireserve" "stall_record guard (reserve \<le> f) (probe_inodes h ireserve w)
         (probe_inodes h ireserve w1) = (g, True)" "rel = [snap]"
      "res = Inl (InodePressureStall (probe_inodes h ireserve w1))"
      "w' = (case probe_inodes h ireserve w1 of None \<Rightarrow> w1
             | Some f \<Rightarrow> h_write_latch h (show_nat f) w1)"
  | (more) w1 t f g rel' where "h_release h snap w = (w1, True)"
      "get_space (h_space h w1) = Inr (t, f)"
      "\<not> targets_met f reserve (probe_inodes h ireserve w1) ireserve"
      "0 < ireserve \<Longrightarrow> stall_record guard (reserve \<le> f) (probe_inodes h ireserve w)
         (probe_inodes h ireserve w1) = (g, False)" "ireserve = 0 \<Longrightarrow> g = guard"
      "release_loop h reserve ireserve snaps g w1 = (w', rel', res)" "rel = snap # rel'"
proof -
  obtain w1 r where rw: "h_release h snap w = (w1, r)" by (cases "h_release h snap w")
  show thesis
  proof (cases r)
    case False
    with assms rw that(1) show thesis by simp
  next
    case True
    note T = True
    show thesis
    proof (cases "get_space (h_space h w1)")
      case (Inl e)
      with assms rw T that(2) show thesis by simp
    next
      case (Inr p)
      obtain t f where tf: "p = (t, f)" by (cases p)
      let ?nfi = "probe_inodes h ireserve w1"
      let ?sr = "stall_record guard (reserve \<le> f) (probe_inodes h ireserve w) ?nfi"
      obtain g b where sr: "?sr = (g, b)" by (cases ?sr)
      show thesis
      proof (cases "targets_met f reserve ?nfi ireserve")
        case True
        with assms rw T Inr tf that(3) show thesis by (simp add: Let_def)
      next
        case False
        note nt = this
        show thesis
        proof (cases "0 < ireserve \<and> b")
          case True
          with assms rw T Inr tf nt sr that(4) show thesis by (auto simp: Let_def)
        next
          case False
          let ?g = "if 0 < ireserve then g else guard"
          obtain w2 rel' res' where l: "release_loop h reserve ireserve snaps ?g w1 = (w2, rel', res')"
            by (metis prod_cases3)
          with assms rw T Inr tf nt sr False have "w2 = w'" "rel = snap # rel'" "res' = res"
            by (auto simp: Let_def split: if_splits)
          with l rw T Inr tf nt sr False show thesis by (intro that(5) [of w1 t f ?g rel']) auto
        qed
      qed
    qed
  qed
qed

lemma release_loop_subseq:
  "release_loop h reserve ireserve snaps guard w = (w', rel, res) \<Longrightarrow> subseq rel snaps"
proof (induction snaps arbitrary: guard w w' rel res)
  case Nil
  then show ?case by simp
next
  case (Cons snap snaps)
  from Cons.prems show ?case
    by (cases rule: release_loop_Cons_cases) (auto dest: Cons.IH)
qed

lemma release_loop_recovered:
  "release_loop h reserve ireserve snaps guard w = (w', rel, Inr True) \<Longrightarrow>
     \<exists>t f. get_space (h_space h w') = Inr (t, f) \<and>
       targets_met f reserve (probe_inodes h ireserve w') ireserve"
proof (induction snaps arbitrary: guard w w' rel)
  case Nil
  then show ?case by simp
next
  case (Cons snap snaps)
  from Cons.prems show ?case
    by (cases rule: release_loop_Cons_cases) (auto dest: Cons.IH)
qed

text \<open>Releases that free no inode while the block target holds: the guard ends the loop.\<close>

lemma release_loop_stalls:
  assumes gain: "\<And>n w w1. h_release h n w = (w1, True) \<Longrightarrow>
      (\<exists>t f a b. get_space (h_space h w1) = Inr (t, f) \<and> reserve \<le> f \<and>
        get_inodes (h_inodes h w) = Inr (a, b) \<and>
        (\<exists>a' b'. get_inodes (h_inodes h w1) = Inr (a', b') \<and> b' \<le> b))"
    and "0 < ireserve"
  shows "release_loop h reserve ireserve snaps guard w = (w', rel, res) \<Longrightarrow>
    guard < max_stale_inode_releases \<Longrightarrow> length rel + guard \<le> max_stale_inode_releases"
proof (induction snaps arbitrary: guard w w' rel res)
  case Nil
  then show ?case by simp
next
  case (Cons snap snaps)
  from Cons.prems(1) show ?case
  proof (cases rule: release_loop_Cons_cases)
    case (failed w1)
    with Cons show ?thesis by blast
  next
    case (more w1 t f g rel')
    obtain a b a' b' where i: "get_inodes (h_inodes h w) = Inr (a, b)"
      "get_inodes (h_inodes h w1) = Inr (a', b')" "b' \<le> b" "reserve \<le> f"
      using gain [OF more(1)] more(2) by fastforce
    with more(4) assms(2) have "g = guard + 1" "g < max_stale_inode_releases"
      by (auto simp: stall_record_def probe_inodes_def)
    with Cons.IH [OF more(6)] more(7) show ?thesis by simp
  qed (use Cons.prems in \<open>auto simp: max_stale_inode_releases_def\<close>)
qed


subsection \<open>What the loop relies on\<close>

text \<open>
  The contract between the eviction loop and the host: removing or writing the stall latch (a
  file on \<^verbatim>\<open>/run\<close>) changes neither the free-space figures nor the listing, listed names are of a
  proper shape, and the release of a proper name, whether it succeeds or not, takes at most that
  snapshot out of the listing.
\<close>

locale eviction_host =
  fixes h :: "'w host" and proper :: "ustr \<Rightarrow> bool"
  assumes listed_proper: "n \<in> set (h_snapshots_by_age h w) \<Longrightarrow> proper n"
    and remove_latch_space: "h_space h (h_remove_latch h w) = h_space h w"
    and remove_latch_list: "h_snapshots_by_age h (h_remove_latch h w) = h_snapshots_by_age h w"
    and write_latch_list: "h_snapshots_by_age h (h_write_latch h s w) = h_snapshots_by_age h w"
    and release_list: "proper n \<Longrightarrow> h_release h n w = (w1, r) \<Longrightarrow>
      set (h_snapshots_by_age h w) - {n} \<subseteq> set (h_snapshots_by_age h w1)"
begin

lemma honor_latch_list:
  "honor_latch h target w = (w', t) \<Longrightarrow>
     h_snapshots_by_age h w' = h_snapshots_by_age h w \<and> h_space h w' = h_space h w"
  by (auto simp: honor_latch_def remove_latch_list remove_latch_space split: option.splits if_splits)

lemma loop_keeps:
  "release_loop h reserve ireserve snaps guard w = (w', rel, res) \<Longrightarrow> list_all proper snaps \<Longrightarrow>
     set (h_snapshots_by_age h w) - set snaps \<subseteq> set (h_snapshots_by_age h w')"
proof (induction snaps arbitrary: guard w w' rel res)
  case Nil
  then show ?case by simp
next
  case (Cons snap snaps)
  from Cons.prems(2) have pr: "proper snap" "list_all proper snaps" by auto
  note keep = release_list [OF pr(1)]
  from Cons.prems(1) show ?case
  proof (cases rule: release_loop_Cons_cases)
    case (failed w1)
    with Cons.IH [OF failed(2) pr(2)] keep [OF failed(1)] show ?thesis by auto
  next
    case (unreadable e)
    with keep [OF unreadable(1)] show ?thesis by auto
  next
    case (met t f)
    with keep [OF met(1)] show ?thesis by auto
  next
    case (trip w1 t f g)
    with keep [OF trip(1)] show ?thesis by (auto simp: write_latch_list split: option.splits)
  next
    case (more w1 t f g rel')
    with Cons.IH [OF more(6) pr(2)] keep [OF more(1)] show ?thesis by auto
  qed
qed

text \<open>
  The two ways a run can end: without a release (the listing is unchanged), or in the loop.
\<close>

lemma manage_cases:
  assumes "manage_free_space h r w0 = (w', rel, res)"
  obtains (idle) "rel = []" "h_snapshots_by_age h w' = h_snapshots_by_age h w0"
      "res = Inr () \<Longrightarrow> h_space h w' = h_space h w0 \<and> (\<exists>t f. get_space (h_space h w0) = Inr (t, f) \<and>
         (case r of None \<Rightarrow> default_reserve_bytes t | Some b \<Rightarrow> b) \<le> f)"
  | (loop) t f w ireserve res' where "get_space (h_space h w0) = Inr (t, f)"
      "h_snapshots_by_age h w = h_snapshots_by_age h w0"
      "release_loop h (case r of None \<Rightarrow> default_reserve_bytes t | Some b \<Rightarrow> b) ireserve
         (releasable (h_snapshots_by_age h w0)) 0 w = (w', rel, res')"
      "res = Inr () \<Longrightarrow> res' = Inr True"
proof (cases "\<not> h_lock h w0 \<or> (\<nexists>t f. get_space (h_space h w0) = Inr (t, f) \<and>
     (case r of None \<Rightarrow> default_reserve_bytes t | Some b \<Rightarrow> b) < t)")
  case True
  with assms have "rel = []" "w' = w0" "res \<noteq> Inr ()"
    by (auto simp: manage_free_space_def Let_def not_less split: sum.splits option.splits if_splits)
  then show thesis by (intro idle) auto
next
  case False
  then obtain t f where sp: "get_space (h_space h w0) = Inr (t, f)" and lk: "h_lock h w0"
    and lt: "(case r of None \<Rightarrow> default_reserve_bytes t | Some b \<Rightarrow> b) < t" by blast
  let ?res = "case r of None \<Rightarrow> default_reserve_bytes t | Some b \<Rightarrow> b"
  obtain w ir fi where hl: "honor_latch h (inode_target (mutable_inodes h w0)) w0 = (w, ir, fi)"
    by (metis prod_cases3)
  note keep = honor_latch_list [OF hl]
  show thesis
  proof (cases "targets_met f ?res fi ir \<or> releasable (h_snapshots_by_age h w0) = []")
    case True
    then show thesis
    proof (cases "targets_met f ?res fi ir")
      case True
      with assms lk sp lt hl have "rel = []" "w' = w"
        by (auto simp: manage_free_space_def Let_def split: option.splits)
      with True keep sp show thesis by (intro idle) (auto simp: targets_met_def)
    next
      case False
      with True have "releasable (h_snapshots_by_age h w0) = []" by blast
      with False assms lk sp lt hl keep show thesis
        by (intro idle)
          (auto simp: manage_free_space_def Let_def halt_inode_eviction_def write_latch_list
            split: option.splits if_splits)
    qed
  next
    case False
    then have "h_snapshots_by_age h w0 \<noteq> []" by (auto simp: releasable_def)
    obtain w2 rel2 res2 where rl: "release_loop h ?res ir (releasable (h_snapshots_by_age h w0)) 0 w = (w2, rel2, res2)"
      by (metis prod_cases3)
    with assms lk sp lt hl False keep \<open>h_snapshots_by_age h w0 \<noteq> []\<close>
    have "w2 = w'" "rel2 = rel" "res = Inr () \<Longrightarrow> res2 = Inr True"
      by (auto simp: manage_free_space_def Let_def split: option.splits if_splits sum.splits)
    with rl sp keep show thesis by (intro loop [of t f w ir res2]) auto
  qed
qed

lemma manage_subseq:
  assumes "manage_free_space h r w0 = (w', rel, res)"
  shows "subseq rel (releasable (h_snapshots_by_age h w0))"
  using assms by (cases rule: manage_cases) (auto dest: release_loop_subseq)

lemma manage_keeps:
  assumes "manage_free_space h r w0 = (w', rel, res)"
  shows "set (h_snapshots_by_age h w0) - set (releasable (h_snapshots_by_age h w0))
    \<subseteq> set (h_snapshots_by_age h w')"
  using assms
proof (cases rule: manage_cases)
  case idle
  then show ?thesis by auto
next
  case (loop t f w ireserve res')
  have "list_all proper (releasable (h_snapshots_by_age h w0))"
    using listed_proper subseq_set [OF releasable_subseq [of "h_snapshots_by_age h w0"]]
    by (auto simp: list_all_iff)
  with loop_keeps [OF loop(3)] loop(2) show ?thesis by auto
qed

lemma manage_ok:
  assumes "manage_free_space h r w0 = (w', rel, Inr ())"
  shows "\<exists>t f u f'. get_space (h_space h w0) = Inr (t, f) \<and> get_space (h_space h w') = Inr (u, f') \<and>
    (case r of None \<Rightarrow> default_reserve_bytes t | Some b \<Rightarrow> b) \<le> f'"
  using assms
proof (cases rule: manage_cases)
  case idle
  then show ?thesis by auto
next
  case (loop t f w ireserve res')
  with release_loop_recovered show ?thesis by (fastforce simp: targets_met_def)
qed

end


subsection \<open>Properties\<close>

text \<open>
  The inode target can always be reached: it is at most a quarter of the inode table, so the
  check that would switch the policy off for an unreachable target never fires on figures that
  \<open>get_inodes\<close> accepts.
\<close>

theorem inode_target_reachable:
  "4 * inode_reserve t \<le> t \<and>
   inode_target (mutable_inodes h w) =
     (case mutable_inodes h w of None \<Rightarrow> (0, None) | Some (t, f) \<Rightarrow> (inode_reserve t, Some f))"
proof -
  have "inode_reserve t < t" if "mutable_inodes h w = Some (t, f)" for t f
    using that inode_reserve_less [OF get_inodes_pos]
    by (cases "get_inodes (h_inodes h w)") (auto simp: mutable_inodes_def split: if_splits)
  then show ?thesis
    using inode_reserve_quarter by (auto simp: inode_target_def not_le split: option.splits)
qed

text \<open>
  A run that cannot take the lock, cannot read the free space, or is asked for a reserve not
  below the capacity touches nothing: the world is unchanged and no snapshot is released.
\<close>

theorem manage_refuses_untouched:
  assumes "\<not> h_lock h w \<or> (\<exists>e. get_space (h_space h w) = Inl e) \<or>
    (\<exists>t f r. get_space (h_space h w) = Inr (t, f) \<and> reserve = Some r \<and> t \<le> r)"
  shows "\<exists>e. manage_free_space h reserve w = (w, [], Inl e)"
  using assms by (auto simp: manage_free_space_def Let_def split: sum.splits)

definition idle_host :: "unit host" where
  "idle_host = \<lparr>h_lock = \<lambda>_. True, h_space = \<lambda>_. StatExit True (lit ''100 4096 7''),
     h_inodes = \<lambda>_. StatExit True (lit ''100 7''), h_mounts = \<lambda>_. None, h_latch = \<lambda>_. None,
     h_write_latch = \<lambda>_ w. w, h_remove_latch = \<lambda>w. w,
     h_snapshots_by_age = \<lambda>_. [lit ''snap-000001'', lit ''snap-000002'', lit ''snap-000003''],
     h_release = \<lambda>_ w. (w, True)\<rparr>"

lemma idle_host_space: "get_space (h_space idle_host w) = Inr (409600, 28672)"
  by (simp add: idle_host_def get_space_def split_whitespace_def is_white_def parse_unsigned_def
    parse_digits_def is_digit_def u64_max_def sat_mul64_def res_simps ok_or_def)

theorem manage_refuses_untouched_witness:
  "get_space (h_space idle_host ()) = Inr (409600, 28672) \<and>
   (\<exists>e. manage_free_space idle_host (Some 409600) () = ((), [], Inl e))"
  using manage_refuses_untouched [of idle_host "()" "Some 409600"] idle_host_space by auto

text \<open>
  C22. The stall guard bounds what inode pressure can cost: when releases free no inodes while the
  block target is met, at most three snapshots are released before the loop stops.
\<close>

theorem stall_guard_bounds_eviction:
  assumes "\<And>n w w1. h_release h n w = (w1, True) \<Longrightarrow>
      (\<exists>t f a b. get_space (h_space h w1) = Inr (t, f) \<and> reserve \<le> f \<and>
        get_inodes (h_inodes h w) = Inr (a, b) \<and>
        (\<exists>a' b'. get_inodes (h_inodes h w1) = Inr (a', b') \<and> b' \<le> b))"
    and "0 < ireserve"
    and "release_loop h reserve ireserve snaps 0 w = (w', rel, res)"
  shows "length rel \<le> 3"
  using release_loop_stalls [OF assms] by (simp add: max_stale_inode_releases_def)

lemma idle_host_inodes: "get_inodes (h_inodes idle_host w) = Inr (100, 7)"
  by (simp add: idle_host_def get_inodes_def split_whitespace_def is_white_def parse_unsigned_def
    parse_digits_def is_digit_def u64_max_def res_simps ok_or_def)

theorem stall_guard_bounds_eviction_witness:
  "0 < (25 :: nat) \<and>
   length (fst (snd (release_loop idle_host 100 25
     (replicate 9 (lit ''snap-000001'')) 0 ()))) \<le> 3"
proof -
  obtain w' rel res where r: "release_loop idle_host 100 25 (replicate 9 (lit ''snap-000001'')) 0 () = (w', rel, res)"
    by (metis prod_cases3)
  have "length rel \<le> 3"
    by (rule stall_guard_bounds_eviction [OF _ _ r])
      (auto simp: idle_host_space idle_host_inodes)
  with r show ?thesis by simp
qed

end
