(* ===== verification/SnapshotStore.thy ===== *)
theory SnapshotStore
  imports FreeSpace "HOL-Library.List_Lexorder" "HOL-Library.Product_Lexorder"
begin

section \<open>The snapshot directory\<close>

text \<open>
  \<^verbatim>\<open>crates/usb_gadget/src/snapshot.rs\<close>, the part that works on \<^verbatim>\<open>/backingfiles/snapshots\<close>: slot
  allocation, the age-ordered listing, the committed snapshots, and the markers by which a
  snapshot owes links (\<^verbatim>\<open>snap.bin.relink_pending\<close>, \<^verbatim>\<open>relink_verify\<close>, \<^verbatim>\<open>relink_gave_up\<close>). The store
  is the directory listing, one record per entry in the order \<^verbatim>\<open>read_dir\<close> gives them; names are
  distinct. A pending marker is the number of its lines. Whether a call to the host succeeds is
  an argument where the code tests it.
\<close>

datatype toc = TocUnreadable | Toc "ustr list" bool

text \<open>\<open>Toc ls c\<close>: the rows that can be read, and whether the file was read to its end.\<close>

record snap_dir =
  sd_name :: ustr
  sd_is_dir :: bool
  sd_bin :: "int option"
  sd_toc :: "toc option"
  sd_pending :: "nat option"
  sd_verify :: bool
  sd_gave_up :: bool

type_synonym store = "snap_dir list"

definition pad6 :: "nat \<Rightarrow> ustr" where
  "pad6 n = replicate (6 - length (show_nat n)) 48 @ show_nat n"

definition snap_name :: "nat \<Rightarrow> ustr" where
  "snap_name n = lit ''snap-'' @ pad6 n"

definition is_snap_name :: "ustr \<Rightarrow> bool" where
  "is_snap_name name =
     (case strip_prefix (lit ''snap-'') name of
        None \<Rightarrow> False | Some d \<Rightarrow> d \<noteq> [] \<and> list_all is_digit d)"

definition bin_exists :: "store \<Rightarrow> ustr \<Rightarrow> bool" where
  "bin_exists st n = list_ex (\<lambda>e. sd_name e = n \<and> sd_bin e \<noteq> None) st"

definition toc_exists :: "store \<Rightarrow> ustr \<Rightarrow> bool" where
  "toc_exists st n = list_ex (\<lambda>e. sd_name e = n \<and> sd_toc e \<noteq> None) st"

definition remove_dir_all :: "ustr \<Rightarrow> store \<Rightarrow> store" where
  "remove_dir_all n st = filter (\<lambda>e. sd_name e \<noteq> n) st"

subsection \<open>Listings\<close>

definition list_snapshots_by_age_in :: "store \<Rightarrow> ustr list" where
  "list_snapshots_by_age_in st =
     map snd (sort (List.map_filter
       (\<lambda>e. if is_snap_name (sd_name e) \<and> sd_is_dir e
            then map_option (\<lambda>mtime. (mtime, sd_name e)) (sd_bin e) else None) st))"

definition committed_snapshots_newest_first :: "store \<Rightarrow> ustr list" where
  "committed_snapshots_newest_first st =
     rev (sort (map sd_name
       (filter (\<lambda>e. is_snap_name (sd_name e) \<and> sd_bin e \<noteq> None \<and> sd_toc e \<noteq> None) st)))"

definition newest_committed_snapshot_in :: "store \<Rightarrow> ustr option" where
  "newest_committed_snapshot_in st =
     (case committed_snapshots_newest_first st of [] \<Rightarrow> None | n # _ \<Rightarrow> Some n)"

subsection \<open>Slot allocation\<close>

fun max_num :: "store \<Rightarrow> nat option \<Rightarrow> nat option" where
  "max_num [] m = m"
| "max_num (e # es) m =
     (case slot_num (sd_name e) of
        None \<Rightarrow> max_num es m
      | Some num \<Rightarrow>
          if sd_is_dir e \<and> (case m of None \<Rightarrow> True | Some k \<Rightarrow> num > k)
          then max_num es (Some num) else max_num es m)"

definition backstop_toc :: "store \<Rightarrow> nat \<Rightarrow> ustr option" where
  "backstop_toc st n =
     (if n > 0 then (if toc_exists st (snap_name (n - 1)) then Some (snap_name (n - 1)) else None)
      else None)"

text \<open>
  The new store, the slot, and the snapshot whose table of contents the caller compares with.
  \<open>u32\<close> addition wraps. \<open>rm_ok\<close> says whether removing the incomplete directory succeeds.
\<close>

definition pick_next_snapshot_slot_with ::
  "(ustr \<Rightarrow> bool) \<Rightarrow> bool \<Rightarrow> store \<Rightarrow> store \<times> nat \<times> ustr option" where
  "pick_next_snapshot_slot_with has_mounts rm_ok st =
     (case max_num st None of
        None \<Rightarrow> (st, 1, None)
      | Some m \<Rightarrow>
          let prev_name = snap_name m; next = (m + 1) mod 2 ^ 32
          in if \<not> toc_exists st prev_name \<or> \<not> bin_exists st prev_name
             then (if has_mounts prev_name \<or> bin_exists st prev_name
                   then (st, next, backstop_toc st m)
                   else let st' = (if rm_ok then remove_dir_all prev_name st else st)
                        in (st', m, backstop_toc st' m))
             else (st, next, Some prev_name))"

text \<open>
  The mount test of the caller: an entry of \<^verbatim>\<open>/proc/mounts\<close> under the slot's directory or its
  autofs mount; an unreadable table counts as mounted.
\<close>

definition starts_with :: "ustr \<Rightarrow> ustr \<Rightarrow> bool" where
  "starts_with p s = (strip_prefix p s \<noteq> None)"

definition snapshot_slot_has_mounts :: "ustr option \<Rightarrow> ustr \<Rightarrow> ustr \<Rightarrow> bool" where
  "snapshot_slot_has_mounts mounts base name =
     (let under = base @ lit ''/'' @ name @ lit ''/'';
          autofs = lit ''/tmp/snapshots/'' @ name
      in case mounts of
           None \<Rightarrow> True
         | Some m \<Rightarrow>
             list_ex (\<lambda>l. case split_whitespace l of
                            _ # mp # _ \<Rightarrow> starts_with under mp \<or> mp = autofs
                                          \<or> starts_with (autofs @ lit ''/'') mp
                          | _ \<Rightarrow> False) (str_lines m))"

subsection \<open>Owed links\<close>

definition relink_max_failures :: nat where "relink_max_failures = 5"

definition upd_entry :: "ustr \<Rightarrow> (snap_dir \<Rightarrow> snap_dir) \<Rightarrow> store \<Rightarrow> store" where
  "upd_entry n f st = map (\<lambda>e. if sd_name e = n then f e else e) st"

definition verify_to_pending :: "(ustr \<Rightarrow> bool) \<Rightarrow> snap_dir \<Rightarrow> snap_dir" where
  "verify_to_pending write_ok e =
     (if sd_verify e \<and> (sd_pending e \<noteq> None \<or> write_ok (sd_name e))
      then e\<lparr>sd_pending := (case sd_pending e of None \<Rightarrow> Some 0 | p \<Rightarrow> p), sd_verify := False\<rparr>
      else e)"

definition mark_relinks_for_boot_in :: "(ustr \<Rightarrow> bool) \<Rightarrow> store \<Rightarrow> store" where
  "mark_relinks_for_boot_in write_ok st =
     (let st1 = fold (\<lambda>n. upd_entry n (verify_to_pending write_ok))
                  (committed_snapshots_newest_first st) st
      in case newest_committed_snapshot_in st1 of
           None \<Rightarrow> st1
         | Some n \<Rightarrow>
             upd_entry n (\<lambda>e. if sd_pending e = None \<and> \<not> sd_gave_up e \<and> write_ok n
                             then e\<lparr>sd_pending := Some 0\<rparr> else e) st1)"

definition owing :: "store \<Rightarrow> ustr list \<Rightarrow> ustr list" where
  "owing st failed =
     filter (\<lambda>n. list_ex (\<lambda>e. sd_name e = n \<and> sd_pending e \<noteq> None) st \<and> n \<notin> set failed)
       (committed_snapshots_newest_first st)"

definition pending_relinks_in :: "store \<Rightarrow> ustr list \<Rightarrow> (ustr \<times> bool) list" where
  "pending_relinks_in st failed =
     (case committed_snapshots_newest_first st of
        [] \<Rightarrow> []
      | newest # _ \<Rightarrow>
          (case owing st failed of
             [] \<Rightarrow> []
           | first # rest \<Rightarrow>
               (let oldest = last (first # rest)
                in (first, first \<noteq> newest)
                   # (if oldest \<noteq> first then [(oldest, oldest \<noteq> newest)] else []))))"

text \<open>
  The bookkeeping of \<open>relink_snapshot\<close> around the result of making the links: \<open>None\<close> for a
  failure, else the number of links made. The second component is the list of snapshots that
  failed in this boot.
\<close>

definition relink_snapshot :: "nat option \<Rightarrow> bool \<Rightarrow> ustr \<Rightarrow> store \<times> ustr list \<Rightarrow> store \<times> ustr list" where
  "relink_snapshot result verify_write_ok name s =
     (case result of
        Some made \<Rightarrow>
          if made > 0 \<and> \<not> verify_write_ok then s
          else (upd_entry name (\<lambda>e. e\<lparr>sd_verify := sd_verify e \<or> made > 0, sd_pending := None\<rparr>) (fst s),
                snd s)
      | None \<Rightarrow>
          (upd_entry name (\<lambda>e.
             let fails = (case sd_pending e of None \<Rightarrow> 0 | Some k \<Rightarrow> k) + 1
             in if fails \<ge> relink_max_failures then e\<lparr>sd_pending := None, sd_gave_up := True\<rparr>
                else e\<lparr>sd_pending := Some fails\<rparr>) (fst s),
           snd s @ [name]))"

definition relink_pending_snapshot ::
  "(ustr \<Rightarrow> bool) \<Rightarrow> (ustr \<Rightarrow> bool \<Rightarrow> nat option) \<Rightarrow> (ustr \<Rightarrow> bool) \<Rightarrow> bool \<Rightarrow> store \<times> ustr list
     \<Rightarrow> store \<times> ustr list" where
  "relink_pending_snapshot write_ok make_links verify_write_ok boot_marked s =
     (let st = (if boot_marked then fst s else mark_relinks_for_boot_in write_ok (fst s))
      in fold (\<lambda>(name, fill_only). relink_snapshot (make_links name fill_only) (verify_write_ok name) name)
           (pending_relinks_in st (snd s)) (st, snd s))"

section \<open>Lemmas\<close>

subsection \<open>Names and slots\<close>

lemma digits_val_zeros: "digits_val 0 (replicate k 48 @ s) = digits_val 0 s"
  by (induction k) (auto simp: is_digit_def)

lemma slot_num_snap_name: "n < 2 ^ 32 \<Longrightarrow> slot_num (snap_name n) = Some n"
proof -
  assume n: "n < 2 ^ 32"
  have d: "list_all is_digit (pad6 n)"
    by (auto simp: pad6_def list_all_iff is_digit_def dest: show_nat_digits)
  have ne: "pad6 n \<noteq> []" by (simp add: pad6_def)
  have "strip_prefix [43] (pad6 n) = None"
    using d ne by (cases "pad6 n") (auto simp: is_digit_def)
  moreover have "parse_digits (pad6 n) = Some n"
    using ne by (simp add: parse_digits_def pad6_def digits_val_zeros digits_val_show_nat)
  ultimately show ?thesis
    using n d ne by (simp add: slot_num_def snap_name_def parse_unsigned_def)
qed

lemma max_num_upper:
  "max_num es m = Some k \<Longrightarrow>
     (\<forall>e n. e \<in> set es \<longrightarrow> sd_is_dir e \<longrightarrow> slot_num (sd_name e) = Some n \<longrightarrow> n \<le> k) \<and>
     (\<forall>j. m = Some j \<longrightarrow> j \<le> k)"
proof (induction es arbitrary: m)
  case Nil
  then show ?case by simp
next
  case (Cons e es)
  show ?case
  proof (cases "slot_num (sd_name e)")
    case None
    with Cons.IH [of m] Cons.prems show ?thesis by auto
  next
    case (Some num)
    show ?thesis
    proof (cases "sd_is_dir e \<and> (case m of None \<Rightarrow> True | Some k \<Rightarrow> num > k)")
      case True
      with Some Cons.prems have "max_num es (Some num) = Some k" by simp
      from Cons.IH [OF this] Some True show ?thesis by (auto split: option.splits)
    next
      case False
      with Some Cons.prems have "max_num es m = Some k" by auto
      from Cons.IH [OF this] Some False show ?thesis by (force split: option.splits)
    qed
  qed
qed

lemma max_num_None:
  "max_num es m = None \<Longrightarrow>
     m = None \<and> (\<forall>e. e \<in> set es \<longrightarrow> sd_is_dir e \<longrightarrow> slot_num (sd_name e) = None)"
proof (induction es arbitrary: m)
  case Nil
  then show ?case by simp
next
  case (Cons e es)
  show ?case
  proof (cases "slot_num (sd_name e)")
    case None
    with Cons.IH [of m] Cons.prems show ?thesis by auto
  next
    case (Some num)
    show ?thesis
    proof (cases "sd_is_dir e \<and> (case m of None \<Rightarrow> True | Some k \<Rightarrow> num > k)")
      case True
      with Some Cons.prems have "max_num es (Some num) = None" by simp
      from Cons.IH [OF this] show ?thesis by simp
    next
      case False
      with Some Cons.prems have "max_num es m = None" by auto
      from Cons.IH [OF this] Some False show ?thesis by auto
    qed
  qed
qed

lemma slot_num_bound: "slot_num n = Some k \<Longrightarrow> k < 2 ^ 32"
  by (auto simp: slot_num_def parse_unsigned_def split: option.splits if_splits)

lemma max_num_bound: "max_num es m = Some k \<Longrightarrow> (\<And>j. m = Some j \<Longrightarrow> j < 2 ^ 32) \<Longrightarrow> k < 2 ^ 32"
proof (induction es arbitrary: m)
  case Nil
  then show ?case by simp
next
  case (Cons e es)
  then show ?case
    by (cases "slot_num (sd_name e)")
       (auto split: if_splits dest: Cons.IH [of m] Cons.IH [of "Some _"] slot_num_bound)
qed

lemma no_dir_above:
  assumes "max_num st None = Some m" "m + 1 < 2 ^ 32" "e \<in> set st" "sd_is_dir e"
  shows "sd_name e \<noteq> snap_name (m + 1)"
  using assms max_num_upper [OF assms(1)] slot_num_snap_name [of "m + 1"] by fastforce

lemma backstop_toc_exists: "backstop_toc st n = Some p \<Longrightarrow> toc_exists st p"
  by (auto simp: backstop_toc_def split: if_splits)

lemma remove_keeps_images:
  "\<not> bin_exists st n \<Longrightarrow> e \<in> set st \<Longrightarrow> sd_bin e \<noteq> None \<Longrightarrow> e \<in> set (remove_dir_all n st)"
  by (auto simp: remove_dir_all_def bin_exists_def list_ex_iff)

lemma no_image_named: "\<not> bin_exists st n \<Longrightarrow> e \<in> set st \<Longrightarrow> sd_name e = n \<Longrightarrow> sd_bin e = None"
  by (auto simp: bin_exists_def list_ex_iff)

subsection \<open>Markers\<close>

lemma set_committed:
  "n \<in> set (committed_snapshots_newest_first st) \<longleftrightarrow>
     (\<exists>e \<in> set st. sd_name e = n \<and> is_snap_name n \<and> sd_bin e \<noteq> None \<and> sd_toc e \<noteq> None)"
  by (auto simp: committed_snapshots_newest_first_def)

lemma upd_entry_compose: "upd_entry n f (upd_entry n g st) = upd_entry n (\<lambda>e. f (g e)) st"
  if "\<And>e. sd_name (g e) = sd_name e"
  using that by (auto simp: upd_entry_def)

lemma map_filter_set: "x \<in> set (List.map_filter f xs) \<longleftrightarrow> (\<exists>y \<in> set xs. f y = Some x)"
  by (force simp: List.map_filter_def)

lemma sorted_map_snd_last:
  assumes "sorted xs" "xs \<noteq> []" "x \<in> set xs"
  shows "x \<le> last xs"
  using assms by (cases xs rule: rev_cases) (auto simp: sorted_append)

lemma owing_subset: "set (owing st failed) \<subseteq> set (committed_snapshots_newest_first st) - set failed"
  by (auto simp: owing_def)

lemma pending_relinks_owing: "(n, b) \<in> set (pending_relinks_in st failed) \<Longrightarrow> n \<in> set (owing st failed)"
  by (cases "committed_snapshots_newest_first st"; cases "owing st failed")
    (auto simp: pending_relinks_in_def Let_def split: if_splits)

subsection \<open>Properties\<close>


definition demo_store :: store where
  "demo_store =
     [\<lparr>sd_name = lit ''snap-000007'', sd_is_dir = True, sd_bin = Some 5, sd_toc = None,
       sd_pending = None, sd_verify = False, sd_gave_up = False\<rparr>]"


text \<open>
  The eviction order: the listing holds exactly the physical numeric directories with a
  readable image, and its last element (the one \<open>releasable\<close> protects first) has the latest
  modification time.
\<close>

theorem snapshots_by_age_spec:
  "set (list_snapshots_by_age_in st) =
     {sd_name e | e. e \<in> set st \<and> is_snap_name (sd_name e) \<and> sd_is_dir e \<and> sd_bin e \<noteq> None} \<and>
   (list_snapshots_by_age_in st = [] \<or>
     (\<exists>e t. e \<in> set st \<and> sd_name e = last (list_snapshots_by_age_in st) \<and> sd_bin e = Some t \<and>
       (\<nexists>e' t'. e' \<in> set st \<and> is_snap_name (sd_name e') \<and> sd_is_dir e' \<and> sd_bin e' = Some t' \<and> t < t')))"
proof -
  let ?f = "\<lambda>e. if is_snap_name (sd_name e) \<and> sd_is_dir e
            then map_option (\<lambda>mtime. (mtime, sd_name e)) (sd_bin e) else None"
  define xs where "xs = sort (List.map_filter ?f st)"
  have l: "list_snapshots_by_age_in st = map snd xs"
    by (simp add: list_snapshots_by_age_in_def xs_def)
  have mem: "(t, n) \<in> set xs \<longleftrightarrow> (\<exists>e \<in> set st. is_snap_name (sd_name e) \<and> sd_is_dir e \<and>
      sd_bin e = Some t \<and> sd_name e = n)" for t n
    by (auto simp: xs_def map_filter_set split: if_splits)
  have sx: "sorted xs" by (simp add: xs_def)
  have set_eq: "set (map snd xs) =
      {sd_name e | e. e \<in> set st \<and> is_snap_name (sd_name e) \<and> sd_is_dir e \<and> sd_bin e \<noteq> None}"
    by (auto simp: image_iff Bex_def mem; blast)
  have last: "\<exists>e t. e \<in> set st \<and> sd_name e = last (map snd xs) \<and> sd_bin e = Some t \<and>
      (\<nexists>e' t'. e' \<in> set st \<and> is_snap_name (sd_name e') \<and> sd_is_dir e' \<and> sd_bin e' = Some t' \<and> t < t')"
    if "xs \<noteq> []"
  proof -
    obtain t n where tn: "last xs = (t, n)" by (cases "last xs")
    from that tn have "(t, n) \<in> set xs" by (metis last_in_set)
    then obtain e where e: "e \<in> set st" "sd_name e = n" "sd_bin e = Some t" by (auto simp: mem)
    have "t' \<le> t" if "e' \<in> set st" "is_snap_name (sd_name e')" "sd_is_dir e'" "sd_bin e' = Some t'" for e' t'
    proof -
      from that have "(t', sd_name e') \<in> set xs" by (auto simp: mem)
      then have "(t', sd_name e') \<le> (t, n)"
        using sorted_map_snd_last [OF sx \<open>xs \<noteq> []\<close>] unfolding tn by blast
      then show ?thesis by (auto simp: less_eq_prod_def)
    qed
    with e tn that show ?thesis by (force simp: last_map)
  qed
  show ?thesis unfolding l using set_eq last by auto
qed

text \<open>
  A run makes the links of at most two snapshots, all of them committed, owing links and
  not failed in this boot, and it re-makes links in full (instead of filling in missing ones)
  for the newest committed snapshot only.
\<close>

theorem pending_relinks_spec:
  "length (pending_relinks_in st failed) \<le> 2 \<and>
   (\<forall>n fill. (n, fill) \<in> set (pending_relinks_in st failed) \<longrightarrow>
      n \<in> set (owing st failed) \<and> n \<notin> set failed \<and>
      (fill \<longleftrightarrow> newest_committed_snapshot_in st \<noteq> Some n)) \<and>
   (owing st failed \<noteq> [] \<longrightarrow>
      (hd (owing st failed) \<in> fst ` set (pending_relinks_in st failed) \<and>
       last (owing st failed) \<in> fst ` set (pending_relinks_in st failed)))"
proof (cases "owing st failed")
  case Nil
  then show ?thesis by (simp add: pending_relinks_in_def split: list.splits)
next
  case (Cons first rest)
  then have fs: "set (first # rest) \<subseteq> set (committed_snapshots_newest_first st) - set failed"
    using owing_subset [of st failed] by simp
  then obtain newest cs where c: "committed_snapshots_newest_first st = newest # cs"
    by (cases "committed_snapshots_newest_first st") auto
  have l: "last (first # rest) \<in> set (first # rest)" by (rule last_in_set) simp
  have p: "pending_relinks_in st failed = (let oldest = last (first # rest)
      in (first, first \<noteq> newest) # (if oldest \<noteq> first then [(oldest, oldest \<noteq> newest)] else []))"
    by (simp add: pending_relinks_in_def c Cons)
  have n: "newest_committed_snapshot_in st = Some newest"
    by (simp add: newest_committed_snapshot_in_def c)
  show ?thesis using fs l unfolding p n Cons Let_def by auto
qed

theorem pending_relinks_witness:
  "owing (map (\<lambda>e. e\<lparr>sd_toc := Some TocUnreadable, sd_pending := Some 0\<rparr>) demo_store) [] \<noteq> [] \<and>
   hd (owing (map (\<lambda>e. e\<lparr>sd_toc := Some TocUnreadable, sd_pending := Some 0\<rparr>) demo_store) [])
     \<in> fst ` set (pending_relinks_in
         (map (\<lambda>e. e\<lparr>sd_toc := Some TocUnreadable, sd_pending := Some 0\<rparr>) demo_store) [])"
proof -
  let ?st = "map (\<lambda>e. e\<lparr>sd_toc := Some TocUnreadable, sd_pending := Some 0\<rparr>) demo_store"
  have "owing ?st [] \<noteq> []"
    by (simp add: owing_def committed_snapshots_newest_first_def demo_store_def is_snap_name_def is_digit_def)
  with pending_relinks_spec [of ?st "[]"] show ?thesis by blast
qed

text \<open>
  A link debt survives exactly four failed attempts: with \<open>k\<close> failures recorded, one more
  failure leaves the debt with \<open>k + 1\<close> recorded when that is below five, and otherwise turns it
  into the gave-up marker; the snapshot is put on the failed list of this boot, so it is not
  picked again in it, and no other entry changes.
\<close>

theorem relink_failure_counted:
  assumes "e \<in> set st" and "sd_name e = n" and "sd_pending e = Some k"
    and "relink_snapshot None vok n (st, failed) = (st', failed')"
  shows "(if k + 1 < 5 then e\<lparr>sd_pending := Some (k + 1)\<rparr>
          else e\<lparr>sd_pending := None, sd_gave_up := True\<rparr>) \<in> set st' \<and>
    n \<notin> fst ` set (pending_relinks_in st' failed') \<and>
    filter (\<lambda>e. sd_name e \<noteq> n) st' = filter (\<lambda>e. sd_name e \<noteq> n) st"
proof -
  let ?f = "\<lambda>e. let fails = (case sd_pending e of None \<Rightarrow> 0 | Some k \<Rightarrow> k) + 1
             in if fails \<ge> relink_max_failures then e\<lparr>sd_pending := None, sd_gave_up := True\<rparr>
                else e\<lparr>sd_pending := Some fails\<rparr>"
  have r: "st' = upd_entry n ?f st" "failed' = failed @ [n]"
    using assms(4) by (auto simp: relink_snapshot_def)
  have "?f e \<in> set st'" using assms(1,2) by (auto simp: r upd_entry_def)
  then have 1: "(if k + 1 < 5 then e\<lparr>sd_pending := Some (k + 1)\<rparr>
          else e\<lparr>sd_pending := None, sd_gave_up := True\<rparr>) \<in> set st'"
    using assms(3) by (auto simp: relink_max_failures_def Let_def split: if_splits)
  have 2: "n \<notin> fst ` set (pending_relinks_in st' failed')"
    using r(2) owing_subset [of st' failed'] by (auto dest: pending_relinks_owing)
  have 3: "filter (\<lambda>e. sd_name e \<noteq> n) (upd_entry n ?f xs) = filter (\<lambda>e. sd_name e \<noteq> n) xs" for xs
    by (induction xs) (auto simp: upd_entry_def Let_def)
  from 1 2 3 [of st] r(1) show ?thesis by simp
qed


theorem relink_failure_counted_witness:
  "fst ` set (pending_relinks_in
     (fst (relink_snapshot None True (lit ''snap-000007'')
        (map (\<lambda>e. e\<lparr>sd_pending := Some 4\<rparr>) demo_store, [])))
     (snd (relink_snapshot None True (lit ''snap-000007'')
        (map (\<lambda>e. e\<lparr>sd_pending := Some 4\<rparr>) demo_store, [])))) \<inter> {lit ''snap-000007''} = {}"
proof -
  let ?st = "map (\<lambda>e. e\<lparr>sd_pending := Some 4\<rparr>) demo_store" and ?n = "lit ''snap-000007''"
  obtain st' f' where r: "relink_snapshot None True ?n (?st, []) = (st', f')"
    by (cases "relink_snapshot None True ?n (?st, [])")
  have e: "hd ?st \<in> set ?st" "sd_name (hd ?st) = ?n" "sd_pending (hd ?st) = Some 4"
    by (simp_all add: demo_store_def)
  from relink_failure_counted [OF e r] r show ?thesis by (metis disjoint_insert(1) fst_conv inf_bot_right snd_conv)
qed

end
