(* ===== verification/LinkFarm.thy ===== *)
theory LinkFarm
  imports SnapshotStore
begin

section \<open>The link farm and the release of a snapshot\<close>

text \<open>
  \<^verbatim>\<open>crates/usb_gadget/src/snapshot.rs\<close>, the part that works on \<^verbatim>\<open>/mutable/TeslaCam\<close>: recognising
  the links that belong to a snapshot, collecting and pruning them, planning and applying the
  re-points when a snapshot is released, and the sweep of dangling links. The farm is a tree of
  directory entries in the order \<^verbatim>\<open>read_dir\<close> gives them. The answers of the host that can change
  between two calls are an environment: the mount guard is asked by a running number, a link can
  have been retargeted by another writer before its second read, and an unlink can fail.
\<close>

datatype node = Link ustr | Plain | Dir bool entries
  and entries = ENil | ECons ustr node entries

text \<open>\<open>Dir readable es\<close>; only a readable directory is walked.\<close>

type_synonym path = "ustr list"

definition snapshots_dir :: ustr where "snapshots_dir = lit ''/backingfiles/snapshots''"
definition autofs_snapshots :: ustr where "autofs_snapshots = lit ''/tmp/snapshots''"

abbreviation slash :: int where "slash \<equiv> 47"

definition bad_component :: "ustr \<Rightarrow> bool" where
  "bad_component c \<longleftrightarrow> c = [] \<or> c = lit ''.'' \<or> c = lit ''..''"

text \<open>A target below \<open>root\<close>, with the separator taken off.\<close>

definition under :: "ustr \<Rightarrow> ustr \<Rightarrow> ustr option" where
  "under root target = Option.bind (strip_prefix root target) (strip_prefix [slash])"

definition owned_snap_component :: "ustr \<Rightarrow> ustr option" where
  "owned_snap_component target =
     (case strip_prefix [slash] target of
        None \<Rightarrow> None
      | Some body \<Rightarrow>
          if list_ex bad_component (split_on slash body) then None
          else case under snapshots_dir target of
                 Some rest \<Rightarrow>
                   (case split_on slash rest of
                      name # mnt # _ # _ \<Rightarrow>
                        if is_snap_name name \<and> mnt = lit ''mnt'' then Some name else None
                    | _ \<Rightarrow> None)
               | None \<Rightarrow>
                   (case under autofs_snapshots target of
                      None \<Rightarrow> None
                    | Some rest \<Rightarrow>
                        (case split_on slash rest of
                           name # _ # _ \<Rightarrow> if is_snap_name name then Some name else None
                         | _ \<Rightarrow> None)))"

text \<open>
  \<open>metadata\<close> of a path below the snapshots directory: an entry, no entry, or another error; the
  directory itself can be missing too.
\<close>

datatype snap_state = Live | Gone | Unknown

datatype stat_answer = StatDir | StatOther | StatNotFound | StatError

definition snapshot_state :: "stat_answer \<Rightarrow> bool \<Rightarrow> snap_state" where
  "snapshot_state md root_is_dir =
     (case md of
        StatDir \<Rightarrow> Live
      | StatOther \<Rightarrow> Gone
      | StatNotFound \<Rightarrow> if root_is_dir then Gone else Unknown
      | StatError \<Rightarrow> Unknown)"

definition store_stat :: "store \<Rightarrow> ustr \<Rightarrow> stat_answer" where
  "store_stat st n =
     (case List.find (\<lambda>e. sd_name e = n) st of
        None \<Rightarrow> StatNotFound
      | Some e \<Rightarrow> if sd_is_dir e then StatDir else StatOther)"

definition released_link_is_dead :: "store \<Rightarrow> bool \<Rightarrow> ustr \<Rightarrow> ustr \<Rightarrow> bool" where
  "released_link_is_dead st root_ok n target \<longleftrightarrow>
     owned_snap_component target = Some n \<and> snapshot_state (store_stat st n) root_ok = Gone"

subsection \<open>Collecting and pruning\<close>

fun collect_node :: "path \<Rightarrow> nat \<Rightarrow> node \<Rightarrow> (path \<times> ustr) list"
  and collect_entries :: "path \<Rightarrow> nat \<Rightarrow> entries \<Rightarrow> (path \<times> ustr) list" where
  "collect_node p d (Dir readable es) = (if d > 4 \<or> \<not> readable then [] else collect_entries p d es)"
| "collect_node p d (Link t) = [(p, t)]"
| "collect_node p d Plain = []"
| "collect_entries p d ENil = []"
| "collect_entries p d (ECons n nd es) = collect_node (p @ [n]) (d + 1) nd @ collect_entries p d es"

definition collect_links_into :: "node \<Rightarrow> ustr \<Rightarrow> (path \<times> ustr) list" where
  "collect_links_into farm n =
     (case farm of
        Dir _ _ \<Rightarrow> filter (\<lambda>(p, t). owned_snap_component t = Some n) (collect_node [] 0 farm)
      | _ \<Rightarrow> [])"

record farm_env =
  fe_guard :: "nat \<Rightarrow> bool"
  fe_fresh :: "path \<Rightarrow> ustr \<Rightarrow> ustr option"
  fe_unlink_ok :: "path \<Rightarrow> bool"
  fe_rmdir_ok :: "path \<Rightarrow> bool"

text \<open>
  \<open>fe_fresh p t\<close>: what the second \<^verbatim>\<open>read_link\<close> of a link read as \<open>t\<close> gives, \<open>None\<close> when the link is
  gone. The result is the entry left behind, and whether this call removed it.
\<close>

definition unlink_if_still_dead ::
  "farm_env \<Rightarrow> (path \<Rightarrow> ustr \<Rightarrow> bool) \<Rightarrow> path \<Rightarrow> ustr \<Rightarrow> node option \<times> bool" where
  "unlink_if_still_dead env dead p t =
     (case fe_fresh env p t of
        None \<Rightarrow> (None, False)
      | Some fresh \<Rightarrow>
          if fresh = t \<and> dead p fresh \<and> fe_unlink_ok env p then (None, True)
          else (Some (Link fresh), False))"

definition keep_entry :: "ustr \<Rightarrow> node option \<Rightarrow> entries \<Rightarrow> entries" where
  "keep_entry n nd es = (case nd of None \<Rightarrow> es | Some x \<Rightarrow> ECons n x es)"

fun prune_node :: "farm_env \<Rightarrow> (path \<Rightarrow> ustr \<Rightarrow> bool) \<Rightarrow> bool \<Rightarrow> path \<Rightarrow> nat \<Rightarrow> node \<Rightarrow> nat
    \<Rightarrow> node \<times> nat \<times> nat \<times> bool"
  and prune_entries :: "farm_env \<Rightarrow> (path \<Rightarrow> ustr \<Rightarrow> bool) \<Rightarrow> bool \<Rightarrow> path \<Rightarrow> nat \<Rightarrow> entries \<Rightarrow> nat
    \<Rightarrow> entries \<times> nat \<times> nat \<times> bool" where
  "prune_node env dead dry p d (Dir readable es) k =
     (if d > 4 then (Dir readable es, k, 0, True)
      else if \<not> fe_guard env k then (Dir readable es, k + 1, 0, False)
      else if \<not> readable then (Dir readable es, k + 1, 0, True)
      else let (es', k', r, c) = prune_entries env dead dry p d es (k + 1)
           in (Dir readable es', k', r, c))"
| "prune_node env dead dry p d (Link t) k = (Link t, k, 0, True)"
| "prune_node env dead dry p d Plain k = (Plain, k, 0, True)"
| "prune_entries env dead dry p d ENil k = (ENil, k, 0, True)"
| "prune_entries env dead dry p d (ECons n (Link t) es) k =
     (if \<not> dead (p @ [n]) t
      then (let (es', k', r, c) = prune_entries env dead dry p d es k
            in (ECons n (Link t) es', k', r, c))
      else if \<not> fe_guard env k then (ECons n (Link t) es, k + 1, 0, False)
      else let (left, gone) = (if dry then (Some (Link t), True)
                               else unlink_if_still_dead env dead (p @ [n]) t);
               (es', k', r, c) = prune_entries env dead dry p d es (k + 1)
           in (keep_entry n left es', k', (if gone then 1 else 0) + r, c))"
| "prune_entries env dead dry p d (ECons n Plain es) k =
     (let (es', k', r, c) = prune_entries env dead dry p d es k in (ECons n Plain es', k', r, c))"
| "prune_entries env dead dry p d (ECons n (Dir readable ds) es) k =
     (let (nd', k', r, c) = prune_node env dead dry (p @ [n]) (d + 1) (Dir readable ds) k
      in if \<not> c then (ECons n nd' es, k', r, False)
         else let (es', k'', r', c') = prune_entries env dead dry p d es k';
                  left = (if \<not> dry \<and> d \<ge> 1 \<and> (case nd' of Dir _ ENil \<Rightarrow> True | _ \<Rightarrow> False) \<and>
                             fe_rmdir_ok env (p @ [n]) then None else Some nd')
              in (keep_entry n left es', k'', r + r', c'))"

text \<open>The tree left behind, the number of links removed, and whether the walk was aborted.\<close>

definition prune_farm_links ::
  "farm_env \<Rightarrow> (path \<Rightarrow> ustr \<Rightarrow> bool) \<Rightarrow> bool \<Rightarrow> node \<Rightarrow> nat \<Rightarrow> node \<times> nat \<times> nat \<times> bool" where
  "prune_farm_links env dead dry farm k =
     (let (farm', k', removed, completed) = prune_node env dead dry [] 0 farm k
      in (farm', k', removed, \<not> completed))"


subsection \<open>Planning the re-points\<close>

record relink_plan =
  pl_links :: "(path \<times> ustr) list"
  pl_unresolved :: nat
  pl_unreadable :: nat
  pl_empty :: nat

definition below :: "ustr \<Rightarrow> ustr \<Rightarrow> ustr \<Rightarrow> ustr option" where
  "below released root target =
     Option.bind (under root target) (\<lambda>r.
     Option.bind (strip_prefix released r) (strip_prefix [slash]))"

text \<open>A wanted clip: the link, whether its target goes through \<^verbatim>\<open>mnt\<close>, and the clip's path.\<close>

definition wanted_of :: "ustr \<Rightarrow> path \<times> ustr \<Rightarrow> (path \<times> bool \<times> ustr) option" where
  "wanted_of released orphan =
     (case orphan of (link, target) \<Rightarrow>
        let shape = (case below released snapshots_dir target of
                       Some rest \<Rightarrow> map_option (\<lambda>r. (True, r)) (strip_prefix (lit ''mnt/'') rest)
                     | None \<Rightarrow> map_option (\<lambda>r. (False, r)) (below released autofs_snapshots target))
        in case shape of
             None \<Rightarrow> None
           | Some (via_mnt, clip_rel) \<Rightarrow>
               if list_ex bad_component (split_on slash clip_rel) then None
               else Some (link, via_mnt, clip_rel))"

definition live_survivors :: "store \<Rightarrow> ustr \<Rightarrow> ustr list" where
  "live_survivors st released =
     rev (sort (filter (\<lambda>n. n \<noteq> released \<and> is_snap_name n \<and> bin_exists st n) (map sd_name st)))"

type_synonym best_copies = "ustr \<rightharpoonup> (nat \<times> ustr) option"

definition toc_row :: "ustr \<Rightarrow> (ustr \<times> nat) option" where
  "toc_row line =
     (case split_once 32 line of
        None \<Rightarrow> None
      | Some (sz, path) \<Rightarrow> map_option (\<lambda>s. (path, s)) (parse_unsigned u64_max sz))"

definition toc_hits :: "best_copies \<Rightarrow> ustr list \<Rightarrow> (ustr \<times> nat) list" where
  "toc_hits best rows = filter (\<lambda>(path, _). best path \<noteq> None) (List.map_filter toc_row rows)"

definition apply_hit :: "ustr \<Rightarrow> ustr \<times> nat \<Rightarrow> best_copies \<Rightarrow> best_copies" where
  "apply_hit snap hit best =
     (case hit of (rel, sz) \<Rightarrow>
        (case best rel of
           Some (Some (len, _)) \<Rightarrow> if sz > len then best(rel \<mapsto> Some (sz, snap)) else best
         | _ \<Rightarrow> best(rel \<mapsto> Some (sz, snap))))"

definition store_toc :: "store \<Rightarrow> ustr \<Rightarrow> toc" where
  "store_toc st n =
     (case List.find (\<lambda>e. sd_name e = n) st of
        None \<Rightarrow> TocUnreadable
      | Some e \<Rightarrow> (case sd_toc e of None \<Rightarrow> TocUnreadable | Some t \<Rightarrow> t))"

definition scan_survivor ::
  "store \<Rightarrow> ustr \<Rightarrow> best_copies \<times> nat \<times> nat \<Rightarrow> best_copies \<times> nat \<times> nat" where
  "scan_survivor st snap s =
     (case s of (best, unreadable, empties) \<Rightarrow>
        (case store_toc st snap of
           TocUnreadable \<Rightarrow> (best, unreadable + 1, empties)
         | Toc rows complete \<Rightarrow>
             if \<not> complete then (best, unreadable + 1, empties)
             else (fold (apply_hit snap) (toc_hits best rows) best, unreadable,
                   if rows = [] then empties + 1 else empties)))"

definition new_target :: "bool \<Rightarrow> ustr \<Rightarrow> ustr \<Rightarrow> ustr" where
  "new_target via_mnt snap clip_rel =
     (if via_mnt then snapshots_dir @ [slash] @ snap @ lit ''/mnt/'' @ clip_rel
      else autofs_snapshots @ [slash] @ snap @ [slash] @ clip_rel)"

definition resolve_wanted :: "best_copies \<Rightarrow> path \<times> bool \<times> ustr \<Rightarrow> (path \<times> ustr) option" where
  "resolve_wanted best w =
     (case w of (link, via_mnt, clip_rel) \<Rightarrow>
        (case best clip_rel of
           Some (Some (_, snap)) \<Rightarrow> Some (link, new_target via_mnt snap clip_rel)
         | _ \<Rightarrow> None))"

definition plan_relinks :: "(path \<times> ustr) list \<Rightarrow> ustr \<Rightarrow> store \<Rightarrow> relink_plan" where
  "plan_relinks orphans released st =
     (let wanted = List.map_filter (wanted_of released) orphans
      in if wanted = [] then \<lparr>pl_links = [], pl_unresolved = 0, pl_unreadable = 0, pl_empty = 0\<rparr>
         else let best0 = map_of (map (\<lambda>(_, _, rel). (rel, None)) wanted);
                  (best, unreadable, empties) =
                     fold (scan_survivor st) (live_survivors st released) (best0, 0, 0)
              in \<lparr>pl_links = List.map_filter (resolve_wanted best) wanted,
                  pl_unresolved = length (filter (\<lambda>w. resolve_wanted best w = None) wanted),
                  pl_unreadable = unreadable, pl_empty = empties\<rparr>)"

subsection \<open>Applying them\<close>

fun find_entry :: "ustr \<Rightarrow> entries \<Rightarrow> node option" where
  "find_entry c ENil = None"
| "find_entry c (ECons n nd es) = (if c = n then Some nd else find_entry c es)"

fun set_entry :: "ustr \<Rightarrow> node \<Rightarrow> entries \<Rightarrow> entries" where
  "set_entry c x ENil = ECons c x ENil"
| "set_entry c x (ECons n nd es) = (if c = n then ECons n x es else ECons n nd (set_entry c x es))"

fun lookup_node :: "path \<Rightarrow> node \<Rightarrow> node option" where
  "lookup_node [] nd = Some nd"
| "lookup_node (c # cs) (Dir r es) = Option.bind (find_entry c es) (lookup_node cs)"
| "lookup_node (c # cs) _ = None"

fun new_chain :: "path \<Rightarrow> ustr \<Rightarrow> node" where
  "new_chain [] t = Link t"
| "new_chain (c # cs) t = Dir True (ECons c (new_chain cs t) ENil)"

text \<open>
  \<^verbatim>\<open>create_dir_all\<close> of the parent and \<^verbatim>\<open>symlink\<close>: fails when the path is taken or when a component
  of the parent is not a directory, in which case nothing was created.
\<close>

fun put_link :: "path \<Rightarrow> ustr \<Rightarrow> node \<Rightarrow> node option" where
  "put_link [] t nd = None"
| "put_link (c # cs) t (Dir r es) =
     (case find_entry c es of
        None \<Rightarrow> Some (Dir r (set_entry c (new_chain cs t) es))
      | Some nd \<Rightarrow> map_option (\<lambda>nd'. Dir r (set_entry c nd' es)) (put_link cs t nd))"
| "put_link (c # cs) t _ = None"

fun apply_relinks :: "(path \<times> ustr) list \<Rightarrow> node \<Rightarrow> node \<times> nat" where
  "apply_relinks [] farm = (farm, 0)"
| "apply_relinks ((link, target) # links) farm =
     (if lookup_node link farm \<noteq> None then apply_relinks links farm
      else case put_link link target farm of
             None \<Rightarrow> apply_relinks links farm
           | Some farm' \<Rightarrow> (let (f, n) = apply_relinks links farm' in (f, n + 1)))"

subsection \<open>Releasing a snapshot\<close>

record usb_world =
  uw_store :: store
  uw_farm :: node
  uw_latch :: "ustr option"
  uw_mounted :: "ustr list"
  uw_tick :: nat

text \<open>
  \<open>ue_rm_fail n\<close>: \<open>None\<close> when \<^verbatim>\<open>remove_dir_all\<close> succeeds, else what a failed removal leaves of the
  entry. \<open>ue_root_ok\<close>: the snapshots directory can be read as a directory.
\<close>

record usb_env =
  ue_farm :: farm_env
  ue_rm_fail :: "ustr \<Rightarrow> (snap_dir \<Rightarrow> snap_dir) option"
  ue_umount_ok :: "ustr \<Rightarrow> bool"
  ue_root_ok :: bool
  ue_lock :: "nat \<Rightarrow> bool"
  ue_space :: "store \<Rightarrow> stat_output"
  ue_inodes :: "node \<Rightarrow> stat_output"
  ue_mounts :: "ustr option"

definition normalize_snap_name :: "ustr \<Rightarrow> ustr option" where
  "normalize_snap_name input =
     (case rev (filter (\<lambda>c. c \<noteq> [] \<and> c \<noteq> lit ''.'') (split_on slash input)) of
        [] \<Rightarrow> None
      | name # _ \<Rightarrow>
          if name \<noteq> lit ''..'' \<and> strip_prefix (lit ''snap-'') name \<noteq> None \<and>
             (\<forall>i \<in> set [0..<length name]. take 2 (drop i name) \<noteq> lit ''..'')
          then Some name else None)"

definition tick :: "usb_env \<Rightarrow> usb_world \<Rightarrow> usb_world \<times> bool" where
  "tick env w = (w\<lparr>uw_tick := uw_tick w + 1\<rparr>, fe_guard (ue_farm env) (uw_tick w))"

definition prune_links_into :: "usb_env \<Rightarrow> ustr \<Rightarrow> usb_world \<Rightarrow> usb_world \<times> nat" where
  "prune_links_into env name w =
     (let (farm, k, removed, _) =
            prune_farm_links (ue_farm env)
              (\<lambda>_ t. released_link_is_dead (uw_store w) (ue_root_ok env) name t) False
              (uw_farm w) (uw_tick w)
      in (w\<lparr>uw_farm := farm, uw_tick := k\<rparr>, removed))"

definition release_snapshot_files :: "usb_env \<Rightarrow> ustr \<Rightarrow> usb_world \<Rightarrow> usb_world \<times> bool" where
  "release_snapshot_files env name w =
     (let orphans = collect_links_into (uw_farm w) name;
          plan = plan_relinks orphans name (uw_store w)
      in case ue_rm_fail env name of
           Some partial \<Rightarrow>
             (w\<lparr>uw_store := upd_entry name (\<lambda>e. (partial e)\<lparr>sd_name := sd_name e\<rparr>) (uw_store w)\<rparr>, False)
         | None \<Rightarrow>
             let w1 = w\<lparr>uw_store := remove_dir_all name (uw_store w)\<rparr>;
                 (w2, pruned) = prune_links_into env name w1
             in if pruned > 0
                then (let (w3, mounted) = tick env w2
                      in if mounted
                         then (w3\<lparr>uw_farm := fst (apply_relinks (pl_links plan) (uw_farm w3))\<rparr>, True)
                         else (w3, True))
                else (w2, True))"

definition release_snapshot_locked :: "usb_env \<Rightarrow> ustr \<Rightarrow> usb_world \<Rightarrow> usb_world \<times> bool" where
  "release_snapshot_locked env snap w =
     (case normalize_snap_name snap of
        None \<Rightarrow> (w, False)
      | Some name \<Rightarrow>
          if \<not> list_ex (\<lambda>e. sd_name e = name) (uw_store w) then (w, False)
          else let mnt = autofs_snapshots @ [slash] @ name;
                   w1 = (if mnt \<in> set (uw_mounted w) \<and> ue_umount_ok env mnt
                         then w\<lparr>uw_mounted := removeAll mnt (uw_mounted w)\<rparr> else w)
               in release_snapshot_files env name w1)"

text \<open>\<open>sweep_dangling_links\<close> with the checks of its caller; \<open>None\<close> for every refusal.\<close>

definition sweep_dangling_links_in ::
  "usb_env \<Rightarrow> bool \<Rightarrow> usb_world \<Rightarrow> usb_world \<times> nat option" where
  "sweep_dangling_links_in env dry w =
     (if \<not> list_ex (\<lambda>e. strip_prefix (lit ''snap-'') (sd_name e) \<noteq> None \<and> sd_is_dir e) (uw_store w)
      then (w, None)
      else let dead = (\<lambda>_ t. case owned_snap_component t of
                        None \<Rightarrow> False
                      | Some n \<Rightarrow> snapshot_state (store_stat (uw_store w) n) (ue_root_ok env) = Gone);
               (farm, k, removed, aborted) =
                  prune_farm_links (ue_farm env) dead dry (uw_farm w) (uw_tick w)
           in (w\<lparr>uw_farm := farm, uw_tick := k\<rparr>, if aborted then None else Some removed))"

definition sweep_dangling_links ::
  "usb_env \<Rightarrow> bool \<Rightarrow> bool \<Rightarrow> usb_world \<Rightarrow> usb_world \<times> nat option" where
  "sweep_dangling_links env overlay_active dry w =
     (let (w1, mounted) = tick env w
      in if \<not> mounted \<or> \<not> ue_lock env (uw_tick w1) \<or> overlay_active then (w1, None)
         else sweep_dangling_links_in env dry w1)"

text \<open>The host of \<open>manage_free_space\<close>, on this world.\<close>

definition usb_host :: "usb_env \<Rightarrow> usb_world host" where
  "usb_host env =
     \<lparr>h_lock = (\<lambda>w. ue_lock env (uw_tick w)),
      h_space = (\<lambda>w. ue_space env (uw_store w)),
      h_inodes = (\<lambda>w. ue_inodes env (uw_farm w)),
      h_mounts = (\<lambda>_. ue_mounts env),
      h_latch = uw_latch,
      h_write_latch = (\<lambda>s w. w\<lparr>uw_latch := Some s\<rparr>),
      h_remove_latch = (\<lambda>w. w\<lparr>uw_latch := None\<rparr>),
      h_snapshots_by_age = (\<lambda>w. list_snapshots_by_age_in (uw_store w)),
      h_release = release_snapshot_locked env\<rparr>"


section \<open>Lemmas\<close>

subsection \<open>What a prune leaves\<close>

text \<open>Every file and link of a tree, at any depth: its path, and its target if it is a link.\<close>

fun leaf_node :: "path \<Rightarrow> node \<Rightarrow> (path \<times> ustr option) list"
  and leaf_entries :: "path \<Rightarrow> entries \<Rightarrow> (path \<times> ustr option) list" where
  "leaf_node p (Dir r es) = leaf_entries p es"
| "leaf_node p (Link t) = [(p, Some t)]"
| "leaf_node p Plain = [(p, None)]"
| "leaf_entries p ENil = []"
| "leaf_entries p (ECons n nd es) = leaf_node (p @ [n]) nd @ leaf_entries p es"

definition spared :: "(path \<Rightarrow> ustr \<Rightarrow> bool) \<Rightarrow> path \<times> ustr option \<Rightarrow> bool" where
  "spared dead x \<longleftrightarrow> (case snd x of None \<Rightarrow> True | Some t \<Rightarrow> \<not> dead (fst x) t)"

lemma leaf_keep_entry:
  "set (leaf_entries p (keep_entry n nd es)) =
     (case nd of None \<Rightarrow> {} | Some x \<Rightarrow> set (leaf_node (p @ [n]) x)) \<union> set (leaf_entries p es)"
  by (auto simp: keep_entry_def split: option.splits)

lemma prune_keeps_spared:
  "prune_node env dead dry p d nd k = (nd', k', r, c) \<Longrightarrow>
     set (filter (spared dead) (leaf_node p nd)) \<subseteq> set (leaf_node p nd')"
  "prune_entries env dead dry p d es k = (es', k', r, c) \<Longrightarrow>
     set (filter (spared dead) (leaf_entries p es)) \<subseteq> set (leaf_entries p es')"
proof (induction env dead dry p d nd k and env dead dry p d es k
    arbitrary: nd' k' r c and es' k' r c rule: prune_node_prune_entries.induct)
  case (1 env dead dry p d readable es k)
  then show ?case by (fastforce split: if_splits prod.splits)
next
  case (5 env dead dry p d n t es k)
  then show ?case
    by (fastforce simp: leaf_keep_entry spared_def split: if_splits prod.splits)
next
  case (7 env dead dry p d n readable ds es k)
  obtain nd1 k1 r1 c1 where 1: "prune_node env dead dry (p @ [n]) (d + 1) (Dir readable ds) k = (nd1, k1, r1, c1)"
    by (metis prod_cases4)
  obtain es2 k2 r2 c2 where 2: "prune_entries env dead dry p d es k1 = (es2, k2, r2, c2)"
    by (metis prod_cases4)
  note IH = 7(1) [OF 1]
  show ?case
  proof (cases c1)
    case False
    with 7(3) 1 IH show ?thesis by auto
  next
    case True
    note IH2 = 7(2) [OF 1 [symmetric] refl refl refl, unfolded not_not, OF True 2]
    from 7(3) 1 2 True IH IH2 show ?thesis
      by (auto simp: leaf_keep_entry split: if_splits node.splits entries.splits)
  qed
qed (auto simp: spared_def split: prod.splits)


lemma prune_dry_unchanged:
  "prune_node env dead True p d nd k = (nd', k', r, c) \<Longrightarrow> nd' = nd"
  "prune_entries env dead True p d es k = (es', k', r, c) \<Longrightarrow> es' = es"
  by (induction env dead dry\<equiv>True p d nd k and env dead dry\<equiv>True p d es k
      arbitrary: nd' k' r c and es' k' r c rule: prune_node_prune_entries.induct)
    (auto simp: keep_entry_def split: if_splits prod.splits)

text \<open>A run during which the mount stays, no other writer interferes and unlinks succeed.\<close>

definition calm :: "farm_env \<Rightarrow> bool" where
  "calm env \<longleftrightarrow> (\<forall>k. fe_guard env k) \<and> (\<forall>p t. fe_fresh env p t = Some t) \<and> (\<forall>p. fe_unlink_ok env p)"

definition is_dir :: "node \<Rightarrow> bool" where
  "is_dir nd = (case nd of Dir _ _ \<Rightarrow> True | _ \<Rightarrow> False)"

lemma collect_keep_entry:
  "collect_entries p d (keep_entry n nd es) =
     (case nd of None \<Rightarrow> [] | Some x \<Rightarrow> collect_node (p @ [n]) (d + 1) x) @ collect_entries p d es"
  by (auto simp: keep_entry_def split: option.splits)

lemma prune_dir: "prune_node env dead dry p d (Dir b es) k = (nd', k', r, c) \<Longrightarrow> \<exists>es'. nd' = Dir b es'"
  by (auto split: if_splits prod.splits)

lemma prune_calm:
  "prune_node env dead dry p d nd k = (nd', k', r, c) \<Longrightarrow> calm env \<Longrightarrow> is_dir nd \<Longrightarrow>
     c \<and> r = length (filter (\<lambda>(q, t). dead q t) (collect_node p d nd)) \<and>
     (\<not> dry \<longrightarrow> collect_node p d nd' = filter (\<lambda>(q, t). \<not> dead q t) (collect_node p d nd))"
  "prune_entries env dead dry p d es k = (es', k', r, c) \<Longrightarrow> calm env \<Longrightarrow>
     c \<and> r = length (filter (\<lambda>(q, t). dead q t) (collect_entries p d es)) \<and>
     (\<not> dry \<longrightarrow> collect_entries p d es' = filter (\<lambda>(q, t). \<not> dead q t) (collect_entries p d es))"
proof (induction env dead dry p d nd k and env dead dry p d es k
    arbitrary: nd' k' r c and es' k' r c rule: prune_node_prune_entries.induct)
  case (1 env dead dry p d readable es k)
  then show ?case by (auto simp: calm_def split: if_splits prod.splits)
next
  case (5 env dead dry p d n t es k)
  then show ?case
    by (auto simp: collect_keep_entry calm_def unlink_if_still_dead_def split: if_splits prod.splits)
next
  case (7 env dead dry p d n readable ds es k)
  obtain nd1 k1 r1 c1 where 1: "prune_node env dead dry (p @ [n]) (d + 1) (Dir readable ds) k = (nd1, k1, r1, c1)"
    by (metis prod_cases4)
  obtain es2 k2 r2 c2 where 2: "prune_entries env dead dry p d es k1 = (es2, k2, r2, c2)"
    by (metis prod_cases4)
  note IH = 7(1) [OF 1 7(4)]
  then have T: c1 by (simp add: is_dir_def)
  note IH2 = 7(2) [OF 1 [symmetric] refl refl refl, unfolded not_not, OF T 2 7(4)]
  have "collect_node (p @ [n]) (d + 1) nd1 = []" if "case nd1 of Dir _ ENil \<Rightarrow> True | _ \<Rightarrow> False"
    using that by (auto split: node.splits entries.splits)
  with 7(3) 1 2 T IH IH2 show ?case
    by (auto simp: collect_keep_entry is_dir_def simp del: collect_node.simps split: if_splits)
qed (auto simp: is_dir_def split: prod.splits)


subsection \<open>The re-point plan\<close>

text \<open>The specification of the plan: the copies of a clip that readable tables of contents list.\<close>

definition copy_in :: "store \<Rightarrow> ustr \<Rightarrow> ustr \<Rightarrow> nat \<Rightarrow> bool" where
  "copy_in st n rel sz \<longleftrightarrow>
     (\<exists>rows. store_toc st n = Toc rows True \<and> (rel, sz) \<in> set (List.map_filter toc_row rows))"

definition best_copy :: "store \<Rightarrow> ustr set \<Rightarrow> ustr \<Rightarrow> nat \<Rightarrow> ustr \<Rightarrow> bool" where
  "best_copy st live rel sz n \<longleftrightarrow> n \<in> live \<and> copy_in st n rel sz \<and>
     (\<forall>n' sz'. n' \<in> live \<and> copy_in st n' rel sz' \<longrightarrow> sz' < sz \<or> sz' = sz \<and> n' \<le> n)"

definition best_inv :: "ustr set \<Rightarrow> (ustr \<times> ustr \<times> nat) set \<Rightarrow> best_copies \<Rightarrow> bool" where
  "best_inv K S best \<longleftrightarrow> dom best = K \<and>
     (\<forall>rel \<in> K. case the (best rel) of
        None \<Rightarrow> (\<forall>n sz. (n, rel, sz) \<notin> S)
      | Some (sz, n) \<Rightarrow> (n, rel, sz) \<in> S \<and>
          (\<forall>n' sz'. (n', rel, sz') \<in> S \<longrightarrow> sz' < sz \<or> sz' = sz \<and> n' \<le> n))"

lemma apply_hit_inv:
  assumes "best_inv K S best" "rel \<in> K" "\<And>n r z. (n, r, z) \<in> S \<Longrightarrow> snap \<le> n"
  shows "best_inv K (insert (snap, rel, sz) S) (apply_hit snap (rel, sz) best)"
proof -
  from assms(1,2) obtain slot where b: "best rel = Some slot" by (auto simp: best_inv_def)
  show ?thesis
  proof (cases slot)
    case None
    with assms b show ?thesis
      by (fastforce simp: best_inv_def apply_hit_def split: option.splits)
  next
    case (Some x)
    obtain len n0 where x: "x = (len, n0)" by (cases x)
    from assms(1,2) b Some x have old: "(n0, rel, len) \<in> S"
      "\<And>n' sz'. (n', rel, sz') \<in> S \<Longrightarrow> sz' < len \<or> sz' = len \<and> n' \<le> n0"
      by (force simp: best_inv_def)+
    from assms(3) [OF old(1)] have "snap \<le> n0" .
    show ?thesis
    proof (cases "len < sz")
      case True
      then have "\<And>n' sz'. (n', rel, sz') \<in> S \<Longrightarrow> sz' < sz" using old(2) by fastforce
      with True assms b Some x show ?thesis
        by (fastforce simp: best_inv_def apply_hit_def split: option.splits)
    next
      case False
      with assms b Some x \<open>snap \<le> n0\<close> show ?thesis
        by (fastforce simp: best_inv_def apply_hit_def split: option.splits)
    qed
  qed
qed

lemma fold_apply_hit_inv:
  assumes "best_inv K S best" "\<And>rel sz. (rel, sz) \<in> set hits \<Longrightarrow> rel \<in> K"
    "\<And>n r z. (n, r, z) \<in> S \<Longrightarrow> snap \<le> n"
  shows "best_inv K ((\<lambda>(rel, sz). (snap, rel, sz)) ` set hits \<union> S) (fold (apply_hit snap) hits best)"
  using assms
proof (induction hits arbitrary: S best)
  case Nil
  then show ?case by simp
next
  case (Cons hit hits)
  obtain rel sz where h: "hit = (rel, sz)" by (cases hit)
  have 1: "best_inv K (insert (snap, rel, sz) S) (apply_hit snap hit best)"
    unfolding h using Cons.prems h by (intro apply_hit_inv) auto
  have 2: "snap \<le> n" if "(n, r, z) \<in> insert (snap, rel, sz) S" for n r z
    using that Cons.prems(3) by blast
  have 3: "rel \<in> K" if "(rel, sz) \<in> set hits" for rel sz
    using that by (intro Cons.prems(2) [of rel sz]) simp
  from Cons.IH [OF 1 3 2] show ?case by (simp add: h)
qed

lemma set_toc_hits:
  "set (toc_hits best rows) = {(rel, sz). (rel, sz) \<in> set (List.map_filter toc_row rows) \<and> rel \<in> dom best}"
  by (auto simp: toc_hits_def)

lemma scan_survivor_inv:
  assumes "best_inv K S best" "\<And>n r z. (n, r, z) \<in> S \<Longrightarrow> snap \<le> n"
    and "scan_survivor st snap (best, u, e) = (best', u', e')"
  shows "best_inv K ({(snap, rel, sz) | rel sz. rel \<in> K \<and> copy_in st snap rel sz} \<union> S) best'"
proof (cases "\<exists>rows. store_toc st snap = Toc rows True")
  case True
  then obtain rows where r: "store_toc st snap = Toc rows True" by blast
  from assms(1) have K: "dom best = K" by (simp add: best_inv_def)
  from assms(3) r have b': "best' = fold (apply_hit snap) (toc_hits best rows) best"
    by (simp add: scan_survivor_def)
  have eq: "(\<lambda>(rel, sz). (snap, rel, sz)) ` set (toc_hits best rows) =
      {(snap, rel, sz) | rel sz. rel \<in> K \<and> copy_in st snap rel sz}"
    by (auto simp: set_toc_hits copy_in_def r K)
  show ?thesis unfolding b' eq [symmetric]
    by (rule fold_apply_hit_inv [OF assms(1)]) (use assms(2) K in \<open>auto simp: set_toc_hits\<close>)
next
  case False
  then have "best' = best" using assms(3) by (auto simp: scan_survivor_def split: toc.splits if_splits)
  moreover from False have "\<not> copy_in st snap rel sz" for rel sz by (auto simp: copy_in_def)
  ultimately show ?thesis using assms(1) by simp
qed

lemma scan_survivors_inv:
  assumes "best_inv K S best" "sorted_wrt (\<lambda>a b. b \<le> a) live" "\<And>n r z m. (n, r, z) \<in> S \<Longrightarrow> m \<in> set live \<Longrightarrow> m \<le> n"
    and "fold (scan_survivor st) live (best, u, e) = (best', u', e')"
  shows "best_inv K ({(n, rel, sz). n \<in> set live \<and> rel \<in> K \<and> copy_in st n rel sz} \<union> S) best'"
  using assms
proof (induction live arbitrary: S best u e)
  case Nil
  then show ?case by simp
next
  case (Cons snap live)
  obtain b1 u1 e1 where 1: "scan_survivor st snap (best, u, e) = (b1, u1, e1)" by (metis prod_cases3)
  let ?S = "{(snap, rel, sz) | rel sz. rel \<in> K \<and> copy_in st snap rel sz} \<union> S"
  have "best_inv K ?S b1" by (rule scan_survivor_inv [OF Cons.prems(1) _ 1]) (use Cons.prems(3) in auto)
  then have "best_inv K ({(n, rel, sz). n \<in> set live \<and> rel \<in> K \<and> copy_in st n rel sz} \<union> ?S) best'"
  proof (rule Cons.IH)
    show "sorted_wrt (\<lambda>a b. b \<le> a) live" using Cons.prems(2) by simp
    show "m \<le> n" if "(n, r, z) \<in> ?S" "m \<in> set live" for n r z m
      using that Cons.prems(2,3) by auto
    show "fold (scan_survivor st) live (b1, u1, e1) = (best', u', e')" using Cons.prems(4) 1 by simp
  qed
  moreover have "{(n, rel, sz). n \<in> set live \<and> rel \<in> K \<and> copy_in st n rel sz} \<union> ?S =
      {(n, rel, sz). n \<in> set (snap # live) \<and> rel \<in> K \<and> copy_in st n rel sz} \<union> S" by auto
  ultimately show ?case by simp
qed

lemma best_inv_key:
  assumes inv: "best_inv K {(n, rel, sz). n \<in> L \<and> rel \<in> K \<and> copy_in st n rel sz} best"
    and K: "rel \<in> K"
  shows "best rel = Some (Some (sz, n)) \<longleftrightarrow> best_copy st L rel sz n"
proof -
  from inv K obtain slot where s: "best rel = Some slot" by (auto simp: best_inv_def)
  have c: "case slot of None \<Rightarrow> (\<forall>n sz. \<not> (n \<in> L \<and> copy_in st n rel sz))
      | Some (sz, n) \<Rightarrow> best_copy st L rel sz n"
    using conjunct2 [OF inv [unfolded best_inv_def], THEN bspec, OF K] s K
    by (cases slot) (auto simp: best_copy_def)
  have u: "sz = sz' \<and> n = n'" if "best_copy st L rel sz n" "best_copy st L rel sz' n'" for sz n sz' n'
    using that unfolding best_copy_def by (metis order_antisym_conv order_less_asym)
  show ?thesis
  proof (cases slot)
    case None
    with c s show ?thesis by (auto simp: best_copy_def)
  next
    case (Some x)
    with c s u show ?thesis by (cases x) auto
  qed
qed

lemma resolve_wanted_Some:
  "resolve_wanted best (l, via_mnt, rel) = Some (link, t) \<longleftrightarrow>
     l = link \<and> (\<exists>sz n. best rel = Some (Some (sz, n)) \<and> t = new_target via_mnt n rel)"
  by (auto simp: resolve_wanted_def split: option.splits)

lemma live_survivors_sorted: "sorted_wrt (\<lambda>a b. b \<le> a) (live_survivors st released)"
  by (simp add: live_survivors_def sorted_wrt_rev)

lemma plan_links_iff:
  "(link, t) \<in> set (pl_links (plan_relinks orphans released st)) \<longleftrightarrow>
     (\<exists>orphan via_mnt rel sz n. orphan \<in> set orphans \<and>
        wanted_of released orphan = Some (link, via_mnt, rel) \<and>
        best_copy st (set (live_survivors st released)) rel sz n \<and> t = new_target via_mnt n rel)"
proof -
  let ?wanted = "List.map_filter (wanted_of released) orphans"
  let ?K = "(\<lambda>(_, _, rel). rel) ` set ?wanted"
  let ?live = "live_survivors st released"
  let ?b0 = "map_of (map (\<lambda>(_, _, rel). (rel, None)) ?wanted) :: best_copies"
  obtain best u e where f: "fold (scan_survivor st) ?live (?b0, 0, 0) = (best, u, e)"
    by (metis prod_cases3)
  have "best_inv ?K {} ?b0"
  proof -
    have d: "dom ?b0 = ?K" by (force simp: dom_map_of_conv_image_fst)
    have "the (?b0 rel) = None" if "rel \<in> ?K" for rel
    proof -
      from that d obtain y where y: "?b0 rel = Some y" by blast
      from map_of_SomeD [OF this] have "y = None" by auto
      with y show ?thesis by simp
    qed
    with d show ?thesis by (simp add: best_inv_def)
  qed
  from scan_survivors_inv [OF this live_survivors_sorted _ f]
  have inv: "best_inv ?K {(n, rel, sz). n \<in> set ?live \<and> rel \<in> ?K \<and> copy_in st n rel sz} best" by simp
  note key = best_inv_key [OF inv]
  have links: "pl_links (plan_relinks orphans released st) = List.map_filter (resolve_wanted best) ?wanted"
    by (simp add: plan_relinks_def Let_def f map_filter_simps)
  have "(link, t) \<in> set (pl_links (plan_relinks orphans released st)) \<longleftrightarrow>
      (\<exists>via_mnt rel sz n. (link, via_mnt, rel) \<in> set ?wanted \<and> best rel = Some (Some (sz, n)) \<and>
         t = new_target via_mnt n rel)"
    unfolding links map_filter_set [of _ "resolve_wanted best"] Bex_def split_paired_Ex resolve_wanted_Some
    by blast
  also have "\<dots> \<longleftrightarrow> (\<exists>via_mnt rel sz n. (link, via_mnt, rel) \<in> set ?wanted \<and>
      best_copy st (set ?live) rel sz n \<and> t = new_target via_mnt n rel)"
  proof -
    have "rel \<in> ?K" if "(link, via_mnt, rel) \<in> set ?wanted" for link via_mnt rel
      using that by (rule image_eqI [rotated]) simp
    then show ?thesis using key by blast
  qed
  finally show ?thesis unfolding map_filter_set by blast
qed

end
