(* ===== verification/SnapshotRelease.thy ===== *)
theory SnapshotRelease
  imports LinkFarm
begin

section \<open>Releasing a snapshot, and evicting for space\<close>

text \<open>
  What a release leaves in the link farm (\<^verbatim>\<open>crates/usb_gadget/src/snapshot.rs\<close>), and the contract
  of the eviction loop of \<^verbatim>\<open>space.rs\<close> discharged on the snapshot store: the definitions of
  \<open>LinkFarm\<close> provide the host of \<open>manage_free_space\<close>.
\<close>

subsection \<open>Paths of a well-formed farm\<close>

fun entry_names :: "entries \<Rightarrow> ustr set" where
  "entry_names ENil = {}"
| "entry_names (ECons n nd es) = insert n (entry_names es)"

text \<open>No directory lists a name twice.\<close>

fun wf_node :: "node \<Rightarrow> bool" and wf_entries :: "entries \<Rightarrow> bool" where
  "wf_node (Dir r es) = wf_entries es"
| "wf_node (Link t) = True"
| "wf_node Plain = True"
| "wf_entries ENil = True"
| "wf_entries (ECons n nd es) \<longleftrightarrow> n \<notin> entry_names es \<and> wf_node nd \<and> wf_entries es"

text \<open>A path at which a link can be made: free, and its parents are directories or free.\<close>

fun placeable :: "path \<Rightarrow> node \<Rightarrow> bool" where
  "placeable [] nd = False"
| "placeable (c # cs) (Dir r es) = (case find_entry c es of None \<Rightarrow> True | Some nd \<Rightarrow> placeable cs nd)"
| "placeable (c # cs) _ = False"

lemma find_entry_None: "find_entry c es = None \<longleftrightarrow> c \<notin> entry_names es"
  by (induction es rule: entry_names.induct) auto

lemma find_entry_keep:
  "n \<notin> entry_names es \<Longrightarrow> find_entry c (keep_entry n nd es) = (if c = n then nd else find_entry c es)"
  by (auto simp: keep_entry_def find_entry_None split: option.splits)

lemma find_set_entry: "find_entry c (set_entry d x es) = (if c = d then Some x else find_entry c es)"
  by (induction es rule: entry_names.induct) auto

lemma collect_lookup:
  "wf_node nd \<Longrightarrow> (q, t) \<in> set (collect_node p d nd) \<Longrightarrow> \<exists>s. q = p @ s \<and> lookup_node s nd = Some (Link t)"
  "wf_entries es \<Longrightarrow> (q, t) \<in> set (collect_entries p d es) \<Longrightarrow>
     \<exists>c s nd. q = p @ c # s \<and> find_entry c es = Some nd \<and> lookup_node s nd = Some (Link t)"
proof (induction p d nd and p d es rule: collect_node_collect_entries.induct)
  case (1 p d readable es)
  then obtain c s nd where "q = p @ c # s" "find_entry c es = Some nd" "lookup_node s nd = Some (Link t)"
    by (fastforce split: if_splits)
  then show ?case by (intro exI [of _ "c # s"]) simp
next
  case (5 p d n nd es)
  then consider "\<exists>s. q = (p @ [n]) @ s \<and> lookup_node s nd = Some (Link t)"
    | "\<exists>c s nd. q = p @ c # s \<and> find_entry c es = Some nd \<and> lookup_node s nd = Some (Link t)"
    by auto
  then show ?case
  proof cases
    case 1
    then show ?thesis by force
  next
    case 2
    then obtain c s x where x: "q = p @ c # s" "find_entry c es = Some x" "lookup_node s x = Some (Link t)"
      by blast
    then have "c \<noteq> n" using 5(3) find_entry_None [of c es] by auto
    with x show ?thesis by auto
  qed
qed auto

lemma prune_wf:
  "prune_node env dead dry p d nd k = (nd', k', r, c) \<Longrightarrow> wf_node nd \<Longrightarrow> wf_node nd'"
  "prune_entries env dead dry p d es k = (es', k', r, c) \<Longrightarrow> wf_entries es \<Longrightarrow>
     wf_entries es' \<and> entry_names es' \<subseteq> entry_names es"
proof (induction env dead dry p d nd k and env dead dry p d es k
    arbitrary: nd' k' r c and es' k' r c rule: prune_node_prune_entries.induct)
  case (1 env dead dry p d readable es k)
  then show ?case by (fastforce split: if_splits prod.splits)
next
  case (5 env dead dry p d n t es k)
  then show ?case
    by (fastforce simp: keep_entry_def unlink_if_still_dead_def split: if_splits prod.splits option.splits)
next
  case (7 env dead dry p d n readable ds es k)
  obtain nd1 k1 r1 c1 where 1: "prune_node env dead dry (p @ [n]) (d + 1) (Dir readable ds) k = (nd1, k1, r1, c1)"
    by (metis prod_cases4)
  obtain es2 k2 r2 c2 where 2: "prune_entries env dead dry p d es k1 = (es2, k2, r2, c2)"
    by (metis prod_cases4)
  from 7(4) have wf: "wf_node (Dir readable ds)" "wf_entries es" "n \<notin> entry_names es" by auto
  note IH = 7(1) [OF 1 wf(1)]
  show ?case
  proof (cases c1)
    case False
    with 7(3) 1 IH wf show ?thesis by auto
  next
    case True
    note IH2 = 7(2) [OF 1 [symmetric] refl refl refl, unfolded not_not, OF True 2 wf(2)]
    from 7(3) 1 2 True IH IH2 wf show ?thesis
      by (auto simp: keep_entry_def split: option.splits if_splits)
  qed
qed (fastforce split: prod.splits)+

lemma placeable_keep:
  assumes "wf_entries es" "(q, t) \<in> set (collect_entries p d es)" "n \<notin> entry_names es" "n \<notin> entry_names es'"
  shows "(\<exists>s. q = p @ s \<and> placeable s (Dir r (keep_entry n nd es'))) \<longleftrightarrow>
    (\<exists>s. q = p @ s \<and> placeable s (Dir r es'))"
proof -
  from collect_lookup(2) [OF assms(1,2)] obtain c s x where q: "q = p @ c # s" "find_entry c es = Some x"
    by blast
  then have "c \<noteq> n" using assms(3) find_entry_None [of c es] by auto
  with q assms(4) show ?thesis by (simp add: find_entry_keep)
qed

lemma prune_placeable:
  "prune_node env dead False p d nd k = (nd', k', r, c) \<Longrightarrow> calm env \<Longrightarrow> wf_node nd \<Longrightarrow> is_dir nd \<Longrightarrow>
     (q, t) \<in> set (collect_node p d nd) \<Longrightarrow> dead q t \<Longrightarrow> \<exists>s. q = p @ s \<and> placeable s nd'"
  "prune_entries env dead False p d es k = (es', k', r, c) \<Longrightarrow> calm env \<Longrightarrow> wf_entries es \<Longrightarrow>
     (q, t) \<in> set (collect_entries p d es) \<Longrightarrow> dead q t \<Longrightarrow> \<exists>s. q = p @ s \<and> placeable s (Dir True es')"
proof (induction env dead dry\<equiv>False p d nd k and env dead dry\<equiv>False p d es k
    arbitrary: nd' k' r c and es' k' r c rule: prune_node_prune_entries.induct)
  case (1 env dead p d readable es k)
  obtain es1 k1 r1 c1 where 2: "prune_entries env dead False p d es (k + 1) = (es1, k1, r1, c1)"
    by (metis prod_cases4)
  from 1(3,7) have c: "\<not> d > 4" "fe_guard env k" readable "(q, t) \<in> set (collect_entries p d es)"
    using 1(6) by (auto simp: calm_def split: if_splits)
  from 1(1) [OF _ _ _ 2 1(3) _ c(4) 1(7)] c 1(4)
  obtain s where s: "q = p @ s" "placeable s (Dir True es1)" by auto
  from 1(2) c 2 have "nd' = Dir readable es1" by simp
  with s show ?case by (cases s) auto
next
  case (5 env dead p d n t' es k)
  let ?k = "if dead (p @ [n]) t' then k + 1 else k"
  obtain es1 k1 r1 c1 where 2: "prune_entries env dead False p d es ?k = (es1, k1, r1, c1)"
    by (metis prod_cases4)
  from 5(5) have wf: "wf_entries es" "n \<notin> entry_names es" by auto
  with prune_wf(2) [OF 2] have n1: "n \<notin> entry_names es1" by auto
  from 5(3,4) 2 have es': "es' = keep_entry n (if dead (p @ [n]) t' then None else Some (Link t')) es1"
    by (auto simp: calm_def unlink_if_still_dead_def keep_entry_def split: if_splits)
  show ?case
  proof (cases "(q, t) \<in> set (collect_entries p d es)")
    case True
    have "\<exists>s. q = p @ s \<and> placeable s (Dir True es1)"
      using 5(1,2) 2 5(4) wf True 5(7) by (auto split: if_splits simp: calm_def unlink_if_still_dead_def)
    then show ?thesis unfolding es' using placeable_keep [OF wf(1) True wf(2) n1] by blast
  next
    case False
    with 5(6) have "q = p @ [n]" "t = t'" by auto
    moreover from n1 have "find_entry n es1 = None" by (simp add: find_entry_None)
    ultimately show ?thesis using 5(7) by (auto simp: es' keep_entry_def)
  qed
next
  case (6 env dead p d n es k)
  obtain es1 k1 r1 c1 where 2: "prune_entries env dead False p d es k = (es1, k1, r1, c1)"
    by (metis prod_cases4)
  from 6(4) have wf: "wf_entries es" "n \<notin> entry_names es" by auto
  with prune_wf(2) [OF 2] have n1: "n \<notin> entry_names es1" by auto
  from 6(2) 2 have es': "es' = keep_entry n (Some Plain) es1" by (simp add: keep_entry_def)
  from 6(5) have in_es: "(q, t) \<in> set (collect_entries p d es)" by simp
  from 6(1) [OF 2 6(3) wf(1) in_es 6(6)] show ?case
    unfolding es' using placeable_keep [OF wf(1) in_es wf(2) n1] by blast
next
  case (7 env dead p d n readable ds es k)
  obtain nd1 k1 r1 c1 where 1: "prune_node env dead False (p @ [n]) (d + 1) (Dir readable ds) k = (nd1, k1, r1, c1)"
    by (metis prod_cases4)
  obtain es2 k2 r2 c2 where 2: "prune_entries env dead False p d es k1 = (es2, k2, r2, c2)"
    by (metis prod_cases4)
  have dir: "is_dir (Dir readable ds)" by (simp add: is_dir_def)
  from 7(5) have wf: "wf_node (Dir readable ds)" "wf_entries es" "n \<notin> entry_names es" by auto
  with prune_wf(2) [OF 2] have n1: "n \<notin> entry_names es2" by auto
  have c1: c1 using prune_calm(1) [OF 1 7(4) dir] by blast
  obtain left where left: "es' = keep_entry n left es2" "left = None \<or> left = Some nd1"
    using 7(3) 1 2 c1 by (auto simp del: prune_node.simps split: if_splits)
  show ?case
  proof (cases "(q, t) \<in> set (collect_entries p d es)")
    case True
    from 7(2) [OF 1 [symmetric] refl refl refl, unfolded not_not, OF c1 2 7(4) wf(2) True 7(7)]
    show ?thesis unfolding left(1) using placeable_keep [OF wf(2) True wf(3) n1] by blast
  next
    case False
    with 7(6) have "(q, t) \<in> set (collect_node (p @ [n]) (d + 1) (Dir readable ds))"
      by (auto simp del: collect_node.simps)
    from 7(1) [OF 1 7(4) wf(1) dir this 7(7)]
    obtain s where "q = p @ n # s" "placeable s nd1" by auto
    with left n1 show ?thesis by (intro exI [of _ "n # s"]) (auto simp: find_entry_keep find_entry_None)
  qed
qed (auto simp: is_dir_def)

subsection \<open>Placing links\<close>

lemma lookup_new_chain: "lookup_node p (new_chain p t) = Some (Link t)"
  by (induction p) auto

lemma placeable_lookup: "placeable p nd \<Longrightarrow> lookup_node p nd = None"
  by (induction p nd rule: placeable.induct) (auto split: option.splits)

lemma put_link_placeable: "placeable p nd \<Longrightarrow> \<exists>nd'. put_link p t nd = Some nd'"
  by (induction p nd rule: placeable.induct) (auto split: option.splits)

lemma put_link_lookup: "put_link p t nd = Some nd' \<Longrightarrow> lookup_node p nd' = Some (Link t)"
  by (induction p t nd arbitrary: nd' rule: put_link.induct)
    (auto simp: find_set_entry lookup_new_chain split: option.splits)

lemma put_link_keeps:
  "put_link p t nd = Some nd' \<Longrightarrow> lookup_node q nd = Some (Link u) \<Longrightarrow> lookup_node q nd' = Some (Link u)"
proof (induction p t nd arbitrary: nd' q rule: put_link.induct)
  case (2 c cs t r es)
  then show ?case
    by (cases q) (auto simp: find_set_entry split: option.splits bind_splits if_splits)
qed auto

lemma placeable_new_chain:
  "\<not> prefix p q \<Longrightarrow> \<not> prefix q p \<Longrightarrow> placeable q (new_chain p t)"
proof (induction p arbitrary: q)
  case (Cons c cs)
  then show ?case by (cases q) auto
qed simp

lemma put_link_placeable_other:
  "put_link p t nd = Some nd' \<Longrightarrow> placeable q nd \<Longrightarrow> \<not> prefix p q \<Longrightarrow> \<not> prefix q p \<Longrightarrow> placeable q nd'"
proof (induction p t nd arbitrary: nd' q rule: put_link.induct)
  case (2 c cs t r es)
  obtain d ds where q: "q = d # ds" using 2(3) by (cases q) auto
  show ?case
  proof (cases "find_entry c es")
    case None
    with 2 q show ?thesis by (auto simp: find_set_entry placeable_new_chain)
  next
    case (Some nd)
    then obtain x where x: "put_link cs t nd = Some x" "nd' = Dir r (set_entry c x es)"
      using 2(2) by auto
    from 2(1) [OF Some x(1)] 2(3-5) q x(2) Some show ?thesis by (auto simp: find_set_entry)
  qed
qed auto

text \<open>Links whose paths are not below one another, with one target each, are all made.\<close>

definition plan_fits :: "(path \<times> ustr) list \<Rightarrow> bool" where
  "plan_fits links \<longleftrightarrow> (\<forall>(p, t) \<in> set links. \<forall>(q, u) \<in> set links. prefix p q \<longrightarrow> p = q \<and> t = u)"

lemma apply_relinks_keeps:
  "lookup_node q farm = Some (Link u) \<Longrightarrow> lookup_node q (fst (apply_relinks links farm)) = Some (Link u)"
proof (induction links farm rule: apply_relinks.induct)
  case (2 link target links farm)
  then show ?case
    by (cases "put_link link target farm")
      (use put_link_keeps [OF _ 2(4)] in \<open>auto split: prod.splits\<close>)
qed simp

lemma apply_relinks_made:
  "plan_fits links \<Longrightarrow> (\<And>p t. (p, t) \<in> set links \<Longrightarrow> placeable p farm \<or> lookup_node p farm = Some (Link t)) \<Longrightarrow>
   (p, t) \<in> set links \<Longrightarrow> lookup_node p (fst (apply_relinks links farm)) = Some (Link t)"
proof (induction links arbitrary: farm)
  case (Cons l links)
  obtain q u where l: "l = (q, u)" by (cases l)
  have fits: "plan_fits links" using Cons.prems(1) by (auto simp: plan_fits_def)
  have qu: "placeable q farm \<or> lookup_node q farm = Some (Link u)" using Cons.prems(2) l by simp
  show ?case
  proof (cases "placeable q farm")
    case False
    with qu have L: "lookup_node q farm = Some (Link u)" by blast
    then have ap: "apply_relinks (l # links) farm = apply_relinks links farm" by (simp add: l)
    show ?thesis
    proof (cases "(p, t) \<in> set links")
      case True
      show ?thesis unfolding ap by (rule Cons.IH [OF fits _ True]) (use Cons.prems(2) in simp)
    next
      case False
      with Cons.prems(3) l L show ?thesis unfolding ap by (auto intro: apply_relinks_keeps)
    qed
  next
    case True
    then obtain farm' where f: "put_link q u farm = Some farm'" using put_link_placeable by blast
    have ap: "fst (apply_relinks (l # links) farm) = fst (apply_relinks links farm')"
      using f placeable_lookup [OF True] by (simp add: l split: prod.splits)
    have inv: "placeable p' farm' \<or> lookup_node p' farm' = Some (Link t')" if "(p', t') \<in> set links" for p' t'
    proof (cases "p' = q")
      case True
      then have "t' = u" using Cons.prems(1) that l by (force simp: plan_fits_def)
      with True f show ?thesis by (auto dest: put_link_lookup)
    next
      case False
      then have "\<not> prefix p' q" "\<not> prefix q p'"
        using Cons.prems(1) that l by (force simp: plan_fits_def)+
      with Cons.prems(2) [of p' t'] that f show ?thesis
        by (auto dest: put_link_keeps put_link_placeable_other)
    qed
    show ?thesis
    proof (cases "(p, t) \<in> set links")
      case True
      show ?thesis unfolding ap by (rule Cons.IH [OF fits _ True]) (rule inv)
    next
      case False
      with Cons.prems(3) l f show ?thesis unfolding ap by (auto intro: apply_relinks_keeps put_link_lookup)
    qed
  qed
qed simp

lemma apply_relinks_other:
  "placeable q farm \<Longrightarrow> (\<And>p t. (p, t) \<in> set links \<Longrightarrow> \<not> prefix p q \<and> \<not> prefix q p) \<Longrightarrow>
   placeable q (fst (apply_relinks links farm))"
proof (induction links farm rule: apply_relinks.induct)
  case (2 link target links farm)
  have np: "\<not> prefix link q" "\<not> prefix q link" using 2(5) [of link target] by simp_all
  have rest: "\<not> prefix p q \<and> \<not> prefix q p" if "(p, t) \<in> set links" for p t
    using that 2(5) [of p t] by simp
  show ?case
  proof (cases "lookup_node link farm \<noteq> None")
    case True
    from 2(1) [OF this 2(4)] rest True show ?thesis by auto
  next
    case free: False
    show ?thesis
    proof (cases "put_link link target farm")
      case None
      from 2(2) [OF free None 2(4)] rest free None show ?thesis by auto
    next
      case (Some farm')
      from 2(3) [OF free Some put_link_placeable_other [OF Some 2(4) np]] rest free Some
      show ?thesis by (auto split: prod.splits)
    qed
  qed
qed simp

subsection \<open>A release in a calm environment\<close>

lemma lookup_link_prefix:
  "lookup_node p nd = Some (Link t) \<Longrightarrow> lookup_node q nd = Some (Link u) \<Longrightarrow> prefix p q \<Longrightarrow> p = q"
proof (induction p nd arbitrary: q rule: lookup_node.induct)
  case (1 nd)
  then show ?case by (cases q) auto
next
  case (2 c cs r es)
  then show ?case by (cases q) (auto split: bind_splits)
qed auto

lemma wanted_of_link: "wanted_of n (link, t) = Some (l, v, rel) \<Longrightarrow> l = link"
  by (auto simp: wanted_of_def Let_def split: option.splits if_splits)

lemma best_copy_single:
  "store_toc st n = Toc rows True \<Longrightarrow> List.map_filter toc_row rows = [(rel, sz)] \<Longrightarrow> best_copy st {n} rel sz n"
  by (auto simp: best_copy_def copy_in_def)

lemma best_copy_unique: "best_copy st L rel sz n \<Longrightarrow> best_copy st L rel sz' n' \<Longrightarrow> n = n'"
  unfolding best_copy_def by (metis order_antisym_conv order_less_asym)

lemma set_collect_links_into:
  "is_dir farm \<Longrightarrow> (p, t) \<in> set (collect_links_into farm n) \<longleftrightarrow>
     (p, t) \<in> set (collect_node [] 0 farm) \<and> owned_snap_component t = Some n"
  by (cases farm) (auto simp: collect_links_into_def is_dir_def)

lemma plan_link_orphan:
  "(p, t) \<in> set (pl_links (plan_relinks orphans n st)) \<Longrightarrow> \<exists>u. (p, u) \<in> set orphans"
  unfolding plan_links_iff by (auto dest: wanted_of_link)

lemma plan_fits_collected:
  assumes "wf_node farm" "is_dir farm"
  shows "plan_fits (pl_links (plan_relinks (collect_links_into farm n) n st))"
  unfolding plan_fits_def
proof (intro ballI, clarify)
  fix p t q u
  let ?links = "pl_links (plan_relinks (collect_links_into farm n) n st)"
  assume a: "(p, t) \<in> set ?links" "(q, u) \<in> set ?links" "prefix p q"
  have one: "lookup_node p' farm = Some (Link x)" if "(p', x) \<in> set (collect_links_into farm n)" for p' x
    using that collect_lookup(1) [OF assms(1), of p' x "[]" 0] by (simp add: set_collect_links_into assms(2))
  from a(1) obtain x v rel sz m where 1: "(p, x) \<in> set (collect_links_into farm n)"
    "wanted_of n (p, x) = Some (p, v, rel)" "best_copy st (set (live_survivors st n)) rel sz m" "t = new_target v m rel"
    unfolding plan_links_iff by (metis prod.collapse wanted_of_link)
  from a(2) obtain y v' rel' sz' m' where 2: "(q, y) \<in> set (collect_links_into farm n)"
    "wanted_of n (q, y) = Some (q, v', rel')" "best_copy st (set (live_survivors st n)) rel' sz' m'" "u = new_target v' m' rel'"
    unfolding plan_links_iff by (metis prod.collapse wanted_of_link)
  from lookup_link_prefix [OF one [OF 1(1)] one [OF 2(1)] a(3)] have pq: "p = q" .
  with one [OF 1(1)] one [OF 2(1)] have "x = y" by simp
  with pq 1 2 have "v = v'" "rel = rel'" by simp_all
  with best_copy_unique 1(3) 2(3) have "m = m'" by blast
  with pq 1(4) 2(4) \<open>v = v'\<close> \<open>rel = rel'\<close> show "p = q \<and> t = u" by simp
qed

lemma dead_after_removal:
  "released_link_is_dead (remove_dir_all n st) True n = (\<lambda>t. owned_snap_component t = Some n)"
proof -
  have "List.find (\<lambda>e. sd_name e = n) (remove_dir_all n st) = None"
    by (auto simp: remove_dir_all_def find_None_iff)
  then show ?thesis
    by (intro ext) (simp add: released_link_is_dead_def store_stat_def snapshot_state_def)
qed

lemma release_files_calm:
  assumes "calm (ue_farm env)" "ue_root_ok env" "ue_rm_fail env n = None"
    and "is_dir (uw_farm w)"
    and "release_snapshot_files env n w = (w', done_ok)"
  shows "\<exists>farm1 k. prune_node (ue_farm env) (\<lambda>_ t. owned_snap_component t = Some n) False [] 0
      (uw_farm w) (uw_tick w) = (farm1, k, length (collect_links_into (uw_farm w) n), True) \<and>
    uw_farm w' = fst (apply_relinks (pl_links (plan_relinks (collect_links_into (uw_farm w) n) n (uw_store w))) farm1) \<and>
    uw_store w' = remove_dir_all n (uw_store w) \<and> done_ok"
proof -
  let ?dead = "\<lambda>(_ :: path) t. owned_snap_component t = Some n"
  let ?orphans = "collect_links_into (uw_farm w) n"
  obtain farm1 k r c where p: "prune_node (ue_farm env) ?dead False [] 0 (uw_farm w) (uw_tick w) = (farm1, k, r, c)"
    by (metis prod_cases4)
  have rc: c "r = length ?orphans"
    using prune_calm(1) [OF p assms(1,4)] assms(4)
    by (cases "uw_farm w"; auto simp: collect_links_into_def is_dir_def)+
  have none: "pl_links (plan_relinks [] n st) = []" for st by (simp add: plan_relinks_def map_filter_simps)
  have g: "fe_guard (ue_farm env) i" for i using assms(1) by (simp add: calm_def)
  from assms(2,3,5) p rc g
  have "uw_farm w' = fst (apply_relinks (pl_links (plan_relinks ?orphans n (uw_store w))) farm1)"
       "uw_store w' = remove_dir_all n (uw_store w)" done_ok
    by (auto simp: release_snapshot_files_def prune_links_into_def prune_farm_links_def Let_def
        dead_after_removal tick_def none split: if_splits)
  with p rc show ?thesis by simp
qed


text \<open>The whole release: what happens to each link the walk can see.\<close>

lemma release_links_calm:
  assumes "calm (ue_farm env)" "ue_root_ok env" "ue_rm_fail env n = None"
    and dir: "is_dir (uw_farm w)" and wf: "wf_node (uw_farm w)"
    and "release_snapshot_files env n w = (w', done_ok)"
    and link: "(p, t) \<in> set (collect_node [] 0 (uw_farm w))"
  shows "if owned_snap_component t \<noteq> Some n then lookup_node p (uw_farm w') = Some (Link t)
     else (case wanted_of n (p, t) of
             Some (_, v, rel) \<Rightarrow>
               (\<forall>sz m. best_copy (uw_store w) (set (live_survivors (uw_store w) n)) rel sz m \<longrightarrow>
                  lookup_node p (uw_farm w') = Some (Link (new_target v m rel))) \<and>
               ((\<nexists>sz m. best_copy (uw_store w) (set (live_survivors (uw_store w) n)) rel sz m) \<longrightarrow>
                  lookup_node p (uw_farm w') = None)
           | None \<Rightarrow> lookup_node p (uw_farm w') = None)"
proof -
  let ?dead = "\<lambda>(_ :: path) t. owned_snap_component t = Some n"
  let ?orphans = "collect_links_into (uw_farm w) n"
  let ?links = "pl_links (plan_relinks ?orphans n (uw_store w))"
  from release_files_calm [OF assms(1-4,6)] obtain farm1 k where
    p: "prune_node (ue_farm env) ?dead False [] 0 (uw_farm w) (uw_tick w) = (farm1, k, length ?orphans, True)"
    and w': "uw_farm w' = fst (apply_relinks ?links farm1)" by blast
  note look = collect_lookup(1) [OF wf, of _ _ "[]" 0, simplified]
  have wf1: "wf_node farm1" by (rule prune_wf(1) [OF p wf])
  have place: "placeable q farm1" if "(q, u) \<in> set ?orphans" for q u
    using prune_placeable(1) [OF p assms(1) wf dir, of q u] that by (auto simp: set_collect_links_into dir)
  have kept: "lookup_node q farm1 = Some (Link u)"
    if "(q, u) \<in> set (collect_node [] 0 (uw_farm w))" "owned_snap_component u \<noteq> Some n" for q u
  proof -
    have "(q, u) \<in> set (collect_node [] 0 farm1)"
      using prune_calm(1) [OF p assms(1) dir] that by auto
    then show ?thesis using collect_lookup(1) [OF wf1, of q u "[]" 0] by simp
  qed
  show ?thesis
  proof (cases "owned_snap_component t = Some n")
    case False
    with kept [OF link] show ?thesis by (simp add: w' apply_relinks_keeps)
  next
    case True
    with link have o: "(p, t) \<in> set ?orphans" by (simp add: set_collect_links_into dir)
    have made: "lookup_node p (uw_farm w') = Some (Link u)" if "(p, u) \<in> set ?links" for u
      unfolding w'
    proof (rule apply_relinks_made [OF plan_fits_collected [OF wf dir] _ that])
      show "placeable q farm1 \<or> lookup_node q farm1 = Some (Link x)" if "(q, x) \<in> set ?links" for q x
        using plan_link_orphan [OF that] place by blast
    qed
    have gone: "lookup_node p (uw_farm w') = None" if "\<nexists>u. (p, u) \<in> set ?links"
      unfolding w'
    proof (rule placeable_lookup, rule apply_relinks_other [OF place [OF o]])
      show "\<not> prefix q p \<and> \<not> prefix p q" if q: "(q, x) \<in> set ?links" for q x
      proof -
        from plan_link_orphan [OF q] obtain y where y: "(q, y) \<in> set (collect_node [] 0 (uw_farm w))"
          by (auto simp: set_collect_links_into dir)
        from q \<open>\<nexists>u. (p, u) \<in> set ?links\<close> have "q \<noteq> p" by blast
        with look [OF y] look [OF link] show ?thesis by (auto dest: lookup_link_prefix)
      qed
    qed
    have same: "u = t" if "(p, u) \<in> set ?orphans" for u
      using that look [OF link] look [of p u] by (simp add: set_collect_links_into dir)
    have iff: "(p, u) \<in> set ?links \<longleftrightarrow> (\<exists>v rel sz m. wanted_of n (p, t) = Some (p, v, rel) \<and>
        best_copy (uw_store w) (set (live_survivors (uw_store w) n)) rel sz m \<and> u = new_target v m rel)" for u
      unfolding plan_links_iff using o same by (metis prod.collapse wanted_of_link)
    show ?thesis
    proof (cases "wanted_of n (p, t)")
      case None
      with iff gone True show ?thesis by simp
    next
      case (Some x)
      obtain v rel where x: "x = (p, v, rel)" by (metis Some prod_cases3 wanted_of_link)
      from iff made gone True Some x show ?thesis by auto
    qed
  qed
qed

subsection \<open>The eviction loop on the snapshot store\<close>

lemma list_by_age_upd:
  "set (list_snapshots_by_age_in st) - {n} \<subseteq>
     set (list_snapshots_by_age_in (upd_entry n (\<lambda>e. (f e)\<lparr>sd_name := sd_name e\<rparr>) st))"
  by (force simp: list_snapshots_by_age_in_def map_filter_set upd_entry_def image_iff split: if_splits)

lemma list_by_age_remove:
  "set (list_snapshots_by_age_in st) - {n} \<subseteq> set (list_snapshots_by_age_in (remove_dir_all n st))"
  by (force simp: list_snapshots_by_age_in_def map_filter_set remove_dir_all_def image_iff split: if_splits)

lemma release_store:
  "release_snapshot_files env n w = (w', r) \<Longrightarrow>
     uw_store w' = remove_dir_all n (uw_store w) \<or>
     (\<exists>f. uw_store w' = upd_entry n (\<lambda>e. (f e)\<lparr>sd_name := sd_name e\<rparr>) (uw_store w))"
  by (auto simp: release_snapshot_files_def prune_links_into_def tick_def Let_def
      split: option.splits if_splits prod.splits)

lemma split_acc_single: "d \<notin> set s \<Longrightarrow> split_acc d acc s = [rev acc @ s]"
  by (induction d acc s rule: split_acc.induct) auto

lemma normalize_snap: "is_snap_name n \<Longrightarrow> normalize_snap_name n = Some n"
proof -
  assume s: "is_snap_name n"
  then obtain d where n: "n = lit ''snap-'' @ d" "list_all is_digit d"
    by (auto simp: is_snap_name_def strip_prefix_Some split: option.splits)
  then have c: "47 \<notin> set n" "46 \<notin> set n" by (auto simp: list_all_iff is_digit_def)
  have dots: "take 2 (drop i n) \<noteq> lit ''..''" for i
    using c(2) in_set_takeD [of 46 2 "drop i n"] in_set_dropD [of 46 i n] by auto
  have "n \<noteq> []" "n \<noteq> lit ''.''" "n \<noteq> lit ''..''" using n by auto
  with s c dots show ?thesis
    by (auto simp: normalize_snap_name_def split_on_def split_acc_single is_snap_name_def split: option.splits)
qed

lemma release_keeps_others:
  assumes "release_snapshot_locked env n w = (w', r)" and name: "is_snap_name n"
  shows "set (list_snapshots_by_age_in (uw_store w)) - {n} \<subseteq> set (list_snapshots_by_age_in (uw_store w'))"
proof (cases "w' = w")
  case False
  let ?mnt = "autofs_snapshots @ [slash] @ n"
  let ?w1 = "if ?mnt \<in> set (uw_mounted w) \<and> ue_umount_ok env ?mnt
    then w\<lparr>uw_mounted := removeAll ?mnt (uw_mounted w)\<rparr> else w"
  have "uw_store ?w1 = uw_store w" "release_snapshot_files env n ?w1 = (w', r)"
    using assms(1) normalize_snap [OF name] False
    by (auto simp: release_snapshot_locked_def Let_def split: if_splits)
  with release_store [of env n ?w1 w' r] list_by_age_upd list_by_age_remove show ?thesis by metis
qed auto

interpretation usb: eviction_host "usb_host env" is_snap_name for env
proof unfold_locales
  show "is_snap_name n" if "n \<in> set (h_snapshots_by_age (usb_host env) w)" for n w
    using that by (auto simp: usb_host_def list_snapshots_by_age_in_def map_filter_set split: if_splits)
qed (auto simp: usb_host_def dest: release_keeps_others)

lemma distinct_by_age:
  "distinct (map sd_name st) \<Longrightarrow> distinct (list_snapshots_by_age_in st)"
proof -
  let ?f = "\<lambda>e. if is_snap_name (sd_name e) \<and> sd_is_dir e
            then map_option (\<lambda>mtime. (mtime, sd_name e)) (sd_bin e) else None"
  assume d: "distinct (map sd_name st)"
  then have "distinct (map snd (List.map_filter ?f st))"
  proof (induction st)
    case (Cons a st)
    have "sd_name a \<notin> snd ` set (List.map_filter ?f st)"
      using Cons.prems by (auto simp: map_filter_set image_iff split: if_splits) metis
    with Cons show ?case by (auto simp: map_filter_simps split: option.splits)
  qed (simp add: map_filter_simps)
  then have "inj_on snd (set (List.map_filter ?f st)) \<and> distinct (List.map_filter ?f st)"
    by (simp add: distinct_map)
  then have "distinct (map snd (sort (List.map_filter ?f st)))" by (simp add: distinct_map)
  then show ?thesis by (simp add: list_snapshots_by_age_in_def)
qed

lemma highest_not_releasable:
  "max_slot xs None = Some (s, n) \<Longrightarrow> n \<notin> set (releasable xs)"
  by (auto simp: releasable_def)

subsection \<open>Properties\<close>

text \<open>
  C1. Eviction for space protects the footage that matters: whatever the host answers, the
  snapshots released are taken in age order from the releasable ones, the newest snapshot and
  the one with the highest slot are still listed afterwards, and success means that the free
  space then reaches the reserve.
\<close>

theorem evict_protects_newest:
  assumes "manage_free_space (usb_host env) r w = (w', rel, res)"
    and "distinct (map sd_name (uw_store w))"
  shows "subseq rel (releasable (list_snapshots_by_age_in (uw_store w))) \<and>
    (list_snapshots_by_age_in (uw_store w) \<noteq> [] \<longrightarrow>
       last (list_snapshots_by_age_in (uw_store w)) \<in> set (list_snapshots_by_age_in (uw_store w'))) \<and>
    (\<forall>s n. max_slot (list_snapshots_by_age_in (uw_store w)) None = Some (s, n) \<longrightarrow>
       n \<in> set (list_snapshots_by_age_in (uw_store w'))) \<and>
    (res = Inr () \<longrightarrow> (\<exists>t f u f'. get_space (ue_space env (uw_store w)) = Inr (t, f) \<and>
       get_space (ue_space env (uw_store w')) = Inr (u, f') \<and>
       (case r of None \<Rightarrow> default_reserve_bytes t | Some b \<Rightarrow> b) \<le> f'))"
proof -
  let ?l = "\<lambda>w. list_snapshots_by_age_in (uw_store w)"
  have hl: "h_snapshots_by_age (usb_host env) = ?l" by (simp add: usb_host_def)
  have hs: "h_space (usb_host env) = (\<lambda>w. ue_space env (uw_store w))" by (simp add: usb_host_def)
  have 1: "subseq rel (releasable (?l w))" using usb.manage_subseq [OF assms(1)] by (simp add: hl)
  have keep: "n \<in> set (?l w')" if "n \<in> set (?l w)" "n \<notin> set (releasable (?l w))" for n
    using usb.manage_keeps [OF assms(1)] that by (auto simp: hl)
  have 2: "last (?l w) \<in> set (?l w')" if "?l w \<noteq> []"
    using keep releasable_not_last [OF distinct_by_age [OF assms(2)]] that by (metis last_in_set)
  have 3: "n \<in> set (?l w')" if "max_slot (?l w) None = Some (s, n)" for s n
    using keep highest_not_releasable [OF that] max_slot_bounds [OF that] by auto
  have 4: "res = Inr () \<Longrightarrow> \<exists>t f u f'. get_space (ue_space env (uw_store w)) = Inr (t, f) \<and>
       get_space (ue_space env (uw_store w')) = Inr (u, f') \<and>
       (case r of None \<Rightarrow> default_reserve_bytes t | Some b \<Rightarrow> b) \<le> f'"
    using usb.manage_ok [of env r w w' rel] assms(1) by (simp add: hs)
  from 1 2 3 4 show ?thesis by blast
qed

text \<open>
  C2. Releasing a snapshot loses no clip another snapshot still holds: in a calm run over a farm
  whose directories list no name twice, every link the walk can see that belongs to another
  snapshot keeps its target; a link into the released snapshot points afterwards at the best
  surviving copy of its clip (the largest one, the highest slot among equals, out of the tables
  of contents that could be read to the end), and is gone when there is none.
\<close>

theorem release_repoints_links:
  assumes "calm (ue_farm env)" and "ue_root_ok env" and "ue_rm_fail env n = None"
    and "is_dir (uw_farm w)" and "wf_node (uw_farm w)"
    and "release_snapshot_files env n w = (w', done_ok)"
    and "(p, t) \<in> set (collect_node [] 0 (uw_farm w))"
  shows "done_ok \<and> uw_store w' = remove_dir_all n (uw_store w) \<and>
    (if owned_snap_component t \<noteq> Some n then lookup_node p (uw_farm w') = Some (Link t)
     else (case wanted_of n (p, t) of
             Some (_, v, rel) \<Rightarrow>
               (\<forall>sz m. best_copy (uw_store w) (set (live_survivors (uw_store w) n)) rel sz m \<longrightarrow>
                  lookup_node p (uw_farm w') = Some (Link (new_target v m rel))) \<and>
               ((\<nexists>sz m. best_copy (uw_store w) (set (live_survivors (uw_store w) n)) rel sz m) \<longrightarrow>
                  lookup_node p (uw_farm w') = None)
           | None \<Rightarrow> lookup_node p (uw_farm w') = None))"
  using release_links_calm [OF assms] release_files_calm [OF assms(1-4,6)] by blast

definition calm_env :: usb_env where
  "calm_env =
     \<lparr>ue_farm = \<lparr>fe_guard = \<lambda>_. True, fe_fresh = \<lambda>_ t. Some t, fe_unlink_ok = \<lambda>_. True,
        fe_rmdir_ok = \<lambda>_. True\<rparr>,
      ue_rm_fail = \<lambda>_. None, ue_umount_ok = \<lambda>_. True, ue_root_ok = True, ue_lock = \<lambda>_. True,
      ue_space = \<lambda>st. StatExit True (if length st < 2 then lit ''9 4096 5'' else lit ''9 4096 1''),
      ue_inodes = \<lambda>_. StatSpawnError, ue_mounts = None\<rparr>"

definition two_snaps :: usb_world where
  "two_snaps =
     \<lparr>uw_store =
        [\<lparr>sd_name = lit ''snap-000001'', sd_is_dir = True, sd_bin = Some 1,
          sd_toc = Some (Toc [lit ''7 SavedClips/a.mp4''] True), sd_pending = None, sd_verify = False,
          sd_gave_up = False\<rparr>,
         \<lparr>sd_name = lit ''snap-000002'', sd_is_dir = True, sd_bin = Some 2,
          sd_toc = Some (Toc [lit ''9 SavedClips/a.mp4''] True), sd_pending = None, sd_verify = False,
          sd_gave_up = False\<rparr>],
      uw_farm = Dir True (ECons (lit ''SavedClips'') (Dir True (ECons (lit ''a.mp4'')
        (Link (lit ''/backingfiles/snapshots/snap-000001/mnt/SavedClips/a.mp4'')) ENil)) ENil),
      uw_latch = None, uw_mounted = [], uw_tick = 0\<rparr>"

theorem release_repoints_links_witness:
  "lookup_node [lit ''SavedClips'', lit ''a.mp4'']
     (uw_farm (fst (release_snapshot_files calm_env (lit ''snap-000001'') two_snaps))) =
   Some (Link (lit ''/backingfiles/snapshots/snap-000002/mnt/SavedClips/a.mp4''))"
proof -
  let ?n = "lit ''snap-000001''" and ?p = "[lit ''SavedClips'', lit ''a.mp4'']"
    and ?t = "lit ''/backingfiles/snapshots/snap-000001/mnt/SavedClips/a.mp4''"
  obtain w' b where r: "release_snapshot_files calm_env ?n two_snaps = (w', b)"
    by (cases "release_snapshot_files calm_env ?n two_snaps")
  have env: "calm (ue_farm calm_env)" "ue_root_ok calm_env" "ue_rm_fail calm_env ?n = None"
    by (simp_all add: calm_env_def calm_def)
  have farm: "is_dir (uw_farm two_snaps)" "wf_node (uw_farm two_snaps)"
    by (simp_all add: two_snaps_def is_dir_def)
  have link: "(?p, ?t) \<in> set (collect_node [] 0 (uw_farm two_snaps))"
    by (simp add: two_snaps_def)
  have own: "owned_snap_component ?t = Some ?n" by code_simp
  have want: "wanted_of ?n (?p, ?t) = Some (?p, True, lit ''SavedClips/a.mp4'')" by code_simp
  have live: "live_survivors (uw_store two_snaps) ?n = [lit ''snap-000002'']" by code_simp
  have toc: "store_toc (uw_store two_snaps) (lit ''snap-000002'') = Toc [lit ''9 SavedClips/a.mp4''] True"
    by (simp add: store_toc_def two_snaps_def)
  have row: "List.map_filter toc_row [lit ''9 SavedClips/a.mp4''] = [(lit ''SavedClips/a.mp4'', 9)]"
    by (simp add: map_filter_simps toc_row_def parse_unsigned_def parse_digits_def is_digit_def u64_max_def)
  have best: "best_copy (uw_store two_snaps) (set (live_survivors (uw_store two_snaps) ?n))
      (lit ''SavedClips/a.mp4'') 9 (lit ''snap-000002'')"
    unfolding live list.set by (rule best_copy_single [OF toc row])
  from release_repoints_links [OF env farm r link] own want best
  have "lookup_node ?p (uw_farm w') = Some (Link (new_target True (lit ''snap-000002'') (lit ''SavedClips/a.mp4'')))"
    by simp
  moreover have "new_target True (lit ''snap-000002'') (lit ''SavedClips/a.mp4'') =
      lit ''/backingfiles/snapshots/snap-000002/mnt/SavedClips/a.mp4''" by code_simp
  ultimately show ?thesis using r by simp
qed


theorem evict_protects_newest_witness:
  "distinct (map sd_name (uw_store two_snaps)) \<and>
   last (list_snapshots_by_age_in (uw_store two_snaps)) \<in>
     set (list_snapshots_by_age_in (uw_store
       (fst (manage_free_space (usb_host calm_env) (Some 20000) two_snaps))))"
proof -
  obtain w' rel res where r: "manage_free_space (usb_host calm_env) (Some 20000) two_snaps = (w', rel, res)"
    by (metis prod_cases3)
  have d: "distinct (map sd_name (uw_store two_snaps))" by (simp add: two_snaps_def)
  have "list_snapshots_by_age_in (uw_store two_snaps) = [lit ''snap-000001'', lit ''snap-000002'']"
    by code_simp
  then have "list_snapshots_by_age_in (uw_store two_snaps) \<noteq> []" by (metis list.distinct(1))
  with evict_protects_newest [OF r d] d r show ?thesis by simp
qed



text \<open>
  C36. In a calm run a prune is exact: it is not aborted, it removes the dead links the depth-capped
  walk can see and no others, and the count a dry run announces is the count a real run removes.
\<close>

theorem prune_exact:
  assumes "calm env" and "is_dir farm"
    and "prune_farm_links env dead dry farm k = (farm', k', removed, aborted)"
  shows "\<not> aborted \<and> removed = length (filter (\<lambda>(p, t). dead p t) (collect_node [] 0 farm)) \<and>
    (\<not> dry \<longrightarrow> collect_node [] 0 farm' = filter (\<lambda>(p, t). \<not> dead p t) (collect_node [] 0 farm))"
proof -
  from assms(3) have p: "prune_node env dead dry [] 0 farm k = (farm', k', removed, \<not> aborted)"
    by (auto simp: prune_farm_links_def Let_def split: prod.splits)
  show ?thesis using prune_calm(1) [OF p assms(1,2)] by simp
qed

theorem prune_exact_witness:
  "fst (snd (snd (prune_farm_links (ue_farm calm_env) (\<lambda>_ _. True) False (uw_farm two_snaps) 0))) = 1"
proof -
  obtain f k r a where r: "prune_farm_links (ue_farm calm_env) (\<lambda>_ _. True) False (uw_farm two_snaps) 0 = (f, k, r, a)"
    by (metis prod_cases4)
  have e: "calm (ue_farm calm_env)" "is_dir (uw_farm two_snaps)"
    by (simp_all add: calm_env_def calm_def two_snaps_def is_dir_def)
  from prune_exact [OF e r] have "r = 1" by (simp add: two_snaps_def)
  with r show ?thesis by simp
qed

text \<open>
  The sweep of dangling links never removes a link into a snapshot whose directory is present,
  nor one it did not mint (a target of another shape), and never a file; without a visible
  snapshot, or with the snapshots directory unreadable, it removes no link at all.
\<close>

theorem sweep_spares_present:
  assumes "sweep_dangling_links_in env dry w = (w', res)"
    and "(p, x) \<in> set (leaf_node [] (uw_farm w))"
    and "x = None \<or> owned_snap_component (the x) = None \<or>
      (\<exists>n. owned_snap_component (the x) = Some n \<and>
         (store_stat (uw_store w) n = StatDir \<or> \<not> ue_root_ok env \<and> store_stat (uw_store w) n = StatNotFound)) \<or>
      uw_store w = []"
  shows "(p, x) \<in> set (leaf_node [] (uw_farm w')) \<and> uw_store w' = uw_store w"
proof (cases "list_ex (\<lambda>e. strip_prefix (lit ''snap-'') (sd_name e) \<noteq> None \<and> sd_is_dir e) (uw_store w)")
  case False
  with assms(1,2) show ?thesis by (simp add: sweep_dangling_links_in_def)
next
  case True
  let ?dead = "\<lambda>(_ :: path) t. case owned_snap_component t of None \<Rightarrow> False
      | Some n \<Rightarrow> snapshot_state (store_stat (uw_store w) n) (ue_root_ok env) = Gone"
  obtain f k r a where p: "prune_farm_links (ue_farm env) ?dead dry (uw_farm w) (uw_tick w) = (f, k, r, a)"
    by (metis prod_cases4)
  then have q: "prune_node (ue_farm env) ?dead dry [] 0 (uw_farm w) (uw_tick w) = (f, k, r, \<not> a)"
    by (auto simp: prune_farm_links_def Let_def split: prod.splits)
  from True p assms(1) have w': "uw_farm w' = f" "uw_store w' = uw_store w"
    by (auto simp: sweep_dangling_links_in_def Let_def split: if_splits)
  have "spared ?dead (p, x)"
    using assms(3) True by (cases x) (auto simp: spared_def snapshot_state_def split: option.splits)
  with prune_keeps_spared(1) [OF q] assms(2) w' show ?thesis by auto
qed

theorem sweep_spares_present_witness:
  "set (leaf_node [] (uw_farm two_snaps)) \<subseteq>
     set (leaf_node [] (uw_farm (fst (sweep_dangling_links_in calm_env False two_snaps))))"
proof -
  let ?t = "lit ''/backingfiles/snapshots/snap-000001/mnt/SavedClips/a.mp4''"
    and ?p = "[lit ''SavedClips'', lit ''a.mp4'']"
  obtain w' res where r: "sweep_dangling_links_in calm_env False two_snaps = (w', res)"
    by (cases "sweep_dangling_links_in calm_env False two_snaps")
  have l: "leaf_node [] (uw_farm two_snaps) = [(?p, Some ?t)]" by (simp add: two_snaps_def)
  have "owned_snap_component ?t = Some (lit ''snap-000001'')" by code_simp
  moreover have "store_stat (uw_store two_snaps) (lit ''snap-000001'') = StatDir"
    by (simp add: store_stat_def two_snaps_def)
  ultimately have "(?p, Some ?t) \<in> set (leaf_node [] (uw_farm w'))"
    using sweep_spares_present [OF r, of ?p "Some ?t"] unfolding l by (metis list.set_intros(1) option.sel)
  with r l show ?thesis by simp
qed

end
