(* ===== verification/StatusLed.thy ===== *)
theory StatusLed
  imports Prelude "HOL-Library.List_Lexorder"
begin

section \<open>The status LED\<close>

text \<open>
  \<^verbatim>\<open>crates/status_led/src/model.rs\<close> (the state machine that turns observations into a displayed
  state, and the blink patterns) and the register-level part of
  \<^verbatim>\<open>crates/status_led/src/driver.rs\<close> (capturing, driving and restoring the LEDs). Durations are
  natural numbers of nanoseconds; the LED class directory is a map from LED name and attribute to
  the text of the attribute file.
\<close>

datatype app_phase = AppStarting | AppReady | AppFault | AppStopping
datatype archive_phase = ArchiveMissing | ArchiveStarting | ArchiveWorking | ArchiveReady | ArchiveFault
datatype link = Unbound | LinkWaiting | Configured | LinkUnknown
datatype led_state = Starting | Preparing | Waiting | Connected | Writing | Attention

record led_frame =
  green :: bool
  red :: bool

record camera_stamp =
  device :: nat
  inode :: nat
  stamp_size :: nat
  modified_ns :: int

record observation =
  o_archive :: archive_phase
  storage_ready :: bool
  o_link :: link
  session :: "ustr option"
  camera :: "camera_stamp option"
  maintenance :: bool

record led_model =
  previous :: "(ustr \<times> camera_stamp) option"
  writing_until :: "nat option"
  missing_since :: "nat option"
  unbound_since :: "nat option"
  worker_seen :: bool

definition default_model :: led_model where
  "default_model = \<lparr>previous = None, writing_until = None, missing_since = None,
     unbound_since = None, worker_seen = False\<rparr>"

definition secs :: "nat \<Rightarrow> nat" where "secs n = n * 1000000000"

text \<open>The two resets at the head of \<open>observe\<close>.\<close>

definition observe_reset :: "observation \<Rightarrow> led_model \<Rightarrow> led_model" where
  "observe_reset ob m =
     (let m1 = (if o_archive ob \<noteq> ArchiveMissing then m\<lparr>missing_since := None, worker_seen := True\<rparr> else m)
      in if o_link ob \<noteq> Unbound \<or> o_archive ob \<noteq> ArchiveReady \<or> maintenance ob
         then m1\<lparr>unbound_since := None\<rparr> else m1)"

definition get_or_insert :: "nat \<Rightarrow> nat option \<Rightarrow> nat" where
  "get_or_insert now x = (case x of None \<Rightarrow> now | Some t \<Rightarrow> t)"

definition observe_link :: "observation \<Rightarrow> nat \<Rightarrow> led_model \<Rightarrow> led_model \<times> led_state" where
  "observe_link ob now m =
     (case o_link ob of
        Configured \<Rightarrow> (m, Connected)
      | LinkWaiting \<Rightarrow> (m, Waiting)
      | LinkUnknown \<Rightarrow> (m, Attention)
      | Unbound \<Rightarrow>
          if o_archive ob = ArchiveWorking then (m, Preparing)
          else let since = get_or_insert now (unbound_since m)
               in (m\<lparr>unbound_since := Some since\<rparr>,
                   if now - since \<ge> secs 15 then Attention else Preparing))"

definition observe_phase :: "app_phase \<Rightarrow> observation \<Rightarrow> nat \<Rightarrow> led_model \<Rightarrow> led_model \<times> led_state" where
  "observe_phase app ob now m =
     (case app of
        AppStarting \<Rightarrow> (m, Starting)
      | AppStopping \<Rightarrow> (m, Starting)
      | AppFault \<Rightarrow> (m, Attention)
      | AppReady \<Rightarrow>
          if maintenance ob \<and> o_link ob \<noteq> Configured then (m, Preparing)
          else if o_archive ob = ArchiveFault then (m, Attention)
          else if o_archive ob = ArchiveMissing
          then (let since = get_or_insert now (missing_since m)
                in (m\<lparr>missing_since := Some since\<rparr>,
                    if worker_seen m \<or> now - since \<ge> secs 60 then Attention else Preparing))
          else if \<not> storage_ready ob then (m, Attention)
          else if o_archive ob = ArchiveStarting then (m, Preparing)
          else observe_link ob now m)"

text \<open>The camera image was touched since the last look, in the same session.\<close>

definition same_file :: "ustr \<times> camera_stamp \<Rightarrow> ustr \<Rightarrow> camera_stamp \<Rightarrow> bool" where
  "same_file prev s stamp \<longleftrightarrow>
     fst prev = s \<and> device (snd prev) = device stamp \<and> inode (snd prev) = inode stamp \<and>
     stamp_size (snd prev) = stamp_size stamp \<and> modified_ns stamp \<ge> modified_ns (snd prev)"

definition observe_camera :: "observation \<Rightarrow> nat \<Rightarrow> led_model \<Rightarrow> led_model" where
  "observe_camera ob now m =
     (case (session ob, camera ob) of
        (Some s, Some stamp) \<Rightarrow>
          let until = (case previous m of
                         Some prev \<Rightarrow>
                           if same_file prev s stamp
                           then (if modified_ns stamp > modified_ns (snd prev) then Some (now + secs 3)
                                 else writing_until m)
                           else None
                       | None \<Rightarrow> None)
          in m\<lparr>writing_until := until, previous := Some (s, stamp)\<rparr>
      | _ \<Rightarrow> m\<lparr>previous := None, writing_until := None\<rparr>)"

definition observe :: "app_phase \<Rightarrow> observation \<Rightarrow> nat \<Rightarrow> led_model \<Rightarrow> led_model \<times> led_state" where
  "observe app ob now m =
     (case observe_phase app ob now (observe_reset ob m) of
        (m1, st) \<Rightarrow>
          if st \<noteq> Connected then (m1\<lparr>previous := None, writing_until := None\<rparr>, st)
          else let m2 = observe_camera ob now m1
               in (m2, (case writing_until m2 of
                          Some until \<Rightarrow> if now < until then Writing else st
                        | None \<Rightarrow> st)))"

definition frame_of :: "led_state \<Rightarrow> nat \<Rightarrow> led_frame" where
  "frame_of st elapsed =
     (let ms = elapsed div 1000000;
          on = (case st of
                  Starting \<Rightarrow> ms mod 2000 < 1000
                | Preparing \<Rightarrow> ms mod 500 < 250
                | Waiting \<Rightarrow> ms mod 3000 < 100
                | Connected \<Rightarrow> (let p = ms mod 3000 in p < 100 \<or> 250 \<le> p \<and> p < 350)
                | Writing \<Rightarrow> ms mod 500 < 400
                | Attention \<Rightarrow> ms mod 3000 < 2800)
      in \<lparr>green = (on \<and> st \<noteq> Attention),
          red = (on \<and> (st = Starting \<or> st = Preparing \<or> st = Attention))\<rparr>)"

subsection \<open>The LED files\<close>

type_synonym leds = "ustr \<times> ustr \<rightharpoonup> ustr"

record saved_led =
  sl_name :: ustr
  sl_trigger :: ustr
  sl_brightness :: nat
  sl_maximum :: nat
  sl_attributes :: "(ustr \<times> ustr) list"

datatype led_error = ReadError | NoActiveTrigger | BadNumber | InvalidRange | InvalidName | InvalidAttribute
  | WriteError

definition read_attr :: "leds \<Rightarrow> ustr \<Rightarrow> ustr \<Rightarrow> led_error + ustr" where
  "read_attr fs led attr = ok_or ReadError (fs (led, attr))"

definition bracketed :: "ustr \<Rightarrow> ustr option" where
  "bracketed s = Option.bind (strip_prefix (lit ''['') s) (strip_suffix (lit '']''))"

definition active_trigger :: "ustr \<Rightarrow> ustr option" where
  "active_trigger text =
     (case List.map_filter bracketed (split_whitespace text) of
        t # _ \<Rightarrow> Some t
      | [] \<Rightarrow> if length (split_whitespace text) = 1 then Some (trim text) else None)"

definition trigger_attrs :: "ustr \<Rightarrow> ustr list" where
  "trigger_attrs trigger =
     (if trigger = lit ''timer'' then [lit ''delay_on'', lit ''delay_off'']
      else if trigger = lit ''heartbeat'' then [lit ''invert''] else [])"

fun read_attrs :: "leds \<Rightarrow> ustr \<Rightarrow> ustr list \<Rightarrow> led_error + (ustr \<times> ustr) list" where
  "read_attrs fs led [] = Inr []"
| "read_attrs fs led (a # as) =
     bindR (read_attr fs led a) (\<lambda>v. bindR (read_attrs fs led as) (\<lambda>r. Inr ((a, v) # r)))"

definition capture :: "leds \<Rightarrow> ustr \<Rightarrow> led_error + saved_led" where
  "capture fs led =
     bindR (read_attr fs led (lit ''trigger'')) (\<lambda>text.
     bindR (ok_or NoActiveTrigger (active_trigger text)) (\<lambda>trigger.
     bindR (read_attr fs led (lit ''brightness'')) (\<lambda>b.
     bindR (ok_or BadNumber (parse_unsigned (2 ^ 32 - 1) (trim b))) (\<lambda>brightness.
     bindR (read_attr fs led (lit ''max_brightness'')) (\<lambda>mx.
     bindR (ok_or BadNumber (parse_unsigned (2 ^ 32 - 1) (trim mx))) (\<lambda>maximum.
       if maximum = 0 \<or> brightness > maximum then Inl InvalidRange
       else bindR (read_attrs fs led (trigger_attrs trigger)) (\<lambda>attrs.
              Inr \<lparr>sl_name = led, sl_trigger = trigger, sl_brightness = brightness,
                   sl_maximum = maximum, sl_attributes = sort_key fst attrs\<rparr>)))))))"

text \<open>A write of an attribute file, which the host can refuse.\<close>

type_synonym write_ok = "ustr \<times> ustr \<Rightarrow> bool"

definition write_attr :: "write_ok \<Rightarrow> ustr \<Rightarrow> ustr \<Rightarrow> ustr \<Rightarrow> leds \<Rightarrow> leds \<times> (led_error + unit)" where
  "write_attr wok led attr v fs =
     (if wok (led, attr) then (fs((led, attr) \<mapsto> v), Inr ()) else (fs, Inl WriteError))"

definition led_names :: "ustr list" where
  "led_names = [lit ''ACT'', lit ''led0'', lit ''status'', lit ''user-led2'', lit ''radxa-zero:green'', lit ''PWR'']"

definition led_attrs :: "ustr list" where
  "led_attrs = [lit ''delay_on'', lit ''delay_off'', lit ''invert'']"

fun write_attrs :: "write_ok \<Rightarrow> ustr \<Rightarrow> (ustr \<times> ustr) list \<Rightarrow> leds \<Rightarrow> leds \<times> (led_error + unit)" where
  "write_attrs wok led [] fs = (fs, Inr ())"
| "write_attrs wok led ((a, v) # as) fs =
     (if a \<notin> set led_attrs then (fs, Inl InvalidAttribute)
      else case write_attr wok led a v fs of
             (fs1, Inl e) \<Rightarrow> (fs1, Inl e)
           | (fs1, Inr _) \<Rightarrow> write_attrs wok led as fs1)"

definition restore_one :: "write_ok \<Rightarrow> saved_led \<Rightarrow> leds \<Rightarrow> leds \<times> (led_error + unit)" where
  "restore_one wok s fs =
     (if sl_name s \<notin> set led_names then (fs, Inl InvalidName)
      else case write_attr wok (sl_name s) (lit ''trigger'') (lit ''none'') fs of
        (fs1, Inl e) \<Rightarrow> (fs1, Inl e)
      | (fs1, Inr _) \<Rightarrow>
          (case write_attr wok (sl_name s) (lit ''brightness'') (show_nat (sl_brightness s)) fs1 of
             (fs2, Inl e) \<Rightarrow> (fs2, Inl e)
           | (fs2, Inr _) \<Rightarrow>
               (case write_attr wok (sl_name s) (lit ''trigger'') (sl_trigger s) fs2 of
                  (fs3, Inl e) \<Rightarrow> (fs3, Inl e)
                | (fs3, Inr _) \<Rightarrow> write_attrs wok (sl_name s) (sl_attributes s) fs3)))"

text \<open>Every LED is tried; the last error is reported.\<close>

fun restore_saved :: "write_ok \<Rightarrow> saved_led list \<Rightarrow> leds \<Rightarrow> leds \<times> led_error option" where
  "restore_saved wok [] fs = (fs, None)"
| "restore_saved wok (s # ss) fs =
     (let (fs1, r) = restore_one wok s fs;
          (fs2, err) = restore_saved wok ss fs1
      in (fs2, case err of Some e \<Rightarrow> Some e
               | None \<Rightarrow> (case r of Inl e \<Rightarrow> Some e | Inr _ \<Rightarrow> None)))"

record driver =
  dr_saved :: "saved_led list"
  dr_last :: "led_frame option"
  invert_activity :: bool

fun set_leds :: "write_ok \<Rightarrow> bool \<Rightarrow> bool \<Rightarrow> led_frame \<Rightarrow> nat \<Rightarrow> saved_led list \<Rightarrow> leds \<Rightarrow> leds \<times> bool" where
  "set_leds wok colour inverted f i [] fs = (fs, True)"
| "set_leds wok colour inverted f i (s # ss) fs =
     (let on = (if i = 1 then red f else if colour then green f else green f \<or> red f);
          v = (if on \<noteq> (i = 0 \<and> inverted) then show_nat (sl_maximum s) else lit ''0'')
      in case write_attr wok (sl_name s) (lit ''brightness'') v fs of
           (fs1, Inl _) \<Rightarrow> (fs1, False)
         | (fs1, Inr _) \<Rightarrow> set_leds wok colour inverted f (i + 1) ss fs1)"

definition driver_set :: "write_ok \<Rightarrow> led_frame \<Rightarrow> driver \<times> leds \<Rightarrow> (driver \<times> leds) \<times> bool" where
  "driver_set wok f s =
     (case s of (d, fs) \<Rightarrow>
        if dr_last d = Some f then ((d, fs), True)
        else case set_leds wok (length (dr_saved d) = 2) (invert_activity d) f 0 (dr_saved d) fs of
               (fs1, True) \<Rightarrow> ((d\<lparr>dr_last := Some f\<rparr>, fs1), True)
             | (fs1, False) \<Rightarrow> ((d, fs1), False))"


text \<open>The claim of the captured LEDs: their triggers are switched off.\<close>

definition take_over :: "saved_led list \<Rightarrow> leds \<Rightarrow> leds" where
  "take_over ss fs = fold (\<lambda>s fs. fs((sl_name s, lit ''trigger'') \<mapsto> lit ''none'')) ss fs"

section \<open>Lemmas\<close>

subsection \<open>The state machine\<close>

text \<open>
  The machine with its clock: an event is an observation made some time after the last one. The
  invariant bounds the deadline and the two since-marks by the clock.
\<close>

definition led_step :: "led_model \<times> nat \<Rightarrow> app_phase \<times> observation \<times> nat \<Rightarrow> led_model \<times> nat" where
  "led_step s e = (case (s, e) of ((m, t), (app, ob, dt)) \<Rightarrow> (fst (observe app ob (t + dt) m), t + dt))"

definition led_inv :: "led_model \<times> nat \<Rightarrow> bool" where
  "led_inv s = (case s of (m, t) \<Rightarrow>
     (\<forall>u. writing_until m = Some u \<longrightarrow> u \<le> t + secs 3 \<and> previous m \<noteq> None) \<and>
     (\<forall>u. missing_since m = Some u \<longrightarrow> u \<le> t) \<and>
     (\<forall>u. unbound_since m = Some u \<longrightarrow> u \<le> t))"

lemma observe_reset_fields [simp]:
  "previous (observe_reset ob m) = previous m"
  "writing_until (observe_reset ob m) = writing_until m"
  by (simp_all add: observe_reset_def Let_def)

lemma observe_phase_fields:
  "observe_phase app ob now m = (m1, st) \<Longrightarrow> previous m1 = previous m \<and> writing_until m1 = writing_until m"
  by (auto simp: observe_phase_def observe_link_def Let_def
      split: app_phase.splits link.splits if_splits)

lemma observe_phase_since:
  "observe_phase app ob now m = (m1, st) \<Longrightarrow>
     (missing_since m1 = missing_since m \<or> missing_since m = None \<and> missing_since m1 = Some now) \<and>
     (unbound_since m1 = unbound_since m \<or> unbound_since m = None \<and> unbound_since m1 = Some now)"
  by (auto simp: observe_phase_def observe_link_def get_or_insert_def Let_def
      split: app_phase.splits link.splits if_splits option.splits)

lemma observe_reset_since:
  "(missing_since (observe_reset ob m) = None \<or> missing_since (observe_reset ob m) = missing_since m) \<and>
   (unbound_since (observe_reset ob m) = None \<or> unbound_since (observe_reset ob m) = unbound_since m)"
  by (simp add: observe_reset_def Let_def)

lemma observe_camera_until:
  assumes "\<And>u. writing_until m = Some u \<Longrightarrow> u \<le> now + secs 3"
    and "writing_until (observe_camera ob now m) = Some u"
  shows "u \<le> now + secs 3 \<and> previous (observe_camera ob now m) \<noteq> None"
  using assms by (auto simp: observe_camera_def Let_def split: option.splits if_splits)

lemma observe_camera_since [simp]:
  "missing_since (observe_camera ob now m) = missing_since m"
  "unbound_since (observe_camera ob now m) = unbound_since m"
  by (auto simp: observe_camera_def Let_def split: option.splits)

lemma led_step_inv: "led_inv s \<Longrightarrow> led_inv (led_step s e)"
proof -
  assume i: "led_inv s"
  obtain m t app ob dt where se: "s = (m, t)" "e = (app, ob, dt)" by (metis prod_cases3 surj_pair)
  obtain m1 st where p: "observe_phase app ob (t + dt) (observe_reset ob m) = (m1, st)" by fastforce
  have since: "u \<le> t + dt" if "missing_since m1 = Some u \<or> unbound_since m1 = Some u" for u
  proof -
    from observe_phase_since [OF p] that observe_reset_since [of ob m]
    have "missing_since m = Some u \<or> unbound_since m = Some u \<or> u = t + dt" by auto
    with i show ?thesis by (auto simp: se led_inv_def)
  qed
  have w: "u \<le> t + dt + secs 3" if "writing_until m1 = Some u" for u
    using observe_phase_fields [OF p] that i by (force simp: se led_inv_def)
  show ?thesis
  proof (cases "st = Connected")
    case False
    with since show ?thesis by (auto simp: se led_step_def observe_def p led_inv_def)
  next
    case True
    with since observe_camera_until [OF w] show ?thesis
      by (auto simp: se led_step_def observe_def p led_inv_def Let_def)
  qed
qed

interpretation led: invariant_machine led_step led_inv
  by unfold_locales (rule led_step_inv)

lemma led_inv_default: "led_inv (default_model, 0)"
  by (simp add: led_inv_def default_model_def)

lemma observe_phase_Connected:
  "observe_phase app ob now m = (m1, Connected) \<Longrightarrow> app = AppReady \<and> o_link ob = Configured \<and>
     storage_ready ob \<and> (o_archive ob = ArchiveWorking \<or> o_archive ob = ArchiveReady)"
  by (cases app; cases "o_archive ob"; cases "o_link ob")
    (auto simp: observe_phase_def observe_link_def Let_def split: if_splits)

lemma observe_Writing:
  assumes "observe app ob now m = (m', Writing)"
  shows "app = AppReady \<and> o_link ob = Configured \<and> storage_ready ob \<and>
    (o_archive ob = ArchiveWorking \<or> o_archive ob = ArchiveReady) \<and>
    (\<exists>s stamp prev. session ob = Some s \<and> camera ob = Some stamp \<and> previous m = Some prev \<and>
      same_file prev s stamp \<and>
      (modified_ns (snd prev) < modified_ns stamp \<or> (\<exists>u. writing_until m = Some u \<and> now < u)))"
proof -
  obtain m1 st where p: "observe_phase app ob now (observe_reset ob m) = (m1, st)" by fastforce
  note f = observe_phase_fields [OF p]
  have c: "st = Connected"
  proof (rule ccontr)
    assume "st \<noteq> Connected"
    with assms p have "st = Writing" by (simp add: observe_def)
    with p show False
      by (auto simp: observe_phase_def observe_link_def Let_def
          split: app_phase.splits link.splits if_splits)
  qed
  from assms p c obtain u where u: "writing_until (observe_camera ob now m1) = Some u" "now < u"
    by (auto simp: observe_def Let_def split: option.splits if_splits)
  from u obtain s stamp prev where k: "session ob = Some s" "camera ob = Some stamp" "previous m1 = Some prev"
    "same_file prev s stamp" "modified_ns (snd prev) < modified_ns stamp \<or> writing_until m1 = Some u"
    by (auto simp: observe_camera_def Let_def split: option.splits if_splits)
  have "previous m = Some prev" "modified_ns (snd prev) < modified_ns stamp \<or> writing_until m = Some u"
    using f k(3,5) by simp_all
  with k(1,2,4) u(2) observe_phase_Connected [OF p [unfolded c]] show ?thesis by blast
qed

subsection \<open>Properties\<close>

text \<open>
  The writing display is sound: it is shown only while the application is ready, the car's USB
  link is configured, the storage is ready and the archive worker is running, for a camera image
  seen before in the same session, and only if that image was modified since the last look or at
  most three seconds before this one.
\<close>

theorem led_writing_sound:
  assumes "foldl led_step (default_model, 0) es = (m, t)"
    and "observe app ob (t + dt) m = (m', Writing)"
  shows "app = AppReady \<and> o_link ob = Configured \<and> storage_ready ob \<and>
    (o_archive ob = ArchiveWorking \<or> o_archive ob = ArchiveReady) \<and>
    (\<exists>s stamp prev. session ob = Some s \<and> camera ob = Some stamp \<and> previous m = Some prev \<and>
      same_file prev s stamp \<and>
      (modified_ns (snd prev) < modified_ns stamp \<or>
       (\<exists>u. writing_until m = Some u \<and> t + dt < u \<and> u \<le> t + secs 3)))"
proof -
  from led.run_inv [OF led_inv_default, of es] assms(1) have i: "led_inv (m, t)" by simp
  from observe_Writing [OF assms(2)] i show ?thesis by (fastforce simp: led_inv_def)
qed

definition led_ob :: "int \<Rightarrow> observation" where
  "led_ob ns = \<lparr>o_archive = ArchiveReady, storage_ready = True, o_link = Configured,
     session = Some (lit ''udc''),
     camera = Some \<lparr>device = 1, inode = 2, stamp_size = 3, modified_ns = ns\<rparr>, maintenance = False\<rparr>"

lemmas led_defs = observe_def observe_phase_def observe_link_def observe_reset_def observe_camera_def
  same_file_def get_or_insert_def secs_def default_model_def

theorem led_writing_sound_witness:
  "snd (observe AppReady (led_ob 8) 5 (fst (foldl led_step (default_model, 0) [(AppReady, led_ob 7, 1)]))) = Writing \<and>
   (\<exists>s stamp prev. session (led_ob 8) = Some s \<and> camera (led_ob 8) = Some stamp \<and>
      same_file prev s stamp)"
proof -
  obtain m t where f: "foldl led_step (default_model, 0) [(AppReady, led_ob 7, 1)] = (m, t)" by fastforce
  then have t: "t = 1" by (auto simp: led_step_def)
  obtain m' st where w: "observe AppReady (led_ob 8) (t + 4) m = (m', st)" by fastforce
  have "snd (observe AppReady (led_ob 8) (1 + 4) (fst (foldl led_step (default_model, 0) [(AppReady, led_ob 7, 1)]))) = Writing"
    by (simp add: led_step_def led_defs led_ob_def Let_def)
  with f t w have st: "st = Writing" by simp
  from led_writing_sound [OF f w [unfolded st]] f t w st show ?thesis by auto
qed

subsection \<open>The start-up grace\<close>

definition missing_event :: "app_phase \<times> observation \<times> nat \<Rightarrow> bool" where
  "missing_event e = (case e of (app, ob, dt) \<Rightarrow>
     app = AppReady \<and> o_archive ob = ArchiveMissing \<and> \<not> (maintenance ob \<and> o_link ob \<noteq> Configured))"

lemma observe_missing:
  assumes "missing_event (app, ob, dt)"
  shows "snd (observe app ob now m) =
      (if worker_seen m \<or> now - get_or_insert now (missing_since m) \<ge> secs 60 then Attention else Preparing) \<and>
    worker_seen (fst (observe app ob now m)) = worker_seen m \<and>
    missing_since (fst (observe app ob now m)) = Some (get_or_insert now (missing_since m))"
  using assms
  by (auto simp: missing_event_def observe_def observe_phase_def observe_reset_def Let_def
      split: if_splits)

lemma missing_run:
  "list_all missing_event es \<Longrightarrow> \<not> worker_seen m \<Longrightarrow> missing_since m = Some u \<Longrightarrow>
   foldl led_step (m, t) es = (m', t') \<Longrightarrow> \<not> worker_seen m' \<and> missing_since m' = Some u"
proof (induction es arbitrary: m t)
  case (Cons e es)
  obtain app ob dt where e: "e = (app, ob, dt)" by (metis prod_cases3)
  let ?m1 = "fst (observe app ob (t + dt) m)"
  have 1: "\<not> worker_seen ?m1" "missing_since ?m1 = Some u"
    using observe_missing [of app ob dt "t + dt" m] Cons.prems e by (simp_all add: get_or_insert_def)
  from Cons.IH [OF _ 1, of "t + dt"] Cons.prems show ?case by (simp add: e led_step_def)
qed simp

lemma worker_seen_step:
  "worker_seen m \<or> o_archive ob \<noteq> ArchiveMissing \<Longrightarrow> worker_seen (fst (observe app ob now m))"
proof -
  assume a: "worker_seen m \<or> o_archive ob \<noteq> ArchiveMissing"
  have ph: "worker_seen m1 = worker_seen m0" if "observe_phase app ob now m0 = (m1, st)" for m0 m1 st
    using that by (auto simp: observe_phase_def observe_link_def Let_def
      split: app_phase.splits link.splits if_splits)
  have cam: "worker_seen (observe_camera ob now m0) = worker_seen m0" for m0
    by (auto simp: observe_camera_def Let_def split: option.splits)
  obtain m1 st where p: "observe_phase app ob now (observe_reset ob m) = (m1, st)" by fastforce
  have "worker_seen (observe_reset ob m)" using a by (auto simp: observe_reset_def Let_def)
  with ph [OF p] cam p show ?thesis by (auto simp: observe_def Let_def)
qed

lemma worker_seen_run:
  "worker_seen m \<or> list_ex (\<lambda>(_, ob, _). o_archive ob \<noteq> ArchiveMissing) es \<Longrightarrow>
   worker_seen (fst (foldl led_step (m, t) es))"
proof (induction es arbitrary: m t)
  case (Cons e es)
  obtain app ob dt where e: "e = (app, ob, dt)" by (metis prod_cases3)
  from Cons.prems e have "worker_seen (fst (observe app ob (t + dt) m)) \<or>
      list_ex (\<lambda>(_, ob, _). o_archive ob \<noteq> ArchiveMissing) es"
    using worker_seen_step [of m ob app "t + dt"] by auto
  from Cons.IH [OF this, of "t + dt"] show ?case by (simp add: e led_step_def)
qed simp

text \<open>
  The grace for the archive worker: as long as it has not been seen since start-up, its absence
  shows as preparing for exactly the first sixty seconds after the first look and as attention
  from then on; once it has been seen in any earlier look, its absence is attention at once.
\<close>

theorem led_missing_grace:
  assumes "missing_event (app, ob, dt)"
  shows "(list_all missing_event (e # es) \<longrightarrow>
      (case foldl led_step (default_model, 0) (e # es) of (m, t) \<Rightarrow>
         snd (observe app ob (t + dt) m) =
           (if t + dt - snd (snd e) \<ge> secs 60 then Attention else Preparing))) \<and>
    (list_ex (\<lambda>(_, ob, _). o_archive ob \<noteq> ArchiveMissing) es \<longrightarrow>
      (case foldl led_step (default_model, 0) es of (m, t) \<Rightarrow>
         snd (observe app ob (t + dt) m) = Attention))"
proof (intro conjI impI)
  assume all: "list_all missing_event (e # es)"
  obtain app1 ob1 dt1 where e: "e = (app1, ob1, dt1)" by (metis prod_cases3)
  let ?m1 = "fst (observe app1 ob1 dt1 default_model)"
  obtain m t where r: "foldl led_step (?m1, dt1) es = (m, t)" by fastforce
  have 1: "\<not> worker_seen ?m1" "missing_since ?m1 = Some dt1"
    using observe_missing [of app1 ob1 dt1 dt1 default_model] all e
    by (simp_all add: default_model_def get_or_insert_def)
  from missing_run [OF _ 1 r] all have "\<not> worker_seen m" "missing_since m = Some dt1" by simp_all
  with observe_missing [OF assms, of "t + dt" m] r
  show "case foldl led_step (default_model, 0) (e # es) of (m, t) \<Rightarrow>
      snd (observe app ob (t + dt) m) = (if t + dt - snd (snd e) \<ge> secs 60 then Attention else Preparing)"
    by (simp add: e led_step_def get_or_insert_def)
next
  assume "list_ex (\<lambda>(_, ob, _). o_archive ob \<noteq> ArchiveMissing) es"
  then have "worker_seen (fst (foldl led_step (default_model, 0) es))" by (intro worker_seen_run) simp
  then show "case foldl led_step (default_model, 0) es of (m, t) \<Rightarrow> snd (observe app ob (t + dt) m) = Attention"
    using observe_missing [OF assms] by (auto split: prod.splits)
qed

theorem led_missing_grace_witness:
  "snd (observe AppReady ((led_ob 7)\<lparr>o_archive := ArchiveMissing\<rparr>) (1 + 4)
     (fst (foldl led_step (default_model, 0) [(AppReady, led_ob 7, 1)]))) = Attention"
proof -
  let ?e = "(AppReady, led_ob 7, 1 :: nat)"
  have "missing_event (AppReady, (led_ob 7)\<lparr>o_archive := ArchiveMissing\<rparr>, 4)"
    by (simp add: missing_event_def led_ob_def)
  from led_missing_grace [OF this, of undefined "[?e]"]
  show ?thesis by (simp add: led_ob_def led_step_def split: prod.splits)
qed

definition lit_at :: "led_state \<Rightarrow> nat \<Rightarrow> bool" where
  "lit_at st ms = (green (frame_of st (ms * 1000000)) \<or> red (frame_of st (ms * 1000000)))"

text \<open>
  The display is unambiguous: any two different states differ in their light at some moment
  of every three-second cycle, even on a board with a single LED (where the driver lights it for
  either colour).
\<close>

theorem led_states_distinguishable:
  "\<forall>s1 s2. s1 = s2 \<or> (\<exists>ms. ms < 3000 \<and> lit_at s1 ms \<noteq> lit_at s2 ms)"
proof (intro allI)
  fix s1 s2 :: led_state
  have "s1 = s2 \<or> (\<exists>ms \<in> {50, 120, 300, 450, 700, 1500, 2900}. lit_at s1 ms \<noteq> lit_at s2 ms)"
    by (cases s1; cases s2) (simp_all add: lit_at_def frame_of_def Let_def)
  then show "s1 = s2 \<or> (\<exists>ms. ms < 3000 \<and> lit_at s1 ms \<noteq> lit_at s2 ms)" by auto
qed


subsection \<open>Driving and restoring the LEDs\<close>

lemma write_attr_Inr:
  "write_attr wok led attr v fs = (fs', Inr u) \<longleftrightarrow> wok (led, attr) \<and> fs' = fs((led, attr) \<mapsto> v)"
  by (auto simp: write_attr_def)

lemma write_attrs_Inr:
  "write_attrs wok led as fs = (fs', Inr u) \<Longrightarrow> distinct (map fst as) \<Longrightarrow>
     (\<forall>a v. (a, v) \<in> set as \<longrightarrow> a \<in> set led_attrs \<and> fs' (led, a) = Some v) \<and>
     (\<forall>k. k \<notin> (\<lambda>(a, _). (led, a)) ` set as \<longrightarrow> fs' k = fs k)"
proof (induction wok led as fs rule: write_attrs.induct)
  case (2 wok led a v as fs)
  then have a: "a \<in> set led_attrs" and w: "write_attr wok led a v fs = (fs((led, a) \<mapsto> v), Inr ())"
    and r: "write_attrs wok led as (fs((led, a) \<mapsto> v)) = (fs', Inr u)"
    by (auto simp: write_attr_def split: if_splits)
  have d: "distinct (map fst as)" using 2(3) by simp
  note IH0 = 2(1) [OF _ w [symmetric] refl r d, unfolded not_not, OF a]
  note IH = IH0 [THEN conjunct1] IH0 [THEN conjunct2]
  have "(led, a) \<notin> (\<lambda>(a, _). (led, a)) ` set as" using 2(3) by force
  with IH(2) have "fs' (led, a) = Some v" by simp
  with IH a show ?case by auto
qed auto

text \<open>What a restored LED directory holds.\<close>

definition restored :: "saved_led \<Rightarrow> leds \<Rightarrow> ustr \<times> ustr \<Rightarrow> ustr option" where
  "restored s fs k =
     (if fst k \<noteq> sl_name s then fs k
      else if snd k = lit ''trigger'' then Some (sl_trigger s)
      else if snd k = lit ''brightness'' then Some (show_nat (sl_brightness s))
      else (case map_of (sl_attributes s) (snd k) of Some v \<Rightarrow> Some v | None \<Rightarrow> fs k))"

lemma led_attrs_names: "a \<in> set led_attrs \<Longrightarrow> a \<noteq> lit ''trigger'' \<and> a \<noteq> lit ''brightness''"
  by (auto simp: led_attrs_def)

lemma restore_one_Inr:
  assumes "restore_one wok s fs = (fs', Inr u)" "distinct (map fst (sl_attributes s))"
  shows "fs' = restored s fs"
proof
  fix k
  let ?n = "sl_name s"
  let ?fs3 = "fs((?n, lit ''trigger'') \<mapsto> lit ''none'', (?n, lit ''brightness'') \<mapsto> show_nat (sl_brightness s),
      (?n, lit ''trigger'') \<mapsto> sl_trigger s)"
  from assms(1) have w: "write_attrs wok ?n (sl_attributes s) ?fs3 = (fs', Inr u)"
    by (auto simp: restore_one_def write_attr_def split: if_splits simp del: write_attrs.simps)
  note W = write_attrs_Inr [OF w assms(2)]
  show "fs' k = restored s fs k"
  proof (cases "k \<in> (\<lambda>(a, _). (?n, a)) ` set (sl_attributes s)")
    case True
    then obtain a v where av: "k = (?n, a)" "(a, v) \<in> set (sl_attributes s)" by auto
    with W have "fs' k = Some v" "a \<in> set led_attrs" by auto
    moreover have "map_of (sl_attributes s) a = Some v" using av(2) assms(2) by simp
    ultimately show ?thesis using led_attrs_names av(1) by (auto simp: restored_def)
  next
    case False
    then have "fst k = ?n \<Longrightarrow> map_of (sl_attributes s) (snd k) = None"
      by (cases k) (force simp: map_of_eq_None_iff)
    with W False show ?thesis by (cases k) (auto simp: restored_def)
  qed
qed

lemma restore_saved_None:
  assumes "restore_saved wok ss fs = (fs', None)" "\<And>s. s \<in> set ss \<Longrightarrow> distinct (map fst (sl_attributes s))"
  shows "fs' = fold restored ss fs"
  using assms
proof (induction ss arbitrary: fs)
  case (Cons s ss)
  from Cons.prems(1) obtain fs1 u where 1: "restore_one wok s fs = (fs1, Inr u)"
    "restore_saved wok ss fs1 = (fs', None)"
    by (auto simp: Let_def split: prod.splits option.splits sum.splits)
  from restore_one_Inr [OF 1(1)] Cons.IH [OF 1(2)] Cons.prems(2) show ?case by simp
qed simp

lemma read_attrs_Inr:
  "read_attrs fs led as = Inr r \<Longrightarrow> map fst r = as \<and> (\<forall>a v. (a, v) \<in> set r \<longrightarrow> fs (led, a) = Some v)"
  by (induction as arbitrary: r) (auto simp: res_simps read_attr_def ok_or_def split: option.splits)

lemma capture_Inr:
  assumes "capture fs led = Inr s"
  shows "sl_name s = led \<and> distinct (map fst (sl_attributes s)) \<and>
    (\<forall>a v. (a, v) \<in> set (sl_attributes s) \<longrightarrow> fs (led, a) = Some v) \<and>
    sl_brightness s \<le> sl_maximum s \<and> 0 < sl_maximum s \<and>
    (\<exists>text. fs (led, lit ''trigger'') = Some text \<and> active_trigger text = Some (sl_trigger s)) \<and>
    (\<exists>text. fs (led, lit ''brightness'') = Some text \<and>
       parse_unsigned (2 ^ 32 - 1) (trim text) = Some (sl_brightness s))"
proof -
  from assms obtain tx b mx r where c: "fs (led, lit ''trigger'') = Some tx"
    "active_trigger tx = Some (sl_trigger s)" "fs (led, lit ''brightness'') = Some b"
    "parse_unsigned (2 ^ 32 - 1) (trim b) = Some (sl_brightness s)"
    "sl_brightness s \<le> sl_maximum s" "0 < sl_maximum s"
    "read_attrs fs led (trigger_attrs (sl_trigger s)) = Inr r" "sl_attributes s = sort_key fst r" "sl_name s = led"
    by (auto simp: capture_def res_simps read_attr_def ok_or_def split: option.splits if_splits)
  from read_attrs_Inr [OF c(7)] have r: "map fst r = trigger_attrs (sl_trigger s)"
    "\<forall>a v. (a, v) \<in> set r \<longrightarrow> fs (led, a) = Some v" by auto
  have "distinct (map fst r)" unfolding r(1) by (simp add: trigger_attrs_def)
  then have "distinct (map fst (sort_key fst r))" by (simp add: distinct_map)
  with c r(2) show ?thesis by auto
qed

text \<open>While the driver runs it touches the brightness of its LEDs only.\<close>

definition driving :: "saved_led list \<Rightarrow> leds \<Rightarrow> driver \<times> leds \<Rightarrow> bool" where
  "driving ss fs0 s = (dr_saved (fst s) = ss \<and>
     (\<forall>k. k \<notin> (\<lambda>s. (sl_name s, lit ''brightness'')) ` set ss \<longrightarrow> snd s k = fs0 k))"

lemma set_leds_frame:
  "set_leds wok colour inverted f i ss fs = (fs', b) \<Longrightarrow>
     k \<notin> (\<lambda>s. (sl_name s, lit ''brightness'')) ` set ss \<Longrightarrow> fs' k = fs k"
proof (induction ss arbitrary: i fs)
  case (Cons s ss)
  then show ?case by (fastforce simp: Let_def write_attr_def split: if_splits prod.splits sum.splits)
qed simp

interpretation drive: invariant_machine "\<lambda>s f. fst (driver_set wok f s)" "driving ss fs0" for wok ss fs0
proof
  show "driving ss fs0 (fst (driver_set wok f s))" if "driving ss fs0 s" for s f
    using that by (auto simp: driving_def driver_set_def set_leds_frame split: prod.splits if_splits bool.splits)
qed


lemma restored_local: "fs k = fs2 k \<Longrightarrow> restored s fs k = restored s fs2 k"
  by (simp add: restored_def split: option.split)

lemma restored_other: "fst k \<noteq> sl_name s \<Longrightarrow> restored s fs k = fs k"
  by (simp add: restored_def)

lemma fold_restored:
  "distinct (map sl_name ss) \<Longrightarrow>
     (\<forall>s. s \<in> set ss \<and> fst k = sl_name s \<longrightarrow> fold restored ss fs k = restored s fs k) \<and>
     (fst k \<notin> sl_name ` set ss \<longrightarrow> fold restored ss fs k = fs k)"
proof (induction ss arbitrary: fs)
  case (Cons s ss)
  have IH: "\<And>s'. s' \<in> set ss \<Longrightarrow> fst k = sl_name s' \<Longrightarrow> fold restored ss (restored s fs) k = restored s' (restored s fs) k"
    "fst k \<notin> sl_name ` set ss \<Longrightarrow> fold restored ss (restored s fs) k = restored s fs k"
    using Cons by auto
  have ne: "s' \<in> set ss \<Longrightarrow> sl_name s' \<noteq> sl_name s" for s'
    using Cons.prems by (metis (no_types, lifting) distinct.simps(2) image_eqI list.set_map list.simps(9))
  have "fold restored (s # ss) fs k = restored s' fs k" if "s' \<in> set (s # ss)" "fst k = sl_name s'" for s'
  proof (cases "s' = s")
    case True
    with that IH(2) ne show ?thesis by (metis fold_simps(2) imageE)
  next
    case False
    with that have "s' \<in> set ss" by simp
    with IH(1) that(2) ne have "fold restored ss (restored s fs) k = restored s' (restored s fs) k" by blast
    also have "\<dots> = restored s' fs k"
      using that(2) ne [OF \<open>s' \<in> set ss\<close>] by (intro restored_local restored_other) simp
    finally show ?thesis by simp
  qed
  with IH(2) show ?case by (auto simp: restored_other)
qed simp

lemma take_over_other: "snd k \<noteq> lit ''trigger'' \<or> fst k \<notin> sl_name ` set ss \<Longrightarrow> take_over ss fs k = fs k"
  unfolding take_over_def by (induction ss arbitrary: fs) auto

lemma restored_captured:
  assumes "capture fs (sl_name s) = Inr s" "fst k = sl_name s"
    "snd k \<noteq> lit ''trigger''" "snd k \<noteq> lit ''brightness''" "fs1 k = fs k"
  shows "restored s fs1 k = fs k"
proof (cases "map_of (sl_attributes s) (snd k)")
  case None
  with assms show ?thesis by (simp add: restored_def)
next
  case (Some v)
  with capture_Inr [OF assms(1)] map_of_SomeD [OF Some] have "fs (sl_name s, snd k) = Some v" by blast
  with Some assms(2-4) show ?thesis by (cases k) (simp add: restored_def)
qed

text \<open>
  LED ownership is reversible: after the driver has taken over the captured LEDs and shown any
  sequence of frames, with any of its writes refused, a restore that reports no error leaves every
  LED with the trigger and the brightness it was captured with and every other file of the LED
  directory as it was before the take-over.
\<close>

theorem led_native_restored:
  assumes "\<And>s. s \<in> set ss \<Longrightarrow> capture fs (sl_name s) = Inr s" and "distinct (map sl_name ss)"
    and "dr_saved d = ss"
    and "foldl (\<lambda>s f. fst (driver_set wok f s)) (d, take_over ss fs) frames = (d', fs1)"
    and "restore_saved wok' ss fs1 = (fs', None)"
  shows "(\<forall>s. s \<in> set ss \<longrightarrow> fs' (sl_name s, lit ''trigger'') = Some (sl_trigger s) \<and>
       fs' (sl_name s, lit ''brightness'') = Some (show_nat (sl_brightness s))) \<and>
    (\<forall>n a. n \<notin> sl_name ` set ss \<or> a \<noteq> lit ''trigger'' \<and> a \<noteq> lit ''brightness'' \<longrightarrow> fs' (n, a) = fs (n, a))"
proof -
  have "driving ss (take_over ss fs) (d, take_over ss fs)" using assms(3) by (simp add: driving_def)
  from drive.run_inv [OF this, of wok frames] assms(4)
  have dv: "fs1 k = take_over ss fs k" if "k \<notin> (\<lambda>s. (sl_name s, lit ''brightness'')) ` set ss" for k
    using that by (cases k) (simp add: driving_def)
  have fs': "fs' = fold restored ss fs1"
    by (rule restore_saved_None [OF assms(5)]) (use capture_Inr assms(1) in blast)
  have val: "fs' (sl_name s, a) = restored s fs1 (sl_name s, a)" if "s \<in> set ss" for s a
    unfolding fs' using fold_restored [OF assms(2), of "(sl_name s, a)" fs1] that by auto
  have A: "fs' (sl_name s, lit ''trigger'') = Some (sl_trigger s) \<and>
       fs' (sl_name s, lit ''brightness'') = Some (show_nat (sl_brightness s))" if "s \<in> set ss" for s
    unfolding val [OF that] by (simp add: restored_def)
  have B: "fs' (n, a) = fs (n, a)" if "n \<notin> sl_name ` set ss" for n a
  proof -
    have "fs' (n, a) = fs1 (n, a)"
      unfolding fs' using fold_restored [OF assms(2), of "(n, a)" fs1] that by simp
    with dv [of "(n, a)"] that show ?thesis by (auto simp: take_over_other)
  qed
  have C: "fs' (n, a) = fs (n, a)"
    if "n \<in> sl_name ` set ss" "a \<noteq> lit ''trigger''" "a \<noteq> lit ''brightness''" for n a
  proof -
    from that(1) obtain s where s: "s \<in> set ss" "n = sl_name s" by blast
    have "fs1 (n, a) = fs (n, a)" using dv [of "(n, a)"] that(2,3) by (auto simp: take_over_other)
    with restored_captured [OF assms(1) [OF s(1)], of "(n, a)" fs1] that(2,3) s show ?thesis
      using val [OF s(1), of a] by simp
  qed
  from A B C show ?thesis by blast
qed

definition act_led :: leds where
  "act_led = [(lit ''ACT'', lit ''trigger'') \<mapsto> lit ''none [mmc0] timer'',
     (lit ''ACT'', lit ''brightness'') \<mapsto> lit ''1'', (lit ''ACT'', lit ''max_brightness'') \<mapsto> lit ''255'']"

definition act_saved :: saved_led where
  "act_saved = \<lparr>sl_name = lit ''ACT'', sl_trigger = lit ''mmc0'', sl_brightness = 1, sl_maximum = 255,
     sl_attributes = []\<rparr>"

theorem led_native_restored_witness:
  "capture act_led (lit ''ACT'') = Inr act_saved \<and>
   fst (restore_saved (\<lambda>_. True) [act_saved] (snd (foldl (\<lambda>s f. fst (driver_set (\<lambda>_. True) f s))
     (\<lparr>dr_saved = [act_saved], dr_last = None, invert_activity = True\<rparr>, take_over [act_saved] act_led)
     [frame_of Waiting 0]))) (lit ''ACT'', lit ''trigger'') = Some (lit ''mmc0'')"
proof -
  let ?d = "\<lparr>dr_saved = [act_saved], dr_last = None, invert_activity = True\<rparr>"
  have c: "capture act_led (lit ''ACT'') = Inr act_saved"
    by (simp add: capture_def act_led_def act_saved_def read_attr_def active_trigger_def bracketed_def
        trigger_attrs_def text_eval)
  obtain d' fs1 where r: "foldl (\<lambda>s f. fst (driver_set (\<lambda>_. True) f s)) (?d, take_over [act_saved] act_led)
      [frame_of Waiting 0] = (d', fs1)" by fastforce
  obtain fs' where rs: "restore_saved (\<lambda>_. True) [act_saved] fs1 = (fs', None)"
    by (simp add: restore_one_def write_attr_def led_names_def act_saved_def)
  have s: "sl_name act_saved = lit ''ACT''" "sl_trigger act_saved = lit ''mmc0''"
    by (simp_all add: act_saved_def)
  have "fs' (sl_name act_saved, lit ''trigger'') = Some (sl_trigger act_saved)"
    using led_native_restored [of "[act_saved]" act_led ?d "\<lambda>_. True" "[frame_of Waiting 0]" d' fs1 "\<lambda>_. True" fs']
      c s(1) r rs
    by (simp del: foldl.simps restore_saved.simps)
  with c r rs s show ?thesis by (simp del: foldl.simps restore_saved.simps)
qed

end
