(* ===== verification/PushRetry.thy ===== *)
theory PushRetry
  imports Prelude
begin

section \<open>Retry of failed pushes\<close>

text \<open>
  \<^verbatim>\<open>crates/api/src/push_retry.rs\<close>: the queue of mobile pushes that failed after boot, and the
  worker that retries them. Instants and durations are natural numbers of seconds since boot. The
  pending pushes are a list with at most one push per type, in the unspecified order in which the
  hash map iterates. The dispatching calls and the worker interleave at every lock of the queue,
  so they are an inductive step relation over the queue and the tasks in progress.
\<close>

record push =
  p_title :: ustr
  p_message :: ustr
  p_summary :: "ustr option"
  notification_type :: ustr
  type_hint :: "ustr option"
  started_at :: nat

record retry_queue =
  pending :: "push list"
  delivered :: "ustr \<rightharpoonup> nat"
  worker_running :: bool

definition retry_types :: "ustr list" where
  "retry_types = [lit ''keep_accessory'', lit ''archive_error'', lit ''keep_awake_failure'', lit ''temperature'']"

definition boot_window :: nat where "boot_window = 8 * 60"
definition max_age :: nat where "max_age = 10 * 60"

definition lookup_pending :: "push list \<Rightarrow> ustr \<Rightarrow> push option" where
  "lookup_pending ps k = List.find (\<lambda>p. notification_type p = k) ps"

definition remove_pending :: "ustr \<Rightarrow> push list \<Rightarrow> push list" where
  "remove_pending k ps = filter (\<lambda>p. notification_type p \<noteq> k) ps"

definition insert_pending :: "push \<Rightarrow> push list \<Rightarrow> push list" where
  "insert_pending p ps = p # remove_pending (notification_type p) ps"

definition record_failure :: "push \<Rightarrow> nat \<Rightarrow> retry_queue \<Rightarrow> retry_queue \<times> bool" where
  "record_failure p uptime q =
     (let kind = notification_type p
      in if kind \<notin> set retry_types \<or> uptime \<ge> boot_window then (q, False)
         else if (case delivered q kind of Some d \<Rightarrow> d \<ge> started_at p | None \<Rightarrow> False) \<or>
                 (case lookup_pending (pending q) kind of Some o' \<Rightarrow> started_at o' > started_at p | None \<Rightarrow> False)
         then (q, False)
         else (q\<lparr>pending := insert_pending p (pending q)\<rparr>, True))"

definition record_delivered :: "ustr \<Rightarrow> nat \<Rightarrow> retry_queue \<Rightarrow> retry_queue" where
  "record_delivered kind at q =
     (let newest = (case delivered q kind of None \<Rightarrow> at | Some d \<Rightarrow> if d < at then at else d);
          q1 = q\<lparr>delivered := (delivered q)(kind \<mapsto> newest)\<rparr>
      in if (case lookup_pending (pending q) kind of Some p \<Rightarrow> started_at p \<le> at | None \<Rightarrow> False)
         then q1\<lparr>pending := remove_pending kind (pending q)\<rparr> else q1)"

definition still_pending :: "push \<Rightarrow> retry_queue \<Rightarrow> bool" where
  "still_pending p q \<longleftrightarrow> lookup_pending (pending q) (notification_type p) = Some p"

text \<open>\<^verbatim>\<open>min_by_key\<close>: the first of the minimal elements in iteration order.\<close>

fun min_started :: "push list \<Rightarrow> push option" where
  "min_started [] = None"
| "min_started (p # ps) =
     (case min_started ps of None \<Rightarrow> Some p
      | Some m \<Rightarrow> if started_at p \<le> started_at m then Some p else Some m)"

definition next_due :: "nat \<Rightarrow> nat \<Rightarrow> retry_queue \<Rightarrow> retry_queue \<times> push option" where
  "next_due now uptime q =
     (if uptime \<ge> boot_window then (q\<lparr>pending := []\<rparr>, None)
      else let ps = filter (\<lambda>p. now - started_at p \<le> max_age) (pending q)
           in (q\<lparr>pending := ps\<rparr>, min_started ps))"

definition sent :: "push \<Rightarrow> retry_queue \<Rightarrow> retry_queue" where
  "sent p q = (if still_pending p q
     then q\<lparr>pending := remove_pending (notification_type p) (pending q)\<rparr> else q)"

text \<open>
  Tasks: a dispatch that has queued its push and is about to start the worker, and the worker
  between two locks of the queue.
\<close>

datatype task = Spawning | Sleeping | Picked push | Sending push

datatype send_result = SendOk | NeverSent | MaybeSent | NotConfigured

definition default_queue :: retry_queue where
  "default_queue = \<lparr>pending = [], delivered = (\<lambda>_. None), worker_running = False\<rparr>"

type_synonym retry_state = "retry_queue \<times> task list"

inductive retry_step :: "retry_state \<Rightarrow> retry_state \<Rightarrow> bool" where
  dispatch_ok: "retry_step (q, ts) (record_delivered (notification_type (p :: push)) (started_at p) q, ts)"
| dispatch_kept: "record_failure p uptime q = (q', True) \<Longrightarrow> retry_step (q, ts) (q', Spawning # ts)"
| dispatch_dropped: "record_failure p uptime q = (q', False) \<Longrightarrow> retry_step (q, ts) (q', ts)"
| start_worker: "\<not> worker_running q \<Longrightarrow>
    retry_step (q, ts @ Spawning # us) (q\<lparr>worker_running := True\<rparr>, ts @ Sleeping # us)"
| already_running: "worker_running q \<Longrightarrow> retry_step (q, ts @ Spawning # us) (q, ts @ us)"
| wake_none: "next_due now uptime q = (q', None) \<Longrightarrow>
    retry_step (q, ts @ Sleeping # us) (q'\<lparr>worker_running := False\<rparr>, ts @ us)"
| wake_some: "next_due now uptime q = (q', Some p) \<Longrightarrow>
    retry_step (q, ts @ Sleeping # us) (q', ts @ Picked p # us)"
| type_disabled: "retry_step (q, ts @ Picked p # us) (sent p q, ts @ Sleeping # us)"
| replaced: "\<not> still_pending p q \<Longrightarrow> retry_step (q, ts @ Picked p # us) (q, ts @ Sleeping # us)"
| send_push: "still_pending p q \<Longrightarrow> retry_step (q, ts @ Picked p # us) (q, ts @ Sending p # us)"
| send_ok: "retry_step (q, ts @ Sending p # us)
    (record_delivered (notification_type p) (started_at p) q, ts @ Sleeping # us)"
| send_never_sent: "retry_step (q, ts @ Sending p # us) (q, ts @ Sleeping # us)"
| send_gave_up: "retry_step (q, ts @ Sending p # us) (sent p q, ts @ Sleeping # us)"

definition retry_reachable :: "retry_state \<Rightarrow> bool" where
  "retry_reachable s = retry_step\<^sup>*\<^sup>* (default_queue, []) s"

section \<open>Lemmas\<close>

text \<open>
  The queue's invariant: one push per type, only of the retried types, each of them started after
  the newest one of its type that was delivered.
\<close>

definition queue_inv :: "retry_queue \<Rightarrow> bool" where
  "queue_inv q \<longleftrightarrow> distinct (map notification_type (pending q)) \<and>
     (\<forall>p. p \<in> set (pending q) \<longrightarrow> notification_type p \<in> set retry_types \<and>
        (\<forall>d. delivered q (notification_type p) = Some d \<longrightarrow> d < started_at p))"

lemma lookup_pending_Some:
  "lookup_pending ps k = Some p \<Longrightarrow> p \<in> set ps \<and> notification_type p = k"
  by (auto simp: lookup_pending_def find_Some_iff)

lemma lookup_pending_mem:
  "distinct (map notification_type ps) \<Longrightarrow> p \<in> set ps \<Longrightarrow> lookup_pending ps (notification_type p) = Some p"
  by (induction ps) (auto simp: lookup_pending_def)

lemma set_remove_pending: "set (remove_pending k ps) = {p \<in> set ps. notification_type p \<noteq> k}"
  by (auto simp: remove_pending_def)

lemma distinct_remove_pending:
  "distinct (map notification_type ps) \<Longrightarrow> distinct (map notification_type (remove_pending k ps))"
  by (simp add: remove_pending_def distinct_map_filter)

lemma min_started_None: "min_started ps = None \<longleftrightarrow> ps = []"
  by (cases ps) (auto split: option.splits)

lemma min_started_spec:
  "min_started ps = Some p \<Longrightarrow> p \<in> set ps \<and> (\<forall>p' \<in> set ps. started_at p \<le> started_at p')"
proof (induction ps arbitrary: p)
  case (Cons x ps)
  show ?case
  proof (cases "min_started ps")
    case None
    with Cons.prems min_started_None [of ps] show ?thesis by simp
  next
    case (Some m)
    with Cons.IH [OF Some] Cons.prems show ?thesis by (auto split: if_splits)
  qed
qed simp

lemma record_failure_inv: "queue_inv q \<Longrightarrow> record_failure p uptime q = (q', kept) \<Longrightarrow> queue_inv q'"
  by (auto simp: queue_inv_def record_failure_def Let_def insert_pending_def set_remove_pending
      distinct_remove_pending not_le split: if_splits option.splits)

lemma record_delivered_inv: "queue_inv q \<Longrightarrow> queue_inv (record_delivered kind at q)"
proof -
  assume i: "queue_inv q"
  show ?thesis
  proof (cases "lookup_pending (pending q) kind")
    case None
    then have "p \<in> set (pending q) \<Longrightarrow> notification_type p \<noteq> kind" for p
      by (auto simp: lookup_pending_def find_None_iff)
    with i None show ?thesis by (auto simp: queue_inv_def record_delivered_def Let_def)
  next
    case (Some p)
    have "p' = p" if "p' \<in> set (pending q)" "notification_type p' = kind" for p'
      using lookup_pending_mem [of "pending q" p'] i that Some by (simp add: queue_inv_def)
    with i Some show ?thesis
      by (auto simp: queue_inv_def record_delivered_def Let_def set_remove_pending distinct_remove_pending
          split: option.splits)
  qed
qed

lemma sent_inv: "queue_inv q \<Longrightarrow> queue_inv (sent p q)"
  by (auto simp: queue_inv_def sent_def set_remove_pending distinct_remove_pending)

lemma next_due_inv: "queue_inv q \<Longrightarrow> next_due now uptime q = (q', r) \<Longrightarrow> queue_inv q'"
  by (auto simp: queue_inv_def next_due_def Let_def distinct_map_filter split: if_splits)

lemma queue_inv_running [simp]: "queue_inv (q\<lparr>worker_running := b\<rparr>) = queue_inv q"
  by (simp add: queue_inv_def)

definition is_worker :: "task \<Rightarrow> bool" where "is_worker t \<longleftrightarrow> t \<noteq> Spawning"

definition retry_inv :: "retry_state \<Rightarrow> bool" where
  "retry_inv s = (queue_inv (fst s) \<and>
     length (filter is_worker (snd s)) = (if worker_running (fst s) then 1 else 0))"

lemma worker_running_ops [simp]:
  "worker_running (record_delivered kind at q) = worker_running q"
  "worker_running (sent p q) = worker_running q"
  "worker_running (fst (record_failure p uptime q)) = worker_running q"
  "worker_running (fst (next_due now uptime q)) = worker_running q"
  by (auto simp: record_delivered_def sent_def record_failure_def next_due_def Let_def)

lemma retry_step_inv:
  assumes "retry_step s s'" "retry_inv s"
  shows "retry_inv s'"
  using assms
proof (induction rule: retry_step.induct)
  case (dispatch_kept p uptime q q' ts)
  then show ?case using worker_running_ops(3) [of p uptime q]
    by (auto simp: retry_inv_def is_worker_def dest: record_failure_inv)
next
  case (dispatch_dropped p uptime q q' ts)
  then show ?case using worker_running_ops(3) [of p uptime q]
    by (auto simp: retry_inv_def is_worker_def dest: record_failure_inv)
next
  case (wake_none now uptime q q' ts us)
  then have "queue_inv q'" by (auto simp: retry_inv_def dest: next_due_inv)
  with wake_none show ?case
    by (auto simp: retry_inv_def is_worker_def split: if_splits)
next
  case (wake_some now uptime q q' p ts us)
  then show ?case using worker_running_ops(4) [of now uptime q]
    by (auto simp: retry_inv_def is_worker_def dest: next_due_inv)
qed (auto simp: retry_inv_def is_worker_def record_delivered_inv sent_inv split: if_splits)

lemma retry_reachable_inv: "retry_reachable s \<Longrightarrow> retry_inv s"
  unfolding retry_reachable_def
proof (induction rule: rtranclp_induct)
  case base
  show ?case by (simp add: retry_inv_def queue_inv_def default_queue_def)
next
  case (step s s')
  then show ?case by (blast intro: retry_step_inv)
qed


subsection \<open>Properties\<close>

text \<open>
  C17. Retries are bounded and never stale: in every reachable state at most one worker exists, at
  most one push per type waits and only of the retried types, and every waiting push was started
  after the newest push of its type known to have reached the phone. So the push the worker hands
  to the sender, which it checks to be still waiting, is never one that a delivered push has
  superseded.
\<close>

theorem push_retry_never_stale:
  assumes "retry_reachable (q, ts)"
  shows "length (filter is_worker ts) \<le> 1 \<and> distinct (map notification_type (pending q)) \<and>
    (\<forall>p. still_pending p q \<longrightarrow> notification_type p \<in> set retry_types \<and>
       (\<forall>d. delivered q (notification_type p) = Some d \<longrightarrow> d < started_at p))"
  using retry_reachable_inv [OF assms]
  by (auto simp: retry_inv_def queue_inv_def still_pending_def dest: lookup_pending_Some)

definition demo_push :: push where
  "demo_push = \<lparr>p_title = [], p_message = [], p_summary = None, notification_type = lit ''temperature'',
     type_hint = None, started_at = 5\<rparr>"

theorem push_retry_never_stale_witness:
  "distinct (map notification_type (pending (fst (record_failure demo_push 7 default_queue)))) \<and>
   snd (record_failure demo_push 7 default_queue)"
proof -
  have k: "record_failure demo_push 7 default_queue =
      (default_queue\<lparr>pending := [demo_push]\<rparr>, True)"
    by (simp add: record_failure_def demo_push_def default_queue_def retry_types_def boot_window_def
        lookup_pending_def insert_pending_def remove_pending_def Let_def)
  then have "retry_reachable (default_queue\<lparr>pending := [demo_push]\<rparr>, [Spawning])"
    unfolding retry_reachable_def by (blast intro: r_into_rtranclp dispatch_kept)
  from push_retry_never_stale [OF this] k show ?thesis by simp
qed

text \<open>
  What the worker picks: within the boot window, the oldest waiting push that is not older than
  ten minutes, and outside the window nothing, with the queue emptied; a failure is kept exactly
  when its type is retried, it happened in the window, no push of its type started at the same
  time or later was delivered, and none started later is waiting. A kept failure is then the one
  waiting for its type.
\<close>

theorem push_retry_picks_oldest:
  assumes "queue_inv q"
  shows "(case next_due now uptime q of
       (q', None) \<Rightarrow> pending q' = [] \<and>
          (boot_window \<le> uptime \<or> (\<nexists>p. p \<in> set (pending q) \<and> now - started_at p \<le> max_age))
     | (q', Some p) \<Rightarrow> uptime < boot_window \<and> still_pending p q \<and> still_pending p q' \<and>
          now - started_at p \<le> max_age \<and>
          (\<nexists>p'. p' \<in> set (pending q) \<and> now - started_at p' \<le> max_age \<and> started_at p' < started_at p)) \<and>
    (case record_failure p uptime q of (q', kept) \<Rightarrow>
       kept = (notification_type p \<in> set retry_types \<and> uptime < boot_window \<and>
         (\<nexists>d. delivered q (notification_type p) = Some d \<and> started_at p \<le> d) \<and>
         (\<nexists>p'. p' \<in> set (pending q) \<and> notification_type p' = notification_type p \<and> started_at p < started_at p')) \<and>
       (if kept then still_pending p q' else q' = q))"
proof (rule conjI)
  let ?ps = "filter (\<lambda>p. now - started_at p \<le> max_age) (pending q)"
  from assms have d: "distinct (map notification_type (pending q))" by (simp add: queue_inv_def)
  then have d': "distinct (map notification_type ?ps)" by (simp add: distinct_map_filter)
  show "case next_due now uptime q of
       (q', None) \<Rightarrow> pending q' = [] \<and>
          (boot_window \<le> uptime \<or> (\<nexists>p. p \<in> set (pending q) \<and> now - started_at p \<le> max_age))
     | (q', Some p) \<Rightarrow> uptime < boot_window \<and> still_pending p q \<and> still_pending p q' \<and>
          now - started_at p \<le> max_age \<and>
          (\<nexists>p'. p' \<in> set (pending q) \<and> now - started_at p' \<le> max_age \<and> started_at p' < started_at p)"
  proof (cases "min_started ?ps")
    case None
    then have "?ps = []" by (simp add: min_started_None)
    with None show ?thesis by (auto simp: next_due_def Let_def filter_empty_conv)
  next
    case (Some p)
    from min_started_spec [OF this] have "p \<in> set ?ps" "\<forall>p' \<in> set ?ps. started_at p \<le> started_at p'" by auto
    moreover from this have "still_pending p q" "lookup_pending ?ps (notification_type p) = Some p"
      using lookup_pending_mem [OF d] lookup_pending_mem [OF d'] by (auto simp: still_pending_def)
    ultimately show ?thesis using Some by (auto simp: next_due_def Let_def still_pending_def not_less)
  qed
next
  from assms have d: "distinct (map notification_type (pending q))" by (simp add: queue_inv_def)
  have l: "(case lookup_pending (pending q) k of Some o' \<Rightarrow> t < started_at o' | None \<Rightarrow> False) =
      (\<exists>p'. p' \<in> set (pending q) \<and> notification_type p' = k \<and> t < started_at p')" for k t
    using lookup_pending_mem [OF d]
    by (auto split: option.splits dest: lookup_pending_Some)
  show "case record_failure p uptime q of (q', kept) \<Rightarrow>
       kept = (notification_type p \<in> set retry_types \<and> uptime < boot_window \<and>
         (\<nexists>d. delivered q (notification_type p) = Some d \<and> started_at p \<le> d) \<and>
         (\<nexists>p'. p' \<in> set (pending q) \<and> notification_type p' = notification_type p \<and> started_at p < started_at p')) \<and>
       (if kept then still_pending p q' else q' = q)"
    unfolding record_failure_def Let_def l
    by (auto simp: still_pending_def lookup_pending_def insert_pending_def not_le not_less split: option.splits)
qed

theorem push_retry_picks_oldest_witness:
  "queue_inv default_queue \<and> snd (record_failure demo_push 7 default_queue)"
proof -
  have i: "queue_inv default_queue" by (simp add: queue_inv_def default_queue_def)
  have f: "notification_type demo_push \<in> set retry_types" "7 < boot_window"
    "pending default_queue = []" "delivered default_queue k = None" for k
    by (simp_all add: demo_push_def default_queue_def retry_types_def boot_window_def)
  show ?thesis
    using push_retry_picks_oldest [OF i, where now = 0 and uptime = 7 and p = demo_push, THEN conjunct2] i f
    by (cases "record_failure demo_push 7 default_queue") auto
qed

end
