(* ===== verification/TtlCache.thy ===== *)
theory TtlCache
  imports Prelude
begin

section \<open>The stale-while-revalidate cache\<close>

text \<open>
  \<^verbatim>\<open>crates/api/src/ttl_cache.rs\<close>: a one-slot cache with a time to live, one refresh in flight at a
  time, and a generation counter (a 64-bit word that wraps) which discards loads that an
  invalidation has overtaken. The requests, the background refreshes and \<open>clear\<close> interleave at every
  lock, so the cache is an inductive step relation; a run is recorded as the list of its events,
  oldest first. Instants and durations are natural numbers.
\<close>

text \<open>Who holds the \<open>refreshing\<close> lock, and how far that request has come.\<close>

datatype 'k refresh =
    Idle
  | Holding 'k
  | Checked 'k
  | Loading nat u64 'k

record ('k, 'v) cache =
  generation :: u64
  slot :: "('k \<times> nat \<times> 'v) option"
  refreshing :: "'k refresh"
  loads :: nat

definition new_cache :: "('k, 'v) cache" where
  "new_cache = \<lparr>generation = 0, slot = None, refreshing = Idle, loads = 0\<rparr>"

definition fresh :: "nat \<Rightarrow> nat \<Rightarrow> 'k \<Rightarrow> ('k, 'v) cache \<Rightarrow> 'v option" where
  "fresh ttl now key c =
     (case slot c of
        Some (k, at, v) \<Rightarrow> if k = key \<and> now - at < ttl then Some v else None
      | None \<Rightarrow> None)"

definition stale :: "'k \<Rightarrow> ('k, 'v) cache \<Rightarrow> 'v option" where
  "stale key c = (case slot c of Some (k, at, v) \<Rightarrow> if k = key then Some v else None | None \<Rightarrow> None)"

definition store_if_current :: "u64 \<Rightarrow> 'k \<Rightarrow> 'v \<Rightarrow> nat \<Rightarrow> ('k, 'v) cache \<Rightarrow> ('k, 'v) cache" where
  "store_if_current g key v now c =
     (if generation c = g then c\<lparr>slot := Some (key, now, v)\<rparr> else c)"

definition clear :: "('k, 'v) cache \<Rightarrow> ('k, 'v) cache" where
  "clear c = c\<lparr>generation := generation c + 1, slot := None\<rparr>"

datatype ('k, 'v) event =
    Hit 'k 'v
  | Start nat 'k
  | Finish nat 'k "'v option"
  | Clear

text \<open>
  One request takes several steps of \<open>get\<close>: a fresh or a stale hit (the latter starting a refresh
  when none runs), or a miss, which waits for the lock, looks again and loads. A load reads the
  generation when it begins.
\<close>

inductive cache_step :: "nat \<Rightarrow> ('k, 'v) cache \<Rightarrow> ('k, 'v) event list \<Rightarrow> ('k, 'v) cache \<Rightarrow> bool" for ttl where
  fresh_hit: "fresh ttl now k c = Some v \<Longrightarrow> cache_step ttl c [Hit k v] c"
| stale_hit: "fresh ttl now k c = None \<Longrightarrow> stale k c = Some v \<Longrightarrow> refreshing c \<noteq> Idle \<Longrightarrow>
    cache_step ttl c [Hit k v] c"
| stale_refresh: "fresh ttl now k c = None \<Longrightarrow> stale k c = Some v \<Longrightarrow> refreshing c = Idle \<Longrightarrow>
    cache_step ttl c [Hit k v] (c\<lparr>refreshing := Checked k\<rparr>)"
| miss_lock: "refreshing c = Idle \<Longrightarrow> cache_step ttl c [] (c\<lparr>refreshing := Holding k\<rparr>)"
| miss_hit: "refreshing c = Holding k \<Longrightarrow> fresh ttl now k c = Some v \<Longrightarrow>
    cache_step ttl c [Hit k v] (c\<lparr>refreshing := Idle\<rparr>)"
| miss_miss: "refreshing c = Holding k \<Longrightarrow> fresh ttl now k c = None \<Longrightarrow>
    cache_step ttl c [] (c\<lparr>refreshing := Checked k\<rparr>)"
| begin_load: "refreshing c = Checked k \<Longrightarrow>
    cache_step ttl c [Start (loads c) k]
      (c\<lparr>refreshing := Loading (loads c) (generation c) k, loads := loads c + 1\<rparr>)"
| load_fails: "refreshing c = Loading i g k \<Longrightarrow>
    cache_step ttl c [Finish i k None] (c\<lparr>refreshing := Idle\<rparr>)"
| load_returns: "refreshing c = Loading i g k \<Longrightarrow>
    cache_step ttl c [Finish i k (Some v)] ((store_if_current g k v now c)\<lparr>refreshing := Idle\<rparr>)"
| cleared: "cache_step ttl c [Clear] (clear c)"

inductive cache_run :: "nat \<Rightarrow> ('k, 'v) event list \<Rightarrow> ('k, 'v) cache \<Rightarrow> bool" for ttl where
  empty_run: "cache_run ttl [] new_cache"
| more: "cache_run ttl es c \<Longrightarrow> cache_step ttl c es' c' \<Longrightarrow> cache_run ttl (es @ es') c'"

section \<open>Lemmas\<close>

definition clears :: "('k, 'v) event list \<Rightarrow> nat" where
  "clears es = length (filter (\<lambda>e. e = Clear) es)"

definition starts :: "('k, 'v) event list \<Rightarrow> nat" where
  "starts es = length (filter (\<lambda>e. case e of Start _ _ \<Rightarrow> True | _ \<Rightarrow> False) es)"

definition finishes :: "('k, 'v) event list \<Rightarrow> nat" where
  "finishes es = length (filter (\<lambda>e. case e of Finish _ _ _ \<Rightarrow> True | _ \<Rightarrow> False) es)"

lemmas count_defs = clears_def starts_def finishes_def

text \<open>The value \<open>v\<close> comes from a load of \<open>k\<close> that began after the last invalidation of the run.\<close>

definition current :: "('k, 'v) event list \<Rightarrow> 'k \<Rightarrow> 'v \<Rightarrow> bool" where
  "current es k v \<longleftrightarrow>
     (\<exists>i pre mid. es = pre @ Start i k # mid \<and> Finish i k (Some v) \<in> set mid \<and> clears mid = 0)"

definition slot_ok :: "('k, 'v) event list \<Rightarrow> ('k \<times> nat \<times> 'v) option \<Rightarrow> bool" where
  "slot_ok es s \<longleftrightarrow> (\<forall>k at v. s = Some (k, at, v) \<longrightarrow> current es k v)"

definition load_ok :: "('k, 'v) event list \<Rightarrow> u64 \<Rightarrow> 'k refresh \<Rightarrow> bool" where
  "load_ok es now r \<longleftrightarrow> (\<forall>i g k. r = Loading i g k \<longrightarrow>
     (\<exists>pre mid. es = pre @ Start i k # mid \<and> now = g + word_of_nat (clears mid)))"

definition count_ok :: "('k, 'v) event list \<Rightarrow> 'k refresh \<Rightarrow> bool" where
  "count_ok es r \<longleftrightarrow> starts es = finishes es + (case r of Loading _ _ _ \<Rightarrow> 1 | _ \<Rightarrow> 0)"

definition cache_inv :: "('k, 'v) event list \<Rightarrow> ('k, 'v) cache \<Rightarrow> bool" where
  "cache_inv es c \<longleftrightarrow> slot_ok es (slot c) \<and> load_ok es (generation c) (refreshing c) \<and>
     count_ok es (refreshing c)"

lemma clears_append [simp]: "clears (xs @ ys) = clears xs + clears ys"
  by (simp add: clears_def)

lemma starts_append [simp]: "starts (xs @ ys) = starts xs + starts ys"
  by (simp add: starts_def)

lemma finishes_append [simp]: "finishes (xs @ ys) = finishes xs + finishes ys"
  by (simp add: finishes_def)

lemma current_snoc:
  assumes "current es k v" "clears es' = 0"
  shows "current (es @ es') k v"
proof -
  from assms(1) obtain i pre mid where "es = pre @ Start i k # mid" "Finish i k (Some v) \<in> set mid" "clears mid = 0"
    by (auto simp: current_def)
  with assms(2) have "es @ es' = pre @ Start i k # (mid @ es')" "Finish i k (Some v) \<in> set (mid @ es')"
    "clears (mid @ es') = 0" by simp_all
  then show ?thesis unfolding current_def by blast
qed

lemma slot_ok_snoc: "slot_ok es s \<Longrightarrow> clears es' = 0 \<Longrightarrow> slot_ok (es @ es') s"
  by (simp add: slot_ok_def current_snoc)

lemma load_ok_snoc: "load_ok es now r \<Longrightarrow> clears es' = 0 \<Longrightarrow> load_ok (es @ es') now r"
  unfolding load_ok_def
proof (intro allI impI)
  fix i g k
  assume a: "\<forall>i g k. r = Loading i g k \<longrightarrow>
      (\<exists>pre mid. es = pre @ Start i k # mid \<and> now = g + word_of_nat (clears mid))"
    "clears es' = 0" "r = Loading i g k"
  then obtain pre mid where "es = pre @ Start i k # mid" "now = g + word_of_nat (clears mid)" by blast
  with a(2) have "es @ es' = pre @ Start i k # (mid @ es') \<and> now = g + word_of_nat (clears (mid @ es'))" by simp
  then show "\<exists>pre mid. es @ es' = pre @ Start i k # mid \<and> now = g + word_of_nat (clears mid)" by blast
qed

lemma not_loading_ok: "(\<And>i g k. r \<noteq> Loading i g k) \<Longrightarrow> load_ok es now r"
  by (simp add: load_ok_def)

lemma event_counts [simp]:
  "clears [] = 0" "clears [Hit k v] = 0" "clears [Start i k] = 0" "clears [Finish i k r] = 0" "clears [Clear] = 1"
  "starts [] = 0" "starts [Hit k v] = 0" "starts [Start i k] = 1" "starts [Finish i k r] = 0" "starts [Clear] = 0"
  "finishes [] = 0" "finishes [Hit k v] = 0" "finishes [Start i k] = 0" "finishes [Finish i k r] = 1"
  "finishes [Clear] = 0"
  by (simp_all add: count_defs)

lemma fresh_slot: "fresh ttl now k c = Some v \<Longrightarrow> \<exists>at. slot c = Some (k, at, v)"
  by (auto simp: fresh_def split: option.splits if_splits)

lemma stale_slot: "stale k c = Some v \<Longrightarrow> \<exists>at. slot c = Some (k, at, v)"
  by (auto simp: stale_def split: option.splits if_splits)

lemma word_of_nat_zero: "(word_of_nat n :: u64) = 0 \<Longrightarrow> n < 2 ^ 64 \<Longrightarrow> n = 0"
proof -
  assume a: "(word_of_nat n :: u64) = 0" "n < 2 ^ 64"
  have "unat (word_of_nat n :: u64) = n mod 2 ^ 64" by (simp add: unat_of_nat)
  with a show ?thesis by simp
qed

lemma load_returns_current:
  assumes "load_ok es (generation c) (refreshing c)" "refreshing c = Loading i g k" "generation c = g"
    and "clears es < 2 ^ 64"
  shows "current (es @ [Finish i k (Some v)]) k v"
proof -
  from assms(1,2) obtain pre mid where m: "es = pre @ Start i k # mid"
    "generation c = g + word_of_nat (clears mid)" by (auto simp: load_ok_def)
  have "clears mid = 0"
  proof (rule word_of_nat_zero)
    show "(word_of_nat (clears mid) :: u64) = 0" using m(2) assms(3) by simp
    show "clears mid < 2 ^ 64" using assms(4) m(1) by (simp add: clears_def)
  qed
  then have "es @ [Finish i k (Some v)] = pre @ Start i k # (mid @ [Finish i k (Some v)])"
    "clears (mid @ [Finish i k (Some v)]) = 0" by (simp_all add: m(1))
  then show ?thesis unfolding current_def by (metis in_set_conv_decomp)
qed

lemma cleared_load:
  assumes "load_ok es (generation c) (refreshing c)"
  shows "load_ok (es @ [Clear]) (generation c + 1) (refreshing c)"
  unfolding load_ok_def
proof (intro allI impI)
  fix i g k
  assume "refreshing c = Loading i g k"
  with assms obtain pre mid where m: "es = pre @ Start i k # mid"
    "generation c = g + word_of_nat (clears mid)" by (auto simp: load_ok_def)
  then have "es @ [Clear] = pre @ Start i k # (mid @ [Clear]) \<and>
      generation c + 1 = g + word_of_nat (clears (mid @ [Clear]))" by simp
  then show "\<exists>pre mid. es @ [Clear] = pre @ Start i k # mid \<and> generation c + 1 = g + word_of_nat (clears mid)"
    by blast
qed

lemma begun_load: "load_ok (es @ [Start i k]) g (Loading i g k)"
proof -
  have "es @ [Start i k] = es @ Start i k # [] \<and> g = g + word_of_nat (clears [])" by simp
  then show ?thesis unfolding load_ok_def by blast
qed

lemma cache_step_inv:
  assumes "cache_step ttl c es' c'" "cache_inv es c" "clears (es @ es') < 2 ^ 64"
  shows "cache_inv (es @ es') c'"
  using assms
proof (induction rule: cache_step.induct)
  case (load_returns c i g k v now)
  then have inv: "slot_ok es (slot c)" "load_ok es (generation c) (refreshing c)" "count_ok es (refreshing c)"
    by (simp_all add: cache_inv_def)
  have "slot_ok (es @ [Finish i k (Some v)]) (slot (store_if_current g k v now c))"
    using load_returns_current [OF inv(2) load_returns(1)] slot_ok_snoc [OF inv(1)] load_returns(3)
    by (auto simp: store_if_current_def slot_ok_def)
  with inv(3) load_returns(1) show ?case
    by (simp add: cache_inv_def not_loading_ok count_ok_def)
next
  case (cleared c)
  then show ?case by (simp add: cache_inv_def clear_def cleared_load count_ok_def slot_ok_def)
next
  case (begin_load c k)
  then show ?case by (simp add: cache_inv_def begun_load slot_ok_snoc count_ok_def)
qed (simp_all add: cache_inv_def slot_ok_snoc load_ok_snoc not_loading_ok count_ok_def)

lemma cache_run_inv: "cache_run ttl es c \<Longrightarrow> clears es < 2 ^ 64 \<Longrightarrow> cache_inv es c"
proof (induction rule: cache_run.induct)
  case empty_run
  show ?case by (simp add: cache_inv_def new_cache_def slot_ok_def load_ok_def count_ok_def)
next
  case (more es c es' c')
  then show ?case by (auto intro: cache_step_inv)
qed

lemma hit_slot:
  "cache_step ttl c es' c' \<Longrightarrow> Hit k v \<in> set es' \<Longrightarrow> es' = [Hit k v] \<and> (\<exists>at. slot c = Some (k, at, v))"
  by (cases rule: cache_step.cases) (auto dest: fresh_slot stale_slot)

lemma hit_in_run:
  "cache_run ttl es c \<Longrightarrow> es = pre @ Hit k v # post \<Longrightarrow> clears pre < 2 ^ 64 \<Longrightarrow> current pre k v"
proof (induction arbitrary: pre post rule: cache_run.induct)
  case (more es c es' c')
  show ?case
  proof (cases "\<exists>post'. es = pre @ Hit k v # post'")
    case True
    with more show ?thesis by blast
  next
    case False
    with more.prems(1) obtain zs where z: "pre = es @ zs" "es' = zs @ Hit k v # post"
      by (auto simp: append_eq_append_conv2 append_eq_Cons_conv Cons_eq_append_conv)
    with hit_slot [OF more.hyps(2), of k v] have "zs = []" "\<exists>at. slot c = Some (k, at, v)"
      by (auto simp: append_eq_Cons_conv)
    moreover have "cache_inv es c" using cache_run_inv [OF more.hyps(1)] more.prems(2) z(1) by simp
    ultimately show ?thesis using z(1) by (auto simp: cache_inv_def slot_ok_def)
  qed
qed simp

subsection \<open>Properties\<close>

text \<open>
  C16. An invalidation is never undone: in every interleaving of requests, refreshes and
  invalidations (fewer than 2 to the 64 of them, where the generation would wrap), a value served
  from the cache was returned by a load of the same key that began after the last invalidation
  before the hit. Loads that an invalidation overtook are never served from the cache.
\<close>

theorem cache_hits_are_current:
  assumes "cache_run ttl es c" and "es = pre @ Hit k v # post" and "clears pre < 2 ^ 64"
  shows "\<exists>i before after. pre = before @ Start i k # after \<and> Finish i k (Some v) \<in> set after \<and>
    Clear \<notin> set after"
proof -
  have "clears xs = 0 \<Longrightarrow> Clear \<notin> set xs" for xs :: "('a, 'b) event list"
    by (auto simp: clears_def filter_empty_conv)
  with hit_in_run [OF assms] show ?thesis unfolding current_def by blast
qed

text \<open>
  Loads are single-flight: in every run at most one load is in flight, and the number of loads
  begun exceeds the number of loads ended by exactly one while the refresh lock is held by a load.
\<close>

theorem cache_single_flight:
  assumes "cache_run ttl es c" and "clears es < 2 ^ 64"
  shows "starts es = finishes es \<or> starts es = finishes es + 1 \<and> (\<exists>i g k. refreshing c = Loading i g k)"
  using cache_run_inv [OF assms] by (auto simp: cache_inv_def count_ok_def split: refresh.splits)

lemma demo_cache_run:
  "cache_run 10 [Start 0 (), Finish 0 () (Some True), Hit () True]
     \<lparr>generation = 0, slot = Some ((), 3, True), refreshing = Idle, loads = 1\<rparr>"
proof -
  let ?n = "\<lparr>generation = 0, slot = None, refreshing = Idle, loads = 0\<rparr> :: (unit, bool) cache"
  have r0: "cache_run 10 [] ?n" using empty_run [of 10] by (simp add: new_cache_def)
  have s1: "cache_step 10 ?n [] (?n\<lparr>refreshing := Holding ()\<rparr>)" by (rule miss_lock) simp
  have s2: "cache_step 10 (?n\<lparr>refreshing := Holding ()\<rparr>) [] (?n\<lparr>refreshing := Checked ()\<rparr>)"
    using miss_miss [of "?n\<lparr>refreshing := Holding ()\<rparr>" "()" 10 2] by (simp add: fresh_def)
  have s3: "cache_step 10 (?n\<lparr>refreshing := Checked ()\<rparr>) [Start 0 ()] (?n\<lparr>refreshing := Loading 0 0 (), loads := 1\<rparr>)"
    using begin_load [of "?n\<lparr>refreshing := Checked ()\<rparr>" "()" 10] by simp
  have s4: "cache_step 10 (?n\<lparr>refreshing := Loading 0 0 (), loads := 1\<rparr>) [Finish 0 () (Some True)]
      (?n\<lparr>slot := Some ((), 3, True), loads := 1\<rparr>)"
    using load_returns [of "?n\<lparr>refreshing := Loading 0 0 (), loads := 1\<rparr>" 0 0 "()" 10 True 3]
    by (simp add: store_if_current_def)
  have s5: "cache_step 10 (?n\<lparr>slot := Some ((), 3, True), loads := 1\<rparr>) [Hit () True]
      (?n\<lparr>slot := Some ((), 3, True), loads := 1\<rparr>)"
    by (rule fresh_hit [of _ 4]) (simp add: fresh_def)
  from more [OF more [OF more [OF more [OF more [OF r0 s1] s2] s3] s4] s5] show ?thesis by simp
qed

theorem cache_hits_are_current_witness:
  "\<exists>i before after. [Start 0 (), Finish 0 () (Some True)] = before @ Start i () # after \<and>
     Finish i () (Some True) \<in> set after \<and> Clear \<notin> set after"
  by (rule cache_hits_are_current [OF demo_cache_run, of _ _ _ "[]"]) (simp_all add: clears_def)

theorem cache_single_flight_witness:
  "starts [Start 0 (), Finish 0 () (Some True), Hit () True] =
     finishes [Start 0 (), Finish 0 () (Some True), Hit () True]"
  using cache_single_flight [OF demo_cache_run] by (simp add: clears_def)

end
