(* ===== verification/Float64.thy ===== *)
theory Float64
  imports Complex_Main Prelude
begin

section \<open>Double precision arithmetic\<close>

text \<open>
  Rust's \<^verbatim>\<open>f64\<close> on the finite, normal values the sources compute with. A double is the rational
  number it denotes; \<open>fl\<close> rounds a rational to the nearest double, ties to the even significand of
  53 bits, so a source operation \<^verbatim>\<open>a / b\<close> is \<open>fl (a / b)\<close> and a conversion \<^verbatim>\<open>n as f64\<close> is
  \<open>fl (of_int n)\<close>. The exponents in the sources stay far inside the double range (quotients and
  products of 64-bit integers), so overflow, subnormal numbers and the special values do not occur.
\<close>

function bit_count :: "int \<Rightarrow> nat" where
  "bit_count n = (if n \<le> 0 then 0 else Suc (bit_count (n div 2)))"
  by pat_completeness auto
termination by (relation "measure nat") auto

declare bit_count.simps [simp del]

definition pow2 :: "int \<Rightarrow> rat" where
  "pow2 e = (if e \<ge> 0 then 2 ^ nat e else 1 / 2 ^ nat (- e))"

text \<open>The binary exponent: \<open>pow2 (exponent q) \<le> q < pow2 (exponent q + 1)\<close> for positive \<open>q\<close>.\<close>

definition exponent :: "rat \<Rightarrow> int" where
  "exponent q =
     (case quotient_of q of (n, d) \<Rightarrow>
        let e = int (bit_count n) - int (bit_count d)
        in if pow2 e \<le> q then e else e - 1)"

definition round_even :: "rat \<Rightarrow> int" where
  "round_even x =
     (let f = \<lfloor>x\<rfloor>; r = x - of_int f
      in if r < 1 / 2 \<or> (r = 1 / 2 \<and> even f) then f else f + 1)"

definition fl_pos :: "rat \<Rightarrow> rat" where
  "fl_pos q = (let u = pow2 (exponent q - 52) in of_int (round_even (q / u)) * u)"

definition fl :: "rat \<Rightarrow> rat" where
  "fl q = (if q = 0 then 0 else if q > 0 then fl_pos q else - fl_pos (- q))"

text \<open>A stored double, which may also be an infinity or not a number.\<close>

datatype f64 = Finite rat | PosInfinity | NegInfinity | NotANumber

text \<open>A single is the double of the same value, so a cast \<^verbatim>\<open>as f64\<close> leaves it as it is.\<close>

type_synonym f32 = f64

text \<open>\<^verbatim>\<open>f64::round\<close> (halves away from zero), and the truncating cast \<^verbatim>\<open>as i64\<close>, which saturates.\<close>

definition round_f64 :: "rat \<Rightarrow> int" where
  "round_f64 x = (if x \<ge> 0 then \<lfloor>x + 1 / 2\<rfloor> else - \<lfloor>- x + 1 / 2\<rfloor>)"

definition f64_as_i64 :: "rat \<Rightarrow> int" where
  "f64_as_i64 x = max (- (2 ^ 63)) (min (2 ^ 63 - 1) (if x \<ge> 0 then \<lfloor>x\<rfloor> else - \<lfloor>- x\<rfloor>))"

text \<open>Sums, quotients by a positive count, and comparisons with a constant, on stored doubles.\<close>

fun f64_add :: "f64 \<Rightarrow> f64 \<Rightarrow> f64" where
  "f64_add (Finite a) (Finite b) = Finite (fl (a + b))"
| "f64_add NotANumber y = NotANumber"
| "f64_add x NotANumber = NotANumber"
| "f64_add PosInfinity NegInfinity = NotANumber"
| "f64_add NegInfinity PosInfinity = NotANumber"
| "f64_add PosInfinity y = PosInfinity"
| "f64_add NegInfinity y = NegInfinity"
| "f64_add x PosInfinity = PosInfinity"
| "f64_add x NegInfinity = NegInfinity"

definition f64_div_count :: "f64 \<Rightarrow> nat \<Rightarrow> f64" where
  "f64_div_count x n = (case x of Finite a \<Rightarrow> Finite (fl (a / fl (of_nat n))) | _ \<Rightarrow> x)"

definition f64_le :: "f64 \<Rightarrow> rat \<Rightarrow> bool" where
  "f64_le x c = (case x of Finite a \<Rightarrow> a \<le> c | NegInfinity \<Rightarrow> True | _ \<Rightarrow> False)"

definition f64_gt :: "f64 \<Rightarrow> rat \<Rightarrow> bool" where
  "f64_gt x c = (case x of Finite a \<Rightarrow> a > c | PosInfinity \<Rightarrow> True | _ \<Rightarrow> False)"

definition f64_ge :: "f64 \<Rightarrow> rat \<Rightarrow> bool" where
  "f64_ge x c = (case x of Finite a \<Rightarrow> a \<ge> c | PosInfinity \<Rightarrow> True | _ \<Rightarrow> False)"

definition f64_lt :: "f64 \<Rightarrow> rat \<Rightarrow> bool" where
  "f64_lt x c = (case x of Finite a \<Rightarrow> a < c | NegInfinity \<Rightarrow> True | _ \<Rightarrow> False)"

definition f64_abs :: "f64 \<Rightarrow> f64" where
  "f64_abs x = (case x of Finite a \<Rightarrow> Finite \<bar>a\<bar> | NegInfinity \<Rightarrow> PosInfinity | _ \<Rightarrow> x)"

definition f64_greater :: "f64 \<Rightarrow> f64 \<Rightarrow> bool" where
  "f64_greater x y =
     (case (x, y) of
        (Finite a, Finite b) \<Rightarrow> a > b
      | (PosInfinity, Finite b) \<Rightarrow> True
      | (PosInfinity, NegInfinity) \<Rightarrow> True
      | (Finite a, NegInfinity) \<Rightarrow> True
      | _ \<Rightarrow> False)"

definition f64_abs_lt :: "f64 \<Rightarrow> rat \<Rightarrow> bool" where
  "f64_abs_lt x c = (case x of Finite a \<Rightarrow> \<bar>a\<bar> < c | _ \<Rightarrow> False)"

text \<open>
  \<^verbatim>\<open>str::parse::<f64>\<close>: an optional sign, then an infinity, not a number, or digits with an optional point
  and an optional exponent. A magnitude that rounds beyond the largest double is an infinity.
\<close>

definition f64_of_rat :: "rat \<Rightarrow> f64" where
  "f64_of_rat q =
     (if q \<ge> 2 ^ 1024 - 2 ^ 970 then PosInfinity else if - q \<ge> 2 ^ 1024 - 2 ^ 970 then NegInfinity else Finite (fl q))"

definition digits_nat :: "ustr \<Rightarrow> nat" where
  "digits_nat ds = foldl (\<lambda>a c. a * 10 + nat (c - 48)) 0 ds"

definition parse_exponent :: "ustr \<Rightarrow> rat option" where
  "parse_exponent s =
     (case s of [] \<Rightarrow> Some 1
      | c # r \<Rightarrow>
          if c = 101 \<or> c = 69
          then let (neg, ds) = (case r of d # r' \<Rightarrow> if d = 45 then (True, r') else if d = 43 then (False, r') else (False, r)
                                | [] \<Rightarrow> (False, []))
               in if ds \<noteq> [] \<and> list_all is_digit ds
                  then Some (if neg then 1 / 10 ^ digits_nat ds else 10 ^ digits_nat ds) else None
          else None)"

definition parse_decimal :: "ustr \<Rightarrow> rat option" where
  "parse_decimal s =
     (let whole = takeWhile is_digit s; r1 = dropWhile is_digit s;
          (frac, r2) = (case r1 of c # r \<Rightarrow> if c = 46 then (takeWhile is_digit r, dropWhile is_digit r) else ([], r1) | [] \<Rightarrow> ([], []))
      in if whole = [] \<and> frac = [] then None
         else map_option (\<lambda>e. of_nat (digits_nat (whole @ frac)) / 10 ^ length frac * e) (parse_exponent r2))"

definition parse_f64 :: "ustr \<Rightarrow> f64 option" where
  "parse_f64 s =
     (let (neg, body) = (case s of c # r \<Rightarrow> if c = 45 then (True, r) else if c = 43 then (False, r) else (False, s) | [] \<Rightarrow> (False, []));
          low = map ascii_lower body
      in if low = lit ''inf'' \<or> low = lit ''infinity'' then Some (if neg then NegInfinity else PosInfinity)
         else if low = lit ''nan'' then Some NotANumber
         else map_option (\<lambda>q. f64_of_rat (if neg then - q else q)) (parse_decimal body))"

section \<open>Lemmas\<close>

lemma f64_greater_finite [simp]: "f64_greater (Finite a) (Finite b) \<longleftrightarrow> a > b"
  by (simp add: f64_greater_def)

lemma pow2_pos [simp]: "0 < pow2 e"
  by (simp add: pow2_def)

lemma pow2_nonzero [simp]: "pow2 e \<noteq> 0"
  using pow2_pos [of e] by linarith

lemma pow2_of_nat [simp]: "pow2 (int n) = 2 ^ n"
  by (simp add: pow2_def)

lemma pow2_Suc: "pow2 (e + 1) = 2 * pow2 e"
proof (cases "e \<ge> 0")
  case True
  then show ?thesis by (simp add: pow2_def nat_add_distrib)
next
  case False
  then have "nat (- e) = Suc (nat (- (e + 1)))" by simp
  with False show ?thesis by (cases "e = -1") (auto simp: pow2_def)
qed

lemma pow2_add: "pow2 (a + b) = pow2 a * pow2 b"
proof (induction b rule: int_induct [where k = 0])
  case base
  show ?case by (simp add: pow2_def)
next
  case (step1 i)
  have "pow2 (a + (i + 1)) = 2 * pow2 (a + i)" using pow2_Suc [of "a + i"] by (simp add: add.assoc)
  with step1 show ?case by (simp add: pow2_Suc)
next
  case (step2 i)
  have "pow2 (a + i) = 2 * pow2 (a + (i - 1))" using pow2_Suc [of "a + (i - 1)"] by (simp add: add.assoc)
  moreover have "pow2 i = 2 * pow2 (i - 1)" using pow2_Suc [of "i - 1"] by simp
  ultimately show ?case using step2 by simp
qed

lemma bit_count_bounds: "0 < n \<Longrightarrow> 2 ^ (bit_count n - 1) \<le> n \<and> n < 2 ^ bit_count n \<and> 0 < bit_count n"
proof (induction n rule: bit_count.induct)
  case (1 n)
  show ?case
  proof (cases "n div 2 = 0")
    case True
    with 1 have "n = 1" by simp
    then show ?thesis by (simp add: bit_count.simps)
  next
    case False
    with 1 have "2 ^ (bit_count (n div 2) - 1) \<le> n div 2" "n div 2 < 2 ^ bit_count (n div 2)" "0 < bit_count (n div 2)"
      by auto
    moreover have "bit_count n = Suc (bit_count (n div 2))" using 1 by (subst bit_count.simps) simp
    ultimately show ?thesis by (cases "bit_count (n div 2)") auto
  qed
qed

lemma exponent_bounds:
  assumes "0 < q"
  shows "pow2 (exponent q) \<le> q \<and> q < pow2 (exponent q + 1)"
proof -
  obtain n d where nd: "quotient_of q = (n, d)" by fastforce
  from quotient_of_denom_pos [OF nd] have d: "0 < d" .
  from quotient_of_div [OF nd] have q: "q = of_int n / of_int d" .
  with assms d have n: "0 < n" by (simp add: zero_less_divide_iff)
  let ?a = "bit_count n" and ?b = "bit_count d"
  have "2 ^ (?a - 1) \<le> n" "n < 2 ^ ?a" and A: "0 < ?a" and "2 ^ (?b - 1) \<le> d" "d < 2 ^ ?b" and B: "0 < ?b"
    using bit_count_bounds [OF n] bit_count_bounds [OF d] by auto
  then have N: "(2::rat) ^ (?a - 1) \<le> of_int n" "of_int n < (2::rat) ^ ?a" "0 < ?a"
    and D: "(2::rat) ^ (?b - 1) \<le> of_int d" "of_int d < (2::rat) ^ ?b" "0 < ?b"
    by (metis of_int_le_iff of_int_less_iff of_int_numeral of_int_power)+
  have pa: "pow2 (int ?a - int ?b) * 2 ^ ?b = 2 ^ ?a"
    using pow2_add [of "int ?a - int ?b" "int ?b"] by simp
  have qd: "q * of_int d = of_int n" using q d by simp
  have up: "q < pow2 (int ?a - int ?b + 1)"
  proof -
    have "q * 2 ^ (?b - 1) \<le> q * of_int d" using D assms by (intro mult_left_mono) auto
    also have "\<dots> < 2 ^ ?a" using qd N by simp
    also have "\<dots> = pow2 (int ?a - int ?b + 1) * 2 ^ (?b - 1)"
    proof -
      have "(2::rat) ^ ?b = 2 * 2 ^ (?b - 1)" using D(3) by (simp add: power_eq_if)
      then show ?thesis using pa by (simp add: pow2_Suc)
    qed
    finally show ?thesis by simp
  qed
  have lo: "pow2 (int ?a - int ?b - 1) \<le> q"
  proof -
    have "pow2 (int ?a - int ?b - 1) * 2 ^ ?b = 2 ^ (?a - 1)"
      using pow2_add [of "int ?a - int ?b - 1" "int ?b"] N(3) by (simp add: pow2_def nat_diff_distrib)
    also have "\<dots> \<le> q * of_int d" using qd N by simp
    also have "\<dots> \<le> q * 2 ^ ?b" using D assms by (intro mult_left_mono) auto
    finally show ?thesis by simp
  qed
  show ?thesis using up lo by (auto simp: exponent_def nd Let_def)
qed

lemma round_even_of_int [simp]: "round_even (of_int i) = i"
  by (simp add: round_even_def)

lemma round_even_mono: "x \<le> y \<Longrightarrow> round_even x \<le> round_even y"
proof -
  assume xy: "x \<le> y"
  then have f: "\<lfloor>x\<rfloor> \<le> \<lfloor>y\<rfloor>" by (rule floor_mono)
  show ?thesis
  proof (cases "\<lfloor>x\<rfloor> = \<lfloor>y\<rfloor>")
    case True
    with xy show ?thesis by (auto simp: round_even_def Let_def)
  next
    case False
    with f have "\<lfloor>x\<rfloor> + 1 \<le> \<lfloor>y\<rfloor>" by simp
    then show ?thesis by (auto simp: round_even_def Let_def)
  qed
qed

lemma round_even_near: "\<bar>of_int (round_even x) - x\<bar> \<le> 1 / 2"
proof -
  obtain r where r: "x = of_int \<lfloor>x\<rfloor> + r" "0 \<le> r" "r < 1"
    using that [of "x - of_int \<lfloor>x\<rfloor>"] by linarith
  then have e: "x - of_int \<lfloor>x\<rfloor> = r" by linarith
  show ?thesis
  proof (cases "r < 1 / 2 \<or> (r = 1 / 2 \<and> even \<lfloor>x\<rfloor>)")
    case True
    then have "of_int (round_even x) - x = - r" unfolding round_even_def Let_def e by simp (use e in linarith)
    with True r show ?thesis by auto
  next
    case False
    then have "of_int (round_even x) - x = 1 - r" unfolding round_even_def Let_def e by simp (use e in linarith)
    with False r show ?thesis by auto
  qed
qed

text \<open>A double below two to the 53 that is an integer is exact.\<close>

lemma fl_of_int:
  assumes "\<bar>i\<bar> < 2 ^ 53"
  shows "fl (of_int i) = of_int i"
proof -
  have pos: "fl_pos (of_int k) = of_int k" if k: "0 < k" "k < 2 ^ 53" for k
  proof -
    let ?q = "of_int k :: rat"
    have "pow2 (exponent ?q) < pow2 53"
    proof -
      have "pow2 (exponent ?q) \<le> ?q" using exponent_bounds [of ?q] k by simp
      also have "\<dots> < of_int (2 ^ 53)" using k(2) by (simp only: of_int_less_iff)
      finally show ?thesis by (simp add: pow2_def)
    qed
    moreover have "pow2 53 \<le> pow2 e" if "53 \<le> e" for e
      using that pow2_add [of 53 "e - 53"] by (simp add: pow2_def power_le_one_iff)
    ultimately have e: "exponent ?q - 52 \<le> 0" using leD by (cases "53 \<le> exponent ?q") (blast, simp)
    obtain j where j: "?q / pow2 (exponent ?q - 52) = of_int j"
      using e by (intro that [of "k * 2 ^ nat (- (exponent ?q - 52))"])
        (cases "exponent ?q - 52 = 0", simp_all add: pow2_def)
    then show ?thesis by (simp add: fl_pos_def Let_def) (metis j nonzero_divide_eq_eq pow2_nonzero)
  qed
  show ?thesis
    using pos [of i] pos [of "- i"] assms by (cases i "0 :: int" rule: linorder_cases) (auto simp: fl_def)
qed

lemma fl_small [simp]:
  "numeral n < (2 ^ 53 :: int) \<Longrightarrow> fl (numeral n) = numeral n" "fl 0 = 0" "fl 1 = 1"
  using fl_of_int [of "numeral n"] fl_of_int [of 0] fl_of_int [of 1] by simp_all

lemma fl_nonneg [simp]:
  assumes "0 \<le> q"
  shows "0 \<le> fl q"
proof -
  have "0 \<le> round_even (q / pow2 (exponent q - 52))"
    using round_even_mono [of 0 "q / pow2 (exponent q - 52)"] round_even_of_int [of 0] assms
    by (simp add: order_less_imp_le)
  then have "0 \<le> fl_pos q" unfolding fl_pos_def Let_def by (intro mult_nonneg_nonneg) (simp_all add: order_less_imp_le)
  with assms show ?thesis by (simp add: fl_def)
qed

text \<open>The relative error of one rounding is at most two to the minus 53.\<close>

lemma fl_error: "\<bar>fl q - q\<bar> \<le> \<bar>q\<bar> / 2 ^ 53"
proof -
  have pos: "\<bar>fl_pos r - r\<bar> \<le> r / 2 ^ 53" if r: "0 < r" for r
  proof -
    let ?u = "pow2 (exponent r - 52)"
    have "fl_pos r - r = (of_int (round_even (r / ?u)) - r / ?u) * ?u"
      by (simp add: fl_pos_def Let_def algebra_simps)
    then have "\<bar>fl_pos r - r\<bar> = \<bar>of_int (round_even (r / ?u)) - r / ?u\<bar> * ?u"
      by (simp add: abs_mult abs_of_pos)
    also have "\<dots> \<le> 1 / 2 * ?u" using round_even_near by (intro mult_right_mono) (auto intro: less_imp_le)
    also have "\<dots> = pow2 (exponent r) / 2 ^ 53"
      using pow2_add [of "exponent r - 52" 52] by (simp add: pow2_def)
    also have "\<dots> \<le> r / 2 ^ 53" using exponent_bounds [OF r] by (simp add: divide_right_mono)
    finally show ?thesis .
  qed
  show ?thesis
    using pos [of q] pos [of "- q"]
    by (cases q "0 :: rat" rule: linorder_cases) (auto simp: fl_def abs_minus_commute abs_if split: if_splits)
qed

lemma pow2_less: "e < e' \<Longrightarrow> pow2 e < pow2 e'"
proof -
  assume e: "e < e'"
  have "(1 :: rat) < 2 ^ nat (e' - e)" using e by (intro one_less_power) simp_all
  then have "pow2 e * 1 < pow2 e * pow2 (int (nat (e' - e)))" unfolding pow2_of_nat by (intro mult_strict_left_mono) simp_all
  then show ?thesis using e pow2_add [of e "int (nat (e' - e))"] by simp
qed

lemma pow2_le: "e \<le> e' \<Longrightarrow> pow2 e \<le> pow2 e'"
  using pow2_less [of e e'] by (cases "e = e'") auto

lemma exponent_unique:
  assumes "0 < q" and "pow2 e \<le> q" and "q < pow2 (e + 1)"
  shows "exponent q = e"
proof (rule antisym)
  show "exponent q \<le> e"
    using exponent_bounds [OF assms(1)] pow2_le [of "e + 1" "exponent q"] assms(3) by (cases "exponent q \<le> e") auto
  show "e \<le> exponent q"
    using exponent_bounds [OF assms(1)] pow2_le [of "exponent q + 1" e] assms(2) by (cases "e \<le> exponent q") auto
qed

text \<open>Halving is exact.\<close>

lemma fl_half: "0 < q \<Longrightarrow> fl (q / 2) = fl q / 2"
proof -
  assume q: "0 < q"
  have h: "pow2 (e - 1) = pow2 e / 2" for e using pow2_Suc [of "e - 1"] by simp
  have e: "exponent (q / 2) = exponent q - 1"
    using q exponent_bounds [OF q] h [of "exponent q"] h [of "exponent q + 1"] by (intro exponent_unique) simp_all
  have u: "pow2 (exponent q - 53) = pow2 (exponent q - 52) / 2" using h [of "exponent q - 52"] by (simp add: algebra_simps)
  show ?thesis using q by (simp add: fl_def fl_pos_def Let_def e u)
qed

lemma fl_upper: "0 \<le> x \<Longrightarrow> fl x \<le> x + x / 2 ^ 53"
  and fl_lower: "0 \<le> x \<Longrightarrow> x - x / 2 ^ 53 \<le> fl x"
  using fl_error [of x] unfolding abs_le_iff by simp_all

text \<open>Rounding is monotone.\<close>

lemma fl_pos_between:
  assumes "0 < q"
  shows "pow2 (exponent q) \<le> fl_pos q \<and> fl_pos q \<le> pow2 (exponent q + 1)"
proof -
  let ?u = "pow2 (exponent q - 52)"
  have u: "pow2 (exponent q) = 2 ^ 52 * ?u" "pow2 (exponent q + 1) = 2 ^ 53 * ?u"
    using pow2_add [of 52 "exponent q - 52"] pow2_add [of 53 "exponent q - 52"] pow2_of_nat [of 52] pow2_of_nat [of 53]
    by (simp_all add: add.commute)
  have "2 ^ 52 \<le> q / ?u" "q / ?u \<le> 2 ^ 53"
    using exponent_bounds [OF assms] unfolding u by (simp_all add: le_divide_eq divide_le_eq)
  then have "round_even (of_int (2 ^ 52)) \<le> round_even (q / ?u)" "round_even (q / ?u) \<le> round_even (of_int (2 ^ 53))"
    by (intro round_even_mono; simp)+
  then have "2 ^ 52 \<le> round_even (q / ?u)" "round_even (q / ?u) \<le> 2 ^ 53" unfolding round_even_of_int by simp_all
  then have "(2::rat) ^ 52 \<le> of_int (round_even (q / ?u))" "of_int (round_even (q / ?u)) \<le> (2::rat) ^ 53"
    by (metis of_int_le_iff of_int_numeral of_int_power)+
  then show ?thesis unfolding u fl_pos_def Let_def by simp
qed

lemma fl_pos_mono:
  assumes "0 < x" "x \<le> y"
  shows "fl_pos x \<le> fl_pos y"
proof (cases "exponent x = exponent y")
  case True
  have "round_even (x / pow2 (exponent y - 52)) \<le> round_even (y / pow2 (exponent y - 52))"
    using assms(2) by (intro round_even_mono divide_right_mono) (simp_all add: order_less_imp_le)
  then show ?thesis using True by (simp add: fl_pos_def Let_def)
next
  case False
  have bx: "pow2 (exponent x) \<le> x" and by': "y < pow2 (exponent y + 1)"
    using exponent_bounds assms by auto
  have "pow2 (exponent x) < pow2 (exponent y + 1)" using bx by' assms(2) by linarith
  then have "exponent x + 1 \<le> exponent y"
    using pow2_le [of "exponent y + 1" "exponent x"] False by (cases "exponent y + 1 \<le> exponent x") auto
  then have "pow2 (exponent x + 1) \<le> pow2 (exponent y)" by (rule pow2_le)
  then show ?thesis using fl_pos_between [of x] fl_pos_between [of y] assms by linarith
qed

lemma fl_mono: "x \<le> y \<Longrightarrow> fl x \<le> fl y"
proof -
  assume xy: "x \<le> y"
  have neg: "fl z \<le> 0" if "z \<le> 0" for z using fl_nonneg [of "- z"] that by (auto simp: fl_def split: if_splits)
  consider "0 < x" | "x \<le> 0" "0 \<le> y" | "y < 0" by linarith
  then show ?thesis
  proof cases
    case 1
    then show ?thesis using fl_pos_mono [OF 1 xy] xy by (simp add: fl_def)
  next
    case 2
    then show ?thesis using neg [of x] fl_nonneg [of y] by linarith
  next
    case 3
    then show ?thesis using fl_pos_mono [of "- y" "- x"] xy by (simp add: fl_def)
  qed
qed

end
