(* ===== verification/AwayMode.thy ===== *)
theory AwayMode
  imports Prelude Float64
begin

section \<open>The hotspot's modes\<close>

text \<open>
  \<^verbatim>\<open>crates/api/src/away_mode.rs\<close>: the timer and the geofence that turn the hotspot on and off. The
  handlers of the requests, the watchers and the jobs that drive the radio run concurrently and share
  the state \<open>inner\<close> under a mutex; a second mutex serialises the radio. The text between two locks is
  one definition on the \<open>world\<close> (the shared state, the flag file, the setting, the tasks in progress and
  what the last radio command reported), and \<open>away_step\<close> lets the tasks interleave at every lock.

  \<^verbatim>\<open>SystemTime\<close> and \<^verbatim>\<open>Instant\<close> are integers of nanoseconds and may take any value at any step, so the
  wall clock may jump. A time stored as text is the number of seconds it is read back as, or \<open>None\<close> for a
  text that is not a time. The counters of generations and epochs do not overflow. Writing the flag
  file may fail; removing it succeeds. What the commands of the radio do is left open: they return a
  result, and \<open>radio\<close> records it.
\<close>

subsection \<open>State\<close>

datatype away_kind = Manual | Auto
datatype timer_state = Idle | Active
datatype ap_phase_kind = Off | Starting | On

definition ns_per_sec :: int where "ns_per_sec = 1000000000"
definition max_duration_min :: nat where "max_duration_min = 24 * 60"
definition default_home_radius_m :: rat where "default_home_radius_m = 120"
definition stale_fix_sec :: int where "stale_fix_sec = 900"
definition confirm_ticks :: nat where "confirm_ticks = 2"

record flag_data =
  flag_expires_at :: "int option"
  flag_enabled_at :: "int option"
  flag_remaining_sec :: int
  flag_has_rtc :: bool

datatype flag_file = FlagJson flag_data | FlagInvalid

record inner =
  mode :: away_kind
  state :: timer_state
  has_rtc :: bool
  expires_at :: "int option"
  enabled_at :: "int option"
  last_is_home :: "bool option"
  pending_is_home :: "bool option"
  pending_count :: nat
  stop :: nat
  epoch :: nat
  ap_phase :: ap_phase_kind
  ap_generation :: nat
  ap_start_error :: "ustr option"
  retry_at :: "int option"

definition mgr :: "bool \<Rightarrow> inner" where
  "mgr rtc = \<lparr>mode = Manual, state = Idle, has_rtc = rtc, expires_at = None, enabled_at = None,
     last_is_home = None, pending_is_home = None, pending_count = 0, stop = 0, epoch = 0, ap_phase = Off,
     ap_generation = 0, ap_start_error = None, retry_at = None\<rparr>"

text \<open>
  The tasks in progress, by the point they have reached. A start or stop job carries its generation:
  waiting for the radio, running the command, cleaning up after a start, about to report. A watcher
  carries the notification it listens to and its epoch. A request is in progress between its checks
  and the lock under which it takes effect.
\<close>

datatype watch_kind = Timer | Geofence
datatype watch_pc = Sleeping | Check0 | CheckWait nat | CheckRun nat | CheckFinish nat ustr | Tick

datatype task =
    StartWait nat
  | StartRun nat
  | StartClean nat "ustr + unit"
  | StartFinish nat "ustr + unit"
  | StopWait nat
  | StopRun nat
  | StopFinish nat ustr
  | Watcher watch_kind nat nat watch_pc
  | EnableReq nat
  | ModeReq bool

datatype radio = HotspotDown | HotspotUp | Unsettled

record world =
  w_inner :: inner
  flag :: "flag_file option"
  auto_config :: bool
  tasks :: "task list"
  radio :: radio
  stops :: nat
  notified :: "nat list"

fun holds :: "task \<Rightarrow> bool" where
  "holds (StartRun _) = True"
| "holds (StartClean _ _) = True"
| "holds (StartFinish _ _) = True"
| "holds (StopRun _) = True"
| "holds (StopFinish _ _) = True"
| "holds (Watcher _ _ _ (CheckRun _)) = True"
| "holds (Watcher _ _ _ (CheckFinish _ _)) = True"
| "holds _ = False"

definition radio_free :: "world \<Rightarrow> bool" where
  "radio_free w \<longleftrightarrow> filter holds (tasks w) = []"

subsection \<open>The flag file\<close>

definition to_rfc3339 :: "int \<Rightarrow> int option" where
  "to_rfc3339 t = Some (t div ns_per_sec)"

definition from_rfc3339 :: "int option \<Rightarrow> int option" where
  "from_rfc3339 s = map_option (\<lambda>x. x * ns_per_sec) s"

definition remaining_seconds :: "int \<Rightarrow> int \<Rightarrow> int" where
  "remaining_seconds now expires = (if now \<le> expires then (expires - now) div ns_per_sec else 0)"

definition write_flag_file :: "bool \<Rightarrow> int \<Rightarrow> world \<Rightarrow> world" where
  "write_flag_file wr now w =
     (let i = w_inner w
      in case expires_at i of None \<Rightarrow> w
         | Some e \<Rightarrow> let enabled = (case enabled_at i of Some t \<Rightarrow> t | None \<Rightarrow> now)
             in if wr then w\<lparr>flag := Some (FlagJson \<lparr>flag_expires_at = to_rfc3339 e, flag_enabled_at = to_rfc3339 enabled,
                                 flag_remaining_sec = remaining_seconds now e, flag_has_rtc = has_rtc i\<rparr>)\<rparr>
                else w)"

definition write_auto_flag_file :: "bool \<Rightarrow> int \<Rightarrow> world \<Rightarrow> world" where
  "write_auto_flag_file wr now w =
     (if wr then w\<lparr>flag := Some (FlagJson \<lparr>flag_expires_at = None, flag_enabled_at = to_rfc3339 now,
                      flag_remaining_sec = 0, flag_has_rtc = False\<rparr>)\<rparr>
      else w)"

definition remove_flag_file :: "world \<Rightarrow> world" where
  "remove_flag_file w = w\<lparr>flag := None\<rparr>"

definition notify_waiters :: "world \<Rightarrow> world" where
  "notify_waiters w = w\<lparr>notified := stop (w_inner w) # notified w\<rparr>"

text \<open>A new \<^verbatim>\<open>Notify\<close> object and the next epoch, as every start of a watcher takes them.\<close>

definition fresh_stop :: "world \<Rightarrow> world" where
  "fresh_stop w = w\<lparr>w_inner := (w_inner w)\<lparr>stop := stops w, epoch := Suc (epoch (w_inner w))\<rparr>, stops := Suc (stops w)\<rparr>"

definition spawn :: "task \<Rightarrow> world \<Rightarrow> world" where
  "spawn t w = w\<lparr>tasks := t # tasks w\<rparr>"

definition spawn_watch :: "watch_kind \<Rightarrow> world \<Rightarrow> world" where
  "spawn_watch k w = spawn (Watcher k (stop (w_inner w)) (epoch (w_inner w)) Sleeping) w"

subsection \<open>The jobs of the radio\<close>

definition request_ap_start :: "world \<Rightarrow> world" where
  "request_ap_start w =
     (let g = Suc (ap_generation (w_inner w))
      in spawn (StartWait g) (w\<lparr>w_inner := (w_inner w)\<lparr>ap_generation := g, ap_phase := Starting,
           ap_start_error := None, retry_at := None\<rparr>\<rparr>))"

definition request_ap_stop :: "world \<Rightarrow> world" where
  "request_ap_stop w =
     (let g = Suc (ap_generation (w_inner w))
      in spawn (StopWait g) (w\<lparr>w_inner := (w_inner w)\<lparr>ap_generation := g, ap_phase := Off,
           ap_start_error := None, retry_at := None\<rparr>\<rparr>))"

definition finish_ap_start :: "int \<Rightarrow> nat \<Rightarrow> ustr + unit \<Rightarrow> world \<Rightarrow> world \<times> bool" where
  "finish_ap_start inst generation result w =
     (let i = w_inner w
      in if ap_generation i \<noteq> generation then (w, False)
         else case result of
             Inr _ \<Rightarrow> (w\<lparr>w_inner := i\<lparr>ap_phase := On\<rparr>\<rparr>, False)
           | Inl e \<Rightarrow>
               (let i = i\<lparr>ap_phase := Off, ap_start_error := Some e, retry_at := Some (inst + 60 * ns_per_sec)\<rparr>
                in if mode i = Manual
                   then (notify_waiters (w\<lparr>w_inner := i\<lparr>state := Idle, enabled_at := None, expires_at := None,
                           epoch := Suc (epoch i)\<rparr>\<rparr>), True)
                   else (w\<lparr>w_inner := i\<rparr>, True)))"

definition complete_ap_start :: "int \<Rightarrow> nat \<Rightarrow> ustr + unit \<Rightarrow> world \<Rightarrow> world" where
  "complete_ap_start inst generation result w =
     (case finish_ap_start inst generation result w of (w', failed) \<Rightarrow> if failed then remove_flag_file w' else w')"

definition started_radio :: "ustr + unit \<Rightarrow> radio" where
  "started_radio r = (if is_ok r then HotspotUp else Unsettled)"

definition stopped_radio :: "ustr + unit \<Rightarrow> radio" where
  "stopped_radio r = (if is_ok r then HotspotDown else Unsettled)"

text \<open>The result a start job reports once it has cleaned up.\<close>

definition cleaned_result :: "ustr + unit \<Rightarrow> ustr + unit \<Rightarrow> ustr + unit" where
  "cleaned_result result stopped =
     (case stopped of Inr _ \<Rightarrow> result
      | Inl e \<Rightarrow> Inl ((case result of Inl m \<Rightarrow> m | Inr _ \<Rightarrow> lit ''Hotspot startup was canceled'') @
                    lit ''; WiFi recovery failed: '' @ e))"

definition check_message :: "ustr \<Rightarrow> ustr + unit \<Rightarrow> ustr" where
  "check_message m stopped = (case stopped of Inr _ \<Rightarrow> m | Inl c \<Rightarrow> m @ lit ''; WiFi recovery failed: '' @ c)"

definition report_stop_error :: "nat \<Rightarrow> ustr \<Rightarrow> world \<Rightarrow> world" where
  "report_stop_error generation e w =
     (if ap_generation (w_inner w) = generation then w\<lparr>w_inner := (w_inner w)\<lparr>ap_start_error := Some e\<rparr>\<rparr> else w)"

subsection \<open>The geofence\<close>

text \<open>
  The multiplication \<^verbatim>\<open>0.15 * radius_m\<close> is exact arithmetic rounded to double precision; the literal is
  the double next to 0.15. A distance that is not a number is in neither band.
\<close>

definition clamp_margin :: "rat \<Rightarrow> rat" where
  "clamp_margin m = (if m < 15 then 15 else if 60 < m then 60 else m)"

fun band_is_home :: "f64 \<Rightarrow> f64 \<Rightarrow> bool option" where
  "band_is_home (Finite d) (Finite r) =
     (let margin = clamp_margin (fl (fl (15 / 100) * r))
      in if d < fl (r - margin) then Some True else if fl (r + margin) < d then Some False else None)"
| "band_is_home (Finite _) PosInfinity = Some True"
| "band_is_home (Finite _) NegInfinity = Some False"
| "band_is_home PosInfinity (Finite _) = Some False"
| "band_is_home PosInfinity NegInfinity = Some False"
| "band_is_home NegInfinity (Finite _) = Some True"
| "band_is_home NegInfinity PosInfinity = Some True"
| "band_is_home _ _ = None"

definition fold_geofence ::
  "bool option \<Rightarrow> bool option \<Rightarrow> bool option \<Rightarrow> nat \<Rightarrow> bool option \<times> bool option \<times> nat" where
  "fold_geofence candidate last_home pending n =
     (case candidate of None \<Rightarrow> (None, None, 0)
      | Some cand \<Rightarrow>
          if Some cand = last_home then (None, None, 0)
          else let n' = (if pending = Some cand then min 255 (n + 1) else 1)
               in if n' \<ge> confirm_ticks then (Some cand, None, 0) else (None, Some cand, n'))"

definition auto_seed_decision :: "bool \<Rightarrow> bool option" where
  "auto_seed_decision flag_exists = Some (\<not> flag_exists)"

definition should_start_ap_on_boot :: "bool \<Rightarrow> bool" where
  "should_start_ap_on_boot flag_exists \<longleftrightarrow> auto_seed_decision flag_exists = Some False"

text \<open>
  A fix is given by its distance from the home centre (\<open>None\<close> when no centre is set) and its age in
  seconds.
\<close>

definition geofence_candidate :: "(f64 option \<times> int) option \<Rightarrow> f64 \<Rightarrow> bool option" where
  "geofence_candidate fix_opt radius_m =
     (case fix_opt of Some (Some d, age) \<Rightarrow> if age \<le> stale_fix_sec then band_is_home d radius_m else None
      | _ \<Rightarrow> None)"

definition home_radius :: "f64 option \<Rightarrow> f64" where
  "home_radius configured =
     (case configured of
        Some (Finite r) \<Rightarrow> if r > 0 then Finite r else Finite default_home_radius_m
      | Some PosInfinity \<Rightarrow> PosInfinity
      | _ \<Rightarrow> Finite default_home_radius_m)"

definition auto_eval_tick :: "bool \<Rightarrow> int \<Rightarrow> int \<Rightarrow> bool option \<Rightarrow> nat \<Rightarrow> world \<Rightarrow> world" where
  "auto_eval_tick wr now inst candidate my_epoch w =
     (let i = w_inner w
      in if mode i \<noteq> Auto \<or> epoch i \<noteq> my_epoch then w
         else case fold_geofence candidate (last_is_home i) (pending_is_home i) (pending_count i) of
           (decision, pending, n) \<Rightarrow>
             let w1 = w\<lparr>w_inner := i\<lparr>pending_is_home := pending, pending_count := n\<rparr>\<rparr>
             in case decision of
                  Some is_home \<Rightarrow>
                    let w2 = w1\<lparr>w_inner := (w_inner w1)\<lparr>last_is_home := Some is_home\<rparr>\<rparr>
                    in if is_home then request_ap_stop (remove_flag_file w2)
                       else request_ap_start (write_auto_flag_file wr now w2)
                | None \<Rightarrow>
                    if candidate = Some False \<and> last_is_home i = Some False \<and> ap_phase i = Off \<and>
                       (case retry_at i of Some t \<Rightarrow> inst \<ge> t | None \<Rightarrow> False)
                    then request_ap_start (write_auto_flag_file wr now w1) else w1)"

subsection \<open>The timer\<close>

text \<open>The locked part of a tick of the timer; the watcher returns when the second component holds.\<close>

definition timer_tick :: "bool \<Rightarrow> int \<Rightarrow> nat \<Rightarrow> world \<Rightarrow> world \<times> bool" where
  "timer_tick wr now my_epoch w =
     (let i = w_inner w
      in if state i \<noteq> Active \<or> epoch i \<noteq> my_epoch then (w, True)
         else if (case expires_at i of None \<Rightarrow> True | Some e \<Rightarrow> now \<ge> e)
         then (request_ap_stop (remove_flag_file (w\<lparr>w_inner := i\<lparr>state := Idle, expires_at := None, enabled_at := None\<rparr>\<rparr>)), True)
         else (write_flag_file wr now w, False))"

definition restore_from_file :: "bool \<Rightarrow> int \<Rightarrow> world \<Rightarrow> world" where
  "restore_from_file runtime_owner now w0 =
     (let w = (if runtime_owner \<and> flag w0 = None then request_ap_stop w0 else w0)
      in if auto_config w
         then let flag_exists = (flag w \<noteq> None);
                  w1 = fresh_stop (w\<lparr>w_inner := (w_inner w)\<lparr>mode := Auto, state := Idle, expires_at := None, enabled_at := None,
                         last_is_home := auto_seed_decision flag_exists, pending_is_home := None, pending_count := 0\<rparr>\<rparr>);
                  w2 = (if should_start_ap_on_boot flag_exists then request_ap_start w1 else w1)
              in spawn_watch Geofence w2
         else case flag w of
             None \<Rightarrow> w
           | Some FlagInvalid \<Rightarrow> remove_flag_file w
           | Some (FlagJson f) \<Rightarrow>
               (case (if has_rtc (w_inner w)
                      then map_option (\<lambda>e. max 0 (e - now)) (from_rfc3339 (flag_expires_at f))
                      else Some (max 0 (flag_remaining_sec f) * ns_per_sec)) of
                  None \<Rightarrow> remove_flag_file w
                | Some remaining \<Rightarrow>
                    if remaining = 0 then request_ap_stop (remove_flag_file w)
                    else let enabled = (case from_rfc3339 (flag_enabled_at f) of Some t \<Rightarrow> t | None \<Rightarrow> now);
                             w1 = fresh_stop (w\<lparr>w_inner := (w_inner w)\<lparr>state := Active, enabled_at := Some enabled,
                                    expires_at := Some (now + remaining)\<rparr>\<rparr>)
                         in spawn_watch Timer (request_ap_start w1)))"

subsection \<open>Requests\<close>

datatype away_error = BadBody | DurationZero | DurationTooLong | InAutomaticMode | ApNotConfigured | ApLookupFailed ustr
  | InvalidMode | ConfigWriteFailed

text \<open>
  The body of an \<^verbatim>\<open>enable\<close> request: \<open>None\<close> when it does not parse, then the optional duration. The profile
  of the hotspot is looked up by commands of the system; here it is what the lookup returns.
\<close>

definition enable_check :: "nat option option \<Rightarrow> inner \<Rightarrow> away_error + nat" where
  "enable_check body i =
     (case body of None \<Rightarrow> Inl BadBody
      | Some d \<Rightarrow>
          let minutes = (case d of Some m \<Rightarrow> m | None \<Rightarrow> 0)
          in if minutes = 0 then Inl DurationZero
             else if minutes > max_duration_min then Inl DurationTooLong
             else if mode i = Auto then Inl InAutomaticMode
             else Inr minutes)"

record ap_profile =
  ap_ssid :: ustr
  ap_ip :: ustr

definition require_ap_profile :: "ustr + ap_profile option \<Rightarrow> away_error + ap_profile" where
  "require_ap_profile r =
     (case r of Inr (Some p) \<Rightarrow> Inr p | Inr None \<Rightarrow> Inl ApNotConfigured | Inl e \<Rightarrow> Inl (ApLookupFailed e))"

definition enable_commit :: "bool \<Rightarrow> int \<Rightarrow> nat \<Rightarrow> world \<Rightarrow> world" where
  "enable_commit wr now minutes w =
     (let duration = int (minutes * 60) * ns_per_sec; i = w_inner w
      in if state i = Active
         then write_flag_file wr now (w\<lparr>w_inner := i\<lparr>expires_at := Some (now + duration)\<rparr>\<rparr>)
         else let w1 = notify_waiters w;
                  w2 = fresh_stop (w1\<lparr>w_inner := i\<lparr>state := Active, enabled_at := Some now, expires_at := Some (now + duration)\<rparr>\<rparr>)
              in spawn_watch Timer (request_ap_start (write_flag_file wr now w2)))"

definition disable :: "world \<Rightarrow> world" where
  "disable w =
     (let i = w_inner w
      in if mode i = Auto then w
         else if state i = Idle then w
         else let w1 = notify_waiters w
              in request_ap_stop (remove_flag_file (w1\<lparr>w_inner := i\<lparr>state := Idle, expires_at := None, enabled_at := None,
                   epoch := Suc (epoch i)\<rparr>\<rparr>)))"

definition parse_mode :: "ustr \<Rightarrow> away_error + bool" where
  "parse_mode s = (if s = lit ''auto'' then Inr True else if s = lit ''manual'' then Inr False else Inl InvalidMode)"

definition set_mode_commit :: "bool \<Rightarrow> world \<Rightarrow> world" where
  "set_mode_commit want_auto w =
     (let i = w_inner w; w1 = notify_waiters w
      in if want_auto
         then let w2 = fresh_stop (w1\<lparr>w_inner := i\<lparr>mode := Auto, state := Idle, expires_at := None, enabled_at := None,
                        last_is_home := None, pending_is_home := None, pending_count := 0\<rparr>\<rparr>);
                  w3 = (if ap_phase i = Starting then request_ap_stop (remove_flag_file w2) else w2)
              in spawn_watch Geofence w3
         else request_ap_stop (remove_flag_file (w1\<lparr>w_inner := i\<lparr>mode := Manual, state := Idle, expires_at := None,
                enabled_at := None, last_is_home := None, pending_is_home := None, pending_count := 0,
                epoch := Suc (epoch i)\<rparr>\<rparr>)))"

subsection \<open>Steps\<close>

inductive away_step :: "world \<Rightarrow> world \<Rightarrow> bool" where
  start_locked: "tasks w = ts @ StartWait g # us \<Longrightarrow> radio_free w \<Longrightarrow> ap_generation (w_inner w) = g \<Longrightarrow>
    away_step w (w\<lparr>tasks := ts @ StartRun g # us\<rparr>)"
| start_obsolete: "tasks w = ts @ StartWait g # us \<Longrightarrow> radio_free w \<Longrightarrow> ap_generation (w_inner w) \<noteq> g \<Longrightarrow>
    away_step w (w\<lparr>tasks := ts @ us\<rparr>)"
| start_returned: "tasks w = ts @ StartRun g # us \<Longrightarrow> is_ok r \<and> ap_generation (w_inner w) = g \<Longrightarrow>
    away_step w (w\<lparr>tasks := ts @ StartFinish g r # us, radio := started_radio r\<rparr>)"
| start_to_clean: "tasks w = ts @ StartRun g # us \<Longrightarrow> \<not> (is_ok r \<and> ap_generation (w_inner w) = g) \<Longrightarrow>
    away_step w (w\<lparr>tasks := ts @ StartClean g r # us, radio := started_radio r\<rparr>)"
| start_cleaned: "tasks w = ts @ StartClean g r # us \<Longrightarrow>
    away_step w (w\<lparr>tasks := ts @ StartFinish g (cleaned_result r stopped) # us, radio := stopped_radio stopped\<rparr>)"
| start_finished: "tasks w = ts @ StartFinish g r # us \<Longrightarrow>
    away_step w (complete_ap_start inst g r (w\<lparr>tasks := ts @ us\<rparr>))"
| stop_locked: "tasks w = ts @ StopWait g # us \<Longrightarrow> radio_free w \<Longrightarrow> ap_generation (w_inner w) = g \<Longrightarrow>
    away_step w (w\<lparr>tasks := ts @ StopRun g # us\<rparr>)"
| stop_obsolete: "tasks w = ts @ StopWait g # us \<Longrightarrow> radio_free w \<Longrightarrow> ap_generation (w_inner w) \<noteq> g \<Longrightarrow>
    away_step w (w\<lparr>tasks := ts @ us\<rparr>)"
| stop_done: "tasks w = ts @ StopRun g # us \<Longrightarrow>
    away_step w (w\<lparr>tasks := ts @ us, radio := HotspotDown\<rparr>)"
| stop_failed: "tasks w = ts @ StopRun g # us \<Longrightarrow>
    away_step w (w\<lparr>tasks := ts @ StopFinish g e # us, radio := Unsettled\<rparr>)"
| stop_reported: "tasks w = ts @ StopFinish g e # us \<Longrightarrow>
    away_step w (report_stop_error g e (w\<lparr>tasks := ts @ us\<rparr>))"
| watcher_stopped: "tasks w = ts @ Watcher k s e Sleeping # us \<Longrightarrow> s \<in> set (notified w) \<Longrightarrow>
    away_step w (w\<lparr>tasks := ts @ us\<rparr>)"
| timer_woken: "tasks w = ts @ Watcher Timer s e Sleeping # us \<Longrightarrow>
    away_step w (w\<lparr>tasks := ts @ Watcher Timer s e Check0 # us\<rparr>)"
| geofence_woken: "tasks w = ts @ Watcher Geofence s e Sleeping # us \<Longrightarrow>
    mode (w_inner w) = Auto \<and> epoch (w_inner w) = e \<Longrightarrow>
    away_step w (w\<lparr>tasks := ts @ Watcher Geofence s e Check0 # us\<rparr>)"
| geofence_superseded: "tasks w = ts @ Watcher Geofence s e Sleeping # us \<Longrightarrow>
    \<not> (mode (w_inner w) = Auto \<and> epoch (w_inner w) = e) \<Longrightarrow>
    away_step w (w\<lparr>tasks := ts @ us\<rparr>)"
| check_skipped: "tasks w = ts @ Watcher k s e Check0 # us \<Longrightarrow> ap_phase (w_inner w) \<noteq> On \<or> \<not> networkd \<Longrightarrow>
    away_step w (w\<lparr>tasks := ts @ Watcher k s e Tick # us\<rparr>)"
| check_begun: "tasks w = ts @ Watcher k s e Check0 # us \<Longrightarrow> ap_phase (w_inner w) = On \<Longrightarrow>
    away_step w (w\<lparr>tasks := ts @ Watcher k s e (CheckWait (ap_generation (w_inner w))) # us\<rparr>)"
| check_locked: "tasks w = ts @ Watcher k s e (CheckWait g) # us \<Longrightarrow> radio_free w \<Longrightarrow>
    ap_generation (w_inner w) = g \<Longrightarrow> away_step w (w\<lparr>tasks := ts @ Watcher k s e (CheckRun g) # us\<rparr>)"
| check_obsolete: "tasks w = ts @ Watcher k s e (CheckWait g) # us \<Longrightarrow> radio_free w \<Longrightarrow>
    ap_generation (w_inner w) \<noteq> g \<Longrightarrow> away_step w (w\<lparr>tasks := ts @ Watcher k s e Tick # us\<rparr>)"
| check_passed: "tasks w = ts @ Watcher k s e (CheckRun g) # us \<Longrightarrow>
    away_step w (w\<lparr>tasks := ts @ Watcher k s e Tick # us\<rparr>)"
| check_failed: "tasks w = ts @ Watcher k s e (CheckRun g) # us \<Longrightarrow>
    away_step w (w\<lparr>tasks := ts @ Watcher k s e (CheckFinish g (check_message m stopped)) # us, radio := stopped_radio stopped\<rparr>)"
| check_finished: "tasks w = ts @ Watcher k s e (CheckFinish g m) # us \<Longrightarrow>
    away_step w (complete_ap_start inst g (Inl m) (w\<lparr>tasks := ts @ Watcher k s e Tick # us\<rparr>))"
| timer_ticked: "tasks w = ts @ Watcher Timer s e Tick # us \<Longrightarrow>
    timer_tick wr now e (w\<lparr>tasks := ts @ Watcher Timer s e Sleeping # us\<rparr>) = (w', False) \<Longrightarrow> away_step w w'"
| timer_ended: "tasks w = ts @ Watcher Timer s e Tick # us \<Longrightarrow>
    timer_tick wr now e (w\<lparr>tasks := ts @ us\<rparr>) = (w', True) \<Longrightarrow> away_step w w'"
| geofence_ticked: "tasks w = ts @ Watcher Geofence s e Tick # us \<Longrightarrow>
    away_step w (auto_eval_tick wr now inst (geofence_candidate fix_opt (home_radius configured)) e
                   (w\<lparr>tasks := ts @ Watcher Geofence s e Sleeping # us\<rparr>))"
| enable_accepted: "enable_check body (w_inner w) = Inr minutes \<Longrightarrow> away_step w (spawn (EnableReq minutes) w)"
| enable_without_profile: "tasks w = ts @ EnableReq minutes # us \<Longrightarrow> require_ap_profile profile = Inl err \<Longrightarrow>
    away_step w (w\<lparr>tasks := ts @ us\<rparr>)"
| enable_committed: "tasks w = ts @ EnableReq minutes # us \<Longrightarrow> require_ap_profile profile = Inr p \<Longrightarrow>
    away_step w (enable_commit wr now minutes (w\<lparr>tasks := ts @ us\<rparr>))"
| disabled: "away_step w (disable w)"
| mode_persisted: "parse_mode s = Inr want_auto \<Longrightarrow> want_auto \<longrightarrow> is_ok (require_ap_profile profile) \<Longrightarrow>
    away_step w (spawn (ModeReq want_auto) (w\<lparr>auto_config := want_auto\<rparr>))"
| mode_committed: "tasks w = ts @ ModeReq want_auto # us \<Longrightarrow>
    away_step w (set_mode_commit want_auto (w\<lparr>tasks := ts @ us\<rparr>))"

definition boot_world :: "bool \<Rightarrow> flag_file option \<Rightarrow> bool \<Rightarrow> world" where
  "boot_world rtc f auto_on = \<lparr>w_inner = mgr rtc, flag = f, auto_config = auto_on, tasks = [], radio = Unsettled,
     stops = 1, notified = []\<rparr>"

definition away_init :: "world \<Rightarrow> bool" where
  "away_init w \<longleftrightarrow> (\<exists>rtc f auto_on owner now. w = restore_from_file owner now (boot_world rtc f auto_on))"

definition away_reachable :: "world \<Rightarrow> bool" where
  "away_reachable w \<longleftrightarrow> (\<exists>w0. away_init w0 \<and> away_step\<^sup>*\<^sup>* w0 w)"

section \<open>Lemmas\<close>

fun job_gen :: "task \<Rightarrow> nat option" where
  "job_gen (StartWait g) = Some g"
| "job_gen (StartRun g) = Some g"
| "job_gen (StartClean g _) = Some g"
| "job_gen (StartFinish g _) = Some g"
| "job_gen (StopWait g) = Some g"
| "job_gen (StopRun g) = Some g"
| "job_gen (StopFinish g _) = Some g"
| "job_gen _ = None"

fun is_start :: "task \<Rightarrow> bool" where
  "is_start (StartWait _) = True"
| "is_start (StartRun _) = True"
| "is_start (StartClean _ _) = True"
| "is_start (StartFinish _ _) = True"
| "is_start _ = False"

fun check_gen :: "task \<Rightarrow> nat option" where
  "check_gen (Watcher _ _ _ (CheckWait g)) = Some g"
| "check_gen (Watcher _ _ _ (CheckRun g)) = Some g"
| "check_gen (Watcher _ _ _ (CheckFinish g _)) = Some g"
| "check_gen _ = None"

definition jobs :: "nat \<Rightarrow> task list \<Rightarrow> task list" where
  "jobs g ts = filter (\<lambda>t. job_gen t = Some g) ts"

lemma jobs_simps [simp]:
  "jobs g [] = []"
  "jobs g (t # ts) = (if job_gen t = Some g then t # jobs g ts else jobs g ts)"
  "jobs g (ts @ us) = jobs g ts @ jobs g us"
  by (simp_all add: jobs_def)

fun start_ok :: "nat \<Rightarrow> radio \<Rightarrow> task \<Rightarrow> bool" where
  "start_ok g r (StartClean g' res) \<longleftrightarrow> (g' = g \<longrightarrow> \<not> is_ok res)"
| "start_ok g r (StartFinish g' res) \<longleftrightarrow> (g' = g \<and> is_ok res \<longrightarrow> r = HotspotUp)"
| "start_ok g r _ \<longleftrightarrow> True"

fun awaiting_finish :: "nat \<Rightarrow> task \<Rightarrow> bool" where
  "awaiting_finish g (Watcher _ _ _ (CheckFinish g' _)) \<longleftrightarrow> g' = g"
| "awaiting_finish g _ \<longleftrightarrow> False"

text \<open>
  The invariant of the radio. The newest generation has at most one job; while it is pending the phase
  tells which, and once it is gone the phase agrees with what the radio reported. Only a health check of
  that generation may hold the radio after it was started.
\<close>

definition radio_inv :: "nat \<Rightarrow> ap_phase_kind \<Rightarrow> ustr option \<Rightarrow> radio \<Rightarrow> task list \<Rightarrow> bool" where
  "radio_inv g phase err r ts \<longleftrightarrow>
     list_all (\<lambda>t. case job_gen t of Some g' \<Rightarrow> g' \<le> g | None \<Rightarrow> True) ts \<and>
     list_all (\<lambda>t. case check_gen t of Some g' \<Rightarrow> g' \<le> g | None \<Rightarrow> True) ts \<and>
     length (filter holds ts) \<le> 1 \<and>
     list_all (start_ok g r) ts \<and>
     list_all (\<lambda>t. check_gen t = Some g \<longrightarrow> phase = On \<or> (phase = Off \<and> jobs g ts = [] \<and> err \<noteq> None)) ts \<and>
     (case phase of
        Starting \<Rightarrow> (\<exists>t. jobs g ts = [t] \<and> is_start t)
      | On \<Rightarrow> jobs g ts = [] \<and> list_all (\<lambda>t. holds t \<longrightarrow> check_gen t = Some g) ts \<and>
              (r = HotspotUp \<or> list_ex (awaiting_finish g) ts)
      | Off \<Rightarrow> (\<exists>t. jobs g ts = [t] \<and> \<not> is_start t) \<or>
              (jobs g ts = [] \<and> (err \<noteq> None \<or> (filter holds ts = [] \<and> (r = HotspotDown \<or> g = 0)))))"

abbreviation radio_ok :: "world \<Rightarrow> bool" where
  "radio_ok w \<equiv> radio_inv (ap_generation (w_inner w)) (ap_phase (w_inner w)) (ap_start_error (w_inner w)) (radio w) (tasks w)"

text \<open>A new request makes every job and check in progress obsolete.\<close>

lemma radio_inv_request:
  assumes "radio_inv g phase err r ts"
  shows "radio_inv (Suc g) Starting None r (StartWait (Suc g) # ts)"
    and "radio_inv (Suc g) Off None r (StopWait (Suc g) # ts)"
proof -
  have old: "job_gen t \<noteq> Some (Suc g)" "check_gen t \<noteq> Some (Suc g)" if "t \<in> set ts" for t
    using assms that by (auto simp: radio_inv_def list_all_iff split: option.splits)
  then have none: "jobs (Suc g) ts = []"
    by (simp add: jobs_def filter_empty_conv)
  have so: "start_ok (Suc g) r t" if "t \<in> set ts" for t
    using old(1) [OF that] by (cases t) auto
  have le: "list_all (\<lambda>t. case job_gen t of Some g' \<Rightarrow> g' \<le> Suc g | None \<Rightarrow> True) ts"
    "list_all (\<lambda>t. case check_gen t of Some g' \<Rightarrow> g' \<le> Suc g | None \<Rightarrow> True) ts"
    using assms by (auto simp: radio_inv_def list_all_iff split: option.splits)
  show "radio_inv (Suc g) Starting None r (StartWait (Suc g) # ts)"
    and "radio_inv (Suc g) Off None r (StopWait (Suc g) # ts)"
    using assms old none so le by (auto simp: radio_inv_def list_all_iff)
qed

text \<open>Tasks that neither are jobs, hold the radio nor check it may come and go.\<close>

definition neutral :: "task \<Rightarrow> bool" where
  "neutral t \<longleftrightarrow> job_gen t = None \<and> check_gen t = None \<and> \<not> holds t"

lemma neutral_start_ok: "neutral t \<Longrightarrow> start_ok g r t \<and> \<not> awaiting_finish g' t"
  by (cases t) (auto simp: neutral_def elim!: awaiting_finish.elims)

lemma radio_inv_neutral:
  "neutral t \<Longrightarrow> radio_inv g ph err r (ts @ t # us) = radio_inv g ph err r (ts @ us)"
  using neutral_start_ok [of t] by (auto simp: radio_inv_def neutral_def split: ap_phase_kind.splits)

lemma radio_inv_neutral0: "neutral t \<Longrightarrow> radio_inv g ph err r (t # us) = radio_inv g ph err r us"
  using radio_inv_neutral [where ts = "[]"] by simp

lemma neutral_simps [simp]:
  "neutral (EnableReq m)" "neutral (ModeReq b)"
  "neutral (Watcher k s e Sleeping)" "neutral (Watcher k s e Check0)" "neutral (Watcher k s e Tick)"
  by (simp_all add: neutral_def)

text \<open>One lemma per step of a job or a check.\<close>

lemmas radio_inv_cases = radio_inv_def list_all_iff list_ex_iff

lemma radio_inv_start_locked:
  "radio_inv g ph err r (ts @ StartWait g # us) \<Longrightarrow> filter holds (ts @ StartWait g # us) = [] \<Longrightarrow>
   radio_inv g ph err r (ts @ StartRun g # us)"
  by (auto simp: radio_inv_cases filter_empty_conv Cons_eq_append_conv append_eq_Cons_conv split: ap_phase_kind.splits)

lemma radio_inv_stop_locked:
  "radio_inv g ph err r (ts @ StopWait g # us) \<Longrightarrow> filter holds (ts @ StopWait g # us) = [] \<Longrightarrow>
   radio_inv g ph err r (ts @ StopRun g # us)"
  by (auto simp: radio_inv_cases filter_empty_conv Cons_eq_append_conv append_eq_Cons_conv split: ap_phase_kind.splits)

lemma radio_inv_obsolete:
  "radio_inv g ph err r (ts @ t # us) \<Longrightarrow> job_gen t = Some g' \<Longrightarrow> g' \<noteq> g \<Longrightarrow> radio_inv g ph err r (ts @ us)"
  by (cases t) (auto simp: radio_inv_cases split: ap_phase_kind.splits)

lemma free_start_ok: "\<not> holds t \<Longrightarrow> start_ok g r t"
  by (cases t) auto

lemma others_free:
  assumes "radio_inv g ph err r (ts @ t # us)" "holds t"
  shows "filter holds ts = []" "filter holds us = []"
    "list_all (\<lambda>t. \<not> holds t) ts" "list_all (\<lambda>t. \<not> holds t) us"
  using assms by (auto simp: radio_inv_def filter_empty_conv list_all_iff)

lemma all_free_start_ok: "list_all (\<lambda>t. \<not> holds t) ts \<Longrightarrow> list_all (start_ok g r) ts"
  by (auto simp: list_all_iff free_start_ok)

lemma job_not_check: "job_gen t = Some g \<Longrightarrow> check_gen t = None \<and> \<not> awaiting_finish g' t"
  by (cases t) auto

lemma append_single: "xs @ ys = [x] \<longleftrightarrow> xs = [x] \<and> ys = [] \<or> xs = [] \<and> ys = [x]"
  by (auto simp: append_eq_Cons_conv)

lemma append_mid_single: "xs @ y # ys = [x] \<longleftrightarrow> xs = [] \<and> y = x \<and> ys = []"
  by (auto simp: append_eq_Cons_conv)

lemma radio_inv_stale:
  assumes "radio_inv g ph err r (ts @ t # us)" "holds t" "job_gen t = Some g'" "g' \<noteq> g" "job_gen t' = Some g'"
  shows "radio_inv g ph err r' (ts @ t' # us)"
proof -
  note oth = others_free [OF assms(1,2)] others_free(3,4) [OF assms(1,2), THEN all_free_start_ok]
  have "start_ok g r' t'"
    using assms(4,5) by (cases t') auto
  then show ?thesis
    using assms oth job_not_check [OF assms(3)] job_not_check [OF assms(5)]
    by (cases ph) (simp_all add: radio_inv_def, blast)
qed

lemma radio_inv_job_returns:
  assumes "radio_inv g ph err r (ts @ t # us)" "holds t" "job_gen t = Some g" "job_gen t' = Some g"
    "is_start t' = is_start t" "start_ok g r' t'"
  shows "radio_inv g ph err r' (ts @ t' # us)"
proof -
  note oth = others_free [OF assms(1,2)] others_free(3,4) [OF assms(1,2), THEN all_free_start_ok]
  show ?thesis
    using assms oth job_not_check [OF assms(3)] job_not_check [OF assms(4)]
    by (cases ph) (auto simp add: radio_inv_def append_mid_single)
qed

lemma list_all_True [simp]: "list_all (\<lambda>x. True) xs"
  by (simp add: list_all_iff)

lemma radio_inv_job_alone:
  assumes "radio_inv g ph err r (ts @ t # us)" "job_gen t = Some g"
  shows "jobs g ts = []" "jobs g us = []" "ph = (if is_start t then Starting else Off)"
    "list_all (\<lambda>t. check_gen t \<noteq> Some g) ts" "list_all (\<lambda>t. check_gen t \<noteq> Some g) us"
    "list_all (\<lambda>t. case job_gen t of Some g' \<Rightarrow> g' \<le> g | None \<Rightarrow> True) (ts @ us)"
    "list_all (\<lambda>t. case check_gen t of Some g' \<Rightarrow> g' \<le> g | None \<Rightarrow> True) (ts @ us)"
  using assms by (cases ph; auto simp: radio_inv_def append_mid_single)+

lemma radio_inv_job_ends:
  assumes "radio_inv g ph err r (ts @ t # us)" "holds t" "job_gen t = Some g"
  shows "radio_inv g On err' HotspotUp (ts @ us)"
    and "radio_inv g Off (Some e) r' (ts @ us)"
    and "radio_inv g Off err' HotspotDown (ts @ us)"
proof -
  note alone = radio_inv_job_alone [OF assms(1,3)]
  note oth = others_free [OF assms(1,2)]
  have ok: "list_all (start_ok g r') (ts @ us)" for r'
    using oth(3,4) by (simp add: all_free_start_ok)
  have "list_all (\<lambda>t. holds t \<longrightarrow> check_gen t = Some g) (ts @ us)"
    using oth(3,4) by (auto simp: list_all_iff)
  moreover have "list_all (\<lambda>t. check_gen t = Some g \<longrightarrow> Q) (ts @ us)" for Q
    using alone(4,5) by (auto simp: list_all_iff)
  ultimately show "radio_inv g On err' HotspotUp (ts @ us)"
    and "radio_inv g Off (Some e) r' (ts @ us)"
    and "radio_inv g Off err' HotspotDown (ts @ us)"
    using alone(1,2,6,7) oth(1,2) ok unfolding radio_inv_def by simp_all
qed

lemma radio_inv_check_begun:
  "radio_inv g On err r (ts @ us) \<Longrightarrow> radio_inv g On err r (ts @ Watcher k s e (CheckWait g) # us)"
  by (simp add: radio_inv_def)

lemma radio_inv_check_dropped:
  "radio_inv g ph err r (ts @ Watcher k s e (CheckWait g') # us) \<Longrightarrow> radio_inv g ph err r (ts @ us)"
  by (cases ph) (simp_all add: radio_inv_def)

lemma radio_inv_check_passed:
  "radio_inv g ph err r (ts @ Watcher k s e (CheckRun g') # us) \<Longrightarrow> radio_inv g ph err r (ts @ us)"
  by (cases ph) (simp_all add: radio_inv_def, blast)

lemma radio_inv_check_locked:
  "radio_inv g ph err r (ts @ Watcher k s e (CheckWait g) # us) \<Longrightarrow>
   filter holds (ts @ Watcher k s e (CheckWait g) # us) = [] \<Longrightarrow> radio_inv g ph err r (ts @ Watcher k s e (CheckRun g) # us)"
  by (cases ph) (simp_all add: radio_inv_def)

lemma radio_inv_check_failed:
  assumes "radio_inv g ph err r (ts @ Watcher k s e (CheckRun g') # us)"
  shows "radio_inv g ph err r' (ts @ Watcher k s e (CheckFinish g' m) # us)"
proof -
  note oth = others_free [OF assms(1)]
  have ok: "list_all (start_ok g r') ts" "list_all (start_ok g r') us"
    using oth(3,4) by (simp_all add: all_free_start_ok)
  then show ?thesis
    using assms by (cases ph) (simp_all add: radio_inv_def)
qed

lemma radio_inv_check_finished:
  assumes "radio_inv g ph err r (ts @ Watcher k s e (CheckFinish g' m) # us)"
  shows "g' \<noteq> g \<Longrightarrow> radio_inv g ph err r (ts @ us)"
    and "g' = g \<Longrightarrow> radio_inv g Off (Some e') r (ts @ us)"
proof -
  note oth = others_free [OF assms(1)]
  show "g' \<noteq> g \<Longrightarrow> radio_inv g ph err r (ts @ us)"
    using assms by (cases ph) (simp_all add: radio_inv_def, blast)
  show "g' = g \<Longrightarrow> radio_inv g Off (Some e') r (ts @ us)"
    using assms by (cases ph) (auto simp: radio_inv_def list_all_iff)
qed

text \<open>The definitions between the locks keep the invariant.\<close>

lemma radio_ok_requests:
  "radio_ok w \<Longrightarrow> radio_ok (request_ap_start w)" "radio_ok w \<Longrightarrow> radio_ok (request_ap_stop w)"
  by (simp_all add: request_ap_start_def request_ap_stop_def spawn_def radio_inv_request)

lemma radio_ok_writes [simp]:
  "radio_ok (write_flag_file wr now w) = radio_ok w" "radio_ok (write_auto_flag_file wr now w) = radio_ok w"
  "radio_ok (remove_flag_file w) = radio_ok w" "radio_ok (notify_waiters w) = radio_ok w"
  "radio_ok (fresh_stop w) = radio_ok w" "radio_ok (spawn_watch k w) = radio_ok w"
  by (simp_all add: write_flag_file_def write_auto_flag_file_def remove_flag_file_def notify_waiters_def
      fresh_stop_def spawn_watch_def spawn_def radio_inv_neutral0 Let_def split: option.splits)

lemma radio_ok_timer_tick: "radio_ok w \<Longrightarrow> radio_ok (fst (timer_tick wr now e w))"
  by (auto simp: timer_tick_def Let_def intro!: radio_ok_requests)

lemma radio_ok_auto_eval_tick: "radio_ok w \<Longrightarrow> radio_ok (auto_eval_tick wr now inst c e w)"
  by (auto simp: auto_eval_tick_def Let_def intro!: radio_ok_requests split: prod.splits option.splits)

lemma radio_ok_enable: "radio_ok w \<Longrightarrow> radio_ok (enable_commit wr now m w)"
  by (auto simp: enable_commit_def Let_def notify_waiters_def intro!: radio_ok_requests)

lemma radio_ok_disable: "radio_ok w \<Longrightarrow> radio_ok (disable w)"
  by (auto simp: disable_def Let_def notify_waiters_def intro!: radio_ok_requests)

lemma radio_ok_set_mode: "radio_ok w \<Longrightarrow> radio_ok (set_mode_commit b w)"
  by (auto simp: set_mode_commit_def Let_def notify_waiters_def intro!: radio_ok_requests)

lemma radio_ok_complete:
  assumes "radio_inv (ap_generation (w_inner w)) (ap_phase (w_inner w)) (ap_start_error (w_inner w)) (radio w)
             (ts @ StartFinish g r # us)" "tasks w = ts @ us"
  shows "radio_ok (complete_ap_start inst g r w)"
proof (cases "ap_generation (w_inner w) = g")
  case True
  show ?thesis
  proof (cases r)
    case (Inr u)
    then have "radio w = HotspotUp"
      using assms(1) True by (simp add: radio_inv_def)
    then show ?thesis
      using radio_inv_job_ends(1) [OF assms(1)] assms(2) True Inr by (simp add: complete_ap_start_def finish_ap_start_def)
  next
    case (Inl e)
    then show ?thesis
      using radio_inv_job_ends(2) [OF assms(1)] assms(2) True
      by (simp add: complete_ap_start_def finish_ap_start_def Let_def notify_waiters_def remove_flag_file_def)
  qed
next
  case False
  then show ?thesis
    using radio_inv_obsolete [OF assms(1)] assms(2) by (simp add: complete_ap_start_def finish_ap_start_def)
qed

lemma radio_ok_check_finished:
  assumes "radio_inv (ap_generation (w_inner w)) (ap_phase (w_inner w)) (ap_start_error (w_inner w)) (radio w)
             (ts @ Watcher k s e (CheckFinish g m) # us)" "tasks w = ts @ Watcher k s e Tick # us"
  shows "radio_ok (complete_ap_start inst g (Inl m) w)"
  using radio_inv_check_finished [OF assms(1)] assms(2)
  by (auto simp: complete_ap_start_def finish_ap_start_def Let_def notify_waiters_def remove_flag_file_def radio_inv_neutral)

lemma started_radio_simps [simp]:
  "is_ok r \<Longrightarrow> started_radio r = HotspotUp" "is_ok r \<Longrightarrow> stopped_radio r = HotspotDown"
  by (simp_all add: started_radio_def stopped_radio_def)

lemma cleaned_result_fails: "\<not> is_ok r \<Longrightarrow> \<not> is_ok (cleaned_result r stopped)"
  by (cases r; cases stopped) (simp_all add: cleaned_result_def)

lemma radio_ok_step: "away_step w w' \<Longrightarrow> radio_ok w \<Longrightarrow> radio_ok w'"
proof (induction rule: away_step.induct)
  case (start_locked w ts g us)
  then show ?case by (simp add: radio_inv_start_locked radio_free_def)
next
  case (start_obsolete w ts g us)
  then show ?case by (simp add: radio_inv_obsolete)
next
  case (start_returned w ts g us r)
  then show ?case by (auto intro: radio_inv_job_returns [where t = "StartRun g"])
next
  case (start_to_clean w ts g us r)
  then show ?case
    by (cases "ap_generation (w_inner w) = g")
       (auto intro: radio_inv_job_returns [where t = "StartRun g"] radio_inv_stale [where t = "StartRun g"])
next
  case (start_cleaned w ts g r us stopped)
  show ?case
  proof (cases "ap_generation (w_inner w) = g")
    case True
    then have "\<not> is_ok r"
      using start_cleaned by (simp add: radio_inv_def)
    then show ?thesis
      using start_cleaned True by (auto simp: cleaned_result_fails intro: radio_inv_job_returns [where t = "StartClean g r"])
  next
    case False
    then show ?thesis
      using start_cleaned by (auto intro: radio_inv_stale [where t = "StartClean g r"])
  qed
next
  case (start_finished w ts g r us inst)
  then show ?case by (simp add: radio_ok_complete)
next
  case (stop_locked w ts g us)
  then show ?case by (simp add: radio_inv_stop_locked radio_free_def)
next
  case (stop_obsolete w ts g us)
  then show ?case by (simp add: radio_inv_obsolete)
next
  case (stop_done w ts g us)
  show ?case
  proof (cases "ap_generation (w_inner w) = g")
    case True
    then have inv: "radio_inv g (ap_phase (w_inner w)) (ap_start_error (w_inner w)) (radio w) (ts @ StopRun g # us)"
      using stop_done by simp
    then show ?thesis
      using True radio_inv_job_alone(3) [OF inv] radio_inv_job_ends(3) [OF inv] by simp
  next
    case False
    then show ?thesis
      using stop_done by (auto intro: radio_inv_obsolete [OF radio_inv_stale [where t = "StopRun g" and t' = "StopRun g"]])
  qed
next
  case (stop_failed w ts g us e)
  then show ?case
    by (cases "ap_generation (w_inner w) = g")
       (auto intro: radio_inv_job_returns [where t = "StopRun g"] radio_inv_stale [where t = "StopRun g"])
next
  case (stop_reported w ts g e us)
  show ?case
  proof (cases "ap_generation (w_inner w) = g")
    case True
    then have inv: "radio_inv g (ap_phase (w_inner w)) (ap_start_error (w_inner w)) (radio w) (ts @ StopFinish g e # us)"
      using stop_reported by simp
    then show ?thesis
      using True radio_inv_job_alone(3) [OF inv] radio_inv_job_ends(2) [OF inv] by (simp add: report_stop_error_def)
  next
    case False
    then show ?thesis
      using stop_reported by (auto simp: report_stop_error_def intro: radio_inv_obsolete [where t = "StopFinish g e"])
  qed
next
  case (check_failed w ts k s e g us m stopped)
  then show ?case by (simp add: radio_inv_check_failed)
next
  case (check_finished w ts k s e g m us inst)
  then show ?case by (simp add: radio_ok_check_finished)
next
  case (timer_ticked w ts s e us wr now w')
  then show ?case
    using radio_ok_timer_tick [of "w\<lparr>tasks := ts @ Watcher Timer s e Sleeping # us\<rparr>" wr now e] by (simp add: radio_inv_neutral)
next
  case (timer_ended w ts s e us wr now w')
  then show ?case
    using radio_ok_timer_tick [of "w\<lparr>tasks := ts @ us\<rparr>" wr now e] by (simp add: radio_inv_neutral)
next
  case (check_begun w ts k s e us)
  then show ?case by (simp add: radio_inv_neutral radio_inv_check_begun)
next
  case (check_locked w ts k s e g us)
  then show ?case by (simp add: radio_inv_check_locked radio_free_def)
next
  case (check_obsolete w ts k s e g us)
  then show ?case using radio_inv_check_dropped [of _ _ _ _ ts k s e g us] by (simp add: radio_inv_neutral)
next
  case (check_passed w ts k s e g us)
  then show ?case using radio_inv_check_passed [of _ _ _ _ ts k s e g us] by (simp add: radio_inv_neutral)
qed (simp_all add: radio_inv_neutral radio_inv_neutral0 spawn_def radio_ok_auto_eval_tick radio_ok_enable
      radio_ok_disable radio_ok_set_mode)

lemma radio_ok_restore: "radio_ok (restore_from_file owner now (boot_world rtc f auto_on))"
proof -
  define w0 where "w0 = boot_world rtc f auto_on"
  have "radio_ok w0"
    by (simp add: w0_def boot_world_def mgr_def radio_inv_def)
  then have "radio_ok (restore_from_file owner now w0)"
    by (auto simp: restore_from_file_def Let_def radio_ok_requests split: option.splits flag_file.splits)
  then show ?thesis
    by (simp add: w0_def)
qed

interpretation radio_inv: reachable_invariant away_init away_step "\<lambda>w. radio_ok w"
  by unfold_locales (auto simp: away_init_def radio_ok_restore elim: radio_ok_step)

lemma radio_ok_reachable: "away_reachable w \<Longrightarrow> radio_ok w"
  by (auto simp: away_reachable_def intro: radio_inv.reached_inv)

subsection \<open>Watchers\<close>

fun watch_epoch :: "task \<Rightarrow> nat option" where
  "watch_epoch (Watcher _ _ e _) = Some e"
| "watch_epoch _ = None"

definition live :: "nat \<Rightarrow> task list \<Rightarrow> task list" where
  "live e ts = filter (\<lambda>t. watch_epoch t = Some e) ts"

lemma live_simps [simp]:
  "live e [] = []"
  "live e (t # ts) = (if watch_epoch t = Some e then t # live e ts else live e ts)"
  "live e (ts @ us) = live e ts @ live e us"
  by (simp_all add: live_def)

fun watcher_ok :: "nat \<Rightarrow> nat \<Rightarrow> nat list \<Rightarrow> task \<Rightarrow> bool" where
  "watcher_ok ep n ns (Watcher _ s e _) \<longleftrightarrow> e \<le> ep \<and> s < n \<and> (s \<in> set ns \<longrightarrow> e < ep)"
| "watcher_ok ep n ns _ \<longleftrightarrow> True"

text \<open>
  At most one watcher has the current epoch, a notified one has an older epoch, and a running timer has
  its watcher.
\<close>

definition watch_inv :: "nat \<Rightarrow> nat \<Rightarrow> nat \<Rightarrow> nat list \<Rightarrow> timer_state \<Rightarrow> task list \<Rightarrow> bool" where
  "watch_inv ep st n ns sta ts \<longleftrightarrow> st < n \<and> list_all (\<lambda>x. x < n) ns \<and> list_all (watcher_ok ep n ns) ts \<and>
     length (live ep ts) \<le> 1 \<and> (sta = Active \<longrightarrow> (\<exists>s p. live ep ts = [Watcher Timer s ep p]))"

abbreviation watch_ok :: "world \<Rightarrow> bool" where
  "watch_ok w \<equiv> watch_inv (epoch (w_inner w)) (stop (w_inner w)) (stops w) (notified w) (state (w_inner w)) (tasks w)"

lemma old_watchers:
  assumes "watch_inv ep st n ns sta ts"
  shows "live (Suc ep) ts = []" "list_all (watcher_ok (Suc ep) n (st # ns)) ts" "list_all (watcher_ok (Suc ep) (Suc n) ns') ts"
proof -
  have 1: "watch_epoch t \<noteq> Some (Suc ep) \<and> watcher_ok (Suc ep) n (st # ns) t \<and> watcher_ok (Suc ep) (Suc n) ns' t"
    if "t \<in> set ts" for t
    using assms that by (cases t) (auto simp: watch_inv_def list_all_iff dest!: bspec)
  then show "live (Suc ep) ts = []" "list_all (watcher_ok (Suc ep) n (st # ns)) ts"
    "list_all (watcher_ok (Suc ep) (Suc n) ns') ts"
    by (auto simp: live_def filter_empty_conv list_all_iff)
qed

lemma watch_inv_retire: "watch_inv ep st n ns sta ts \<Longrightarrow> watch_inv (Suc ep) st n (st # ns) Idle ts"
  using old_watchers [of ep st n ns sta ts] by (simp add: watch_inv_def)

lemma watch_inv_start:
  assumes "watch_inv ep st n ns sta ts" "ns' = ns \<or> ns' = st # ns" "sta' = Active \<longrightarrow> k = Timer"
  shows "watch_inv (Suc ep) n (Suc n) ns' sta' (Watcher k n (Suc ep) Sleeping # ts)"
  using assms old_watchers [OF assms(1)] by (auto simp: watch_inv_def list_all_iff less_SucI)

lemma watch_inv_idle: "watch_inv ep st n ns sta ts \<Longrightarrow> watch_inv ep st n ns Idle ts"
  by (simp add: watch_inv_def)

lemma watch_inv_other:
  "watch_epoch t = None \<Longrightarrow> watch_inv ep st n ns sta (ts @ t # us) = watch_inv ep st n ns sta (ts @ us)"
  by (cases t) (simp_all add: watch_inv_def)

lemma watch_inv_other0 [simp]: "watch_epoch t = None \<Longrightarrow> watch_inv ep st n ns sta (t # us) = watch_inv ep st n ns sta us"
  using watch_inv_other [where ts = "[]"] by simp

lemma watch_inv_pc:
  "watch_inv ep st n ns sta (ts @ Watcher k s e p # us) \<Longrightarrow> watch_inv ep st n ns sta (ts @ Watcher k s e p' # us)"
  by (auto simp: watch_inv_def append_mid_single)

lemma watch_inv_gone:
  "watch_inv ep st n ns sta (ts @ Watcher k s e p # us) \<Longrightarrow> e \<noteq> ep \<or> s \<in> set ns \<or> k = Geofence \<or> sta = Idle \<Longrightarrow>
   watch_inv ep st n ns sta (ts @ us)"
  by (cases "e = ep") (auto simp: watch_inv_def append_mid_single)

lemma watch_inv_gone_idle:
  "watch_inv ep st n ns sta (ts @ Watcher k s e p # us) \<Longrightarrow> watch_inv ep st n ns Idle (ts @ us)"
  by (rule watch_inv_gone [OF watch_inv_idle]) simp_all

lemma watch_ok_writes [simp]:
  "watch_ok (write_flag_file wr now w) = watch_ok w" "watch_ok (write_auto_flag_file wr now w) = watch_ok w"
  "watch_ok (remove_flag_file w) = watch_ok w"
  "watch_ok (request_ap_start w) = watch_ok w" "watch_ok (request_ap_stop w) = watch_ok w"
  by (simp_all add: write_flag_file_def write_auto_flag_file_def remove_flag_file_def request_ap_start_def
      request_ap_stop_def spawn_def watch_inv_other0 Let_def split: option.splits)

lemma watch_ok_complete: "watch_ok w \<Longrightarrow> watch_ok (complete_ap_start inst g r w)"
  by (cases r) (auto simp: complete_ap_start_def finish_ap_start_def Let_def notify_waiters_def remove_flag_file_def
      intro: watch_inv_retire)

lemma watch_ok_auto_eval_tick: "watch_ok w \<Longrightarrow> watch_ok (auto_eval_tick wr now inst c e w)"
  by (auto simp: auto_eval_tick_def Let_def split: prod.splits option.splits)

lemma watch_ok_disable: "watch_ok w \<Longrightarrow> watch_ok (disable w)"
  by (auto simp: disable_def Let_def notify_waiters_def intro: watch_inv_retire)

text \<open>The fields of the watchers after the parts that do not touch them.\<close>

lemma request_fields [simp]:
  "epoch (w_inner (request_ap_start w)) = epoch (w_inner w)" "stop (w_inner (request_ap_start w)) = stop (w_inner w)"
  "stops (request_ap_start w) = stops w" "notified (request_ap_start w) = notified w"
  "state (w_inner (request_ap_start w)) = state (w_inner w)" "mode (w_inner (request_ap_start w)) = mode (w_inner w)"
  "last_is_home (w_inner (request_ap_start w)) = last_is_home (w_inner w)" "flag (request_ap_start w) = flag w"
  "auto_config (request_ap_start w) = auto_config w"
  "epoch (w_inner (request_ap_stop w)) = epoch (w_inner w)" "stop (w_inner (request_ap_stop w)) = stop (w_inner w)"
  "stops (request_ap_stop w) = stops w" "notified (request_ap_stop w) = notified w"
  "state (w_inner (request_ap_stop w)) = state (w_inner w)" "mode (w_inner (request_ap_stop w)) = mode (w_inner w)"
  "last_is_home (w_inner (request_ap_stop w)) = last_is_home (w_inner w)" "flag (request_ap_stop w) = flag w"
  "auto_config (request_ap_stop w) = auto_config w"
  "tasks (request_ap_start w) = StartWait (Suc (ap_generation (w_inner w))) # tasks w"
  "tasks (request_ap_stop w) = StopWait (Suc (ap_generation (w_inner w))) # tasks w"
  by (simp_all add: request_ap_start_def request_ap_stop_def spawn_def Let_def)

lemma write_fields [simp]:
  "w_inner (write_flag_file wr now w) = w_inner w" "tasks (write_flag_file wr now w) = tasks w"
  "stops (write_flag_file wr now w) = stops w" "notified (write_flag_file wr now w) = notified w"
  "w_inner (write_auto_flag_file wr now w) = w_inner w" "tasks (write_auto_flag_file wr now w) = tasks w"
  "stops (write_auto_flag_file wr now w) = stops w" "notified (write_auto_flag_file wr now w) = notified w"
  "w_inner (remove_flag_file w) = w_inner w" "tasks (remove_flag_file w) = tasks w" "flag (remove_flag_file w) = None"
  "stops (remove_flag_file w) = stops w" "notified (remove_flag_file w) = notified w"
  by (simp_all add: write_flag_file_def write_auto_flag_file_def remove_flag_file_def Let_def split: option.splits)

lemma watch_inv_start_job:
  "watch_inv ep st n ns sta ts \<Longrightarrow> ns' = ns \<or> ns' = st # ns \<Longrightarrow> sta' = Active \<longrightarrow> k = Timer \<Longrightarrow> watch_epoch t = None \<Longrightarrow>
   watch_inv (Suc ep) n (Suc n) ns' sta' (Watcher k n (Suc ep) Sleeping # t # ts)"
  using watch_inv_start [where ns' = ns' and sta' = sta' and k = k] watch_inv_other [where ts = "[Watcher k n (Suc ep) Sleeping]"]
  by simp

lemma watch_ok_enable: "watch_ok w \<Longrightarrow> watch_ok (enable_commit wr now m w)"
  by (auto simp: enable_commit_def Let_def notify_waiters_def spawn_watch_def spawn_def fresh_stop_def
      intro!: watch_inv_start_job)

lemma watch_ok_set_mode: "watch_ok w \<Longrightarrow> watch_ok (set_mode_commit b w)"
  by (auto simp: set_mode_commit_def Let_def notify_waiters_def spawn_watch_def spawn_def fresh_stop_def
      intro: watch_inv_start watch_inv_start_job watch_inv_retire)

lemma watch_ok_timer:
  assumes "watch_inv (epoch (w_inner w)) (stop (w_inner w)) (stops w) (notified w) (state (w_inner w))
             (ts @ Watcher Timer s e Tick # us)"
  shows "timer_tick wr now e (w\<lparr>tasks := ts @ Watcher Timer s e Sleeping # us\<rparr>) = (w', False) \<Longrightarrow> watch_ok w'"
    and "timer_tick wr now e (w\<lparr>tasks := ts @ us\<rparr>) = (w', True) \<Longrightarrow> watch_ok w'"
  using watch_inv_pc [OF assms, of Sleeping] watch_inv_gone [OF assms] watch_inv_gone_idle [OF assms]
  by (auto simp: timer_tick_def Let_def split: if_splits) (metis timer_state.exhaust)

lemma watch_ok_step: "away_step w w' \<Longrightarrow> watch_ok w \<Longrightarrow> watch_ok w'"
proof (induction rule: away_step.induct)
  case (start_finished w ts g r us inst)
  then show ?case by (simp add: watch_ok_complete watch_inv_other)
next
  case (stop_reported w ts g e us)
  then show ?case by (simp add: report_stop_error_def watch_inv_other)
next
  case (watcher_stopped w ts k s e us)
  then show ?case by (auto intro: watch_inv_gone)
next
  case (geofence_superseded w ts s e us)
  then show ?case by (auto intro: watch_inv_gone)
next
  case (check_finished w ts k s e g m us inst)
  then show ?case using watch_inv_pc [of _ _ _ _ _ ts k s e _ us Tick] by (simp add: watch_ok_complete)
next
  case (timer_ticked w ts s e us wr now w')
  then show ?case using watch_ok_timer(1) [of w ts s e us wr now w'] by simp
next
  case (timer_ended w ts s e us wr now w')
  then show ?case using watch_ok_timer(2) [of w ts s e us wr now w'] by simp
next
  case (geofence_ticked w ts s e us wr now inst fix_opt configured)
  then show ?case using watch_inv_pc [of _ _ _ _ _ ts Geofence s e _ us Sleeping] by (simp add: watch_ok_auto_eval_tick)
next
  case (enable_committed w ts minutes us profile p wr now)
  then show ?case by (simp add: watch_ok_enable watch_inv_other)
next
  case (mode_committed w ts want_auto us)
  then show ?case by (simp add: watch_ok_set_mode watch_inv_other)
qed (auto simp: watch_inv_other spawn_def watch_ok_disable intro: watch_inv_pc)

lemma watch_ok_restore: "watch_ok (restore_from_file owner now (boot_world rtc f auto_on))"
proof -
  define w0 where "w0 = boot_world rtc f auto_on"
  have "watch_ok w0"
    by (simp add: w0_def boot_world_def mgr_def watch_inv_def)
  then have "watch_ok (restore_from_file owner now w0)"
    by (auto simp: restore_from_file_def Let_def spawn_watch_def spawn_def fresh_stop_def
        intro: watch_inv_start watch_inv_start_job split: option.splits flag_file.splits)
  then show ?thesis
    by (simp add: w0_def)
qed

interpretation watch_inv: reachable_invariant away_init away_step "\<lambda>w. watch_ok w"
  by unfold_locales (auto simp: away_init_def watch_ok_restore elim: watch_ok_step)

lemma watch_ok_reachable: "away_reachable w \<Longrightarrow> watch_ok w"
  by (auto simp: away_reachable_def intro: watch_inv.reached_inv)

subsection \<open>The flag\<close>

text \<open>
  The flag file makes the network's own scripts bring the hotspot up again, and holds back the recovery
  of the home network. It exists only while a timer runs or the geofence is in charge, and not while the
  geofence has settled on home.
\<close>

definition flag_ok :: "world \<Rightarrow> bool" where
  "flag_ok w \<longleftrightarrow> (flag w \<noteq> None \<longrightarrow> state (w_inner w) = Active \<or>
     (mode (w_inner w) = Auto \<and> last_is_home (w_inner w) \<noteq> Some True))"

lemma flag_ok_complete: "flag_ok w \<Longrightarrow> flag_ok (complete_ap_start inst g r w)"
  by (cases r) (auto simp: flag_ok_def complete_ap_start_def finish_ap_start_def Let_def notify_waiters_def)

lemma flag_ok_write: "state (w_inner w) = Active \<Longrightarrow> flag_ok (write_flag_file wr now w)"
  by (simp add: flag_ok_def)

lemma fold_geofence_decides: "fold_geofence c l p n = (Some d, p', n') \<Longrightarrow> c = Some d \<and> l \<noteq> Some d"
  by (auto simp: fold_geofence_def Let_def split: option.splits if_splits)

lemma flag_ok_auto_eval_tick: "flag_ok w \<Longrightarrow> flag_ok (auto_eval_tick wr now inst c e w)"
  by (auto simp: flag_ok_def auto_eval_tick_def Let_def write_auto_flag_file_def split: prod.splits option.splits)

lemma flag_ok_commits:
  "flag_ok w \<Longrightarrow> flag_ok (disable w)" "flag_ok (enable_commit wr now m w)"
  "flag_ok w \<Longrightarrow> flag_ok (set_mode_commit b w)"
  by (auto simp: flag_ok_def disable_def enable_commit_def set_mode_commit_def Let_def spawn_watch_def spawn_def
      fresh_stop_def notify_waiters_def)

lemma flag_ok_timer_tick: "flag_ok w \<Longrightarrow> flag_ok (fst (timer_tick wr now e w))"
  by (auto simp: flag_ok_def timer_tick_def Let_def)

lemma flag_ok_tasks [simp]: "flag_ok (w\<lparr>tasks := ts\<rparr>) = flag_ok w" "flag_ok (w\<lparr>tasks := ts, radio := r\<rparr>) = flag_ok w"
  "flag_ok (spawn t w) = flag_ok w" "flag_ok (w\<lparr>auto_config := b\<rparr>) = flag_ok w"
  by (simp_all add: flag_ok_def spawn_def)

lemma flag_ok_step: "away_step w w' \<Longrightarrow> flag_ok w \<Longrightarrow> flag_ok w'"
proof (induction rule: away_step.induct)
  case (stop_reported w ts g e us)
  then show ?case by (simp add: report_stop_error_def flag_ok_def)
next
  case (timer_ticked w ts s e us wr now w')
  then show ?case
    using flag_ok_timer_tick [of "w\<lparr>tasks := ts @ Watcher Timer s e Sleeping # us\<rparr>" wr now e] by simp
next
  case (timer_ended w ts s e us wr now w')
  then show ?case using flag_ok_timer_tick [of "w\<lparr>tasks := ts @ us\<rparr>" wr now e] by simp
qed (simp_all add: flag_ok_complete flag_ok_auto_eval_tick flag_ok_commits)

lemma flag_ok_restore: "flag_ok (restore_from_file owner now (boot_world rtc f auto_on))"
  by (auto simp: flag_ok_def restore_from_file_def boot_world_def mgr_def Let_def auto_seed_decision_def spawn_watch_def
      spawn_def fresh_stop_def split: option.splits flag_file.splits)

interpretation flag_inv: reachable_invariant away_init away_step "\<lambda>w. flag_ok w"
  by unfold_locales (auto simp: away_init_def flag_ok_restore elim: flag_ok_step)

lemma flag_ok_reachable: "away_reachable w \<Longrightarrow> flag_ok w"
  by (auto simp: away_reachable_def intro: flag_inv.reached_inv)

subsection \<open>Readings of the geofence\<close>

text \<open>
  What a sequence of readings settles on: the newest answer that two consecutive readings agree on.
  The list holds the newest reading first.
\<close>

fun settled :: "bool option list \<Rightarrow> bool option" where
  "settled (x # y # cs) = (if x \<noteq> None \<and> x = y then x else settled (y # cs))"
| "settled _ = None"

definition auto_ticks :: "int \<Rightarrow> int \<Rightarrow> bool option list \<Rightarrow> world \<Rightarrow> world" where
  "auto_ticks now inst cs w = foldr (\<lambda>c v. auto_eval_tick True now inst c (epoch (w_inner w)) v) cs w"

definition decided :: "bool option list \<Rightarrow> bool option \<Rightarrow> bool option" where
  "decided cs before = (case settled cs of Some h \<Rightarrow> Some h | None \<Rightarrow> before)"

definition unconfirmed :: "bool option list \<Rightarrow> bool option \<Rightarrow> bool option \<times> nat" where
  "unconfirmed cs home = (case cs of Some c # _ \<Rightarrow> if Some c \<noteq> home then (Some c, 1) else (None, 0) | _ \<Rightarrow> (None, 0))"

lemma auto_eval_tick_fields:
  assumes "mode (w_inner w) = Auto" "epoch (w_inner w) = e"
    and "fold_geofence c (last_is_home (w_inner w)) (pending_is_home (w_inner w)) (pending_count (w_inner w)) = (d, p, n)"
  shows "mode (w_inner (auto_eval_tick wr now inst c e w)) = Auto"
    "epoch (w_inner (auto_eval_tick wr now inst c e w)) = e"
    "pending_is_home (w_inner (auto_eval_tick wr now inst c e w)) = p"
    "pending_count (w_inner (auto_eval_tick wr now inst c e w)) = n"
    "last_is_home (w_inner (auto_eval_tick wr now inst c e w)) = (case d of Some h \<Rightarrow> Some h | None \<Rightarrow> last_is_home (w_inner w))"
  using assms by (auto simp: auto_eval_tick_def Let_def request_ap_start_def request_ap_stop_def spawn_def split: option.splits)

lemma fold_geofence_settles:
  assumes "unconfirmed cs home = (p, n)" "home = decided cs l" "fold_geofence c home p n = (d, p', n')"
  shows "(case d of Some h \<Rightarrow> Some h | None \<Rightarrow> home) = decided (c # cs) l \<and> (p', n') = unconfirmed (c # cs) (decided (c # cs) l)"
proof (cases cs)
  case Nil
  then show ?thesis
    using assms by (auto simp: fold_geofence_def decided_def unconfirmed_def confirm_ticks_def split: option.splits if_splits)
next
  case (Cons y ys)
  define S where "S = settled (y # ys)"
  have step: "settled (c # y # ys) = (if c \<noteq> None \<and> c = y then c else S)"
    by (auto simp: S_def)
  have home: "home = (case S of Some h \<Rightarrow> Some h | None \<Rightarrow> l)"
    using assms(2) by (simp add: decided_def Cons S_def)
  have un: "(p, n) = (case y of Some b \<Rightarrow> if Some b \<noteq> home then (Some b, 1) else (None, 0) | None \<Rightarrow> (None, 0))"
    using assms(1) by (simp add: unconfirmed_def Cons split: option.splits)
  show ?thesis
    using assms(3) un unfolding Cons decided_def unconfirmed_def step home [symmetric] fold_geofence_def confirm_ticks_def
    by (cases c; cases y; cases "c = home"; cases "c = y") (auto simp: home split: if_splits)
qed

lemma auto_ticks_state:
  assumes "mode (w_inner w) = Auto" "pending_is_home (w_inner w) = None" "pending_count (w_inner w) = 0"
  shows "mode (w_inner (auto_ticks now inst cs w)) = Auto \<and> epoch (w_inner (auto_ticks now inst cs w)) = epoch (w_inner w) \<and>
    last_is_home (w_inner (auto_ticks now inst cs w)) = decided cs (last_is_home (w_inner w)) \<and>
    (pending_is_home (w_inner (auto_ticks now inst cs w)), pending_count (w_inner (auto_ticks now inst cs w))) =
      unconfirmed cs (decided cs (last_is_home (w_inner w)))"
proof (induction cs)
  case Nil
  then show ?case using assms by (simp add: auto_ticks_def decided_def unconfirmed_def)
next
  case (Cons c cs)
  let ?v = "auto_ticks now inst cs w"
  have v: "auto_ticks now inst (c # cs) w = auto_eval_tick True now inst c (epoch (w_inner w)) ?v"
    by (simp add: auto_ticks_def)
  obtain d p n where f: "fold_geofence c (last_is_home (w_inner ?v)) (pending_is_home (w_inner ?v)) (pending_count (w_inner ?v)) = (d, p, n)"
    by (metis prod_cases3)
  note fields = auto_eval_tick_fields [OF _ _ f, of "epoch (w_inner w)" True now inst]
  have "(case d of Some h \<Rightarrow> Some h | None \<Rightarrow> last_is_home (w_inner ?v)) = decided (c # cs) (last_is_home (w_inner w)) \<and>
        (p, n) = unconfirmed (c # cs) (decided (c # cs) (last_is_home (w_inner w)))"
    using fold_geofence_settles [OF _ _ f] Cons.IH by metis
  then show ?case
    using fields Cons.IH by (simp add: v)
qed

lemma restored_timer:
  assumes "(if rtc then map_option (\<lambda>e. max 0 (e - now)) (from_rfc3339 (flag_expires_at f))
            else Some (max 0 (flag_remaining_sec f) * ns_per_sec)) = Some r" "r \<noteq> 0"
  shows "state (w_inner (restore_from_file owner now (boot_world rtc (Some (FlagJson f)) False))) = Active"
    "ap_phase (w_inner (restore_from_file owner now (boot_world rtc (Some (FlagJson f)) False))) = Starting"
    "flag (restore_from_file owner now (boot_world rtc (Some (FlagJson f)) False)) = Some (FlagJson f)"
    "expires_at (w_inner (restore_from_file owner now (boot_world rtc (Some (FlagJson f)) False))) = Some (now + r)"
  using assms by (simp_all add: restore_from_file_def boot_world_def mgr_def Let_def spawn_watch_def spawn_def fresh_stop_def
      request_ap_start_def)

subsection \<open>Example runs\<close>

lemma away_reachable_boot: "away_reachable (restore_from_file owner now (boot_world rtc f auto_on))"
  unfolding away_reachable_def away_init_def by blast

lemma away_reachable_step: "away_reachable w \<Longrightarrow> away_step w w' \<Longrightarrow> away_reachable w'"
  by (auto simp: away_reachable_def intro: rtranclp.rtrancl_into_rtrancl)

lemma boot_idle: "restore_from_file False 0 (boot_world True None False) = boot_world True None False"
  by (simp add: restore_from_file_def boot_world_def Let_def)

definition a_profile :: ap_profile where
  "a_profile = \<lparr>ap_ssid = lit ''SENTRYUSB'', ap_ip = lit ''192.168.66.1''\<rparr>"

text \<open>A timer of ten minutes, started at time zero on a device with a clock.\<close>

definition session :: "task list \<Rightarrow> ap_phase_kind \<Rightarrow> radio \<Rightarrow> world" where
  "session ts ph r = \<lparr>w_inner = (mgr True)\<lparr>state := Active, expires_at := Some (600 * ns_per_sec), enabled_at := Some 0,
       stop := 1, epoch := 1, ap_phase := ph, ap_generation := 1\<rparr>,
     flag = Some (FlagJson \<lparr>flag_expires_at = Some 600, flag_enabled_at = Some 0, flag_remaining_sec = 600, flag_has_rtc = True\<rparr>),
     auto_config = False, tasks = ts, radio = r, stops = 2, notified = [0]\<rparr>"

lemma session_started: "away_reachable (session [Watcher Timer 1 1 Sleeping, StartWait 1] Starting Unsettled)"
proof -
  let ?b = "boot_world True None False"
  have "enable_check (Some (Some 10)) (w_inner ?b) = Inr 10"
    by (simp add: enable_check_def boot_world_def mgr_def max_duration_min_def)
  then have "away_reachable (spawn (EnableReq 10) ?b)"
    using away_reachable_boot [of False 0 True None False] enable_accepted away_reachable_step by (metis boot_idle)
  moreover have "tasks (spawn (EnableReq 10) ?b) = [] @ EnableReq 10 # []" "require_ap_profile (Inr (Some a_profile)) = Inr a_profile"
    by (simp_all add: spawn_def boot_world_def require_ap_profile_def)
  ultimately have "away_reachable (enable_commit True 0 10 ((spawn (EnableReq 10) ?b)\<lparr>tasks := [] @ []\<rparr>))"
    by (blast intro: away_reachable_step enable_committed)
  moreover have "enable_commit True 0 10 ((spawn (EnableReq 10) ?b)\<lparr>tasks := [] @ []\<rparr>) =
      session [Watcher Timer 1 1 Sleeping, StartWait 1] Starting Unsettled"
    by (simp add: enable_commit_def session_def spawn_def boot_world_def mgr_def Let_def notify_waiters_def fresh_stop_def
        spawn_watch_def request_ap_start_def write_flag_file_def to_rfc3339_def remaining_seconds_def ns_per_sec_def)
  ultimately show ?thesis by simp
qed

lemma session_tasks [simp]: "tasks (session ts ph r) = ts" "radio (session ts ph r) = r"
  "(session ts ph r)\<lparr>tasks := us\<rparr> = session us ph r" "(session ts ph r)\<lparr>radio := r'\<rparr> = session ts ph r'"
  "ap_generation (w_inner (session ts ph r)) = 1" "ap_phase (w_inner (session ts ph r)) = ph"
  by (simp_all add: session_def)

lemma session_on: "away_reachable (session [Watcher Timer 1 1 Sleeping] On HotspotUp)"
proof -
  let ?t = "[Watcher Timer 1 1 Sleeping]"
  have 1: "away_step (session (?t @ [StartWait 1]) Starting Unsettled) (session (?t @ [StartRun 1]) Starting Unsettled)"
    using start_locked [of "session (?t @ [StartWait 1]) Starting Unsettled" ?t 1 "[]"] by (simp add: radio_free_def)
  have 2: "away_step (session (?t @ [StartRun 1]) Starting Unsettled) (session (?t @ [StartFinish 1 (Inr ())]) Starting HotspotUp)"
    using start_returned [of "session (?t @ [StartRun 1]) Starting Unsettled" ?t 1 "[]" "Inr ()"] by simp
  have "complete_ap_start 0 1 (Inr ()) (session ?t Starting HotspotUp) = session ?t On HotspotUp"
    by (simp add: complete_ap_start_def finish_ap_start_def session_def)
  then have 3: "away_step (session (?t @ [StartFinish 1 (Inr ())]) Starting HotspotUp) (session ?t On HotspotUp)"
    using start_finished [of "session (?t @ [StartFinish 1 (Inr ())]) Starting HotspotUp" ?t 1 "Inr ()" "[]" 0] by simp
  have "away_reachable (session (?t @ [StartWait 1]) Starting Unsettled)"
    using session_started by simp
  then show ?thesis
    by (rule away_reachable_step [OF away_reachable_step [OF away_reachable_step [OF _ 1] 2] 3])
qed

fun is_geofence :: "task \<Rightarrow> bool" where
  "is_geofence (Watcher Geofence _ _ _) = True"
| "is_geofence _ = False"

fun is_request :: "task \<Rightarrow> bool" where
  "is_request (EnableReq _) = True"
| "is_request (ModeReq _) = True"
| "is_request _ = False"

lemma away_reachable_mode:
  assumes "away_reachable w"
  shows "away_reachable (spawn (ModeReq b) (w\<lparr>auto_config := b\<rparr>))"
proof -
  have "parse_mode (if b then lit ''auto'' else lit ''manual'') = Inr b"
    by (simp add: parse_mode_def)
  moreover have "b \<longrightarrow> is_ok (require_ap_profile (Inr (Some a_profile)))"
    by (simp add: require_ap_profile_def)
  ultimately show ?thesis
    by (rule away_reachable_step [OF assms mode_persisted])
qed

lemma away_reachable_commits:
  "away_reachable w \<Longrightarrow> tasks w = ts @ ModeReq b # us \<Longrightarrow> away_reachable (set_mode_commit b (w\<lparr>tasks := ts @ us\<rparr>))"
  "away_reachable w \<Longrightarrow> tasks w = ts @ EnableReq m # us \<Longrightarrow> away_reachable (enable_commit wr now m (w\<lparr>tasks := ts @ us\<rparr>))"
  using mode_committed [of w ts b us] enable_committed [of w ts m us "Inr (Some a_profile)" a_profile wr now]
  by (auto simp: require_ap_profile_def intro: away_reachable_step)

section \<open>Properties\<close>

text \<open>
  C5. Whatever requests, watchers and radio jobs interleave, at most one job drives the radio, and once no
  job and no health check is in progress the phase shown agrees with the radio: it is never left at
  starting, on means that the last command of the radio was a start that succeeded, and off means that
  it was a stop that succeeded, unless an error is shown or nothing was requested since boot.
\<close>

theorem hotspot_settles:
  assumes "away_reachable w"
  shows "length (filter holds (tasks w)) \<le> 1 \<and>
    (list_all (\<lambda>t. job_gen t = None \<and> check_gen t = None) (tasks w) \<longrightarrow>
       (case ap_phase (w_inner w) of
          Starting \<Rightarrow> False
        | On \<Rightarrow> radio w = HotspotUp
        | Off \<Rightarrow> radio w = HotspotDown \<or> ap_start_error (w_inner w) \<noteq> None \<or> ap_generation (w_inner w) = 0))"
proof -
  note inv = radio_ok_reachable [OF assms]
  have "case ap_phase (w_inner w) of
          Starting \<Rightarrow> False
        | On \<Rightarrow> radio w = HotspotUp
        | Off \<Rightarrow> radio w = HotspotDown \<or> ap_start_error (w_inner w) \<noteq> None \<or> ap_generation (w_inner w) = 0"
    if quiet: "list_all (\<lambda>t. job_gen t = None \<and> check_gen t = None) (tasks w)"
  proof -
    have "jobs (ap_generation (w_inner w)) (tasks w) = []"
      using quiet by (simp add: jobs_def list_all_iff filter_empty_conv)
    moreover have "\<not> awaiting_finish g t" if "t \<in> set (tasks w)" for g t
      using quiet that by (auto simp: list_all_iff elim!: awaiting_finish.elims dest!: bspec)
    ultimately show ?thesis
      using inv by (auto simp: radio_inv_def list_ex_iff split: ap_phase_kind.splits)
  qed
  then show ?thesis
    using inv by (simp add: radio_inv_def)
qed

theorem hotspot_settles_witness:
  "away_reachable (session [Watcher Timer 1 1 Sleeping] On HotspotUp) \<and>
   length (filter holds (tasks (session [Watcher Timer 1 1 Sleeping] On HotspotUp))) \<le> 1 \<and>
   radio (session [Watcher Timer 1 1 Sleeping] On HotspotUp) = HotspotUp"
  using hotspot_settles [OF session_on] session_on by simp

text \<open>
  C30. A running timer always has exactly one watcher of the current epoch, which no notification has told to
  stop; at its next tick after the time is up the timer ends, the flag file is removed and a stop of the
  hotspot is queued under a new generation.
\<close>

theorem timer_is_watched:
  assumes "away_reachable w" "state (w_inner w) = Active"
    and "case expires_at (w_inner w) of Some e \<Rightarrow> e \<le> now | None \<Rightarrow> True"
  shows "\<exists>s p w'. live (epoch (w_inner w)) (tasks w) = [Watcher Timer s (epoch (w_inner w)) p] \<and> s \<notin> set (notified w) \<and>
    timer_tick wr now (epoch (w_inner w)) w = (w', True) \<and> state (w_inner w') = Idle \<and> ap_phase (w_inner w') = Off \<and>
    flag w' = None \<and> ap_generation (w_inner w') = Suc (ap_generation (w_inner w)) \<and>
    StopWait (ap_generation (w_inner w')) \<in> set (tasks w')"
proof -
  have inv: "watch_ok w"
    by (rule watch_ok_reachable [OF assms(1)])
  then obtain s p where l: "live (epoch (w_inner w)) (tasks w) = [Watcher Timer s (epoch (w_inner w)) p]"
    using assms(2) by (auto simp: watch_inv_def)
  then have "Watcher Timer s (epoch (w_inner w)) p \<in> set (tasks w)"
    by (auto simp: live_def dest!: filter_eq_ConsD)
  then have "s \<notin> set (notified w)"
    using inv by (auto simp: watch_inv_def list_all_iff dest!: bspec)
  then show ?thesis
    using l assms(2,3) by (auto simp: timer_tick_def Let_def request_ap_stop_def spawn_def split: option.splits)
qed

theorem timer_is_watched_witness:
  "\<exists>s p w'. live 1 (tasks (session [Watcher Timer 1 1 Sleeping] On HotspotUp)) = [Watcher Timer s 1 p] \<and>
    timer_tick True (600 * ns_per_sec) 1 (session [Watcher Timer 1 1 Sleeping] On HotspotUp) = (w', True) \<and> flag w' = None"
proof -
  have "state (w_inner (session [Watcher Timer 1 1 Sleeping] On HotspotUp)) = Active"
    "expires_at (w_inner (session [Watcher Timer 1 1 Sleeping] On HotspotUp)) = Some (600 * ns_per_sec)"
    "epoch (w_inner (session [Watcher Timer 1 1 Sleeping] On HotspotUp)) = 1"
    by (simp_all add: session_def)
  then show ?thesis
    using timer_is_watched [OF session_on, of "600 * ns_per_sec" True] by auto
qed

text \<open>
  The flag file exists only while a timer runs or the geofence is in charge and has not settled on home,
  in every interleaving.
\<close>

theorem flag_only_in_session:
  assumes "away_reachable w" "flag w \<noteq> None"
  shows "state (w_inner w) = Active \<or> (mode (w_inner w) = Auto \<and> last_is_home (w_inner w) \<noteq> Some True)"
  using flag_ok_reachable [OF assms(1)] assms(2) by (simp add: flag_ok_def)

theorem flag_only_in_session_witness:
  "flag (session [Watcher Timer 1 1 Sleeping] On HotspotUp) \<noteq> None \<and>
   state (w_inner (session [Watcher Timer 1 1 Sleeping] On HotspotUp)) = Active"
proof -
  have "flag (session [Watcher Timer 1 1 Sleeping] On HotspotUp) \<noteq> None"
    "mode (w_inner (session [Watcher Timer 1 1 Sleeping] On HotspotUp)) = Manual"
    by (simp_all add: session_def mgr_def)
  then show ?thesis
    using flag_only_in_session [OF session_on] by simp
qed

text \<open>
  Under the geofence the place decided on is the newest answer that two consecutive readings agree on
  (missing or stale fixes and readings in the band around the boundary agree with nothing), and the
  place decided before if there is none: one outlier never switches the hotspot, two readings always do.
\<close>

theorem geofence_debounced:
  assumes "mode (w_inner w) = Auto" "pending_is_home (w_inner w) = None" "pending_count (w_inner w) = 0"
  shows "last_is_home (w_inner (auto_ticks now inst cs w)) =
    (case settled cs of Some h \<Rightarrow> Some h | None \<Rightarrow> last_is_home (w_inner w))"
  using auto_ticks_state [OF assms, of now inst cs] by (simp add: decided_def)

theorem geofence_debounced_witness:
  "last_is_home (w_inner (auto_ticks 0 0 [Some True, Some False, Some False, None, Some True]
      (restore_from_file False 0 (boot_world True None True)))) = Some False"
  using geofence_debounced [of "restore_from_file False 0 (boot_world True None True)" 0 0
      "[Some True, Some False, Some False, None, Some True]"]
  by (simp add: restore_from_file_def boot_world_def mgr_def Let_def auto_seed_decision_def should_start_ap_on_boot_def
      spawn_watch_def spawn_def fresh_stop_def)

text \<open>
  Two requests can pass each other between their checks and their locks. An \<^verbatim>\<open>enable\<close> that was checked
  in manual mode takes effect after a switch to automatic mode and ends its watcher: the mode is
  automatic, no request is pending, and nothing evaluates the geofence any more. Two switches of the mode
  leave the setting on disk at manual while the mode is automatic.
\<close>

theorem requests_race:
  "(\<exists>w. away_reachable w \<and> mode (w_inner w) = Auto \<and> list_all (\<lambda>t. \<not> is_geofence t \<and> \<not> is_request t) (tasks w)) \<and>
   (\<exists>w. away_reachable w \<and> mode (w_inner w) = Auto \<and> \<not> auto_config w \<and> list_all (\<lambda>t. \<not> is_request t) (tasks w))"
proof
  define w0 where "w0 = boot_world True None False"
  have r0: "away_reachable w0"
    using away_reachable_boot [of False 0 True None False] by (simp add: w0_def boot_idle)
  have "away_step w0 (spawn (EnableReq 10) w0)"
    by (rule enable_accepted [of "Some (Some 10)"])
       (simp add: enable_check_def w0_def boot_world_def mgr_def max_duration_min_def)
  with r0 have "away_reachable (spawn (EnableReq 10) w0)"
    by (rule away_reachable_step)
  from away_reachable_mode [OF this, of True]
  have 1: "away_reachable (w0\<lparr>auto_config := True, tasks := [ModeReq True, EnableReq 10]\<rparr>)"
    by (simp add: spawn_def w0_def boot_world_def)
  define w1 where "w1 = set_mode_commit True (w0\<lparr>auto_config := True, tasks := [EnableReq 10]\<rparr>)"
  have 2: "away_reachable w1" "tasks w1 = [Watcher Geofence 1 1 Sleeping] @ EnableReq 10 # []"
    using away_reachable_commits(1) [OF 1, of "[]" True "[EnableReq 10]"]
    by (simp_all add: w1_def set_mode_commit_def w0_def boot_world_def mgr_def Let_def notify_waiters_def fresh_stop_def
        spawn_watch_def spawn_def)
  define w2 where "w2 = enable_commit True 0 10 (w1\<lparr>tasks := [Watcher Geofence 1 1 Sleeping]\<rparr>)"
  have 3: "away_reachable w2"
    using away_reachable_commits(2) [OF 2, of True 0] by (simp add: w2_def)
  have 4: "tasks w2 = [Watcher Timer 2 2 Sleeping, StartWait 1] @ Watcher Geofence 1 1 Sleeping # []"
    "epoch (w_inner w2) = 2" "mode (w_inner w2) = Auto"
    by (simp_all add: w2_def w1_def enable_commit_def set_mode_commit_def w0_def boot_world_def mgr_def Let_def notify_waiters_def
        fresh_stop_def spawn_watch_def spawn_def request_ap_start_def write_flag_file_def)
  have "away_reachable (w2\<lparr>tasks := [Watcher Timer 2 2 Sleeping, StartWait 1]\<rparr>)"
    using away_reachable_step [OF 3 geofence_superseded [OF 4(1)]] 4(2) by simp
  then show "\<exists>w. away_reachable w \<and> mode (w_inner w) = Auto \<and> list_all (\<lambda>t. \<not> is_geofence t \<and> \<not> is_request t) (tasks w)"
    using 4(3) by (intro exI [of _ "w2\<lparr>tasks := [Watcher Timer 2 2 Sleeping, StartWait 1]\<rparr>"]) simp
  from away_reachable_mode [OF away_reachable_mode [OF r0, of True], of False]
  have 5: "away_reachable (w0\<lparr>auto_config := False, tasks := [ModeReq False, ModeReq True]\<rparr>)"
    by (simp add: spawn_def w0_def boot_world_def)
  define w3 where "w3 = set_mode_commit False (w0\<lparr>auto_config := False, tasks := [ModeReq True]\<rparr>)"
  have 6: "away_reachable w3" "tasks w3 = [StopWait 1] @ ModeReq True # []"
    using away_reachable_commits(1) [OF 5, of "[]" False "[ModeReq True]"]
    by (simp_all add: w3_def set_mode_commit_def w0_def boot_world_def mgr_def Let_def notify_waiters_def spawn_def)
  have "away_reachable (set_mode_commit True (w3\<lparr>tasks := [StopWait 1]\<rparr>))"
    using away_reachable_commits(1) [OF 6] by simp
  moreover have "mode (w_inner (set_mode_commit True (w3\<lparr>tasks := [StopWait 1]\<rparr>))) = Auto \<and>
      \<not> auto_config (set_mode_commit True (w3\<lparr>tasks := [StopWait 1]\<rparr>)) \<and>
      list_all (\<lambda>t. \<not> is_request t) (tasks (set_mode_commit True (w3\<lparr>tasks := [StopWait 1]\<rparr>)))"
    by (simp add: w3_def set_mode_commit_def w0_def boot_world_def mgr_def Let_def notify_waiters_def spawn_def fresh_stop_def
        spawn_watch_def remove_flag_file_def request_ap_stop_def)
  ultimately show "\<exists>w. away_reachable w \<and> mode (w_inner w) = Auto \<and> \<not> auto_config w \<and> list_all (\<lambda>t. \<not> is_request t) (tasks w)"
    by blast
qed

text \<open>
  A timer whose flag was written at \<open>now0\<close> is taken up again by a restart at \<open>now\<close>: with a clock it ends
  in the second in which it would have ended, without one it runs for the time that was left at the
  write; in both cases the hotspot is started and the flag stays.
\<close>

theorem timer_survives_restart:
  assumes "expires_at (w_inner w) = Some e" "now0 \<le> e"
    and "w' = restore_from_file owner now (boot_world (has_rtc (w_inner w)) (flag (write_flag_file True now0 w)) False)"
    and "if has_rtc (w_inner w) then now < e div ns_per_sec * ns_per_sec else ns_per_sec \<le> e - now0"
  shows "state (w_inner w') = Active \<and> ap_phase (w_inner w') = Starting \<and> flag w' = flag (write_flag_file True now0 w) \<and>
    expires_at (w_inner w') = Some (if has_rtc (w_inner w) then e div ns_per_sec * ns_per_sec
                                    else now + (e - now0) div ns_per_sec * ns_per_sec)"
proof -
  let ?f = "\<lparr>flag_expires_at = to_rfc3339 e, flag_enabled_at = to_rfc3339 (case enabled_at (w_inner w) of Some t \<Rightarrow> t | None \<Rightarrow> now0),
      flag_remaining_sec = (e - now0) div ns_per_sec, flag_has_rtc = has_rtc (w_inner w)\<rparr>"
  have f: "flag (write_flag_file True now0 w) = Some (FlagJson ?f)"
    using assms(1,2) by (simp add: write_flag_file_def Let_def remaining_seconds_def)
  show ?thesis
  proof (cases "has_rtc (w_inner w)")
    case True
    then show ?thesis
      using assms(4) restored_timer [of "has_rtc (w_inner w)" now ?f "e div ns_per_sec * ns_per_sec - now" owner]
      unfolding assms(3) f by (simp add: to_rfc3339_def from_rfc3339_def)
  next
    case False
    then have "0 < (e - now0) div ns_per_sec"
      using assms(4) by (simp add: ns_per_sec_def pos_imp_zdiv_pos_iff)
    then show ?thesis
      using False restored_timer [of "has_rtc (w_inner w)" now ?f "(e - now0) div ns_per_sec * ns_per_sec" owner]
      unfolding assms(3) f by (simp add: ns_per_sec_def)
  qed
qed

theorem timer_survives_restart_witness:
  "state (w_inner (restore_from_file False (100 * ns_per_sec) (boot_world True
      (flag (write_flag_file True 0 (session [] On HotspotUp))) False))) = Active \<and>
   expires_at (w_inner (restore_from_file False (100 * ns_per_sec) (boot_world True
      (flag (write_flag_file True 0 (session [] On HotspotUp))) False))) = Some (600 * ns_per_sec)"
proof -
  let ?s = "session [] On HotspotUp"
  have e: "expires_at (w_inner ?s) = Some (600 * ns_per_sec)" and h: "has_rtc (w_inner ?s) = True"
    by (simp_all add: session_def mgr_def)
  have "(0 :: int) \<le> 600 * ns_per_sec"
    "if has_rtc (w_inner ?s) then 100 * ns_per_sec < 600 * ns_per_sec div ns_per_sec * ns_per_sec else ns_per_sec \<le> 600 * ns_per_sec - 0"
    by (simp_all add: ns_per_sec_def h)
  from timer_survives_restart [OF e this(1) refl this(2), of False, unfolded h if_True]
  show ?thesis
    by (simp add: ns_per_sec_def)
qed

end
