(* ===== verification/ArchiveControl.thy ===== *)
theory ArchiveControl
  imports Prelude
begin

section \<open>Archive control\<close>

text \<open>
  \<^verbatim>\<open>crates/drives/src/archive_control.rs\<close>: the counter of background work shared by the workers and
  the updater (a 64-bit atomic changed by compare-and-exchange loops, so a step relation over all
  interleavings of the threads), and the one-shot cancellation of an archive cycle.
\<close>

definition update_exclusive :: u64 where "update_exclusive = -1"

text \<open>A thread outside the guards, inside the loop of \<open>try_begin_work\<close>, or holding a guard.\<close>

datatype thread = Outside | Trying u64 | HasWork | HasUpdate

record work_state =
  work :: u64
  threads :: "nat \<Rightarrow> thread"

abbreviation set_thread :: "nat \<Rightarrow> thread \<Rightarrow> work_state \<Rightarrow> work_state" where
  "set_thread t x s \<equiv> s\<lparr>threads := (threads s)(t := x)\<rparr>"

inductive work_step :: "work_state \<Rightarrow> work_state \<Rightarrow> bool" where
  begin_load: "threads s t = Outside \<Longrightarrow> work_step s (set_thread t (Trying (work s)) s)"
| begin_refused: "threads s t = Trying cur \<Longrightarrow> cur \<ge> update_exclusive - 1 \<Longrightarrow>
    work_step s (set_thread t Outside s)"
| begin_exchanged: "threads s t = Trying cur \<Longrightarrow> cur < update_exclusive - 1 \<Longrightarrow> work s = cur \<Longrightarrow>
    work_step s (set_thread t HasWork (s\<lparr>work := cur + 1\<rparr>))"
| begin_retry: "threads s t = Trying cur \<Longrightarrow> cur < update_exclusive - 1 \<Longrightarrow>
    work_step s (set_thread t (Trying (work s)) s)"
| work_dropped: "threads s t = HasWork \<Longrightarrow> work_step s (set_thread t Outside (s\<lparr>work := work s - 1\<rparr>))"
| update_acquired: "threads s t = Outside \<Longrightarrow> work s = 0 \<Longrightarrow>
    work_step s (set_thread t HasUpdate (s\<lparr>work := update_exclusive\<rparr>))"
| update_refused: "threads s t = Outside \<Longrightarrow> work s \<noteq> 0 \<Longrightarrow> work_step s s"
| update_dropped: "threads s t = HasUpdate \<Longrightarrow> work_step s (set_thread t Outside (s\<lparr>work := 0\<rparr>))"

definition is_running :: "work_state \<Rightarrow> bool" where "is_running s \<longleftrightarrow> work s \<noteq> 0"

definition work_init :: work_state where "work_init = \<lparr>work = 0, threads = (\<lambda>_. Outside)\<rparr>"

subsection \<open>Cancelling a cycle\<close>

text \<open>
  The directory: the cycle file, the cancellation and failure markers (one file per cycle), and
  the durable marker that defers the cleanup of footage.
\<close>

record control_dir =
  cycle_file :: "ustr option"
  cancel_markers :: "ustr set"
  failed_markers :: "ustr set"
  cleanup_deferred :: bool

datatype cancel_error = CycleLockBusy | CycleEnded | CannotProtect | CannotMark

text \<open>What the host does with the durable marker: not created, created without a completed sync, or durable.\<close>

datatype persist = NotCreated | NotSynced | Durable

definition nonce_char :: "int \<Rightarrow> bool" where
  "nonce_char b \<longleftrightarrow> is_alnum b \<or> b = 45"

definition active_cycle :: "(nat \<Rightarrow> bool) \<Rightarrow> control_dir \<Rightarrow> ustr option" where
  "active_cycle alive d =
     (case cycle_file d of
        None \<Rightarrow> None
      | Some content \<Rightarrow>
          let cid = trim content
          in case split_once 58 cid of
               None \<Rightarrow> None
             | Some (pid_text, nonce) \<Rightarrow>
                 (case parse_unsigned (2 ^ 32 - 1) pid_text of
                    None \<Rightarrow> None
                  | Some pid \<Rightarrow>
                      if nonce = [] \<or> utf8_len cid > 128 \<or> \<not> list_all nonce_char nonce then None
                      else if \<not> alive pid then None
                      else Some cid))"

definition cycle_cancelled :: "ustr \<Rightarrow> control_dir \<Rightarrow> bool" where
  "cycle_cancelled cid d \<longleftrightarrow> cid \<in> cancel_markers d"

definition cancelled :: "(nat \<Rightarrow> bool) \<Rightarrow> control_dir \<Rightarrow> bool" where
  "cancelled alive d =
     (case active_cycle alive d of None \<Rightarrow> False | Some cid \<Rightarrow> cycle_cancelled cid d)"

definition mark_failed :: "(nat \<Rightarrow> bool) \<Rightarrow> bool \<Rightarrow> control_dir \<Rightarrow> control_dir" where
  "mark_failed alive write_ok d =
     (case active_cycle alive d of
        None \<Rightarrow> d
      | Some cid \<Rightarrow> if write_ok then d\<lparr>failed_markers := insert cid (failed_markers d)\<rparr> else d)"

definition request_cancel ::
  "(nat \<Rightarrow> bool) \<Rightarrow> bool \<Rightarrow> persist \<Rightarrow> bool \<Rightarrow> ustr \<Rightarrow> control_dir \<Rightarrow> control_dir \<times> (cancel_error + unit)" where
  "request_cancel alive lock_ok persisted mark_ok expected d =
     (if \<not> lock_ok then (d, Inl CycleLockBusy)
      else if active_cycle alive d \<noteq> Some expected then (d, Inl CycleEnded)
      else case persisted of
             NotCreated \<Rightarrow> (d, Inl CannotProtect)
           | NotSynced \<Rightarrow> (d\<lparr>cleanup_deferred := True\<rparr>, Inl CannotProtect)
           | Durable \<Rightarrow>
               let d1 = d\<lparr>cleanup_deferred := True\<rparr>
               in if mark_ok then (d1\<lparr>cancel_markers := insert expected (cancel_markers d1)\<rparr>, Inr ())
                  else (d1, Inl CannotMark))"

section \<open>Lemmas\<close>

definition holders :: "thread \<Rightarrow> (nat \<Rightarrow> thread) \<Rightarrow> nat set" where
  "holders x f = {t. f t = x}"

abbreviation workers :: "work_state \<Rightarrow> nat set" where "workers s \<equiv> holders HasWork (threads s)"
abbreviation updaters :: "work_state \<Rightarrow> nat set" where "updaters s \<equiv> holders HasUpdate (threads s)"

definition work_inv :: "work_state \<Rightarrow> bool" where
  "work_inv s \<longleftrightarrow> finite (workers s) \<and>
     ((updaters s = {} \<and> unat (work s) = card (workers s) \<and> unat (work s) < 2 ^ 64 - 1) \<or>
      ((\<exists>t. updaters s = {t}) \<and> workers s = {} \<and> work s = update_exclusive))"

lemma holders_upd [simp]:
  "holders y (f(t := x)) = (if x = y then insert t (holders y f) else holders y f - {t})"
  by (auto simp: holders_def)

lemma in_holders: "t \<in> holders x f \<longleftrightarrow> f t = x"
  by (simp add: holders_def)

lemma unat_update_exclusive: "unat update_exclusive = 2 ^ 64 - 1"
  by (simp add: update_exclusive_def unsigned_minus_1_eq_mask mask_eq_exp_minus_1)

lemma unat_below_exclusive: "unat (update_exclusive - 1) = 2 ^ 64 - 2"
proof -
  have "update_exclusive \<noteq> 0" by (simp add: update_exclusive_def)
  then show ?thesis by (simp add: unat_minus_one unat_update_exclusive)
qed

lemma below_sentinel: "(x :: u64) < update_exclusive - 1 \<Longrightarrow> unat (x + 1) = unat x + 1 \<and> unat x + 1 < 2 ^ 64 - 1"
proof -
  assume "x < update_exclusive - 1"
  then have b: "unat x < 2 ^ 64 - 2" by (simp add: word_less_nat_alt unat_below_exclusive)
  then have "unat (x + 1) = unat x + 1" by (simp add: unat_word_ariths)
  with b show ?thesis by simp
qed

lemma work_step_inv:
  assumes "work_step s s'" "work_inv s"
  shows "work_inv s'"
  using assms
proof (induction rule: work_step.induct)
  case (begin_exchanged s t cur)
  have t: "t \<notin> workers s" "t \<notin> updaters s" using begin_exchanged(1) by (simp_all add: in_holders)
  have "work s \<noteq> update_exclusive"
    using begin_exchanged(2,3) by (auto simp: word_less_nat_alt unat_below_exclusive unat_update_exclusive)
  with begin_exchanged(4) have "updaters s = {}" "unat (work s) = card (workers s)" "finite (workers s)"
    by (auto simp: work_inv_def)
  with t below_sentinel [OF begin_exchanged(2)] begin_exchanged(3) show ?case by (simp add: work_inv_def)
next
  case (work_dropped s t)
  have t: "t \<in> workers s" "t \<notin> updaters s" using work_dropped(1) by (simp_all add: in_holders)
  with work_dropped(2) have w: "updaters s = {}" "unat (work s) = card (workers s)" "finite (workers s)"
    "unat (work s) < 2 ^ 64 - 1"
    by (auto simp: work_inv_def)
  with t(1) have "work s \<noteq> 0" by (metis card_0_eq empty_iff unat_eq_0)
  with t w show ?case by (simp add: work_inv_def unat_minus_one)
next
  case (update_acquired s t)
  then have t: "t \<notin> workers s" "t \<notin> updaters s" by (simp_all add: in_holders)
  from update_acquired(2,3) have "workers s = {}" "updaters s = {}"
    by (auto simp: work_inv_def update_exclusive_def)
  with t show ?case by (simp add: work_inv_def)
next
  case (update_dropped s t)
  then have "t \<in> updaters s" "t \<notin> workers s" by (simp_all add: in_holders)
  with update_dropped(2) have "updaters s = {t}" "workers s = {}" by (auto simp: work_inv_def)
  then show ?case by (simp add: work_inv_def)
next
  case (begin_load s t)
  then have "t \<notin> workers s" "t \<notin> updaters s" by (simp_all add: in_holders)
  with begin_load(2) show ?case by (simp add: work_inv_def)
next
  case (begin_refused s t cur)
  then have "t \<notin> workers s" "t \<notin> updaters s" by (simp_all add: in_holders)
  with begin_refused(3) show ?case by (simp add: work_inv_def)
next
  case (begin_retry s t cur)
  then have "t \<notin> workers s" "t \<notin> updaters s" by (simp_all add: in_holders)
  with begin_retry(3) show ?case by (simp add: work_inv_def)
qed simp

lemma work_reachable_inv: "work_step\<^sup>*\<^sup>* work_init s \<Longrightarrow> work_inv s"
proof (induction rule: rtranclp_induct)
  case base
  show ?case by (simp add: work_inv_def work_init_def holders_def)
next
  case (step s s')
  then show ?case by (blast intro: work_step_inv)
qed

subsection \<open>Properties\<close>

text \<open>
  C10. Updates and background work exclude each other: in every interleaving of any number of
  threads, at most one thread holds the update guard and then none holds a work guard; the counter
  equals the number of work guards held, never reaches the sentinel by counting, and reads as
  quiescent exactly when no guard of either kind is held.
\<close>

theorem update_excludes_work:
  assumes "work_step\<^sup>*\<^sup>* work_init s"
  shows "(\<forall>t u. threads s t = HasUpdate \<and> threads s u = HasUpdate \<longrightarrow> t = u) \<and>
    (\<forall>t u. threads s t = HasUpdate \<longrightarrow> threads s u \<noteq> HasWork) \<and>
    ((\<nexists>t. threads s t = HasUpdate) \<longrightarrow> unat (work s) = card {t. threads s t = HasWork} \<and> work s < update_exclusive) \<and>
    (\<not> is_running s \<longleftrightarrow> (\<forall>t. threads s t \<noteq> HasUpdate \<and> threads s t \<noteq> HasWork))"
proof -
  from work_reachable_inv [OF assms] have inv: "work_inv s" .
  show ?thesis
  proof (cases "updaters s = {}")
    case True
    with inv have w: "unat (work s) = card (workers s)" "finite (workers s)" "unat (work s) < 2 ^ 64 - 1"
      by (auto simp: work_inv_def)
    have u: "threads s t \<noteq> HasUpdate" for t using True by (auto simp: holders_def)
    have "work s = 0 \<longleftrightarrow> workers s = {}" using w(1,2) by (metis card_0_eq unat_eq_0)
    moreover have "work s < update_exclusive" using w(3) by (simp add: word_less_nat_alt unat_update_exclusive)
    ultimately show ?thesis using w u by (auto simp: is_running_def holders_def)
  next
    case False
    with inv obtain t where t: "updaters s = {t}" "workers s = {}" "work s = update_exclusive"
      by (auto simp: work_inv_def)
    have "threads s u = HasUpdate \<longleftrightarrow> u = t" "threads s u \<noteq> HasWork" for u
      using t(1,2) by (auto simp: holders_def)
    with t(3) show ?thesis by (auto simp: is_running_def update_exclusive_def)
  qed
qed

theorem update_excludes_work_witness:
  "threads (set_thread 3 HasUpdate (work_init\<lparr>work := update_exclusive\<rparr>)) 3 = HasUpdate \<and>
   threads (set_thread 3 HasUpdate (work_init\<lparr>work := update_exclusive\<rparr>)) 4 \<noteq> HasWork"
proof -
  let ?s = "set_thread 3 HasUpdate (work_init\<lparr>work := update_exclusive\<rparr>)"
  have "work_step work_init ?s" by (rule update_acquired) (simp_all add: work_init_def)
  then have "work_step\<^sup>*\<^sup>* work_init ?s" by (rule r_into_rtranclp)
  from update_excludes_work [OF this] show ?thesis by (simp add: work_init_def)
qed

text \<open>
  C33. A cancellation is durable before it is visible: whatever fails, a cancellation marker appears
  only for the cycle that is active and that the caller named, and only once the marker deferring
  the cleanup of footage is in place; success makes that cycle read as cancelled, and no request
  touches the markers of another cycle or removes any.
\<close>

theorem cancel_protects_footage:
  assumes "request_cancel alive lock_ok persisted mark_ok expected d = (d', res)"
  shows "(\<forall>cid. cid \<in> cancel_markers d' - cancel_markers d \<longrightarrow>
      cid = expected \<and> active_cycle alive d = Some expected \<and> cleanup_deferred d' \<and> persisted = Durable) \<and>
    (res = Inr () \<longrightarrow> cancelled alive d' \<and> cycle_cancelled expected d' \<and> cleanup_deferred d') \<and>
    (active_cycle alive d \<noteq> Some expected \<longrightarrow> d' = d \<and> res \<noteq> Inr ()) \<and>
    cancel_markers d \<subseteq> cancel_markers d' \<and> active_cycle alive d' = active_cycle alive d"
proof -
  have cf: "cycle_file d' = cycle_file d"
    using assms by (auto simp: request_cancel_def Let_def split: if_splits persist.splits)
  then have ac: "active_cycle alive d' = active_cycle alive d" by (simp add: active_cycle_def)
  show ?thesis
    using assms ac
    by (auto simp: request_cancel_def cancelled_def cycle_cancelled_def Let_def split: if_splits persist.splits)
qed

definition demo_dir :: control_dir where
  "demo_dir = \<lparr>cycle_file = Some (lit ''7:ab-1''), cancel_markers = {}, failed_markers = {},
     cleanup_deferred = False\<rparr>"

theorem cancel_protects_footage_witness:
  "snd (request_cancel (\<lambda>_. True) True Durable True (lit ''7:ab-1'') demo_dir) = Inr () \<and>
   cancelled (\<lambda>_. True) (fst (request_cancel (\<lambda>_. True) True Durable True (lit ''7:ab-1'') demo_dir))"
proof -
  have a: "active_cycle (\<lambda>_. True) demo_dir = Some (lit ''7:ab-1'')"
    by (simp add: active_cycle_def demo_dir_def text_eval is_alnum_def is_alpha_def nonce_char_def
        utf8_len_def utf8_width_def)
  obtain d' res where r: "request_cancel (\<lambda>_. True) True Durable True (lit ''7:ab-1'') demo_dir = (d', res)"
    by fastforce
  then have "res = Inr ()" using a by (auto simp: request_cancel_def Let_def)
  with cancel_protects_footage [OF r] r show ?thesis by simp
qed

end
