(* ===== verification/BleHealth.thy ===== *)
theory BleHealth
  imports Prelude
begin

section \<open>Bluetooth health\<close>

text \<open>
  \<^verbatim>\<open>crates/ble_health/src/lib.rs\<close>: the persisted fault record (written through a temporary file
  under a lock) and the classification shown to the user. The JSON encoding of the record is a
  pair of parameters \<open>enc\<close> and \<open>dec\<close>; time stamps are integers. Which host calls succeed is a record
  of flags per call.
\<close>

datatype fault_kind = RepairRequired | TransportError | ProtocolError
datatype success_kind = Authenticated | TransportOnly
datatype health_error = ParentError | LockError | ReadFailed | InvalidData | WriteFailed | RenameFailed | RemoveFailed

record health_record =
  fault :: fault_kind
  since_ts :: int

record health_env =
  he_parent :: bool
  he_lock :: bool
  he_read :: bool
  he_write :: bool
  he_rename :: bool
  he_remove :: bool

type_synonym health_file = "bytes option"

definition read_at ::
  "(bytes \<Rightarrow> health_record option) \<Rightarrow> bool \<Rightarrow> health_file \<Rightarrow> health_error + health_record option" where
  "read_at dec read_ok f =
     (case f of
        None \<Rightarrow> Inr None
      | Some body \<Rightarrow>
          if \<not> read_ok then Inl ReadFailed
          else case dec body of None \<Rightarrow> Inl InvalidData | Some r \<Rightarrow> Inr (Some r))"

definition record_fault_at ::
  "(health_record \<Rightarrow> bytes) \<Rightarrow> (bytes \<Rightarrow> health_record option) \<Rightarrow> health_env \<Rightarrow> fault_kind \<Rightarrow> int \<Rightarrow>
   health_file \<Rightarrow> health_file \<times> (health_error + unit)" where
  "record_fault_at enc dec env k now f =
     (if \<not> he_parent env then (f, Inl ParentError)
      else if \<not> he_lock env then (f, Inl LockError)
      else case read_at dec (he_read env) f of
             Inl e \<Rightarrow> (f, Inl e)
           | Inr existing \<Rightarrow>
               if (case existing of
                     None \<Rightarrow> False
                   | Some r \<Rightarrow> fault r = RepairRequired \<and> k \<noteq> RepairRequired \<or> fault r = k)
               then (f, Inr ())
               else if \<not> he_write env then (f, Inl WriteFailed)
               else if \<not> he_rename env then (f, Inl RenameFailed)
               else (Some (enc \<lparr>fault = k, since_ts = now\<rparr>), Inr ()))"

definition clear_all_unlocked :: "bool \<Rightarrow> health_file \<Rightarrow> health_file \<times> (health_error + unit)" where
  "clear_all_unlocked remove_ok f =
     (case f of None \<Rightarrow> (None, Inr ())
      | Some _ \<Rightarrow> if remove_ok then (None, Inr ()) else (f, Inl RemoveFailed))"

definition clear_all_at :: "health_env \<Rightarrow> health_file \<Rightarrow> health_file \<times> (health_error + unit)" where
  "clear_all_at env f =
     (if \<not> he_parent env then (f, Inl ParentError)
      else if \<not> he_lock env then (f, Inl LockError)
      else clear_all_unlocked (he_remove env) f)"

definition record_success_at ::
  "health_env \<Rightarrow> success_kind \<Rightarrow> health_file \<Rightarrow> health_file \<times> (health_error + unit)" where
  "record_success_at env k f =
     (case k of Authenticated \<Rightarrow> clear_all_at env f | TransportOnly \<Rightarrow> (f, Inr ()))"

subsection \<open>Classification\<close>

datatype severity = Green | Yellow | Red

record health_input =
  i_record :: "health_record option"
  last_authenticated_success_ts :: int
  radio_owner :: "ustr option"
  archiving :: bool
  now_ts :: int

record health_status =
  severity :: severity
  code :: ustr
  s_since :: "int option"
  label :: ustr
  guidance :: ustr

definition filter_opt :: "('a \<Rightarrow> bool) \<Rightarrow> 'a option \<Rightarrow> 'a option" where
  "filter_opt P x = (case x of Some y \<Rightarrow> if P y then Some y else None | None \<Rightarrow> None)"

definition recency_status :: "int \<Rightarrow> int \<Rightarrow> health_status" where
  "recency_status last_ok now =
     (let seconds_ago = (if last_ok > 0 then Some (max (now - last_ok) 0) else None);
          idle = \<lparr>severity = Yellow, code = lit ''idle'',
            s_since = (if last_ok > 0 then Some last_ok else None), label = lit ''Telemetry idle'',
            guidance = lit ''The car may be asleep. Wake it, then check Bluetooth Logs if values do not refresh.''\<rparr>
      in case seconds_ago of
           None \<Rightarrow> idle
         | Some age \<Rightarrow>
             if age < 60
             then \<lparr>severity = Green, code = lit ''connected'', s_since = Some last_ok, label = lit ''Connected'',
                   guidance = lit ''Authenticated vehicle telemetry is flowing.''\<rparr>
             else if age < 600
             then \<lparr>severity = Yellow, code = lit ''delayed'', s_since = Some last_ok,
                   label = lit ''Telemetry delayed'',
                   guidance = lit ''SentryUSB is waiting for the next vehicle response.''\<rparr>
             else idle)"

text \<open>8212 is the dash of the two paused labels.\<close>

definition classify_health :: "health_input \<Rightarrow> health_status" where
  "classify_health i =
     (case filter_opt (\<lambda>r. fault r = RepairRequired) (i_record i) of
        Some r \<Rightarrow>
          \<lparr>severity = Red, code = lit ''repair_required'', s_since = Some (since_ts r),
           label = lit ''Re-pair required'',
           guidance = lit ''Open Settings, select Re-pair, then tap your key card on the center console.''\<rparr>
      | None \<Rightarrow>
          if radio_owner i = Some (lit ''keep_awake'')
          then (if archiving i
                then \<lparr>severity = Yellow, code = lit ''paused_archiving'', s_since = None,
                      label = lit ''Paused '' @ [8212] @ lit '' archiving'',
                      guidance = lit ''No action needed. Telemetry resumes after archiving.''\<rparr>
                else \<lparr>severity = Yellow, code = lit ''paused_keep_awake'', s_since = None,
                      label = lit ''Paused '' @ [8212] @ lit '' keep-awake'',
                      guidance = lit ''No action needed. Telemetry resumes automatically.''\<rparr>)
          else case filter_opt (\<lambda>r. fault r \<noteq> RepairRequired \<and>
                      since_ts r \<ge> last_authenticated_success_ts i) (i_record i) of
                 Some r \<Rightarrow>
                   \<lparr>severity = Yellow, code = lit ''reconnecting'', s_since = Some (since_ts r),
                    label = lit ''Reconnecting'',
                    guidance = lit ''SentryUSB is retrying automatically. Check Bluetooth Logs if this persists.''\<rparr>
               | None \<Rightarrow> recency_status (last_authenticated_success_ts i) (now_ts i))"

section \<open>Lemmas\<close>

text \<open>Operations on the record, in the order they take the lock.\<close>

datatype health_op = Fault health_env fault_kind int | Success health_env success_kind | ClearAll health_env

definition health_step ::
  "(health_record \<Rightarrow> bytes) \<Rightarrow> (bytes \<Rightarrow> health_record option) \<Rightarrow> health_file \<Rightarrow> health_op \<Rightarrow> health_file" where
  "health_step enc dec f op =
     (case op of
        Fault env k now \<Rightarrow> fst (record_fault_at enc dec env k now f)
      | Success env k \<Rightarrow> fst (record_success_at env k f)
      | ClearAll env \<Rightarrow> fst (clear_all_at env f))"

definition clears_fault :: "health_op \<Rightarrow> bool" where
  "clears_fault op =
     (case op of Success _ Authenticated \<Rightarrow> True | ClearAll _ \<Rightarrow> True | _ \<Rightarrow> False)"

lemma repair_step:
  assumes "f = Some body" "dec body = Some r" "fault r = RepairRequired" "\<not> clears_fault op"
  shows "health_step enc dec f op = f"
  using assms
  by (auto simp: health_step_def clears_fault_def record_fault_at_def read_at_def record_success_at_def
      split: health_op.splits success_kind.splits)

lemma repair_run:
  assumes "f = Some body" "dec body = Some r" "fault r = RepairRequired" "list_all (\<lambda>op. \<not> clears_fault op) ops"
  shows "foldl (health_step enc dec) f ops = f"
  using assms(4)
proof (induction ops)
  case (Cons op ops)
  with repair_step [where dec = dec, OF assms(1-3)] show ?case by simp
qed simp

text \<open>A file that the operations can have written: absent, or the encoding of a record.\<close>

definition health_valid ::
  "(bytes \<Rightarrow> health_record option) \<Rightarrow> health_file \<Rightarrow> bool" where
  "health_valid dec f = (case f of None \<Rightarrow> True | Some body \<Rightarrow> dec body \<noteq> None)"

lemma record_fault_valid:
  assumes "\<And>r. dec (enc r) = Some r" "health_valid dec f"
  shows "health_valid dec (fst (record_fault_at enc dec env k now f))"
  using assms by (auto simp: health_valid_def record_fault_at_def split: sum.splits option.splits)

lemma clear_valid: "health_valid dec f \<Longrightarrow> health_valid dec (fst (clear_all_at env f))"
  by (auto simp: health_valid_def clear_all_at_def clear_all_unlocked_def split: option.splits)

subsection \<open>Properties\<close>

text \<open>
  A repair verdict is sticky: once the pairing was recorded as broken, no later fault of any
  kind and no transport-only success, in any number and with any of their host calls failing,
  changes the record or its time; the user is shown red with that time until an authenticated
  success or an explicit clear.
\<close>

theorem repair_required_sticky:
  assumes "\<And>r. dec (enc r) = Some r"
    and "record_fault_at enc dec env RepairRequired now f = (f', Inr ())"
    and "list_all (\<lambda>op. \<not> clears_fault op) ops"
  shows "\<exists>r. read_at dec True (foldl (health_step enc dec) f' ops) = Inr (Some r) \<and>
    fault r = RepairRequired \<and> (f = None \<longrightarrow> since_ts r = now) \<and>
    severity (classify_health (i\<lparr>i_record := Some r\<rparr>)) = Red \<and>
    s_since (classify_health (i\<lparr>i_record := Some r\<rparr>)) = Some (since_ts r)"
proof -
  have "\<exists>body r. f' = Some body \<and> dec body = Some r \<and> fault r = RepairRequired \<and> (f = None \<longrightarrow> since_ts r = now)"
    using assms(2) assms(1) [of "\<lparr>fault = RepairRequired, since_ts = now\<rparr>"]
    by (auto simp: record_fault_at_def read_at_def split: if_splits option.splits sum.splits)
  then obtain body r where b: "f' = Some body" "dec body = Some r" "fault r = RepairRequired"
    "f = None \<longrightarrow> since_ts r = now" by blast
  have "severity (classify_health (i\<lparr>i_record := Some r\<rparr>)) = Red"
    "s_since (classify_health (i\<lparr>i_record := Some r\<rparr>)) = Some (since_ts r)"
    using b(3) by (simp_all add: classify_health_def filter_opt_def)
  moreover have "read_at dec True (foldl (health_step enc dec) f' ops) = Inr (Some r)"
    using repair_run [where dec = dec and enc = enc, OF b(1-3) assms(3)] b(1,2) by (simp add: read_at_def)
  ultimately show ?thesis using b(3,4) by auto
qed

definition demo_enc :: "health_record \<Rightarrow> bytes" where
  "demo_enc r = (case fault r of RepairRequired \<Rightarrow> 0 | TransportError \<Rightarrow> 1 | ProtocolError \<Rightarrow> 2)
     # (if since_ts r < 0 then 1 else 0) # replicate (nat \<bar>since_ts r\<bar>) 0"

fun demo_dec :: "bytes \<Rightarrow> health_record option" where
  "demo_dec (k # s # t) =
     Some \<lparr>fault = (if k = 0 then RepairRequired else if k = 1 then TransportError else ProtocolError),
           since_ts = (if s = 1 then - int (length t) else int (length t))\<rparr>"
| "demo_dec _ = None"

lemma demo_codec: "demo_dec (demo_enc r) = Some r"
  by (cases r) (auto simp: demo_enc_def split: fault_kind.splits)

definition good_env :: health_env where
  "good_env = \<lparr>he_parent = True, he_lock = True, he_read = True, he_write = True, he_rename = True,
     he_remove = True\<rparr>"

theorem repair_required_sticky_witness:
  "\<exists>r. read_at demo_dec True (foldl (health_step demo_enc demo_dec)
       (fst (record_fault_at demo_enc demo_dec good_env RepairRequired 5 None))
       [Fault good_env TransportError 9, Success good_env TransportOnly]) = Inr (Some r) \<and>
     fault r = RepairRequired \<and> since_ts r = 5"
proof -
  obtain f' where f': "record_fault_at demo_enc demo_dec good_env RepairRequired 5 None = (f', Inr ())"
    by (simp add: record_fault_at_def good_env_def read_at_def)
  have "list_all (\<lambda>op. \<not> clears_fault op) [Fault good_env TransportError 9, Success good_env TransportOnly]"
    by (simp add: clears_fault_def)
  from repair_required_sticky [OF demo_codec f' this] f' show ?thesis by auto
qed

text \<open>
  What the user is shown: red exactly for a broken pairing; green exactly when the pairing is
  not broken, the keep-awake service does not own the radio, no fault is newer than the last
  authenticated success, and that success is less than a minute old (or lies in the future of the
  clock); green then carries the time of that success.
\<close>

theorem classify_health_correct:
  "(severity (classify_health i) = Red \<longleftrightarrow> (\<exists>r. i_record i = Some r \<and> fault r = RepairRequired)) \<and>
   (severity (classify_health i) = Green \<longleftrightarrow>
      (\<nexists>r. i_record i = Some r \<and> (fault r = RepairRequired \<or> last_authenticated_success_ts i \<le> since_ts r)) \<and>
      radio_owner i \<noteq> Some (lit ''keep_awake'') \<and>
      0 < last_authenticated_success_ts i \<and> now_ts i - last_authenticated_success_ts i < 60) \<and>
   (severity (classify_health i) = Green \<longrightarrow> s_since (classify_health i) = Some (last_authenticated_success_ts i))"
proof (cases "i_record i")
  case None
  then show ?thesis by (simp add: classify_health_def filter_opt_def recency_status_def Let_def)
next
  case (Some r)
  then show ?thesis
    by (cases "fault r") (simp_all add: classify_health_def filter_opt_def recency_status_def Let_def not_le)
qed

definition demo_input :: health_input where
  "demo_input = \<lparr>i_record = None, last_authenticated_success_ts = 100, radio_owner = None, archiving = False,
     now_ts = 130\<rparr>"

theorem classify_health_correct_witness:
  "severity (classify_health demo_input) = Green \<and> s_since (classify_health demo_input) = Some 100"
  using classify_health_correct [of demo_input] by (simp add: demo_input_def)

end
