(* ===== verification/BleTransport.thy ===== *)
theory BleTransport
  imports Prelude "HOL-Library.Sublist"
begin

section \<open>The Bluetooth transport\<close>

text \<open>
  \<^verbatim>\<open>crates/tesla_ble/src/transport.rs\<close> (framing and chunking) and the exchange of
  \<^verbatim>\<open>crates/tesla_ble/src/gatt.rs\<close> (\<open>Connection::round_trip\<close>): reassembly of a response out of
  notifications, with the recovery from a lost frame boundary and the filters for frames that are
  no response. The notifications are a list, each with whether it came from the vehicle's
  characteristic; running out of them is the time-out. A write that fails, the probe before it
  and how many queued notifications a drain discards are choices of the environment.
\<close>

definition frame :: "bytes \<Rightarrow> bytes" where
  "frame payload = nat_to_be 2 (length payload mod 65536) @ payload"

definition try_unframe :: "bytes \<Rightarrow> bytes \<times> (nat + bytes option)" where
  "try_unframe buf =
     (if length buf < 2 then (buf, Inr None)
      else let len = be_to_nat (take 2 buf)
           in if len > 1024 then (buf, Inl len)
              else if length buf < 2 + len then (buf, Inr None)
              else (drop (2 + len) buf, Inr (Some (take len (drop 2 buf)))))"

definition chunk_size :: "nat \<Rightarrow> nat" where
  "chunk_size mtu = min (max (mtu - 3) 20) 512"

definition chunks_for_mtu :: "bytes \<Rightarrow> nat \<Rightarrow> bytes list" where
  "chunks_for_mtu f mtu = chunks (chunk_size mtu) f"

subsection \<open>The exchange\<close>

definition broadcast_frame_prefix :: bytes where
  "broadcast_frame_prefix = [0x32, 0x02, 0x08, 0x00]"

definition max_desyncs :: nat where "max_desyncs = 64"

datatype rx_result = RxOk bytes | RxDesync | RxTimeout | RxStreamEnded

text \<open>A frame the loop hands to its caller.\<close>

definition acceptable :: "(bytes \<Rightarrow> bool) \<Rightarrow> bytes \<Rightarrow> bool" where
  "acceptable accept p \<longleftrightarrow> length p \<ge> 8 \<and> \<not> prefix broadcast_frame_prefix p \<and> accept p"

lemma try_unframe_shrinks:
  "try_unframe buf = (buf', Inr (Some p)) \<Longrightarrow> length buf' < length buf"
  "try_unframe buf = (buf', Inl e) \<Longrightarrow> buf \<noteq> []"
  "try_unframe buf = (buf', Inr None) \<Longrightarrow> buf' = buf"
  by (auto simp: try_unframe_def Let_def split: if_splits)

text \<open>
  The receive loop on the reassembly buffer, the count of lost boundaries and the notifications:
  the result, the buffer and the count left, and the notifications not consumed. \<open>ended\<close> tells
  whether the stream closes after the last notification or just stays silent.
\<close>

function receive ::
  "bool \<Rightarrow> (bytes \<Rightarrow> bool) \<Rightarrow> bytes \<Rightarrow> nat \<Rightarrow> (bool \<times> bytes) list
   \<Rightarrow> rx_result \<times> bytes \<times> nat \<times> (bool \<times> bytes) list" where
  "receive ended accept buf d stream =
     (case try_unframe buf of
        (buf', Inl e) \<Rightarrow>
          if d + 1 > max_desyncs then (RxDesync, [], d + 1, stream)
          else receive ended accept [] (d + 1) stream
      | (buf', Inr (Some p)) \<Rightarrow>
          if acceptable accept p then (RxOk p, buf', d, stream)
          else receive ended accept buf' d stream
      | (buf', Inr None) \<Rightarrow>
          (case stream of
             [] \<Rightarrow> (if ended then RxStreamEnded else RxTimeout, buf', d, [])
           | (from_vehicle, v) # rest \<Rightarrow>
               receive ended accept (if from_vehicle then buf' @ v else buf') d rest))"
  by pat_completeness auto
termination
  by (relation "inv_image (less_than <*lex*> less_than) (\<lambda>(ended, accept, buf, d, stream). (length stream, length buf))")
    (auto dest!: sym [of _ "try_unframe _"] dest: try_unframe_shrinks)

declare receive.simps [simp del]

record connection =
  rx_buffer :: bytes
  last_round_trip_clean :: bool
  att_mtu :: nat
  framing_desync_recoveries :: nat

record ble_env =
  be_drained :: nat
  be_connected :: "bool option"
  be_write_ok :: "nat \<Rightarrow> bool"
  be_ended :: bool

datatype rt_error = NotConnected | WriteError | DesyncError | TimedOut | StreamEnded

text \<open>
  \<open>round_trip\<close>: the bytes written, the notifications left, and the outcome. The drain discards
  what is queued and the reassembly buffer; \<open>u32\<close> saturation of the recovery counter is written out.
\<close>

definition round_trip ::
  "ble_env \<Rightarrow> (bytes \<Rightarrow> bool) \<Rightarrow> bytes \<Rightarrow> connection \<Rightarrow> (bool \<times> bytes) list
   \<Rightarrow> connection \<times> (bool \<times> bytes) list \<times> bytes list \<times> (rt_error + bytes)" where
  "round_trip env accept payload c stream =
     (let dirty = (\<not> last_round_trip_clean c \<or> rx_buffer c \<noteq> []);
          c1 = (if dirty then c\<lparr>rx_buffer := []\<rparr> else c)\<lparr>last_round_trip_clean := False\<rparr>;
          stream1 = (if dirty then drop (be_drained env) stream else stream);
          cs = chunks_for_mtu (frame payload) (att_mtu c)
      in if dirty \<and> be_connected env = Some False then (c1, stream1, [], Inl NotConnected)
         else if \<exists>i \<in> set [0..<length cs]. \<not> be_write_ok env i
         then (c1, stream1, take (length (takeWhile (be_write_ok env) [0..<length cs])) cs, Inl WriteError)
         else case receive (be_ended env) accept (rx_buffer c1) 0 stream1 of
                (r, buf, d, rest) \<Rightarrow>
                  (let c2 = c1\<lparr>rx_buffer := buf,
                               framing_desync_recoveries := min (framing_desync_recoveries c1 + d) (2 ^ 32 - 1)\<rparr>
                   in case r of
                        RxOk p \<Rightarrow> (c2\<lparr>last_round_trip_clean := True\<rparr>, rest, cs, Inr p)
                      | RxDesync \<Rightarrow> (c2, rest, cs, Inl DesyncError)
                      | RxTimeout \<Rightarrow> (c2, rest, cs, Inl TimedOut)
                      | RxStreamEnded \<Rightarrow> (c2, rest, cs, Inl StreamEnded)))"

section \<open>Lemmas\<close>


lemma length_frame [simp]: "length (frame p) = 2 + length p"
  by (simp add: frame_def)

lemma unframe_frame:
  "length p \<le> 1024 \<Longrightarrow> try_unframe (frame p @ rest) = (rest, Inr (Some p))"
  by (simp add: try_unframe_def frame_def Let_def be_to_nat_nat_to_be)

text \<open>The framing is self-delimiting.\<close>

definition unframe_one :: "bytes \<Rightarrow> (bytes \<times> bytes) option" where
  "unframe_one buf = (case try_unframe buf of (rest, Inr (Some p)) \<Rightarrow> Some (p, rest) | _ \<Rightarrow> None)"

interpretation framing: prefix_codec frame unframe_one "\<lambda>p. length p \<le> 1024"
  by unfold_locales (simp add: unframe_one_def unframe_frame)

lemma unframe_partial:
  assumes "length p \<le> 1024" "frame p = buf @ us" "us \<noteq> []"
  shows "try_unframe buf = (buf, Inr None)"
proof (cases "length buf < 2")
  case True
  then show ?thesis by (simp add: try_unframe_def)
next
  case False
  have "take 2 buf = take 2 (frame p)" using assms(2) False by simp
  then have l: "be_to_nat (take 2 buf) = length p"
    using assms(1) by (simp add: frame_def be_to_nat_nat_to_be)
  have "length buf < 2 + length p"
    using assms(2,3) length_frame [of p] by (metis length_append less_add_same_cancel1 length_greater_0_conv)
  with False l assms(1) show ?thesis by (simp add: try_unframe_def)
qed

lemma unframe_cases:
  assumes "buf @ bs = concat (map frame ps)" "\<And>p. p \<in> set ps \<Longrightarrow> length p \<le> 1024"
  shows "try_unframe buf = (buf, Inr None) \<and> (bs = [] \<longrightarrow> buf = [] \<and> ps = []) \<or>
    (\<exists>p ps' buf'. ps = p # ps' \<and> try_unframe buf = (buf', Inr (Some p)) \<and>
       buf' @ bs = concat (map frame ps'))"
proof (cases ps)
  case Nil
  with assms(1) show ?thesis by (simp add: try_unframe_def)
next
  case (Cons p ps')
  with assms have p: "length p \<le> 1024" "buf @ bs = frame p @ concat (map frame ps')" by auto
  from p(2) consider us where "buf = frame p @ us" "us @ bs = concat (map frame ps')"
    | us where "frame p = buf @ us" "bs = us @ concat (map frame ps')" "us \<noteq> []"
  proof (elim append_eq_append_conv2 [THEN iffD1, THEN exE] disjE conjE)
    fix us
    assume "buf = frame p @ us" "us @ bs = concat (map frame ps')"
    with that(1) show thesis by blast
  next
    fix us
    assume a: "buf @ us = frame p" "bs = us @ concat (map frame ps')"
    show thesis
    proof (cases "us = []")
      case True
      with a that(1) [of "[]"] show thesis by simp
    next
      case False
      from that(2) [OF a(1) [symmetric] a(2) False] show thesis .
    qed
  qed
  then show ?thesis
  proof cases
    case 1
    with Cons unframe_frame [OF p(1)] show ?thesis by auto
  next
    case 2
    with unframe_partial [OF p(1) 2(1)] show ?thesis by auto
  qed
qed

text \<open>What the loop must return: the first acceptable payload.\<close>

fun first_acceptable :: "(bytes \<Rightarrow> bool) \<Rightarrow> bytes list \<Rightarrow> bytes option" where
  "first_acceptable accept [] = None"
| "first_acceptable accept (p # ps) =
     (if acceptable accept p then Some p else first_acceptable accept ps)"

definition vehicle_bytes :: "(bool \<times> bytes) list \<Rightarrow> bytes" where
  "vehicle_bytes stream = concat (map snd (filter fst stream))"

lemma vehicle_bytes_simps [simp]:
  "vehicle_bytes [] = []"
  "vehicle_bytes ((b, v) # s) = (if b then v else []) @ vehicle_bytes s"
  by (simp_all add: vehicle_bytes_def)

lemma receive_reassembles:
  assumes "buf @ vehicle_bytes stream = concat (map frame ps)" "\<And>p. p \<in> set ps \<Longrightarrow> length p \<le> 1024"
  shows "case first_acceptable accept ps of
      Some p \<Rightarrow> \<exists>buf' rest. receive ended accept buf d stream = (RxOk p, buf', d, rest)
    | None \<Rightarrow> receive ended accept buf d stream = (if ended then RxStreamEnded else RxTimeout, [], d, [])"
  using assms
proof (induction ended accept buf d stream arbitrary: ps rule: receive.induct)
  case (1 ended accept buf d stream)
  have cs: "try_unframe buf = (buf, Inr None) \<and> (vehicle_bytes stream = [] \<longrightarrow> buf = [] \<and> ps = []) \<or>
    (\<exists>p ps' buf'. ps = p # ps' \<and> try_unframe buf = (buf', Inr (Some p)) \<and>
       buf' @ vehicle_bytes stream = concat (map frame ps'))"
    by (rule unframe_cases) (use 1(4,5) in auto)
  then show ?case
  proof (elim disjE conjE exE)
    assume none: "try_unframe buf = (buf, Inr None)"
      and last: "vehicle_bytes stream = [] \<longrightarrow> buf = [] \<and> ps = []"
    show ?thesis
    proof (cases stream)
      case Nil
      with last have e: "buf = []" "ps = []" by auto
      show ?thesis using none unfolding Nil e by (subst receive.simps) simp
    next
      case (Cons n rest)
      obtain b v where n: "n = (b, v)" by (cases n)
      have "(if b then buf @ v else buf) @ vehicle_bytes rest = concat (map frame ps)"
        using 1(4) Cons n by auto
      from 1(2) [OF none [symmetric] refl refl Cons n [symmetric] this 1(5)]
      moreover have "receive ended accept buf d stream =
          receive ended accept (if b then buf @ v else buf) d rest"
        using none by (subst receive.simps) (simp add: Cons n)
      ultimately show ?thesis by (simp only:)
    qed
  next
    fix p ps' buf'
    assume ps: "ps = p # ps'" and u: "try_unframe buf = (buf', Inr (Some p))"
      and eq: "buf' @ vehicle_bytes stream = concat (map frame ps')"
    show ?thesis
    proof (cases "acceptable accept p")
      case True
      have "receive ended accept buf d stream = (RxOk p, buf', d, stream)"
        using u True by (subst receive.simps) simp
      with True ps show ?thesis by simp
    next
      case False
      have v: "\<And>p. p \<in> set ps' \<Longrightarrow> length p \<le> 1024" using 1(5) ps by simp
      from 1(3) [OF u [symmetric] refl refl False eq v]
      have IH: "case first_acceptable accept ps' of
          Some p \<Rightarrow> \<exists>buf'' rest. receive ended accept buf' d stream = (RxOk p, buf'', d, rest)
        | None \<Rightarrow> receive ended accept buf' d stream = (if ended then RxStreamEnded else RxTimeout, [], d, [])" .
      have "receive ended accept buf d stream = receive ended accept buf' d stream"
        using u False by (subst receive.simps) simp
      with IH False ps show ?thesis by (simp only: first_acceptable.simps if_False)
    qed
  qed
qed



subsection \<open>Properties\<close>

text \<open>
  C31. Reassembly does not depend on how the radio cuts the stream: when the vehicle's notifications
  carry, in any cutting and with notifications of other characteristics in between, a sequence of
  framed payloads of at most 1024 bytes, a round trip on a clean connection returns the first of
  them that is at least eight bytes long, no broadcast, and accepted by the caller; it fails with
  a time-out or the end of the stream exactly when there is none, and it never loses the frame
  boundary. The connection is marked clean exactly on success.
\<close>

theorem round_trip_reassembles:
  assumes "\<And>p. p \<in> set ps \<Longrightarrow> length p \<le> 1024"
    and "vehicle_bytes stream = concat (map frame ps)"
    and "last_round_trip_clean c" and "rx_buffer c = []" and "\<And>i. be_write_ok env i"
    and "round_trip env accept payload c stream = (c', rest, cs, res)"
  shows "res = (case first_acceptable accept ps of
      Some p \<Rightarrow> Inr p | None \<Rightarrow> Inl (if be_ended env then StreamEnded else TimedOut)) \<and>
    concat cs = frame payload \<and>
    last_round_trip_clean c' = (first_acceptable accept ps \<noteq> None) \<and>
    framing_desync_recoveries c' = min (framing_desync_recoveries c) (2 ^ 32 - 1)"
proof -
  have cc: "concat (chunks_for_mtu (frame payload) (att_mtu c)) = frame payload"
    unfolding chunks_for_mtu_def by (rule concat_chunks) (simp add: chunk_size_def)
  have R: "case first_acceptable accept ps of
      Some p \<Rightarrow> \<exists>buf' rest. receive (be_ended env) accept [] 0 stream = (RxOk p, buf', 0, rest)
    | None \<Rightarrow> receive (be_ended env) accept [] 0 stream =
        (if be_ended env then RxStreamEnded else RxTimeout, [], 0, [])"
    by (rule receive_reassembles) (use assms(1,2) in auto)
  show ?thesis
  proof (cases "first_acceptable accept ps")
    case None
    with R assms(3-6) cc show ?thesis
      by (cases "be_ended env") (auto simp: round_trip_def Let_def)
  next
    case (Some p)
    with R obtain buf' rest' where "receive (be_ended env) accept [] 0 stream = (RxOk p, buf', 0, rest')" by auto
    with Some assms(3-6) cc show ?thesis by (auto simp: round_trip_def Let_def)
  qed
qed

definition demo_conn :: connection where
  "demo_conn = \<lparr>rx_buffer = [], last_round_trip_clean = True, att_mtu = 23, framing_desync_recoveries = 0\<rparr>"

definition demo_ble :: ble_env where
  "demo_ble = \<lparr>be_drained = 0, be_connected = Some True, be_write_ok = (\<lambda>_. True), be_ended = False\<rparr>"

theorem round_trip_reassembles_witness:
  "snd (snd (snd (round_trip demo_ble (\<lambda>_. True) [1, 2] demo_conn
     [(True, [0]), (False, [9, 9]), (True, [8, 1, 2, 3]), (True, [4, 5, 6, 7, 8])]))) =
   Inr [1, 2, 3, 4, 5, 6, 7, 8]"
proof -
  let ?p = "[1, 2, 3, 4, 5, 6, 7, 8] :: bytes"
  let ?s = "[(True, [0]), (False, [9, 9]), (True, [8, 1, 2, 3]), (True, [4, 5, 6, 7, 8])] :: (bool \<times> bytes) list"
  obtain c' rest cs res where r: "round_trip demo_ble (\<lambda>_. True) [1, 2] demo_conn ?s = (c', rest, cs, res)"
    by (metis prod_cases4)
  have f: "vehicle_bytes ?s = concat (map frame [?p])"
    by (simp add: vehicle_bytes_def frame_def numeral_2_eq_2)
  have a: "first_acceptable (\<lambda>_. True) [?p] = Some ?p"
    by (simp add: acceptable_def broadcast_frame_prefix_def)
  have "res = Inr ?p"
    using round_trip_reassembles [OF _ f _ _ _ r] a
    by (simp add: demo_conn_def demo_ble_def)
  with r show ?thesis by simp
qed

text \<open>
  The pieces handed to the radio are safe to write: together they are the frame, none of them
  is empty, and each fits the negotiated packet, between 20 and 512 bytes whatever the packet size.
\<close>

theorem chunks_for_mtu_correct:
  "concat (chunks_for_mtu f mtu) = f \<and>
   (\<nexists>c. c \<in> set (chunks_for_mtu f mtu) \<and> (c = [] \<or> length c > 512 \<or> length c > max (mtu - 3) 20))"
proof -
  have "0 < chunk_size mtu" "chunk_size mtu \<le> 512" "chunk_size mtu \<le> max (mtu - 3) 20"
    by (auto simp: chunk_size_def)
  then show ?thesis unfolding chunks_for_mtu_def
    using concat_chunks chunks_sizes by (metis leD le_trans)
qed

end
