(* ===== verification/TeslaAuth.thy ===== *)
theory TeslaAuth
  imports BleTransport
begin

section \<open>Authenticated messages to the car\<close>

text \<open>
  \<^verbatim>\<open>crates/tesla_ble/src/auth.rs\<close> (the metadata that AES-GCM authenticates, signing and decrypting),
  \<^verbatim>\<open>correlate.rs\<close> (which frame answers which request) and \<^verbatim>\<open>session.rs\<close> (the session handshake).
  SHA-256, AES-128-GCM and the protobuf codec are parameters; so are the random bytes. The decoded
  messages are records with the fields of \<^verbatim>\<open>proto/universal_message.proto\<close> that the code reads.
\<close>

datatype domain = Broadcast | VehicleSecurity | Infotainment

definition domain_num :: "domain \<Rightarrow> nat" where
  "domain_num d = (case d of Broadcast \<Rightarrow> 0 | VehicleSecurity \<Rightarrow> 2 | Infotainment \<Rightarrow> 3)"

text \<open>The tags and signature types.\<close>

definition tag_signature_type :: u8 where "tag_signature_type = 0"
definition tag_domain :: u8 where "tag_domain = 1"
definition tag_personalization :: u8 where "tag_personalization = 2"
definition tag_epoch :: u8 where "tag_epoch = 3"
definition tag_expires_at :: u8 where "tag_expires_at = 4"
definition tag_counter :: u8 where "tag_counter = 5"
definition tag_flags :: u8 where "tag_flags = 7"
definition tag_request_hash :: u8 where "tag_request_hash = 8"
definition tag_fault :: u8 where "tag_fault = 9"
definition tag_end :: u8 where "tag_end = 0xff"
definition sig_type_aes_gcm_personalized :: u8 where "sig_type_aes_gcm_personalized = 5"
definition sig_type_aes_gcm_response :: u8 where "sig_type_aes_gcm_response = 9"

text \<open>The length is cut to one byte, as \<^verbatim>\<open>as u8\<close> does outside debug builds.\<close>

definition write_tlv :: "u8 \<Rightarrow> bytes \<Rightarrow> bytes" where
  "write_tlv t v = t # word_of_nat (length v) # v"

definition u32_be :: "u32 \<Rightarrow> bytes" where "u32_be w = nat_to_be 4 (unat w)"

definition build_metadata :: "domain \<Rightarrow> bytes \<Rightarrow> bytes \<Rightarrow> u32 \<Rightarrow> u32 \<Rightarrow> u32 \<Rightarrow> bytes" where
  "build_metadata dm vin epoch expires_at counter flags =
     write_tlv tag_signature_type [sig_type_aes_gcm_personalized] @
     write_tlv tag_domain [word_of_nat (domain_num dm)] @
     write_tlv tag_personalization vin @
     write_tlv tag_epoch epoch @
     write_tlv tag_expires_at (u32_be expires_at) @
     write_tlv tag_counter (u32_be counter) @
     write_tlv tag_flags (u32_be flags) @ [tag_end]"

definition build_response_metadata ::
  "domain \<Rightarrow> bytes \<Rightarrow> u32 \<Rightarrow> u32 \<Rightarrow> u8 \<Rightarrow> bytes \<Rightarrow> u32 \<Rightarrow> bytes" where
  "build_response_metadata from_domain vin counter flags request_sig_type request_tag fault =
     write_tlv tag_signature_type [sig_type_aes_gcm_response] @
     write_tlv tag_domain [word_of_nat (domain_num from_domain)] @
     write_tlv tag_personalization vin @
     write_tlv tag_counter (u32_be counter) @
     write_tlv tag_flags (u32_be flags) @
     write_tlv tag_request_hash (request_sig_type # request_tag) @
     write_tlv tag_fault (u32_be fault) @ [tag_end]"

datatype auth_error = EncryptFailed | OutputTooShort | BadNonceLength nat | DecryptFailed

record signature_data =
  signer_public_key :: bytes
  sd_epoch :: bytes
  sd_nonce :: bytes
  sd_counter :: u32
  sd_expires_at :: u32
  sd_tag :: bytes

record signed_parts =
  sp_ciphertext :: bytes
  sp_signature_data :: signature_data
  sp_counter :: u32

text \<open>The library calls: key, nonce, additional data, message.\<close>

type_synonym aead = "bytes \<Rightarrow> bytes \<Rightarrow> bytes \<Rightarrow> bytes \<Rightarrow> bytes option"

definition sign ::
  "(bytes \<Rightarrow> bytes) \<Rightarrow> aead \<Rightarrow> bytes \<Rightarrow> bytes \<Rightarrow> bytes \<Rightarrow> bytes \<Rightarrow> domain \<Rightarrow> bytes \<Rightarrow> bytes \<Rightarrow> u32 \<Rightarrow> u32 \<Rightarrow> u32
   \<Rightarrow> auth_error + signed_parts" where
  "sign sha256 encrypt nonce key our_pubkey inner dm vin epoch expires_at counter flags =
     (let aad = sha256 (build_metadata dm vin epoch expires_at counter flags)
      in case encrypt key nonce aad inner of
           None \<Rightarrow> Inl EncryptFailed
         | Some combined \<Rightarrow>
             if length combined < 16 then Inl OutputTooShort
             else Inr \<lparr>sp_ciphertext = take (length combined - 16) combined,
                       sp_signature_data =
                         \<lparr>signer_public_key = our_pubkey, sd_epoch = epoch, sd_nonce = nonce,
                          sd_counter = counter, sd_expires_at = expires_at,
                          sd_tag = drop (length combined - 16) combined\<rparr>,
                       sp_counter = counter\<rparr>)"

definition decrypt_response ::
  "(bytes \<Rightarrow> bytes) \<Rightarrow> aead \<Rightarrow> bytes \<Rightarrow> bytes \<Rightarrow> domain \<Rightarrow> bytes \<Rightarrow> u32 \<Rightarrow> u32 \<Rightarrow> u32 \<Rightarrow> bytes \<Rightarrow> bytes \<Rightarrow> bytes
   \<Rightarrow> auth_error + bytes" where
  "decrypt_response sha256 decrypt key request_tag from_domain vin response_flags response_counter
       response_fault response_nonce response_tag ciphertext =
     (let aad = sha256 (build_response_metadata from_domain vin response_counter response_flags
                  sig_type_aes_gcm_personalized request_tag response_fault)
      in if length response_nonce \<noteq> 12 then Inl (BadNonceLength (length response_nonce))
         else case decrypt key response_nonce aad (ciphertext @ response_tag) of
                None \<Rightarrow> Inl DecryptFailed | Some p \<Rightarrow> Inr p)"

subsection \<open>Messages\<close>

datatype sub_destination = Domain int | RoutingAddress bytes

type_synonym destination = "sub_destination option"

datatype payload =
    ProtobufMessageAsBytes bytes
  | SessionInfoRequest bytes bytes
  | SessionInfoPayload bytes

record routable_message =
  to_destination :: "destination option"
  from_destination :: "destination option"
  rm_payload :: "payload option"
  sub_sig_data :: "signature_data option"
  signed_message_fault :: "int option"
  request_uuid :: bytes
  uuid :: bytes
  rm_flags :: u32

definition empty_message :: routable_message where
  "empty_message = \<lparr>to_destination = None, from_destination = None, rm_payload = None, sub_sig_data = None,
     signed_message_fault = None, request_uuid = [], uuid = [], rm_flags = 0\<rparr>"

definition build_signed_routable_message ::
  "bytes \<Rightarrow> bytes \<Rightarrow> signed_parts \<Rightarrow> domain \<Rightarrow> u32 \<Rightarrow> routable_message" where
  "build_signed_routable_message from_uuid req_uuid parts dm flags =
     empty_message\<lparr>to_destination := Some (Some (Domain (int (domain_num dm)))),
       from_destination := Some (Some (RoutingAddress from_uuid)),
       rm_payload := Some (ProtobufMessageAsBytes (sp_ciphertext parts)),
       sub_sig_data := Some (sp_signature_data parts), uuid := req_uuid, rm_flags := flags\<rparr>"

definition build_request :: "bytes \<Rightarrow> bytes \<Rightarrow> bytes \<Rightarrow> domain \<Rightarrow> routable_message" where
  "build_request from_uuid req_uuid our_pubkey dm =
     empty_message\<lparr>to_destination := Some (Some (Domain (int (domain_num dm)))),
       from_destination := Some (Some (RoutingAddress from_uuid)),
       rm_payload := Some (SessionInfoRequest our_pubkey []), uuid := req_uuid\<rparr>"

definition routing_address :: "destination option \<Rightarrow> bytes option" where
  "routing_address d = (case d of Some (Some (RoutingAddress a)) \<Rightarrow> Some a | _ \<Rightarrow> None)"

definition named_domain :: "destination option \<Rightarrow> int option" where
  "named_domain d = (case d of Some (Some (Domain n)) \<Rightarrow> Some n | _ \<Rightarrow> None)"

definition our_correlators :: "(bytes \<Rightarrow> routable_message option) \<Rightarrow> bytes \<Rightarrow> bytes \<times> bytes" where
  "our_correlators decode envelope =
     (case decode envelope of
        None \<Rightarrow> ([], [])
      | Some rm \<Rightarrow> (uuid rm, case routing_address (from_destination rm) of None \<Rightarrow> [] | Some a \<Rightarrow> a))"

definition is_response_to ::
  "(bytes \<Rightarrow> routable_message option) \<Rightarrow> bytes \<Rightarrow> bytes \<Rightarrow> bytes \<Rightarrow> domain \<Rightarrow> bool" where
  "is_response_to decode f our_request_uuid our_routing_addr target_domain =
     (case decode f of
        None \<Rightarrow> False
      | Some rm \<Rightarrow>
          if (case named_domain (from_destination rm) of
                Some d \<Rightarrow> d \<noteq> int (domain_num target_domain) | None \<Rightarrow> False) then False
          else if (case routing_address (to_destination rm) of
                     Some a \<Rightarrow> our_routing_addr \<noteq> [] \<and> a \<noteq> our_routing_addr | None \<Rightarrow> False) then False
          else if request_uuid rm \<noteq> [] \<and> request_uuid rm \<noteq> our_request_uuid then False
          else True)"

subsection \<open>The session handshake\<close>

record session_info =
  si_counter :: u32
  si_public_key :: bytes
  si_epoch :: bytes
  si_clock_time :: u32
  si_status :: int

datatype session_error = KeyNotPaired | DecodeRoutable | WrongPayload | NoPayload | DecodeSessionInfo
  | RoundTrip rt_error

definition messagefault_error_unknown_key_id :: int where "messagefault_error_unknown_key_id = 3"
definition key_not_on_whitelist :: int where "key_not_on_whitelist = 1"

record session_info_response =
  sr_domain :: domain
  sr_raw :: bytes
  sr_parsed :: session_info

definition parse_response ::
  "(bytes \<Rightarrow> routable_message option) \<Rightarrow> (bytes \<Rightarrow> session_info option) \<Rightarrow> bytes \<Rightarrow> domain
   \<Rightarrow> session_error + session_info_response" where
  "parse_response decode decode_si b dm =
     (case decode b of
        None \<Rightarrow> Inl DecodeRoutable
      | Some rm \<Rightarrow>
          if signed_message_fault rm = Some messagefault_error_unknown_key_id then Inl KeyNotPaired
          else case rm_payload rm of
                 Some (SessionInfoPayload raw) \<Rightarrow>
                   (case decode_si raw of
                      None \<Rightarrow> Inl DecodeSessionInfo
                    | Some parsed \<Rightarrow>
                        if si_status parsed = key_not_on_whitelist then Inl KeyNotPaired
                        else Inr \<lparr>sr_domain = dm, sr_raw = raw, sr_parsed = parsed\<rparr>)
               | Some _ \<Rightarrow> Inl WrongPayload
               | None \<Rightarrow> Inl NoPayload)"

definition request_session_info ::
  "(routable_message \<Rightarrow> bytes) \<Rightarrow> (bytes \<Rightarrow> routable_message option) \<Rightarrow> (bytes \<Rightarrow> session_info option) \<Rightarrow>
   ble_env \<Rightarrow> bytes \<Rightarrow> bytes \<Rightarrow> bytes \<Rightarrow> domain \<Rightarrow> connection \<Rightarrow> (bool \<times> bytes) list
   \<Rightarrow> connection \<times> (bool \<times> bytes) list \<times> (session_error + session_info_response)" where
  "request_session_info encode decode decode_si env from_uuid req_uuid our_pubkey dm c stream =
     (let request = encode (build_request from_uuid req_uuid our_pubkey dm);
          (our_uuid, our_addr) = our_correlators decode request;
          (c', rest, _, res) =
             round_trip env (\<lambda>b. is_response_to decode b our_uuid our_addr dm) request c stream
      in (c', rest, case res of Inl e \<Rightarrow> Inl (RoundTrip e) | Inr b \<Rightarrow> parse_response decode decode_si b dm))"


section \<open>Lemmas\<close>

subsection \<open>The metadata stream\<close>

fun read_tlv :: "bytes \<Rightarrow> ((u8 \<times> bytes) \<times> bytes) option" where
  "read_tlv (t # n # rest) =
     (if unat n \<le> length rest then Some ((t, take (unat n) rest), drop (unat n) rest) else None)"
| "read_tlv _ = None"

interpretation tlv: prefix_codec "\<lambda>(t, v). write_tlv t v" read_tlv "\<lambda>(t, v). length v \<le> 255"
  by unfold_locales (auto simp: write_tlv_def unat_of_nat)

lemma write_tlv_inj:
  "length v \<le> 255 \<Longrightarrow> length w \<le> 255 \<Longrightarrow> write_tlv t v @ r = write_tlv u w @ r' \<longleftrightarrow> t = u \<and> v = w \<and> r = r'"
  using tlv.enc_append_inj [of "(t, v)" "(u, w)" r r'] by auto

lemma write_tlv_eq:
  "length v \<le> 255 \<Longrightarrow> length w \<le> 255 \<Longrightarrow> write_tlv t v = write_tlv u w \<longleftrightarrow> t = u \<and> v = w"
  using write_tlv_inj [of v w t "[]" u "[]"] by simp

lemma length_u32_be [simp]: "length (u32_be w) = 4"
  by (simp add: u32_be_def)

lemma u32_be_inj [simp]: "u32_be a = u32_be b \<longleftrightarrow> a = b"
proof
  assume "u32_be a = u32_be b"
  then have "be_to_nat (u32_be a) = be_to_nat (u32_be b)" by simp
  then have "unat a mod 256 ^ 4 = unat b mod 256 ^ 4" by (simp add: u32_be_def be_to_nat_nat_to_be)
  moreover have "unat w < 256 ^ 4" for w :: u32
  proof -
    have "unat w < 2 ^ LENGTH(32)" by (rule unsigned_less)
    then show ?thesis by simp
  qed
  ultimately have "unat a = unat b" by simp
  then show "a = b" by (simp add: word_unat_eq_iff)
qed simp

lemma domain_byte_inj: "(word_of_nat (domain_num d) :: u8) = word_of_nat (domain_num e) \<Longrightarrow> d = e"
  by (cases d; cases e) (simp_all add: domain_num_def)

subsection \<open>Receiving\<close>

lemma receive_ok:
  "receive ended accept buf d stream = (RxOk p, buf', d', rest) \<Longrightarrow> acceptable accept p"
proof (induction ended accept buf d stream rule: receive.induct)
  case (1 ended accept buf d stream)
  obtain buf1 r where u: "try_unframe buf = (buf1, r)" by fastforce
  show ?case
  proof (cases r)
    case (Inl e)
    with 1(4) u have "\<not> d + 1 > max_desyncs" "receive ended accept [] (d + 1) stream = (RxOk p, buf', d', rest)"
      by (auto simp: receive.simps [of ended accept buf] split: if_splits)
    with 1(1) u Inl show ?thesis by metis
  next
    case (Inr o')
    show ?thesis
    proof (cases o')
      case (Some q)
      with 1(4) u Inr have "acceptable accept p \<or> \<not> acceptable accept q \<and>
          receive ended accept buf1 d stream = (RxOk p, buf', d', rest)"
        by (auto simp: receive.simps [of ended accept buf] split: if_splits)
      with 1(3) u Inr Some show ?thesis by metis
    next
      case None
      with 1(4) u Inr obtain b v more where "stream = (b, v) # more"
        "receive ended accept (if b then buf1 @ v else buf1) d more = (RxOk p, buf', d', rest)"
        by (auto simp: receive.simps [of ended accept buf] split: list.splits if_splits)
      with 1(2) u Inr None show ?thesis by metis
    qed
  qed
qed

lemma round_trip_ok:
  "round_trip env accept payload c stream = (c', rest, cs, Inr p) \<Longrightarrow> acceptable accept p"
  by (auto simp: round_trip_def Let_def dest!: receive_ok split: if_splits prod.splits rx_result.splits)

lemma correlators_of_request:
  assumes "decode (encode (build_request from_uuid req_uuid pk dm)) = Some (build_request from_uuid req_uuid pk dm)"
  shows "our_correlators decode (encode (build_request from_uuid req_uuid pk dm)) = (req_uuid, from_uuid)"
  unfolding our_correlators_def assms by (simp add: build_request_def empty_message_def routing_address_def)

subsection \<open>Responses\<close>

text \<open>
  A response the car encrypted under the metadata of the request it answers decrypts to its
  plaintext, and a nonce of another length is refused before the cipher sees it.
\<close>

lemma decrypt_response_cases:
  assumes "\<And>k n a m x. encrypt k n a m = Some x \<Longrightarrow> decrypt k n a x = Some m"
    and "encrypt key nonce (sha256 (build_response_metadata dm vin ct fl sig_type_aes_gcm_personalized rtag ft)) m
      = Some (body @ tag)"
  shows "decrypt_response sha256 decrypt key rtag dm vin fl ct ft nonce tag body =
    (if length nonce = 12 then Inr m else Inl (BadNonceLength (length nonce)))"
  using assms(1) [OF assms(2)] by (simp add: decrypt_response_def Let_def)

subsection \<open>Properties\<close>

text \<open>
  C37. The authenticated metadata binds every field: two requests, and two responses, with the same
  metadata stream agree in the domain, the vehicle, the epoch, the expiry, the counter, the flags,
  the fault and the tag of the request they answer, for fields that fit the one-byte length; and
  no request has the metadata of a response, so neither can be replayed as the other.
\<close>

theorem metadata_binds_fields:
  assumes "length vin \<le> 255" and "length vin' \<le> 255" and "length epoch \<le> 255" and "length epoch' \<le> 255"
    and "length rtag \<le> 254" and "length rtag' \<le> 254"
  shows "(build_metadata d vin epoch ex ct fl = build_metadata d' vin' epoch' ex' ct' fl' \<longleftrightarrow>
      d = d' \<and> vin = vin' \<and> epoch = epoch' \<and> ex = ex' \<and> ct = ct' \<and> fl = fl') \<and>
    (build_response_metadata d vin ct fl st rtag ft = build_response_metadata d' vin' ct' fl' st' rtag' ft' \<longleftrightarrow>
      d = d' \<and> vin = vin' \<and> ct = ct' \<and> fl = fl' \<and> st = st' \<and> rtag = rtag' \<and> ft = ft') \<and>
    build_metadata d vin epoch ex ct fl \<noteq> build_response_metadata d' vin' ct' fl' st' rtag' ft'"
  using assms domain_byte_inj [of d d']
  by (auto simp: build_metadata_def build_response_metadata_def write_tlv_inj write_tlv_eq
      sig_type_aes_gcm_personalized_def sig_type_aes_gcm_response_def)

theorem metadata_binds_fields_witness:
  "build_metadata Infotainment [1, 2] [3] 100 7 2 \<noteq> build_metadata Infotainment [1] [2, 3] 100 7 2"
  using metadata_binds_fields [of "[1, 2]" "[1]" "[3]" "[2, 3]" "[]" "[]" Infotainment 100 7 2 Infotainment 100 7 2]
  by simp

text \<open>
  What \<open>sign\<close> produces verifies: the car, which rebuilds the metadata from the fields of the
  signature, the vehicle's own identity and the flags of the envelope built around it, decrypts
  the envelope's payload with the tag to exactly the plaintext, for every cipher whose decryption
  undoes its encryption. The tag travels as the last sixteen bytes of the cipher's output.
\<close>

theorem sign_verifies:
  assumes "\<And>k n a m x. encrypt k n a m = Some x \<Longrightarrow> decrypt k n a x = Some m"
    and "sign sha256 encrypt nonce key pk inner dm vin epoch ex ct flags = Inr parts"
    and "build_signed_routable_message from_uuid req_uuid parts dm flags = msg"
  shows "\<exists>body sd. rm_payload msg = Some (ProtobufMessageAsBytes body) \<and> sub_sig_data msg = Some sd \<and>
    length (sd_tag sd) = 16 \<and> sp_counter parts = ct \<and>
    to_destination msg = Some (Some (Domain (int (domain_num dm)))) \<and>
    decrypt key (sd_nonce sd)
      (sha256 (build_metadata dm vin (sd_epoch sd) (sd_expires_at sd) (sd_counter sd) (rm_flags msg)))
      (body @ sd_tag sd) = Some inner"
  using assms(2,3) assms(1)
  by (auto simp: sign_def build_signed_routable_message_def empty_message_def Let_def
      split: option.splits if_splits)

theorem sign_verifies_witness:
  "\<exists>parts. sign (\<lambda>m. m) (\<lambda>k n a m. Some (m @ replicate 16 7)) [1] [2] [3] [4, 5] Infotainment [6] [7] 8 9 2 = Inr parts \<and>
     length (sd_tag (sp_signature_data parts)) = 16"
proof -
  let ?enc = "\<lambda>(k :: bytes) (n :: bytes) (a :: bytes) (m :: bytes). Some (m @ replicate 16 (7 :: u8))"
  let ?dec = "\<lambda>(k :: bytes) (n :: bytes) (a :: bytes) (x :: bytes). Some (take (length x - 16) x)"
  obtain parts where p: "sign (\<lambda>m. m) ?enc [1] [2] [3] [4, 5] Infotainment [6] [7] 8 9 2 = Inr parts"
    by (simp add: sign_def)
  have "?enc k n a m = Some x \<Longrightarrow> ?dec k n a x = Some m" for k n a m x by auto
  from sign_verifies [where decrypt = ?dec, OF this p refl]
  have "length (sd_tag (sp_signature_data parts)) = 16"
    by (auto simp: build_signed_routable_message_def empty_message_def)
  with p show ?thesis by blast
qed

text \<open>
  The handshake is not fooled by stragglers: a session accepted by \<open>request_session_info\<close> comes
  from a frame that, wherever it names a recipient address, a sender domain or a request id, names
  ours, that carries no unknown-key fault, and whose session reports the key as enrolled.
\<close>

theorem handshake_correlated:
  assumes "decode (encode (build_request from_uuid req_uuid pk dm)) = Some (build_request from_uuid req_uuid pk dm)"
    and "from_uuid \<noteq> []"
    and "request_session_info encode decode decode_si env from_uuid req_uuid pk dm c stream = (c', rest, Inr r)"
  shows "\<exists>b rm. decode b = Some rm \<and> rm_payload rm = Some (SessionInfoPayload (sr_raw r)) \<and>
    decode_si (sr_raw r) = Some (sr_parsed r) \<and> sr_domain r = dm \<and>
    routing_address (to_destination rm) \<in> {None, Some from_uuid} \<and>
    named_domain (from_destination rm) \<in> {None, Some (int (domain_num dm))} \<and>
    request_uuid rm \<in> {[], req_uuid} \<and>
    signed_message_fault rm \<noteq> Some messagefault_error_unknown_key_id \<and>
    si_status (sr_parsed r) \<noteq> key_not_on_whitelist"
proof -
  let ?accept = "\<lambda>b. is_response_to decode b req_uuid from_uuid dm"
  obtain c1 rest1 cs res where rt: "round_trip env ?accept (encode (build_request from_uuid req_uuid pk dm)) c stream
      = (c1, rest1, cs, res)" by (metis prod_cases4)
  from assms(3) rt obtain b where b: "res = Inr b" "parse_response decode decode_si b dm = Inr r"
    by (auto simp: request_session_info_def correlators_of_request [where encode = encode and decode = decode, OF assms(1)]
        Let_def split: sum.splits)
  from round_trip_ok [OF rt [unfolded b(1)]] have a: "is_response_to decode b req_uuid from_uuid dm"
    by (simp add: acceptable_def)
  then obtain rm where rm: "decode b = Some rm" by (auto simp: is_response_to_def split: option.splits)
  have "routing_address (to_destination rm) \<in> {None, Some from_uuid} \<and>
      named_domain (from_destination rm) \<in> {None, Some (int (domain_num dm))} \<and> request_uuid rm \<in> {[], req_uuid}"
    using a rm assms(2) by (auto simp: is_response_to_def split: option.splits if_splits)
  moreover have "rm_payload rm = Some (SessionInfoPayload (sr_raw r)) \<and>
      decode_si (sr_raw r) = Some (sr_parsed r) \<and> sr_domain r = dm \<and>
      signed_message_fault rm \<noteq> Some messagefault_error_unknown_key_id \<and>
      si_status (sr_parsed r) \<noteq> key_not_on_whitelist"
    using b(2) rm by (auto simp: parse_response_def split: option.splits payload.splits if_splits)
  ultimately show ?thesis using rm by blast
qed


definition demo_answer :: routable_message where
  "demo_answer = empty_message\<lparr>to_destination := Some (Some (RoutingAddress [4])),
     from_destination := Some (Some (Domain 3)), rm_payload := Some (SessionInfoPayload [9])\<rparr>"

definition demo_decode :: "bytes \<Rightarrow> routable_message option" where
  "demo_decode b = (if b = [0] then Some (build_request [4] [5] [6] Infotainment) else Some demo_answer)"

definition demo_si :: session_info where
  "demo_si = \<lparr>si_counter = 1, si_public_key = [], si_epoch = [], si_clock_time = 0, si_status = 0\<rparr>"

lemma demo_correlators: "our_correlators demo_decode [0] = ([5], [4])"
  using correlators_of_request [of demo_decode "\<lambda>_. [0]" "[4]" "[5]" "[6]" Infotainment]
  by (simp add: demo_decode_def)

lemma demo_handshake:
  "\<exists>c' rest. request_session_info (\<lambda>_. [0]) demo_decode (\<lambda>_. Some demo_si) demo_ble [4] [5] [6] Infotainment
     demo_conn [(True, [0, 8, 1, 2, 3, 4, 5, 6, 7, 8])] =
     (c', rest, Inr \<lparr>sr_domain = Infotainment, sr_raw = [9], sr_parsed = demo_si\<rparr>)"
proof -
  let ?p = "[1, 2, 3, 4, 5, 6, 7, 8] :: bytes" and ?s = "[(True, [0, 8, 1, 2, 3, 4, 5, 6, 7, 8])] :: (bool \<times> bytes) list"
  let ?a = "\<lambda>b. is_response_to demo_decode b [5] [4] Infotainment"
  have "is_response_to demo_decode ?p [5] [4] Infotainment"
    by (simp add: is_response_to_def demo_decode_def demo_answer_def empty_message_def routing_address_def domain_num_def
        named_domain_def)
  then have fa: "first_acceptable ?a [?p] = Some ?p" by (simp add: acceptable_def broadcast_frame_prefix_def)
  have "[] @ vehicle_bytes ?s = concat (map frame [?p])" by (simp add: vehicle_bytes_def frame_def numeral_2_eq_2)
  from receive_reassembles [OF this, of False ?a 0] fa
  obtain buf rest where "receive False ?a [] 0 ?s = (RxOk ?p, buf, 0, rest)" by auto
  moreover have "parse_response demo_decode (\<lambda>_. Some demo_si) ?p Infotainment =
      Inr \<lparr>sr_domain = Infotainment, sr_raw = [9], sr_parsed = demo_si\<rparr>"
    by (simp add: parse_response_def demo_decode_def demo_answer_def empty_message_def demo_si_def
        key_not_on_whitelist_def)
  ultimately show ?thesis
    by (simp add: request_session_info_def demo_correlators round_trip_def demo_conn_def demo_ble_def Let_def)
qed

theorem handshake_correlated_witness:
  "\<exists>c' rest. request_session_info (\<lambda>_. [0]) demo_decode (\<lambda>_. Some demo_si) demo_ble [4] [5] [6] Infotainment
     demo_conn [(True, [0, 8, 1, 2, 3, 4, 5, 6, 7, 8])] =
     (c', rest, Inr \<lparr>sr_domain = Infotainment, sr_raw = [9], sr_parsed = demo_si\<rparr>) \<and>
   si_status demo_si \<noteq> key_not_on_whitelist"
proof -
  obtain c' rest where q: "request_session_info (\<lambda>_. [0]) demo_decode (\<lambda>_. Some demo_si) demo_ble [4] [5] [6]
      Infotainment demo_conn [(True, [0, 8, 1, 2, 3, 4, 5, 6, 7, 8])] =
      (c', rest, Inr \<lparr>sr_domain = Infotainment, sr_raw = [9], sr_parsed = demo_si\<rparr>)"
    using demo_handshake by blast
  have "demo_decode [0] = Some (build_request [4] [5] [6] Infotainment)" by (simp add: demo_decode_def)
  from handshake_correlated [where encode = "\<lambda>_. [0]", OF this _ q] q show ?thesis by auto
qed

end
