(* ===== verification/RadioLock.thy ===== *)
theory RadioLock
  imports Prelude
begin

section \<open>The Bluetooth radio lock\<close>

text \<open>
  \<^verbatim>\<open>crates/tesla_telemetry/src/lock.rs\<close>: the lock file through which the daemon and the keep-awake
  scripts share the one radio. The directory is a map from the lock file and its temporary file to
  their contents; a content that cannot be read as text is \<open>Unreadable\<close>. Each call sees one clock
  reading and one reading of the archive status file and of the nudge process.
\<close>

datatype lock_name = LockFile | LockTmp
datatype lock_content = Unreadable | Readable ustr
type_synonym lock_dir = "lock_name \<Rightarrow> lock_content option"

datatype lock_error = LockReadFailed | LockEmpty | LockCreateFailed | LockWriteFailed | LockRenameFailed
  | LockRemoveFailed

definition stale_after_secs :: int where "stale_after_secs = 86400"
definition keep_awake_orphan_grace_secs :: int where "keep_awake_orphan_grace_secs = 60"
definition archive_status_fresh_secs :: nat where "archive_status_fresh_secs = 120"

definition read_lock :: "lock_dir \<Rightarrow> lock_error + (ustr \<times> int)" where
  "read_lock fs =
     (case fs LockFile of
        Some (Readable contents) \<Rightarrow>
          (case str_lines contents of
             [] \<Rightarrow> Inl LockEmpty
           | owner # rest \<Rightarrow>
               Inr (trim owner,
                    case rest of [] \<Rightarrow> 0
                    | l # _ \<Rightarrow> (case parse_i64 (trim l) of None \<Rightarrow> 0 | Some ts \<Rightarrow> ts)))
      | _ \<Rightarrow> Inl LockReadFailed)"

definition replace_lock ::
  "lock_content write_fault \<Rightarrow> lock_content \<Rightarrow> lock_dir \<Rightarrow> lock_dir \<times> (lock_error + unit)" where
  "replace_lock fault content fs =
     (case fault of
        CreateFault \<Rightarrow> (fs, Inl LockCreateFailed)
      | WriteFault partial \<Rightarrow> (fs(LockTmp \<mapsto> partial), Inl LockWriteFailed)
      | RenameFault \<Rightarrow> (fs(LockTmp \<mapsto> content), Inl LockRenameFailed)
      | NoFault \<Rightarrow> (fs(LockTmp := None, LockFile \<mapsto> content), Inr ()))"

definition write_lock ::
  "lock_content write_fault \<Rightarrow> ustr \<Rightarrow> int \<Rightarrow> lock_dir \<Rightarrow> lock_dir \<times> (lock_error + unit)" where
  "write_lock fault owner ts fs = replace_lock fault (Readable (unlines [owner, show_int ts])) fs"

text \<open>The clock and the status file's modification time are in nanoseconds; \<open>None\<close> when it cannot be read.\<close>

definition is_archive_active_at :: "nat \<Rightarrow> nat option \<Rightarrow> bool" where
  "is_archive_active_at now modified =
     (case modified of
        None \<Rightarrow> False
      | Some m \<Rightarrow> m \<le> now \<and> (now - m) div 10 ^ 9 < archive_status_fresh_secs)"

definition is_nudge_alive_at :: "(nat \<Rightarrow> bool) \<Rightarrow> ustr option \<Rightarrow> bool" where
  "is_nudge_alive_at proc pid_file =
     (case pid_file of
        None \<Rightarrow> False
      | Some pid_str \<Rightarrow>
          (case parse_unsigned (2 ^ 32 - 1) (trim pid_str) of None \<Rightarrow> False | Some pid \<Rightarrow> proc pid))"

record radio_env =
  now_ns :: nat
  status_modified :: "nat option"
  nudge_pid :: "ustr option"
  proc_exists :: "nat \<Rightarrow> bool"
  lock_fault :: "lock_content write_fault"
  remove_ok :: bool
  webui_wanted :: bool

definition now_secs :: "radio_env \<Rightarrow> int" where "now_secs e = int (now_ns e div 10 ^ 9)"

definition archive_active :: "radio_env \<Rightarrow> bool" where
  "archive_active e = is_archive_active_at (now_ns e) (status_modified e)"

definition nudge_alive :: "radio_env \<Rightarrow> bool" where
  "nudge_alive e = is_nudge_alive_at (proc_exists e) (nudge_pid e)"

definition keep_awake_requested :: "radio_env \<Rightarrow> bool" where
  "keep_awake_requested e \<longleftrightarrow> archive_active e \<or> nudge_alive e \<or> webui_wanted e"

definition take_lock :: "radio_env \<Rightarrow> ustr \<Rightarrow> lock_dir \<Rightarrow> lock_dir \<times> (lock_error + bool)" where
  "take_lock e owner fs =
     (case write_lock (lock_fault e) owner (now_secs e) fs of
        (fs', Inl err) \<Rightarrow> (fs', Inl err)
      | (fs', Inr _) \<Rightarrow> (fs', Inr True))"

definition try_acquire_at :: "radio_env \<Rightarrow> ustr \<Rightarrow> lock_dir \<Rightarrow> lock_dir \<times> (lock_error + bool)" where
  "try_acquire_at e owner fs =
     (if fs LockFile \<noteq> None then
        (case read_lock fs of
           Inr (existing_owner, ts) \<Rightarrow>
             if existing_owner = owner then take_lock e owner fs
             else let age = wrap_i64 (now_secs e - ts)
                  in if age > stale_after_secs then take_lock e owner fs
                     else if existing_owner = lit ''keep_awake'' \<and> age \<ge> keep_awake_orphan_grace_secs
                          \<and> \<not> archive_active e \<and> \<not> nudge_alive e
                     then take_lock e owner fs
                     else (fs, Inr False)
         | Inl _ \<Rightarrow> take_lock e owner fs)
      else take_lock e owner fs)"

definition release_at :: "radio_env \<Rightarrow> ustr \<Rightarrow> lock_dir \<Rightarrow> lock_dir \<times> (lock_error + unit)" where
  "release_at e owner fs =
     (if fs LockFile = None then (fs, Inr ())
      else case read_lock fs of
             Inr (existing_owner, _) \<Rightarrow>
               if existing_owner = owner
               then (if remove_ok e then (fs(LockFile := None), Inr ()) else (fs, Inl LockRemoveFailed))
               else (fs, Inr ())
           | Inl _ \<Rightarrow> (fs, Inr ()))"

definition current_owner_at :: "lock_dir \<Rightarrow> ustr option" where
  "current_owner_at fs = (case read_lock fs of Inl _ \<Rightarrow> None | Inr (owner, _) \<Rightarrow> Some owner)"

text \<open>A history of calls, each with the environment it sees.\<close>

datatype lock_call = Acquire ustr | Release ustr

fun caller :: "lock_call \<Rightarrow> ustr" where
  "caller (Acquire o') = o'"
| "caller (Release o') = o'"

fun call_step :: "lock_dir \<Rightarrow> radio_env \<times> lock_call \<Rightarrow> lock_dir" where
  "call_step fs (e, Acquire o') = fst (try_acquire_at e o' fs)"
| "call_step fs (e, Release o') = fst (release_at e o' fs)"

section \<open>Lemmas\<close>

interpretation lock_file: atomic_writer replace_lock LockFile
  by unfold_locales (auto simp: replace_lock_def split: write_fault.splits)

text \<open>Owner names are single trimmed lines.\<close>

definition clean_owner :: "ustr \<Rightarrow> bool" where
  "clean_owner s \<longleftrightarrow> 10 \<notin> set s \<and> trim s = s"

lemma trim_strip_cr [text_simps]: "trim (strip_cr s) = trim s"
proof (cases "s \<noteq> [] \<and> last s = 13")
  case True
  then obtain t where "s = t @ [13]" by (metis append_butlast_last_id)
  then show ?thesis using trim_snoc_white [of 13 t] by (simp add: strip_cr_def is_white_def)
qed (auto simp: strip_cr_def)

lemma read_written:
  assumes "clean_owner owner" and "0 \<le> ts" and "ts < 2 ^ 63"
    and "fs LockFile = Some (Readable (unlines [owner, show_int ts]))"
  shows "read_lock fs = Inr (owner, ts)"
proof -
  have nl: "10 \<notin> set (show_nat n)" for n using show_nat_digits [of 10 n] by (auto simp: is_digit_def)
  then have "str_lines (unlines [owner, show_int ts]) = map strip_cr [owner, show_int ts]"
    by (intro str_lines_unlines) (use assms(1,2) in \<open>auto simp: clean_owner_def show_int_def\<close>)
  moreover have "trim (show_int ts) = show_int ts" using assms(2) by (simp add: show_int_def text_simps)
  ultimately show ?thesis
    using assms by (simp add: read_lock_def text_simps clean_owner_def)
qed

lemma take_lock_owner:
  assumes "take_lock e owner fs = (fs', Inr b)" and "clean_owner owner" and "now_secs e < 2 ^ 63"
  shows "b \<and> read_lock fs' = Inr (owner, now_secs e)"
proof -
  from assms(1) have "b" "fs' LockFile = Some (Readable (unlines [owner, show_int (now_secs e)]))"
    by (auto simp: take_lock_def write_lock_def split: sum.splits prod.splits dest: lock_file.write_ok)
  then show ?thesis using read_written assms(2,3) by (simp add: now_secs_def)
qed

text \<open>The conditions under which a caller may not take the lock of \<open>h\<close>, written at \<open>ts\<close>.\<close>

definition protected :: "ustr \<Rightarrow> int \<Rightarrow> radio_env \<times> lock_call \<Rightarrow> bool" where
  "protected h ts ec =
     (case ec of (e, c) \<Rightarrow>
        caller c \<noteq> h \<and> ts \<le> now_secs e \<and> now_secs e \<le> ts + stale_after_secs \<and>
        (h \<noteq> lit ''keep_awake'' \<or> now_secs e < ts + keep_awake_orphan_grace_secs \<or>
         archive_active e \<or> nudge_alive e))"

lemma read_lock_present: "read_lock fs = Inr x \<Longrightarrow> fs LockFile \<noteq> None"
  by (auto simp: read_lock_def split: option.splits)

lemma refused:
  assumes "read_lock fs = Inr (h, ts)" and "protected h ts (e, c)"
  shows "try_acquire_at e (caller c) fs = (fs, Inr False)" and "release_at e (caller c) fs = (fs, Inr ())"
proof -
  have w: "wrap_i64 (now_secs e - ts) = now_secs e - ts"
    using assms(2) by (intro wrap_i64_id) (auto simp: protected_def stale_after_secs_def)
  show "try_acquire_at e (caller c) fs = (fs, Inr False)"
    using assms read_lock_present [OF assms(1)] by (auto simp: try_acquire_at_def Let_def w protected_def)
  show "release_at e (caller c) fs = (fs, Inr ())"
    using assms by (auto simp: release_at_def protected_def)
qed

interpretation held: invariant_machine
  "\<lambda>fs ec. if protected h ts ec then call_step fs ec else fs"
  "\<lambda>fs. fs = fs0 \<and> read_lock fs = Inr (h, ts)" for h ts fs0
proof (unfold_locales, goal_cases)
  case (1 fs ec)
  then show ?case
    using refused [of fs h ts] by (cases "(fs, ec)" rule: call_step.cases) fastforce+
qed

lemma held_run:
  assumes "read_lock fs = Inr (h, ts)" and "list_all (protected h ts) es"
  shows "foldl call_step fs es = fs"
proof -
  have "foldl call_step fs es = foldl (\<lambda>fs ec. if protected h ts ec then call_step fs ec else fs) fs es"
    using assms(2) by (induction es arbitrary: fs) auto
  then show ?thesis using held.run_inv [of fs fs h ts es] assms(1) by simp
qed

subsection \<open>Properties\<close>

text \<open>
  The radio has one owner. After a successful acquisition, any sequence of acquisitions and
  releases by other callers within a day leaves the lock as it is, and the next such acquisition is
  refused (a \<^verbatim>\<open>keep_awake\<close> lock older than a minute is protected while an archive or a nudge is
  alive); the holder's own release then frees the lock.
\<close>

theorem radio_lock_held:
  assumes "try_acquire_at e h fs = (fs', Inr True)" and "clean_owner h" and "now_secs e < 2 ^ 63"
    and "list_all (protected h (now_secs e)) ((e', Acquire other) # es)" and "remove_ok e''"
  shows "foldl call_step fs' es = fs' \<and> current_owner_at fs' = Some h \<and>
    try_acquire_at e' other (foldl call_step fs' es) = (fs', Inr False) \<and>
    fst (release_at e'' h fs') LockFile = None"
proof -
  have "take_lock e h fs = (fs', Inr True)"
    using assms(1) by (auto simp: try_acquire_at_def Let_def split: if_splits sum.splits prod.splits)
  with take_lock_owner assms(2,3) have r: "read_lock fs' = Inr (h, now_secs e)" by blast
  with assms(4) have "foldl call_step fs' es = fs'" by (auto intro: held_run)
  moreover have "try_acquire_at e' other fs' = (fs', Inr False)"
    using refused(1) [OF r, of e' "Acquire other"] assms(4) by simp
  ultimately show ?thesis
    using r read_lock_present [OF r] assms(5) by (auto simp: current_owner_at_def release_at_def)
qed

definition demo_radio :: "nat \<Rightarrow> radio_env" where
  "demo_radio t = \<lparr>now_ns = t * 10 ^ 9, status_modified = None, nudge_pid = None, proc_exists = (\<lambda>_. False),
     lock_fault = NoFault, remove_ok = True, webui_wanted = False\<rparr>"

theorem radio_lock_held_witness:
  "\<exists>fs'. try_acquire_at (demo_radio 1000) (lit ''telemetry'') Map.empty = (fs', Inr True) \<and>
     try_acquire_at (demo_radio 5000) (lit ''keep_awake'') fs' = (fs', Inr False) \<and>
     fst (release_at (demo_radio 6000) (lit ''telemetry'') fs') LockFile = None"
proof -
  obtain fs' where a: "try_acquire_at (demo_radio 1000) (lit ''telemetry'') Map.empty = (fs', Inr True)"
    by (simp add: try_acquire_at_def take_lock_def write_lock_def replace_lock_def demo_radio_def)
  have c: "clean_owner (lit ''telemetry'')" by (simp add: clean_owner_def text_eval)
  have n: "now_secs (demo_radio 1000) < 2 ^ 63" by (simp add: now_secs_def demo_radio_def)
  have p: "list_all (protected (lit ''telemetry'') (now_secs (demo_radio 1000)))
      [(demo_radio 5000, Acquire (lit ''keep_awake''))]"
    by (simp add: protected_def now_secs_def demo_radio_def stale_after_secs_def)
  show ?thesis using radio_lock_held [OF a c n p, of "demo_radio 6000"] a by (auto simp: demo_radio_def)
qed

end
