(* ===== verification/Mp4Samples.thy ===== *)
theory Mp4Samples
  imports Float64 "HOL-Library.Sublist"
begin

section \<open>Sample times of a recording\<close>

text \<open>
  \<^verbatim>\<open>crates/drives/src/mp4_samples.rs\<close>: finding the \<^verbatim>\<open>moov\<close> box of an MP4 file, parsing the sample
  tables of its first video track and looking up the presentation time of the sample that contains
  a byte offset. A file is its bytes. Offsets are 64 bits wide and wrap, as in the release build;
  slice indices are unbounded, since a slice is shorter than the address space of a 64-bit target.
\<close>

datatype mp4_error =
    SeekFailed | UnexpectedEof | CorruptBox nat | BoxTooLarge | NoMoov | Truncated | EmptyTable
  | CountExceedsBox | TimingTooLong | TimingTooShort | NoVideoTrack | NoMdhd | ZeroTimescale | NoStbl
  | NoStsz | BadChunkTables | NoStsc | InvalidStsc | ChunkWithoutStsc | TooManySamples | TooFewSamples
  | NoStts | SampleTimeOverflow | EmptyElst

definition max_moov_bytes :: nat where "max_moov_bytes = 16 * 1024 * 1024"

definition wrap_u64 :: "nat \<Rightarrow> nat" where "wrap_u64 n = n mod 2 ^ 64"

record sample_span =
  sp_offset :: nat
  sp_size :: nat
  time_sec :: rat

definition time_at_offset :: "sample_span list \<Rightarrow> nat \<Rightarrow> rat option" where
  "time_at_offset spans offset =
     (case partition_point (\<lambda>s. sp_offset s \<le> offset) spans of
        0 \<Rightarrow> None
      | Suc idx \<Rightarrow>
          let s = spans ! idx
          in if offset < wrap_u64 (sp_offset s + sp_size s) then Some (time_sec s) else None)"

subsection \<open>Boxes\<close>

text \<open>
  The loop over the top-level boxes. Its result is \<open>None\<close> when it never returns: the position is
  advanced by a 64-bit size from the file, and the addition wraps.
\<close>

partial_function (option) scan_boxes :: "bytes \<Rightarrow> bytes \<Rightarrow> nat \<Rightarrow> (mp4_error + bytes option) option" where
  "scan_boxes file want pos =
     (if \<not> wrap_u64 (pos + 8) \<le> length file then Some (Inr None)
      else if pos \<ge> 2 ^ 63 then Some (Inl SeekFailed)
      else if pos + 8 > length file then Some (Inl UnexpectedEof)
      else let size32 = be_to_nat (take 4 (drop pos file));
               kind = take 4 (drop (pos + 4) file)
           in if size32 = 1 \<and> pos + 16 > length file then Some (Inl UnexpectedEof)
              else let size = (if size32 = 1 then be_to_nat (take 8 (drop (pos + 8) file))
                               else if size32 = 0 then length file - pos else size32);
                       header_size = (if size32 = 1 then 16 else 8)
                   in if size < header_size then Some (Inl (CorruptBox pos))
                      else if kind = want
                      then (let body = size - header_size
                            in if body > max_moov_bytes \<or> wrap_u64 (pos + size) > length file
                               then Some (Inl BoxTooLarge)
                               else if pos + header_size + body > length file then Some (Inl UnexpectedEof)
                               else Some (Inr (Some (take body (drop (pos + header_size) file)))))
                      else scan_boxes file want (wrap_u64 (pos + size)))"

definition read_top_level_box :: "bytes \<Rightarrow> bytes \<Rightarrow> (mp4_error + bytes option) option" where
  "read_top_level_box file want = scan_boxes file want 0"

function children :: "bytes \<Rightarrow> (bytes \<times> bytes) list" where
  "children data =
     (if length data < 8 then []
      else let size32 = be_to_nat (take 4 data);
               kind = take 4 (drop 4 data);
               header = (if size32 = 1 then 16 else 8);
               size = (if size32 = 1 then be_to_nat (take 8 (drop 8 data))
                       else if size32 = 0 then length data else size32)
           in if size32 = 1 \<and> length data < 16 then []
              else if header \<le> size \<and> size \<le> length data
              then (kind, take (size - header) (drop header data)) # children (drop size data)
              else [])"
  by pat_completeness auto
termination by (relation "measure length") (auto split: if_splits)

declare children.simps [simp del]

definition child :: "bytes \<Rightarrow> bytes \<Rightarrow> bytes option" where
  "child data kind = map_option snd (List.find (\<lambda>(k, _). k = kind) (children data))"

definition be_u32 :: "bytes \<Rightarrow> nat \<Rightarrow> mp4_error + nat" where
  "be_u32 data p = ok_or Truncated (map_option be_to_nat (get_range data p 4))"

definition be_u64 :: "bytes \<Rightarrow> nat \<Rightarrow> mp4_error + nat" where
  "be_u64 data p = ok_or Truncated (map_option be_to_nat (get_range data p 8))"

definition table :: "bytes \<Rightarrow> nat \<Rightarrow> mp4_error + (u8 \<times> nat \<times> nat)" where
  "table data entry_size =
     (case data of
        [] \<Rightarrow> Inl EmptyTable
      | version # _ \<Rightarrow>
          bindR (be_u32 data 4) (\<lambda>count.
            if 8 + count * entry_size > length data then Inl CountExceedsBox
            else Inr (version, count, 8)))"

text \<open>The casts \<^verbatim>\<open>as i32 as i64\<close> and \<^verbatim>\<open>as i64\<close>.\<close>

definition as_i32 :: "nat \<Rightarrow> int" where
  "as_i32 n = (if n < 2 ^ 31 then int n else int n - 2 ^ 32)"

definition as_i64 :: "nat \<Rightarrow> int" where
  "as_i64 n = (if n < 2 ^ 63 then int n else int n - 2 ^ 64)"

fun expand_loop :: "bytes \<Rightarrow> nat \<Rightarrow> bool \<Rightarrow> nat list \<Rightarrow> int list \<Rightarrow> mp4_error + int list" where
  "expand_loop data samples i32 [] out = Inr out"
| "expand_loop data samples i32 (i # is) out =
     bindR (be_u32 data (8 + i * 8)) (\<lambda>repeat.
     bindR (be_u32 data (8 + i * 8 + 4)) (\<lambda>raw.
       let val = (if i32 then as_i32 raw else int raw)
       in if repeat > samples - length out then Inl TimingTooLong
          else expand_loop data samples i32 is (out @ replicate repeat val)))"

definition expand_runs :: "bytes \<Rightarrow> nat \<Rightarrow> bool \<Rightarrow> mp4_error + int list" where
  "expand_runs data samples want_signed =
     bindR (table data 8) (\<lambda>(version, count, _).
     bindR (expand_loop data samples (want_signed \<and> version = 1) [0..<count] []) (\<lambda>out.
       if length out \<noteq> samples then Inl TimingTooShort else Inr out))"

subsection \<open>The video track\<close>

fun stsc_loop :: "bytes \<Rightarrow> nat list \<Rightarrow> (nat \<times> nat) list \<Rightarrow> mp4_error + (nat \<times> nat) list" where
  "stsc_loop stsc [] per_chunk = Inr per_chunk"
| "stsc_loop stsc (i # is) per_chunk =
     bindR (be_u32 stsc (8 + i * 12)) (\<lambda>first.
     bindR (be_u32 stsc (8 + i * 12 + 4)) (\<lambda>count.
       if first = 0 \<or> (per_chunk \<noteq> [] \<and> first \<le> fst (last per_chunk)) then Inl InvalidStsc
       else stsc_loop stsc is (per_chunk @ [(first, count)])))"

function advance_run :: "(nat \<times> nat) list \<Rightarrow> nat \<Rightarrow> nat \<Rightarrow> nat" where
  "advance_run per_chunk c run =
     (if run + 1 < length per_chunk \<and> c + 1 \<ge> fst (per_chunk ! (run + 1))
      then advance_run per_chunk c (run + 1) else run)"
  by pat_completeness auto
termination by (relation "measure (\<lambda>(per_chunk, c, run). length per_chunk - run)") auto

declare advance_run.simps [simp del]

fun push_samples :: "(nat \<Rightarrow> mp4_error + nat) \<Rightarrow> nat \<Rightarrow> nat \<Rightarrow> nat \<Rightarrow> (nat \<times> nat) list
    \<Rightarrow> mp4_error + (nat \<times> nat) list" where
  "push_samples size_of samples 0 offset ranges = Inr ranges"
| "push_samples size_of samples (Suc n) offset ranges =
     (if length ranges = samples then Inl TooManySamples
      else bindR (size_of (length ranges)) (\<lambda>size.
             push_samples size_of samples n (wrap_u64 (offset + size)) (ranges @ [(offset, size)])))"

fun chunk_loop :: "(nat \<Rightarrow> mp4_error + nat) \<Rightarrow> (nat \<Rightarrow> mp4_error + nat) \<Rightarrow> nat \<Rightarrow> (nat \<times> nat) list \<Rightarrow>
    nat list \<Rightarrow> nat \<Rightarrow> (nat \<times> nat) list \<Rightarrow> mp4_error + (nat \<times> nat) list" where
  "chunk_loop size_of chunk_offset samples per_chunk [] run ranges = Inr ranges"
| "chunk_loop size_of chunk_offset samples per_chunk (c # cs) run ranges =
     (let run' = advance_run per_chunk c run
      in if run' \<ge> length per_chunk then Inl ChunkWithoutStsc
         else bindR (chunk_offset c) (\<lambda>offset.
              bindR (push_samples size_of samples (snd (per_chunk ! run')) offset ranges) (\<lambda>ranges'.
                chunk_loop size_of chunk_offset samples per_chunk cs run' ranges')))"

fun time_loop :: "int \<Rightarrow> nat \<Rightarrow> ((nat \<times> nat) \<times> int \<times> int) list \<Rightarrow> int \<Rightarrow> mp4_error + sample_span list" where
  "time_loop start_time timescale [] decode_time = Inr []"
| "time_loop start_time timescale (((offset, len), delta, cto) # rest) decode_time =
     (let shown = wrap_i64 (wrap_i64 (decode_time + cto) - start_time);
          s = \<lparr>sp_offset = offset, sp_size = len,
               time_sec = fl (fl (of_int (max shown 0)) / of_nat timescale)\<rparr>
      in if decode_time + delta \<ge> 2 ^ 63 then Inl SampleTimeOverflow
         else bindR (time_loop start_time timescale rest (decode_time + delta)) (\<lambda>ss. Inr (s # ss)))"

fun elst_loop :: "bytes \<Rightarrow> u8 \<Rightarrow> nat list \<Rightarrow> mp4_error + int" where
  "elst_loop elst version [] = Inr 0"
| "elst_loop elst version (i # is) =
     bindR (if version = 1 then bindR (be_u64 elst (8 + i * 20 + 8)) (\<lambda>n. Inr (as_i64 n))
            else bindR (be_u32 elst (8 + i * 12 + 4)) (\<lambda>n. Inr (as_i32 n))) (\<lambda>media_time.
       if media_time \<ge> 0 then Inr media_time else elst_loop elst version is)"

definition edit_start :: "bytes \<Rightarrow> mp4_error + int" where
  "edit_start trak =
     (case Option.bind (child trak (map of_char ''edts'')) (\<lambda>edts. child edts (map of_char ''elst'')) of
        None \<Rightarrow> Inr 0
      | Some [] \<Rightarrow> Inl EmptyElst
      | Some (version # body) \<Rightarrow>
          bindR (table (version # body) (if version = 1 then 20 else 12)) (\<lambda>(_, count, _).
            elst_loop (version # body) version [0..<count]))"

definition sample_size :: "bytes \<Rightarrow> nat \<Rightarrow> nat \<Rightarrow> mp4_error + nat" where
  "sample_size stsz fixed i = (if fixed \<noteq> 0 then Inr fixed else be_u32 stsz (12 + i * 4))"

definition chunk_table :: "bytes \<Rightarrow> mp4_error + (nat \<times> (nat \<Rightarrow> mp4_error + nat))" where
  "chunk_table stbl =
     (case (child stbl (map of_char ''stco''), child stbl (map of_char ''co64'')) of
        (Some stco, None) \<Rightarrow> bindR (table stco 4) (\<lambda>(_, n, _). Inr (n, \<lambda>c. be_u32 stco (8 + c * 4)))
      | (None, Some co64) \<Rightarrow> bindR (table co64 8) (\<lambda>(_, n, _). Inr (n, \<lambda>c. be_u64 co64 (8 + c * 8)))
      | _ \<Rightarrow> Inl BadChunkTables)"

text \<open>The byte ranges of the samples in decode order.\<close>

definition sample_ranges :: "bytes \<Rightarrow> mp4_error + (nat \<times> nat) list" where
  "sample_ranges stbl =
     bindR (ok_or NoStsz (child stbl (map of_char ''stsz''))) (\<lambda>stsz.
     bindR (be_u32 stsz 4) (\<lambda>fixed.
     bindR (be_u32 stsz 8) (\<lambda>samples.
     bindR (chunk_table stbl) (\<lambda>(chunks, chunk_offset).
     bindR (ok_or NoStsc (child stbl (map of_char ''stsc''))) (\<lambda>stsc.
     bindR (table stsc 12) (\<lambda>(_, runs, _).
     bindR (stsc_loop stsc [0..<runs] []) (\<lambda>per_chunk.
     bindR (chunk_loop (sample_size stsz fixed) chunk_offset samples per_chunk [0..<chunks] 0 []) (\<lambda>ranges.
       if length ranges \<noteq> samples then Inl TooFewSamples else Inr ranges))))))))"

definition parse_video_trak :: "bytes \<Rightarrow> bytes \<Rightarrow> mp4_error + sample_span list" where
  "parse_video_trak trak mdia =
     bindR (ok_or NoMdhd (child mdia (map of_char ''mdhd''))) (\<lambda>mdhd.
     bindR (be_u32 mdhd (if mdhd \<noteq> [] \<and> hd mdhd = 1 then 20 else 12)) (\<lambda>timescale.
     if timescale = 0 then Inl ZeroTimescale else
     bindR (ok_or NoStbl (Option.bind (child mdia (map of_char ''minf''))
              (\<lambda>minf. child minf (map of_char ''stbl'')))) (\<lambda>stbl.
     bindR (sample_ranges stbl) (\<lambda>ranges.
     bindR (ok_or NoStts (child stbl (map of_char ''stts''))) (\<lambda>stts.
     bindR (expand_runs stts (length ranges) False) (\<lambda>deltas.
     bindR (case child stbl (map of_char ''ctts'') of
              Some ctts \<Rightarrow> expand_runs ctts (length ranges) True
            | None \<Rightarrow> Inr (replicate (length ranges) 0)) (\<lambda>composition.
     bindR (edit_start trak) (\<lambda>start_time.
     bindR (time_loop start_time timescale (zip ranges (zip deltas composition)) 0) (\<lambda>spans.
       Inr (sort_key sp_offset spans))))))))))"

fun video_trak :: "(bytes \<times> bytes) list \<Rightarrow> mp4_error + sample_span list" where
  "video_trak [] = Inl NoVideoTrack"
| "video_trak ((kind, trak) # rest) =
     (if kind \<noteq> map of_char ''trak'' then video_trak rest
      else case child trak (map of_char ''mdia'') of
             None \<Rightarrow> video_trak rest
           | Some mdia \<Rightarrow>
               if Option.bind (child mdia (map of_char ''hdlr'')) (\<lambda>h. get_range h 8 4)
                    = Some (map of_char ''vide'')
               then parse_video_trak trak mdia else video_trak rest)"

definition parse_moov :: "bytes \<Rightarrow> mp4_error + sample_span list" where
  "parse_moov moov = video_trak (children moov)"

definition video_sample_times :: "bytes \<Rightarrow> (mp4_error + sample_span list) option" where
  "video_sample_times file =
     map_option (\<lambda>r. bindR r (\<lambda>moov. bindR (ok_or NoMoov moov) parse_moov))
       (read_top_level_box file (map of_char ''moov''))"

section \<open>Lemmas\<close>

subsection \<open>Boxes written with a 32-bit size\<close>

definition mp4_box :: "bytes \<times> bytes \<Rightarrow> bytes" where
  "mp4_box kb = nat_to_be 4 (8 + length (snd kb)) @ fst kb @ snd kb"

definition valid_box :: "bytes \<times> bytes \<Rightarrow> bool" where
  "valid_box kb \<longleftrightarrow> length (fst kb) = 4 \<and> 8 + length (snd kb) < 2 ^ 32"

lemma length_mp4_box: "valid_box kb \<Longrightarrow> length (mp4_box kb) = 8 + length (snd kb)"
  by (simp add: mp4_box_def valid_box_def)

lemma length_mp4_box_eq: "length (mp4_box kb) = 4 + length (fst kb) + length (snd kb)"
  by (simp add: mp4_box_def)

lemma mp4_box_parts:
  assumes "valid_box kb"
  shows "be_to_nat (take 4 (mp4_box kb @ rest)) = 8 + length (snd kb)"
    and "take 4 (drop 4 (mp4_box kb @ rest)) = fst kb"
    and "drop 8 (mp4_box kb @ rest) = snd kb @ rest"
  using assms by (simp_all add: mp4_box_def valid_box_def be_to_nat_nat_to_be)

lemma children_box: "valid_box kb \<Longrightarrow> children (mp4_box kb @ rest) = kb # children rest"
  using mp4_box_parts [of kb rest] length_mp4_box [of kb]
  by (subst children.simps) (simp add: Let_def)

lemma children_boxes: "list_all valid_box bs \<Longrightarrow> children (concat (map mp4_box bs)) = bs"
  by (induction bs) (simp_all add: children_box children.simps [of "[]"])

interpretation boxes: prefix_codec mp4_box
  "\<lambda>data. case children data of [] \<Rightarrow> None | kb # _ \<Rightarrow> Some (kb, drop (8 + length (snd kb)) data)" valid_box
  by unfold_locales (simp add: children_box length_mp4_box)

lemma scan_box:
  assumes "valid_box kb" and "length (pre @ mp4_box kb @ post) < 2 ^ 63"
    and "fst kb = want \<Longrightarrow> length (snd kb) \<le> max_moov_bytes"
  shows "scan_boxes (pre @ mp4_box kb @ post) want (length pre) =
    (if fst kb = want then Some (Inr (Some (snd kb)))
     else scan_boxes (pre @ mp4_box kb @ post) want (length (pre @ mp4_box kb)))"
  using mp4_box_parts [OF assms(1), of post] assms(2,3) length_mp4_box [OF assms(1)]
  by (subst scan_boxes.simps) (auto simp: Let_def wrap_u64_def)

lemma scan_boxes_find:
  assumes "list_all valid_box bs" and "length (pre @ concat (map mp4_box bs)) < 2 ^ 63"
    and "list_all (\<lambda>kb. fst kb \<noteq> want \<or> length (snd kb) \<le> max_moov_bytes) bs"
  shows "scan_boxes (pre @ concat (map mp4_box bs)) want (length pre) =
    Some (Inr (map_option snd (List.find (\<lambda>kb. fst kb = want) bs)))"
  using assms
proof (induction bs arbitrary: pre)
  case Nil
  then show ?case by (subst scan_boxes.simps) (simp add: wrap_u64_def)
next
  case (Cons kb bs)
  then show ?case
    using scan_box [of kb pre "concat (map mp4_box bs)" want] Cons.IH [of "pre @ mp4_box kb"] by auto
qed

subsection \<open>Looking up an offset\<close>

definition span_end :: "sample_span \<Rightarrow> nat" where "span_end s = sp_offset s + sp_size s"

definition covers :: "nat \<Rightarrow> sample_span \<Rightarrow> bool" where
  "covers off s \<longleftrightarrow> sp_offset s \<le> off \<and> off < span_end s"

lemma time_at_offset_find:
  assumes "sorted_wrt (\<lambda>a b. span_end a \<le> sp_offset b) ss" and "list_all (\<lambda>s. span_end s < 2 ^ 64) ss"
  shows "time_at_offset ss off = map_option time_sec (List.find (covers off) ss)"
proof -
  let ?P = "\<lambda>s. sp_offset s \<le> off" and ?Q = "\<lambda>s. off < span_end s"
  have "sorted_wrt (\<lambda>a b. ?P b \<longrightarrow> ?P a \<and> \<not> ?Q a) ss"
    by (rule sorted_wrt_mono_rel [OF _ assms(1)]) (auto simp: span_end_def)
  from partition_point_find [OF this] have "map_option time_sec
      (case partition_point ?P ss of 0 \<Rightarrow> None | Suc i \<Rightarrow> if ?Q (ss ! i) then Some (ss ! i) else None)
      = map_option time_sec (List.find (covers off) ss)"
    by (simp add: covers_def [abs_def])
  moreover have "wrap_u64 (sp_offset (ss ! i) + sp_size (ss ! i)) = span_end (ss ! i)" if "partition_point ?P ss = Suc i" for i
    using that assms(2) partition_point_le [of ?P ss] by (auto simp: list_all_length wrap_u64_def span_end_def)
  ultimately show ?thesis
    by (cases "partition_point ?P ss") (auto simp: time_at_offset_def Let_def split: if_splits)
qed

lemma sort_disjoint:
  assumes "sorted (map sp_offset ss)" and "list_all (\<lambda>s. 0 < sp_size s) ss"
    and "sorted_wrt (\<lambda>a b. span_end a \<le> sp_offset b \<or> span_end b \<le> sp_offset a) ss"
  shows "sorted_wrt (\<lambda>a b. span_end a \<le> sp_offset b) ss"
  using assms by (induction ss) (fastforce simp: span_end_def list_all_iff)+

lemma parse_moov_sorted: "parse_moov moov = Inr ss \<Longrightarrow> sorted (map sp_offset ss)"
proof -
  have "parse_video_trak trak mdia = Inr ss \<Longrightarrow> sorted (map sp_offset ss)" for trak mdia
    by (auto simp: parse_video_trak_def res_simps split: if_splits)
  then have "video_trak bs = Inr ss \<Longrightarrow> sorted (map sp_offset ss)" for bs
    by (induction bs rule: video_trak.induct) (auto split: if_splits option.splits)
  then show "parse_moov moov = Inr ss \<Longrightarrow> sorted (map sp_offset ss)" by (simp add: parse_moov_def)
qed

subsection \<open>Timing\<close>

lemma time_loop_nth:
  assumes "time_loop start ts xs d = Inr ss"
  shows "length ss = length xs" and "i < length xs \<Longrightarrow>
    ss ! i = \<lparr>sp_offset = fst (fst (xs ! i)), sp_size = snd (fst (xs ! i)),
      time_sec = fl (fl (of_int (max 0 (wrap_i64 (wrap_i64 (d + sum_list (map (fst \<circ> snd) (take i xs)) + snd (snd (xs ! i))) - start))))
        / of_nat ts)\<rparr>"
proof -
  have "length ss = length xs \<and> (\<forall>i < length xs. ss ! i = \<lparr>sp_offset = fst (fst (xs ! i)), sp_size = snd (fst (xs ! i)),
      time_sec = fl (fl (of_int (max 0 (wrap_i64 (wrap_i64 (d + sum_list (map (fst \<circ> snd) (take i xs)) + snd (snd (xs ! i))) - start))))
        / of_nat ts)\<rparr>)"
    using assms
  proof (induction start ts xs d arbitrary: ss rule: time_loop.induct)
    case (2 start ts off len delta cto rest d)
    from 2(2) obtain ss' where t: "time_loop start ts rest (d + delta) = Inr ss'" "\<not> d + delta \<ge> 2 ^ 63"
      and ss: "ss = \<lparr>sp_offset = off, sp_size = len, time_sec =
        fl (fl (of_int (max (wrap_i64 (wrap_i64 (d + cto) - start)) 0)) / of_nat ts)\<rparr> # ss'"
      by (auto simp: Let_def res_simps split: if_splits)
    with 2(1) [OF refl refl t(2,1)] show ?case
      by (auto simp: nth_Cons max.commute add.assoc split: nat.splits)
  qed simp
  then show "length ss = length xs" and "i < length xs \<Longrightarrow> ss ! i = \<lparr>sp_offset = fst (fst (xs ! i)), sp_size = snd (fst (xs ! i)),
      time_sec = fl (fl (of_int (max 0 (wrap_i64 (wrap_i64 (d + sum_list (map (fst \<circ> snd) (take i xs)) + snd (snd (xs ! i))) - start))))
        / of_nat ts)\<rparr>"
    by auto
qed

subsection \<open>Properties\<close>

text \<open>
  The box scan finds what is there, and returns: for every file that is a sequence of boxes with
  32-bit sizes, below eight exabytes and with no requested box over the limit,
  \<open>read_top_level_box\<close> returns the body of the first box of the requested type (or that there is
  none), and \<open>children\<close> lists exactly the boxes.
\<close>

theorem top_level_box_found:
  assumes "list_all valid_box bs" and "length (concat (map mp4_box bs)) < 2 ^ 63"
    and "list_all (\<lambda>kb. fst kb \<noteq> want \<or> length (snd kb) \<le> max_moov_bytes) bs"
  shows "read_top_level_box (concat (map mp4_box bs)) want =
      Some (Inr (map_option snd (List.find (\<lambda>kb. fst kb = want) bs))) \<and>
    children (concat (map mp4_box bs)) = bs"
  using scan_boxes_find [of bs "[]" want] children_boxes [OF assms(1)] assms by (simp add: read_top_level_box_def)

theorem top_level_box_found_witness:
  "read_top_level_box (concat (map mp4_box [([1, 1, 1, 1], [9]), ([2, 2, 2, 2], [5, 6]), ([2, 2, 2, 2], [])])) [2, 2, 2, 2] =
     Some (Inr (Some [5, 6]))"
  using top_level_box_found [of "[([1, 1, 1, 1], [9]), ([2, 2, 2, 2], [5, 6]), ([2, 2, 2, 2], [])]" "[2, 2, 2, 2]"]
  by (simp add: valid_box_def max_moov_bytes_def mp4_box_def)

text \<open>A box of type \<^verbatim>\<open>free\<close>, then one whose 64-bit size leads back to the start of the file.\<close>

definition looping_file :: bytes where
  "looping_file =
    [0, 0, 0, 16, 102, 114, 101, 101, 0, 0, 0, 0, 0, 0, 0, 0,
     0, 0, 0, 1, 102, 114, 101, 101, 255, 255, 255, 255, 255, 255, 255, 240]"

text \<open>
  The scan of the top-level boxes can hang: a file of 32 bytes whose second box carries a 64-bit
  size of two to the 64 minus 16 sends the position back to zero, and \<open>read_top_level_box\<close> never
  returns on it, for lack of a check that the position advances.
\<close>

theorem top_level_scan_hangs: "read_top_level_box looping_file (map of_char ''moov'') = None"
proof -
  let ?L = "\<lambda>f want pos. f = looping_file \<and> want = map of_char ''moov'' \<and> pos \<in> {0, 16}"
  have "\<not> ?L f want pos" if "scan_boxes f want pos = Some y" for f want pos y
  proof (rule scan_boxes.raw_induct [where P = "\<lambda>f want pos y. \<not> ?L f want pos", OF _ that], goal_cases)
    case step: (1 scan f want pos y)
    have "scan looping_file (map of_char ''moov'') 16 = Some y" if "?L f want pos" "pos = 0"
      using step(2) that by (simp add: looping_file_def wrap_u64_def be_to_nat_def Let_def)
    moreover have "scan looping_file (map of_char ''moov'') 0 = Some y" if "?L f want pos" "pos = 16"
      using step(2) that by (simp add: looping_file_def wrap_u64_def be_to_nat_def Let_def)
    ultimately show ?case using step(1) by blast
  qed
  then show ?thesis by (cases "read_top_level_box looping_file (map of_char ''moov'')") (auto simp: read_top_level_box_def)
qed

text \<open>
  The binary search for the sample at an offset agrees with looking through all samples: for the
  spans parsed from any \<^verbatim>\<open>moov\<close> box, when the samples are non-empty, do not overlap and end below
  two to the 64, \<open>time_at_offset\<close> is the time of the sample that covers the offset, and nothing
  where no sample does.
\<close>

theorem time_at_offset_equiv:
  assumes "parse_moov moov = Inr ss" and "list_all (\<lambda>s. 0 < sp_size s \<and> span_end s < 2 ^ 64) ss"
    and "sorted_wrt (\<lambda>a b. span_end a \<le> sp_offset b \<or> span_end b \<le> sp_offset a) ss"
  shows "time_at_offset ss off = map_option time_sec (List.find (covers off) ss)"
  using assms by (intro time_at_offset_find sort_disjoint parse_moov_sorted) (auto simp: list_all_iff)

definition demo_stbl :: bytes where
  "demo_stbl =
     mp4_box (map of_char ''stsz'', [0, 0, 0, 0, 0, 0, 0, 10, 0, 0, 0, 2]) @
     mp4_box (map of_char ''stco'', [0, 0, 0, 0, 0, 0, 0, 1, 0, 0, 0, 100]) @
     mp4_box (map of_char ''stsc'', [0, 0, 0, 0, 0, 0, 0, 1, 0, 0, 0, 1, 0, 0, 0, 2, 0, 0, 0, 1]) @
     mp4_box (map of_char ''stts'', [0, 0, 0, 0, 0, 0, 0, 1, 0, 0, 0, 2, 0, 0, 0, 3])"

definition demo_mdia :: bytes where
  "demo_mdia =
     mp4_box (map of_char ''hdlr'', [0, 0, 0, 0, 0, 0, 0, 0, 118, 105, 100, 101]) @
     mp4_box (map of_char ''mdhd'', [0, 0, 0, 0, 0, 0, 0, 0, 0, 0, 0, 0, 0, 0, 0, 1]) @
     mp4_box (map of_char ''minf'', mp4_box (map of_char ''stbl'', demo_stbl))"

definition demo_moov :: bytes where
  "demo_moov = mp4_box (map of_char ''trak'', mp4_box (map of_char ''mdia'', demo_mdia))"

definition demo_spans :: "sample_span list" where
  "demo_spans = [\<lparr>sp_offset = 100, sp_size = 10, time_sec = 0\<rparr>, \<lparr>sp_offset = 110, sp_size = 10, time_sec = 3\<rparr>]"

lemma child_box:
  "valid_box kb \<Longrightarrow> child (mp4_box kb @ rest) k = (if fst kb = k then Some (snd kb) else child rest k)"
  "valid_box kb \<Longrightarrow> child (mp4_box kb) k = (if fst kb = k then Some (snd kb) else None)"
  using children_box [of kb "[]"] by (auto simp: child_def children_box children.simps [of "[]"])

lemma numeral_loops:
  "push_samples size_of samples (numeral k) offset ranges =
     push_samples size_of samples (Suc (pred_numeral k)) offset ranges"
  "replicate (numeral k) x = x # replicate (pred_numeral k) x"
  by (simp_all add: numeral_eq_Suc)

lemmas demo_eval = child_box valid_box_def length_mp4_box_eq be_u32_def be_u64_def get_range_def ok_or_def
  table_def be_to_nat_def

lemma demo_lengths: "length demo_stbl < 100" "length demo_mdia < 200"
  by (simp_all add: demo_mdia_def demo_stbl_def length_mp4_box_eq)

lemma demo_ranges: "sample_ranges demo_stbl = Inr [(100, 10), (110, 10)]"
  by (simp add: sample_ranges_def demo_stbl_def chunk_table_def demo_eval sample_size_def advance_run.simps
      numeral_loops wrap_u64_def)

lemma demo_deltas: "child demo_stbl (map of_char ''stts'') = Some [0, 0, 0, 0, 0, 0, 0, 1, 0, 0, 0, 2, 0, 0, 0, 3]"
    "child demo_stbl (map of_char ''ctts'') = None"
    "expand_runs [0, 0, 0, 0, 0, 0, 0, 1, 0, 0, 0, 2, 0, 0, 0, 3] (Suc (Suc 0)) False = Inr [3, 3]"
  by (simp_all add: demo_stbl_def expand_runs_def demo_eval numeral_loops)

lemma demo_times: "time_loop 0 1 [((100, 10), 3, 0), ((110, 10), 3, 0)] 0 = Inr demo_spans"
  using fl_of_int [of 0] fl_of_int [of 3] by (simp add: demo_spans_def wrap_i64_def)

lemma demo_trak: "parse_video_trak (mp4_box (map of_char ''mdia'', demo_mdia)) demo_mdia = Inr demo_spans"
proof -
  have "edit_start (mp4_box (map of_char ''mdia'', demo_mdia)) = Inr 0"
    using demo_lengths by (simp add: edit_start_def demo_eval)
  moreover have "child demo_mdia (map of_char ''minf'') = Some (mp4_box (map of_char ''stbl'', demo_stbl))"
    "child demo_mdia (map of_char ''mdhd'') = Some [0, 0, 0, 0, 0, 0, 0, 0, 0, 0, 0, 0, 0, 0, 0, 1]"
    "child (mp4_box (map of_char ''stbl'', demo_stbl)) (map of_char ''stbl'') = Some demo_stbl"
    using demo_lengths by (simp_all add: demo_mdia_def demo_eval)
  moreover have "sort_key sp_offset demo_spans = demo_spans" by (simp add: demo_spans_def)
  ultimately show ?thesis
    using demo_deltas demo_ranges demo_times
    by (simp add: parse_video_trak_def be_u32_def get_range_def ok_or_def be_to_nat_def)
qed

lemma demo_moov_parsed: "parse_moov demo_moov = Inr demo_spans"
proof -
  have "child demo_mdia (map of_char ''hdlr'') = Some [0, 0, 0, 0, 0, 0, 0, 0, 118, 105, 100, 101]"
    by (simp add: demo_mdia_def demo_eval)
  moreover have "children demo_moov = [(map of_char ''trak'', mp4_box (map of_char ''mdia'', demo_mdia))]"
    using children_box [of "(map of_char ''trak'', mp4_box (map of_char ''mdia'', demo_mdia))" "[]"] demo_lengths
    by (simp add: demo_moov_def valid_box_def length_mp4_box_eq children.simps [of "[]"])
  ultimately show ?thesis using demo_trak demo_lengths by (simp add: parse_moov_def demo_eval)
qed

theorem time_at_offset_equiv_witness:
  "parse_moov demo_moov = Inr demo_spans \<and> time_at_offset demo_spans 115 = Some 3"
proof -
  have "List.find (covers 115) demo_spans = Some \<lparr>sp_offset = 110, sp_size = 10, time_sec = 3\<rparr>"
    by (simp add: demo_spans_def covers_def span_end_def)
  with time_at_offset_equiv [OF demo_moov_parsed, of 115] demo_moov_parsed show ?thesis
    by (simp add: demo_spans_def span_end_def)
qed

end
