(* ===== verification/GearRuns.thy ===== *)
theory GearRuns
  imports Float64
begin

unbundle bit_operations_syntax

section \<open>Telemetry runs: park gaps and summon detection\<close>

text \<open>
  \<^verbatim>\<open>crates/drives/src/grouper.rs\<close>: the run-length encoded telemetry of a clip (gear, flags and
  autopilot state per video frame), the split of a clip at park gaps, and the detector of driverless
  summon manoeuvres. Frame counters are 32 bits wide and wrap where the code adds them as
  \<^verbatim>\<open>u32\<close>; sums in 64 bits of fewer than two to the 32 runs do not overflow.
\<close>

record gear_run = gr_gear :: u8  gr_frames :: nat
record flag_run = fr_flags :: u8  fr_frames :: nat  max_mps :: "f64 option"
record ap_run = ar_ap :: u8  ar_frames :: nat

definition gear_park :: u8 where "gear_park = 0"
definition autopilot_off :: u8 where "autopilot_off = 0"
definition autopilot_fsd :: u8 where "autopilot_fsd = 1"

definition clip_duration_ms :: int where "clip_duration_ms = 60000"
definition park_gap_ms :: nat where "park_gap_ms = 2000"

definition wrap_u32 :: "nat \<Rightarrow> nat" where "wrap_u32 n = n mod 2 ^ 32"

subsection \<open>Splitting a clip at park gaps\<close>

definition frame_offset_ms :: "nat \<Rightarrow> nat \<Rightarrow> int \<Rightarrow> int" where
  "frame_offset_ms frame tot span_ms =
     (if tot = 0 then 0
      else int ((frame * nat (max span_ms 0) + tot div 2) mod 2 ^ 64 div tot))"

definition frame_span_ms :: "nat \<Rightarrow> nat \<Rightarrow> nat \<Rightarrow> int \<Rightarrow> int" where
  "frame_span_ms s e tot span_ms = frame_offset_ms e tot span_ms - frame_offset_ms s tot span_ms"

definition park_gap_frames :: "nat \<Rightarrow> nat \<Rightarrow> int \<Rightarrow> bool" where
  "park_gap_frames frames tot span_ms \<longleftrightarrow>
     (frames * nat (max span_ms 0)) mod 2 ^ 64 \<ge> park_gap_ms * tot"

record planned_seg =
  range_start :: nat
  range_end :: nat
  seg_offset_ms :: int
  seg_span_ms :: int
  parked :: bool

record raw_seg =
  start_frame :: nat
  end_frame :: nat
  raw_parked :: bool

fun raw_segments :: "(nat \<Rightarrow> bool) \<Rightarrow> gear_run list \<Rightarrow> nat \<Rightarrow> raw_seg list" where
  "raw_segments is_gap [] frame = []"
| "raw_segments is_gap (run # runs) frame =
     \<lparr>start_frame = frame, end_frame = wrap_u32 (frame + gr_frames run),
      raw_parked = (gr_gear run = gear_park \<and> is_gap (gr_frames run))\<rparr>
     # raw_segments is_gap runs (wrap_u32 (frame + gr_frames run))"

fun merge_segments :: "raw_seg list \<Rightarrow> raw_seg list \<Rightarrow> raw_seg list" where
  "merge_segments merged [] = merged"
| "merge_segments merged (seg # segs) =
     (if merged \<noteq> [] \<and> \<not> raw_parked (last merged) \<and> \<not> raw_parked seg
      then merge_segments (butlast merged @ [(last merged)\<lparr>end_frame := end_frame seg\<rparr>]) segs
      else merge_segments (merged @ [seg]) segs)"

definition point_index :: "nat \<Rightarrow> nat \<Rightarrow> nat \<Rightarrow> nat" where
  "point_index frame tot n_points =
     nat (round_f64 (fl (fl (of_nat frame / of_nat tot) * fl (of_nat n_points))))"

definition map_segment :: "nat \<Rightarrow> nat \<Rightarrow> int \<Rightarrow> raw_seg \<Rightarrow> planned_seg option" where
  "map_segment tot n_points span_ms seg =
     (if raw_parked seg
      then Some \<lparr>range_start = 0, range_end = 0, seg_offset_ms = 0, seg_span_ms = 0, parked = True\<rparr>
      else let s0 = point_index (start_frame seg) tot n_points;
               e0 = point_index (end_frame seg) tot n_points;
               s1 = (if s0 \<ge> n_points then n_points - 1 else s0);
               e1 = (if e0 > n_points then n_points else e0);
               e2 = (if e1 \<le> s1 then s1 + 1 else e1)
           in if e2 > n_points then None
              else Some \<lparr>range_start = s1, range_end = e2,
                         seg_offset_ms = frame_offset_ms (start_frame seg) tot span_ms,
                         seg_span_ms = frame_span_ms (start_frame seg) (end_frame seg) tot span_ms,
                         parked = False\<rparr>)"

definition plan_clip_at_park_gaps :: "gear_run list \<Rightarrow> nat \<Rightarrow> int \<Rightarrow> planned_seg list option" where
  "plan_clip_at_park_gaps gear_runs n_points span_ms =
     (let tot = wrap_u32 (sum_list (map gr_frames gear_runs))
      in if tot = 0 then None
         else let merged = merge_segments [] (raw_segments (\<lambda>f. park_gap_frames f tot span_ms) gear_runs 0)
              in if \<not> list_ex raw_parked merged then None
                 else Some (List.map_filter (map_segment tot n_points span_ms) merged))"

subsection \<open>Evidence of a segment\<close>

record summon_evidence =
  flag_runs :: "flag_run list"
  ap_runs :: "ap_run list"
  gear_runs :: "gear_run list"
  seg_start :: nat
  seg_end :: nat
  total_frames :: nat

definition runs_span_frames :: "nat list \<Rightarrow> nat \<Rightarrow> bool" where
  "runs_span_frames frames tot \<longleftrightarrow>
     tot \<noteq> 0 \<and> list_all (\<lambda>f. f \<noteq> 0) frames \<and> frames \<noteq> [] \<and> sum_list frames = tot"

fun gear_at :: "gear_run list \<Rightarrow> nat \<Rightarrow> nat \<Rightarrow> u8 option" where
  "gear_at [] end frame = None"
| "gear_at (run # runs) end frame =
     (if frame < end + gr_frames run then Some (gr_gear run) else gear_at runs (end + gr_frames run) frame)"

definition gear_at_frame :: "gear_run list \<Rightarrow> nat \<Rightarrow> u8 option" where
  "gear_at_frame runs frame = gear_at runs 0 frame"

definition segment_bounded_by_park :: "summon_evidence \<Rightarrow> bool \<Rightarrow> bool" where
  "segment_bounded_by_park c at_end =
     (if at_end
      then (case gear_at_frame (gear_runs c) (seg_end c) of
              Some after \<Rightarrow> after = gear_park
            | None \<Rightarrow> gear_at_frame (gear_runs c) (seg_end c - 1) = Some gear_park)
      else if seg_start c > 0 then gear_at_frame (gear_runs c) (seg_start c - 1) = Some gear_park
      else gear_at_frame (gear_runs c) 0 = Some gear_park)"

text \<open>Frames of the segment by autopilot mode: self driving, other assistance, all.\<close>

fun ap_loop :: "nat \<Rightarrow> nat \<Rightarrow> ap_run list \<Rightarrow> nat \<Rightarrow> nat \<times> nat \<times> nat \<Rightarrow> nat \<times> nat \<times> nat" where
  "ap_loop s e [] frame acc = acc"
| "ap_loop s e (run # runs) frame (fsd, other, tot) =
     (let end = frame + ar_frames run
      in if end \<le> s then ap_loop s e runs end (fsd, other, tot)
         else if frame \<ge> e then (fsd, other, tot)
         else let overlap = min end e - max frame s
              in ap_loop s e runs end
                   (if ar_ap run = autopilot_fsd then fsd + overlap else fsd,
                    if ar_ap run \<noteq> autopilot_fsd \<and> ar_ap run \<noteq> autopilot_off then other + overlap else other,
                    tot + overlap))"

definition segment_ap_frames :: "summon_evidence \<Rightarrow> (nat \<times> nat \<times> nat) option" where
  "segment_ap_frames c =
     (if ap_runs c = [] then None
      else let (fsd, other, tot) = ap_loop (seg_start c) (seg_end c) (ap_runs c) 0 (0, 0, 0)
           in if tot = 0 then None else Some (fsd, other, tot))"

definition flags_match :: "u8 \<Rightarrow> bool \<Rightarrow> u8 \<Rightarrow> bool" where
  "flags_match bits require_all flags = (if require_all then flags AND bits = bits else flags AND bits \<noteq> 0)"

fun flag_loop :: "nat \<Rightarrow> nat \<Rightarrow> (u8 \<Rightarrow> bool) \<Rightarrow> flag_run list \<Rightarrow> nat \<Rightarrow> bool" where
  "flag_loop s e hit [] frame = False"
| "flag_loop s e hit (run # runs) frame =
     (let end = wrap_u32 (frame + fr_frames run)
      in if end \<le> s then flag_loop s e hit runs end
         else if frame \<ge> e then False
         else if hit (fr_flags run) then True else flag_loop s e hit runs end)"

definition flag_runs_overlap :: "flag_run list \<Rightarrow> nat \<Rightarrow> nat \<Rightarrow> u8 \<Rightarrow> bool \<Rightarrow> bool" where
  "flag_runs_overlap runs s e bits require_all = flag_loop s e (flags_match bits require_all) runs 0"

fun speed_loop :: "nat \<Rightarrow> nat \<Rightarrow> flag_run list \<Rightarrow> nat \<Rightarrow> rat \<Rightarrow> rat option" where
  "speed_loop s e [] frame mx = Some mx"
| "speed_loop s e (run # runs) frame mx =
     (let end = wrap_u32 (frame + fr_frames run)
      in if end \<le> s then speed_loop s e runs end mx
         else if frame \<ge> e then Some mx
         else case max_mps run of
                Some (Finite m) \<Rightarrow> speed_loop s e runs end (if m > mx then m else mx)
              | _ \<Rightarrow> None)"

definition segment_max_speed :: "summon_evidence \<Rightarrow> rat option" where
  "segment_max_speed c = speed_loop (seg_start c) (seg_end c) (flag_runs c) 0 0"

subsection \<open>The detector\<close>

definition hazard_mask :: u8 where "hazard_mask = 0x03"
definition pedal_mask :: u8 where "pedal_mask = 0x0C"
definition summon_max_speed_mps :: rat where "summon_max_speed_mps = 9 / 2"
definition summon_max_duration_ms :: int where "summon_max_duration_ms = 600000"
definition summon_max_uncovered_ms :: int where "summon_max_uncovered_ms = 30000"

definition evidence_ok :: "summon_evidence \<Rightarrow> bool" where
  "evidence_ok c \<longleftrightarrow>
     flag_runs c \<noteq> [] \<and> total_frames c \<noteq> 0 \<and> seg_start c < seg_end c \<and> seg_end c \<le> total_frames c \<and>
     runs_span_frames (map fr_frames (flag_runs c)) (total_frames c)"

fun covered_ms :: "summon_evidence list \<Rightarrow> rat \<Rightarrow> rat" where
  "covered_ms [] acc = acc"
| "covered_ms (c # cs) acc =
     covered_ms cs (fl (acc + fl (fl (of_nat (seg_end c - seg_start c) * of_int clip_duration_ms)
                                  / of_nat (total_frames c))))"

text \<open>The largest speed over the segments, or \<open>None\<close> when one of them lacks the evidence.\<close>

fun drive_speed :: "summon_evidence list \<Rightarrow> rat \<Rightarrow> rat option" where
  "drive_speed [] speed = Some speed"
| "drive_speed (c # cs) speed =
     (case segment_max_speed c of
        None \<Rightarrow> None
      | Some m \<Rightarrow> drive_speed cs (if m > speed then m else speed))"

definition bookend_frames :: "summon_evidence \<Rightarrow> nat" where
  "bookend_frames c = max 1 (((total_frames c * 10 * 1000 + 59999) div 60000) mod 2 ^ 32)"

fun ap_totals :: "summon_evidence list \<Rightarrow> nat \<Rightarrow> nat \<Rightarrow> (nat \<times> nat) option" where
  "ap_totals [] fsd tot = Some (fsd, tot)"
| "ap_totals (c # cs) fsd tot =
     (case segment_ap_frames c of
        None \<Rightarrow> None
      | Some (f, other, t) \<Rightarrow> if other > 0 then None else ap_totals cs (fsd + f) (tot + t))"

definition speed_ok :: "f64 \<Rightarrow> bool" where
  "speed_ok v = (case v of Finite s \<Rightarrow> s > 0 \<and> s \<le> summon_max_speed_mps | _ \<Rightarrow> False)"

definition hazard_bookends :: "summon_evidence list \<Rightarrow> bool" where
  "hazard_bookends clips =
     (let first = hd clips; final = last clips
      in flag_runs_overlap (flag_runs first) (seg_start first - bookend_frames first)
           (min (seg_end first) (wrap_u32 (seg_start first + bookend_frames first))) hazard_mask True \<and>
         flag_runs_overlap (flag_runs final) (max (seg_start final) (seg_end final - bookend_frames final))
           (min (total_frames final) (wrap_u32 (seg_end final + bookend_frames final))) hazard_mask True)"

definition self_driving :: "summon_evidence list \<Rightarrow> bool" where
  "self_driving clips \<longleftrightarrow>
     list_all (\<lambda>c. runs_span_frames (map ar_frames (ap_runs c)) (total_frames c) \<and>
                   runs_span_frames (map gr_frames (gear_runs c)) (total_frames c)) clips \<and>
     segment_bounded_by_park (hd clips) False \<and> segment_bounded_by_park (last clips) True \<and>
     (case ap_totals clips 0 0 of None \<Rightarrow> False | Some (fsd, tot) \<Rightarrow> tot > 0 \<and> fsd * 2 \<ge> tot)"

definition detect_summon :: "summon_evidence list \<Rightarrow> f64 \<Rightarrow> int \<Rightarrow> bool \<Rightarrow> bool" where
  "detect_summon clips max_speed_mps duration_ms has_sei_speeds =
     (if clips = [] then False
      else if duration_ms \<le> 0 \<or> duration_ms > summon_max_duration_ms then False
      else if \<not> list_all evidence_ok clips then False
      else if fl (fl (of_int duration_ms) - covered_ms clips 0) > of_int summon_max_uncovered_ms then False
      else let frame_speed = drive_speed clips 0
           in if frame_speed = None \<and> \<not> has_sei_speeds then False
              else if \<not> speed_ok (case frame_speed of Some s \<Rightarrow> Finite s | None \<Rightarrow> max_speed_mps) then False
              else if list_ex (\<lambda>c. flag_runs_overlap (flag_runs c) (seg_start c) (seg_end c) pedal_mask False) clips
              then False
              else if hazard_bookends clips then True
              else self_driving clips)"

section \<open>Lemmas\<close>

subsection \<open>Runs as the frames they stand for\<close>

definition expand :: "('r \<Rightarrow> 'a) \<Rightarrow> ('r \<Rightarrow> nat) \<Rightarrow> 'r list \<Rightarrow> 'a list" where
  "expand f n rs = concat (map (\<lambda>r. replicate (n r) (f r)) rs)"

lemma expand_simps [simp]:
  "expand f n [] = []"
  "expand f n (r # rs) = replicate (n r) (f r) @ expand f n rs"
  by (simp_all add: expand_def)

lemma length_expand: "length (expand f n rs) = sum_list (map n rs)"
  by (induction rs) simp_all

text \<open>The frames of a clip in a window, from an offset on, that satisfy a predicate.\<close>

definition frames_in :: "nat \<Rightarrow> nat \<Rightarrow> nat \<Rightarrow> ('a \<Rightarrow> bool) \<Rightarrow> 'a list \<Rightarrow> nat set" where
  "frames_in s e off P xs = {j. s \<le> j \<and> j < e \<and> off \<le> j \<and> j < off + length xs \<and> P (xs ! (j - off))}"

lemma frames_in_append:
  "frames_in s e off P (replicate n x @ ys) =
     (if P x then {max off s..<min (off + n) e} else {}) \<union> frames_in s e (off + n) P ys"
  by (auto simp: frames_in_def nth_append)

lemma frames_in_finite [simp]: "finite (frames_in s e off P xs)"
  by (rule finite_subset [of _ "{..<e}"]) (auto simp: frames_in_def)

lemma card_frames_in_append:
  "card (frames_in s e off P (replicate n x @ ys)) =
     (if P x then min (off + n) e - max off s else 0) + card (frames_in s e (off + n) P ys)"
  unfolding frames_in_append by (subst card_Un_disjoint) (auto simp: frames_in_def)

lemma frames_in_none: "e \<le> off \<Longrightarrow> frames_in s e off P xs = {}"
  by (auto simp: frames_in_def)

subsection \<open>The loops over runs\<close>

lemma gear_at_expand:
  assumes "list_all (\<lambda>r. 0 < gr_frames r) runs" and "from \<le> frame"
  shows "gear_at runs from frame =
     (if frame < from + length (expand gr_gear gr_frames runs)
      then Some (expand gr_gear gr_frames runs ! (frame - from)) else None)"
  using assms by (induction runs "from" frame rule: gear_at.induct) (auto simp: nth_append)

lemma ap_loop_counts:
  "ap_loop s e runs frame (fsd, other, tot) =
     (fsd + card (frames_in s e frame (\<lambda>a. a = autopilot_fsd) (expand ar_ap ar_frames runs)),
      other + card (frames_in s e frame (\<lambda>a. a \<noteq> autopilot_fsd \<and> a \<noteq> autopilot_off) (expand ar_ap ar_frames runs)),
      tot + card (frames_in s e frame (\<lambda>_. True) (expand ar_ap ar_frames runs)))"
proof (induction runs arbitrary: frame fsd other tot)
  case Nil
  show ?case by (simp add: frames_in_def)
next
  case (Cons run runs)
  show ?case
    by (auto simp: Let_def Cons card_frames_in_append frames_in_none min_absorb1 max_absorb1)
qed

lemma flag_loop_expand:
  assumes "list_all (\<lambda>r. 0 < fr_frames r) runs" and "frame + sum_list (map fr_frames runs) < 2 ^ 32" and "s < e"
  shows "flag_loop s e hit runs frame \<longleftrightarrow> frames_in s e frame hit (expand fr_flags fr_frames runs) \<noteq> {}"
  using assms
proof (induction runs arbitrary: frame)
  case Nil
  show ?case by (simp add: frames_in_def)
next
  case (Cons run runs)
  have w: "wrap_u32 (frame + fr_frames run) = frame + fr_frames run" using Cons.prems(2) by (simp add: wrap_u32_def)
  have IH: "flag_loop s e hit runs (frame + fr_frames run) \<longleftrightarrow>
      frames_in s e (frame + fr_frames run) hit (expand fr_flags fr_frames runs) \<noteq> {}"
    using Cons.IH [of "frame + fr_frames run"] Cons.prems by simp
  show ?case
    using Cons.prems by (auto simp: Let_def w IH frames_in_append frames_in_none)
qed

lemma speed_loop_bound:
  assumes "speed_loop s e runs frame mx = Some m" and "list_all (\<lambda>r. 0 < fr_frames r) runs"
    and "frame + sum_list (map fr_frames runs) < 2 ^ 32"
  shows "mx \<le> m \<and> frames_in s e frame (\<lambda>v. \<nexists>x. v = Some (Finite x) \<and> x \<le> m) (expand max_mps fr_frames runs) = {}"
  using assms
proof (induction runs arbitrary: frame mx)
  case Nil
  then show ?case by (simp add: frames_in_def)
next
  case (Cons run runs)
  let ?fin = "frame + fr_frames run"
  have w: "wrap_u32 ?fin = ?fin" using Cons.prems(3) by (simp add: wrap_u32_def)
  consider "?fin \<le> s" | "e \<le> frame" "\<not> ?fin \<le> s" | x where "max_mps run = Some (Finite x)"
      "speed_loop s e runs ?fin (if x > mx then x else mx) = Some m"
    using Cons.prems(1) by (auto simp: Let_def w split: if_splits option.splits f64.splits)
  then show ?case
  proof cases
    case 1
    then show ?thesis using Cons.IH [of ?fin mx] Cons.prems by (auto simp: Let_def w frames_in_append)
  next
    case 2
    then show ?thesis using Cons.prems by (auto simp: Let_def w frames_in_none)
  next
    case (3 x)
    then show ?thesis using Cons.IH [of ?fin "if x > mx then x else mx"] Cons.prems
      by (auto simp: frames_in_append split: if_splits)
  qed
qed

subsection \<open>The frames of a clip\<close>

definition clip_flags :: "summon_evidence \<Rightarrow> u8 list" where
  "clip_flags c = expand fr_flags fr_frames (flag_runs c)"

definition clip_gears :: "summon_evidence \<Rightarrow> u8 list" where
  "clip_gears c = expand gr_gear gr_frames (gear_runs c)"

definition clip_modes :: "summon_evidence \<Rightarrow> u8 list" where
  "clip_modes c = expand ar_ap ar_frames (ap_runs c)"

lemma spans_frames:
  "runs_span_frames (map n rs) tot \<Longrightarrow>
     list_all (\<lambda>r. 0 < n r) rs \<and> sum_list (map n rs) = tot \<and> length (expand f n rs) = tot \<and> rs \<noteq> []"
  by (auto simp: runs_span_frames_def length_expand list_all_iff)

lemma gear_at_frame_expand:
  "runs_span_frames (map gr_frames (gear_runs c)) tot \<Longrightarrow>
     gear_at_frame (gear_runs c) i = (if i < tot then Some (clip_gears c ! i) else None)"
  using spans_frames [of gr_frames "gear_runs c" tot gr_gear] gear_at_expand [of "gear_runs c" 0 i]
  by (auto simp: gear_at_frame_def clip_gears_def)

lemma flag_overlap_expand:
  assumes "runs_span_frames (map fr_frames (flag_runs c)) tot" and "tot < 2 ^ 32" and "s < e"
  shows "flag_runs_overlap (flag_runs c) s e bits req \<longleftrightarrow>
    (\<exists>i. s \<le> i \<and> i < e \<and> i < tot \<and> flags_match bits req (clip_flags c ! i))"
  using flag_loop_expand [of "flag_runs c" 0 s e "flags_match bits req"] spans_frames [OF assms(1), of fr_flags] assms(2,3)
  by (auto simp: flag_runs_overlap_def clip_flags_def frames_in_def)

lemma segment_ap_expand:
  assumes "runs_span_frames (map ar_frames (ap_runs c)) tot" and "seg_start c < seg_end c" and "seg_end c \<le> tot"
  shows "segment_ap_frames c =
    Some (card {i. seg_start c \<le> i \<and> i < seg_end c \<and> clip_modes c ! i = autopilot_fsd},
          card {i. seg_start c \<le> i \<and> i < seg_end c \<and> clip_modes c ! i \<noteq> autopilot_fsd \<and> clip_modes c ! i \<noteq> autopilot_off},
          seg_end c - seg_start c)"
proof -
  have f: "frames_in (seg_start c) (seg_end c) 0 P (clip_modes c) = {i. seg_start c \<le> i \<and> i < seg_end c \<and> P (clip_modes c ! i)}" for P
    using spans_frames [OF assms(1), of ar_ap] assms(3) by (auto simp: frames_in_def clip_modes_def)
  have "{i. seg_start c \<le> i \<and> i < seg_end c} = {seg_start c..<seg_end c}" by auto
  then show ?thesis
    using ap_loop_counts [of "seg_start c" "seg_end c" "ap_runs c" 0 0 0 0] f spans_frames [OF assms(1), of ar_ap] assms(2)
    by (simp add: segment_ap_frames_def clip_modes_def)
qed

subsection \<open>The planned segments of a clip\<close>

text \<open>Segments that follow each other without a hole from a frame on.\<close>

fun chain :: "nat \<Rightarrow> raw_seg list \<Rightarrow> bool" where
  "chain f [] = True"
| "chain f (s # ss) \<longleftrightarrow> start_frame s = f \<and> f \<le> end_frame s \<and> chain (end_frame s) ss"

fun chain_end :: "nat \<Rightarrow> raw_seg list \<Rightarrow> nat" where
  "chain_end f [] = f"
| "chain_end f (s # ss) = chain_end (end_frame s) ss"

lemma chain_append: "chain f (xs @ ys) \<longleftrightarrow> chain f xs \<and> chain (chain_end f xs) ys"
  by (induction f xs rule: chain_end.induct) auto

lemma chain_end_append: "chain_end f (xs @ ys) = chain_end (chain_end f xs) ys"
  by (induction f xs rule: chain_end.induct) auto

lemma chain_bounds: "chain f ss \<Longrightarrow> s \<in> set ss \<Longrightarrow> f \<le> start_frame s \<and> start_frame s \<le> end_frame s \<and> end_frame s \<le> chain_end f ss"
proof (induction f ss rule: chain_end.induct)
  case (2 f t ss)
  have "x \<le> chain_end x ss" if "chain x ss" for x using that by (induction x ss rule: chain_end.induct) auto
  with 2 show ?case by fastforce
qed simp

lemma raw_segments_chain:
  "frame + sum_list (map gr_frames runs) < 2 ^ 32 \<Longrightarrow>
     chain frame (raw_segments is_gap runs frame) \<and>
     chain_end frame (raw_segments is_gap runs frame) = frame + sum_list (map gr_frames runs)"
  by (induction runs arbitrary: frame) (simp_all add: wrap_u32_def add.assoc)

lemma merge_chain:
  "chain f (merged @ segs) \<Longrightarrow>
     chain f (merge_segments merged segs) \<and> chain_end f (merge_segments merged segs) = chain_end f (merged @ segs)"
proof (induction merged segs rule: merge_segments.induct)
  case (2 merged seg segs)
  show ?case
  proof (cases "merged \<noteq> [] \<and> \<not> raw_parked (last merged) \<and> \<not> raw_parked seg")
    case True
    then obtain init l where m: "merged = init @ [l]" by (metis rev_exhaust)
    with 2(3) have "chain f (init @ [l\<lparr>end_frame := end_frame seg\<rparr>] @ segs)"
      by (auto simp: chain_append chain_end_append)
    with True 2(1) m show ?thesis by (simp add: chain_append chain_end_append)
  next
    case False
    then show ?thesis using 2(2,3) by auto
  qed
qed simp

abbreviation alternating :: "raw_seg list \<Rightarrow> bool" where
  "alternating ss \<equiv> successively (\<lambda>a b. raw_parked a \<or> raw_parked b) ss"

lemma merge_alternating: "alternating merged \<Longrightarrow> alternating (merge_segments merged segs)"
proof (induction merged segs rule: merge_segments.induct)
  case (2 merged seg segs)
  show ?case
  proof (cases "merged \<noteq> [] \<and> \<not> raw_parked (last merged) \<and> \<not> raw_parked seg")
    case True
    then obtain init l where m: "merged = init @ [l]" by (metis rev_exhaust)
    with True 2(1,3) show ?thesis by (simp add: successively_append_iff)
  next
    case False
    then show ?thesis using 2(2,3) by (auto simp: successively_append_iff)
  qed
qed simp

lemma map_segment_parked:
  "map_segment tot n spn s = Some p \<Longrightarrow> parked p = raw_parked s"
  "map_segment tot n spn s = None \<Longrightarrow> \<not> raw_parked s"
  by (auto simp: map_segment_def Let_def split: if_splits)

lemma successively_trans_front:
  "successively R (x # xs) \<Longrightarrow> (\<And>y. R z y) \<Longrightarrow> successively R (z # xs)"
  by (cases xs) auto

lemma map_filter_alternating:
  assumes "alternating (s # ss)" and "parked p = raw_parked s"
  shows "successively (\<lambda>a b. parked a \<or> parked b) (p # List.map_filter (map_segment tot n spn) ss)"
  using assms
proof (induction ss arbitrary: s p)
  case Nil
  show ?case by (simp add: List.map_filter_simps)
next
  case (Cons t ss)
  show ?case
  proof (cases "map_segment tot n spn t")
    case None
    with Cons.prems have sp: "parked p" using map_segment_parked(2) by auto
    obtain q :: planned_seg where "parked q = raw_parked t" by (metis planned_seg.select_convs(5))
    with Cons.IH [of t q] Cons.prems sp None show ?thesis
      by (auto simp: List.map_filter_simps intro: successively_trans_front)
  next
    case (Some q)
    with Cons.IH [of t q] Cons.prems map_segment_parked(1) [OF Some] show ?thesis
      by (auto simp: List.map_filter_simps)
  qed
qed

lemma frame_offset_mono:
  assumes "a \<le> b" and "b \<le> tot" and "tot < 2 ^ 32" and "0 \<le> spn" and "spn \<le> clip_duration_ms"
  shows "0 \<le> frame_offset_ms a tot spn \<and> frame_offset_ms a tot spn \<le> frame_offset_ms b tot spn \<and>
    frame_offset_ms b tot spn \<le> spn"
proof (cases "tot = 0")
  case True
  then show ?thesis using assms(4) by (simp add: frame_offset_ms_def)
next
  case False
  let ?s = "nat spn"
  have s: "?s \<le> 60000" using assms(4,5) by (simp add: clip_duration_ms_def)
  have le: "f * ?s + tot div 2 \<le> tot * ?s + tot div 2" if "f \<le> tot" for f using that by (simp add: mult_right_mono)
  have "tot * ?s \<le> 2 ^ 32 * 60000" using assms(3) s by (intro mult_mono) auto
  then have small: "tot * ?s + tot div 2 < 2 ^ 64" using assms(3) by simp
  have o: "frame_offset_ms f tot spn = int ((f * ?s + tot div 2) div tot)" if "f \<le> tot" for f
  proof -
    have "f * ?s + tot div 2 < 2 ^ 64" using le [OF that] small by linarith
    then show ?thesis using False assms(4) by (simp add: frame_offset_ms_def max_absorb1)
  qed
  have "(a * ?s + tot div 2) div tot \<le> (b * ?s + tot div 2) div tot"
    using assms(1) by (intro div_le_mono) (simp add: mult_right_mono)
  moreover have "(b * ?s + tot div 2) div tot \<le> ?s"
  proof -
    have "(b * ?s + tot div 2) div tot \<le> (tot * ?s + tot div 2) div tot" using le [OF assms(2)] by (rule div_le_mono)
    also have "\<dots> = ?s" using False by simp
    finally show ?thesis .
  qed
  ultimately show ?thesis using o [of a] o [of b] assms(1,2,4) by (simp add: le_nat_iff)
qed

lemma map_segment_bounds:
  assumes "map_segment tot n spn s = Some p" and "\<not> parked p"
    and "start_frame s \<le> end_frame s" and "end_frame s \<le> tot" and "tot < 2 ^ 32" and "0 \<le> spn" and "spn \<le> clip_duration_ms"
  shows "range_start p < range_end p \<and> range_end p \<le> n \<and> 0 \<le> seg_offset_ms p \<and> 0 \<le> seg_span_ms p \<and>
    seg_offset_ms p + seg_span_ms p \<le> spn"
  using assms frame_offset_mono [OF assms(3-7)]
  by (auto simp: map_segment_def Let_def frame_span_ms_def split: if_splits)

lemma pedals_off:
  assumes "evidence_ok c" and "total_frames c < 2 ^ 32"
    and "\<not> flag_runs_overlap (flag_runs c) (seg_start c) (seg_end c) pedal_mask False"
    and "seg_start c \<le> i" and "i < seg_end c"
  shows "clip_flags c ! i AND pedal_mask = 0"
  using assms flag_overlap_expand [of c "total_frames c" "seg_start c" "seg_end c" pedal_mask False]
  by (auto simp: evidence_ok_def flags_match_def)

lemma drive_speed_bound:
  assumes "drive_speed cs v = Some m" and "c \<in> set cs"
  shows "\<exists>k. segment_max_speed c = Some k \<and> k \<le> m"
proof -
  have mono: "drive_speed cs v = Some m \<Longrightarrow> v \<le> m" for cs v
    by (induction cs arbitrary: v) (fastforce split: option.splits if_splits)+
  show ?thesis
    using assms
  proof (induction cs arbitrary: v)
    case (Cons d cs)
    then obtain k where k: "segment_max_speed d = Some k" "drive_speed cs (if k > v then k else v) = Some m"
      by (auto split: option.splits)
    show ?case using Cons.IH [OF k(2)] Cons.prems(2) mono [OF k(2)] k(1) by (auto split: if_splits)
  qed simp
qed

lemma frame_speed_bound:
  assumes "evidence_ok c" and "total_frames c < 2 ^ 32" and "segment_max_speed c = Some k"
    and "seg_start c \<le> i" and "i < seg_end c"
  shows "\<exists>v. expand max_mps fr_frames (flag_runs c) ! i = Some (Finite v) \<and> v \<le> k"
proof -
  have r: "runs_span_frames (map fr_frames (flag_runs c)) (total_frames c)" "seg_end c \<le> total_frames c"
    using assms(1) by (simp_all add: evidence_ok_def)
  have "frames_in (seg_start c) (seg_end c) 0 (\<lambda>v. \<nexists>x. v = Some (Finite x) \<and> x \<le> k)
      (expand max_mps fr_frames (flag_runs c)) = {}"
    using speed_loop_bound [of "seg_start c" "seg_end c" "flag_runs c" 0 0 k] assms(2,3) spans_frames [OF r(1), of fr_flags]
    by (simp add: segment_max_speed_def)
  then show ?thesis using assms(4,5) r(2) spans_frames [OF r(1), of max_mps] by (fastforce simp: frames_in_def)
qed

subsection \<open>Properties\<close>

text \<open>
  C38. The loops over run-length encoded telemetry compute on frames: for runs that span the clip's
  frames, the gear at a frame, whether a flag shows in a window, and the frames of a segment by
  autopilot mode are exactly what reading the expanded frame sequence gives.
\<close>

theorem run_loops_refine_frames:
  assumes "runs_span_frames (map gr_frames (gear_runs c)) (total_frames c)"
    and "runs_span_frames (map fr_frames (flag_runs c)) (total_frames c)"
    and "runs_span_frames (map ar_frames (ap_runs c)) (total_frames c)"
    and "seg_start c < seg_end c" and "seg_end c \<le> total_frames c" and "total_frames c < 2 ^ 32" and "s < e"
  shows "gear_at_frame (gear_runs c) i = (if i < total_frames c then Some (clip_gears c ! i) else None) \<and>
    flag_runs_overlap (flag_runs c) s e bits req =
      (\<exists>j. s \<le> j \<and> j < e \<and> j < total_frames c \<and> flags_match bits req (clip_flags c ! j)) \<and>
    segment_ap_frames c =
      Some (card {j. seg_start c \<le> j \<and> j < seg_end c \<and> clip_modes c ! j = autopilot_fsd},
            card {j. seg_start c \<le> j \<and> j < seg_end c \<and> clip_modes c ! j \<noteq> autopilot_fsd \<and> clip_modes c ! j \<noteq> autopilot_off},
            seg_end c - seg_start c)"
  using gear_at_frame_expand [OF assms(1)] flag_overlap_expand [OF assms(2,6,7)] segment_ap_expand [OF assms(3-5)] by blast

definition demo_clip :: summon_evidence where
  "demo_clip = \<lparr>flag_runs = [\<lparr>fr_flags = 3, fr_frames = 4, max_mps = Some (Finite 1)\<rparr>, \<lparr>fr_flags = 0, fr_frames = 6, max_mps = Some (Finite 2)\<rparr>],
     ap_runs = [\<lparr>ar_ap = 0, ar_frames = 2\<rparr>, \<lparr>ar_ap = 1, ar_frames = 8\<rparr>],
     gear_runs = [\<lparr>gr_gear = 0, gr_frames = 1\<rparr>, \<lparr>gr_gear = 1, gr_frames = 8\<rparr>, \<lparr>gr_gear = 0, gr_frames = 1\<rparr>],
     seg_start = 1, seg_end = 9, total_frames = 10\<rparr>"

theorem run_loops_refine_frames_witness:
  "gear_at_frame (gear_runs demo_clip) 3 = Some 1 \<and> segment_ap_frames demo_clip = Some (7, 0, 8) \<and>
   card {j. 1 \<le> j \<and> j < 9 \<and> clip_modes demo_clip ! j = autopilot_fsd} = 7"
proof -
  have "segment_ap_frames demo_clip = Some (7, 0, 8)"
    by (simp add: demo_clip_def segment_ap_frames_def autopilot_fsd_def autopilot_off_def)
  with run_loops_refine_frames [of demo_clip 0 1 3 0 False]
  show ?thesis by (simp add: demo_clip_def runs_span_frames_def clip_gears_def nth_append)
qed

text \<open>
  C23. What the summon detector accepts could not have been driven: the drive lasts at most ten
  minutes, no frame of any segment shows a pedal, wherever the frames carry speeds every one is at
  most 4.5 metres a second, and either the hazard lights flash in the opening and the closing window
  or the drive starts and ends in Park, no frame uses an assistance that needs a driver and at least
  half of the frames are self driving.
\<close>

theorem summon_never_driven:
  assumes "detect_summon clips v dur sei" and "list_all (\<lambda>c. total_frames c < 2 ^ 32) clips"
  shows "0 < dur \<and> dur \<le> 600000 \<and>
    (\<nexists>c i. c \<in> set clips \<and> seg_start c \<le> i \<and> i < seg_end c \<and> clip_flags c ! i AND pedal_mask \<noteq> 0) \<and>
    (drive_speed clips 0 = None \<or>
      (\<nexists>c i. c \<in> set clips \<and> seg_start c \<le> i \<and> i < seg_end c \<and>
         (\<nexists>x. expand max_mps fr_frames (flag_runs c) ! i = Some (Finite x) \<and> x \<le> 9 / 2))) \<and>
    (hazard_bookends clips \<or>
      segment_bounded_by_park (hd clips) False \<and> segment_bounded_by_park (last clips) True \<and>
      (\<exists>fsd tot. ap_totals clips 0 0 = Some (fsd, tot) \<and> 0 < tot \<and> tot \<le> 2 * fsd))"
proof -
  from assms(1) have d: "0 < dur" "dur \<le> 600000" and ok: "list_all evidence_ok clips"
    and ped: "\<not> list_ex (\<lambda>c. flag_runs_overlap (flag_runs c) (seg_start c) (seg_end c) pedal_mask False) clips"
    and sp: "speed_ok (case drive_speed clips 0 of Some s \<Rightarrow> Finite s | None \<Rightarrow> v)"
    and sig: "hazard_bookends clips \<or> self_driving clips"
    by (auto simp: detect_summon_def Let_def summon_max_duration_ms_def split: if_splits)
  have "clip_flags c ! i AND pedal_mask = 0" if "c \<in> set clips" "seg_start c \<le> i" "i < seg_end c" for c i
    using pedals_off [of c i] ok ped assms(2) that by (auto simp: list_all_iff list_ex_iff)
  moreover have "\<exists>x. expand max_mps fr_frames (flag_runs c) ! i = Some (Finite x) \<and> x \<le> 9 / 2"
    if a: "drive_speed clips 0 = Some m" "c \<in> set clips" "seg_start c \<le> i" "i < seg_end c" for m c i
  proof -
    obtain k where k: "segment_max_speed c = Some k" "k \<le> m" using drive_speed_bound a(1,2) by blast
    moreover have "m \<le> 9 / 2" using sp a(1) by (simp add: speed_ok_def summon_max_speed_mps_def)
    ultimately show ?thesis
      using frame_speed_bound [OF _ _ k(1) a(3,4)] ok assms(2) a(2) by (force simp: list_all_iff)
  qed
  ultimately show ?thesis
    using d sig by (cases "drive_speed clips 0") (auto simp: self_driving_def split: option.splits)
qed

theorem summon_never_driven_witness:
  "detect_summon [demo_clip] NotANumber 60000 False \<and>
   (\<nexists>i. 1 \<le> i \<and> i < 9 \<and> clip_flags demo_clip ! i AND pedal_mask \<noteq> 0)"
proof -
  have "ap_totals [demo_clip] 0 0 = Some (7, 8)"
    by (simp add: demo_clip_def segment_ap_frames_def autopilot_fsd_def autopilot_off_def)
  moreover have "segment_bounded_by_park demo_clip False" "segment_bounded_by_park demo_clip True"
    by (simp_all add: demo_clip_def segment_bounded_by_park_def gear_at_frame_def gear_park_def)
  ultimately have "self_driving [demo_clip]"
    by (simp add: self_driving_def demo_clip_def runs_span_frames_def)
  moreover have "drive_speed [demo_clip] 0 = Some 2"
    by (simp add: demo_clip_def segment_max_speed_def wrap_u32_def)
  moreover have "\<not> flag_runs_overlap (flag_runs demo_clip) (seg_start demo_clip) (seg_end demo_clip) pedal_mask False"
    by (simp add: demo_clip_def flag_runs_overlap_def flags_match_def pedal_mask_def wrap_u32_def)
  moreover have "covered_ms [demo_clip] 0 = 48000"
    by (simp add: demo_clip_def clip_duration_ms_def)
  moreover have "evidence_ok demo_clip" by (simp add: demo_clip_def evidence_ok_def runs_span_frames_def)
  ultimately have d: "detect_summon [demo_clip] NotANumber 60000 False"
    by (simp add: detect_summon_def summon_max_duration_ms_def summon_max_uncovered_ms_def speed_ok_def
        summon_max_speed_mps_def)
  have "list_all (\<lambda>c. total_frames c < 2 ^ 32) [demo_clip]" by (simp add: demo_clip_def)
  from summon_never_driven [OF d this] d show ?thesis by (simp add: demo_clip_def)
qed

text \<open>
  A clip split at its park gaps: the plan has a park gap, never two driving segments next to each
  other, and every driving segment has at least one point of the clip and lies within the clip's
  time, for clips of at most a minute and fewer than two to the 32 frames.
\<close>

theorem plan_clip_sound:
  assumes "plan_clip_at_park_gaps runs n spn = Some segs" and "sum_list (map gr_frames runs) < 2 ^ 32"
    and "0 \<le> spn" and "spn \<le> clip_duration_ms"
  shows "list_ex parked segs \<and> successively (\<lambda>a b. parked a \<or> parked b) segs \<and>
    (\<nexists>p. p \<in> set segs \<and> \<not> parked p \<and>
      \<not> (range_start p < range_end p \<and> range_end p \<le> n \<and> 0 \<le> seg_offset_ms p \<and> 0 \<le> seg_span_ms p \<and>
         seg_offset_ms p + seg_span_ms p \<le> spn))"
proof -
  let ?tot = "sum_list (map gr_frames runs)"
  let ?gap = "\<lambda>f. park_gap_frames f ?tot spn"
  let ?merged = "merge_segments [] (raw_segments ?gap runs 0)"
  have w: "wrap_u32 ?tot = ?tot" using assms(2) by (simp add: wrap_u32_def)
  from assms(1) have segs: "segs = List.map_filter (map_segment ?tot n spn) ?merged"
    and pk: "list_ex raw_parked ?merged"
    by (auto simp: plan_clip_at_park_gaps_def Let_def w split: if_splits)
  have ch: "chain 0 ?merged" "chain_end 0 ?merged = ?tot"
    using raw_segments_chain [of 0 runs ?gap] merge_chain [of 0 "[]" "raw_segments ?gap runs 0"] assms(2)
    by simp_all
  have "list_ex parked segs"
    using pk map_segment_parked [of ?tot n spn] unfolding segs list_ex_iff List.map_filter_def
    by (fastforce simp: image_iff)
  moreover have "successively (\<lambda>a b. parked a \<or> parked b) segs"
  proof -
    have alt: "alternating ?merged" by (rule merge_alternating) simp
    obtain q :: planned_seg where "parked q" by (metis planned_seg.select_convs(5))
    moreover obtain r :: raw_seg where "raw_parked r" by (metis raw_seg.select_convs(3))
    moreover have "alternating (r # ?merged)" using alt \<open>raw_parked r\<close> by (cases ?merged) auto
    ultimately have "successively (\<lambda>a b. parked a \<or> parked b) (q # segs)"
      unfolding segs by (intro map_filter_alternating) auto
    then show ?thesis by (cases segs) auto
  qed
  moreover have "range_start p < range_end p \<and> range_end p \<le> n \<and> 0 \<le> seg_offset_ms p \<and> 0 \<le> seg_span_ms p \<and>
      seg_offset_ms p + seg_span_ms p \<le> spn" if p: "p \<in> set segs" "\<not> parked p" for p
  proof -
    from p(1) obtain s where s: "s \<in> set ?merged" "map_segment ?tot n spn s = Some p"
      unfolding segs List.map_filter_def by auto
    from chain_bounds [OF ch(1) s(1)] ch(2) show ?thesis
      using map_segment_bounds [OF s(2) p(2) _ _ assms(2-4)] by simp
  qed
  ultimately show ?thesis by blast
qed

theorem plan_clip_sound_witness:
  "\<exists>segs. plan_clip_at_park_gaps [\<lparr>gr_gear = 1, gr_frames = 10\<rparr>, \<lparr>gr_gear = 0, gr_frames = 10\<rparr>] 4 60000 = Some segs \<and>
     list_ex parked segs"
proof -
  let ?r = "[\<lparr>gr_gear = 1, gr_frames = 10\<rparr>, \<lparr>gr_gear = 0, gr_frames = 10\<rparr>] :: gear_run list"
  obtain segs where s: "plan_clip_at_park_gaps ?r 4 60000 = Some segs"
    by (simp add: plan_clip_at_park_gaps_def wrap_u32_def park_gap_frames_def park_gap_ms_def gear_park_def)
  from plan_clip_sound [OF s] s show ?thesis by (auto simp: clip_duration_ms_def)
qed

end
