(* ===== verification/GapFill.thy ===== *)
theory GapFill
  imports GearRuns "HOL-Library.List_Lexorder" "HOL-Library.Product_Lexorder"
begin

section \<open>Filling recording gaps with event clips\<close>

text \<open>
  \<^verbatim>\<open>crates/drives/src/grouper.rs\<close>, event-clip gap fill: which clips of the event folders join the
  continuous timeline. A timestamp is a number of nanoseconds; differences are compared in
  milliseconds, truncated as \<^verbatim>\<open>num_milliseconds\<close> does. Paths compare as texts.
\<close>

type_synonym ts = int

definition num_milliseconds :: "int \<Rightarrow> int" where
  "num_milliseconds d = (if d \<ge> 0 then d div 1000000 else - ((- d) div 1000000))"

definition gap_fill_min_ms :: int where "gap_fill_min_ms = 90000"
definition gap_fill_max_ms :: int where "gap_fill_max_ms = 1800000"
definition gap_fill_adj_ms :: int where "gap_fill_adj_ms = 180000"
definition gap_fill_dup_ms :: int where "gap_fill_dup_ms = 30000"

definition fillable_holes :: "ts list \<Rightarrow> (ts \<times> ts) list" where
  "fillable_holes sorted_ts =
     filter (\<lambda>(a, b). num_milliseconds (b - a) > gap_fill_min_ms \<and> num_milliseconds (b - a) \<le> gap_fill_max_ms)
       (zip sorted_ts (tl sorted_ts))"

definition ts_in_holes :: "(ts \<times> ts) list \<Rightarrow> ts \<Rightarrow> bool" where
  "ts_in_holes holes t =
     (case partition_point (\<lambda>h. fst h < t) holes of 0 \<Rightarrow> False | Suc i \<Rightarrow> t < snd (holes ! i))"

subsection \<open>Evidence of driving\<close>

definition above_crawl :: "f32 \<Rightarrow> bool" where
  "above_crawl s = (case s of Finite x \<Rightarrow> \<bar>x\<bar> > 1 / 2 | NotANumber \<Rightarrow> False | _ \<Rightarrow> True)"

definition telemetry_has_driving_core :: "bool \<Rightarrow> bool \<Rightarrow> bool \<Rightarrow> bool \<Rightarrow> nat \<Rightarrow> nat \<Rightarrow> bool \<Rightarrow> bool" where
  "telemetry_has_driving_core gear_runs_non_park gear_runs_empty gear_states_non_park gear_states_empty
       raw_park_count raw_frame_count speeds_driving \<longleftrightarrow>
     gear_runs_non_park \<or> gear_states_non_park \<or>
     (gear_runs_empty \<and> gear_states_empty \<and> raw_frame_count > 0 \<and> raw_park_count < raw_frame_count) \<or>
     speeds_driving"

definition telemetry_has_driving :: "gear_run list \<Rightarrow> u8 list \<Rightarrow> f32 list \<Rightarrow> nat \<Rightarrow> nat \<Rightarrow> bool" where
  "telemetry_has_driving runs states speeds raw_park_count raw_frame_count =
     telemetry_has_driving_core (list_ex (\<lambda>r. gr_gear r \<noteq> gear_park) runs) (runs = [])
       (list_ex (\<lambda>g. g \<noteq> gear_park) states) (states = []) raw_park_count raw_frame_count
       (list_ex above_crawl speeds)"

definition telemetry_gear_driving :: "gear_run list \<Rightarrow> u8 list \<Rightarrow> bool" where
  "telemetry_gear_driving runs states \<longleftrightarrow>
     list_ex (\<lambda>r. gr_gear r \<noteq> gear_park) runs \<or> list_ex (\<lambda>g. g \<noteq> gear_park) states"

subsection \<open>Selecting the clips\<close>

record gap_fill_candidate =
  cand_ts :: ts
  cand_file :: ustr
  driving :: "bool option"
  gear_driving :: bool

definition dup_of_recent :: "ts list \<Rightarrow> ts \<Rightarrow> bool" where
  "dup_of_recent recent t =
     (case partition_point (\<lambda>r. r \<le> t) recent of
        0 \<Rightarrow> False | Suc i \<Rightarrow> num_milliseconds (t - recent ! i) \<le> gap_fill_dup_ms)"

fun keep_loop :: "(ts \<times> ustr) list \<Rightarrow> nat list \<Rightarrow> nat list \<Rightarrow> nat list" where
  "keep_loop cands kept [] = kept"
| "keep_loop cands kept (i # is) =
     (if kept \<noteq> [] \<and> num_milliseconds (fst (cands ! i) - fst (cands ! last kept)) \<le> gap_fill_dup_ms
      then keep_loop cands kept is else keep_loop cands (kept @ [i]) is)"

definition dedup_candidates :: "ts list \<Rightarrow> (ts \<times> ustr) list \<Rightarrow> nat list \<Rightarrow> nat list" where
  "dedup_candidates recent cands order =
     keep_loop cands [] (sort_key (\<lambda>i. cands ! i) (filter (\<lambda>i. \<not> dup_of_recent recent (fst (cands ! i))) order))"

definition select_interior_fill :: "ts list \<Rightarrow> (ts \<times> ustr) list \<Rightarrow> nat list" where
  "select_interior_fill recent cands =
     (if recent = [] \<or> cands = [] then []
      else let holes = fillable_holes recent
           in if holes = [] then []
              else filter (\<lambda>i. ts_in_holes holes (fst (cands ! i)))
                     (dedup_candidates recent cands [0..<length cands]))"

definition nearest_recent_ms :: "ts list \<Rightarrow> ts \<Rightarrow> int" where
  "nearest_recent_ms recent t =
     (let i = partition_point (\<lambda>r. r < t) recent;
          best = 2 ^ 63 - 1;
          best1 = (if i > 0 then min best (num_milliseconds (t - recent ! (i - 1))) else best)
      in if i < length recent then min best1 (num_milliseconds (recent ! i - t)) else best1)"

text \<open>
  The maximal runs of the merged timeline whose neighbours are close; an entry is a recent clip
  (\<open>None\<close>) or the position of a kept candidate.
\<close>

type_synonym entry = "ts \<times> nat option"

fun clusters :: "entry list \<Rightarrow> entry list \<Rightarrow> entry list list" where
  "clusters cur [] = [cur]"
| "clusters cur (x # xs) =
     (if cur \<noteq> [] \<and> num_milliseconds (fst x - fst (last cur)) > gap_fill_adj_ms
      then cur # clusters [x] xs else clusters (cur @ [x]) xs)"

definition cluster_chained :: "ts list \<Rightarrow> (nat \<Rightarrow> bool) \<Rightarrow> entry list \<Rightarrow> nat list" where
  "cluster_chained recent gear cluster =
     (if list_ex (\<lambda>(_, k). k = None) cluster
      then List.map_filter (\<lambda>(t, k). if nearest_recent_ms recent t \<le> gap_fill_max_ms then k else None) cluster
      else if list_all (\<lambda>(_, k). case k of None \<Rightarrow> False | Some k \<Rightarrow> gear k) cluster
      then List.map_filter snd cluster else [])"

definition select_gap_fill :: "ts list \<Rightarrow> gap_fill_candidate list \<Rightarrow> nat list" where
  "select_gap_fill recent candidates =
     (if candidates = [] then []
      else let holes = fillable_holes recent;
               pairs = map (\<lambda>c. (cand_ts c, cand_file c)) candidates;
               order = filter (\<lambda>i. driving (candidates ! i) \<noteq> Some False) [0..<length candidates];
               kept = dedup_candidates recent pairs order;
               merged = sort_key fst (map (\<lambda>t. (t, None)) recent @
                          map (\<lambda>k. (cand_ts (candidates ! (kept ! k)), Some k)) [0..<length kept]);
               chained = concat (map (cluster_chained recent (\<lambda>k. gear_driving (candidates ! (kept ! k))))
                                  (clusters [] merged))
           in map (\<lambda>k. kept ! k)
                (filter (\<lambda>k. ts_in_holes holes (cand_ts (candidates ! (kept ! k))) \<or> k \<in> set chained)
                  [0..<length kept]))"

definition select_gap_fill_events :: "ts list \<Rightarrow> (ts \<times> ustr) list \<Rightarrow> nat list" where
  "select_gap_fill_events recent cands =
     select_gap_fill recent
       (map (\<lambda>(t, f). \<lparr>cand_ts = t, cand_file = f, driving = None, gear_driving = False\<rparr>) cands)"

subsection \<open>The real length of clips\<close>

fun span_loop :: "(ts \<times> bool) list \<Rightarrow> nat list \<Rightarrow> int list \<Rightarrow> int list" where
  "span_loop entries (a # b # rest) spans =
     (let gap = num_milliseconds (fst (entries ! b) - fst (entries ! a))
      in span_loop entries (b # rest)
           (if gap > 0 \<and> gap \<le> clip_duration_ms then spans[a := gap] else spans))"
| "span_loop entries _ spans = spans"

definition clip_spans :: "(ts \<times> bool) list \<Rightarrow> int list" where
  "clip_spans entries =
     span_loop entries (filter (\<lambda>i. snd (entries ! i)) [0..<length entries])
       (replicate (length entries) clip_duration_ms)"

section \<open>Lemmas\<close>

lemma num_milliseconds_mono: "a \<le> b \<Longrightarrow> num_milliseconds a \<le> num_milliseconds b"
proof -
  assume "a \<le> b"
  moreover have "- ((- a) div 1000000) \<le> b div 1000000" if "a < 0" "0 \<le> b"
    using that pos_imp_zdiv_nonneg_iff [of 1000000 "- a"] pos_imp_zdiv_nonneg_iff [of 1000000 b] by linarith
  moreover have "(- b) div 1000000 \<le> (- a) div 1000000" by (rule zdiv_mono1) (use \<open>a \<le> b\<close> in auto)
  ultimately show ?thesis by (auto simp: num_milliseconds_def intro: zdiv_mono1)
qed

lemma neighbours: "h \<in> set (zip xs (tl xs)) \<longleftrightarrow> (\<exists>j. Suc j < length xs \<and> h = (xs ! j, xs ! Suc j))"
proof
  assume "h \<in> set (zip xs (tl xs))"
  then obtain n where "n < length xs - 1" "h = (xs ! n, tl xs ! n)"
    by (metis in_set_zip length_tl prod.collapse)
  then show "\<exists>j. Suc j < length xs \<and> h = (xs ! j, xs ! Suc j)" by (intro exI [of _ n]) (auto simp: nth_tl)
next
  assume "\<exists>j. Suc j < length xs \<and> h = (xs ! j, xs ! Suc j)"
  then show "h \<in> set (zip xs (tl xs))" by (force simp: in_set_zip nth_tl)
qed

lemma hole_iff:
  assumes "sorted recent"
  shows "ts_in_holes (fillable_holes recent) t \<longleftrightarrow>
    (\<exists>j. Suc j < length recent \<and> recent ! j < t \<and> t < recent ! Suc j \<and>
      gap_fill_min_ms < num_milliseconds (recent ! Suc j - recent ! j) \<and>
      num_milliseconds (recent ! Suc j - recent ! j) \<le> gap_fill_max_ms)"
proof -
  let ?holes = "fillable_holes recent" and ?P = "\<lambda>h. fst h < t" and ?Q = "\<lambda>h. t < snd h"
  have "sorted_wrt (\<lambda>a b. snd a \<le> fst b) (zip recent (tl recent))"
    using sorted_nth_mono [OF assms] by (auto simp: sorted_wrt_iff_nth_less nth_tl)
  moreover have "list_all (\<lambda>h. fst h \<le> snd h) (zip recent (tl recent))"
    using sorted_nth_mono [OF assms] by (auto simp: list_all_length nth_tl)
  ultimately have "sorted_wrt (\<lambda>a b. fst a \<le> snd a \<and> snd a \<le> fst b) ?holes"
    unfolding fillable_holes_def
    by (intro sorted_wrt_filter) (auto simp: sorted_wrt_iff_nth_less list_all_length)
  then have srt: "sorted_wrt (\<lambda>a b. ?P b \<longrightarrow> ?P a \<and> \<not> ?Q a) ?holes"
    by (rule sorted_wrt_mono_rel [rotated]) auto
  have "ts_in_holes ?holes t \<longleftrightarrow> List.find (\<lambda>h. ?P h \<and> ?Q h) ?holes \<noteq> None"
    unfolding partition_point_find [OF srt, symmetric] ts_in_holes_def
    by (auto split: nat.splits)
  also have "\<dots> \<longleftrightarrow> (\<exists>h. h \<in> set ?holes \<and> ?P h \<and> ?Q h)" by (auto simp: find_None_iff)
  finally show ?thesis by (auto simp: fillable_holes_def neighbours)
qed

lemma dup_of_recent_iff:
  assumes "sorted recent"
  shows "dup_of_recent recent t \<longleftrightarrow> (\<exists>r. r \<in> set recent \<and> r \<le> t \<and> num_milliseconds (t - r) \<le> gap_fill_dup_ms)"
proof (cases "partition_point (\<lambda>r. r \<le> t) recent")
  case 0
  then show ?thesis using partition_point_greatest(1) [OF assms 0] by (auto simp: dup_of_recent_def)
next
  case (Suc i)
  note g = partition_point_greatest(2) [OF assms Suc]
  have "num_milliseconds (t - recent ! i) \<le> num_milliseconds (t - r)" if "r \<in> set recent" "r \<le> t" for r
    using g [of r] that by (intro num_milliseconds_mono) auto
  with Suc g show ?thesis by (fastforce simp: dup_of_recent_def)
qed

lemma nearest_recent:
  assumes "nearest_recent_ms recent t \<le> gap_fill_max_ms"
  shows "\<exists>r. r \<in> set recent \<and> num_milliseconds \<bar>t - r\<bar> \<le> gap_fill_max_ms"
proof -
  let ?i = "partition_point (\<lambda>r. r < t) recent"
  have a: "recent ! (?i - 1) < t \<and> ?i - 1 < length recent" if "0 < ?i"
    using that partition_point_sat [of "?i - 1" "\<lambda>r. r < t" recent] partition_point_le [of "\<lambda>r. r < t" recent]
    by (metis Suc_pred' diff_less less_eq_Suc_le zero_less_one)
  have b: "\<not> recent ! ?i < t" if "?i < length recent" using partition_point_unsat [OF that] by simp
  from assms have "0 < ?i \<and> num_milliseconds (t - recent ! (?i - 1)) \<le> gap_fill_max_ms \<or>
      ?i < length recent \<and> num_milliseconds (recent ! ?i - t) \<le> gap_fill_max_ms"
    by (auto simp: nearest_recent_ms_def Let_def gap_fill_max_ms_def min_def split: if_splits)
  then show ?thesis
  proof
    assume "0 < ?i \<and> num_milliseconds (t - recent ! (?i - 1)) \<le> gap_fill_max_ms"
    with a show ?thesis by (intro exI [of _ "recent ! (?i - 1)"]) auto
  next
    assume "?i < length recent \<and> num_milliseconds (recent ! ?i - t) \<le> gap_fill_max_ms"
    with b show ?thesis by (intro exI [of _ "recent ! ?i"]) (auto simp: abs_minus_commute)
  qed
qed

subsection \<open>Removing duplicates\<close>

abbreviation later :: "(ts \<times> ustr) list \<Rightarrow> nat \<Rightarrow> nat \<Rightarrow> int" where
  "later cands i j \<equiv> num_milliseconds (fst (cands ! j) - fst (cands ! i))"

lemma keep_loop_spec:
  assumes "sorted (map (\<lambda>i. fst (cands ! i)) (kept @ is))"
    and "sorted_wrt (\<lambda>i j. later cands i j > gap_fill_dup_ms) kept"
  shows "sorted_wrt (\<lambda>i j. later cands i j > gap_fill_dup_ms) (keep_loop cands kept is) \<and>
    set kept \<subseteq> set (keep_loop cands kept is) \<and> set (keep_loop cands kept is) \<subseteq> set kept \<union> set is \<and>
    (\<forall>i \<in> set is. \<exists>j \<in> set (keep_loop cands kept is). fst (cands ! j) \<le> fst (cands ! i) \<and> later cands j i \<le> gap_fill_dup_ms)"
  using assms
proof (induction cands kept "is" rule: keep_loop.induct)
  case (1 cands kept)
  then show ?case by simp
next
  case (2 cands kept i "is")
  show ?case
  proof (cases "kept \<noteq> [] \<and> later cands (last kept) i \<le> gap_fill_dup_ms")
    case True
    then have l: "last kept \<in> set kept" by simp
    with 2(3) have "fst (cands ! last kept) \<le> fst (cands ! i)" by (auto simp: sorted_append)
    moreover have srt: "sorted (map (\<lambda>i. fst (cands ! i)) (kept @ is))" using 2(3) by (auto simp: sorted_append)
    ultimately have IH: "set kept \<subseteq> set (keep_loop cands kept is)" and c: "\<exists>j \<in> set (keep_loop cands kept is).
        fst (cands ! j) \<le> fst (cands ! i) \<and> later cands j i \<le> gap_fill_dup_ms"
      using 2(1) [OF True] 2(4) True l by blast+
    show ?thesis using 2(1) [OF True srt 2(4)] c True by auto
  next
    case False
    have "later cands x i > gap_fill_dup_ms" if x: "x \<in> set kept" for x
    proof -
      from x obtain init l where k: "kept = init @ [l]" by (metis empty_iff list.set(1) rev_exhaust)
      with x 2(3) have "fst (cands ! x) \<le> fst (cands ! l)" by (auto simp: sorted_append)
      then have "later cands l i \<le> later cands x i" by (intro num_milliseconds_mono) simp
      with False k show ?thesis by simp
    qed
    then have w: "sorted_wrt (\<lambda>i j. later cands i j > gap_fill_dup_ms) (kept @ [i])"
      using 2(4) by (simp add: sorted_wrt_append)
    have "later cands i i \<le> gap_fill_dup_ms" by (simp add: num_milliseconds_def gap_fill_dup_ms_def)
    moreover have k: "keep_loop cands kept (i # is) = keep_loop cands (kept @ [i]) is" using False by auto
    ultimately show ?thesis using 2(2) [OF False _ w] 2(3) unfolding k by auto
  qed
qed

lemma dedup_spec:
  assumes "sorted recent" and "kept = dedup_candidates recent cands order"
  shows "sorted_wrt (\<lambda>i j. later cands i j > gap_fill_dup_ms) kept"
    and "i \<in> set kept \<Longrightarrow> i \<in> set order \<and> \<not> dup_of_recent recent (fst (cands ! i))"
    and "i \<in> set order \<Longrightarrow> \<not> dup_of_recent recent (fst (cands ! i)) \<Longrightarrow>
      \<exists>j \<in> set kept. fst (cands ! j) \<le> fst (cands ! i) \<and> later cands j i \<le> gap_fill_dup_ms"
proof -
  let ?o = "sort_key (\<lambda>i. cands ! i) (filter (\<lambda>i. \<not> dup_of_recent recent (fst (cands ! i))) order)"
  have "sorted (map (\<lambda>i. cands ! i) ?o)" by simp
  then have "sorted (map (\<lambda>i. fst (cands ! i)) ?o)"
    by (auto simp: sorted_wrt_map less_eq_prod_def elim!: sorted_wrt_mono_rel [rotated])
  then have "sorted (map (\<lambda>i. fst (cands ! i)) ([] @ ?o))" by simp
  from keep_loop_spec [OF this] assms(2) have
    s: "sorted_wrt (\<lambda>i j. later cands i j > gap_fill_dup_ms) kept" "set kept \<subseteq> set ?o"
    "\<forall>i \<in> set ?o. \<exists>j \<in> set kept. fst (cands ! j) \<le> fst (cands ! i) \<and> later cands j i \<le> gap_fill_dup_ms"
    by (simp_all add: dedup_candidates_def)
  then show "sorted_wrt (\<lambda>i j. later cands i j > gap_fill_dup_ms) kept" by simp
  show "i \<in> set kept \<Longrightarrow> i \<in> set order \<and> \<not> dup_of_recent recent (fst (cands ! i))" using s(2) by auto
  show "i \<in> set order \<Longrightarrow> \<not> dup_of_recent recent (fst (cands ! i)) \<Longrightarrow>
      \<exists>j \<in> set kept. fst (cands ! j) \<le> fst (cands ! i) \<and> later cands j i \<le> gap_fill_dup_ms" using s(3) by auto
qed

subsection \<open>Clusters\<close>

lemma concat_clusters: "concat (clusters cur xs) = cur @ xs"
  by (induction cur xs rule: clusters.induct) auto

lemma cluster_chained_cases:
  assumes "k \<in> set (cluster_chained recent gear cluster)"
  shows "\<exists>t. (t, Some k) \<in> set cluster \<and> (nearest_recent_ms recent t \<le> gap_fill_max_ms \<or> gear k)"
  using assms by (fastforce simp: cluster_chained_def List.map_filter_def list_all_iff split: if_splits option.splits)

lemma merged_entry:
  assumes "(t, Some k) \<in> set (map (\<lambda>t. (t, None)) recent @ map (\<lambda>k. (f k, Some k)) [0..<n])"
  shows "t = f k \<and> k < n"
  using assms by auto

lemma selected_cases:
  assumes "sorted recent" and "i \<in> set (select_gap_fill recent cands)"
  defines "kept \<equiv> dedup_candidates recent (map (\<lambda>c. (cand_ts c, cand_file c)) cands)
    (filter (\<lambda>i. driving (cands ! i) \<noteq> Some False) [0..<length cands])"
  shows "i \<in> set kept \<and> (ts_in_holes (fillable_holes recent) (cand_ts (cands ! i)) \<or>
    nearest_recent_ms recent (cand_ts (cands ! i)) \<le> gap_fill_max_ms \<or> gear_driving (cands ! i))"
proof -
  let ?f = "\<lambda>k. cand_ts (cands ! (kept ! k))"
  let ?merged = "sort_key fst (map (\<lambda>t. (t, None)) recent @ map (\<lambda>k. (?f k, Some k)) [0..<length kept])"
  let ?gear = "\<lambda>k. gear_driving (cands ! (kept ! k))"
  from assms(2) obtain k where k: "k < length kept" "i = kept ! k" and
    c: "ts_in_holes (fillable_holes recent) (?f k) \<or>
        k \<in> set (concat (map (cluster_chained recent ?gear) (clusters [] ?merged)))"
    by (auto simp: select_gap_fill_def Let_def kept_def [symmetric] split: if_splits)
  have "nearest_recent_ms recent (?f k) \<le> gap_fill_max_ms \<or> ?gear k"
    if "k \<in> set (concat (map (cluster_chained recent ?gear) (clusters [] ?merged)))"
  proof -
    from that obtain cl where cl: "cl \<in> set (clusters [] ?merged)" "k \<in> set (cluster_chained recent ?gear cl)" by auto
    from cluster_chained_cases [OF cl(2)] obtain t where
      t: "(t, Some k) \<in> set cl" "nearest_recent_ms recent t \<le> gap_fill_max_ms \<or> ?gear k" by auto
    from t(1) cl(1) have "(t, Some k) \<in> set (concat (clusters [] ?merged))" by auto
    then have "(t, Some k) \<in> set ?merged" unfolding concat_clusters by simp
    then have "t = ?f k" using merged_entry [of t k recent ?f "length kept"] by simp
    with t(2) show ?thesis by simp
  qed
  with c k show ?thesis by auto
qed

lemma selected_eligible:
  assumes "sorted recent" and "i \<in> set (select_gap_fill recent cands)"
  shows "i < length cands \<and> driving (cands ! i) \<noteq> Some False \<and> \<not> dup_of_recent recent (cand_ts (cands ! i))"
proof -
  let ?pairs = "map (\<lambda>c. (cand_ts c, cand_file c)) cands"
  let ?order = "filter (\<lambda>i. driving (cands ! i) \<noteq> Some False) [0..<length cands]"
  have k: "i \<in> set (dedup_candidates recent ?pairs ?order)" using selected_cases [OF assms] by blast
  from dedup_spec(2) [OF assms(1) refl k] show ?thesis by auto
qed

lemma nth_selected: "m < length xs \<Longrightarrow> A m \<Longrightarrow> xs ! m \<in> set (map (\<lambda>k. xs ! k) (filter (\<lambda>k. A k \<or> B k) [0..<length xs]))"
  by auto

lemma sorted_wrt_positions: "sorted_wrt R xs \<Longrightarrow> sorted_wrt (\<lambda>a b. R (xs ! a) (xs ! b)) [0..<length xs]"
  by (auto simp: sorted_wrt_iff_nth_less)

lemma sorted_wrt_select: "sorted_wrt R xs \<Longrightarrow> sorted_wrt R (map (\<lambda>k. xs ! k) (filter P [0..<length xs]))"
  unfolding sorted_wrt_map by (intro sorted_wrt_filter sorted_wrt_positions)

lemma selected_spaced:
  assumes "sorted recent"
  shows "sorted_wrt (\<lambda>i j. num_milliseconds (cand_ts (cands ! j) - cand_ts (cands ! i)) > gap_fill_dup_ms)
    (select_gap_fill recent cands)"
proof (cases "cands = []")
  case True
  then show ?thesis by (simp add: select_gap_fill_def)
next
  case False
  let ?pairs = "map (\<lambda>c. (cand_ts c, cand_file c)) cands"
  let ?order = "filter (\<lambda>i. driving (cands ! i) \<noteq> Some False) [0..<length cands]"
  let ?kept = "dedup_candidates recent ?pairs ?order"
  let ?R = "\<lambda>i j. num_milliseconds (cand_ts (cands ! j) - cand_ts (cands ! i)) > gap_fill_dup_ms"
  have in_range: "i < length cands" if "i \<in> set ?kept" for i
    using dedup_spec(2) [OF assms refl that] by simp
  have kept: "sorted_wrt ?R ?kept"
  proof (rule sorted_wrt_mono_rel [OF _ dedup_spec(1) [OF assms refl, of ?pairs ?order]])
    fix x y
    assume x: "x \<in> set ?kept" and y: "y \<in> set ?kept"
    have "x < length cands" "y < length cands" using in_range [OF x] in_range [OF y] by simp_all
    moreover assume "later ?pairs x y > gap_fill_dup_ms"
    ultimately show "?R x y" by simp
  qed
  show ?thesis
    unfolding select_gap_fill_def Let_def if_not_P [OF False] by (rule sorted_wrt_select [OF kept])
qed

subsection \<open>Properties\<close>



text \<open>
  No footage of a gap is dropped: every candidate strictly inside a fillable gap of a sorted
  timeline that is not known to be parked and no copy of a recent clip is selected, or a selected
  candidate of the same gap started at most half a minute before it.
\<close>

theorem gap_fill_covers_holes:
  assumes "sorted recent" and "i < length cands" and "driving (cands ! i) \<noteq> Some False"
    and "Suc j < length recent" and "recent ! j < cand_ts (cands ! i)" and "cand_ts (cands ! i) < recent ! Suc j"
    and "90000 < num_milliseconds (recent ! Suc j - recent ! j)"
    and "num_milliseconds (recent ! Suc j - recent ! j) \<le> 1800000"
    and "30000 < num_milliseconds (cand_ts (cands ! i) - recent ! j)"
  shows "\<exists>k. k \<in> set (select_gap_fill recent cands) \<and>
    recent ! j < cand_ts (cands ! k) \<and> cand_ts (cands ! k) \<le> cand_ts (cands ! i) \<and>
    num_milliseconds (cand_ts (cands ! i) - cand_ts (cands ! k)) \<le> 30000"
proof -
  let ?t = "\<lambda>i. cand_ts (cands ! i)"
  let ?pairs = "map (\<lambda>c. (cand_ts c, cand_file c)) cands"
  let ?order = "filter (\<lambda>i. driving (cands ! i) \<noteq> Some False) [0..<length cands]"
  let ?kept = "dedup_candidates recent ?pairs ?order"
  have "num_milliseconds (?t i - recent ! j) \<le> num_milliseconds (?t i - r)" if "r \<in> set recent" "r \<le> ?t i" for r
  proof -
    from that(1) obtain m where "m < length recent" "r = recent ! m" by (metis in_set_conv_nth)
    moreover have "m \<le> j" using calculation that(2) assms(1,6) sorted_nth_mono [OF assms(1), of "Suc j" m]
      by (cases "m \<le> j") auto
    ultimately show ?thesis
      using sorted_nth_mono [OF assms(1), of m j] assms(4) by (intro num_milliseconds_mono) simp
  qed
  then have nd: "\<not> dup_of_recent recent (fst (?pairs ! i))"
    using assms(2,9) by (fastforce simp: dup_of_recent_iff [OF assms(1)] gap_fill_dup_ms_def)
  then obtain k where k: "k \<in> set ?kept" "?t k \<le> ?t i" "num_milliseconds (?t i - ?t k) \<le> 30000"
  proof -
    from dedup_spec(3) [OF assms(1) refl, of i ?order ?pairs] nd assms(2,3) obtain k where
      k: "k \<in> set ?kept" "fst (?pairs ! k) \<le> fst (?pairs ! i)" "later ?pairs k i \<le> gap_fill_dup_ms" by auto
    moreover have "k < length cands" using dedup_spec(2) [OF assms(1) refl k(1)] by simp
    ultimately show thesis using that [of k] assms(2) by (simp add: gap_fill_dup_ms_def)
  qed
  have lo: "recent ! j < ?t k"
  proof (rule ccontr)
    assume "\<not> ?thesis"
    then have "num_milliseconds (?t i - recent ! j) \<le> num_milliseconds (?t i - ?t k)" by (intro num_milliseconds_mono) simp
    with k(3) assms(9) show False by simp
  qed
  from k(1) obtain m where m: "m < length ?kept" "k = ?kept ! m" unfolding in_set_conv_nth by blast
  have "ts_in_holes (fillable_holes recent) (?t k)"
    unfolding hole_iff [OF assms(1)] using assms(4,6,7,8) lo k(2)
    by (intro exI [of _ j]) (simp add: gap_fill_min_ms_def gap_fill_max_ms_def)
  then have hole: "ts_in_holes (fillable_holes recent) (?t (?kept ! m))" using m(2) by simp
  have ne: "cands \<noteq> []" using assms(2) by auto
  have "?kept ! m \<in> set (select_gap_fill recent cands)"
    unfolding select_gap_fill_def Let_def if_not_P [OF ne]
    by (rule nth_selected [where A = "\<lambda>k. ts_in_holes (fillable_holes recent) (?t (?kept ! k))"]) (rule m(1), rule hole)
  then have "k \<in> set (select_gap_fill recent cands)" using m(2) by simp
  with lo k(2,3) show ?thesis by blast
qed

theorem gap_fill_covers_holes_witness:
  "\<exists>k. k \<in> set (select_gap_fill [0, 200000000000] [\<lparr>cand_ts = 60000000000, cand_file = [], driving = None, gear_driving = False\<rparr>])"
  using gap_fill_covers_holes [of "[0, 200000000000]" 0
      "[\<lparr>cand_ts = 60000000000, cand_file = [], driving = None, gear_driving = False\<rparr>]" 0]
  by (auto simp: num_milliseconds_def)

lemma list_all_update: "list_all P xs \<Longrightarrow> P x \<Longrightarrow> list_all P (xs[i := x])"
  by (induction xs arbitrary: i) (auto split: nat.splits)

lemma span_loop_bounds:
  assumes "list_all (\<lambda>s. 0 < s \<and> s \<le> clip_duration_ms) spans"
  shows "list_all (\<lambda>s. 0 < s \<and> s \<le> clip_duration_ms) (span_loop entries is spans) \<and>
     length (span_loop entries is spans) = length spans"
  using assms
proof (induction entries "is" spans rule: span_loop.induct)
  case (1 entries a b rest spans)
  let ?g = "num_milliseconds (fst (entries ! b) - fst (entries ! a))"
  have "list_all (\<lambda>s. 0 < s \<and> s \<le> clip_duration_ms) (if ?g > 0 \<and> ?g \<le> clip_duration_ms then spans[a := ?g] else spans)"
    using 1(2) by (auto intro!: list_all_update)
  from 1(1) [OF refl this] show ?case by (simp add: Let_def split: if_splits)
qed simp_all

text \<open>The spans the clip timeline hands to \<open>plan_clip_at_park_gaps\<close> meet what its planning needs.\<close>

lemma clip_spans_bounds:
  "length (clip_spans entries) = length entries \<and>
   list_all (\<lambda>s. 0 < s \<and> s \<le> clip_duration_ms) (clip_spans entries)"
  using span_loop_bounds [of "replicate (length entries) clip_duration_ms" entries]
  by (simp add: clip_spans_def list_all_iff clip_duration_ms_def)

end
