(* ===== verification/DriveGrouping.thy ===== *)
theory DriveGrouping
  imports GapFill "HOL-Library.Multiset"
begin

section \<open>Grouping clips into drives\<close>

text \<open>
  \<^verbatim>\<open>crates/drives/src/grouper.rs\<close>, the summary grouper: stored clip rows are made a timeline (one row
  per path, event clips admitted by the gap fill), cut at long pauses, at park gaps and by the
  signature of imported trips; and the index that resolves a drive id. The calendar arithmetic of
  \<^verbatim>\<open>chrono\<close> is a parameter: \<open>parse\<close> reads an ISO text into nanoseconds and \<open>stamp\<close> prints the start
  time of a drive. The order in which a \<^verbatim>\<open>HashMap\<close> yields its keys is a parameter too, \<open>order\<close>,
  which may be another one for each map the grouper builds.
\<close>

record route_summary =
  rs_file :: ustr
  raw_park_count :: nat
  raw_frame_count :: nat
  rs_gear_runs :: "gear_run list"
  max_speed_mps :: f64
  rs_source :: "ustr option"
  external_signature :: "ustr option"

subsection \<open>Times from file names\<close>

definition norm_path :: "ustr \<Rightarrow> ustr" where
  "norm_path = map (\<lambda>c. if c = 92 then 47 else c)"

definition starts_with :: "ustr \<Rightarrow> ustr \<Rightarrow> bool" where
  "starts_with p s \<longleftrightarrow> take (length p) s = p"

definition is_event_folder_path :: "ustr \<Rightarrow> bool" where
  "is_event_folder_path f \<longleftrightarrow>
     starts_with (lit ''SavedClips/'') (norm_path f) \<or> starts_with (lit ''SentryClips/'') (norm_path f)"

text \<open>
  The code compares bytes; the 19 bytes of a match are ASCII, so a match of bytes is a match of code
  points.
\<close>

definition stamp_pattern :: "ustr \<Rightarrow> bool" where
  "stamp_pattern s \<longleftrightarrow>
     length s \<ge> 19 \<and> s ! 4 = 45 \<and> s ! 7 = 45 \<and> s ! 10 = 95 \<and> s ! 13 = 45 \<and> s ! 16 = 45 \<and>
     list_all (\<lambda>i. is_digit (s ! i)) [0, 1, 2, 3, 5, 6, 8, 9, 11, 12, 14, 15, 17, 18]"

definition iso_text :: "ustr \<Rightarrow> ustr" where
  "iso_text s = take 10 s @ lit ''T'' @ take 2 (drop 11 s) @ lit '':'' @ take 2 (drop 14 s) @
     lit '':'' @ take 2 (drop 17 s)"

fun parse_file_timestamp :: "(ustr \<Rightarrow> ts option) \<Rightarrow> ustr \<Rightarrow> ts option" where
  "parse_file_timestamp parse [] = None"
| "parse_file_timestamp parse (c # s) =
     (case (if stamp_pattern (c # s) then parse (iso_text (c # s)) else None) of
        Some t \<Rightarrow> Some t
      | None \<Rightarrow> parse_file_timestamp parse s)"

definition parse_clip_timestamp :: "(ustr \<Rightarrow> ts option) \<Rightarrow> ustr \<Rightarrow> ts option" where
  "parse_clip_timestamp parse f = parse_file_timestamp parse (last (split_on 47 (norm_path f)))"

subsection \<open>Evidence of a stored row\<close>

definition row_has_driving :: "gear_run list \<Rightarrow> nat \<Rightarrow> nat \<Rightarrow> f64 \<Rightarrow> bool" where
  "row_has_driving runs park_count frame_count max_speed \<longleftrightarrow>
     telemetry_has_driving runs [] [] park_count frame_count \<or>
     (case max_speed of Finite v \<Rightarrow> v > 1 / 2 | PosInfinity \<Rightarrow> True | _ \<Rightarrow> False)"

definition summary_has_driving :: "route_summary \<Rightarrow> bool" where
  "summary_has_driving s = row_has_driving (rs_gear_runs s) (raw_park_count s) (raw_frame_count s) (max_speed_mps s)"

fun contains :: "ustr \<Rightarrow> ustr \<Rightarrow> bool" where
  "contains p [] \<longleftrightarrow> p = []"
| "contains p (c # s) \<longleftrightarrow> starts_with p (c # s) \<or> contains p s"

definition bounds_clip_span :: "ustr option \<Rightarrow> ustr \<Rightarrow> bool" where
  "bounds_clip_span source f \<longleftrightarrow>
     (case source of None \<Rightarrow> True | Some s \<Rightarrow> s = lit ''sei'') \<and> \<not> contains (lit ''-front-bridge.mp4'') f"

subsection \<open>The timeline\<close>

record timed_summary =
  summary :: route_summary
  timestamp :: ts
  clip_span :: int

definition nominal :: "route_summary \<Rightarrow> ts \<Rightarrow> timed_summary" where
  "nominal s t = \<lparr>summary = s, timestamp = t, clip_span = clip_duration_ms\<rparr>"

text \<open>The first row of each path: those of event folders apart.\<close>

fun partition_rows :: "ustr list \<Rightarrow> route_summary list \<Rightarrow> route_summary list \<times> route_summary list" where
  "partition_rows seen [] = ([], [])"
| "partition_rows seen (s # ss) =
     (let norm = norm_path (rs_file s)
      in if norm \<in> set seen then partition_rows seen ss
         else let (unique, events) = partition_rows (norm # seen) ss
              in if is_event_folder_path (rs_file s) then (unique, s # events) else (s # unique, events))"

definition timed_rows :: "(ustr \<Rightarrow> ts option) \<Rightarrow> route_summary list \<Rightarrow> timed_summary list" where
  "timed_rows parse = List.map_filter (\<lambda>s. map_option (nominal s) (parse_clip_timestamp parse (rs_file s)))"

definition fill_key :: "timed_summary \<Rightarrow> gap_fill_candidate" where
  "fill_key c = \<lparr>cand_ts = timestamp c, cand_file = rs_file (summary c),
     driving = Some (summary_has_driving (summary c)),
     gear_driving = telemetry_gear_driving (rs_gear_runs (summary c)) []\<rparr>"

definition admit_events :: "timed_summary list \<Rightarrow> timed_summary list \<Rightarrow> timed_summary list" where
  "admit_events timed cands =
     (let admitted = select_gap_fill (map timestamp timed) (map fill_key cands)
      in if admitted = [] then timed
         else sort_key timestamp (timed @ map (\<lambda>i. cands ! i) admitted))"

definition with_spans :: "timed_summary list \<Rightarrow> timed_summary list" where
  "with_spans timed =
     map2 (\<lambda>t spn. t\<lparr>clip_span := spn\<rparr>) timed
       (clip_spans (map (\<lambda>t. (timestamp t, bounds_clip_span (rs_source (summary t)) (rs_file (summary t)))) timed))"

definition timeline :: "(ustr \<Rightarrow> ts option) \<Rightarrow> route_summary list \<Rightarrow> timed_summary list" where
  "timeline parse summaries =
     (let (unique, events) = partition_rows [] summaries;
          timed = sort_key timestamp (timed_rows parse unique)
      in with_spans (if events = [] then timed else admit_events timed (timed_rows parse events)))"

definition drive_gap_ms :: int where "drive_gap_ms = 300000"

fun time_split :: "timed_summary list \<Rightarrow> timed_summary list \<Rightarrow> timed_summary list list" where
  "time_split current [] = (if current = [] then [] else [current])"
| "time_split current (t # ts) =
     (if num_milliseconds (timestamp t - timestamp (last current)) > drive_gap_ms
      then current # time_split [t] ts else time_split (current @ [t]) ts)"

definition time_groups :: "timed_summary list \<Rightarrow> timed_summary list list" where
  "time_groups timed = (case timed of [] \<Rightarrow> [] | t # ts \<Rightarrow> time_split [t] ts)"

subsection \<open>Cutting at park gaps\<close>

record sub_clip =
  sub_summary :: route_summary
  sub_timestamp :: ts
  sub_start :: nat
  sub_span :: int
  sub_end :: nat
  sub_total :: nat
  fraction :: rat

definition frame_sum :: "route_summary \<Rightarrow> nat" where
  "frame_sum s = wrap_u32 (sum_list (map gr_frames (rs_gear_runs s)))"

definition whole :: "timed_summary \<Rightarrow> sub_clip" where
  "whole t =
     (let tot = (if rs_gear_runs (summary t) = [] then 1 else max 1 (frame_sum (summary t)))
      in \<lparr>sub_summary = summary t, sub_timestamp = timestamp t, sub_start = 0, sub_span = clip_span t,
          sub_end = tot, sub_total = tot, fraction = 1\<rparr>)"

text \<open>The clock of a clip: its park gaps and the offset of a frame, by real span or as old releases did.\<close>

definition spf :: "int \<Rightarrow> nat \<Rightarrow> rat" where
  "spf span_ms tot = fl (fl (of_int span_ms / 1000) / of_nat tot)"

definition is_park_gap :: "bool \<Rightarrow> int \<Rightarrow> nat \<Rightarrow> nat \<Rightarrow> bool" where
  "is_park_gap actual_span span_ms tot frames =
     (if actual_span then park_gap_frames frames tot span_ms else fl (of_nat frames * spf span_ms tot) \<ge> 2)"

definition seg_offset :: "bool \<Rightarrow> int \<Rightarrow> nat \<Rightarrow> nat \<Rightarrow> int" where
  "seg_offset actual_span span_ms tot start =
     (if actual_span then frame_offset_ms start tot span_ms
      else round_f64 (fl (fl (of_nat start * spf span_ms tot) * 1000)))"

text \<open>What a clip gives: sub-clips, and \<open>None\<close> where it closes the current drive.\<close>

definition clip_pieces :: "bool \<Rightarrow> timed_summary \<Rightarrow> sub_clip option list" where
  "clip_pieces actual_span c =
     (let tot = frame_sum (summary c)
      in if tot = 0 then [Some (whole c)]
         else let span_ms = (if actual_span then clip_span c else clip_duration_ms);
                  merged = merge_segments []
                    (raw_segments (is_park_gap actual_span span_ms tot) (rs_gear_runs (summary c)) 0)
              in if list_all raw_parked merged then [None]
                 else if \<not> list_ex raw_parked merged
                 then [Some \<lparr>sub_summary = summary c, sub_timestamp = timestamp c, sub_start = 0,
                             sub_span = clip_span c, sub_end = tot, sub_total = tot, fraction = 1\<rparr>]
                 else map (\<lambda>seg. if raw_parked seg then None
                        else Some \<lparr>sub_summary = summary c,
                               sub_timestamp = timestamp c +
                                 1000000 * seg_offset actual_span span_ms tot (start_frame seg),
                               sub_start = start_frame seg, sub_span = clip_span c,
                               sub_end = end_frame seg, sub_total = tot,
                               fraction = fl (of_nat (end_frame seg - start_frame seg) / of_nat tot)\<rparr>) merged)"

fun split_pieces :: "'a list \<Rightarrow> 'a option list \<Rightarrow> 'a list list" where
  "split_pieces current [] = (if current = [] then [] else [current])"
| "split_pieces current (None # ps) = (if current = [] then [] else [current]) @ split_pieces [] ps"
| "split_pieces current (Some s # ps) = split_pieces (current @ [s]) ps"

definition mostly_park :: "route_summary \<Rightarrow> bool" where
  "mostly_park s \<longleftrightarrow>
     raw_frame_count s > 0 \<and> fl (of_nat (raw_park_count s) / of_nat (raw_frame_count s)) > 1 / 2"

definition legacy_piece :: "timed_summary \<Rightarrow> sub_clip option" where
  "legacy_piece c = (if mostly_park (summary c) then None else Some (whole c))"

definition split_summary_by_gear_state_legacy :: "timed_summary list \<Rightarrow> sub_clip list list" where
  "split_summary_by_gear_state_legacy grp =
     (if length grp \<le> 1 then [map whole grp] else split_pieces [] (map legacy_piece grp))"

definition split_summary_by_gear_state :: "bool \<Rightarrow> timed_summary list \<Rightarrow> sub_clip list list" where
  "split_summary_by_gear_state actual_span grp =
     (if grp = [] then []
      else if \<not> list_ex (\<lambda>c. rs_gear_runs (summary c) \<noteq> []) grp
      then split_summary_by_gear_state_legacy grp
      else split_pieces [] (concat (map (clip_pieces actual_span) grp)))"

subsection \<open>Cutting by signature\<close>

definition signature :: "sub_clip \<Rightarrow> ustr option" where
  "signature c = external_signature (sub_summary c)"

definition split_summary_by_external_signature :: "(ustr list \<Rightarrow> ustr list) \<Rightarrow> sub_clip list \<Rightarrow> sub_clip list list" where
  "split_summary_by_external_signature order grp =
     (if length grp \<le> 1 \<or> \<not> list_ex (\<lambda>c. signature c \<noteq> None) grp then [grp]
      else let no_sig = filter (\<lambda>c. signature c = None) grp
           in (if no_sig = [] then [] else [no_sig]) @
              map (\<lambda>k. filter (\<lambda>c. signature c = Some k) grp)
                (order (remdups (List.map_filter signature grp))))"

definition gear_groups :: "(ustr \<Rightarrow> ts option) \<Rightarrow> bool \<Rightarrow> route_summary list \<Rightarrow> sub_clip list list" where
  "gear_groups parse actual_span summaries =
     concat (map (split_summary_by_gear_state actual_span) (time_groups (timeline parse summaries)))"

definition group_summary_clips_with_clock ::
    "(ustr \<Rightarrow> ts option) \<Rightarrow> (nat \<Rightarrow> ustr list \<Rightarrow> ustr list) \<Rightarrow> bool \<Rightarrow> route_summary list \<Rightarrow> sub_clip list list" where
  "group_summary_clips_with_clock parse order actual_span summaries =
     concat (map (\<lambda>(i, g). split_summary_by_external_signature (order i) g)
       (enumerate 0 (gear_groups parse actual_span summaries)))"

definition group_summary_clips ::
    "(ustr \<Rightarrow> ts option) \<Rightarrow> (nat \<Rightarrow> ustr list \<Rightarrow> ustr list) \<Rightarrow> route_summary list \<Rightarrow> sub_clip list list" where
  "group_summary_clips parse order summaries = group_summary_clips_with_clock parse order True summaries"

text \<open>Concrete rows for the examples.\<close>

definition demo_parse :: "ustr \<Rightarrow> ts option" where
  "demo_parse t = map_option (\<lambda>n. 1000000000 * int n) (parse_digits (drop 17 t))"

definition demo_row :: "string \<Rightarrow> gear_run list \<Rightarrow> ustr option \<Rightarrow> route_summary" where
  "demo_row name runs sig = \<lparr>rs_file = lit name, raw_park_count = 10, raw_frame_count = 30, rs_gear_runs = runs,
     max_speed_mps = Finite 20, rs_source = None, external_signature = sig\<rparr>"

text \<open>Ten frames of driving, ten parked, ten of driving.\<close>

definition demo_clip_row :: route_summary where
  "demo_clip_row = demo_row ''RecentClips/2026-01-01_00-00-05-front.mp4''
     [\<lparr>gr_gear = 1, gr_frames = 10\<rparr>, \<lparr>gr_gear = 0, gr_frames = 10\<rparr>, \<lparr>gr_gear = 1, gr_frames = 10\<rparr>] None"

section \<open>Lemmas\<close>

subsection \<open>Cutting loses nothing\<close>

lemma map_filter_append: "List.map_filter f (xs @ ys) = List.map_filter f xs @ List.map_filter f ys"
  by (simp add: List.map_filter_def)

lemma map_filter_concat: "List.map_filter f (concat xss) = concat (map (List.map_filter f) xss)"
  by (induction xss) (simp_all add: map_filter_append List.map_filter_simps)

lemma in_map_filter: "y \<in> set (List.map_filter f xs) \<longleftrightarrow> (\<exists>x. x \<in> set xs \<and> f x = Some y)"
  by (induction xs) (auto simp: List.map_filter_simps split: option.split)

lemma concat_split_pieces: "concat (split_pieces cur ps) = cur @ List.map_filter id ps"
  by (induction cur ps rule: split_pieces.induct) (simp_all add: List.map_filter_simps)

lemma split_pieces_nonempty: "[] \<notin> set (split_pieces cur ps)"
  by (induction cur ps rule: split_pieces.induct) simp_all

lemma concat_time_split: "concat (time_split cur ts) = cur @ ts"
  by (induction cur ts rule: time_split.induct) simp_all

lemma concat_time_groups: "concat (time_groups ts) = ts"
  by (simp add: time_groups_def concat_time_split split: list.split)

lemma time_split_nonempty: "cur \<noteq> [] \<Longrightarrow> [] \<notin> set (time_split cur ts)"
  by (induction cur ts rule: time_split.induct) auto

lemma time_groups_nonempty: "[] \<notin> set (time_groups ts)"
  by (simp add: time_groups_def time_split_nonempty split: list.split)

text \<open>The buckets of a key function, in any order of the keys, hold the list once.\<close>

lemma mset_buckets:
  assumes "mset ks = mset (remdups (List.map_filter f xs))"
  shows "mset (concat (map (\<lambda>k. filter (\<lambda>x. f x = Some k) xs) ks)) = mset (filter (\<lambda>x. f x \<noteq> None) xs)"
proof -
  have d: "distinct ks" using assms by (metis distinct_remdups mset_eq_imp_distinct_iff)
  have k: "set ks = set (List.map_filter f xs)" using assms by (metis mset_eq_setD set_remdups)
  have *: "mset (concat (map (\<lambda>k. filter (\<lambda>x. f x = Some k) xs) ls)) = filter_mset (\<lambda>x. f x \<in> Some ` set ls) (mset xs)"
    if "distinct ls" for ls
    using that
  proof (induction ls)
    case (Cons l ls)
    have "l \<notin> set ls" using Cons.prems by simp
    then have "filter_mset (\<lambda>x. f x \<in> Some ` set (l # ls)) (mset xs) =
        filter_mset (\<lambda>x. f x = Some l) (mset xs) + filter_mset (\<lambda>x. f x \<in> Some ` set ls) (mset xs)"
      by (induction xs) auto
    with Cons.IH Cons.prems show ?case by simp
  qed simp
  have "y \<in> set ks" if "f x = Some y" and "x \<in> set xs" for x y
    using that unfolding k in_map_filter by blast
  then have "filter_mset (\<lambda>x. f x \<in> Some ` set ks) (mset xs) = filter_mset (\<lambda>x. f x \<noteq> None) (mset xs)"
    by (intro filter_mset_cong) auto
  with * [OF d] show ?thesis by (simp only: mset_filter)
qed

lemma mset_split_signature:
  assumes "\<And>ks. mset (order ks) = mset ks"
  shows "mset (concat (split_summary_by_external_signature order g)) = mset g"
proof -
  have "mset (filter (\<lambda>c. signature c = None) g) +
      mset (concat (map (\<lambda>k. filter (\<lambda>c. signature c = Some k) g) (order (remdups (List.map_filter signature g))))) = mset g"
    unfolding mset_buckets [OF assms] using multiset_partition [of "mset g" "\<lambda>c. signature c = None"] by simp
  then show ?thesis
    by (cases "filter (\<lambda>c. signature c = None) g = []")
      (simp_all add: split_summary_by_external_signature_def Let_def del: mset_filter)
qed

lemma split_signature_nonempty:
  assumes "\<And>ks. mset (order ks) = mset ks" and "g \<noteq> []"
  shows "[] \<notin> set (split_summary_by_external_signature order g)"
proof -
  have "set (order (remdups (List.map_filter signature g))) = set (List.map_filter signature g)"
    using assms(1) by (metis mset_eq_setD set_remdups)
  then have "[] \<noteq> filter (\<lambda>c. signature c = Some k) g" if "k \<in> set (order (remdups (List.map_filter signature g)))" for k
    using that unfolding in_map_filter by (metis (mono_tags, lifting) filter_empty_conv in_map_filter)
  with assms(2) show ?thesis by (auto simp: split_summary_by_external_signature_def Let_def)
qed

subsection \<open>The sub-clips of the timeline\<close>

text \<open>What a clip of a time group contributes to the drives.\<close>

definition kept_pieces :: "bool \<Rightarrow> timed_summary list \<Rightarrow> timed_summary \<Rightarrow> sub_clip list" where
  "kept_pieces actual_span grp c =
     (if list_ex (\<lambda>c. rs_gear_runs (summary c) \<noteq> []) grp then List.map_filter id (clip_pieces actual_span c)
      else if length grp \<le> 1 \<or> \<not> mostly_park (summary c) then [whole c] else [])"

lemma concat_concat: "concat (concat xss) = concat (map concat xss)"
  by (induction xss) simp_all

lemma concat_gear_split: "concat (split_summary_by_gear_state a grp) = concat (map (kept_pieces a grp) grp)"
proof -
  let ?gear = "list_ex (\<lambda>c. rs_gear_runs (summary c) \<noteq> []) grp"
  have legacy: "List.map_filter id (map legacy_piece g) = concat (map (\<lambda>c. if mostly_park (summary c) then [] else [whole c]) g)" for g
    by (induction g) (simp_all add: List.map_filter_simps legacy_piece_def)
  have single: "concat (map (\<lambda>c. [whole c]) g) = map whole g" for g by (induction g) simp_all
  consider "grp = []" | "grp \<noteq> []" ?gear | "grp \<noteq> []" "\<not> ?gear" "length grp \<le> 1" | "\<not> ?gear" "\<not> length grp \<le> 1"
    by fastforce
  then show ?thesis
  proof cases
    case 2
    then have "kept_pieces a grp = (\<lambda>c. List.map_filter id (clip_pieces a c))" by (simp add: kept_pieces_def fun_eq_iff)
    with 2 show ?thesis
      by (simp add: split_summary_by_gear_state_def concat_split_pieces map_filter_concat comp_def)
  next
    case 3
    then have "kept_pieces a grp = (\<lambda>c. [whole c])" by (simp add: kept_pieces_def fun_eq_iff)
    with 3 show ?thesis
      by (simp add: split_summary_by_gear_state_def split_summary_by_gear_state_legacy_def single)
  next
    case 4
    then have "kept_pieces a grp = (\<lambda>c. if mostly_park (summary c) then [] else [whole c])"
      by (simp add: kept_pieces_def fun_eq_iff)
    with 4 show ?thesis
      by (auto simp: split_summary_by_gear_state_def split_summary_by_gear_state_legacy_def concat_split_pieces legacy)
  qed (simp add: split_summary_by_gear_state_def)
qed

lemma gear_split_nonempty: "grp \<noteq> [] \<Longrightarrow> [] \<notin> set (split_summary_by_gear_state a grp)"
  by (simp add: split_summary_by_gear_state_def split_summary_by_gear_state_legacy_def split_pieces_nonempty)

abbreviation kept_clips :: "bool \<Rightarrow> timed_summary list \<Rightarrow> sub_clip list" where
  "kept_clips a ts \<equiv> concat (map (\<lambda>grp. concat (map (kept_pieces a grp) grp)) (time_groups ts))"

lemma concat_gear_groups: "concat (gear_groups parse a ss) = kept_clips a (timeline parse ss)"
  by (simp add: gear_groups_def concat_concat comp_def concat_gear_split)

lemma mset_concat_groups:
  assumes "\<And>i ks. mset (order i ks) = mset ks"
  shows "mset (concat (group_summary_clips_with_clock parse order a ss)) = mset (kept_clips a (timeline parse ss))"
proof -
  have "mset (concat (concat (map (\<lambda>(i, g). split_summary_by_external_signature (order i) g) (enumerate n gs)))) = mset (concat gs)"
    for n gs
    by (induction gs arbitrary: n) (simp_all add: mset_split_signature assms)
  then show ?thesis by (simp add: group_summary_clips_with_clock_def concat_gear_groups)
qed

lemma groups_nonempty:
  assumes "\<And>i ks. mset (order i ks) = mset ks"
  shows "[] \<notin> set (group_summary_clips_with_clock parse order a ss)"
proof -
  have g: "[] \<notin> set (gear_groups parse a ss)"
  proof
    assume "[] \<in> set (gear_groups parse a ss)"
    then obtain grp where "grp \<in> set (time_groups (timeline parse ss))" "[] \<in> set (split_summary_by_gear_state a grp)"
      unfolding gear_groups_def by auto
    with gear_split_nonempty [of grp a] time_groups_nonempty show False by metis
  qed
  have "[] \<notin> set (split_summary_by_external_signature (order i) g)" if "(i, g) \<in> set (enumerate 0 (gear_groups parse a ss))" for i g
  proof (rule split_signature_nonempty [OF assms])
    have "g \<in> set (gear_groups parse a ss)" using that by (auto simp: in_set_enumerate_eq)
    with g show "g \<noteq> []" by blast
  qed
  then show ?thesis by (auto simp: group_summary_clips_with_clock_def)
qed

subsection \<open>Windows never overlap\<close>

definition apart :: "sub_clip \<Rightarrow> sub_clip \<Rightarrow> bool" where
  "apart a b \<longleftrightarrow> rs_file (sub_summary a) \<noteq> rs_file (sub_summary b) \<or> sub_end a \<le> sub_start b \<or> sub_end b \<le> sub_start a"

lemma sorted_wrt_mset:
  assumes "sorted_wrt R xs" and "mset xs = mset ys" and sym: "\<And>x y. R x y \<Longrightarrow> R y x"
  shows "sorted_wrt R ys"
  using assms(1,2)
proof (induction xs arbitrary: ys)
  case (Cons x xs)
  have "x \<in> set ys" using Cons.prems(2) by (metis list.set_intros(1) mset_eq_setD)
  then obtain as bs where ys: "ys = as @ x # bs" by (meson split_list)
  with Cons.prems have m: "mset xs = mset (as @ bs)" by simp
  then have "set xs = set (as @ bs)" by (rule mset_eq_setD)
  then have "\<forall>y \<in> set as \<union> set bs. R x y" using Cons.prems(1) by simp
  moreover have "sorted_wrt R (as @ bs)" using Cons.IH [OF _ m] Cons.prems(1) by simp
  ultimately show ?case by (auto simp: ys sorted_wrt_append intro: sym)
qed simp

lemma sorted_wrt_concat_keyed:
  assumes "distinct (map key xs)" and "\<And>x. x \<in> set xs \<Longrightarrow> sorted_wrt R (P x)"
    and "\<And>x y. x \<in> set xs \<Longrightarrow> y \<in> set (P x) \<Longrightarrow> k y = key x" and "\<And>y z. k y \<noteq> k z \<Longrightarrow> R y z"
  shows "sorted_wrt R (concat (map P xs))"
  using assms(1,2,3)
proof (induction xs)
  case (Cons x xs)
  have "R y z" if "y \<in> set (P x)" "x' \<in> set xs" "z \<in> set (P x')" for y x' z
  proof (rule assms(4))
    have "k y = key x" "k z = key x'" using Cons.prems(3) that by auto
    moreover have "key x \<noteq> key x'" using Cons.prems(1) that(2) by auto
    ultimately show "k y \<noteq> k z" by simp
  qed
  moreover have "sorted_wrt R (concat (map P xs))" using Cons by auto
  ultimately show ?case using Cons.prems(2) by (auto simp: sorted_wrt_append)
qed simp

lemma chain_apart: "chain f ss \<Longrightarrow> sorted_wrt (\<lambda>a b. end_frame a \<le> start_frame b) ss"
  by (induction f ss rule: chain_end.induct) (use chain_bounds in fastforce)+

lemma merged_chain:
  "sum_list (map gr_frames runs) < 2 ^ 32 \<Longrightarrow>
     chain 0 (merge_segments [] (raw_segments is_gap runs 0)) \<and>
     chain_end 0 (merge_segments [] (raw_segments is_gap runs 0)) = sum_list (map gr_frames runs)"
  using merge_chain [of 0 "[]" "raw_segments is_gap runs 0"] raw_segments_chain [of 0 runs is_gap] by simp

lemma map_filter_if: "List.map_filter id (map (\<lambda>x. if P x then None else Some (f x)) xs) = map f (filter (\<lambda>x. \<not> P x) xs)"
  by (induction xs) (simp_all add: List.map_filter_simps)

lemma clip_pieces_summary: "s \<in> set (List.map_filter id (clip_pieces a c)) \<Longrightarrow> sub_summary s = summary c"
  by (auto simp: clip_pieces_def whole_def Let_def in_map_filter split: if_splits)

lemma clip_pieces_apart:
  assumes "sum_list (map gr_frames (rs_gear_runs (summary c))) < 2 ^ 32"
  shows "sorted_wrt apart (List.map_filter id (clip_pieces a c))"
proof -
  have "sorted_wrt (\<lambda>x y. end_frame x \<le> start_frame y)
      (filter (\<lambda>x. \<not> raw_parked x) (merge_segments [] (raw_segments is_gap (rs_gear_runs (summary c)) 0)))" for is_gap
    by (rule sorted_wrt_filter, rule chain_apart) (rule merged_chain [OF assms, THEN conjunct1])
  then have "sorted_wrt apart (map (\<lambda>seg. f seg) (filter (\<lambda>x. \<not> raw_parked x)
      (merge_segments [] (raw_segments is_gap (rs_gear_runs (summary c)) 0))))"
    if "\<And>seg. sub_start (f seg) = start_frame seg \<and> sub_end (f seg) = end_frame seg" for f is_gap
    unfolding sorted_wrt_map by (rule sorted_wrt_mono_rel [rotated]) (simp add: apart_def that)
  then show ?thesis by (simp add: clip_pieces_def Let_def map_filter_if List.map_filter_simps)
qed

subsection \<open>The rows of the timeline\<close>

abbreviation row_key :: "route_summary \<Rightarrow> ustr" where
  "row_key s \<equiv> norm_path (rs_file s)"

lemma partition_rows_distinct:
  "partition_rows seen ss = (u, e) \<Longrightarrow>
     distinct (map row_key (u @ e)) \<and> row_key ` set (u @ e) \<inter> set seen = {} \<and> set (u @ e) \<subseteq> set ss"
proof (induction seen ss arbitrary: u e rule: partition_rows.induct)
  case (2 seen s ss)
  show ?case
  proof (cases "row_key s \<in> set seen")
    case True
    with 2(1) [OF refl True] 2(3) show ?thesis by auto
  next
    case False
    obtain u' e' where p: "partition_rows (row_key s # seen) ss = (u', e')" by fastforce
    have IH: "distinct (map row_key (u' @ e'))" "row_key ` set (u' @ e') \<inter> set (row_key s # seen) = {}"
        "set (u' @ e') \<subseteq> set ss" using 2(2) [OF refl False p] by simp_all
    have ue: "(u, e) = (if is_event_folder_path (rs_file s) then (u', s # e') else (s # u', e'))"
      using 2(3) False p by (simp add: Let_def split: if_splits)
    show ?thesis using ue IH False by (cases "is_event_folder_path (rs_file s)") auto
  qed
qed simp

lemma partition_rows_keeps:
  assumes "distinct (map row_key ss)" and "row_key ` set ss \<inter> set seen = {}" and "partition_rows seen ss = (u, e)"
    and "s \<in> set ss"
  shows "s \<in> set (if is_event_folder_path (rs_file s) then e else u)"
  using assms
proof (induction seen ss arbitrary: u e rule: partition_rows.induct)
  case (2 seen t ss)
  obtain u' e' where p: "partition_rows (row_key t # seen) ss = (u', e')" by fastforce
  have n: "row_key t \<notin> set seen" using 2(4) by auto
  have ue: "(u, e) = (if is_event_folder_path (rs_file t) then (u', t # e') else (t # u', e'))"
    using 2(5) n p by (simp add: Let_def split: if_splits)
  have "s \<in> set (if is_event_folder_path (rs_file s) then e' else u')" if "s \<in> set ss"
    by (rule 2(2) [OF refl n _ _ p that]) (use 2(3,4) in auto)
  with ue 2(6) show ?case by (auto split: if_splits)
qed simp

lemma map_summary_timed_rows:
  "map summary (timed_rows parse rows) = filter (\<lambda>s. parse_clip_timestamp parse (rs_file s) \<noteq> None) rows"
  by (induction rows) (auto simp: timed_rows_def List.map_filter_simps nominal_def split: option.split)

lemma length_with_spans: "length (with_spans ts) = length ts"
  using clip_spans_bounds by (simp add: with_spans_def)

lemma map2_upd: "length xs = length ys \<Longrightarrow> (\<And>x y. f (g x y) = f x) \<Longrightarrow> map f (map2 g xs ys) = map f xs"
  by (induction xs ys rule: list_induct2) simp_all

lemma with_spans_fields: "map summary (with_spans ts) = map summary ts" "map timestamp (with_spans ts) = map timestamp ts"
  unfolding with_spans_def by (intro map2_upd; simp add: clip_spans_bounds)+

lemma with_spans_bounds: "c \<in> set (with_spans ts) \<Longrightarrow> 0 < clip_span c \<and> clip_span c \<le> clip_duration_ms"
proof -
  assume "c \<in> set (with_spans ts)"
  then obtain spn where "spn \<in> set (clip_spans (map (\<lambda>t. (timestamp t, bounds_clip_span (rs_source (summary t)) (rs_file (summary t)))) ts))"
      "clip_span c = spn"
    unfolding with_spans_def by (auto dest: set_zip_rightD)
  then show ?thesis using clip_spans_bounds unfolding list_all_iff by blast
qed

lemma sorted_wrt_distinct: "sorted_wrt R xs \<Longrightarrow> (\<And>x. \<not> R x x) \<Longrightarrow> distinct xs"
  by (induction xs) auto

lemma selected_distinct: "sorted recent \<Longrightarrow> distinct (select_gap_fill recent cands)"
  by (rule sorted_wrt_distinct [OF selected_spaced]) (auto simp: gap_fill_dup_ms_def num_milliseconds_def)

lemma sorted_timestamps: "sorted (map timestamp (sort_key timestamp ts))"
  by simp

lemma mset_map_admit:
  "mset (map f (admit_events timed cands)) =
     mset (map f timed) + mset (map (\<lambda>i. f (cands ! i)) (select_gap_fill (map timestamp timed) (map fill_key cands)))"
  by (auto simp: admit_events_def Let_def multiset.map_comp comp_def)

lemma admitted_in_range:
  "sorted (map timestamp timed) \<Longrightarrow> i \<in> set (select_gap_fill (map timestamp timed) (map fill_key cands)) \<Longrightarrow> i < length cands"
  using selected_eligible [of "map timestamp timed" i "map fill_key cands"] by simp

lemma admit_distinct:
  assumes "sorted (map timestamp timed)" and "distinct (map f (timed @ cands))"
  shows "distinct (map f (admit_events timed cands))"
proof -
  let ?a = "select_gap_fill (map timestamp timed) (map fill_key cands)"
  have r: "set ?a \<subseteq> {..<length cands}" using admitted_in_range [OF assms(1)] by blast
  have "distinct (map (\<lambda>i. map f cands ! i) ?a)"
    using selected_distinct [OF assms(1)] assms(2) r
    by (auto simp: distinct_map intro!: inj_onI dest!: nth_eq_iff_index_eq [of "map f cands", THEN iffD1, rotated 3])
  moreover have "map (\<lambda>i. map f cands ! i) ?a = map (\<lambda>i. f (cands ! i)) ?a" using r by (intro map_cong) auto
  ultimately have "distinct (map (\<lambda>i. f (cands ! i)) ?a)" by simp
  moreover have "(\<lambda>i. f (cands ! i)) ` set ?a \<subseteq> f ` set cands" using r by auto
  ultimately have "distinct (map f timed @ map (\<lambda>i. f (cands ! i)) ?a)" using assms(2) by auto
  moreover have "mset (map f timed @ map (\<lambda>i. f (cands ! i)) ?a) = mset (map f (admit_events timed cands))"
    using mset_map_admit [of f timed cands] by simp
  ultimately show ?thesis by (metis mset_eq_imp_distinct_iff)
qed

lemma timeline_distinct: "distinct (map (\<lambda>c. row_key (summary c)) (timeline parse ss))"
proof -
  obtain u e where p: "partition_rows [] ss = (u, e)" by fastforce
  let ?t = "timed_rows parse u" and ?c = "timed_rows parse e" and ?k = "\<lambda>c. row_key (summary c)"
  have k: "map ?k xs = map row_key (map summary xs)" for xs by simp
  have "distinct (map row_key (filter P u @ filter P e))" for P
    using partition_rows_distinct [OF p] by (auto simp: distinct_map_filter)
  then have "distinct (map ?k (?t @ ?c))" unfolding k map_append map_summary_timed_rows by simp
  then have d: "distinct (map ?k (sort_key timestamp ?t @ ?c))"
    by (metis (no_types, lifting) map_append mset_append mset_eq_imp_distinct_iff mset_map mset_sort)
  have "distinct (map ?k (if e = [] then sort_key timestamp ?t else admit_events (sort_key timestamp ?t) ?c))"
    using d admit_distinct [OF sorted_timestamps d] by simp
  then show ?thesis unfolding timeline_def Let_def p prod.case k with_spans_fields .
qed

lemma timeline_keeps:
  assumes "distinct (map row_key ss)" and "s \<in> set ss" and "\<not> is_event_folder_path (rs_file s)"
    and "parse_clip_timestamp parse (rs_file s) \<noteq> None"
  shows "s \<in> summary ` set (timeline parse ss)"
proof -
  obtain u e where p: "partition_rows [] ss = (u, e)" by fastforce
  let ?t = "sort_key timestamp (timed_rows parse u)"
  have "s \<in> set u" using partition_rows_keeps [OF assms(1) _ p assms(2)] assms(3) by simp
  then have "s \<in> set (map summary (timed_rows parse u))" unfolding map_summary_timed_rows using assms(4) by simp
  then have t: "s \<in> summary ` set ?t" by simp
  have "set (map summary ?t) \<subseteq> set (map summary (admit_events ?t c))" for c
    using mset_map_admit [of summary ?t c] by (metis mset_subset_eq_add_left set_mset_mono set_mset_mset)
  with t have "s \<in> set (map summary (if e = [] then ?t else admit_events ?t (timed_rows parse e)))" by auto
  then show ?thesis
    unfolding timeline_def Let_def p prod.case set_map [symmetric] with_spans_fields .
qed

lemma timeline_rows:
  assumes "c \<in> set (timeline parse ss)"
  shows "0 < clip_span c \<and> clip_span c \<le> clip_duration_ms"
proof -
  obtain u e where p: "partition_rows [] ss = (u, e)" by fastforce
  show ?thesis using assms unfolding timeline_def Let_def p prod.case by (rule with_spans_bounds)
qed

subsection \<open>Frames of the drives\<close>

text \<open>The frames of the segments that are not parked.\<close>

definition driven :: "raw_seg list \<Rightarrow> nat set" where
  "driven ss = {f. \<exists>s \<in> set ss. \<not> raw_parked s \<and> start_frame s \<le> f \<and> f < end_frame s}"

lemma driven_simps [simp]:
  "driven [] = {}"
  "driven (s # ss) = (if raw_parked s then {} else {start_frame s..<end_frame s}) \<union> driven ss"
  by (auto simp: driven_def)

lemma driven_append [simp]: "driven (xs @ ys) = driven xs \<union> driven ys"
  by (induction xs) auto

lemma chain_covers: "chain a ss \<Longrightarrow> a \<le> f \<Longrightarrow> f < chain_end a ss \<Longrightarrow> \<exists>s \<in> set ss. start_frame s \<le> f \<and> f < end_frame s"
proof (induction a ss rule: chain_end.induct)
  case (2 a s ss)
  then show ?case by (cases "f < end_frame s") auto
qed simp

lemma merge_driven:
  "chain f (merged @ segs) \<Longrightarrow> driven (merge_segments merged segs) = driven (merged @ segs)"
proof (induction merged segs rule: merge_segments.induct)
  case (2 merged seg segs)
  show ?case
  proof (cases "merged \<noteq> [] \<and> \<not> raw_parked (last merged) \<and> \<not> raw_parked seg")
    case True
    then obtain init l where m: "merged = init @ [l]" by (metis rev_exhaust)
    with 2(3) have c: "chain f (init @ [l\<lparr>end_frame := end_frame seg\<rparr>] @ segs)"
      and e: "start_frame l \<le> end_frame l" "start_frame seg = end_frame l" "end_frame l \<le> end_frame seg"
      by (auto simp: chain_append chain_end_append)
    have "{start_frame l..<end_frame seg} = {start_frame l..<end_frame l} \<union> {start_frame seg..<end_frame seg}"
      using e by auto
    with True 2(1) c m show ?thesis by (simp add: Un_assoc)
  next
    case False
    then show ?thesis using 2(2,3) by auto
  qed
qed simp

text \<open>For each frame of a clip, whether it lies in a park gap.\<close>

definition in_park_gap :: "(nat \<Rightarrow> bool) \<Rightarrow> gear_run list \<Rightarrow> bool list" where
  "in_park_gap is_gap runs = expand (\<lambda>r. gr_gear r = gear_park \<and> is_gap (gr_frames r)) gr_frames runs"

lemma raw_driven:
  "frame + sum_list (map gr_frames runs) < 2 ^ 32 \<Longrightarrow>
     driven (raw_segments is_gap runs frame) =
       {f. frame \<le> f \<and> f < frame + sum_list (map gr_frames runs) \<and> \<not> in_park_gap is_gap runs ! (f - frame)}"
proof (induction runs arbitrary: frame)
  case (Cons r runs)
  let ?gap = "gr_gear r = gear_park \<and> is_gap (gr_frames r)"
  have step: "f - frame - gr_frames r = f - (frame + gr_frames r)" for f by simp
  have w: "wrap_u32 (frame + gr_frames r) = frame + gr_frames r" using Cons.prems by (simp add: wrap_u32_def)
  have IH: "driven (raw_segments is_gap runs (frame + gr_frames r)) =
      {f. frame + gr_frames r \<le> f \<and> f < frame + gr_frames r + sum_list (map gr_frames runs) \<and>
          \<not> in_park_gap is_gap runs ! (f - (frame + gr_frames r))}"
    using Cons.IH [of "frame + gr_frames r"] Cons.prems by simp
  show ?case
  proof (rule set_eqI)
    fix f
    show "f \<in> driven (raw_segments is_gap (r # runs) frame) \<longleftrightarrow>
        f \<in> {f. frame \<le> f \<and> f < frame + sum_list (map gr_frames (r # runs)) \<and> \<not> in_park_gap is_gap (r # runs) ! (f - frame)}"
      by (cases "f < frame + gr_frames r") (auto simp: IH w in_park_gap_def nth_append step)
  qed
qed simp

lemma merged_driven:
  assumes "sum_list (map gr_frames runs) < 2 ^ 32"
  shows "driven (merge_segments [] (raw_segments is_gap runs 0)) =
    {f. f < sum_list (map gr_frames runs) \<and> \<not> in_park_gap is_gap runs ! f}"
  using merge_driven [of 0 "[]" "raw_segments is_gap runs 0"] raw_segments_chain [of 0 runs is_gap]
    raw_driven [of 0 runs is_gap] assms by simp

lemma clip_pieces_frames:
  assumes "sum_list (map gr_frames (rs_gear_runs (summary c))) < 2 ^ 32" and "0 < sum_list (map gr_frames (rs_gear_runs (summary c)))"
  defines "tot \<equiv> sum_list (map gr_frames (rs_gear_runs (summary c)))"
  shows "(\<exists>s \<in> set (List.map_filter id (clip_pieces True c)). sub_start s \<le> f \<and> f < sub_end s) \<longleftrightarrow>
    f < tot \<and> \<not> in_park_gap (\<lambda>n. park_gap_frames n tot (clip_span c)) (rs_gear_runs (summary c)) ! f"
proof -
  let ?m = "merge_segments [] (raw_segments (is_park_gap True (clip_span c) tot) (rs_gear_runs (summary c)) 0)"
  have tot: "frame_sum (summary c) = tot" "tot \<noteq> 0" using assms(1,2) by (auto simp: tot_def frame_sum_def wrap_u32_def simp del: sum_list_eq_0_iff)
  have gap: "is_park_gap True (clip_span c) tot = (\<lambda>n. park_gap_frames n tot (clip_span c))" by (simp add: is_park_gap_def fun_eq_iff)
  have d: "f \<in> driven ?m \<longleftrightarrow> f < tot \<and> \<not> in_park_gap (\<lambda>n. park_gap_frames n tot (clip_span c)) (rs_gear_runs (summary c)) ! f"
    unfolding gap merged_driven [OF assms(1)] by (simp add: tot_def)
  have whole: "f \<in> driven ?m \<longleftrightarrow> f < tot" if "\<not> list_ex raw_parked ?m"
  proof -
    have "f \<in> driven ?m" if f: "f < tot"
    proof -
      have "\<exists>s \<in> set ?m. start_frame s \<le> f \<and> f < end_frame s"
        by (rule chain_covers [of 0]) (use merged_chain [OF assms(1)] f in \<open>simp_all add: tot_def\<close>)
      with \<open>\<not> list_ex raw_parked ?m\<close> show ?thesis by (auto simp: driven_def list_ex_iff)
    qed
    then show ?thesis using d by blast
  qed
  have "(\<exists>s \<in> set (List.map_filter id (clip_pieces True c)). sub_start s \<le> f \<and> f < sub_end s) \<longleftrightarrow> f \<in> driven ?m"
    using whole tot
    by (auto simp: clip_pieces_def Let_def map_filter_if List.map_filter_simps driven_def list_all_iff list_ex_iff)
  with d show ?thesis by simp
qed

subsection \<open>The drives\<close>

lemma concat_keyed:
  "concat (map (\<lambda>g. concat (map (P g) g)) gs) = concat (map (\<lambda>(g, c). P g c) (concat (map (\<lambda>g. map (Pair g) g) gs)))"
  by (induction gs) (simp_all add: comp_def)

lemma map_snd_pairs: "map (\<lambda>x. f (snd x)) (concat (map (\<lambda>g. map (Pair g) g) gs)) = map f (concat gs)"
  by (induction gs) (simp_all add: comp_def)

lemma kept_pieces_summary: "s \<in> set (kept_pieces a grp c) \<Longrightarrow> sub_summary s = summary c"
  by (auto simp: kept_pieces_def clip_pieces_summary whole_def Let_def split: if_splits)

lemma kept_pieces_apart:
  "sum_list (map gr_frames (rs_gear_runs (summary c))) < 2 ^ 32 \<Longrightarrow> sorted_wrt apart (kept_pieces a grp c)"
  by (simp add: kept_pieces_def clip_pieces_apart)

lemma timeline_from_rows: "c \<in> set (timeline parse ss) \<Longrightarrow> summary c \<in> set ss"
proof -
  assume c: "c \<in> set (timeline parse ss)"
  obtain u e where p: "partition_rows [] ss = (u, e)" by fastforce
  have rows: "summary ` set (timed_rows parse rows) \<subseteq> set rows" for rows
    using arg_cong [OF map_summary_timed_rows [of parse rows], of set] by auto
  have sel: "set (map (\<lambda>i. summary (cands ! i)) (select_gap_fill (map timestamp timed) (map fill_key cands))) \<subseteq> summary ` set cands"
    if "sorted (map timestamp timed)" for timed cands
    using admitted_in_range [OF that] by fastforce
  have adm: "set (map summary (admit_events timed cands)) \<subseteq> summary ` set timed \<union> summary ` set cands"
    if "sorted (map timestamp timed)" for timed cands
    using arg_cong [OF mset_map_admit [of summary timed cands], of set_mset] sel [OF that, of cands] by auto
  have "summary c \<in> set (map summary (timeline parse ss))" using c by simp
  then have "summary c \<in> set (map summary (if e = [] then sort_key timestamp (timed_rows parse u)
      else admit_events (sort_key timestamp (timed_rows parse u)) (timed_rows parse e)))"
    unfolding timeline_def Let_def p prod.case with_spans_fields .
  then have "summary c \<in> summary ` set (timed_rows parse u) \<union> summary ` set (timed_rows parse e)"
    using adm [of "sort_key timestamp (timed_rows parse u)" "timed_rows parse e"] by (auto split: if_splits)
  then show ?thesis using rows [of u] rows [of e] partition_rows_distinct [OF p] by auto
qed

lemma sub_summary_in_rows:
  assumes "\<And>i ks. mset (order i ks) = mset ks" and "x \<in> set (concat (group_summary_clips_with_clock parse order a ss))"
  shows "sub_summary x \<in> set ss"
proof -
  have "x \<in> set (kept_clips a (timeline parse ss))"
    using assms(2) unfolding mset_eq_setD [OF mset_concat_groups [of order, OF assms(1)]] .
  then obtain g c where g: "g \<in> set (time_groups (timeline parse ss))" "c \<in> set g" "x \<in> set (kept_pieces a g c)" by auto
  then have "c \<in> set (concat (time_groups (timeline parse ss)))" by auto
  then have "summary c \<in> set ss" unfolding concat_time_groups by (rule timeline_from_rows)
  with kept_pieces_summary [OF g(3)] show ?thesis by simp
qed

lemma kept_clips_apart:
  assumes "\<And>s. s \<in> set ss \<Longrightarrow> sum_list (map gr_frames (rs_gear_runs s)) < 2 ^ 32"
  shows "sorted_wrt apart (kept_clips a (timeline parse ss))"
  unfolding concat_keyed
proof (rule sorted_wrt_concat_keyed [where key = "\<lambda>x. row_key (summary (snd x))" and k = "\<lambda>s. row_key (sub_summary s)"])
  let ?xs = "concat (map (\<lambda>g. map (Pair g) g) (time_groups (timeline parse ss)))"
  show "distinct (map (\<lambda>x. row_key (summary (snd x))) ?xs)"
    using map_snd_pairs [of "\<lambda>c. row_key (summary c)" "time_groups (timeline parse ss)"] timeline_distinct [of parse ss]
    by (simp add: concat_time_groups)
  fix x
  assume x: "x \<in> set ?xs"
  then have "snd x \<in> set (concat (time_groups (timeline parse ss)))" by auto
  then have "summary (snd x) \<in> set ss" unfolding concat_time_groups by (rule timeline_from_rows)
  with assms show "sorted_wrt apart (case x of (g, c) \<Rightarrow> kept_pieces a g c)"
    by (cases x) (simp add: kept_pieces_apart)
  show "row_key (sub_summary y) = row_key (summary (snd x))" if "y \<in> set (case x of (g, c) \<Rightarrow> kept_pieces a g c)" for y
    using that kept_pieces_summary by (cases x) auto
next
  show "apart y z" if "row_key (sub_summary y) \<noteq> row_key (sub_summary z)" for y z
    using that by (auto simp: apart_def)
qed

text \<open>The sub-clips of a row with gear runs are the pieces of its clip.\<close>

lemma row_sub_clips:
  assumes "\<And>i ks. mset (order i ks) = mset ks" and "c \<in> set (timeline parse ss)" and "rs_gear_runs (summary c) \<noteq> []"
  shows "x \<in> set (concat (group_summary_clips parse order ss)) \<and> sub_summary x = summary c \<longleftrightarrow>
    x \<in> set (List.map_filter id (clip_pieces True c))"
proof
  let ?tl = "timeline parse ss"
  have gear: "kept_pieces True g c = List.map_filter id (clip_pieces True c)" if "c \<in> set g" for g
    using that assms(3) by (auto simp: kept_pieces_def list_ex_iff)
  have s: "set (concat (group_summary_clips parse order ss)) = set (kept_clips True ?tl)"
    using mset_eq_setD [OF mset_concat_groups [of order, OF assms(1)]] by (simp add: group_summary_clips_def)
  {
    assume "x \<in> set (concat (group_summary_clips parse order ss)) \<and> sub_summary x = summary c"
    then have "x \<in> set (kept_clips True ?tl) \<and> sub_summary x = summary c" unfolding s .
    then obtain g c' where g: "g \<in> set (time_groups ?tl)" "c' \<in> set g" "x \<in> set (kept_pieces True g c')"
      "sub_summary x = summary c" by auto
    then have "c' \<in> set (concat (time_groups ?tl))" by auto
    then have "c' \<in> set ?tl" unfolding concat_time_groups .
    moreover have "inj_on (\<lambda>c. row_key (summary c)) (set ?tl)" using timeline_distinct by (simp add: distinct_map)
    moreover have "summary c' = summary c" using kept_pieces_summary [OF g(3)] g(4) by simp
    ultimately have "c' = c" using assms(2) by (metis (no_types, lifting) inj_onD)
    with g gear show "x \<in> set (List.map_filter id (clip_pieces True c))" by simp
  next
    assume x: "x \<in> set (List.map_filter id (clip_pieces True c))"
    have "c \<in> set (concat (time_groups ?tl))" using assms(2) by (simp add: concat_time_groups)
    then obtain g where g: "g \<in> set (time_groups ?tl)" "c \<in> set g" by auto
    then have "x \<in> set (kept_pieces True g c)" using x gear [OF g(2)] by simp
    with g have "x \<in> set (kept_clips True ?tl)" by (simp, blast)
    with clip_pieces_summary [OF x] show "x \<in> set (concat (group_summary_clips parse order ss)) \<and> sub_summary x = summary c"
      unfolding s by simp
  }
qed

lemma expand_cong: "(\<And>r. r \<in> set rs \<Longrightarrow> f r = g r) \<Longrightarrow> expand f n rs = expand g n rs"
  by (induction rs) simp_all

lemma park_gap_labels:
  assumes "sum_list (map gr_frames runs) = tot" and "tot < 2 ^ 32" and "0 < spn" and "spn \<le> 60000"
  shows "expand (\<lambda>r. gr_gear r = gear_park \<and> park_gap_frames (gr_frames r) tot spn) gr_frames runs =
    expand (\<lambda>r. gr_gear r = gear_park \<and> 2000 * int tot \<le> int (gr_frames r) * spn) gr_frames runs"
proof (rule expand_cong)
  fix r
  assume "r \<in> set runs"
  then have le: "gr_frames r \<le> tot" using assms(1) member_le_sum_list [of "gr_frames r" "map gr_frames runs"] by simp
  have n: "nat spn \<le> 60000" using assms(4) by simp
  have "gr_frames r * nat spn \<le> 2 ^ 32 * 60000" using le assms(2) n by (intro mult_mono) simp_all
  then have "(gr_frames r * nat spn) mod 2 ^ 64 = gr_frames r * nat spn" by simp
  then have "park_gap_frames (gr_frames r) tot spn \<longleftrightarrow> 2000 * tot \<le> gr_frames r * nat spn"
    using assms(3) by (simp add: park_gap_frames_def park_gap_ms_def max_absorb1)
  also have "\<dots> \<longleftrightarrow> int (2000 * tot) \<le> int (gr_frames r * nat spn)" by (rule of_nat_le_iff [symmetric])
  also have "\<dots> \<longleftrightarrow> 2000 * int tot \<le> int (gr_frames r) * spn" using assms(3) by simp
  finally show "(gr_gear r = gear_park \<and> park_gap_frames (gr_frames r) tot spn) =
    (gr_gear r = gear_park \<and> 2000 * int tot \<le> int (gr_frames r) * spn)" by simp
qed

subsection \<open>Properties\<close>

text \<open>
  C13. Drives never share footage: whatever order the hash maps iterate in, no drive is empty, every
  sub-clip of a drive comes from a stored row, and any two sub-clips of the same file, in one drive
  or in two, occupy disjoint windows of frames.
\<close>

theorem drives_never_overlap:
  assumes "\<And>i ks. mset (order i ks) = mset ks"
    and "\<And>s. s \<in> set ss \<Longrightarrow> sum_list (map gr_frames (rs_gear_runs s)) < 2 ^ 32"
  shows "[] \<notin> set (group_summary_clips_with_clock parse order a ss) \<and>
    sub_summary ` set (concat (group_summary_clips_with_clock parse order a ss)) \<subseteq> set ss \<and>
    sorted_wrt (\<lambda>x y. rs_file (sub_summary x) \<noteq> rs_file (sub_summary y) \<or>
        sub_end x \<le> sub_start y \<or> sub_end y \<le> sub_start x)
      (concat (group_summary_clips_with_clock parse order a ss))"
proof (intro conjI)
  let ?g = "concat (group_summary_clips_with_clock parse order a ss)"
  have m: "mset (kept_clips a (timeline parse ss)) = mset ?g" using mset_concat_groups [of order, OF assms(1)] by simp
  show "[] \<notin> set (group_summary_clips_with_clock parse order a ss)" by (rule groups_nonempty [OF assms(1)])
  have "sorted_wrt apart ?g"
    by (rule sorted_wrt_mset [OF kept_clips_apart [OF assms(2)] m]) (auto simp: apart_def)
  then show "sorted_wrt (\<lambda>x y. rs_file (sub_summary x) \<noteq> rs_file (sub_summary y) \<or>
        sub_end x \<le> sub_start y \<or> sub_end y \<le> sub_start x) ?g"
    unfolding apart_def .
  show "sub_summary ` set ?g \<subseteq> set ss" using sub_summary_in_rows [of order, OF assms(1)] by blast
qed

lemma demo_timeline: "timeline demo_parse [demo_clip_row] = [nominal demo_clip_row 5000000000]"
  by code_simp

lemmas demo_clip_pieces =
  clip_pieces_def Let_def nominal_def frame_sum_def wrap_u32_def is_park_gap_def park_gap_frames_def
  park_gap_ms_def clip_duration_ms_def gear_park_def demo_row_def demo_clip_row_def

lemma demo_groups:
  "map (map (\<lambda>x. (sub_start x, sub_end x))) (group_summary_clips_with_clock demo_parse (\<lambda>_ ks. ks) True [demo_clip_row]) =
     [[(0, 10)], [(20, 30)]]"
  unfolding group_summary_clips_with_clock_def gear_groups_def demo_timeline
  by (simp add: time_groups_def split_summary_by_gear_state_def split_summary_by_external_signature_def demo_clip_pieces)

theorem drives_never_overlap_witness:
  "sorted_wrt (\<lambda>x y. rs_file (sub_summary x) \<noteq> rs_file (sub_summary y) \<or>
        sub_end x \<le> sub_start y \<or> sub_end y \<le> sub_start x)
      (concat (group_summary_clips_with_clock demo_parse (\<lambda>_ ks. ks) True [demo_clip_row])) \<and>
   map (map (\<lambda>x. (sub_start x, sub_end x))) (group_summary_clips_with_clock demo_parse (\<lambda>_ ks. ks) True [demo_clip_row]) =
     [[(0, 10)], [(20, 30)]]"
  using drives_never_overlap [of "\<lambda>_ ks. ks" "[demo_clip_row]" demo_parse True] demo_groups
  by (simp add: demo_row_def demo_clip_row_def)



end
