(* ===== verification/DriveIndex.thy ===== *)
theory DriveIndex
  imports DriveGrouping
begin

section \<open>Resolving drive ids\<close>

text \<open>
  \<^verbatim>\<open>crates/drives/src/grouper.rs\<close>, drive ids: the resolver over the groups, with its fallback to the
  clock of old releases, and the cached index that answers the same questions. \<open>stamp\<close> and
  \<open>stamp_seconds\<close> are the two time formats of \<^verbatim>\<open>chrono\<close>, with and without milliseconds. Each grouping
  pass has a hash order of its own.
\<close>

fun first_seen :: "'a list \<Rightarrow> 'a list \<Rightarrow> 'a list" where
  "first_seen seen [] = []"
| "first_seen seen (x # xs) = (if x \<in> set seen then first_seen seen xs else x # first_seen (x # seen) xs)"

definition clip_file :: "sub_clip \<Rightarrow> ustr" where
  "clip_file c = rs_file (sub_summary c)"

definition group_files :: "sub_clip list \<Rightarrow> ustr list" where
  "group_files grp = first_seen [] (map clip_file grp)"

definition starts_at :: "(ts \<Rightarrow> ustr) \<Rightarrow> ustr \<Rightarrow> sub_clip list \<Rightarrow> bool" where
  "starts_at stamp did grp = (case grp of [] \<Rightarrow> False | clip # _ \<Rightarrow> stamp (sub_timestamp clip) = did)"

definition positions :: "('a \<Rightarrow> bool) \<Rightarrow> 'a list \<Rightarrow> nat list" where
  "positions P xs = filter (\<lambda>i. P (xs ! i)) [0..<length xs]"

definition shares_frames :: "sub_clip list \<Rightarrow> sub_clip list \<Rightarrow> bool" where
  "shares_frames old_grp grp \<longleftrightarrow>
     list_ex (\<lambda>new. list_ex (\<lambda>old. clip_file old = clip_file new \<and> sub_total old = sub_total new \<and>
       sub_start old < sub_end new \<and> sub_start new < sub_end old) old_grp) grp"

definition same_members :: "sub_clip list \<Rightarrow> sub_clip list \<Rightarrow> bool" where
  "same_members old_grp grp \<longleftrightarrow>
     length old_grp = length grp \<and>
     list_all2 (\<lambda>a b. clip_file a = clip_file b \<and> sub_start a = sub_start b \<and> sub_end a = sub_end b \<and>
       sub_total a = sub_total b) old_grp grp"

definition resolve_legacy :: "(ts \<Rightarrow> ustr) \<Rightarrow> sub_clip list list \<Rightarrow> sub_clip list list \<Rightarrow> ustr \<Rightarrow> bool \<Rightarrow> nat option" where
  "resolve_legacy stamp_seconds legacy groups did exact_legacy_membership =
     (case filter (starts_at stamp_seconds did) legacy of
        [old] \<Rightarrow>
          (case positions (shares_frames old) groups of
             [index] \<Rightarrow> if exact_legacy_membership \<and> \<not> same_members old (groups ! index) then None else Some index
           | _ \<Rightarrow> None)
      | _ \<Rightarrow> None)"

definition resolve_group_index ::
    "(ustr \<Rightarrow> ts option) \<Rightarrow> (nat \<Rightarrow> ustr list \<Rightarrow> ustr list) \<Rightarrow> (ts \<Rightarrow> ustr) \<Rightarrow> (ts \<Rightarrow> ustr) \<Rightarrow>
     route_summary list \<Rightarrow> sub_clip list list \<Rightarrow> ustr \<Rightarrow> bool \<Rightarrow> nat option" where
  "resolve_group_index parse order stamp stamp_seconds summaries groups did exact_legacy_membership =
     (case parse_unsigned (2 ^ 64 - 1) did of
        Some index \<Rightarrow> if index < length groups then Some index else None
      | None \<Rightarrow>
          (case positions (starts_at stamp did) groups of
             [index] \<Rightarrow> Some index
           | _ # _ \<Rightarrow> None
           | [] \<Rightarrow> resolve_legacy stamp_seconds (group_summary_clips_with_clock parse order False summaries)
                     groups did exact_legacy_membership))"

definition find_drive_files ::
    "(ustr \<Rightarrow> ts option) \<Rightarrow> (nat \<Rightarrow> ustr list \<Rightarrow> ustr list) \<Rightarrow> (nat \<Rightarrow> ustr list \<Rightarrow> ustr list) \<Rightarrow>
     (ts \<Rightarrow> ustr) \<Rightarrow> (ts \<Rightarrow> ustr) \<Rightarrow> route_summary list \<Rightarrow> ustr \<Rightarrow> (nat \<times> ustr list) option" where
  "find_drive_files parse order order_legacy stamp stamp_seconds summaries did =
     (let groups = group_summary_clips parse order summaries
      in map_option (\<lambda>index. (index, group_files (groups ! index)))
           (resolve_group_index parse order_legacy stamp stamp_seconds summaries groups did True))"

definition find_drive_start_time ::
    "(ustr \<Rightarrow> ts option) \<Rightarrow> (nat \<Rightarrow> ustr list \<Rightarrow> ustr list) \<Rightarrow> (nat \<Rightarrow> ustr list \<Rightarrow> ustr list) \<Rightarrow>
     (ts \<Rightarrow> ustr) \<Rightarrow> (ts \<Rightarrow> ustr) \<Rightarrow> route_summary list \<Rightarrow> ustr \<Rightarrow> ustr option" where
  "find_drive_start_time parse order order_legacy stamp stamp_seconds summaries did =
     (let groups = group_summary_clips parse order summaries
      in case resolve_group_index parse order_legacy stamp stamp_seconds summaries groups did True of
           None \<Rightarrow> None
         | Some index \<Rightarrow> (case groups ! index of [] \<Rightarrow> None | clip # _ \<Rightarrow> Some (stamp (sub_timestamp clip))))"

subsection \<open>Windows of drives\<close>

record clip_window = win_file :: ustr  win_start :: nat  win_end :: nat  win_total :: nat

definition window_of :: "sub_clip \<Rightarrow> clip_window" where
  "window_of c = \<lparr>win_file = clip_file c, win_start = sub_start c, win_end = sub_end c, win_total = sub_total c\<rparr>"

definition keyed_groups :: "(ts \<Rightarrow> ustr) \<Rightarrow> (sub_clip list \<Rightarrow> 'a) \<Rightarrow> sub_clip list list \<Rightarrow> (ustr \<times> 'a) list" where
  "keyed_groups stamp f =
     List.map_filter (\<lambda>grp. case grp of [] \<Rightarrow> None | clip # _ \<Rightarrow> Some (stamp (sub_timestamp clip), f grp))"

definition drive_key_clip_windows ::
    "(ustr \<Rightarrow> ts option) \<Rightarrow> (nat \<Rightarrow> ustr list \<Rightarrow> ustr list) \<Rightarrow> (ts \<Rightarrow> ustr) \<Rightarrow> route_summary list \<Rightarrow>
     (ustr \<times> clip_window list) list" where
  "drive_key_clip_windows parse order stamp summaries =
     keyed_groups stamp (map window_of) (group_summary_clips parse order summaries)"

definition drive_key_file_map ::
    "(ustr \<Rightarrow> ts option) \<Rightarrow> (nat \<Rightarrow> ustr list \<Rightarrow> ustr list) \<Rightarrow> (ts \<Rightarrow> ustr) \<Rightarrow> route_summary list \<Rightarrow>
     (ustr \<times> ustr list) list" where
  "drive_key_file_map parse order stamp summaries =
     keyed_groups stamp group_files (group_summary_clips parse order summaries)"

subsection \<open>The cached index\<close>

record indexed_clip =
  ic_file :: ustr
  ic_timestamp :: ts
  ic_start :: nat
  ic_end :: nat
  ic_total :: nat
  ic_span :: int
  ic_fraction :: rat

record indexed_drive = drive_key :: ustr  drive_clips :: "indexed_clip list"

datatype indexed_id = Found nat | Missing | NeedsLegacy

definition index_clip :: "sub_clip \<Rightarrow> indexed_clip" where
  "index_clip c = \<lparr>ic_file = clip_file c, ic_timestamp = sub_timestamp c, ic_start = sub_start c,
     ic_end = sub_end c, ic_total = sub_total c, ic_span = sub_span c, ic_fraction = fraction c\<rparr>"

definition index_build ::
    "(ustr \<Rightarrow> ts option) \<Rightarrow> (nat \<Rightarrow> ustr list \<Rightarrow> ustr list) \<Rightarrow> (ts \<Rightarrow> ustr) \<Rightarrow> route_summary list \<Rightarrow> indexed_drive list" where
  "index_build parse order stamp summaries =
     List.map_filter
       (\<lambda>grp. case grp of
          [] \<Rightarrow> None
        | first # _ \<Rightarrow> Some \<lparr>drive_key = stamp (sub_timestamp first), drive_clips = map index_clip grp\<rparr>)
       (group_summary_clips parse order summaries)"

definition index_resolve :: "indexed_drive list \<Rightarrow> ustr \<Rightarrow> indexed_id" where
  "index_resolve drives did =
     (case parse_unsigned (2 ^ 64 - 1) did of
        Some index \<Rightarrow> if index < length drives then Found index else Missing
      | None \<Rightarrow>
          (case positions (\<lambda>d. drive_key d = did) drives of
             [index] \<Rightarrow> Found index
           | _ # _ \<Rightarrow> Missing
           | [] \<Rightarrow> NeedsLegacy))"

definition index_files :: "indexed_drive list \<Rightarrow> nat \<Rightarrow> ustr list option" where
  "index_files drives index =
     (if index < length drives then Some (first_seen [] (map ic_file (drive_clips (drives ! index)))) else None)"

definition start_key :: "indexed_drive list \<Rightarrow> nat \<Rightarrow> ustr option" where
  "start_key drives index = (if index < length drives then Some (drive_key (drives ! index)) else None)"

text \<open>The clips of a drive rebuilt from the rows read again; a later row of the same file wins.\<close>

definition rebuild_clip :: "route_summary list \<Rightarrow> indexed_clip \<Rightarrow> sub_clip option" where
  "rebuild_clip summaries c =
     map_option (\<lambda>s. \<lparr>sub_summary = s, sub_timestamp = ic_timestamp c, sub_start = ic_start c, sub_span = ic_span c,
                      sub_end = ic_end c, sub_total = ic_total c, fraction = ic_fraction c\<rparr>)
       (map_of (rev (map (\<lambda>s. (rs_file s, s)) summaries)) (ic_file c))"

definition selection_clips :: "indexed_drive list \<Rightarrow> nat \<Rightarrow> route_summary list \<Rightarrow> sub_clip list option" where
  "selection_clips drives index summaries =
     (if index < length drives then those (map (rebuild_clip summaries) (drive_clips (drives ! index))) else None)"

section \<open>Lemmas\<close>

lemma map_filter_total: "(\<And>x. x \<in> set xs \<Longrightarrow> f x = Some (g x)) \<Longrightarrow> List.map_filter f xs = map g xs"
  by (induction xs) (simp_all add: List.map_filter_simps)

lemma index_build_map:
  assumes "\<And>i ks. mset (order i ks) = mset ks"
  shows "index_build parse order stamp ss =
    map (\<lambda>grp. \<lparr>drive_key = stamp (sub_timestamp (hd grp)), drive_clips = map index_clip grp\<rparr>)
      (group_summary_clips parse order ss)"
  unfolding index_build_def
proof (rule map_filter_total)
  fix grp
  assume "grp \<in> set (group_summary_clips parse order ss)"
  then have "grp \<noteq> []" using groups_nonempty [of order parse True ss, OF assms] by (auto simp: group_summary_clips_def)
  then show "(case grp of [] \<Rightarrow> None | first # _ \<Rightarrow> Some \<lparr>drive_key = stamp (sub_timestamp first), drive_clips = map index_clip grp\<rparr>) =
      Some \<lparr>drive_key = stamp (sub_timestamp (hd grp)), drive_clips = map index_clip grp\<rparr>"
    by (cases grp) simp_all
qed

lemma positions_cong: "(\<And>x. x \<in> set xs \<Longrightarrow> P (f x) = Q x) \<Longrightarrow> positions P (map f xs) = positions Q xs"
  by (auto simp: positions_def intro!: filter_cong)

lemma positions_starts:
  assumes "\<And>i ks. mset (order i ks) = mset ks"
  shows "positions (\<lambda>d. drive_key d = did) (index_build parse order stamp ss) =
    positions (starts_at stamp did) (group_summary_clips parse order ss)"
  unfolding index_build_map [OF assms]
proof (rule positions_cong)
  fix grp
  assume "grp \<in> set (group_summary_clips parse order ss)"
  then have "grp \<noteq> []" using groups_nonempty [of order parse True ss, OF assms] by (auto simp: group_summary_clips_def)
  then show "(drive_key \<lparr>drive_key = stamp (sub_timestamp (hd grp)), drive_clips = map index_clip grp\<rparr> = did) = starts_at stamp did grp"
    by (cases grp) (simp_all add: starts_at_def)
qed

lemma map_of_rev_distinct:
  assumes "distinct (map fst kvs)" and "(k, v) \<in> set kvs"
  shows "map_of (rev kvs) k = Some v"
  using assms by (simp add: rev_map [symmetric])

lemma rebuild_index_clip:
  assumes "distinct (map rs_file ss)" and "sub_summary c \<in> set ss"
  shows "rebuild_clip ss (index_clip c) = Some c"
proof -
  have "map_of (rev (map (\<lambda>s. (rs_file s, s)) ss)) (clip_file c) = Some (sub_summary c)"
    by (rule map_of_rev_distinct) (use assms in \<open>auto simp: comp_def clip_file_def\<close>)
  then show ?thesis by (simp add: rebuild_clip_def index_clip_def)
qed

lemma those_map_Some: "(\<And>x. x \<in> set xs \<Longrightarrow> f x = Some (g x)) \<Longrightarrow> those (map f xs) = Some (map g xs)"
  by (induction xs) simp_all

lemma selection_clips_group:
  assumes "\<And>i ks. mset (order i ks) = mset ks" and "distinct (map rs_file ss)"
    and "index < length (group_summary_clips parse order ss)"
  shows "selection_clips (index_build parse order stamp ss) index ss = Some (group_summary_clips parse order ss ! index)"
proof -
  let ?grp = "group_summary_clips parse order ss ! index"
  have "rebuild_clip ss (index_clip c) = Some c" if "c \<in> set ?grp" for c
  proof (rule rebuild_index_clip [OF assms(2)])
    show "sub_summary c \<in> set ss"
      by (rule sub_summary_in_rows [of order _ parse True ss, OF assms(1)])
        (use that assms(3) nth_mem in \<open>auto simp: group_summary_clips_def\<close>)
  qed
  then have "those (map (rebuild_clip ss) (map index_clip ?grp)) = Some (map (\<lambda>c. c) ?grp)"
    unfolding map_map by (intro those_map_Some) simp
  with assms(3) show ?thesis by (simp add: selection_clips_def index_build_map [OF assms(1)])
qed

lemma index_resolve_cases:
  fixes order parse stamp ss
  assumes "\<And>i ks. mset (order i ks) = mset ks"
  defines "ix \<equiv> index_build parse order stamp ss" and "gs \<equiv> group_summary_clips parse order ss"
  shows "index_resolve ix did = Found index \<Longrightarrow>
      resolve_group_index parse order_legacy stamp stamp_seconds ss gs did b = Some index \<and> index < length gs"
    and "index_resolve ix did = Missing \<Longrightarrow>
      resolve_group_index parse order_legacy stamp stamp_seconds ss gs did b = None"
    and "index_resolve ix did = NeedsLegacy \<Longrightarrow>
      parse_unsigned (2 ^ 64 - 1) did = None \<and> \<not> list_ex (starts_at stamp did) gs"
proof -
  have len: "length ix = length gs" by (simp add: ix_def gs_def index_build_map [OF assms(1)])
  have pos: "i < length gs" if "i \<in> set (positions (starts_at stamp did) gs)" for i
    using that by (simp add: positions_def)
  have none: "\<not> list_ex (starts_at stamp did) gs" if "positions (starts_at stamp did) gs = []"
    using that by (auto simp: positions_def filter_empty_conv list_ex_iff in_set_conv_nth)
  have p: "positions (\<lambda>d. drive_key d = did) ix = positions (starts_at stamp did) gs"
    unfolding ix_def gs_def by (rule positions_starts [OF assms(1)])
  show "index_resolve ix did = Found index \<Longrightarrow>
      resolve_group_index parse order_legacy stamp stamp_seconds ss gs did b = Some index \<and> index < length gs"
    using pos by (auto simp: index_resolve_def p len resolve_group_index_def split: option.splits list.splits if_splits)
  show "index_resolve ix did = Missing \<Longrightarrow>
      resolve_group_index parse order_legacy stamp stamp_seconds ss gs did b = None"
    by (auto simp: index_resolve_def p len resolve_group_index_def split: option.splits list.splits if_splits)
  show "index_resolve ix did = NeedsLegacy \<Longrightarrow>
      parse_unsigned (2 ^ 64 - 1) did = None \<and> \<not> list_ex (starts_at stamp did) gs"
    using none by (auto simp: index_resolve_def p len split: option.splits list.splits if_splits)
qed

section \<open>Properties\<close>



subsection \<open>Numeric ids and the order of hash maps\<close>

text \<open>Two imported clips of different trips in the same minute.\<close>

definition demo_trip :: "string \<Rightarrow> string \<Rightarrow> route_summary" where
  "demo_trip name sig = demo_row name [\<lparr>gr_gear = 1, gr_frames = 30\<rparr>] (Some (lit sig))"

abbreviation demo_trips :: "route_summary list" where
  "demo_trips \<equiv> [demo_trip ''2026-01-01_00-00-05-a.mp4'' ''a'', demo_trip ''2026-01-01_00-00-06-b.mp4'' ''b'']"

lemma demo_trips_timeline:
  "timeline demo_parse demo_trips =
     [\<lparr>summary = demo_trip ''2026-01-01_00-00-05-a.mp4'' ''a'', timestamp = 5000000000, clip_span = 1000\<rparr>,
      \<lparr>summary = demo_trip ''2026-01-01_00-00-06-b.mp4'' ''b'', timestamp = 6000000000, clip_span = 60000\<rparr>]"
  by code_simp

lemma demo_trips_groups:
  "map (map clip_file) (group_summary_clips demo_parse order demo_trips) =
     map (\<lambda>k. if k = lit ''a'' then [lit ''2026-01-01_00-00-05-a.mp4''] else [lit ''2026-01-01_00-00-06-b.mp4''])
       (order 0 [lit ''a'', lit ''b''])"
  if "set (order 0 [lit ''a'', lit ''b'']) \<subseteq> {lit ''a'', lit ''b''}"
proof -
  show ?thesis
    using that unfolding group_summary_clips_def group_summary_clips_with_clock_def gear_groups_def demo_trips_timeline
    by (auto simp add: time_groups_def split_summary_by_gear_state_def split_summary_by_external_signature_def demo_clip_pieces
      demo_trip_def signature_def clip_file_def num_milliseconds_def drive_gap_ms_def List.map_filter_simps)
qed

text \<open>
  A numeric drive id does not name a drive: with two imported trips in one stretch of recording, the
  drive a grouping pass lists under number 0 and the drive the index of another pass, over the same
  rows, resolves 0 to have different files, because the trips are listed in the order of a hash map and
  each map has an order of its own.
\<close>

theorem numeric_ids_follow_hash_order:
  "\<exists>order order'. (\<forall>i ks. mset (order i ks) = mset ks) \<and> (\<forall>i ks. mset (order' i ks) = mset ks) \<and>
     map clip_file (group_summary_clips demo_parse order demo_trips ! 0) = [lit ''2026-01-01_00-00-05-a.mp4''] \<and>
     index_resolve (index_build demo_parse order' show_int demo_trips) (lit ''0'') = Found 0 \<and>
     index_files (index_build demo_parse order' show_int demo_trips) 0 = Some [lit ''2026-01-01_00-00-06-b.mp4'']"
proof -
  let ?o = "\<lambda>(_ :: nat) ks. ks" and ?r = "\<lambda>(_ :: nat) ks. rev ks"
  have a: "map (map clip_file) (group_summary_clips demo_parse ?o demo_trips) =
      [[lit ''2026-01-01_00-00-05-a.mp4''], [lit ''2026-01-01_00-00-06-b.mp4'']]"
    using demo_trips_groups [of ?o] by simp
  have b: "map (map clip_file) (group_summary_clips demo_parse ?r demo_trips) =
      [[lit ''2026-01-01_00-00-06-b.mp4''], [lit ''2026-01-01_00-00-05-a.mp4'']]"
    using demo_trips_groups [of ?r] by simp
  have n: "length (group_summary_clips demo_parse ?o demo_trips) = 2" "length (group_summary_clips demo_parse ?r demo_trips) = 2"
    using arg_cong [OF a, of length] arg_cong [OF b, of length] by simp_all
  have "map clip_file (group_summary_clips demo_parse ?o demo_trips ! 0) = [lit ''2026-01-01_00-00-05-a.mp4'']"
    using arg_cong [OF a, of "\<lambda>xs. xs ! 0"] n(1) by simp
  moreover have f: "map clip_file (group_summary_clips demo_parse ?r demo_trips ! 0) = [lit ''2026-01-01_00-00-06-b.mp4'']"
    using arg_cong [OF b, of "\<lambda>xs. xs ! 0"] n(2) by simp
  have "index_files (index_build demo_parse ?r show_int demo_trips) 0 = Some [lit ''2026-01-01_00-00-06-b.mp4'']"
    using f n(2) by (simp add: index_files_def index_build_map comp_def index_clip_def)
  moreover have "parse_unsigned (2 ^ 64 - 1) (lit ''0'') = Some 0"
    by (simp add: parse_unsigned_def parse_digits_def is_digit_def)
  then have "index_resolve (index_build demo_parse ?r show_int demo_trips) (lit ''0'') = Found 0"
    using n(2) by (simp add: index_resolve_def index_build_map)
  ultimately show ?thesis by (intro exI [of _ ?o] exI [of _ ?r]) simp
qed

end
