(* ===== verification/DriveOverview.thy ===== *)
theory DriveOverview
  imports DriveGrouping "HOL-Library.List_Lexorder"
begin

section \<open>The overview of all drives\<close>

text \<open>
  \<^verbatim>\<open>crates/drives/src/grouper.rs\<close> and \<^verbatim>\<open>db.rs\<close>: the map of all drives, built in two ways. The in-memory
  path groups complete routes, slices their points at park gaps and thins them out. The streaming path
  plans the same drives from reduced rows, then reads the points of a bounded number of drives at a
  time. The distance \<^verbatim>\<open>geodesic_m\<close>, made of trigonometric functions, is a parameter \<open>geo\<close>; the calendar
  (\<open>parse\<close>, \<open>stamp\<close>) and the order of hash maps (\<open>order\<close>) are parameters as in \<open>DriveGrouping\<close>.
\<close>

type_synonym gps_point = "f64 \<times> f64"
type_synonym geodesic = "f64 \<Rightarrow> f64 \<Rightarrow> f64 \<Rightarrow> f64 \<Rightarrow> f64"

text \<open>What the vehicle reported during the clip; the grouper copies it and never reads it.\<close>

record rollup =
  battery_pct_start :: "f64 option"
  battery_pct_end :: "f64 option"
  interior_temp_min :: "f64 option"
  interior_temp_max :: "f64 option"
  exterior_temp_avg :: "f64 option"
  hvac_runtime_s :: "int option"
  tire_psi :: "f64 option list"
  odometer_mi_start :: "f64 option"
  odometer_mi_end :: "f64 option"
  location_name_start :: "ustr option"
  location_name_end :: "ustr option"
  temp_samples :: "(int \<times> f32 option \<times> f32 option) list"

record route =
  r_file :: ustr
  r_date :: ustr
  r_points :: "gps_point list"
  r_gear_states :: "u8 list"
  r_autopilot_states :: "u8 list"
  r_speeds :: "f32 list"
  r_accel_positions :: "f32 list"
  r_park_count :: nat
  r_frame_count :: nat
  r_gear_runs :: "gear_run list"
  r_flag_runs :: "flag_run list"
  r_ap_runs :: "ap_run list"
  r_accel_x :: "f32 list"
  r_accel_y :: "f32 list"
  r_source :: "ustr option"
  r_signature :: "ustr option"
  r_tessie_percent :: "f64 option"
  r_rollup :: rollup

definition empty_rollup :: rollup where
  "empty_rollup = \<lparr>battery_pct_start = None, battery_pct_end = None, interior_temp_min = None,
     interior_temp_max = None, exterior_temp_avg = None, hvac_runtime_s = None,
     tire_psi = [None, None, None, None], odometer_mi_start = None, odometer_mi_end = None,
     location_name_start = None, location_name_end = None, temp_samples = []\<rparr>"

definition empty_route :: route where
  "empty_route = \<lparr>r_file = [], r_date = [], r_points = [], r_gear_states = [], r_autopilot_states = [],
     r_speeds = [], r_accel_positions = [], r_park_count = 0, r_frame_count = 0, r_gear_runs = [],
     r_flag_runs = [], r_ap_runs = [], r_accel_x = [], r_accel_y = [], r_source = None, r_signature = None,
     r_tessie_percent = None, r_rollup = empty_rollup\<rparr>"

record timed_route =
  tr_route :: route
  tr_timestamp :: ts
  tr_span :: int

subsection \<open>Steps shared by both paths\<close>

text \<open>The first element of each path: those of event folders apart.\<close>

fun partition_files :: "('a \<Rightarrow> ustr) \<Rightarrow> ustr list \<Rightarrow> 'a list \<Rightarrow> 'a list \<times> 'a list" where
  "partition_files path seen [] = ([], [])"
| "partition_files path seen (r # rs) =
     (let norm = norm_path (path r)
      in if norm \<in> set seen then partition_files path seen rs
         else let (unique, events) = partition_files path (norm # seen) rs
              in if is_event_folder_path (path r) then (unique, r # events) else (r # unique, events))"

fun gap_split :: "('a \<Rightarrow> ts) \<Rightarrow> 'a list \<Rightarrow> 'a list \<Rightarrow> 'a list list" where
  "gap_split time current [] = (if current = [] then [] else [current])"
| "gap_split time current (t # ts) =
     (if num_milliseconds (time t - time (last current)) > drive_gap_ms
      then current # gap_split time [t] ts else gap_split time (current @ [t]) ts)"

definition gap_groups :: "('a \<Rightarrow> ts) \<Rightarrow> 'a list \<Rightarrow> 'a list list" where
  "gap_groups time timed = (case timed of [] \<Rightarrow> [] | t # ts \<Rightarrow> gap_split time [t] ts)"

definition split_by_signature :: "('a \<Rightarrow> ustr option) \<Rightarrow> (ustr list \<Rightarrow> ustr list) \<Rightarrow> 'a list \<Rightarrow> 'a list list" where
  "split_by_signature sig order grp =
     (if length grp \<le> 1 then [grp]
      else if \<not> list_ex (\<lambda>c. sig c \<noteq> None) grp then [grp]
      else let no_sig = filter (\<lambda>c. sig c = None) grp
           in (if no_sig = [] then [] else [no_sig]) @
              map (\<lambda>k. filter (\<lambda>c. sig c = Some k) grp) (order (remdups (List.map_filter sig grp))))"

definition mostly_parked_legacy_core :: "nat \<Rightarrow> nat \<Rightarrow> nat \<Rightarrow> nat \<Rightarrow> bool" where
  "mostly_parked_legacy_core park_count frame_count gear_park_count gear_states_len =
     (if frame_count > 0 then fl (of_nat park_count / of_nat frame_count) > 1 / 2
      else if gear_states_len = 0 then False
      else gear_park_count > gear_states_len div 2)"

definition speeds_driving :: "f32 list \<Rightarrow> bool" where
  "speeds_driving speeds = list_ex above_crawl speeds"

definition valid_point :: "gps_point \<Rightarrow> bool" where
  "valid_point p \<longleftrightarrow> \<not> (f64_abs_lt (fst p) 1 \<and> f64_abs_lt (snd p) 1)"

definition max_from_median_m :: rat where "max_from_median_m = 1000000"
definition max_jump_m :: rat where "max_jump_m = 5000"

definition median_cluster :: "geodesic \<Rightarrow> gps_point list \<Rightarrow> gps_point list" where
  "median_cluster geo pts =
     (if length pts > 2
      then let q1 = length pts div 4; q3 = length pts * 3 div 4; count = q3 - q1 + 1;
               mid = take (q3 + 1 - q1) (drop q1 pts);
               med_lat = f64_div_count (foldl f64_add (Finite 0) (map fst mid)) count;
               med_lng = f64_div_count (foldl f64_add (Finite 0) (map snd mid)) count
           in filter (\<lambda>p. f64_le (geo (fst p) (snd p) med_lat med_lng) max_from_median_m) pts
      else pts)"

definition far_apart :: "geodesic \<Rightarrow> gps_point \<Rightarrow> gps_point \<Rightarrow> bool" where
  "far_apart geo p q = f64_gt (geo (fst p) (snd p) (fst q) (snd q)) max_jump_m"

definition is_jump :: "geodesic \<Rightarrow> gps_point list \<Rightarrow> nat \<Rightarrow> bool" where
  "is_jump geo pts i =
     (let has_prev = i > 0; has_next = i < length pts - 1;
          far_from_prev = (has_prev \<and> far_apart geo (pts ! (i - 1)) (pts ! i));
          far_from_next = (has_next \<and> far_apart geo (pts ! i) (pts ! (i + 1)))
      in (has_prev \<and> has_next \<and> far_from_prev \<and> far_from_next) \<or>
         (\<not> has_prev \<and> far_from_next) \<or> (\<not> has_next \<and> far_from_prev))"

definition overview_filter_points :: "geodesic \<Rightarrow> gps_point list \<Rightarrow> gps_point list" where
  "overview_filter_points geo pts =
     (let pts' = median_cluster geo pts
      in if length pts' > 2 then map (\<lambda>i. pts' ! i) (filter (\<lambda>i. \<not> is_jump geo pts' i) [0..<length pts']) else pts')"

definition downsample_index :: "nat \<Rightarrow> nat \<Rightarrow> nat \<Rightarrow> nat" where
  "downsample_index n max_points i = nat \<lfloor>fl (of_nat i * fl (of_nat n / of_nat max_points))\<rfloor>"

definition downsample :: "'a list \<Rightarrow> nat \<Rightarrow> 'a list" where
  "downsample points max_points =
     (if length points \<le> max_points then points
      else map (\<lambda>i. points ! downsample_index (length points) max_points i) [0..<max_points] @ [last points])"

record route_overview =
  ov_id :: int
  ov_points :: "gps_point list"
  ov_source :: "ustr option"
  ov_start_time :: ustr

subsection \<open>The in-memory path\<close>

definition route_has_driving :: "route \<Rightarrow> bool" where
  "route_has_driving r =
     telemetry_has_driving (r_gear_runs r) (r_gear_states r) (r_speeds r) (r_park_count r) (r_frame_count r)"

definition timed_routes :: "(ustr \<Rightarrow> ts option) \<Rightarrow> route list \<Rightarrow> timed_route list" where
  "timed_routes parse = List.map_filter (\<lambda>r. map_option
     (\<lambda>t. \<lparr>tr_route = r, tr_timestamp = t, tr_span = clip_duration_ms\<rparr>) (parse_clip_timestamp parse (r_file r)))"

definition route_fill_key :: "timed_route \<Rightarrow> gap_fill_candidate" where
  "route_fill_key c = \<lparr>cand_ts = tr_timestamp c, cand_file = r_file (tr_route c),
     driving = Some (route_has_driving (tr_route c)),
     gear_driving = telemetry_gear_driving (r_gear_runs (tr_route c)) []\<rparr>"

definition admit_routes :: "timed_route list \<Rightarrow> timed_route list \<Rightarrow> timed_route list" where
  "admit_routes timed cands =
     (let admitted = select_gap_fill (map tr_timestamp timed) (map route_fill_key cands)
      in if admitted = [] then timed
         else sort_key tr_timestamp (timed @ map (\<lambda>i. cands ! i) admitted))"

definition route_spans :: "timed_route list \<Rightarrow> timed_route list" where
  "route_spans timed =
     map2 (\<lambda>t spn. t\<lparr>tr_span := spn\<rparr>) timed
       (clip_spans (map (\<lambda>t. (tr_timestamp t, bounds_clip_span (r_source (tr_route t)) (r_file (tr_route t)))) timed))"

definition route_timeline :: "(ustr \<Rightarrow> ts option) \<Rightarrow> route list \<Rightarrow> timed_route list" where
  "route_timeline parse routes =
     (let (unique, events) = partition_files r_file [] routes;
          timed = sort_key tr_timestamp (timed_routes parse unique)
      in route_spans (if events = [] then timed else admit_routes timed (timed_routes parse events)))"

record clip_segment =
  cs_route :: timed_route
  cs_parked :: bool

text \<open>A column that is shorter than the points is dropped, else sliced with them.\<close>

definition slice :: "nat \<Rightarrow> nat \<Rightarrow> 'a list \<Rightarrow> 'a list" where
  "slice a b xs = take (b - a) (drop a xs)"

definition slice_if :: "nat \<Rightarrow> nat \<Rightarrow> 'a list \<Rightarrow> 'a list" where
  "slice_if a b xs = (if length xs \<ge> b then slice a b xs else [])"

definition segment_route :: "timed_route \<Rightarrow> planned_seg \<Rightarrow> timed_route" where
  "segment_route clip seg =
     (let r = tr_route clip; a = range_start seg; b = range_end seg
      in \<lparr>tr_route = r\<lparr>r_points := slice a b (r_points r), r_gear_states := slice_if a b (r_gear_states r),
            r_autopilot_states := slice_if a b (r_autopilot_states r), r_speeds := slice_if a b (r_speeds r),
            r_accel_positions := slice_if a b (r_accel_positions r), r_park_count := 0, r_frame_count := 0,
            r_gear_runs := [], r_accel_x := slice_if a b (r_accel_x r), r_accel_y := slice_if a b (r_accel_y r)\<rparr>,
          tr_timestamp = tr_timestamp clip + 1000000 * seg_offset_ms seg, tr_span = seg_span_ms seg\<rparr>)"

definition split_clip_at_park_gaps :: "timed_route \<Rightarrow> clip_segment list" where
  "split_clip_at_park_gaps clip =
     (case plan_clip_at_park_gaps (r_gear_runs (tr_route clip)) (length (r_points (tr_route clip))) (tr_span clip) of
        None \<Rightarrow> [\<lparr>cs_route = clip, cs_parked = False\<rparr>]
      | Some plan \<Rightarrow> map (\<lambda>seg.
          if parked seg
          then \<lparr>cs_route = \<lparr>tr_route = empty_route, tr_timestamp = tr_timestamp clip, tr_span = 0\<rparr>, cs_parked = True\<rparr>
          else \<lparr>cs_route = segment_route clip seg, cs_parked = False\<rparr>) plan)"

text \<open>What a clip gives to its group: routes, and \<open>None\<close> where it closes the current drive.\<close>

definition route_pieces :: "timed_route \<Rightarrow> timed_route option list" where
  "route_pieces clip =
     (if r_gear_runs (tr_route clip) = [] then [Some clip]
      else concat (map (\<lambda>seg. if cs_parked seg then [None]
                           else if r_points (tr_route (cs_route seg)) \<noteq> [] then [Some (cs_route seg)] else [])
             (split_clip_at_park_gaps clip)))"

definition clip_is_mostly_parked_legacy :: "timed_route \<Rightarrow> bool" where
  "clip_is_mostly_parked_legacy clip =
     mostly_parked_legacy_core (r_park_count (tr_route clip)) (r_frame_count (tr_route clip))
       (length (filter (\<lambda>g. g = gear_park) (r_gear_states (tr_route clip)))) (length (r_gear_states (tr_route clip)))"

definition split_by_gear_state_legacy :: "timed_route list \<Rightarrow> timed_route list list" where
  "split_by_gear_state_legacy grp =
     (if length grp \<le> 1 then [grp]
      else if \<not> list_ex (\<lambda>c. r_gear_states (tr_route c) \<noteq> []) grp then [grp]
      else split_pieces [] (map (\<lambda>c. if clip_is_mostly_parked_legacy c then None else Some c) grp))"

definition split_by_gear_state :: "timed_route list \<Rightarrow> timed_route list list" where
  "split_by_gear_state grp =
     (if grp = [] then []
      else if \<not> list_ex (\<lambda>c. r_gear_runs (tr_route c) \<noteq> []) grp then split_by_gear_state_legacy grp
      else let result = split_pieces [] (concat (map route_pieces grp))
           in if result = [] then [grp] else result)"

definition split_by_external_signature :: "(ustr list \<Rightarrow> ustr list) \<Rightarrow> timed_route list \<Rightarrow> timed_route list list" where
  "split_by_external_signature = split_by_signature (\<lambda>c. r_signature (tr_route c))"

definition group_clips ::
    "(ustr \<Rightarrow> ts option) \<Rightarrow> (nat \<Rightarrow> ustr list \<Rightarrow> ustr list) \<Rightarrow> route list \<Rightarrow> timed_route list list" where
  "group_clips parse order routes =
     concat (map (\<lambda>(i, g). split_by_external_signature (order i) g)
       (enumerate 0 (concat (map split_by_gear_state (gap_groups tr_timestamp (route_timeline parse routes))))))"

definition clips_overview :: "geodesic \<Rightarrow> (ts \<Rightarrow> ustr) \<Rightarrow> nat \<Rightarrow> nat \<times> timed_route list \<Rightarrow> route_overview" where
  "clips_overview geo stamp max_points =
     (\<lambda>(i, clips).
        \<lparr>ov_id = wrap_i32 (int i),
         ov_points = downsample (overview_filter_points geo
           (filter valid_point (concat (map (\<lambda>c. r_points (tr_route c)) clips)))) max_points,
         ov_source = (case clips of [] \<Rightarrow> None | c # _ \<Rightarrow> r_source (tr_route c)),
         ov_start_time = (case clips of [] \<Rightarrow> [] | c # _ \<Rightarrow> stamp (tr_timestamp c))\<rparr>)"

definition group_routes_overview ::
    "geodesic \<Rightarrow> (ts \<Rightarrow> ustr) \<Rightarrow> (ustr \<Rightarrow> ts option) \<Rightarrow> (nat \<Rightarrow> ustr list \<Rightarrow> ustr list) \<Rightarrow>
      route list \<Rightarrow> nat \<Rightarrow> route_overview list" where
  "group_routes_overview geo stamp parse order routes max_points =
     map (clips_overview geo stamp max_points) (enumerate 0 (group_clips parse order routes))"

definition route_overviews ::
    "geodesic \<Rightarrow> (ts \<Rightarrow> ustr) \<Rightarrow> (ustr \<Rightarrow> ts option) \<Rightarrow> (nat \<Rightarrow> ustr list \<Rightarrow> ustr list) \<Rightarrow>
      route list \<Rightarrow> nat \<Rightarrow> route_overview list" where
  "route_overviews = group_routes_overview"

subsection \<open>Reduced rows\<close>

record overview_meta =
  om_file :: ustr
  n_points :: nat
  om_gear_runs :: "gear_run list"
  gear_states_len :: nat
  gear_states_non_park :: bool
  gear_states_park_count :: nat
  om_park_count :: nat
  om_frame_count :: nat
  om_speeds_driving :: bool
  om_source :: "ustr option"
  om_signature :: "ustr option"

text \<open>A stored row: the route and the column \<^verbatim>\<open>point_count\<close>.\<close>

record stored_route =
  row_route :: route
  point_count :: int

definition is_event_folder_route :: "ustr \<Rightarrow> bool" where
  "is_event_folder_route f =
     list_ex (\<lambda>prefix. map ascii_lower (take (length prefix) f) = map ascii_lower prefix)
       [lit ''SavedClips/'', lit ''SentryClips/'', lit ''SavedClips'' @ [92], lit ''SentryClips'' @ [92]]"

definition overview_meta_of :: "stored_route \<Rightarrow> overview_meta" where
  "overview_meta_of row =
     (let r = row_route row
      in \<lparr>om_file = r_file r, n_points = nat (max 0 (point_count row)), om_gear_runs = r_gear_runs r,
          gear_states_len = length (r_gear_states r),
          gear_states_non_park = list_ex (\<lambda>g. g \<noteq> gear_park) (r_gear_states r),
          gear_states_park_count = length (filter (\<lambda>g. g = gear_park) (r_gear_states r)),
          om_park_count = r_park_count r, om_frame_count = r_frame_count r,
          om_speeds_driving = (is_event_folder_route (r_file r) \<and> speeds_driving (r_speeds r)),
          om_source = r_source r, om_signature = r_signature r\<rparr>)"

definition select_overview_metas :: "stored_route list \<Rightarrow> overview_meta list" where
  "select_overview_metas rows = map overview_meta_of rows"

definition meta_driving :: "overview_meta \<Rightarrow> bool" where
  "meta_driving m =
     telemetry_has_driving_core (list_ex (\<lambda>g. gr_gear g \<noteq> gear_park) (om_gear_runs m)) (om_gear_runs m = [])
       (gear_states_non_park m) (gear_states_len m = 0) (om_park_count m) (om_frame_count m) (om_speeds_driving m)"

subsection \<open>The planner\<close>

record planned_fragment =
  meta_idx :: nat
  frag_start :: nat
  frag_end :: nat
  frag_timestamp :: ts

record timed_meta =
  tm_idx :: nat
  tm_ts :: ts
  tm_span :: int

definition timed_metas :: "(ustr \<Rightarrow> ts option) \<Rightarrow> overview_meta list \<Rightarrow> nat list \<Rightarrow> timed_meta list" where
  "timed_metas parse metas = List.map_filter (\<lambda>i. map_option
     (\<lambda>t. \<lparr>tm_idx = i, tm_ts = t, tm_span = clip_duration_ms\<rparr>) (parse_clip_timestamp parse (om_file (metas ! i))))"

definition meta_fill_key :: "overview_meta list \<Rightarrow> timed_meta \<Rightarrow> gap_fill_candidate" where
  "meta_fill_key metas c =
     (let m = metas ! tm_idx c
      in \<lparr>cand_ts = tm_ts c, cand_file = om_file m, driving = Some (meta_driving m),
          gear_driving = list_ex (\<lambda>g. gr_gear g \<noteq> gear_park) (om_gear_runs m)\<rparr>)"

definition admit_metas :: "overview_meta list \<Rightarrow> timed_meta list \<Rightarrow> timed_meta list \<Rightarrow> timed_meta list" where
  "admit_metas metas timed cands =
     (let admitted = select_gap_fill (map tm_ts timed) (map (meta_fill_key metas) cands)
      in if admitted = [] then timed
         else sort_key tm_ts (timed @ map (\<lambda>i. cands ! i) admitted))"

definition meta_spans :: "overview_meta list \<Rightarrow> timed_meta list \<Rightarrow> timed_meta list" where
  "meta_spans metas timed =
     map2 (\<lambda>t spn. t\<lparr>tm_span := spn\<rparr>) timed
       (clip_spans (map (\<lambda>t. (tm_ts t, bounds_clip_span (om_source (metas ! tm_idx t)) (om_file (metas ! tm_idx t)))) timed))"

definition meta_timeline :: "(ustr \<Rightarrow> ts option) \<Rightarrow> overview_meta list \<Rightarrow> timed_meta list" where
  "meta_timeline parse metas =
     (let (unique, events) = partition_files (\<lambda>i. om_file (metas ! i)) [] [0..<length metas];
          timed = sort_key tm_ts (timed_metas parse metas unique)
      in meta_spans metas (if events = [] then timed else admit_metas metas timed (timed_metas parse metas events)))"

definition whole_fragment :: "overview_meta list \<Rightarrow> timed_meta \<Rightarrow> planned_fragment" where
  "whole_fragment metas tm =
     \<lparr>meta_idx = tm_idx tm, frag_start = 0, frag_end = n_points (metas ! tm_idx tm), frag_timestamp = tm_ts tm\<rparr>"

definition plan_pieces :: "overview_meta list \<Rightarrow> timed_meta \<Rightarrow> planned_fragment option list" where
  "plan_pieces metas tm =
     (let m = metas ! tm_idx tm
      in if om_gear_runs m = [] then [Some (whole_fragment metas tm)]
         else case plan_clip_at_park_gaps (om_gear_runs m) (n_points m) (tm_span tm) of
                None \<Rightarrow> if n_points m > 0 then [Some (whole_fragment metas tm)] else []
              | Some plan \<Rightarrow> map (\<lambda>seg. if parked seg then None
                  else Some \<lparr>meta_idx = tm_idx tm, frag_start = range_start seg, frag_end = range_end seg,
                             frag_timestamp = tm_ts tm + 1000000 * seg_offset_ms seg\<rparr>) plan)"

definition plan_split_legacy :: "overview_meta list \<Rightarrow> timed_meta list \<Rightarrow> planned_fragment list list" where
  "plan_split_legacy metas grp =
     (if length grp \<le> 1 then [map (whole_fragment metas) grp]
      else if \<not> list_ex (\<lambda>t. gear_states_len (metas ! tm_idx t) > 0) grp then [map (whole_fragment metas) grp]
      else split_pieces [] (map (\<lambda>t.
             if mostly_parked_legacy_core (om_park_count (metas ! tm_idx t)) (om_frame_count (metas ! tm_idx t))
                  (gear_states_park_count (metas ! tm_idx t)) (gear_states_len (metas ! tm_idx t))
             then None else Some (whole_fragment metas t)) grp))"

definition plan_split_by_gear :: "overview_meta list \<Rightarrow> timed_meta list \<Rightarrow> planned_fragment list list" where
  "plan_split_by_gear metas grp =
     (if grp = [] then []
      else if \<not> list_ex (\<lambda>t. om_gear_runs (metas ! tm_idx t) \<noteq> []) grp then plan_split_legacy metas grp
      else let result = split_pieces [] (concat (map (plan_pieces metas) grp))
           in if result = [] then [map (whole_fragment metas) grp] else result)"

definition plan_split_by_signature ::
    "overview_meta list \<Rightarrow> (ustr list \<Rightarrow> ustr list) \<Rightarrow> planned_fragment list \<Rightarrow> planned_fragment list list" where
  "plan_split_by_signature metas = split_by_signature (\<lambda>f. om_signature (metas ! meta_idx f))"

definition plan_overviews ::
    "(ustr \<Rightarrow> ts option) \<Rightarrow> (nat \<Rightarrow> ustr list \<Rightarrow> ustr list) \<Rightarrow> overview_meta list \<Rightarrow> planned_fragment list list" where
  "plan_overviews parse order metas =
     concat (map (\<lambda>(i, g). plan_split_by_signature metas (order i) g)
       (enumerate 0 (concat (map (plan_split_by_gear metas) (gap_groups tm_ts (meta_timeline parse metas))))))"

subsection \<open>Reading the points in batches\<close>

definition fragment_points :: "gps_point list \<Rightarrow> planned_fragment \<Rightarrow> gps_point list" where
  "fragment_points all_points f =
     (let e = min (frag_end f) (length all_points); s = min (frag_start f) e
      in filter valid_point (slice s e all_points))"

definition overview_from_fragments ::
    "geodesic \<Rightarrow> (ts \<Rightarrow> ustr) \<Rightarrow> overview_meta list \<Rightarrow> (nat \<Rightarrow> gps_point list) \<Rightarrow> nat \<Rightarrow>
      nat \<times> planned_fragment list \<Rightarrow> route_overview" where
  "overview_from_fragments geo stamp metas points_for max_points =
     (\<lambda>(i, frags).
        \<lparr>ov_id = wrap_i32 (int i),
         ov_points = downsample (overview_filter_points geo
           (concat (map (\<lambda>f. fragment_points (points_for (meta_idx f)) f) frags))) max_points,
         ov_source = (case frags of [] \<Rightarrow> None | f # _ \<Rightarrow> om_source (metas ! meta_idx f)),
         ov_start_time = (case frags of [] \<Rightarrow> [] | f # _ \<Rightarrow> stamp (frag_timestamp f))\<rparr>)"

definition select_points_by_files :: "stored_route list \<Rightarrow> ustr list \<Rightarrow> ustr \<Rightarrow> gps_point list option" where
  "select_points_by_files rows files =
     foldl (\<lambda>out chunk. foldl (\<lambda>out row. out(r_file (row_route row) \<mapsto> r_points (row_route row))) out
              (filter (\<lambda>row. r_file (row_route row) \<in> set chunk) rows))
       Map.empty (chunks 400 files)"

definition batch_point_budget :: nat where "batch_point_budget = 1000000"

definition fragment_cost :: "overview_meta list \<Rightarrow> planned_fragment list \<Rightarrow> nat" where
  "fragment_cost metas frags = sum_list (map (\<lambda>f. n_points (metas ! meta_idx f)) frags)"

text \<open>How many of the next drives fit: always one, then while the budget lasts.\<close>

fun batch_length :: "bool \<Rightarrow> nat \<Rightarrow> nat list \<Rightarrow> nat" where
  "batch_length started budget [] = 0"
| "batch_length started budget (c # cs) =
     (if started \<and> budget + c > batch_point_budget then 0 else Suc (batch_length True (budget + c) cs))"

definition batch_files :: "overview_meta list \<Rightarrow> planned_fragment list list \<Rightarrow> ustr list" where
  "batch_files metas batch = sort (remdups (map (\<lambda>f. om_file (metas ! meta_idx f)) (concat batch)))"

definition batch_overviews ::
    "geodesic \<Rightarrow> (ts \<Rightarrow> ustr) \<Rightarrow> overview_meta list \<Rightarrow> stored_route list \<Rightarrow> nat \<Rightarrow> nat \<Rightarrow>
      planned_fragment list list \<Rightarrow> route_overview list" where
  "batch_overviews geo stamp metas rows max_points start batch =
     (let points = select_points_by_files rows (batch_files metas batch)
      in map (overview_from_fragments geo stamp metas
            (\<lambda>i. case points (om_file (metas ! i)) of Some ps \<Rightarrow> ps | None \<Rightarrow> []) max_points) (enumerate start batch))"

function batch_loop ::
    "geodesic \<Rightarrow> (ts \<Rightarrow> ustr) \<Rightarrow> overview_meta list \<Rightarrow> stored_route list \<Rightarrow> nat \<Rightarrow> nat \<Rightarrow>
      planned_fragment list list \<Rightarrow> route_overview list" where
  "batch_loop geo stamp metas rows max_points start plans =
     (if plans = [] then []
      else let n = batch_length False 0 (map (fragment_cost metas) plans)
           in batch_overviews geo stamp metas rows max_points start (take n plans) @
              batch_loop geo stamp metas rows max_points (start + n) (drop n plans))"
  by pat_completeness auto
termination
  by (relation "measure (\<lambda>(geo, stamp, metas, rows, m, start, plans). length plans)") (auto simp: neq_Nil_conv)

declare batch_loop.simps [simp del]

definition build_overviews_on ::
    "geodesic \<Rightarrow> (ts \<Rightarrow> ustr) \<Rightarrow> (ustr \<Rightarrow> ts option) \<Rightarrow> (nat \<Rightarrow> ustr list \<Rightarrow> ustr list) \<Rightarrow>
      stored_route list \<Rightarrow> nat \<Rightarrow> route_overview list" where
  "build_overviews_on geo stamp parse order rows max_points =
     (let metas = select_overview_metas rows
      in batch_loop geo stamp metas rows max_points 0 (plan_overviews parse order metas))"


section \<open>Lemmas\<close>

subsection \<open>The shared steps commute with a change of representation\<close>

lemma partition_files_map:
  "partition_files path seen (map g xs) =
     (let (u, e) = partition_files (\<lambda>x. path (g x)) seen xs in (map g u, map g e))"
  by (induction xs arbitrary: seen) (auto simp: Let_def split: prod.split)

lemma partition_files_subset:
  "partition_files path seen xs = (u, e) \<Longrightarrow>
     set u \<subseteq> set xs \<and> set e \<subseteq> set xs \<and> list_all (\<lambda>x. is_event_folder_path (path x)) e"
  by (induction xs arbitrary: seen u e) (fastforce simp: Let_def split: prod.splits if_splits)+

lemma insort_key_map: "insort_key k (g x) (map g xs) = map g (insort_key (\<lambda>x. k (g x)) x xs)"
  by (induction xs) simp_all

lemma sort_key_map: "sort_key k (map g xs) = map g (sort_key (\<lambda>x. k (g x)) xs)"
  by (induction xs) (simp_all add: insort_key_map)

lemma gap_split_map:
  "cur \<noteq> [] \<Longrightarrow> gap_split time (map g cur) (map g ts) = map (map g) (gap_split (\<lambda>x. time (g x)) cur ts)"
proof (induction ts arbitrary: cur)
  case (Cons t ts)
  have "gap_split time (map g (cur @ [t])) (map g ts) = map (map g) (gap_split (\<lambda>x. time (g x)) (cur @ [t]) ts)"
    by (rule Cons.IH) simp
  with Cons.IH [of "[t]"] Cons.prems show ?case by (simp add: last_map)
qed simp

lemma gap_groups_map: "gap_groups time (map g ts) = map (map g) (gap_groups (\<lambda>x. time (g x)) ts)"
  using gap_split_map [of "[t]" time g] by (simp add: gap_groups_def split: list.split)
    (metis gap_split_map list.simps(3,8,9))

lemma concat_gap_split: "concat (gap_split time cur ts) = cur @ ts"
  by (induction time cur ts rule: gap_split.induct) simp_all

lemma gap_groups_subset: "g \<in> set (gap_groups time ts) \<Longrightarrow> set g \<subseteq> set ts"
proof -
  assume g: "g \<in> set (gap_groups time ts)"
  have "concat (gap_groups time ts) = ts" by (simp add: gap_groups_def concat_gap_split split: list.split)
  with g show ?thesis by (metis UN_upper set_concat)
qed

lemma split_pieces_map: "split_pieces (map g cur) (map (map_option g) ps) = map (map g) (split_pieces cur ps)"
proof (induction cur ps rule: split_pieces.induct)
  case (3 current s ps)
  then show ?case by simp
qed simp_all

lemma map_filter_map: "List.map_filter f (map g xs) = List.map_filter (\<lambda>x. f (g x)) xs"
  by (induction xs) (simp_all add: List.map_filter_simps split: option.split)

lemma split_by_signature_map:
  "split_by_signature sig order (map g xs) = map (map g) (split_by_signature (\<lambda>x. sig (g x)) order xs)"
  by (simp add: split_by_signature_def Let_def filter_map comp_def list_ex_iff map_filter_map)

lemma split_by_signature_cong:
  assumes "\<And>x. x \<in> set xs \<Longrightarrow> sig x = sig' x"
  shows "split_by_signature sig order xs = split_by_signature sig' order xs"
proof -
  have "List.map_filter sig xs = List.map_filter sig' xs" using assms by (induction xs) (simp_all add: List.map_filter_simps split: option.split)
  moreover have "filter (\<lambda>c. sig c = k) xs = filter (\<lambda>c. sig' c = k) xs" for k using assms by (auto intro: filter_cong)
  moreover have "list_ex (\<lambda>c. sig c \<noteq> None) xs = list_ex (\<lambda>c. sig' c \<noteq> None) xs" using assms by (auto simp: list_ex_iff)
  ultimately show ?thesis by (simp add: split_by_signature_def Let_def)
qed

lemma enumerate_map: "enumerate n (map g xs) = map (\<lambda>(i, x). (i, g x)) (enumerate n xs)"
  by (induction xs arbitrary: n) simp_all

subsection \<open>A reduced row stands for its route\<close>

definition look :: "stored_route list \<Rightarrow> timed_meta \<Rightarrow> timed_route" where
  "look rows t = \<lparr>tr_route = row_route (rows ! tm_idx t), tr_timestamp = tm_ts t, tr_span = tm_span t\<rparr>"

definition in_rows :: "stored_route list \<Rightarrow> timed_meta list \<Rightarrow> bool" where
  "in_rows rows ts \<longleftrightarrow> (\<forall>t \<in> set ts. tm_idx t < length rows)"

lemma look_simps [simp]:
  "tr_route (look rows t) = row_route (rows ! tm_idx t)" "tr_timestamp (look rows t) = tm_ts t"
  "tr_span (look rows t) = tm_span t"
  by (simp_all add: look_def)

lemma length_metas [simp]: "length (select_overview_metas rows) = length rows"
  by (simp add: select_overview_metas_def)

lemma nth_metas [simp]: "i < length rows \<Longrightarrow> select_overview_metas rows ! i = overview_meta_of (rows ! i)"
  by (simp add: select_overview_metas_def)

lemma meta_simps [simp]:
  "om_file (overview_meta_of row) = r_file (row_route row)"
  "om_gear_runs (overview_meta_of row) = r_gear_runs (row_route row)"
  "om_source (overview_meta_of row) = r_source (row_route row)"
  "om_signature (overview_meta_of row) = r_signature (row_route row)"
  by (simp_all add: overview_meta_of_def Let_def)

lemma norm_prefix:
  assumes "map (\<lambda>c. if c = 92 then 47 else c) xs = p @ [47]" and "47 \<notin> set p"
  shows "xs = p @ [47] \<or> xs = p @ [92 :: int]"
  using assms by (induction p arbitrary: xs) (auto simp: map_eq_Cons_conv split: if_splits)

lemma event_path_is_event_route: "is_event_folder_path f \<Longrightarrow> is_event_folder_route f"
proof -
  have *: "take (Suc (length p)) f = p @ [47] \<or> take (Suc (length p)) f = p @ [92]"
    if "starts_with (p @ [47]) (norm_path f)" "47 \<notin> set p" for p
    using norm_prefix [of "take (Suc (length p)) f" p] that
    by (simp add: starts_with_def norm_path_def take_map)
  assume "is_event_folder_path f"
  then show ?thesis
    using * [of "lit ''SavedClips''"] * [of "lit ''SentryClips''"]
    by (auto simp: is_event_folder_path_def is_event_folder_route_def)
qed

lemma fill_key_look:
  assumes "tm_idx c < length rows" and "is_event_folder_path (r_file (row_route (rows ! tm_idx c)))"
  shows "route_fill_key (look rows c) = meta_fill_key (select_overview_metas rows) c"
  using assms event_path_is_event_route [OF assms(2)]
  by (simp add: route_fill_key_def meta_fill_key_def route_has_driving_def telemetry_has_driving_def meta_driving_def
      telemetry_gear_driving_def overview_meta_of_def Let_def speeds_driving_def)

lemma timed_look:
  assumes "set is \<subseteq> {..<length rows}"
  shows "timed_routes parse (map (\<lambda>i. row_route (rows ! i)) is) = map (look rows) (timed_metas parse (select_overview_metas rows) is)"
  using assms by (induction "is") (auto simp: timed_routes_def timed_metas_def List.map_filter_simps look_def split: option.split)

lemma timed_metas_idx: "t \<in> set (timed_metas parse metas is) \<Longrightarrow> tm_idx t \<in> set is"
  by (auto simp: timed_metas_def in_map_filter)

lemma in_rows_timed: "set is \<subseteq> {..<length rows} \<Longrightarrow> in_rows rows (timed_metas parse metas is)"
  using timed_metas_idx by (fastforce simp: in_rows_def)

lemma admit_look:
  assumes "sorted (map tm_ts timed)" and "in_rows rows cands"
    and "\<And>c. c \<in> set cands \<Longrightarrow> is_event_folder_path (r_file (row_route (rows ! tm_idx c)))"
  shows "admit_routes (map (look rows) timed) (map (look rows) cands) =
    map (look rows) (admit_metas (select_overview_metas rows) timed cands)"
proof -
  let ?M = "select_overview_metas rows"
  let ?a = "select_gap_fill (map tm_ts timed) (map (meta_fill_key ?M) cands)"
  have "map route_fill_key (map (look rows) cands) = map (meta_fill_key ?M) cands"
    using assms(2,3) fill_key_look by (fastforce simp: in_rows_def)
  moreover have "map tr_timestamp (map (look rows) timed) = map tm_ts timed" by simp
  ultimately have a: "select_gap_fill (map tr_timestamp (map (look rows) timed)) (map route_fill_key (map (look rows) cands)) = ?a"
    by (simp only:)
  have "\<And>i. i \<in> set ?a \<Longrightarrow> i < length cands"
    using selected_eligible [OF assms(1)] by fastforce
  then have n: "map (\<lambda>i. map (look rows) cands ! i) ?a = map (look rows) (map (\<lambda>i. cands ! i) ?a)" by simp
  show ?thesis
    unfolding admit_routes_def admit_metas_def a Let_def n map_append [symmetric] sort_key_map by simp
qed

lemma in_rows_admit:
  assumes "sorted (map tm_ts timed)" and "in_rows rows timed" and "in_rows rows cands"
  shows "in_rows rows (admit_metas metas timed cands)"
proof -
  have "\<And>i. i \<in> set (select_gap_fill (map tm_ts timed) (map (meta_fill_key metas) cands)) \<Longrightarrow> i < length cands"
    using selected_eligible [OF assms(1)] by fastforce
  then show ?thesis using assms(2,3) by (auto simp: in_rows_def admit_metas_def Let_def)
qed

lemma spans_look:
  assumes "in_rows rows ts"
  shows "route_spans (map (look rows) ts) = map (look rows) (meta_spans (select_overview_metas rows) ts)"
proof -
  have "map (\<lambda>t. (tm_ts t, bounds_clip_span (r_source (row_route (rows ! tm_idx t))) (r_file (row_route (rows ! tm_idx t))))) ts =
      map (\<lambda>t. (tm_ts t, bounds_clip_span (om_source (select_overview_metas rows ! tm_idx t)) (om_file (select_overview_metas rows ! tm_idx t)))) ts"
    using assms by (auto simp: in_rows_def)
  then have c: "clip_spans (map (\<lambda>t. (tr_timestamp t, bounds_clip_span (r_source (tr_route t)) (r_file (tr_route t)))) (map (look rows) ts)) =
      clip_spans (map (\<lambda>t. (tm_ts t, bounds_clip_span (om_source (select_overview_metas rows ! tm_idx t)) (om_file (select_overview_metas rows ! tm_idx t)))) ts)"
    unfolding map_map comp_def look_simps by (rule arg_cong)
  show ?thesis
    unfolding route_spans_def meta_spans_def c by (simp add: zip_map1 comp_def split_def look_def)
qed

lemma in_rows_spans: "in_rows rows ts \<Longrightarrow> in_rows rows (meta_spans metas ts)"
  by (auto simp: in_rows_def meta_spans_def dest!: set_zip_leftD)

lemma timeline_look:
  "route_timeline parse (map row_route rows) = map (look rows) (meta_timeline parse (select_overview_metas rows))
   \<and> in_rows rows (meta_timeline parse (select_overview_metas rows))"
proof -
  let ?M = "select_overview_metas rows"
  obtain u e where p: "partition_files (\<lambda>i. r_file (row_route (rows ! i))) [] [0..<length rows] = (u, e)" by fastforce
  have files: "partition_files (\<lambda>i. om_file (?M ! i)) seen is = partition_files (\<lambda>i. r_file (row_route (rows ! i))) seen is"
    if "set is \<subseteq> {..<length rows}" for seen "is"
    using that by (induction "is" arbitrary: seen) (simp_all add: Let_def)
  have q: "partition_files (\<lambda>i. om_file (?M ! i)) [] [0..<length rows] = (u, e)"
    using p by (subst files) auto
  have rows: "map row_route rows = map (\<lambda>i. row_route (rows ! i)) [0..<length rows]"
    by (rule nth_equalityI) simp_all
  have P: "partition_files r_file [] (map row_route rows) =
      (map (\<lambda>i. row_route (rows ! i)) u, map (\<lambda>i. row_route (rows ! i)) e)"
    unfolding rows partition_files_map by (simp add: p)
  have u: "set u \<subseteq> {..<length rows}" and e: "set e \<subseteq> {..<length rows}"
    and ev: "\<And>i. i \<in> set e \<Longrightarrow> is_event_folder_path (r_file (row_route (rows ! i)))"
    using partition_files_subset [OF p] by (auto simp: list_all_iff)
  let ?t = "timed_metas parse ?M u" and ?c = "timed_metas parse ?M e"
  let ?ts = "sort_key tm_ts ?t"
  have s: "sort_key tr_timestamp (map (look rows) ?t) = map (look rows) ?ts" by (simp add: sort_key_map)
  have wt: "in_rows rows ?ts" using in_rows_timed [OF u] by (simp add: in_rows_def)
  have a: "admit_routes (map (look rows) ?ts) (map (look rows) ?c) = map (look rows) (admit_metas ?M ?ts ?c)"
    using timed_metas_idx ev by (intro admit_look in_rows_timed [OF e]) auto
  have wa: "in_rows rows (admit_metas ?M ?ts ?c)" by (intro in_rows_admit wt in_rows_timed [OF e]) simp
  show ?thesis
    using spans_look [OF wt] spans_look [OF wa] in_rows_spans [OF wt] in_rows_spans [OF wa]
    by (simp add: route_timeline_def meta_timeline_def P q Let_def timed_look [OF u] timed_look [OF e] s a)
qed

subsection \<open>Fragments show the same points as the sliced routes\<close>

type_synonym clip_view = "gps_point list \<times> ustr option \<times> ustr option \<times> ts"

definition route_view :: "timed_route \<Rightarrow> clip_view" where
  "route_view c = (r_points (tr_route c), r_source (tr_route c), r_signature (tr_route c), tr_timestamp c)"

definition fragment_view :: "stored_route list \<Rightarrow> planned_fragment \<Rightarrow> clip_view" where
  "fragment_view rows f =
     (let r = row_route (rows ! meta_idx f)
      in (slice (frag_start f) (frag_end f) (r_points r), r_source r, r_signature r, frag_timestamp f))"

text \<open>The column that counts the points of a row is right.\<close>

definition counted :: "stored_route list \<Rightarrow> bool" where
  "counted rows = list_all (\<lambda>row. point_count row = int (length (r_points (row_route row)))) rows"

lemma counted_nth: "counted rows \<Longrightarrow> i < length rows \<Longrightarrow>
    n_points (overview_meta_of (rows ! i)) = length (r_points (row_route (rows ! i)))"
  by (simp add: counted_def list_all_length overview_meta_of_def Let_def)

lemma whole_view:
  assumes "counted rows" and "tm_idx t < length rows"
  shows "fragment_view rows (whole_fragment (select_overview_metas rows) t) = route_view (look rows t)"
  using assms by (simp add: fragment_view_def whole_fragment_def route_view_def slice_def counted_nth Let_def)

lemma map_whole_view:
  assumes "counted rows" and "in_rows rows ts"
  shows "map (fragment_view rows) (map (whole_fragment (select_overview_metas rows)) ts) = map route_view (map (look rows) ts)"
  using assms whole_view by (simp add: in_rows_def)

lemma map_segment_range:
  "map_segment tot n spn seg = Some p \<Longrightarrow> \<not> parked p \<Longrightarrow> range_start p < range_end p \<and> range_end p \<le> n"
  by (auto simp: map_segment_def Let_def split: if_splits)

lemma plan_segment_range:
  assumes "plan_clip_at_park_gaps runs n spn = Some plan" and "seg \<in> set plan" and "\<not> parked seg"
  shows "range_start seg < range_end seg \<and> range_end seg \<le> n"
  using assms map_segment_range
  by (fastforce simp: plan_clip_at_park_gaps_def Let_def in_map_filter split: if_splits)

lemma pieces_view:
  assumes "counted rows" and "tm_idx t < length rows"
  shows "map (map_option route_view) (route_pieces (look rows t)) =
    map (map_option (fragment_view rows)) (plan_pieces (select_overview_metas rows) t)"
proof -
  let ?r = "row_route (rows ! tm_idx t)"
  let ?plan = "plan_clip_at_park_gaps (r_gear_runs ?r) (length (r_points ?r)) (tm_span t)"
  have w: "fragment_view rows (whole_fragment (select_overview_metas rows) t) = route_view (look rows t)"
    using assms by (rule whole_view)
  show ?thesis
  proof (cases "r_gear_runs ?r = [] \<or> ?plan = None")
    case True
    then show ?thesis
      using w assms(2) counted_nth [OF assms]
      by (auto simp: route_pieces_def plan_pieces_def split_clip_at_park_gaps_def)
  next
    case False
    then obtain plan where plan: "?plan = Some plan" and g: "r_gear_runs ?r \<noteq> []" by auto
    have "map (map_option route_view) (concat (map (\<lambda>seg. if cs_parked seg then [None]
             else if r_points (tr_route (cs_route seg)) \<noteq> [] then [Some (cs_route seg)] else [])
           (map (\<lambda>seg. if parked seg
               then \<lparr>cs_route = \<lparr>tr_route = empty_route, tr_timestamp = tm_ts t, tr_span = 0\<rparr>, cs_parked = True\<rparr>
               else \<lparr>cs_route = segment_route (look rows t) seg, cs_parked = False\<rparr>) segs))) =
        map (map_option (fragment_view rows)) (map (\<lambda>seg. if parked seg then None
               else Some \<lparr>meta_idx = tm_idx t, frag_start = range_start seg, frag_end = range_end seg,
                          frag_timestamp = tm_ts t + 1000000 * seg_offset_ms seg\<rparr>) segs)"
      if "set segs \<subseteq> set plan" for segs
      using that
    proof (induction segs)
      case (Cons seg segs)
      have "\<not> parked seg \<Longrightarrow> slice (range_start seg) (range_end seg) (r_points ?r) \<noteq> []"
        using plan_segment_range [OF plan, of seg] Cons.prems by (simp add: slice_def)
      then show ?case using Cons by (auto simp: segment_route_def Let_def route_view_def fragment_view_def)
    qed simp
    from this [of plan] show ?thesis
      using plan g assms(2) counted_nth [OF assms]
      by (simp add: route_pieces_def plan_pieces_def split_clip_at_park_gaps_def cong: if_cong)
  qed
qed

lemma concat_pieces_view:
  assumes "counted rows" and "in_rows rows g"
  shows "map (map_option route_view) (concat (map route_pieces (map (look rows) g))) =
    map (map_option (fragment_view rows)) (concat (map (plan_pieces (select_overview_metas rows)) g))"
  using assms(2) by (induction g) (simp_all add: in_rows_def pieces_view [OF assms(1)])

lemma split_pieces_view:
  assumes "map (map_option f) ps = map (map_option g) qs"
  shows "map (map f) (split_pieces [] ps) = map (map g) (split_pieces [] qs)"
  using split_pieces_map [of f "[]" ps] split_pieces_map [of g "[]" qs] assms by simp

lemma legacy_view:
  assumes "counted rows" and "in_rows rows g"
  shows "map (map route_view) (split_by_gear_state_legacy (map (look rows) g)) =
    map (map (fragment_view rows)) (plan_split_legacy (select_overview_metas rows) g)"
proof -
  let ?M = "select_overview_metas rows"
  have m: "t \<in> set g \<Longrightarrow> ?M ! tm_idx t = overview_meta_of (rows ! tm_idx t)" for t
    using assms(2) by (simp add: in_rows_def)
  have "list_ex (\<lambda>c. r_gear_states (tr_route c) \<noteq> []) (map (look rows) g) \<longleftrightarrow> list_ex (\<lambda>t. gear_states_len (?M ! tm_idx t) > 0) g"
    using m by (auto simp: list_ex_iff overview_meta_of_def Let_def)
  moreover have "map (map route_view) (split_pieces [] (map (\<lambda>c. if clip_is_mostly_parked_legacy c then None else Some c) (map (look rows) g))) =
      map (map (fragment_view rows)) (split_pieces [] (map (\<lambda>t.
             if mostly_parked_legacy_core (om_park_count (?M ! tm_idx t)) (om_frame_count (?M ! tm_idx t))
                  (gear_states_park_count (?M ! tm_idx t)) (gear_states_len (?M ! tm_idx t))
             then None else Some (whole_fragment ?M t)) g))"
    using m whole_view [OF assms(1)] assms(2)
    by (intro split_pieces_view) (auto simp: clip_is_mostly_parked_legacy_def overview_meta_of_def Let_def in_rows_def)
  ultimately show ?thesis
    using map_whole_view [OF assms] by (simp add: split_by_gear_state_legacy_def plan_split_legacy_def del: list.map_comp map_map)
qed

lemma gear_view:
  assumes "counted rows" and "in_rows rows g"
  shows "map (map route_view) (split_by_gear_state (map (look rows) g)) =
    map (map (fragment_view rows)) (plan_split_by_gear (select_overview_metas rows) g)"
proof -
  let ?M = "select_overview_metas rows"
  let ?A = "split_pieces [] (concat (map route_pieces (map (look rows) g)))"
  let ?B = "split_pieces [] (concat (map (plan_pieces ?M) g))"
  have s: "map (map route_view) ?A = map (map (fragment_view rows)) ?B"
    by (intro split_pieces_view concat_pieces_view assms)
  then have e: "?A = [] \<longleftrightarrow> ?B = []" by (metis map_is_Nil_conv)
  have "list_ex (\<lambda>c. r_gear_runs (tr_route c) \<noteq> []) (map (look rows) g) \<longleftrightarrow> list_ex (\<lambda>t. om_gear_runs (?M ! tm_idx t) \<noteq> []) g"
    using assms(2) by (auto simp: list_ex_iff in_rows_def)
  with s e legacy_view [OF assms] map_whole_view [OF assms] show ?thesis
    by (simp add: split_by_gear_state_def plan_split_by_gear_def Let_def del: list.map_comp map_map)
qed

lemma plan_pieces_idx: "Some f \<in> set (plan_pieces metas t) \<Longrightarrow> meta_idx f = tm_idx t"
  by (auto simp: plan_pieces_def Let_def whole_fragment_def split: option.splits if_splits)

lemma gear_fragments_in_rows:
  assumes "in_rows rows g" and "frags \<in> set (plan_split_by_gear metas g)" and "f \<in> set frags"
  shows "meta_idx f < length rows"
proof -
  have w: "meta_idx (whole_fragment metas t) = tm_idx t" for t by (simp add: whole_fragment_def)
  have cat: "f \<in> set (List.map_filter id ps)" if "frags \<in> set (split_pieces [] ps)" for ps
    using that assms(3) concat_split_pieces [of "[]" ps] by (metis append_Nil in_set_conv_decomp concat.simps(2) UN_I set_concat)
  have piece: "f \<in> set (List.map_filter id (concat (map (plan_pieces metas) g))) \<Longrightarrow> \<exists>t \<in> set g. meta_idx f = tm_idx t"
    using plan_pieces_idx by (fastforce simp: in_map_filter)
  have "\<exists>t \<in> set g. meta_idx f = tm_idx t"
    using assms(2,3) piece cat
    by (fastforce simp: plan_split_by_gear_def plan_split_legacy_def Let_def w in_map_filter split: if_splits)
  with assms(1) show ?thesis by (auto simp: in_rows_def)
qed

lemma split_by_signature_subset: "d \<in> set (split_by_signature sig order g) \<Longrightarrow> set d \<subseteq> set g"
  by (auto simp: split_by_signature_def Let_def split: if_splits)

lemma group_view:
  fixes rows parse order
  defines "P \<equiv> plan_overviews parse order (select_overview_metas rows)"
  assumes "counted rows"
  shows "map (map route_view) (group_clips parse order (map row_route rows)) = map (map (fragment_view rows)) P"
    and "\<And>d f. d \<in> set P \<Longrightarrow> f \<in> set d \<Longrightarrow> meta_idx f < length rows"
proof -
  let ?M = "select_overview_metas rows"
  let ?gs = "gap_groups tm_ts (meta_timeline parse ?M)"
  let ?A = "concat (map split_by_gear_state (map (map (look rows)) ?gs))"
  let ?B = "concat (map (plan_split_by_gear ?M) ?gs)"
  have tl: "route_timeline parse (map row_route rows) = map (look rows) (meta_timeline parse ?M)"
    and within: "in_rows rows (meta_timeline parse ?M)" using timeline_look by blast+
  have gs: "gap_groups tr_timestamp (route_timeline parse (map row_route rows)) = map (map (look rows)) ?gs"
    unfolding tl gap_groups_map by simp
  have wg: "in_rows rows g" if "g \<in> set ?gs" for g
    using gap_groups_subset [OF that] within by (auto simp: in_rows_def)
  have "map (map route_view) (concat (map split_by_gear_state (map (map (look rows)) hs))) =
      map (map (fragment_view rows)) (concat (map (plan_split_by_gear ?M) hs))" if "\<And>g. g \<in> set hs \<Longrightarrow> in_rows rows g" for hs
    using that by (induction hs) (simp_all add: gear_view [OF assms(2)])
  then have AB: "map (map route_view) ?A = map (map (fragment_view rows)) ?B" using wg by blast
  have idx: "meta_idx f < length rows" if "d \<in> set ?B" "f \<in> set d" for d f
    using that gear_fragments_in_rows wg by fastforce
  let ?sig = "\<lambda>v :: clip_view. fst (snd (snd v))"
  have sigA: "map (map route_view) (split_by_signature (\<lambda>c. r_signature (tr_route c)) o1 g) = split_by_signature ?sig o1 (map route_view g)" for o1 g
    unfolding split_by_signature_map by (simp add: route_view_def)
  have sigB: "map (map (fragment_view rows)) (split_by_signature (\<lambda>f. om_signature (?M ! meta_idx f)) o1 g) =
      split_by_signature ?sig o1 (map (fragment_view rows) g)" if "\<And>f. f \<in> set g \<Longrightarrow> meta_idx f < length rows" for o1 g
    unfolding split_by_signature_map
    by (intro arg_cong [where f = "map (map (fragment_view rows))"] split_by_signature_cong) (simp add: that fragment_view_def Let_def)
  have "map (map route_view) (concat (map (\<lambda>(i, g). split_by_signature (\<lambda>c. r_signature (tr_route c)) (order i) g) (enumerate n as))) =
      map (map (fragment_view rows)) (concat (map (\<lambda>(i, g). split_by_signature (\<lambda>f. om_signature (?M ! meta_idx f)) (order i) g) (enumerate n bs)))"
    if "map (map route_view) as = map (map (fragment_view rows)) bs" "\<And>d f. d \<in> set bs \<Longrightarrow> f \<in> set d \<Longrightarrow> meta_idx f < length rows" for as bs n
    using that
  proof (induction as arbitrary: bs n)
    case (Cons a as)
    then obtain b bs' where b: "bs = b # bs'" "map route_view a = map (fragment_view rows) b"
      "map (map route_view) as = map (map (fragment_view rows)) bs'" by (auto simp: Cons_eq_map_conv)
    have hb: "\<And>f. f \<in> set b \<Longrightarrow> meta_idx f < length rows" using Cons.prems(2) b(1) by (metis list.set_intros(1))
    have "\<And>d f. d \<in> set bs' \<Longrightarrow> f \<in> set d \<Longrightarrow> meta_idx f < length rows"
      using Cons.prems(2) b(1) by (metis list.set_intros(2))
    from b Cons.IH [OF b(3) this] show ?case by (simp add: sigA sigB [OF hb])
  qed simp
  from this [OF AB idx] show "map (map route_view) (group_clips parse order (map row_route rows)) = map (map (fragment_view rows)) P"
    by (simp add: group_clips_def P_def plan_overviews_def gs split_by_external_signature_def plan_split_by_signature_def)
  show "meta_idx f < length rows" if d: "d \<in> set P" and f: "f \<in> set d" for d f
  proof -
    from d obtain i g where g: "(i, g) \<in> set (enumerate 0 ?B)"
      and dg: "d \<in> set (split_by_signature (\<lambda>f. om_signature (?M ! meta_idx f)) (order i) g)"
      by (auto simp: P_def plan_overviews_def plan_split_by_signature_def)
    from g have "g \<in> set ?B"
      unfolding enumerate_eq_zip by (rule set_zip_rightD)
    then show ?thesis using idx split_by_signature_subset [OF dg] f by blast
  qed
qed

subsection \<open>Batches\<close>

lemma fold_rows:
  assumes "distinct (map (\<lambda>row. r_file (row_route row)) rows)"
  shows "foldl (\<lambda>out row. out(r_file (row_route row) \<mapsto> r_points (row_route row))) out rows f =
    (case find (\<lambda>row. r_file (row_route row) = f) rows of Some row \<Rightarrow> Some (r_points (row_route row)) | None \<Rightarrow> out f)"
  using assms
proof (induction rows arbitrary: out)
  case (Cons a rows)
  have "find (\<lambda>row. r_file (row_route row) = f) rows = None" if "r_file (row_route a) = f"
    using Cons.prems that by (auto simp: find_None_iff image_iff)
  then show ?case using Cons by (auto split: option.split)
qed simp

lemma select_points:
  assumes "distinct (map (\<lambda>row. r_file (row_route row)) rows)" and "row \<in> set rows" and "r_file (row_route row) \<in> set files"
  shows "select_points_by_files rows files (r_file (row_route row)) = Some (r_points (row_route row))"
proof -
  let ?f = "\<lambda>row. r_file (row_route row)"
  let ?step = "\<lambda>out chunk. foldl (\<lambda>out row. out(?f row \<mapsto> r_points (row_route row))) out (filter (\<lambda>row. ?f row \<in> set chunk) rows)"
  have uniq: "row' = row" if "row' \<in> set rows" "?f row' = ?f row" for row'
    using assms(1,2) that by (auto simp: distinct_map dest: inj_onD)
  have step: "?step out chunk (?f row) = (if ?f row \<in> set chunk then Some (r_points (row_route row)) else out (?f row))" for out chunk
  proof -
    have d: "distinct (map ?f (filter (\<lambda>row. ?f row \<in> set chunk) rows))" using assms(1) by (simp add: distinct_map_filter)
    have n: "find (\<lambda>r. ?f r = ?f row) (filter (\<lambda>row. ?f row \<in> set chunk) rows) = None" if "?f row \<notin> set chunk"
      using that by (auto simp: find_None_iff)
    have s: "find (\<lambda>r. ?f r = ?f row) (filter (\<lambda>row. ?f row \<in> set chunk) rows) = Some row" if "?f row \<in> set chunk"
    proof (cases "find (\<lambda>r. ?f r = ?f row) (filter (\<lambda>row. ?f row \<in> set chunk) rows)")
      case None
      then show ?thesis using that assms(2) by (auto simp: find_None_iff)
    next
      case (Some r)
      then have "r \<in> set rows" "?f r = ?f row" by (auto simp: find_Some_iff dest: nth_mem)
      with Some uniq show ?thesis by simp
    qed
    show ?thesis unfolding fold_rows [OF d] using n s by auto
  qed
  have "foldl ?step out cs (?f row) = (if ?f row \<in> set (concat cs) then Some (r_points (row_route row)) else out (?f row))" for out cs
    by (induction cs arbitrary: out) (simp_all add: step)
  then show ?thesis using assms(3) by (simp add: select_points_by_files_def concat_chunks flip: set_concat)
qed

lemma slice_clamp: "slice (min a (min b (length xs))) (min b (length xs)) xs = slice a b xs"
  by (cases "a \<le> length xs"; cases "a \<le> b"; cases "b \<le> length xs") (simp_all add: slice_def min_def)

text \<open>An overview depends on what the clips of a drive show, and the points only on the rows of the drive.\<close>

definition view_overview :: "geodesic \<Rightarrow> (ts \<Rightarrow> ustr) \<Rightarrow> nat \<Rightarrow> nat \<times> clip_view list \<Rightarrow> route_overview" where
  "view_overview geo stamp max_points =
     (\<lambda>(i, vs). \<lparr>ov_id = wrap_i32 (int i),
        ov_points = downsample (overview_filter_points geo (filter valid_point (concat (map fst vs)))) max_points,
        ov_source = (case vs of [] \<Rightarrow> None | v # _ \<Rightarrow> fst (snd v)),
        ov_start_time = (case vs of [] \<Rightarrow> [] | v # _ \<Rightarrow> stamp (snd (snd (snd v))))\<rparr>)"

lemma clips_overview_view: "clips_overview geo stamp m (i, clips) = view_overview geo stamp m (i, map route_view clips)"
  by (simp add: clips_overview_def view_overview_def route_view_def comp_def split: list.split)

lemma fragments_overview_view:
  assumes "\<And>f. f \<in> set frags \<Longrightarrow> meta_idx f < length rows"
    and "\<And>f. f \<in> set frags \<Longrightarrow> points_for (meta_idx f) = r_points (row_route (rows ! meta_idx f))"
  shows "overview_from_fragments geo stamp (select_overview_metas rows) points_for m (i, frags) =
    view_overview geo stamp m (i, map (fragment_view rows) frags)"
proof -
  have "concat (map (\<lambda>f. fragment_points (points_for (meta_idx f)) f) fs) =
      filter valid_point (concat (map fst (map (fragment_view rows) fs)))" if "set fs \<subseteq> set frags" for fs
    using that assms(2) by (induction fs) (simp_all add: fragment_points_def fragment_view_def Let_def slice_clamp)
  from this [of frags] have "concat (map (\<lambda>f. fragment_points (points_for (meta_idx f)) f) frags) =
      filter valid_point (concat (map fst (map (fragment_view rows) frags)))" by simp
  moreover have "f \<in> set frags \<Longrightarrow> om_source (select_overview_metas rows ! meta_idx f) = fst (snd (fragment_view rows f))" for f
    using assms(1) by (simp add: fragment_view_def Let_def)
  moreover have "frag_timestamp f = snd (snd (snd (fragment_view rows f)))" for f by (simp add: fragment_view_def Let_def)
  ultimately show ?thesis
    unfolding overview_from_fragments_def view_overview_def by (simp split: list.split del: map_map)
qed

lemma batch_overviews_view:
  assumes "distinct (map (\<lambda>row. r_file (row_route row)) rows)"
    and "\<And>d f. d \<in> set batch \<Longrightarrow> f \<in> set d \<Longrightarrow> meta_idx f < length rows"
  shows "batch_overviews geo stamp (select_overview_metas rows) rows m start batch =
    map (view_overview geo stamp m) (enumerate start (map (map (fragment_view rows)) batch))"
proof -
  let ?M = "select_overview_metas rows"
  let ?points = "\<lambda>i. case select_points_by_files rows (batch_files ?M batch) (om_file (?M ! i)) of Some ps \<Rightarrow> ps | None \<Rightarrow> []"
  have pts: "?points (meta_idx f) = r_points (row_route (rows ! meta_idx f))" if "d \<in> set batch" "f \<in> set d" for d f
  proof -
    have "r_file (row_route (rows ! meta_idx f)) \<in> set (batch_files ?M batch)"
      using that assms(2) [OF that] by (force simp: batch_files_def)
    from select_points [OF assms(1) nth_mem this] assms(2) [OF that] show ?thesis by simp
  qed
  have "map (overview_from_fragments geo stamp ?M ?points m) (enumerate n ds) =
      map (view_overview geo stamp m) (enumerate n (map (map (fragment_view rows)) ds))" if "set ds \<subseteq> set batch" for n ds
    using that
  proof (induction ds arbitrary: n)
    case (Cons d ds)
    have "overview_from_fragments geo stamp ?M ?points m (n, d) = view_overview geo stamp m (n, map (fragment_view rows) d)"
      using Cons.prems assms(2) pts by (intro fragments_overview_view) auto
    then show ?case using Cons by simp
  qed simp
  then show ?thesis by (simp add: batch_overviews_def)
qed

lemma batch_loop_view:
  assumes "distinct (map (\<lambda>row. r_file (row_route row)) rows)"
    and "\<And>d f. d \<in> set plans \<Longrightarrow> f \<in> set d \<Longrightarrow> meta_idx f < length rows"
  shows "batch_loop geo stamp (select_overview_metas rows) rows m start plans =
    map (view_overview geo stamp m) (enumerate start (map (map (fragment_view rows)) plans))"
  using assms(2)
proof (induction "length plans" arbitrary: start plans rule: less_induct)
  case less
  let ?n = "batch_length False 0 (map (fragment_cost (select_overview_metas rows)) plans)"
  show ?case
  proof (cases "plans = []")
    case False
    then have "0 < ?n" by (cases plans) simp_all
    have le: "batch_length s b cs \<le> length cs" for s b cs by (induction cs arbitrary: s b) auto
    have n: "?n \<le> length plans" using le [of False 0 "map (fragment_cost (select_overview_metas rows)) plans"] by simp
    have "batch_loop geo stamp (select_overview_metas rows) rows m (start + ?n) (drop ?n plans) =
        map (view_overview geo stamp m) (enumerate (start + ?n) (map (map (fragment_view rows)) (drop ?n plans)))"
      using False \<open>0 < ?n\<close> less.prems by (intro less.hyps) (auto dest: in_set_dropD)
    moreover have "batch_overviews geo stamp (select_overview_metas rows) rows m start (take ?n plans) =
        map (view_overview geo stamp m) (enumerate start (map (map (fragment_view rows)) (take ?n plans)))"
      using less.prems by (intro batch_overviews_view [OF assms(1)]) (auto dest: in_set_takeD)
    moreover have "enumerate start (map (map (fragment_view rows)) plans) =
        enumerate start (map (map (fragment_view rows)) (take ?n plans)) @
        enumerate (start + ?n) (map (map (fragment_view rows)) (drop ?n plans))"
      using n enumerate_append_eq [of start "map (map (fragment_view rows)) (take ?n plans)" "map (map (fragment_view rows)) (drop ?n plans)"]
      by (simp flip: map_append)
    ultimately show ?thesis using False by (subst batch_loop.simps) (simp add: Let_def)
  qed (simp add: batch_loop.simps)
qed

subsection \<open>Thinning out\<close>

lemma downsample_index_less:
  assumes "i < m" and "m < n" and "m \<le> 2 ^ 50"
  shows "downsample_index n m i < n"
proof -
  let ?q = "(of_nat n :: rat) / of_nat m" and ?e = "1 / 2 ^ 53 :: rat"
  have m: "0 < (of_nat m :: rat)" and i: "(of_nat i :: rat) \<le> of_nat m - 1" using assms(1) by auto
  have q0: "0 \<le> ?q" by simp
  have up: "fl x \<le> x * (1 + ?e)" if "0 \<le> x" for x
    using order_trans [OF abs_ge_self fl_error [of x]] that by (simp add: algebra_simps)
  have "of_nat i * fl ?q \<le> (of_nat m - 1) * (?q * (1 + ?e))"
    using i m up [OF q0] by (intro mult_mono) auto
  then have "fl (of_nat i * fl ?q) \<le> (of_nat m - 1) * (?q * (1 + ?e)) * (1 + ?e)"
    using up [of "of_nat i * fl ?q"] by (auto intro: order_trans mult_right_mono)
  also have "\<dots> = of_nat n * ((of_nat m - 1) * (1 + ?e) * (1 + ?e) / of_nat m)" using m by (simp add: field_simps)
  also have "\<dots> < of_nat n * 1"
  proof (rule mult_strict_left_mono)
    have "(of_nat m :: rat) \<le> 2 ^ 50" using assms(3) by (metis of_nat_le_iff of_nat_numeral of_nat_power)
    then have "(of_nat m - 1) * ((1 + ?e) * (1 + ?e) - 1) \<le> (2 ^ 50) * ((1 + ?e) * (1 + ?e) - 1)"
      by (intro mult_right_mono) simp_all
    also have "\<dots> < 1" by simp
    finally have "(of_nat m - 1) * (1 + ?e) * (1 + ?e) < of_nat m" by (simp add: algebra_simps)
    then show "(of_nat m - 1) * (1 + ?e) * (1 + ?e) / of_nat m < 1" using m by simp
    show "0 < (of_nat n :: rat)" using assms by simp
  qed
  finally have "fl (of_nat i * fl ?q) < of_nat n" by simp
  then have "\<lfloor>fl (of_nat i * fl ?q)\<rfloor> < int n" by (simp add: floor_less_iff)
  then show ?thesis using assms by (simp add: downsample_index_def nat_less_iff)
qed

section \<open>Properties\<close>

text \<open>Stored rows for the examples: a clip with a park gap in its middle, and an older one without gear data.\<close>

definition demo_route :: "string \<Rightarrow> gear_run list \<Rightarrow> route" where
  "demo_route name runs = empty_route\<lparr>r_file := lit name, r_gear_runs := runs,
     r_points := map (\<lambda>i. (Finite (40 + of_nat i / 100), Finite 10)) [0..<6]\<rparr>"

definition demo_stored :: "stored_route list" where
  "demo_stored = map (\<lambda>r. \<lparr>row_route = r, point_count = 6\<rparr>)
     [demo_route ''RecentClips/2026-01-01_00-00-05-front.mp4''
        [\<lparr>gr_gear = 1, gr_frames = 10\<rparr>, \<lparr>gr_gear = 0, gr_frames = 10\<rparr>, \<lparr>gr_gear = 1, gr_frames = 10\<rparr>],
      demo_route ''RecentClips/2026-01-01_00-00-07-front.mp4'' []]"

text \<open>
  C8. The two ways to build the map of all drives give the same answer: planning the drives from the
  reduced rows and reading the points of a million at a time yields, drive by drive, the same points,
  source, start time and number as grouping and slicing the complete routes in memory. The rows have
  distinct files (the key of the table) and the stored point counts are right. Both sides use the same
  order of import signatures within a drive, which the code leaves to the hash map.
\<close>

theorem overview_paths_agree:
  assumes "distinct (map (\<lambda>row. r_file (row_route row)) rows)" and "counted rows"
  shows "build_overviews_on geo stamp parse order rows max_points =
    route_overviews geo stamp parse order (map row_route rows) max_points"
proof -
  let ?P = "plan_overviews parse order (select_overview_metas rows)"
  have view: "map (map route_view) (group_clips parse order (map row_route rows)) = map (map (fragment_view rows)) ?P"
    and idx: "\<And>d f. d \<in> set ?P \<Longrightarrow> f \<in> set d \<Longrightarrow> meta_idx f < length rows"
    using group_view [OF assms(2)] by blast+
  have "build_overviews_on geo stamp parse order rows max_points =
      map (view_overview geo stamp max_points) (enumerate 0 (map (map (fragment_view rows)) ?P))"
    unfolding build_overviews_on_def Let_def by (rule batch_loop_view [OF assms(1) idx])
  also have "\<dots> = map (view_overview geo stamp max_points) (enumerate 0 (map (map route_view) (group_clips parse order (map row_route rows))))"
    unfolding view ..
  also have "\<dots> = route_overviews geo stamp parse order (map row_route rows) max_points"
    by (simp add: route_overviews_def group_routes_overview_def enumerate_map comp_def split_def clips_overview_view
        flip: clips_overview_view)
  finally show ?thesis .
qed

theorem overview_paths_agree_witness:
  "counted demo_stored \<and>
   build_overviews_on (\<lambda>a b c d. Finite 0) (\<lambda>t. []) demo_parse (\<lambda>i ks. ks) demo_stored 500 =
     route_overviews (\<lambda>a b c d. Finite 0) (\<lambda>t. []) demo_parse (\<lambda>i ks. ks) (map row_route demo_stored) 500"
proof -
  have c: "counted demo_stored" by (simp add: counted_def demo_stored_def demo_route_def)
  have "distinct (map (\<lambda>row. r_file (row_route row)) demo_stored)" by (simp add: demo_stored_def demo_route_def)
  from overview_paths_agree [OF this c] c show ?thesis by blast
qed

text \<open>
  Thinning out a drive never reads past its points, keeps the first and the last point, and returns
  one point more than asked for when there are more points than that.
\<close>

theorem downsample_bounds:
  assumes "max_points \<le> 2 ^ 50"
  shows "length (downsample points max_points) = (if length points \<le> max_points then length points else Suc max_points) \<and>
    set (downsample points max_points) \<subseteq> set points \<and>
    (points \<noteq> [] \<longrightarrow> last (downsample points max_points) = last points) \<and>
    (0 < max_points \<longrightarrow> points \<noteq> [] \<longrightarrow> hd (downsample points max_points) = hd points)"
proof (cases "length points \<le> max_points")
  case False
  have "downsample_index (length points) max_points i < length points" if "i < max_points" for i
    using downsample_index_less [OF that _ assms] False by simp
  then have "set (downsample points max_points) \<subseteq> set points"
    using False last_in_set [of points] by (cases "points = []") (auto simp: downsample_def)
  moreover have "hd (downsample points max_points) = hd points" if m: "0 < max_points"
  proof -
    have "downsample_index (length points) max_points 0 = 0" by (simp add: downsample_index_def)
    moreover have "[0..<max_points] = 0 # [1..<max_points]" using m by (simp add: upt_conv_Cons)
    ultimately have "hd (downsample points max_points) = points ! 0" using False by (simp add: downsample_def)
    then show ?thesis using False by (cases points) auto
  qed
  ultimately show ?thesis using False by (simp add: downsample_def)
qed (simp add: downsample_def)

theorem downsample_bounds_witness: "length (downsample [1, 2, 3, 4 :: nat] 2) = 3 \<and> hd (downsample [1, 2, 3, 4 :: nat] 2) = 1"
  using downsample_bounds [of 2 "[1, 2, 3, 4 :: nat]"] by simp

text \<open>
  A group of two or more older clips (without gear runs) that are all mostly parked disappears: the
  splitter returns no drive for it, while a group with gear runs, or of one clip, is always kept whole or
  in parts.
\<close>

theorem parked_legacy_group_vanishes:
  assumes "grp \<noteq> []"
  shows "split_by_gear_state grp = [] \<longleftrightarrow>
    2 \<le> length grp \<and> list_all (\<lambda>c. r_gear_runs (tr_route c) = []) grp \<and>
    list_ex (\<lambda>c. r_gear_states (tr_route c) \<noteq> []) grp \<and> list_all clip_is_mostly_parked_legacy grp"
proof -
  have none: "split_pieces [] ps = [] \<longleftrightarrow> list_all (\<lambda>p. p = None) ps" for ps :: "timed_route option list"
  proof
    assume "split_pieces [] ps = []"
    then have "List.map_filter id ps = []" using concat_split_pieces [of "[]" ps] by simp
    then show "list_all (\<lambda>p. p = None) ps" by (induction ps) (auto simp: List.map_filter_simps split: option.splits)
  next
    assume "list_all (\<lambda>p. p = None) ps"
    then show "split_pieces [] ps = []" by (induction ps) auto
  qed
  have "\<not> list_ex (\<lambda>c. r_gear_runs (tr_route c) \<noteq> []) grp \<longleftrightarrow> list_all (\<lambda>c. r_gear_runs (tr_route c) = []) grp"
    by (auto simp: list_ex_iff list_all_iff)
  moreover have "list_all (\<lambda>p. p = None) (map (\<lambda>c. if clip_is_mostly_parked_legacy c then None else Some c) grp) \<longleftrightarrow>
      list_all clip_is_mostly_parked_legacy grp"
    by (induction grp) simp_all
  ultimately show ?thesis
    using assms by (auto simp: split_by_gear_state_def split_by_gear_state_legacy_def Let_def none not_le)
qed

theorem parked_legacy_group_vanishes_witness:
  "split_by_gear_state (replicate 2 \<lparr>tr_route = empty_route\<lparr>r_gear_states := [0]\<rparr>, tr_timestamp = 0, tr_span = 60000\<rparr>) = []"
  by (subst parked_legacy_group_vanishes)
    (simp_all add: numeral_2_eq_2 empty_route_def clip_is_mostly_parked_legacy_def mostly_parked_legacy_core_def gear_park_def)

end
