(* ===== verification/FloatBits.thy ===== *)
theory FloatBits
  imports Float64
begin

section \<open>Bit patterns of floating point numbers\<close>

text \<open>
  \<^verbatim>\<open>from_bits\<close> and \<^verbatim>\<open>to_bits\<close> of Rust's floats, and the cast from double to single precision: rounding to
  24 bits (ties to even), with the subnormal numbers below two to the minus 126 and overflow to
  infinity. The two zeros are one value here, and not-a-number is one value, written as the constant
  \<^verbatim>\<open>f32::NAN\<close>.
\<close>

definition value_of_bits :: "nat \<Rightarrow> nat \<Rightarrow> nat \<Rightarrow> f64" where
  "value_of_bits ebits mbits n =
     (let mag = n mod 2 ^ (ebits + mbits); neg = (n div 2 ^ (ebits + mbits) mod 2 = 1);
          ex = mag div 2 ^ mbits; man = mag mod 2 ^ mbits; bias = 2 ^ (ebits - 1) - 1
      in if ex = 2 ^ ebits - 1
         then (if man \<noteq> 0 then NotANumber else if neg then NegInfinity else PosInfinity)
         else let v = (if ex = 0 then of_nat man * pow2 (1 - bias - int mbits)
                       else of_nat (2 ^ mbits + man) * pow2 (int ex - bias - int mbits))
              in Finite (if neg then - v else v))"

definition f64_of_bits :: "u64 \<Rightarrow> f64" where
  "f64_of_bits w = value_of_bits 11 52 (unat w)"

definition f32_of_bits :: "u32 \<Rightarrow> f32" where
  "f32_of_bits w = value_of_bits 8 23 (unat w)"

definition f32_exponent :: "rat \<Rightarrow> int" where
  "f32_exponent q = max (exponent q) (-126)"

definition round_f32 :: "rat \<Rightarrow> rat" where
  "round_f32 q = (let u = pow2 (f32_exponent q - 23) in of_int (round_even (q / u)) * u)"

definition f64_as_f32 :: "f64 \<Rightarrow> f32" where
  "f64_as_f32 x =
     (case x of
        Finite q \<Rightarrow>
          if q = 0 then Finite 0
          else if q > 0 then (if round_f32 q < 2 ^ 128 then Finite (round_f32 q) else PosInfinity)
          else (if round_f32 (- q) < 2 ^ 128 then Finite (- round_f32 (- q)) else NegInfinity)
      | _ \<Rightarrow> x)"

text \<open>The magnitude bits of a positive single.\<close>

definition f32_magnitude :: "rat \<Rightarrow> nat" where
  "f32_magnitude q = nat ((f32_exponent q + 126) * 2 ^ 23 + \<lfloor>q / pow2 (f32_exponent q - 23)\<rfloor>)"

definition f32_to_bits :: "f32 \<Rightarrow> u32" where
  "f32_to_bits x =
     (case x of
        Finite q \<Rightarrow>
          if q = 0 then 0
          else if q > 0 then word_of_nat (f32_magnitude q)
          else word_of_nat (2 ^ 31 + f32_magnitude (- q))
      | PosInfinity \<Rightarrow> 0x7F800000
      | NegInfinity \<Rightarrow> 0xFF800000
      | NotANumber \<Rightarrow> 0x7FC00000)"

section \<open>Lemmas\<close>

text \<open>The positive rationals that a single can hold.\<close>

definition is_single :: "rat \<Rightarrow> bool" where
  "is_single q \<longleftrightarrow> 0 < q \<and> q < 2 ^ 128 \<and> (\<exists>n. q = of_int n * pow2 (f32_exponent q - 23))"

lemma f32_exponent_bounds:
  assumes "0 < q"
  shows "q < pow2 (f32_exponent q + 1)" and "-126 < f32_exponent q \<Longrightarrow> pow2 (f32_exponent q) \<le> q"
    and "f32_exponent q = e \<Longrightarrow> -126 \<le> e"
proof -
  have "q < pow2 (exponent q + 1)" using exponent_bounds [OF assms] by blast
  also have "\<dots> \<le> pow2 (f32_exponent q + 1)" by (intro pow2_le) (simp add: f32_exponent_def)
  finally show "q < pow2 (f32_exponent q + 1)" .
  show "pow2 (f32_exponent q) \<le> q" if "-126 < f32_exponent q"
    using that exponent_bounds [OF assms] by (simp add: f32_exponent_def max_def split: if_splits)
  show "-126 \<le> e" if "f32_exponent q = e" using that by (auto simp: f32_exponent_def)
qed

lemma pow2_128: "(2 :: rat) ^ 128 = pow2 128"
  by (simp add: pow2_def)

lemma pow2_numbers: "pow2 23 = 2 ^ 23" "pow2 24 = 2 ^ 24"
  by (simp_all add: pow2_def)

lemma pow2_shift: "pow2 (e + 23) = 2 ^ 23 * pow2 e" "pow2 (e + 24) = 2 ^ 24 * pow2 e"
  unfolding pow2_add pow2_numbers by simp_all

lemma single_parts:
  assumes "is_single q"
  obtains e n where "f32_exponent q = int e - 126" "e \<le> 253" "q = of_nat n * pow2 (int e - 149)" "n < 2 ^ 24"
    "e = 0 \<or> 2 ^ 23 \<le> n" "0 < n" "f32_magnitude q = e * 2 ^ 23 + n"
proof -
  from assms obtain k where q: "0 < q" "q < 2 ^ 128" and k: "q = of_int k * pow2 (f32_exponent q - 23)"
    by (auto simp: is_single_def)
  define e where "e = nat (f32_exponent q + 126)"
  have fe: "f32_exponent q = int e - 126" using f32_exponent_bounds(3) [OF q(1)] by (simp add: e_def)
  have "exponent q < 128"
  proof (rule ccontr)
    assume "\<not> exponent q < 128"
    then have "pow2 128 \<le> pow2 (exponent q)" by (intro pow2_le) simp
    also have "\<dots> \<le> q" using exponent_bounds [OF q(1)] by blast
    finally show False using q(2) unfolding pow2_128 by simp
  qed
  then have e: "e \<le> 253" by (simp add: e_def f32_exponent_def)
  let ?u = "pow2 (int e - 149)"
  have ku: "q = of_int k * ?u" using k by (simp add: fe)
  then have kpos: "0 < k" using q(1) zero_less_mult_pos2 [of "of_int k" ?u] by simp
  have "of_int k * ?u < 2 ^ 24 * ?u"
    using f32_exponent_bounds(1) [OF q(1)] pow2_shift(2) [of "int e - 149"] unfolding fe ku [symmetric] by simp
  then have "of_int k < (of_int (2 ^ 24) :: rat)" by simp
  then have k24: "k < 2 ^ 24" by (simp only: of_int_less_iff)
  have k23: "2 ^ 23 \<le> k" if "e \<noteq> 0"
  proof -
    have "2 ^ 23 * ?u \<le> of_int k * ?u"
      using f32_exponent_bounds(2) [OF q(1)] that pow2_shift(1) [of "int e - 149"] unfolding fe ku [symmetric] by simp
    then have "(of_int (2 ^ 23) :: rat) \<le> of_int k" by simp
    then show ?thesis by (simp only: of_int_le_iff)
  qed
  have fl: "\<lfloor>q / pow2 (f32_exponent q - 23)\<rfloor> = k"
  proof -
    have "q / pow2 (f32_exponent q - 23) = of_int k" unfolding fe by (subst ku) simp
    then show ?thesis by simp
  qed
  have "e = 0 \<or> 2 ^ 23 \<le> nat k" using k23 by (cases "e = 0") (simp_all add: le_nat_iff)
  then show ?thesis
  proof (intro that [of e "nat k"])
    show "f32_magnitude q = e * 2 ^ 23 + nat k" using kpos fl by (simp add: f32_magnitude_def fe nat_add_distrib nat_mult_distrib)
  qed (use fe e ku kpos k24 in auto)
qed

lemma value_of_magnitude:
  assumes "is_single q"
  shows "f32_magnitude q < 255 * 2 ^ 23" and "value_of_bits 8 23 (f32_magnitude q) = Finite q"
    and "value_of_bits 8 23 (2 ^ 31 + f32_magnitude q) = Finite (- q)"
proof -
  from assms obtain e n where f: "f32_exponent q = int e - 126" "e \<le> 253" "q = of_nat n * pow2 (int e - 149)" "n < 2 ^ 24"
    "e = 0 \<or> 2 ^ 23 \<le> n" "0 < n" "f32_magnitude q = e * 2 ^ 23 + n" by (rule single_parts)
  show less: "f32_magnitude q < 255 * 2 ^ 23" using f(2,4,7) by simp
  let ?m = "f32_magnitude q"
  have m31: "?m < 2 ^ 31" using less by simp
  have parts: "?m div 2 ^ 23 = e + n div 2 ^ 23" "?m mod 2 ^ 23 = n mod 2 ^ 23" using f(7) by simp_all
  have ex: "?m div 2 ^ 23 \<noteq> 255" using less_mult_imp_div_less [OF less] by simp
  have v: "(if ?m div 2 ^ 23 = 0 then of_nat (?m mod 2 ^ 23) * pow2 (1 - 127 - 23)
      else of_nat (2 ^ 23 + ?m mod 2 ^ 23) * pow2 (int (?m div 2 ^ 23) - 127 - 23)) = q"
  proof (cases "n < 2 ^ 23")
    case True
    then show ?thesis unfolding parts using f(3,5) by simp
  next
    case False
    then have "n div 2 ^ 23 = 1" "n mod 2 ^ 23 = n - 2 ^ 23" using f(4) by (simp_all add: div_nat_eqI mod_nat_eqI)
    then show ?thesis unfolding parts using f(3) False by (simp add: algebra_simps)
  qed
  show "value_of_bits 8 23 ?m = Finite q"
    using m31 ex v by (cases "?m div 2 ^ 23 = 0") (simp_all add: value_of_bits_def Let_def)
  show "value_of_bits 8 23 (2 ^ 31 + ?m) = Finite (- q)"
    using m31 ex v by (cases "?m div 2 ^ 23 = 0") (simp_all add: value_of_bits_def Let_def)
qed

text \<open>Rounding gives a single (or zero, below the smallest one), and is exact on singles.\<close>

lemma round_f32_bounds:
  assumes "0 < q"
  shows "0 \<le> round_even (q / pow2 (f32_exponent q - 23))" and "round_even (q / pow2 (f32_exponent q - 23)) \<le> 2 ^ 24"
    and "-126 < f32_exponent q \<Longrightarrow> 2 ^ 23 \<le> round_even (q / pow2 (f32_exponent q - 23))"
proof -
  let ?u = "pow2 (f32_exponent q - 23)"
  have u: "0 < ?u" by simp
  have up: "pow2 (f32_exponent q + 1) = of_int (2 ^ 24) * ?u" and lo: "pow2 (f32_exponent q) = of_int (2 ^ 23) * ?u"
    using pow2_shift [of "f32_exponent q - 23"] by (simp_all add: add.commute)
  have "q / ?u \<le> of_int (2 ^ 24)" using f32_exponent_bounds(1) [OF assms] u up by (simp add: divide_le_eq)
  then show "round_even (q / ?u) \<le> 2 ^ 24" by (metis round_even_mono round_even_of_int)
  have "of_int 0 \<le> q / ?u" using assms u by (simp add: less_imp_le)
  then show "0 \<le> round_even (q / ?u)" by (metis round_even_mono round_even_of_int)
  show "2 ^ 23 \<le> round_even (q / ?u)" if "-126 < f32_exponent q"
  proof -
    have "of_int (2 ^ 23) \<le> q / ?u" using f32_exponent_bounds(2) [OF assms that] u lo by (simp add: le_divide_eq)
    then show ?thesis by (metis round_even_mono round_even_of_int)
  qed
qed

lemma exponent_of_scaled:
  assumes "0 < n" and "n < 2 ^ k"
  shows "exponent (of_int n * pow2 e) < e + int k"
proof (rule ccontr)
  let ?q = "of_int n * pow2 e"
  have q: "0 < ?q" using assms(1) by simp
  assume "\<not> exponent ?q < e + int k"
  then have "pow2 (e + int k) \<le> pow2 (exponent ?q)" by (intro pow2_le) simp
  also have "\<dots> \<le> ?q" using exponent_bounds [OF q] by blast
  finally have "(of_int (2 ^ k) :: rat) \<le> of_int n" by (simp add: pow2_add)
  then have "2 ^ k \<le> n" by (simp only: of_int_le_iff)
  with assms(2) show False by simp
qed

lemma exponent_of_scaled_ge:
  assumes "2 ^ k \<le> n"
  shows "e + int k \<le> exponent (of_int n * pow2 e)"
proof (rule ccontr)
  let ?q = "of_int n * pow2 e"
  have n: "0 < n" using assms by (metis less_le_trans zero_less_numeral zero_less_power)
  have q: "0 < ?q" using n by simp
  assume "\<not> e + int k \<le> exponent ?q"
  then have "pow2 (exponent ?q + 1) \<le> pow2 (e + int k)" by (intro pow2_le) simp
  with exponent_bounds [OF q] have "?q < pow2 (e + int k)" by linarith
  then have "(of_int n :: rat) < of_int (2 ^ k)" unfolding pow2_add pow2_of_nat by (simp add: mult.commute)
  then have "n < 2 ^ k" by (simp only: of_int_less_iff)
  with assms show False by simp
qed

lemma round_f32_single:
  assumes "0 < q" and "round_f32 q < 2 ^ 128" and "round_f32 q \<noteq> 0"
  shows "is_single (round_f32 q)"
proof -
  let ?e = "f32_exponent q" and ?r = "round_f32 q"
  define n where "n = round_even (q / pow2 (?e - 23))"
  have r: "?r = of_int n * pow2 (?e - 23)" by (simp add: round_f32_def n_def Let_def)
  have n0: "0 < n" using round_f32_bounds(1) [OF assms(1)] assms(3) r n_def by (cases "n = 0") auto
  have n24: "n \<le> 2 ^ 24" using round_f32_bounds(2) [OF assms(1)] by (simp add: n_def)
  have "\<exists>k. ?r = of_int k * pow2 (f32_exponent ?r - 23)"
  proof (cases "n = 2 ^ 24")
    case True
    then have r2: "?r = of_int (2 ^ 23) * pow2 (?e + 1 - 23)" using pow2_Suc [of "?e - 23"] by (simp add: r)
    have "exponent ?r = ?e + 1"
      using exponent_of_scaled [of "2 ^ 23" 24 "?e + 1 - 23"] exponent_of_scaled_ge [of 23 "2 ^ 23" "?e + 1 - 23"] unfolding r2 by simp
    then have "f32_exponent ?r = ?e + 1" by (simp add: f32_exponent_def)
    then show ?thesis using r2 by metis
  next
    case False
    then have "exponent ?r \<le> ?e" using exponent_of_scaled [of n 24 "?e - 23"] n0 n24 unfolding r by simp
    moreover have "?e \<le> exponent ?r" if "-126 < ?e"
      using exponent_of_scaled_ge [of 23 n "?e - 23"] round_f32_bounds(3) [OF assms(1) that] unfolding r n_def by simp
    ultimately have "f32_exponent ?r = ?e" by (auto simp: f32_exponent_def max_def split: if_splits)
    then show ?thesis using r by metis
  qed
  moreover have "0 < ?r" unfolding r using n0 by simp
  ultimately show ?thesis using assms(2) by (simp add: is_single_def)
qed

text \<open>Writing a single as bits and reading it back gives the same value.\<close>

lemma f32_bits_roundtrip: "f32_of_bits (f32_to_bits (f64_as_f32 x)) = f64_as_f32 x"
proof (cases x)
  case (Finite q)
  have pos: "f32_of_bits (word_of_nat (f32_magnitude r)) = Finite r \<and> f32_of_bits (word_of_nat (2 ^ 31 + f32_magnitude r)) = Finite (- r)"
    if "is_single r" for r
  proof -
    have w: "unat (word_of_nat n :: u32) = n" if "n < 2 ^ 32" for n using that by (simp add: unat_of_nat)
    have "f32_magnitude r < 2 ^ 32" "2 ^ 31 + f32_magnitude r < 2 ^ 32" using value_of_magnitude(1) [OF that] by simp_all
    then show ?thesis unfolding f32_of_bits_def using value_of_magnitude(2,3) [OF that] by (simp only: w simp_thms)
  qed
  have zero: "f32_of_bits 0 = Finite 0" by (simp add: f32_of_bits_def value_of_bits_def)
  consider "q = 0" | "q > 0" | "q < 0" by linarith
  then show ?thesis
  proof cases
    case 2
    with Finite show ?thesis
      using pos [of "round_f32 q"] round_f32_single [OF 2] zero
      by (cases "round_f32 q < 2 ^ 128"; cases "round_f32 q = 0")
        (auto simp: f64_as_f32_def f32_to_bits_def f32_of_bits_def value_of_bits_def is_single_def)
  next
    case 3
    with Finite show ?thesis
      using pos [of "round_f32 (- q)"] round_f32_single [of "- q"] zero
      by (cases "round_f32 (- q) < 2 ^ 128"; cases "round_f32 (- q) = 0")
        (auto simp: f64_as_f32_def f32_to_bits_def f32_of_bits_def value_of_bits_def is_single_def)
  qed (use Finite zero in \<open>simp add: f64_as_f32_def f32_to_bits_def\<close>)
qed (simp_all add: f64_as_f32_def f32_to_bits_def f32_of_bits_def value_of_bits_def Let_def)

text \<open>In the normal range the relative error of the cast is at most two to the minus 24.\<close>

lemma round_f32_error:
  assumes "pow2 (-126) \<le> q"
  shows "\<bar>round_f32 q - q\<bar> \<le> q / 2 ^ 24"
proof -
  have q: "0 < q" using assms pow2_pos [of "-126"] by linarith
  have "-126 \<le> exponent q"
  proof (rule ccontr)
    assume "\<not> -126 \<le> exponent q"
    then have "pow2 (exponent q + 1) \<le> pow2 (-126)" by (intro pow2_le) simp
    with exponent_bounds [OF q] assms show False by linarith
  qed
  then have e: "f32_exponent q = exponent q" by (simp add: f32_exponent_def)
  let ?u = "pow2 (exponent q - 23)"
  have "round_f32 q - q = (of_int (round_even (q / ?u)) - q / ?u) * ?u"
    by (simp add: round_f32_def Let_def e algebra_simps)
  then have "\<bar>round_f32 q - q\<bar> = \<bar>of_int (round_even (q / ?u)) - q / ?u\<bar> * ?u"
    by (simp add: abs_mult abs_of_pos)
  also have "\<dots> \<le> 1 / 2 * ?u" using round_even_near by (intro mult_right_mono) (auto intro: less_imp_le)
  also have "\<dots> = pow2 (exponent q) / 2 ^ 24" using pow2_shift(1) [of "exponent q - 23"] by simp
  also have "\<dots> \<le> q / 2 ^ 24" using exponent_bounds [OF q] by (simp add: divide_right_mono)
  finally show ?thesis .
qed

end
