(* ===== verification/BlobCodec.thy ===== *)
theory BlobCodec
  imports GearRuns FloatBits
begin

section \<open>Stored columns of a route\<close>

text \<open>
  \<^verbatim>\<open>crates/drives/src/blob.rs\<close>: the binary columns of a stored route, and the run-length coding in
  \<^verbatim>\<open>extract.rs\<close> that produces three of them. Points and per-frame floats are stored by their bits, so a
  float is its bit pattern here; only the top speed of a flag run is converted between precisions, and
  is a value.
\<close>

datatype blob_error = NotAMultiple nat nat

text \<open>A column of records of one size: the loop that every decoder runs.\<close>

definition decode_records :: "nat \<Rightarrow> (bytes \<Rightarrow> 'a) \<Rightarrow> bytes option \<Rightarrow> blob_error + 'a list option" where
  "decode_records stride dec buf =
     (case buf of
        None \<Rightarrow> Inr None
      | Some b \<Rightarrow>
          if length b mod stride \<noteq> 0 then Inl (NotAMultiple (length b) stride)
          else Inr (Some (map (\<lambda>i. dec (take stride (drop (i * stride) b))) [0..<length b div stride])))"

definition encode_records :: "('a \<Rightarrow> bytes) \<Rightarrow> 'a list option \<Rightarrow> bytes option" where
  "encode_records enc xs = map_option (\<lambda>xs. concat (map enc xs)) xs"

definition u64_to_le :: "u64 \<Rightarrow> bytes" where "u64_to_le w = nat_to_le 8 (unat w)"
definition u64_from_le :: "bytes \<Rightarrow> u64" where "u64_from_le b = word_of_nat (le_to_nat b)"
definition u32_to_le :: "u32 \<Rightarrow> bytes" where "u32_to_le w = nat_to_le 4 (unat w)"
definition u32_from_le :: "bytes \<Rightarrow> u32" where "u32_from_le b = word_of_nat (le_to_nat b)"

text \<open>\<^verbatim>\<open>(frames as i32).to_le_bytes()\<close> and \<^verbatim>\<open>i32::from_le_bytes(..) as u32\<close>.\<close>

definition frames_to_le :: "nat \<Rightarrow> bytes" where
  "frames_to_le frames = nat_to_le 4 (nat (wrap_i32 (int frames) mod 2 ^ 32))"

definition frames_from_le :: "bytes \<Rightarrow> nat" where
  "frames_from_le b = nat (wrap_i32 (int (le_to_nat b)) mod 2 ^ 32)"

subsection \<open>The columns\<close>

definition point_stride :: nat where "point_stride = 16"

definition encode_points :: "(u64 \<times> u64) list option \<Rightarrow> bytes option" where
  "encode_points = encode_records (\<lambda>(lat, lon). u64_to_le lat @ u64_to_le lon)"

definition decode_points :: "bytes option \<Rightarrow> blob_error + (u64 \<times> u64) list option" where
  "decode_points = decode_records point_stride (\<lambda>b. (u64_from_le (take 8 b), u64_from_le (take 8 (drop 8 b))))"

definition encode_u8s :: "u8 list option \<Rightarrow> bytes option" where
  "encode_u8s s = s"

definition decode_u8s :: "bytes option \<Rightarrow> u8 list option" where
  "decode_u8s buf = buf"

definition f32_stride :: nat where "f32_stride = 4"

definition encode_f32s :: "u32 list option \<Rightarrow> bytes option" where
  "encode_f32s = encode_records u32_to_le"

definition decode_f32s :: "bytes option \<Rightarrow> blob_error + u32 list option" where
  "decode_f32s = decode_records f32_stride u32_from_le"

definition gear_run_stride :: nat where "gear_run_stride = 5"

definition encode_gear_run :: "gear_run \<Rightarrow> bytes" where
  "encode_gear_run r = gr_gear r # frames_to_le (gr_frames r)"

definition decode_gear_run :: "bytes \<Rightarrow> gear_run" where
  "decode_gear_run b = \<lparr>gr_gear = hd b, gr_frames = frames_from_le (take 4 (drop 1 b))\<rparr>"

definition encode_gear_runs :: "gear_run list option \<Rightarrow> bytes option" where
  "encode_gear_runs = encode_records encode_gear_run"

definition decode_gear_runs :: "bytes option \<Rightarrow> blob_error + gear_run list option" where
  "decode_gear_runs = decode_records gear_run_stride decode_gear_run"

definition ap_run_stride :: nat where "ap_run_stride = 5"

definition encode_ap_run :: "ap_run \<Rightarrow> bytes" where
  "encode_ap_run r = ar_ap r # frames_to_le (ar_frames r)"

definition decode_ap_run :: "bytes \<Rightarrow> ap_run" where
  "decode_ap_run b = \<lparr>ar_ap = hd b, ar_frames = frames_from_le (take 4 (drop 1 b))\<rparr>"

definition encode_ap_runs :: "ap_run list option \<Rightarrow> bytes option" where
  "encode_ap_runs = encode_records encode_ap_run"

definition decode_ap_runs :: "bytes option \<Rightarrow> blob_error + ap_run list option" where
  "decode_ap_runs = decode_records ap_run_stride decode_ap_run"

subsection \<open>The grace prefix\<close>

record prefix_bucket =
  hard_brake_ms :: int
  brake_any_ms :: int
  aggr_turn_ms :: int
  turn_any_ms :: int
  speeding_ms :: int

definition zero_bucket :: prefix_bucket where
  "zero_bucket = \<lparr>hard_brake_ms = 0, brake_any_ms = 0, aggr_turn_ms = 0, turn_any_ms = 0, speeding_ms = 0\<rparr>"

definition default_prefix :: "prefix_bucket list" where
  "default_prefix = replicate 5 zero_bucket"

definition i64_to_le :: "int \<Rightarrow> bytes" where "i64_to_le x = nat_to_le 8 (nat (x mod 2 ^ 64))"
definition i64_from_le :: "bytes \<Rightarrow> int" where "i64_from_le b = wrap_i64 (int (le_to_nat b))"

definition safety_grace_prefix_version :: u8 where "safety_grace_prefix_version = 1"
definition safety_grace_prefix_len :: nat where "safety_grace_prefix_len = 1 + 5 * 5 * 8"

definition encode_bucket :: "prefix_bucket \<Rightarrow> bytes" where
  "encode_bucket b = concat (map i64_to_le
     [hard_brake_ms b, brake_any_ms b, aggr_turn_ms b, turn_any_ms b, speeding_ms b])"

definition decode_bucket :: "bytes \<Rightarrow> prefix_bucket" where
  "decode_bucket b = (let field = (\<lambda>i. i64_from_le (take 8 (drop (8 * i) b)))
     in \<lparr>hard_brake_ms = field 0, brake_any_ms = field 1, aggr_turn_ms = field 2, turn_any_ms = field 3,
         speeding_ms = field 4\<rparr>)"

definition encode_safety_grace_prefix :: "prefix_bucket list \<Rightarrow> bytes" where
  "encode_safety_grace_prefix prefix = safety_grace_prefix_version # concat (map encode_bucket prefix)"

definition decode_safety_grace_prefix :: "bytes option \<Rightarrow> prefix_bucket list" where
  "decode_safety_grace_prefix buf =
     (case buf of
        None \<Rightarrow> default_prefix
      | Some b \<Rightarrow>
          if length b \<noteq> safety_grace_prefix_len \<or> hd b \<noteq> safety_grace_prefix_version then default_prefix
          else map (\<lambda>i. decode_bucket (take 40 (drop (1 + 40 * i) b))) [0..<5])"

subsection \<open>Flag runs\<close>

definition flag_run_stride :: nat where "flag_run_stride = 9"

definition encode_flag_run :: "flag_run \<Rightarrow> bytes" where
  "encode_flag_run r =
     fr_flags r # frames_to_le (fr_frames r) @
     u32_to_le (f32_to_bits (case max_mps r of Some m \<Rightarrow> f64_as_f32 m | None \<Rightarrow> NotANumber))"

text \<open>\<^verbatim>\<open>(v * 10.0).round() / 10.0\<close>.\<close>

definition round_tenth :: "rat \<Rightarrow> rat" where
  "round_tenth v = fl (of_int (round_f64 (fl (v * 10))) / 10)"

definition decode_flag_run :: "bytes \<Rightarrow> flag_run" where
  "decode_flag_run b =
     \<lparr>fr_flags = hd b, fr_frames = frames_from_le (take 4 (drop 1 b)),
      max_mps = (case f32_of_bits (u32_from_le (take 4 (drop 5 b))) of
                   Finite v \<Rightarrow> Some (Finite (round_tenth v))
                 | _ \<Rightarrow> None)\<rparr>"

definition encode_flag_runs :: "flag_run list option \<Rightarrow> bytes option" where
  "encode_flag_runs = encode_records encode_flag_run"

definition decode_flag_runs :: "bytes option \<Rightarrow> blob_error + flag_run list option" where
  "decode_flag_runs = decode_records flag_run_stride decode_flag_run"

subsection \<open>Runs of frames\<close>

text \<open>The loops count in 32 bits, which a clip's frames never fill.\<close>

fun gear_run_loop :: "u8 \<Rightarrow> nat \<Rightarrow> u8 list \<Rightarrow> gear_run list" where
  "gear_run_loop current count [] = [\<lparr>gr_gear = current, gr_frames = count\<rparr>]"
| "gear_run_loop current count (g # gs) =
     (if g = current then gear_run_loop current (wrap_u32 (count + 1)) gs
      else \<lparr>gr_gear = current, gr_frames = count\<rparr> # gear_run_loop g 1 gs)"

definition compute_gear_runs :: "u8 list \<Rightarrow> gear_run list" where
  "compute_gear_runs gears = (case gears of [] \<Rightarrow> [] | g # gs \<Rightarrow> gear_run_loop g 1 gs)"

fun ap_run_loop :: "u8 \<Rightarrow> nat \<Rightarrow> u8 list \<Rightarrow> ap_run list" where
  "ap_run_loop current count [] = [\<lparr>ar_ap = current, ar_frames = count\<rparr>]"
| "ap_run_loop current count (a # as) =
     (if a = current then ap_run_loop current (wrap_u32 (count + 1)) as
      else \<lparr>ar_ap = current, ar_frames = count\<rparr> # ap_run_loop a 1 as)"

definition compute_ap_runs :: "u8 list \<Rightarrow> ap_run list" where
  "compute_ap_runs ap_states = (case ap_states of [] \<Rightarrow> [] | a # as \<Rightarrow> ap_run_loop a 1 as)"

definition speed_at :: "f32 list option \<Rightarrow> nat \<Rightarrow> f64" where
  "speed_at speeds i =
     (case speeds of None \<Rightarrow> Finite 0 | Some s \<Rightarrow> if i < length s then f64_abs (s ! i) else Finite 0)"

definition r1 :: "f64 \<Rightarrow> f64" where
  "r1 v = (case v of Finite x \<Rightarrow> Finite (round_tenth x) | _ \<Rightarrow> v)"

fun flag_run_loop :: "f32 list option \<Rightarrow> nat \<Rightarrow> u8 \<Rightarrow> nat \<Rightarrow> f64 \<Rightarrow> u8 list \<Rightarrow> flag_run list" where
  "flag_run_loop speeds i current count mx [] =
     [\<lparr>fr_flags = current, fr_frames = count, max_mps = map_option (\<lambda>_. r1 mx) speeds\<rparr>]"
| "flag_run_loop speeds i current count mx (f # fs) =
     (if f = current
      then flag_run_loop speeds (i + 1) current (wrap_u32 (count + 1))
             (if f64_greater (speed_at speeds i) mx then speed_at speeds i else mx) fs
      else \<lparr>fr_flags = current, fr_frames = count, max_mps = map_option (\<lambda>_. r1 mx) speeds\<rparr>
           # flag_run_loop speeds (i + 1) f 1 (speed_at speeds i) fs)"

definition compute_flag_runs :: "u8 list \<Rightarrow> f32 list option \<Rightarrow> flag_run list" where
  "compute_flag_runs flags speeds =
     (case flags of [] \<Rightarrow> [] | f # fs \<Rightarrow> flag_run_loop speeds 1 f 1 (speed_at speeds 0) fs)"

section \<open>Lemmas\<close>

subsection \<open>Columns of records\<close>

text \<open>
  The contract of a record that is stored in a fixed number of bytes, and of one whose every byte
  string is the encoding of a value.
\<close>

locale record_codec =
  fixes enc :: "'a \<Rightarrow> bytes" and dec :: "bytes \<Rightarrow> 'a" and stride :: nat and valid :: "'a \<Rightarrow> bool"
  assumes stride_pos: "0 < stride"
    and length_enc: "length (enc x) = stride"
    and dec_enc: "valid x \<Longrightarrow> dec (enc x) = x"
begin

lemma length_concat_enc: "length (concat (map enc xs)) = length xs * stride"
  by (induction xs) (simp_all add: length_enc)

lemma record_at: "i < length xs \<Longrightarrow> take stride (drop (i * stride) (concat (map enc xs))) = enc (xs ! i)"
proof (induction xs arbitrary: i)
  case (Cons x xs)
  then show ?case by (cases i) (simp_all add: length_enc)
qed simp

lemma decode_encode:
  assumes "list_all valid xs"
  shows "decode_records stride dec (encode_records enc (Some xs)) = Inr (Some xs)"
proof -
  have "map (\<lambda>i. dec (take stride (drop (i * stride) (concat (map enc xs))))) [0..<length xs] = xs"
    using assms by (intro nth_equalityI) (simp_all add: record_at dec_enc list_all_length)
  then show ?thesis using stride_pos by (simp add: decode_records_def encode_records_def length_concat_enc)
qed

lemma decode_none: "decode_records stride dec (encode_records enc None) = Inr None"
  by (simp add: decode_records_def encode_records_def)

end

locale exact_record_codec = record_codec +
  assumes enc_dec: "length b = stride \<Longrightarrow> enc (dec b) = b"
begin

lemma encode_decode:
  assumes "decode_records stride dec buf = Inr xs"
  shows "encode_records enc xs = buf"
proof (cases buf)
  case None
  with assms show ?thesis by (simp add: decode_records_def encode_records_def)
next
  case (Some b)
  with assms have len: "length b mod stride = 0"
    and xs: "xs = Some (map (\<lambda>i. dec (take stride (drop (i * stride) b))) [0..<length b div stride])"
    by (auto simp: decode_records_def split: if_splits)
  have "concat (map (\<lambda>i. enc (dec (take stride (drop (i * stride) b)))) [0..<n]) = take (n * stride) b"
    if "n * stride \<le> length b" for n
    using that
  proof (induction n)
    case (Suc n)
    then have "enc (dec (take stride (drop (n * stride) b))) = take stride (drop (n * stride) b)" by (intro enc_dec) simp
    moreover have "take (n * stride + stride) b = take (n * stride) b @ take stride (drop (n * stride) b)" by (rule take_add)
    ultimately show ?case using Suc by (simp add: add.commute)
  qed simp
  moreover have "length b div stride * stride = length b" using div_mult_mod_eq [of "length b" stride] len by simp
  ultimately have "concat (map (\<lambda>i. enc (dec (take stride (drop (i * stride) b)))) [0..<length b div stride]) = b"
    by (metis order_refl take_all)
  then show ?thesis by (simp add: encode_records_def xs Some comp_def)
qed

end

lemma frames_from_to_le: "n < 2 ^ 32 \<Longrightarrow> frames_from_le (frames_to_le n) = n"
  by (simp add: frames_from_le_def frames_to_le_def le_to_nat_nat_to_le wrap_i32_def mod_diff_eq mod_simps nat_mod_distrib)

lemma length_frames_to_le [simp]: "length (frames_to_le n) = 4"
  by (simp add: frames_to_le_def)

lemma frames_to_from_le: "length b = 4 \<Longrightarrow> frames_to_le (frames_from_le b) = b"
proof -
  assume b: "length b = 4"
  then have "le_to_nat b < 2 ^ 32" using le_to_nat_less [of b] by simp
  then have "nat (wrap_i32 (int (frames_from_le b)) mod 2 ^ 32) = le_to_nat b"
    by (simp add: frames_from_le_def wrap_i32_def mod_simps)
  then show ?thesis using b by (simp add: frames_to_le_def nat_to_le_le_to_nat)
qed

lemma u64_le [simp]: "u64_from_le (u64_to_le w) = w" "length (u64_to_le w) = 8"
proof -
  have "unat w < 2 ^ 64" using unsigned_less [of w] by simp
  then show "u64_from_le (u64_to_le w) = w" by (simp add: u64_from_le_def u64_to_le_def le_to_nat_nat_to_le)
qed (simp add: u64_to_le_def)

lemma u64_le_from: "length b = 8 \<Longrightarrow> u64_to_le (u64_from_le b) = b"
  using le_to_nat_less [of b] by (simp add: u64_from_le_def u64_to_le_def unat_of_nat nat_to_le_le_to_nat)

lemma u32_le [simp]: "u32_from_le (u32_to_le w) = w" "length (u32_to_le w) = 4"
proof -
  have "unat w < 2 ^ 32" using unsigned_less [of w] by simp
  then show "u32_from_le (u32_to_le w) = w" by (simp add: u32_from_le_def u32_to_le_def le_to_nat_nat_to_le)
qed (simp add: u32_to_le_def)

lemma u32_le_from: "length b = 4 \<Longrightarrow> u32_to_le (u32_from_le b) = b"
  using le_to_nat_less [of b] by (simp add: u32_from_le_def u32_to_le_def unat_of_nat nat_to_le_le_to_nat)

interpretation points: exact_record_codec
    "\<lambda>(lat, lon). u64_to_le lat @ u64_to_le lon" "\<lambda>b. (u64_from_le (take 8 b), u64_from_le (take 8 (drop 8 b)))"
    point_stride "\<lambda>_. True"
proof
  show "(case (u64_from_le (take 8 b), u64_from_le (take 8 (drop 8 b))) of (lat, lon) \<Rightarrow> u64_to_le lat @ u64_to_le lon) = b"
    if "length b = point_stride" for b
  proof -
    have "u64_to_le (u64_from_le (take 8 b)) = take 8 b" "u64_to_le (u64_from_le (take 8 (drop 8 b))) = drop 8 b"
      using that by (simp_all add: u64_le_from point_stride_def)
    then show ?thesis by simp
  qed
qed (auto simp: point_stride_def)

interpretation floats: exact_record_codec u32_to_le u32_from_le f32_stride "\<lambda>_. True"
  by unfold_locales (simp_all add: f32_stride_def u32_le_from)

interpretation gears: exact_record_codec encode_gear_run decode_gear_run gear_run_stride "\<lambda>r. gr_frames r < 2 ^ 32"
proof
  show "encode_gear_run (decode_gear_run b) = b" if "length b = gear_run_stride" for b
    using that frames_to_from_le [of "drop 1 b"] by (cases b) (simp_all add: encode_gear_run_def decode_gear_run_def gear_run_stride_def)
qed (simp_all add: encode_gear_run_def decode_gear_run_def gear_run_stride_def frames_from_to_le)

interpretation modes: exact_record_codec encode_ap_run decode_ap_run ap_run_stride "\<lambda>r. ar_frames r < 2 ^ 32"
proof
  show "encode_ap_run (decode_ap_run b) = b" if "length b = ap_run_stride" for b
    using that frames_to_from_le [of "drop 1 b"] by (cases b) (simp_all add: encode_ap_run_def decode_ap_run_def ap_run_stride_def)
qed (simp_all add: encode_ap_run_def decode_ap_run_def ap_run_stride_def frames_from_to_le)

subsection \<open>Tenths survive single precision\<close>

lemma round_f64_near:
  assumes "\<bar>x - of_int k\<bar> < 1 / 2" and "0 \<le> x"
  shows "round_f64 x = k"
proof -
  have "\<lfloor>x + 1 / 2\<rfloor> = k" using assms(1) by (intro floor_unique) linarith+
  then show ?thesis using assms(2) by (simp add: round_f64_def)
qed

lemma tenth_through_single:
  fixes k :: int
  assumes "0 < k" and "k \<le> 2 ^ 22"
  shows "f64_as_f32 (Finite (fl (of_int k / 10))) = Finite (round_f32 (fl (of_int k / 10))) \<and>
    round_tenth (round_f32 (fl (of_int k / 10))) = fl (of_int k / 10)"
proof -
  let ?x = "of_int k / 10 :: rat"
  let ?q = "fl ?x"
  let ?r = "round_f32 ?q"
  have k: "1 \<le> (of_int k :: rat)" "(of_int k :: rat) \<le> 2 ^ 22"
    using assms of_int_le_iff [of k "2 ^ 22", where 'a = rat] by simp_all
  have q: "?x - ?x / 2 ^ 53 \<le> ?q" "?q \<le> ?x + ?x / 2 ^ 53" using fl_lower [of ?x] fl_upper [of ?x] k(1) by simp_all
  have q0: "1 / 16 \<le> ?q" using q(1) k(1) by (simp add: field_simps)
  have "pow2 (-126) \<le> pow2 (-4)" by (intro pow2_le) simp
  also have "pow2 (-4) = 1 / 16" by (simp add: pow2_def)
  finally have "\<bar>?r - ?q\<bar> \<le> ?q / 2 ^ 24" using q0 by (intro round_f32_error) linarith
  then have r: "?q - ?q / 2 ^ 24 \<le> ?r" "?r \<le> ?q + ?q / 2 ^ 24" unfolding abs_le_iff by simp_all
  have r0: "0 \<le> ?r * 10" using r(1) q0 by (simp add: field_simps)
  have small: "?r < 2 ^ 128" using r(2) q(2) k(2) by simp
  have t: "?r * 10 - ?r * 10 / 2 ^ 53 \<le> fl (?r * 10)" "fl (?r * 10) \<le> ?r * 10 + ?r * 10 / 2 ^ 53"
    using fl_lower [OF r0] fl_upper [OF r0] by simp_all
  have "\<bar>fl (?r * 10) - of_int k\<bar> < 1 / 2"
    using t r q k unfolding abs_less_iff by (simp add: field_simps)
  moreover have "0 \<le> fl (?r * 10)" using r0 by simp
  ultimately have "round_f64 (fl (?r * 10)) = k" by (rule round_f64_near)
  then show ?thesis using q0 small by (simp add: round_tenth_def f64_as_f32_def)
qed

text \<open>The top speeds that survive: absent, or a multiple of a tenth, up to two to the 22 of them.\<close>

definition tenth_speed :: "f64 option \<Rightarrow> bool" where
  "tenth_speed m = (case m of None \<Rightarrow> True
     | Some v \<Rightarrow> \<exists>k :: int. 0 \<le> k \<and> k \<le> 2 ^ 22 \<and> v = Finite (fl (of_int k / 10)))"

lemma decode_encode_flag_run:
  assumes "fr_frames r < 2 ^ 32" and "tenth_speed (max_mps r)"
  shows "decode_flag_run (encode_flag_run r) = r"
proof -
  have m: "(case f32_of_bits (f32_to_bits (case max_mps r of Some m \<Rightarrow> f64_as_f32 m | None \<Rightarrow> NotANumber)) of
      Finite v \<Rightarrow> Some (Finite (round_tenth v)) | _ \<Rightarrow> None) = max_mps r"
  proof (cases "max_mps r")
    case None
    then show ?thesis using f32_bits_roundtrip [of NotANumber] by (simp add: f64_as_f32_def)
  next
    case (Some v)
    with assms(2) obtain k :: int where k: "0 \<le> k" "k \<le> 2 ^ 22" "v = Finite (fl (of_int k / 10))" by (auto simp: tenth_speed_def)
    show ?thesis
    proof (cases "k = 0")
      case True
      then show ?thesis using Some k f32_bits_roundtrip [of "Finite 0"] round_f64_near [of 0 0] by (simp add: f64_as_f32_def round_tenth_def)
    next
      case False
      then have t: "f64_as_f32 v = Finite (round_f32 (fl (of_int k / 10)))" "round_tenth (round_f32 (fl (of_int k / 10))) = fl (of_int k / 10)"
        using k tenth_through_single [of k] by simp_all
      have "f32_of_bits (f32_to_bits (f64_as_f32 v)) = Finite (round_f32 (fl (of_int k / 10)))"
        unfolding f32_bits_roundtrip by (rule t(1))
      then show ?thesis using Some by (simp only: option.case f64.case t(2)) (simp only: k(3))
    qed
  qed
  have "take 4 (drop 5 (encode_flag_run r)) = u32_to_le (f32_to_bits (case max_mps r of Some m \<Rightarrow> f64_as_f32 m | None \<Rightarrow> NotANumber))"
    by (simp add: encode_flag_run_def)
  then show ?thesis
    using assms(1) m by (simp add: decode_flag_run_def) (simp add: encode_flag_run_def frames_from_to_le)
qed

interpretation flags: record_codec encode_flag_run decode_flag_run flag_run_stride
    "\<lambda>r. fr_frames r < 2 ^ 32 \<and> tenth_speed (max_mps r)"
  by unfold_locales (simp_all add: flag_run_stride_def encode_flag_run_def [THEN arg_cong [where f = length]] decode_encode_flag_run)

subsection \<open>Buckets\<close>

definition i64_range :: "int \<Rightarrow> bool" where
  "i64_range x \<longleftrightarrow> - (2 ^ 63) \<le> x \<and> x < 2 ^ 63"

definition valid_bucket :: "prefix_bucket \<Rightarrow> bool" where
  "valid_bucket b \<longleftrightarrow> i64_range (hard_brake_ms b) \<and> i64_range (brake_any_ms b) \<and> i64_range (aggr_turn_ms b) \<and>
     i64_range (turn_any_ms b) \<and> i64_range (speeding_ms b)"

lemma i64_le [simp]: "i64_range x \<Longrightarrow> i64_from_le (i64_to_le x) = x" "length (i64_to_le x) = 8"
proof -
  assume "i64_range x"
  then have "wrap_i64 (x mod 2 ^ 64) = x" unfolding wrap_i64_def i64_range_def mod_add_left_eq
    by (simp add: mod_pos_pos_trivial)
  then show "i64_from_le (i64_to_le x) = x"
    by (simp add: i64_from_le_def i64_to_le_def le_to_nat_nat_to_le nat_mod_as_int)
qed (simp add: i64_to_le_def)

interpretation buckets: record_codec encode_bucket decode_bucket 40 valid_bucket
  by unfold_locales (simp_all add: encode_bucket_def decode_bucket_def valid_bucket_def)

subsection \<open>Runs as frames\<close>

text \<open>Run-length coding of a list, the specification of the three loops.\<close>

fun rle :: "'a \<Rightarrow> nat \<Rightarrow> 'a list \<Rightarrow> ('a \<times> nat) list" where
  "rle c n [] = [(c, n)]"
| "rle c n (x # xs) = (if x = c then rle c (Suc n) xs else (c, n) # rle x 1 xs)"

lemma gear_run_loop_rle:
  "n + length gs < 2 ^ 32 \<Longrightarrow> gear_run_loop c n gs = map (\<lambda>(g, k). \<lparr>gr_gear = g, gr_frames = k\<rparr>) (rle c n gs)"
  by (induction c n gs rule: gear_run_loop.induct) (simp_all add: wrap_u32_def)

lemma ap_run_loop_rle:
  "n + length gs < 2 ^ 32 \<Longrightarrow> ap_run_loop c n gs = map (\<lambda>(g, k). \<lparr>ar_ap = g, ar_frames = k\<rparr>) (rle c n gs)"
  by (induction c n gs rule: ap_run_loop.induct) (simp_all add: wrap_u32_def)

lemma flag_run_loop_rle:
  "n + length fs < 2 ^ 32 \<Longrightarrow> map (\<lambda>r. (fr_flags r, fr_frames r)) (flag_run_loop speeds i c n mx fs) = rle c n fs"
  by (induction speeds i c n mx fs rule: flag_run_loop.induct) (simp_all add: wrap_u32_def)

lemma rle_expand: "concat (map (\<lambda>(g, k). replicate k g) (rle c n xs)) = replicate n c @ xs"
  by (induction c n xs rule: rle.induct) (simp_all flip: replicate_append_same)

lemma rle_positive: "0 < n \<Longrightarrow> list_all (\<lambda>(g, k). 0 < k) (rle c n xs)"
  by (induction c n xs rule: rle.induct) simp_all

lemma rle_nonempty [simp]: "rle c n xs \<noteq> []"
  by (induction c n xs rule: rle.induct) simp_all

lemma rle_maximal: "successively (\<lambda>a b. fst a \<noteq> fst b) (rle c n xs) \<and> fst (hd (rle c n xs)) = c"
proof (induction c n xs rule: rle.induct)
  case (2 c n x xs)
  obtain y ys where y: "rle x 1 xs = y # ys" by (metis list.exhaust rle_nonempty)
  show ?case using 2 y by auto
qed simp

lemma rle_total: "sum_list (map snd (rle c n xs)) = n + length xs"
  by (induction c n xs rule: rle.induct) simp_all

text \<open>The top speed of a run of finite samples is a multiple of a tenth.\<close>

lemma round_tenth_speed:
  assumes "0 \<le> v" and "v \<le> 2 ^ 18"
  shows "tenth_speed (Some (r1 (Finite v)))"
proof -
  have u: "0 \<le> fl (v * 10)" "fl (v * 10) \<le> 2 ^ 22 - 1"
    using assms fl_upper [of "v * 10"] by simp_all
  have "0 \<le> round_f64 (fl (v * 10))" using u(1) by (simp add: round_f64_def)
  moreover have "round_f64 (fl (v * 10)) \<le> 2 ^ 22"
    using u floor_mono [of "fl (v * 10) + 1 / 2" "of_int (2 ^ 22)"] by (simp add: round_f64_def)
  ultimately show ?thesis by (auto simp: tenth_speed_def r1_def round_tenth_def)
qed

lemma flag_run_loop_tenths:
  assumes "n + length fs < 2 ^ 32" and "\<exists>v. mx = Finite v \<and> 0 \<le> v \<and> v \<le> 2 ^ 18"
    and "\<And>s i. speeds = Some s \<Longrightarrow> i < length s \<Longrightarrow> \<exists>v. s ! i = Finite v \<and> \<bar>v\<bar> \<le> 2 ^ 18"
  shows "list_all (\<lambda>r. fr_frames r < 2 ^ 32 \<and> tenth_speed (max_mps r)) (flag_run_loop speeds i c n mx fs)"
proof -
  have sp: "\<exists>v. speed_at speeds i = Finite v \<and> 0 \<le> v \<and> v \<le> 2 ^ 18" for i
  proof (cases "\<exists>s. speeds = Some s \<and> i < length s")
    case True
    then obtain s v where "speeds = Some s" "i < length s" "s ! i = Finite v" "\<bar>v\<bar> \<le> 2 ^ 18" using assms(3) by blast
    then show ?thesis by (simp add: speed_at_def f64_abs_def)
  next
    case False
    then show ?thesis by (auto simp: speed_at_def split: option.split)
  qed
  have run: "tenth_speed (map_option (\<lambda>_. r1 m) speeds)" if "\<exists>v. m = Finite v \<and> 0 \<le> v \<and> v \<le> 2 ^ 18" for m
    using that round_tenth_speed by (cases speeds) (auto simp: tenth_speed_def)
  show ?thesis using assms(1,2)
  proof (induction fs arbitrary: i c n mx)
    case Nil
    then show ?case using run by simp
  next
    case (Cons f fs)
    have mx: "\<exists>v. (if f64_greater (speed_at speeds i) mx then speed_at speeds i else mx) = Finite v \<and> 0 \<le> v \<and> v \<le> 2 ^ 18"
      using sp Cons.prems(2) by presburger
    show ?case using Cons.IH [OF _ mx] Cons.IH [OF _ sp] Cons.prems run by (auto simp: wrap_u32_def)
  qed
qed

lemma gear_runs_rle:
  "length (g # gs) < 2 ^ 32 \<Longrightarrow> map (\<lambda>r. (gr_gear r, gr_frames r)) (compute_gear_runs (g # gs)) = rle g 1 gs"
  using gear_run_loop_rle [of 1 gs g] by (simp add: compute_gear_runs_def comp_def split_def)

lemma ap_runs_rle:
  "length (m # ms) < 2 ^ 32 \<Longrightarrow> map (\<lambda>r. (ar_ap r, ar_frames r)) (compute_ap_runs (m # ms)) = rle m 1 ms"
  using ap_run_loop_rle [of 1 ms m] by (simp add: compute_ap_runs_def comp_def split_def)

lemma flag_runs_rle:
  "length (f # fs) < 2 ^ 32 \<Longrightarrow> map (\<lambda>r. (fr_flags r, fr_frames r)) (compute_flag_runs (f # fs) speeds) = rle f 1 fs"
  using flag_run_loop_rle [of 1 fs speeds 1 f] by (simp add: compute_flag_runs_def)

lemma expand_pairs: "expand f n rs = concat (map (\<lambda>(g, k). replicate k g) (map (\<lambda>r. (f r, n r)) rs))"
  by (simp add: expand_def comp_def)

lemma frames_of_runs: "length gears < 2 ^ 32 \<Longrightarrow> gears \<noteq> [] \<Longrightarrow> expand gr_gear gr_frames (compute_gear_runs gears) = gears"
  by (cases gears) (simp_all add: expand_pairs gear_runs_rle rle_expand)

lemma modes_of_runs: "length modes < 2 ^ 32 \<Longrightarrow> modes \<noteq> [] \<Longrightarrow> expand ar_ap ar_frames (compute_ap_runs modes) = modes"
  by (cases modes) (simp_all add: expand_pairs ap_runs_rle rle_expand)

lemma flags_of_runs: "length flags < 2 ^ 32 \<Longrightarrow> flags \<noteq> [] \<Longrightarrow> expand fr_flags fr_frames (compute_flag_runs flags speeds) = flags"
  by (cases flags) (simp_all add: expand_pairs flag_runs_rle rle_expand)

section \<open>Properties\<close>

text \<open>
  C18. Stored columns come back: points, float columns, gear runs, autopilot runs and the grace prefix are
  decoded to what was encoded (bit for bit, absent columns to absent ones), for frame counts and
  durations that fit their types; and a column of points, floats or runs that decodes at all is the
  encoding of what it decodes to, so no two byte strings mean the same column.
\<close>

theorem columns_roundtrip:
  assumes "list_all (\<lambda>r. gr_frames r < 2 ^ 32) gears" and "list_all (\<lambda>r. ar_frames r < 2 ^ 32) modes"
    and "length prefix = 5" and "list_all valid_bucket prefix"
  shows "decode_points (encode_points pts) = Inr pts \<and> decode_f32s (encode_f32s fs) = Inr fs \<and>
    decode_gear_runs (encode_gear_runs (Some gears)) = Inr (Some gears) \<and>
    decode_ap_runs (encode_ap_runs (Some modes)) = Inr (Some modes) \<and>
    decode_safety_grace_prefix (Some (encode_safety_grace_prefix prefix)) = prefix \<and>
    (decode_points buf = Inr pts' \<longrightarrow> encode_points pts' = buf) \<and>
    (decode_f32s buf = Inr fs' \<longrightarrow> encode_f32s fs' = buf) \<and>
    (decode_gear_runs buf = Inr gears' \<longrightarrow> encode_gear_runs gears' = buf) \<and>
    (decode_ap_runs buf = Inr modes' \<longrightarrow> encode_ap_runs modes' = buf)"
proof (intro conjI impI)
  have all: "list_all (\<lambda>_. True) xs" for xs by (simp add: list_all_iff)
  show "decode_points (encode_points pts) = Inr pts"
    unfolding decode_points_def encode_points_def using points.decode_encode [OF all] points.decode_none by (cases pts) simp_all
  show "decode_f32s (encode_f32s fs) = Inr fs"
    unfolding decode_f32s_def encode_f32s_def using floats.decode_encode [OF all] floats.decode_none by (cases fs) simp_all
  show "decode_gear_runs (encode_gear_runs (Some gears)) = Inr (Some gears)"
    unfolding decode_gear_runs_def encode_gear_runs_def by (rule gears.decode_encode [OF assms(1)])
  show "decode_ap_runs (encode_ap_runs (Some modes)) = Inr (Some modes)"
    unfolding decode_ap_runs_def encode_ap_runs_def by (rule modes.decode_encode [OF assms(2)])
  have "map (\<lambda>i. decode_bucket (take 40 (drop (i * 40) (concat (map encode_bucket prefix))))) [0..<5] = prefix"
    using buckets.decode_encode [OF assms(4)] by (simp add: decode_records_def encode_records_def buckets.length_concat_enc assms(3))
  then show "decode_safety_grace_prefix (Some (encode_safety_grace_prefix prefix)) = prefix"
    by (simp add: decode_safety_grace_prefix_def encode_safety_grace_prefix_def safety_grace_prefix_len_def
        buckets.length_concat_enc assms(3) mult.commute)
  show "encode_points pts' = buf" if "decode_points buf = Inr pts'"
    using that unfolding decode_points_def encode_points_def by (rule points.encode_decode)
  show "encode_f32s fs' = buf" if "decode_f32s buf = Inr fs'"
    using that unfolding decode_f32s_def encode_f32s_def by (rule floats.encode_decode)
  show "encode_gear_runs gears' = buf" if "decode_gear_runs buf = Inr gears'"
    using that unfolding decode_gear_runs_def encode_gear_runs_def by (rule gears.encode_decode)
  show "encode_ap_runs modes' = buf" if "decode_ap_runs buf = Inr modes'"
    using that unfolding decode_ap_runs_def encode_ap_runs_def by (rule modes.encode_decode)
qed

theorem columns_roundtrip_witness:
  "decode_gear_runs (encode_gear_runs (Some [\<lparr>gr_gear = 1, gr_frames = 3000000000\<rparr>])) = Inr (Some [\<lparr>gr_gear = 1, gr_frames = 3000000000\<rparr>])
   \<and> decode_safety_grace_prefix (Some (encode_safety_grace_prefix default_prefix)) = default_prefix"
proof -
  have "list_all (\<lambda>r. gr_frames r < 2 ^ 32) [\<lparr>gr_gear = 1, gr_frames = 3000000000\<rparr>]" by simp
  moreover have "list_all valid_bucket default_prefix"
    by (simp add: default_prefix_def zero_bucket_def valid_bucket_def i64_range_def list_all_iff)
  moreover have "length default_prefix = 5" "list_all (\<lambda>r. ar_frames r < 2 ^ 32) []" by (simp_all add: default_prefix_def)
  ultimately show ?thesis
    using columns_roundtrip [of "[\<lparr>gr_gear = 1, gr_frames = 3000000000\<rparr>]" "[]" default_prefix] by blast
qed

text \<open>
  C19. From extraction to the database and back: the flag runs computed from a clip's frames and speeds are
  what the database returns after the top speed of each run has passed through single precision, for
  speeds up to two to the 18 metres per second.
\<close>

theorem flag_runs_survive:
  assumes "length flags < 2 ^ 32" and "\<And>i. i < length speeds \<Longrightarrow> \<exists>v. speeds ! i = Finite v \<and> \<bar>v\<bar> \<le> 2 ^ 18"
  shows "decode_flag_runs (encode_flag_runs (Some (compute_flag_runs flags (Some speeds)))) =
    Inr (Some (compute_flag_runs flags (Some speeds)))"
proof -
  have "list_all (\<lambda>r. fr_frames r < 2 ^ 32 \<and> tenth_speed (max_mps r)) (compute_flag_runs flags (Some speeds))"
  proof (cases flags)
    case (Cons f fs)
    have "\<exists>v. speed_at (Some speeds) 0 = Finite v \<and> 0 \<le> v \<and> v \<le> 2 ^ 18"
      using assms(2) [of 0] by (auto simp: speed_at_def f64_abs_def)
    moreover have "1 + length fs < 2 ^ 32" using assms(1) Cons by simp
    ultimately have "list_all (\<lambda>r. fr_frames r < 2 ^ 32 \<and> tenth_speed (max_mps r))
        (flag_run_loop (Some speeds) 1 f 1 (speed_at (Some speeds) 0) fs)"
      using assms(2) by (intro flag_run_loop_tenths) auto
    then show ?thesis using Cons by (simp add: compute_flag_runs_def)
  qed (simp add: compute_flag_runs_def)
  then show ?thesis unfolding decode_flag_runs_def encode_flag_runs_def by (rule flags.decode_encode)
qed

theorem flag_runs_survive_witness:
  "decode_flag_runs (encode_flag_runs (Some (compute_flag_runs [3, 3, 0] (Some [Finite (27 / 10), Finite 1, Finite 0])))) =
     Inr (Some (compute_flag_runs [3, 3, 0] (Some [Finite (27 / 10), Finite 1, Finite 0])))"
proof (rule flag_runs_survive)
  fix i assume "i < length [Finite (27 / 10), Finite 1, Finite 0]"
  then consider "i = 0" | "i = 1" | "i = 2" by fastforce
  then show "\<exists>v. [Finite (27 / 10), Finite 1, Finite 0] ! i = Finite v \<and> \<bar>v\<bar> \<le> 2 ^ 18"
    by cases (simp_all add: exI [of _ "27 / 10"])
qed simp

text \<open>
  The runs of a clip stand for its frames: expanding the gear, autopilot and flag runs gives back the
  frames, neighbouring runs differ, and the runs pass the check of the detector that they span all the
  frames of the clip.
\<close>

theorem runs_stand_for_frames:
  assumes "length gears < 2 ^ 32" and "length modes < 2 ^ 32" and "length flags < 2 ^ 32" and "gears \<noteq> []" and "modes \<noteq> []" and "flags \<noteq> []"
  shows "expand gr_gear gr_frames (compute_gear_runs gears) = gears \<and>
    expand ar_ap ar_frames (compute_ap_runs modes) = modes \<and>
    expand fr_flags fr_frames (compute_flag_runs flags speeds) = flags \<and>
    successively (\<lambda>a b. gr_gear a \<noteq> gr_gear b) (compute_gear_runs gears) \<and>
    runs_span_frames (map gr_frames (compute_gear_runs gears)) (length gears) \<and>
    runs_span_frames (map ar_frames (compute_ap_runs modes)) (length modes) \<and>
    runs_span_frames (map fr_frames (compute_flag_runs flags speeds)) (length flags)"
proof -
  have span: "runs_span_frames (map snd (rle c 1 xs)) (Suc (length xs))" for c :: u8 and xs
    using rle_positive [of 1 c xs] rle_total [of c 1 xs] by (fastforce simp: runs_span_frames_def list_all_iff)
  obtain g gs where "gears = g # gs" using assms(4) by (cases gears) auto
  moreover obtain m ms where "modes = m # ms" using assms(5) by (cases modes) auto
  moreover obtain f fs where "flags = f # fs" using assms(6) by (cases flags) auto
  ultimately have c: "gears = g # gs" "modes = m # ms" "flags = f # fs" by simp_all
  have G: "map (\<lambda>r. (gr_gear r, gr_frames r)) (compute_gear_runs gears) = rle g 1 gs" using gear_runs_rle assms(1) c by simp
  have M: "map (\<lambda>r. (ar_ap r, ar_frames r)) (compute_ap_runs modes) = rle m 1 ms" using ap_runs_rle assms(2) c by simp
  have F: "map (\<lambda>r. (fr_flags r, fr_frames r)) (compute_flag_runs flags speeds) = rle f 1 fs" using flag_runs_rle assms(3) c by simp
  have "successively (\<lambda>a b. fst a \<noteq> fst b) (map (\<lambda>r. (gr_gear r, gr_frames r)) (compute_gear_runs gears))"
    unfolding G by (rule rle_maximal [THEN conjunct1])
  then have mx: "successively (\<lambda>a b. gr_gear a \<noteq> gr_gear b) (compute_gear_runs gears)" by (simp add: successively_map)
  have sG: "map gr_frames (compute_gear_runs gears) = map snd (rle g 1 gs)" using arg_cong [OF G, of "map snd"] by (simp add: comp_def)
  have sM: "map ar_frames (compute_ap_runs modes) = map snd (rle m 1 ms)" using arg_cong [OF M, of "map snd"] by (simp add: comp_def)
  have sF: "map fr_frames (compute_flag_runs flags speeds) = map snd (rle f 1 fs)" using arg_cong [OF F, of "map snd"] by (simp add: comp_def)
  have x: "expand gr_gear gr_frames (compute_gear_runs gears) = gears" "expand ar_ap ar_frames (compute_ap_runs modes) = modes"
    "expand fr_flags fr_frames (compute_flag_runs flags speeds) = flags"
    using assms by (simp_all add: frames_of_runs modes_of_runs flags_of_runs)
  have l: "length gears = Suc (length gs)" "length modes = Suc (length ms)" "length flags = Suc (length fs)" by (simp_all add: c)
  show ?thesis unfolding sG sM sF l using x mx span by blast
qed

theorem runs_stand_for_frames_witness:
  "expand gr_gear gr_frames (compute_gear_runs [0, 0, 1]) = [0, 0, 1] \<and>
   runs_span_frames (map ar_frames (compute_ap_runs [1])) 1"
  using runs_stand_for_frames [of "[0, 0, 1]" "[1]" "[3]" None] by simp

end
