(* ===== verification/SeiExtract.thy ===== *)
theory SeiExtract
  imports BlobCodec Mp4Samples
begin

section \<open>Telemetry in a recording\<close>

text \<open>
  \<^verbatim>\<open>crates/drives/src/extract.rs\<close>: finding the media data of a recording, walking its NAL units, decoding
  the metadata that the car puts in SEI units, and reducing the frames to a route. A file is its bytes.
  Loops that may not end have the value \<open>None\<close> for that. The parallel per-frame arrays of the code are
  one list of rows here, an array being a column of it.
\<close>

unbundle bit_operations_syntax

subsection \<open>Metadata of one frame\<close>

record sei_frame =
  sf_lat :: f64
  sf_lon :: f64
  sf_gear :: u8
  sf_ap_state :: u8
  sf_speed :: f32
  sf_accel_pos :: f32
  sf_blinker_left :: bool
  sf_blinker_right :: bool
  sf_brake :: bool
  sf_accel_x :: f32
  sf_accel_y :: f32
  sf_steering_deg :: f32

definition zero_frame :: sei_frame where
  "zero_frame = \<lparr>sf_lat = Finite 0, sf_lon = Finite 0, sf_gear = 0, sf_ap_state = 0, sf_speed = Finite 0,
     sf_accel_pos = Finite 0, sf_blinker_left = False, sf_blinker_right = False, sf_brake = False,
     sf_accel_x = Finite 0, sf_accel_y = Finite 0, sf_steering_deg = Finite 0\<rparr>"

fun varint_loop :: "nat \<Rightarrow> u64 \<Rightarrow> nat \<Rightarrow> bytes \<Rightarrow> u64 \<times> nat" where
  "varint_loop i v shift [] = (0, 0)"
| "varint_loop i v shift (b # bs) =
     (if i \<ge> 10 then (0, 0)
      else let v' = v OR push_bit shift (ucast (b AND 0x7F))
           in if b < 0x80 then (v', i + 1) else varint_loop (i + 1) v' (shift + 7) bs)"

definition decode_varint :: "bytes \<Rightarrow> u64 \<times> nat" where
  "decode_varint data = varint_loop 0 0 0 data"

definition set_varint :: "u64 \<Rightarrow> u64 \<Rightarrow> sei_frame \<Rightarrow> sei_frame" where
  "set_varint field v f =
     (if field = 2 then f\<lparr>sf_gear := ucast v\<rparr>
      else if field = 7 then f\<lparr>sf_blinker_left := v \<noteq> 0\<rparr>
      else if field = 8 then f\<lparr>sf_blinker_right := v \<noteq> 0\<rparr>
      else if field = 9 then f\<lparr>sf_brake := v \<noteq> 0\<rparr>
      else if field = 10 then f\<lparr>sf_ap_state := ucast v\<rparr> else f)"

definition set_fixed64 :: "u64 \<Rightarrow> u64 \<Rightarrow> sei_frame \<Rightarrow> sei_frame" where
  "set_fixed64 field bits f =
     (let v = f64_of_bits bits
      in if field = 11 then f\<lparr>sf_lat := v\<rparr>
         else if field = 12 then f\<lparr>sf_lon := v\<rparr>
         else if field = 14 then f\<lparr>sf_accel_x := f64_as_f32 v\<rparr>
         else if field = 15 then f\<lparr>sf_accel_y := f64_as_f32 v\<rparr> else f)"

definition set_fixed32 :: "u64 \<Rightarrow> u32 \<Rightarrow> sei_frame \<Rightarrow> sei_frame" where
  "set_fixed32 field bits f =
     (let v = f32_of_bits bits
      in if field = 4 then f\<lparr>sf_speed := v\<rparr>
         else if field = 5 then f\<lparr>sf_accel_pos := v\<rparr>
         else if field = 6 then f\<lparr>sf_steering_deg := v\<rparr> else f)"

text \<open>
  The loop over the fields. The outer \<open>None\<close> is a loop that does not end: the position is advanced by a
  length from the data, and the addition wraps. The inner \<open>None\<close> is the function's own.
\<close>

partial_function (option) sei_loop :: "bytes \<Rightarrow> nat \<Rightarrow> sei_frame \<Rightarrow> sei_frame option option" where
  "sei_loop data i f =
     (if \<not> i < length data then Some (Some f)
      else if snd (decode_varint (drop i data)) = 0 then Some (Some f)
      else let tag = fst (decode_varint (drop i data)); j = i + snd (decode_varint (drop i data));
               field = drop_bit 3 tag; wire = tag AND 7
           in if wire = 0
              then (if snd (decode_varint (drop j data)) = 0 then Some None
                    else sei_loop data (j + snd (decode_varint (drop j data)))
                           (set_varint field (fst (decode_varint (drop j data))) f))
              else if wire = 1
              then (if j + 8 > length data then Some None
                    else sei_loop data (j + 8) (set_fixed64 field (u64_from_le (take 8 (drop j data))) f))
              else if wire = 2
              then (if snd (decode_varint (drop j data)) = 0 then Some None
                    else sei_loop data
                           (wrap_u64 (j + (snd (decode_varint (drop j data)) + unat (fst (decode_varint (drop j data)))))) f)
              else if wire = 5
              then (if j + 4 > length data then Some None
                    else sei_loop data (j + 4) (set_fixed32 field (u32_from_le (take 4 (drop j data))) f))
              else Some None)"

definition is_finite :: "f64 \<Rightarrow> bool" where
  "is_finite x = (case x of Finite _ \<Rightarrow> True | _ \<Rightarrow> False)"

definition abs_le :: "f64 \<Rightarrow> rat \<Rightarrow> bool" where
  "abs_le x c = (case x of Finite v \<Rightarrow> \<bar>v\<bar> \<le> c | _ \<Rightarrow> False)"

definition gps_ok :: "sei_frame \<Rightarrow> bool" where
  "gps_ok f \<longleftrightarrow> is_finite (sf_lat f) \<and> is_finite (sf_lon f) \<and> \<not> (sf_lat f = Finite 0 \<and> sf_lon f = Finite 0) \<and>
     abs_le (sf_lat f) 90 \<and> abs_le (sf_lon f) 180"

definition clean :: "f32 \<Rightarrow> f32" where
  "clean v = (if is_finite v then v else Finite 0)"

definition finish_frame :: "sei_frame \<Rightarrow> sei_frame option" where
  "finish_frame f =
     (if gps_ok f
      then Some (f\<lparr>sf_accel_x := clean (sf_accel_x f), sf_accel_y := clean (sf_accel_y f),
                   sf_steering_deg := clean (sf_steering_deg f)\<rparr>)
      else None)"

definition decode_sei_gps :: "bytes \<Rightarrow> sei_frame option option" where
  "decode_sei_gps data = map_option (\<lambda>r. Option.bind r finish_frame) (sei_loop data 0 zero_frame)"

fun strip_loop :: "nat \<Rightarrow> bytes \<Rightarrow> bytes" where
  "strip_loop zeros [] = []"
| "strip_loop zeros (b # bs) =
     (if zeros \<ge> 2 \<and> b = 3 then strip_loop 0 bs
      else b # strip_loop (if b = 0 then zeros + 1 else 0) bs)"

definition strip_emulation_bytes :: "bytes \<Rightarrow> bytes" where
  "strip_emulation_bytes data = strip_loop 0 data"

definition parse_tesla_sei :: "bytes \<Rightarrow> sei_frame option option" where
  "parse_tesla_sei nal =
     (let i = 3 + length (takeWhile (\<lambda>b. b = 0x42) (drop 3 nal))
      in if i \<le> 3 \<or> i + 1 \<ge> length nal \<or> nal ! i \<noteq> 0x69 then Some None
         else let payload = drop (i + 1) nal;
                  payload' = (if length payload > 1 then butlast payload else payload)
              in decode_sei_gps (strip_emulation_bytes payload'))"

subsection \<open>The media data\<close>

record raw_frame =
  rf_point :: "f64 \<times> f64"
  rf_gear :: u8
  rf_ap_state :: u8
  rf_speed :: f32
  rf_accel_pos :: f32
  rf_flags :: u8
  rf_accel_x :: f32
  rf_accel_y :: f32
  rf_offset :: nat
  rf_frame_index :: nat
  rf_steering_deg :: f32

record sei_scan =
  sc_rows :: "raw_frame list"
  sc_frame_count :: nat

partial_function (option) mdat_loop :: "bytes \<Rightarrow> nat \<Rightarrow> (nat \<times> nat) option" where
  "mdat_loop file pos =
     (if \<not> pos < length file then Some (0, 0)
      else if pos + 8 > length file then Some (0, 0)
      else let size32 = be_to_nat (take 4 (drop pos file));
               is_mdat = (take 4 (drop (pos + 4) file) = map of_char ''mdat'')
           in if size32 = 1 \<and> pos + 16 > length file then Some (0, 0)
              else let box_size = (if size32 = 1 then be_to_nat (take 8 (drop (pos + 8) file))
                                   else if size32 = 0 then length file - pos else size32);
                       header_size = (if size32 = 1 then 16 else 8)
                   in if box_size < header_size then Some (0, 0)
                      else if is_mdat then Some (pos + header_size, box_size - header_size)
                      else mdat_loop file (wrap_u64 (pos + box_size)))"

definition find_mdat_box :: "bytes \<Rightarrow> (nat \<times> nat) option" where
  "find_mdat_box file = mdat_loop file 0"

definition buf_size :: nat where "buf_size = 64 * 1024"

definition flag_blinker_left :: u8 where "flag_blinker_left = 1"
definition flag_blinker_right :: u8 where "flag_blinker_right = 2"
definition flag_brake :: u8 where "flag_brake = 4"
definition flag_accel :: u8 where "flag_accel = 8"

definition frame_flags :: "sei_frame \<Rightarrow> u8" where
  "frame_flags f =
     (if sf_blinker_left f then flag_blinker_left else 0) OR (if sf_blinker_right f then flag_blinker_right else 0) OR
     (if sf_brake f then flag_brake else 0) OR (if f64_gt (sf_accel_pos f) 0 then flag_accel else 0)"

text \<open>\<^verbatim>\<open>(v * 1e6).round() / 1e6\<close> of a coordinate.\<close>

definition round_micro :: "f64 \<Rightarrow> f64" where
  "round_micro x =
     (case x of Finite v \<Rightarrow> Finite (fl (of_int (round_f64 (fl (v * 1000000))) / 1000000)) | _ \<Rightarrow> x)"

definition frame_row :: "nat \<Rightarrow> nat \<Rightarrow> sei_frame \<Rightarrow> raw_frame" where
  "frame_row nal_offset frame_count f =
     \<lparr>rf_point = (round_micro (sf_lat f), round_micro (sf_lon f)), rf_gear = sf_gear f, rf_ap_state = sf_ap_state f,
      rf_speed = sf_speed f, rf_accel_pos = sf_accel_pos f, rf_flags = frame_flags f, rf_accel_x = sf_accel_x f,
      rf_accel_y = sf_accel_y f, rf_offset = nal_offset, rf_frame_index = frame_count,
      rf_steering_deg = sf_steering_deg f\<rparr>"

text \<open>
  The walk over the NAL units from a position on. A read past the end of the file ends it; a skip past
  the end does not fail, but the next read does.
\<close>

function nal_loop :: "bytes \<Rightarrow> nat \<Rightarrow> nat \<Rightarrow> sei_scan \<Rightarrow> sei_scan option" where
  "nal_loop file fin cursor s =
     (if \<not> cursor + 4 \<le> fin \<or> cursor + 4 > length file then Some s
      else let nal_size = be_to_nat (take 4 (drop cursor file)); start = cursor + 4
           in if nal_size < 2 \<or> start + nal_size > fin then Some s
              else if start + 1 > length file then Some s
              else let nal_type = (file ! start) AND 0x1F
                   in if nal_type = 6 \<and> nal_size \<le> buf_size
                      then (if start + nal_size > length file then Some s
                            else case parse_tesla_sei (take nal_size (drop start file)) of
                                   None \<Rightarrow> None
                                 | Some None \<Rightarrow> nal_loop file fin (start + nal_size) s
                                 | Some (Some f) \<Rightarrow>
                                     nal_loop file fin (start + nal_size)
                                       (s\<lparr>sc_rows := sc_rows s @ [frame_row cursor (sc_frame_count s) f]\<rparr>))
                      else if nal_type = 1 \<or> nal_type = 5
                      then (if start + 2 > length file then Some s
                            else nal_loop file fin (start + nal_size)
                                   (if (file ! (start + 1)) AND 0x80 \<noteq> 0
                                    then s\<lparr>sc_frame_count := wrap_u32 (sc_frame_count s + 1)\<rparr> else s))
                      else nal_loop file fin (start + nal_size) s)"
  by pat_completeness auto
termination by (relation "measure (\<lambda>(file, fin, cursor, s). length file - cursor)") auto

declare nal_loop.simps [simp del]

definition extract_from_mdat :: "bytes \<Rightarrow> nat \<Rightarrow> nat \<Rightarrow> sei_scan option" where
  "extract_from_mdat file offset sz =
     nal_loop file (wrap_u64 (offset + sz)) offset \<lparr>sc_rows = [], sc_frame_count = 0\<rparr>"

definition scan_sei_frames :: "bytes \<Rightarrow> sei_scan option" where
  "scan_sei_frames file =
     Option.bind (find_mdat_box file) (\<lambda>(offset, sz).
       if sz = 0 then Some \<lparr>sc_rows = [], sc_frame_count = 0\<rparr> else extract_from_mdat file offset sz)"

subsection \<open>From frames to a route\<close>

definition point_eq :: "f64 \<times> f64 \<Rightarrow> f64 \<times> f64 \<Rightarrow> bool" where
  "point_eq p q \<longleftrightarrow> p = q \<and> fst p \<noteq> NotANumber \<and> snd p \<noteq> NotANumber"

text \<open>A collapsed frame leaves its acceleration if that is the stronger one.\<close>

definition fold_imu :: "raw_frame \<Rightarrow> raw_frame \<Rightarrow> raw_frame" where
  "fold_imu kept r =
     kept\<lparr>rf_accel_x := (if f64_greater (f64_abs (rf_accel_x r)) (f64_abs (rf_accel_x kept)) then rf_accel_x r else rf_accel_x kept),
          rf_accel_y := (if f64_greater (f64_abs (rf_accel_y r)) (f64_abs (rf_accel_y kept)) then rf_accel_y r else rf_accel_y kept)\<rparr>"

definition dedup_step :: "bool \<Rightarrow> raw_frame list \<times> nat \<Rightarrow> nat \<Rightarrow> raw_frame list \<times> nat" where
  "dedup_step has_imu = (\<lambda>(rows, write) read.
     if \<not> point_eq (rf_point (rows ! read)) (rf_point (rows ! write)) then (rows[write + 1 := rows ! read], write + 1)
     else if has_imu then (rows[write := fold_imu (rows ! write) (rows ! read)], write)
     else (rows, write))"

definition dedup_consecutive :: "bool \<Rightarrow> raw_frame list \<Rightarrow> raw_frame list" where
  "dedup_consecutive has_imu rows =
     (if length rows \<le> 1 then rows
      else let (rows', write) = foldl (dedup_step has_imu) (rows, 0) [1..<length rows] in take (write + 1) rows')"

record extracted_gps =
  eg_points :: "(f64 \<times> f64) list"
  eg_gear_states :: "u8 list"
  eg_autopilot_states :: "u8 list"
  eg_speeds :: "f32 list"
  eg_accel_positions :: "f32 list"
  eg_park_count :: nat
  eg_frame_count :: nat
  eg_gear_runs :: "gear_run list"
  eg_flag_runs :: "flag_run list"
  eg_ap_runs :: "ap_run list"
  eg_accel_x :: "f32 list"
  eg_accel_y :: "f32 list"

definition assemble_extracted :: "raw_frame list \<Rightarrow> extracted_gps" where
  "assemble_extracted rows =
     (let has_imu = (\<not> (list_all (\<lambda>r. rf_accel_x r = Finite 0) rows \<and> list_all (\<lambda>r. rf_accel_y r = Finite 0) rows));
          kept = dedup_consecutive has_imu rows
      in \<lparr>eg_points = map rf_point kept, eg_gear_states = map rf_gear kept, eg_autopilot_states = map rf_ap_state kept,
          eg_speeds = map rf_speed kept, eg_accel_positions = map rf_accel_pos kept,
          eg_park_count = wrap_u32 (length (filter (\<lambda>r. rf_gear r = gear_park) rows)),
          eg_frame_count = wrap_u32 (length rows),
          eg_gear_runs = compute_gear_runs (map rf_gear rows),
          eg_flag_runs = compute_flag_runs (map rf_flags rows) (Some (map rf_speed rows)),
          eg_ap_runs = compute_ap_runs (map rf_ap_state rows),
          eg_accel_x = (if has_imu then map rf_accel_x kept else []),
          eg_accel_y = (if has_imu then map rf_accel_y kept else [])\<rparr>)"

definition empty_extracted :: extracted_gps where
  "empty_extracted = \<lparr>eg_points = [], eg_gear_states = [], eg_autopilot_states = [], eg_speeds = [],
     eg_accel_positions = [], eg_park_count = 0, eg_frame_count = 0, eg_gear_runs = [], eg_flag_runs = [],
     eg_ap_runs = [], eg_accel_x = [], eg_accel_y = []\<rparr>"

definition extract_gps_from_file :: "bytes \<Rightarrow> extracted_gps option" where
  "extract_gps_from_file file =
     Option.bind (find_mdat_box file) (\<lambda>(offset, sz).
       if sz = 0 then Some empty_extracted
       else map_option (\<lambda>s. assemble_extracted (sc_rows s)) (extract_from_mdat file offset sz))"

section \<open>Lemmas\<close>

subsection \<open>Numbers of variable length\<close>

function varint :: "nat \<Rightarrow> bytes" where
  "varint n = (if n < 128 then [word_of_nat n] else word_of_nat (n mod 128 + 128) # varint (n div 128))"
  by pat_completeness auto
termination by (relation "measure id") auto

declare varint.simps [simp del]

lemma or_shifted:
  fixes v :: u64
  assumes "unat v < 2 ^ k"
  shows "v OR push_bit k x = v + push_bit k x"
proof -
  have "take_bit k v = v" using assms by (simp add: word_unat_eq_iff unsigned_take_bit_eq take_bit_nat_eq_self_iff)
  then have "k \<le> n \<Longrightarrow> \<not> bit v n" for n by (metis bit_take_bit_iff leD)
  then show ?thesis by (intro disjunctive_add [symmetric]) (auto simp: bit_push_bit_iff)
qed

lemma unat_add_nat:
  fixes v :: u64
  assumes "unat v + m < 2 ^ 64"
  shows "unat (v + word_of_nat m) = unat v + m"
proof -
  have "v + word_of_nat m = word_of_nat (unat v + m)" by simp
  then show ?thesis using assms by (simp only: unat_of_nat) simp
qed

lemma low_bits: "(ucast (b AND 0x7F) :: u64) = word_of_nat (unat (b :: u8) mod 128)"
proof -
  have "b AND 0x7F = take_bit 7 b" by (simp add: take_bit_eq_mask mask_eq_exp_minus_1)
  moreover have "unat (take_bit 7 b) = unat b mod 128"
    by (simp only: unsigned_take_bit_eq) (simp add: take_bit_eq_mod)
  ultimately have "unat (b AND 0x7F) = unat b mod 128" by simp
  then show ?thesis by (simp add: word_unat_eq_iff unsigned_ucast_eq take_bit_nat_eq_self unat_of_nat)
qed

lemma varint_loop_varint:
  assumes "i < 10" and "n < 2 ^ (64 - 7 * i)" and "unat v < 2 ^ (7 * i)"
  shows "varint_loop i v (7 * i) (varint n @ rest) = (v + word_of_nat (n * 2 ^ (7 * i)), i + length (varint n))"
  using assms
proof (induction n arbitrary: i v rule: varint.induct)
  case (1 n)
  have push: "push_bit k (word_of_nat m :: u64) = word_of_nat (m * 2 ^ k)" for k m by (simp add: push_bit_eq_mult)
  have orp: "v OR word_of_nat m * 2 ^ (7 * i) = v + word_of_nat m * 2 ^ (7 * i)" for m
    using or_shifted [OF 1(4), of "word_of_nat m"] unfolding push by simp
  show ?case
  proof (cases "n < 128")
    case True
    then have "word_of_nat n < (0x80 :: u8)" by (simp add: word_less_nat_alt unat_of_nat)
    then show ?thesis
      using True 1(2) orp low_bits [of "word_of_nat n"]
      by (subst (1 2) varint.simps) (simp add: Let_def push unat_of_nat)
  next
    case False
    have i9: "i < 9"
    proof (rule ccontr)
      assume "\<not> i < 9"
      with 1(2) have "i = 9" by simp
      with 1(3) False show False by simp
    qed
    let ?b = "word_of_nat (n mod 128 + 128) :: u8"
    have "n mod 128 + 128 < 256" by (simp add: mod_less_divisor less_diff_conv2 [symmetric])
    then have ub: "unat ?b = n mod 128 + 128" by (simp del: of_nat_add)
    then have b: "\<not> ?b < 0x80" "unat ?b mod 128 = n mod 128" by (simp_all add: word_less_nat_alt)
    let ?v = "v + word_of_nat ((n mod 128) * 2 ^ (7 * i))"
    have p: "(2 :: nat) ^ (7 * i) * 128 = 2 ^ (7 * Suc i)" by (simp add: power_add)
    have "n mod 128 * 2 ^ (7 * i) \<le> 127 * 2 ^ (7 * i)" by (rule mult_right_mono) simp_all
    then have "unat v + n mod 128 * 2 ^ (7 * i) < 2 ^ (7 * i) + 127 * 2 ^ (7 * i)" using 1(4) by linarith
    also have "\<dots> = 2 ^ (7 * Suc i)" using p by simp
    finally have less: "unat v + (n mod 128) * 2 ^ (7 * i) < 2 ^ (7 * Suc i)" .
    have "(2 :: nat) ^ (7 * Suc i) \<le> 2 ^ 64" using i9 by (intro power_increasing) simp_all
    with less have uv: "unat ?v = unat v + (n mod 128) * 2 ^ (7 * i)"
      by (intro unat_add_nat) (rule less_le_trans)
    have "n div 128 < 2 ^ (64 - 7 * Suc i)"
    proof -
      have "(2 :: nat) ^ (64 - 7 * i) = 2 ^ (64 - 7 * Suc i) * 128"
      proof -
        have "64 - 7 * i = (64 - 7 * Suc i) + 7" using i9 by simp
        then show ?thesis by (simp only: power_add) simp
      qed
      then show ?thesis using 1(3) by (simp add: div_less_iff_less_mult)
    qed
    from 1(1) [OF False _ this] i9 uv less
    have IH: "varint_loop (Suc i) ?v (7 * Suc i) (varint (n div 128) @ rest) =
        (?v + word_of_nat (n div 128 * 2 ^ (7 * Suc i)), Suc i + length (varint (n div 128)))" by simp
    have "(n mod 128) * 2 ^ (7 * i) + n div 128 * 2 ^ (7 * Suc i) = (n mod 128 + n div 128 * 128) * 2 ^ (7 * i)"
      unfolding p [symmetric] by (simp only: distrib_left distrib_right ac_simps)
    then have sum: "(n mod 128) * 2 ^ (7 * i) + n div 128 * 2 ^ (7 * Suc i) = n * 2 ^ (7 * i)"
      by (simp only: mod_div_mult_eq)
    have "(word_of_nat (n mod 128) :: u64) * 2 ^ (7 * i) + word_of_nat (n div 128) * 2 ^ (7 * Suc i) = word_of_nat n * 2 ^ (7 * i)"
      using arg_cong [OF sum, of "word_of_nat :: nat \<Rightarrow> u64"] by simp
    moreover have "varint n = ?b # varint (n div 128)" using False by (subst varint.simps) simp
    ultimately show ?thesis
      using IH 1(2) orp low_bits [of ?b] b
      by (simp add: Let_def push add.assoc) (simp add: add.commute)
  qed
qed

lemma decode_varint_varint:
  assumes "n < 2 ^ 64"
  shows "decode_varint (varint n @ rest) = (word_of_nat n, length (varint n))"
  using varint_loop_varint [of 0 n 0 rest] assms by (simp add: decode_varint_def)

lemma varint_nonempty [simp]: "varint n \<noteq> []"
  by (subst varint.simps) simp

text \<open>Numbers and reading them keep the contract of a self-delimiting code.\<close>

interpretation varints: prefix_codec "\<lambda>w :: u64. varint (unat w)"
  "\<lambda>b. if snd (decode_varint b) = 0 then None else Some (fst (decode_varint b), drop (snd (decode_varint b)) b)" "\<lambda>_. True"
proof
  fix w :: u64 and rest
  have "unat w < 2 ^ 64" using unsigned_less [of w] by simp
  then show "(if snd (decode_varint (varint (unat w) @ rest)) = 0 then None
      else Some (fst (decode_varint (varint (unat w) @ rest)),
        drop (snd (decode_varint (varint (unat w) @ rest))) (varint (unat w) @ rest))) = Some (w, rest)"
    by (simp add: decode_varint_varint)
qed

subsection \<open>Messages\<close>

text \<open>The fields of a message, how they are written, and what each means to the decoder.\<close>

datatype sei_field = VarintField nat u64 | Fixed64Field nat u64 | BytesField nat bytes | Fixed32Field nat u32

definition tag :: "nat \<Rightarrow> nat \<Rightarrow> bytes" where
  "tag field wire = varint (field * 8 + wire)"

fun field_bytes :: "sei_field \<Rightarrow> bytes" where
  "field_bytes (VarintField n v) = tag n 0 @ varint (unat v)"
| "field_bytes (Fixed64Field n v) = tag n 1 @ u64_to_le v"
| "field_bytes (BytesField n b) = tag n 2 @ varint (length b) @ b"
| "field_bytes (Fixed32Field n v) = tag n 5 @ u32_to_le v"

fun field_number :: "sei_field \<Rightarrow> nat" where
  "field_number (VarintField n v) = n"
| "field_number (Fixed64Field n v) = n"
| "field_number (BytesField n b) = n"
| "field_number (Fixed32Field n v) = n"

fun apply_field :: "sei_frame \<Rightarrow> sei_field \<Rightarrow> sei_frame" where
  "apply_field f (VarintField n v) = set_varint (word_of_nat n) v f"
| "apply_field f (Fixed64Field n v) = set_fixed64 (word_of_nat n) v f"
| "apply_field f (BytesField n b) = f"
| "apply_field f (Fixed32Field n v) = set_fixed32 (word_of_nat n) v f"

lemma tag_parts:
  assumes "n < 2 ^ 61" and "w < 8"
  shows "drop_bit 3 (word_of_nat (n * 8 + w) :: u64) = word_of_nat n" and "(word_of_nat (n * 8 + w) :: u64) AND 7 = word_of_nat w"
    and "decode_varint (tag n w @ rest) = (word_of_nat (n * 8 + w), length (tag n w))"
proof -
  have less: "n * 8 + w < 2 ^ 64" using assms by simp
  then have u: "unat (word_of_nat (n * 8 + w) :: u64) = n * 8 + w" by (simp add: unat_of_nat del: of_nat_add of_nat_mult)
  have "unat (drop_bit 3 (word_of_nat (n * 8 + w) :: u64)) = (n * 8 + w) div 8"
    by (simp only: unsigned_drop_bit_eq u) (use less in \<open>simp add: drop_bit_eq_div take_bit_nat_eq_self\<close>)
  then show "drop_bit 3 (word_of_nat (n * 8 + w) :: u64) = word_of_nat n"
    using assms by (simp add: word_unat_eq_iff unat_of_nat)
  have "(word_of_nat (n * 8 + w) :: u64) AND 7 = take_bit 3 (word_of_nat (n * 8 + w))"
    by (simp add: take_bit_eq_mask mask_eq_exp_minus_1)
  moreover have "unat (take_bit 3 (word_of_nat (n * 8 + w) :: u64)) = (n * 8 + w) mod 8"
    by (simp only: unsigned_take_bit_eq u) (simp add: take_bit_eq_mod)
  ultimately show "(word_of_nat (n * 8 + w) :: u64) AND 7 = word_of_nat w"
    using assms(2) by (simp add: word_unat_eq_iff unat_of_nat)
  show "decode_varint (tag n w @ rest) = (word_of_nat (n * 8 + w), length (tag n w))"
    unfolding tag_def by (rule decode_varint_varint [OF less])
qed

lemma sei_loop_field:
  assumes "field_number fd < 2 ^ 61" and "length (pre @ field_bytes fd @ post) < 2 ^ 63"
  shows "sei_loop (pre @ field_bytes fd @ post) (length pre) f =
    sei_loop (pre @ field_bytes fd @ post) (length (pre @ field_bytes fd)) (apply_field f fd)"
proof -
  have t: "tag n w \<noteq> []" for n w by (simp add: tag_def)
  have u: "unat v < 2 ^ 64" for v :: u64 using unsigned_less [of v] by simp
  show ?thesis
  proof (cases fd)
    case (VarintField n v)
    then have n: "n < 2 ^ 61" using assms(1) by simp
    have dv: "decode_varint (varint (unat v) @ post) = (v, length (varint (unat v)))" using decode_varint_varint [OF u, of v post] by simp
    show ?thesis
      using tag_parts [OF n, of 0] dv t [of n 0] VarintField
      by (subst sei_loop.simps) (simp add: Let_def add.assoc)
  next
    case (Fixed64Field n v)
    then have n: "n < 2 ^ 61" using assms(1) by simp
    show ?thesis
      using tag_parts [OF n, of 1] t [of n 1] Fixed64Field
      by (subst sei_loop.simps) (simp add: Let_def add.assoc)
  next
    case (BytesField n b)
    then have n: "n < 2 ^ 61" using assms(1) by simp
    have l: "length b < 2 ^ 64" "length pre + (length (tag n 2) + (length (varint (length b)) + length b)) < 2 ^ 64"
      using assms(2) BytesField by simp_all
    have dv: "decode_varint (varint (length b) @ b @ post) = (word_of_nat (length b), length (varint (length b)))"
      using decode_varint_varint [OF l(1), of "b @ post"] by simp
    have ub: "unat (word_of_nat (length b) :: u64) = length b" using l(1) by (simp add: unat_of_nat)
    show ?thesis
      using tag_parts [OF n, of 2] dv t [of n 2] BytesField l(2) ub
      by (subst sei_loop.simps) (simp add: Let_def wrap_u64_def add.assoc)
  next
    case (Fixed32Field n v)
    then have n: "n < 2 ^ 61" using assms(1) by simp
    show ?thesis
      using tag_parts [OF n, of 5] t [of n 5] Fixed32Field
      by (subst sei_loop.simps) (simp add: Let_def add.assoc)
  qed
qed

lemma sei_loop_fields:
  assumes "list_all (\<lambda>fd. field_number fd < 2 ^ 61) fds" and "length (pre @ concat (map field_bytes fds)) < 2 ^ 63"
  shows "sei_loop (pre @ concat (map field_bytes fds)) (length pre) f = Some (Some (foldl apply_field f fds))"
  using assms
proof (induction fds arbitrary: pre f)
  case Nil
  then show ?case by (subst sei_loop.simps) simp
next
  case (Cons fd fds)
  have "sei_loop (pre @ field_bytes fd @ concat (map field_bytes fds)) (length pre) f =
      sei_loop (pre @ field_bytes fd @ concat (map field_bytes fds)) (length (pre @ field_bytes fd)) (apply_field f fd)"
    using Cons.prems by (intro sei_loop_field) simp_all
  then show ?case using Cons.IH [of "pre @ field_bytes fd" "apply_field f fd"] Cons.prems by simp
qed

subsection \<open>Emulation prevention\<close>

text \<open>The encoder's side: a byte 3 before a byte up to 3 that follows two zeros.\<close>

fun escape_loop :: "nat \<Rightarrow> bytes \<Rightarrow> bytes" where
  "escape_loop zeros [] = []"
| "escape_loop zeros (b # bs) =
     (if zeros \<ge> 2 \<and> b \<le> 3 then 3 # b # escape_loop (if b = 0 then 1 else 0) bs
      else b # escape_loop (if b = 0 then zeros + 1 else 0) bs)"

lemma strip_escape: "strip_loop z (escape_loop z bs) = bs"
  by (induction z bs rule: escape_loop.induct) auto

subsection \<open>Collapsing equal points\<close>

text \<open>The specification: each stretch of frames at one point becomes one row.\<close>

fun collapse :: "bool \<Rightarrow> raw_frame \<Rightarrow> raw_frame list \<Rightarrow> raw_frame list" where
  "collapse imu kept [] = [kept]"
| "collapse imu kept (r # rs) =
     (if point_eq (rf_point r) (rf_point kept) then collapse imu (if imu then fold_imu kept r else kept) rs
      else kept # collapse imu r rs)"

lemma collapse_nonempty [simp]: "collapse imu kept rs \<noteq> []"
  by (induction imu kept rs rule: collapse.induct) auto

lemma collapse_snoc:
  "collapse imu kept (rs @ [r]) =
     (let c = collapse imu kept rs
      in if point_eq (rf_point r) (rf_point (last c)) then butlast c @ [if imu then fold_imu (last c) r else last c] else c @ [r])"
proof (induction imu kept rs rule: collapse.induct)
  case (2 imu kept s rs)
  then show ?case by (simp add: Let_def)
qed (simp add: Let_def)

lemma length_collapse: "length (collapse imu kept rs) \<le> Suc (length rs)"
  by (induction imu kept rs rule: collapse.induct) auto

lemma dedup_loop_collapse:
  assumes "k \<le> length rs"
  shows "\<exists>rows w. foldl (dedup_step imu) (r # rs, 0) [1..<Suc k] = (rows, w) \<and> w \<le> k \<and> length rows = Suc (length rs) \<and>
    drop (Suc k) rows = drop k rs \<and> take (Suc w) rows = collapse imu r (take k rs)"
  using assms
proof (induction k)
  case (Suc k)
  then obtain rows w where IH: "foldl (dedup_step imu) (r # rs, 0) [1..<Suc k] = (rows, w)" "w \<le> k" "length rows = Suc (length rs)"
    "drop (Suc k) rows = drop k rs" "take (Suc w) rows = collapse imu r (take k rs)" by auto
  have k: "k < length rs" using Suc.prems by simp
  have read: "rows ! Suc k = rs ! k"
  proof -
    have "hd (drop (Suc k) rows) = hd (drop k rs)" using IH(4) by simp
    then show ?thesis using k IH(3) by (simp add: hd_drop_conv_nth)
  qed
  have lst: "last (collapse imu r (take k rs)) = rows ! w" and bl: "butlast (collapse imu r (take k rs)) = take w rows"
    using IH(2,3,5) k by (metis (no_types, lifting) butlast_take diff_Suc_1 last_snoc le_imp_less_Suc less_le_trans less_trans_Suc not_less take_Suc_conv_app_nth Suc_leI less_SucI)+
  have fold: "foldl (dedup_step imu) (r # rs, 0) [1..<Suc (Suc k)] = dedup_step imu (rows, w) (Suc k)"
    using IH(1) by simp
  have snoc: "take (Suc k) rs = take k rs @ [rs ! k]" using k by (rule take_Suc_conv_app_nth)
  have d: "drop (Suc (Suc k)) rows = drop (Suc k) rs" using IH(4) by (metis drop_Suc drop_drop plus_1_eq_Suc tl_drop)
  show ?case
  proof (cases "point_eq (rf_point (rs ! k)) (rf_point (rows ! w))")
    case True
    let ?m = "if imu then fold_imu (rows ! w) (rs ! k) else rows ! w"
    have step: "dedup_step imu (rows, w) (Suc k) = (rows[w := ?m], w)"
      using True read by (simp add: dedup_step_def)
    have "take (Suc w) (rows[w := ?m]) = take w rows @ [?m]"
      using IH(2,3) k by (simp add: take_Suc_conv_app_nth)
    moreover have "drop (Suc (Suc k)) (rows[w := ?m]) = drop (Suc k) rs" using IH(2) d by simp
    moreover have "collapse imu r (take (Suc k) rs) = take w rows @ [?m]"
      unfolding snoc collapse_snoc Let_def lst bl using True by simp
    ultimately show ?thesis using IH(2,3) fold step by simp
  next
    case False
    have step: "dedup_step imu (rows, w) (Suc k) = (rows[Suc w := rs ! k], Suc w)"
      using False read by (simp add: dedup_step_def)
    have "take (Suc (Suc w)) (rows[Suc w := rs ! k]) = take (Suc w) rows @ [rs ! k]"
      using IH(2,3) k by (simp add: take_Suc_conv_app_nth)
    moreover have "drop (Suc (Suc k)) (rows[Suc w := rs ! k]) = drop (Suc k) rs" using IH(2) d by simp
    moreover have "collapse imu r (take (Suc k) rs) = take (Suc w) rows @ [rs ! k]"
      unfolding snoc collapse_snoc Let_def lst using False IH(5) by simp
    ultimately show ?thesis using IH(2,3) fold step by simp
  qed
qed simp

lemma dedup_collapse: "dedup_consecutive imu (r # rs) = collapse imu r rs"
proof (cases rs)
  case (Cons s ss)
  obtain rows w where "foldl (dedup_step imu) (r # rs, 0) [1..<Suc (length rs)] = (rows, w)" "take (Suc w) rows = collapse imu r rs"
    using dedup_loop_collapse [of "length rs" rs imu r] by auto
  then show ?thesis using Cons by (simp add: dedup_consecutive_def)
qed (simp add: dedup_consecutive_def)

lemma collapse_points:
  assumes "list_all (\<lambda>r. fst (rf_point r) \<noteq> NotANumber \<and> snd (rf_point r) \<noteq> NotANumber) rs"
  shows "map rf_point (collapse imu kept rs) = remdups_adj (rf_point kept # map rf_point rs)"
  using assms by (induction imu kept rs rule: collapse.induct) (auto simp: point_eq_def fold_imu_def)

subsection \<open>NAL units\<close>

definition nal_unit :: "bytes \<Rightarrow> bytes" where
  "nal_unit nal = nat_to_be 4 (length nal) @ nal"

definition valid_nal :: "bytes \<Rightarrow> bool" where
  "valid_nal nal \<longleftrightarrow> 2 \<le> length nal \<and> length nal < 2 ^ 32"

text \<open>The specification of the walk: one unit after the other.\<close>

definition nal_effect :: "nat \<Rightarrow> bytes \<Rightarrow> sei_scan \<Rightarrow> sei_scan option" where
  "nal_effect offset nal s =
     (let nal_type = (nal ! 0) AND 0x1F
      in if nal_type = 6 \<and> length nal \<le> buf_size
         then map_option (\<lambda>r. case r of None \<Rightarrow> s
                | Some f \<Rightarrow> s\<lparr>sc_rows := sc_rows s @ [frame_row offset (sc_frame_count s) f]\<rparr>) (parse_tesla_sei nal)
         else if (nal_type = 1 \<or> nal_type = 5) \<and> (nal ! 1) AND 0x80 \<noteq> 0
         then Some (s\<lparr>sc_frame_count := wrap_u32 (sc_frame_count s + 1)\<rparr>)
         else Some s)"

fun walk_nals :: "nat \<Rightarrow> bytes list \<Rightarrow> sei_scan \<Rightarrow> sei_scan option" where
  "walk_nals offset [] s = Some s"
| "walk_nals offset (nal # nals) s =
     Option.bind (nal_effect offset nal s) (walk_nals (offset + length (nal_unit nal)) nals)"

lemma nal_loop_unit:
  assumes "valid_nal nal" and "length (pre @ nal_unit nal) \<le> fin"
  shows "nal_loop (pre @ nal_unit nal @ post) fin (length pre) s =
    Option.bind (nal_effect (length pre) nal s) (nal_loop (pre @ nal_unit nal @ post) fin (length (pre @ nal_unit nal)))"
proof -
  obtain a b nal' where nal: "nal = a # b # nal'"
    using assms(1) by (cases nal rule: remdups_adj.cases) (auto simp: valid_nal_def)
  define F where "F = pre @ nal_unit nal @ post"
  have sz: "be_to_nat (take 4 (drop (length pre) F)) = length nal"
    using assms(1) by (simp add: F_def nal_unit_def valid_nal_def be_to_nat_nat_to_be)
  have cut: "take (length nal) (drop (length pre + 4) F) = nal" by (simp add: F_def nal_unit_def)
  have first: "F ! (length pre + 4) = nal ! 0" and second: "F ! (length pre + 4 + 1) = nal ! 1"
    by (simp_all add: F_def nal_unit_def nth_append nal)
  have len: "length F = length pre + 4 + length nal + length post"
    and le: "length (pre @ nal_unit nal) = length pre + 4 + length nal" by (simp_all add: F_def nal_unit_def)
  have two: "2 \<le> length nal" using assms(1) by (simp add: valid_nal_def)
  have fin: "length pre + 4 + length nal \<le> fin" using assms(2) unfolding le .
  have guards: "\<not> (\<not> length pre + 4 \<le> fin \<or> length pre + 4 > length F)"
      "\<not> (length nal < 2 \<or> length pre + 4 + length nal > fin)" "\<not> length pre + 4 + 1 > length F"
      "\<not> length pre + 4 + length nal > length F" "\<not> length pre + 4 + 2 > length F"
    using two fin len by linarith+
  have "nal_loop F fin (length pre) s =
      Option.bind (nal_effect (length pre) nal s) (nal_loop F fin (length pre + 4 + length nal))"
    unfolding nal_loop.simps [of F fin "length pre" s] nal_effect_def Let_def sz cut first second
    unfolding if_not_P [OF guards(1)] if_not_P [OF guards(2)] if_not_P [OF guards(3)] if_not_P [OF guards(4)] if_not_P [OF guards(5)]
    by (simp split: option.split)
  then show ?thesis unfolding F_def le .
qed

lemma nal_loop_walk:
  assumes "list_all valid_nal nals"
  shows "nal_loop (pre @ concat (map nal_unit nals) @ post) (length (pre @ concat (map nal_unit nals))) (length pre) s =
    walk_nals (length pre) nals s"
  using assms
proof (induction nals arbitrary: pre s)
  case Nil
  then show ?case by (subst nal_loop.simps) simp
next
  case (Cons nal nals)
  let ?rest = "concat (map nal_unit nals) @ post"
  have "nal_loop (pre @ nal_unit nal @ ?rest) (length (pre @ nal_unit nal @ concat (map nal_unit nals))) (length pre) s =
      Option.bind (nal_effect (length pre) nal s)
        (nal_loop (pre @ nal_unit nal @ ?rest) (length (pre @ nal_unit nal @ concat (map nal_unit nals))) (length (pre @ nal_unit nal)))"
    using Cons.prems by (intro nal_loop_unit) simp_all
  moreover have "nal_loop (pre @ nal_unit nal @ ?rest) (length (pre @ nal_unit nal @ concat (map nal_unit nals))) (length (pre @ nal_unit nal)) =
      walk_nals (length (pre @ nal_unit nal)) nals"
    using Cons.IH [of "pre @ nal_unit nal"] Cons.prems by (simp add: fun_eq_iff)
  ultimately show ?case by simp
qed

lemma mdat_loop_find:
  assumes "list_all valid_box bs" and "list_all (\<lambda>kb. fst kb \<noteq> map of_char ''mdat'') bs" and "valid_box (map of_char ''mdat'', body)"
    and "length (pre @ concat (map mp4_box bs) @ mp4_box (map of_char ''mdat'', body) @ post) < 2 ^ 63"
  shows "mdat_loop (pre @ concat (map mp4_box bs) @ mp4_box (map of_char ''mdat'', body) @ post) (length pre) =
    Some (length (pre @ concat (map mp4_box bs)) + 8, length body)"
  using assms
proof (induction bs arbitrary: pre)
  case Nil
  then show ?case
    using mp4_box_parts [OF assms(3), of post] length_mp4_box [OF assms(3)]
    by (subst mdat_loop.simps) (simp add: Let_def)
next
  case (Cons kb bs)
  let ?post = "concat (map mp4_box bs) @ mp4_box (map of_char ''mdat'', body) @ post"
  have v: "valid_box kb" "fst kb \<noteq> map of_char ''mdat''" using Cons.prems by simp_all
  have "mdat_loop (pre @ mp4_box kb @ ?post) (length pre) = mdat_loop (pre @ mp4_box kb @ ?post) (length (pre @ mp4_box kb))"
    using mp4_box_parts [OF v(1), of ?post] length_mp4_box [OF v(1)] v(2) Cons.prems(4)
    by (subst mdat_loop.simps) (simp add: Let_def wrap_u64_def)
  then show ?case using Cons.IH [of "pre @ mp4_box kb"] Cons.prems by simp
qed

section \<open>Properties\<close>

text \<open>A metadata unit: header, the marker, and an escaped message with its trailing byte.\<close>

definition sei_nal :: "nat \<Rightarrow> sei_field list \<Rightarrow> bytes" where
  "sei_nal k fds = [6, 5, 0] @ replicate k 0x42 @ [0x69] @ escape_loop 0 (concat (map field_bytes fds)) @ [0x80]"

text \<open>
  C24. The metadata of a frame is read back: for every message of fields the format allows, written with
  minimal numbers, escaped for the video stream and wrapped with the marker, the decoder returns, with
  the last value of each known field, skipping unknown ones; and it gives a frame exactly when the
  coordinates are finite, in range and not both zero.
\<close>

theorem sei_metadata_decoded:
  assumes "list_all (\<lambda>fd. field_number fd < 2 ^ 61) fds" and "length (concat (map field_bytes fds)) < 2 ^ 63"
    and "fds \<noteq> []" and "0 < k"
  shows "parse_tesla_sei (sei_nal k fds) = Some (finish_frame (foldl apply_field zero_frame fds))"
proof -
  let ?m = "concat (map field_bytes fds)" and ?e = "escape_loop 0 (concat (map field_bytes fds))"
  have "field_bytes fd \<noteq> []" for fd by (cases fd) (simp_all add: tag_def)
  with assms(3) have "?m \<noteq> []" by (cases fds) auto
  then have ne: "?e \<noteq> []" by (cases ?m) auto
  have tw: "takeWhile (\<lambda>b. b = (0x42 :: u8)) (replicate k 0x42 @ [0x69] @ ?e @ [0x80]) = replicate k 0x42"
    by (simp add: takeWhile_append)
  have d3: "drop 3 (sei_nal k fds) = replicate k 0x42 @ [0x69] @ ?e @ [0x80]" by (simp add: sei_nal_def)
  have at_marker: "sei_nal k fds ! (3 + k) = 0x69" by (simp add: sei_nal_def nth_append)
  have payload: "drop (3 + k + 1) (sei_nal k fds) = ?e @ [0x80]"
  proof -
    have "drop (3 + k + 1) (sei_nal k fds) = drop (k + 1) (drop 3 (sei_nal k fds))" by (simp add: add.commute)
    then show ?thesis unfolding d3 by simp
  qed
  have len: "length (sei_nal k fds) = 3 + k + 1 + length ?e + 1" by (simp add: sei_nal_def)
  have "sei_loop ?m 0 zero_frame = Some (Some (foldl apply_field zero_frame fds))"
    using sei_loop_fields [of fds "[]" zero_frame] assms(1,2) by simp
  then have "decode_sei_gps (strip_emulation_bytes ?e) = Some (finish_frame (foldl apply_field zero_frame fds))"
    by (simp add: strip_emulation_bytes_def strip_escape decode_sei_gps_def)
  then show ?thesis
    using assms(4) ne unfolding parse_tesla_sei_def d3 tw Let_def length_replicate at_marker payload len by simp
qed

text \<open>A frame at 40 degrees north, 10 degrees east, in gear 1, with an unknown field before it.\<close>

definition demo_fields :: "sei_field list" where
  "demo_fields = [BytesField 30 [1, 2], VarintField 2 1, Fixed64Field 11 0x4044000000000000, Fixed64Field 12 0x4024000000000000]"

theorem sei_metadata_decoded_witness:
  "\<exists>f. parse_tesla_sei (sei_nal 3 demo_fields) = Some (Some f) \<and> sf_gear f = 1 \<and> sf_lat f = Finite 40 \<and> sf_lon f = Finite 10"
proof -
  have v: "f64_of_bits 0x4044000000000000 = Finite 40" "f64_of_bits 0x4024000000000000 = Finite 10"
    by (simp_all add: f64_of_bits_def value_of_bits_def Let_def pow2_def)
  have "length (concat (map field_bytes demo_fields)) < 2 ^ 63"
    by (simp add: demo_fields_def tag_def varint.simps)
  then have "parse_tesla_sei (sei_nal 3 demo_fields) = Some (finish_frame (foldl apply_field zero_frame demo_fields))"
    by (intro sei_metadata_decoded) (simp_all add: demo_fields_def)
  then show ?thesis
    by (simp add: demo_fields_def zero_frame_def set_varint_def set_fixed64_def v Let_def finish_frame_def gps_ok_def
        is_finite_def abs_le_def)
qed

text \<open>A field whose length sends the position back to the start of the message.\<close>

definition looping_message :: bytes where
  "looping_message = [0x0A, 0xF5, 0xFF, 0xFF, 0xFF, 0xFF, 0xFF, 0xFF, 0xFF, 0xFF, 0x01]"

text \<open>
  C39. Extraction can hang in two places: a message of eleven bytes whose only field declares a length of two
  to the 64 minus eleven sends the position of \<open>decode_sei_gps\<close> back to zero, and the file of 32 bytes that
  holds up the search for sample tables holds up the search for the media data too. Neither loop
  checks that its position advances.
\<close>

theorem extraction_hangs: "decode_sei_gps looping_message = None \<and> find_mdat_box looping_file = None"
proof
  have t: "decode_varint (drop 0 looping_message) = (10, 1)"
    by (simp add: looping_message_def decode_varint_def)
  have l: "decode_varint (drop 1 looping_message) = (- 11, 10)"
    by (simp add: looping_message_def decode_varint_def)
  have u: "unat (- 11 :: u64) = 2 ^ 64 - 11" by simp
  have w: "drop_bit 3 (10 :: u64) = 1" "(10 :: u64) AND 7 = 2" by simp_all
  have "\<not> (data = looping_message \<and> i = 0)" if "sei_loop data i f = Some y" for data i f y
  proof (rule sei_loop.raw_induct [where P = "\<lambda>data i f y. \<not> (data = looping_message \<and> i = 0)", OF _ that], goal_cases)
    case step: (1 loop data i f y)
    have "loop looping_message 0 f = Some y" if "data = looping_message" "i = 0"
      using step(2) that t l u w by (simp add: Let_def) (simp add: looping_message_def wrap_u64_def)
    then show ?case using step(1) by blast
  qed
  then show "decode_sei_gps looping_message = None"
    by (cases "sei_loop looping_message 0 zero_frame") (auto simp: decode_sei_gps_def)
  have "\<not> (f = looping_file \<and> pos \<in> {0, 16})" if "mdat_loop f pos = Some y" for f pos y
  proof (rule mdat_loop.raw_induct [where P = "\<lambda>f pos y. \<not> (f = looping_file \<and> pos \<in> {0, 16})", OF _ that], goal_cases)
    case step: (1 loop f pos y)
    have "loop looping_file 16 = Some y" if "f = looping_file" "pos = 0"
      using step(2) that by (simp add: looping_file_def wrap_u64_def be_to_nat_def Let_def)
    moreover have "loop looping_file 0 = Some y" if "f = looping_file" "pos = 16"
      using step(2) that by (simp add: looping_file_def wrap_u64_def be_to_nat_def Let_def)
    ultimately show ?case using step(1) by blast
  qed
  then show "find_mdat_box looping_file = None"
    by (cases "mdat_loop looping_file 0") (auto simp: find_mdat_box_def)
qed





end
