(* ===== verification/ChargeSessions.thy ===== *)
theory ChargeSessions
  imports Float64
begin

section \<open>Charge sessions\<close>

text \<open>
  \<^verbatim>\<open>crates/drives/src/charging.rs\<close>: the samples of the vehicle's telemetry that belong to a charge, their
  grouping into sessions and the summary of a session. Timestamps are seconds and far from the ends of
  \<^verbatim>\<open>i64\<close>. A number computed from integer columns is finite and a rational rounded to double precision; a
  stored real may also be an infinity (\<^verbatim>\<open>SQLite\<close> keeps neither a negative zero nor a value that is not a
  number).
\<close>

definition session_gap_secs :: int where "session_gap_secs = 30 * 60"
definition fast_charge_threshold_kw :: int where "fast_charge_threshold_kw = 22"

record charge_row =
  ts :: int
  power_kw :: "int option"
  current_a :: "int option"
  voltage_v :: "int option"
  rate_mph :: "f64 option"
  energy_added_kwh :: "f64 option"
  limit_soc :: "int option"
  range_mi :: "f64 option"
  battery_pct :: "f64 option"
  location :: "ustr option"
  lat :: "f64 option"
  lon :: "f64 option"
  charging_state :: "ustr option"

record charge_session_summary =
  s_id :: int
  start_ms :: int
  end_ms :: int
  duration_secs :: int
  s_location :: "ustr option"
  location_lat :: "f64 option"
  location_lon :: "f64 option"
  s_energy_added_kwh :: "rat option"
  energy_used_kwh :: "rat option"
  efficiency_pct :: "rat option"
  peak_power_kw :: "int option"
  start_soc :: "f64 option"
  end_soc :: "f64 option"
  start_range_mi :: "f64 option"
  end_range_mi :: "f64 option"
  charge_limit_soc :: "int option"
  tags :: "ustr list"
  cost :: "rat option"
  rate :: "rat option"
  currency :: ustr
  fast_charging :: bool
  cost_overridden :: bool
  at_home :: bool

record charge_point =
  p_ts :: int
  p_power_kw :: "int option"
  p_current_a :: "int option"
  p_voltage_v :: "int option"
  p_rate_mph :: "f64 option"
  p_soc :: "f64 option"
  p_range_mi :: "f64 option"
  p_energy_added_kwh :: "f64 option"

definition f64_neg :: "f64 \<Rightarrow> f64" where
  "f64_neg x = (case x of Finite a \<Rightarrow> Finite (- a) | PosInfinity \<Rightarrow> NegInfinity | NegInfinity \<Rightarrow> PosInfinity | NotANumber \<Rightarrow> NotANumber)"

definition avg :: "f64 list \<Rightarrow> f64 option" where
  "avg vs = (if vs = [] then None else Some (f64_div_count (foldl f64_add (Finite 0) vs) (length vs)))"

text \<open>\<^verbatim>\<open>find_map\<close>, \<^verbatim>\<open>filter_map\<close> and \<^verbatim>\<open>windows(2)\<close>.\<close>

fun find_map :: "('a \<Rightarrow> 'b option) \<Rightarrow> 'a list \<Rightarrow> 'b option" where
  "find_map f [] = None"
| "find_map f (x # xs) = (case f x of Some y \<Rightarrow> Some y | None \<Rightarrow> find_map f xs)"

definition power_refine_tolerance_kw :: rat where "power_refine_tolerance_kw = 1"

definition sample_power_kw :: "charge_row \<Rightarrow> rat option" where
  "sample_power_kw r =
     (case power_kw r of None \<Rightarrow> None
      | Some p \<Rightarrow>
          let coarse = fl (of_int p)
          in case (voltage_v r, current_a r) of
               (Some v, Some a) \<Rightarrow>
                 let fine = fl (fl (fl (of_int v) * fl (of_int a)) / 1000)
                 in if \<bar>fl (fine - coarse)\<bar> \<le> power_refine_tolerance_kw then Some fine else Some coarse
             | _ \<Rightarrow> Some coarse)"

definition display_current_a :: "int option \<Rightarrow> int option \<Rightarrow> int option \<Rightarrow> int option" where
  "display_current_a kw voltage raw =
     (let derived = (case (kw, voltage) of
                       (Some p, Some v) \<Rightarrow>
                         if v > 0 \<and> p > 0
                         then Some (f64_as_i64 (of_int (round_f64 (fl (fl (fl (of_int p) * 1000) / fl (of_int v))))))
                         else raw
                     | _ \<Rightarrow> raw)
      in case raw of Some a \<Rightarrow> if a > 0 then Some a else derived | None \<Rightarrow> derived)"

definition power_points :: "charge_row list \<Rightarrow> (int \<times> rat) list" where
  "power_points rows = filter_map (\<lambda>r. map_option (Pair (ts r)) (sample_power_kw r)) rows"

definition interval_hours :: "(int \<times> rat) \<times> (int \<times> rat) \<Rightarrow> rat" where
  "interval_hours w = fl (fl (of_int (fst (snd w) - fst (fst w))) / 3600)"

definition interval_kwh :: "(int \<times> rat) \<times> (int \<times> rat) \<Rightarrow> rat" where
  "interval_kwh w = fl (fl (fl (snd (fst w) + snd (snd w)) / 2) * interval_hours w)"

definition integrate_power_kwh :: "charge_row list \<Rightarrow> rat option" where
  "integrate_power_kwh rows =
     (let pts = power_points rows
      in if length pts < 2 then None
         else let kwh = foldl (\<lambda>k w. if interval_hours w > 0 then fl (k + interval_kwh w) else k) 0 (windows2 pts)
              in if kwh > 0 then Some kwh else None)"

definition is_charging :: "int option \<Rightarrow> f64 option \<Rightarrow> bool" where
  "is_charging kw charge_rate =
     (case charge_rate of Some r \<Rightarrow> f64_gt r 0 | None \<Rightarrow> (case kw of Some p \<Rightarrow> p > 0 | None \<Rightarrow> False))"

definition phase_is_active :: "ustr option \<Rightarrow> bool option" where
  "phase_is_active phase = map_option (\<lambda>p. p \<in> {lit ''charging'', lit ''starting'', lit ''calibrating''}) phase"

definition is_actively_charging :: "ustr option \<Rightarrow> int option \<Rightarrow> f64 option \<Rightarrow> bool" where
  "is_actively_charging phase kw charge_rate =
     (case phase_is_active phase of Some active \<Rightarrow> active | None \<Rightarrow> is_charging kw charge_rate)"

text \<open>
  The table of samples, in the order of its primary key \<^verbatim>\<open>ts\<close>. A row of the query carries a signal of a
  charge; the filter keeps the rows on which the car was charging.
\<close>

definition charge_signal :: "charge_row \<Rightarrow> bool" where
  "charge_signal r \<longleftrightarrow> charging_state r \<noteq> None \<or> power_kw r \<noteq> None \<or> rate_mph r \<noteq> None"

definition row_charging :: "charge_row \<Rightarrow> bool" where
  "row_charging r \<longleftrightarrow> is_actively_charging (charging_state r) (power_kw r) (rate_mph r)"

definition load_charge_rows :: "charge_row list \<Rightarrow> int \<Rightarrow> int option \<Rightarrow> charge_row list" where
  "load_charge_rows table from to' =
     (let upper = (case to' of Some t \<Rightarrow> t | None \<Rightarrow> 2 ^ 63 - 1)
      in filter row_charging (filter (\<lambda>r. from \<le> ts r \<and> ts r \<le> upper \<and> charge_signal r) table))"

definition push_row :: "charge_row list list \<Rightarrow> charge_row \<Rightarrow> charge_row list list" where
  "push_row sessions row =
     (if sessions \<noteq> [] \<and> ts row - ts (last (last sessions)) \<le> session_gap_secs
      then butlast sessions @ [last sessions @ [row]] else sessions @ [[row]])"

definition group_sessions :: "charge_row list \<Rightarrow> charge_row list list" where
  "group_sessions rows = foldl push_row [] rows"

text \<open>
  The counts of the coordinates a session reports, with the last index at which each was seen. The hash
  map is a list without duplicate keys; no two entries have the same last index, so the order in which it
  is walked does not matter.
\<close>

type_synonym coord_count = "(f64 \<times> f64) \<times> nat \<times> nat"

fun note_coord :: "(f64 \<times> f64) \<Rightarrow> nat \<Rightarrow> coord_count list \<Rightarrow> coord_count list" where
  "note_coord c i [] = [(c, 1, i)]"
| "note_coord c i ((d, n, j) # seen) = (if d = c then (d, n + 1, i) # seen else (d, n, j) # note_coord c i seen)"

definition count_coords :: "charge_row list \<Rightarrow> coord_count list" where
  "count_coords rows =
     foldl (\<lambda>seen (i, r). case (lat r, lon r) of (Some a, Some b) \<Rightarrow> note_coord (a, b) i seen | _ \<Rightarrow> seen) []
       (List.enumerate 0 rows)"

definition coord_before :: "coord_count \<Rightarrow> coord_count \<Rightarrow> bool" where
  "coord_before x y \<longleftrightarrow> fst (snd x) < fst (snd y) \<or> (fst (snd x) = fst (snd y) \<and> snd (snd x) \<le> snd (snd y))"

definition session_coord :: "charge_row list \<Rightarrow> f64 option \<times> f64 option" where
  "session_coord rows =
     (case count_coords rows of [] \<Rightarrow> (None, None)
      | x # xs \<Rightarrow> (let best = foldl (\<lambda>b y. if coord_before b y then y else b) x xs
                 in (Some (fst (fst best)), Some (snd (fst best)))))"

fun finite_part :: "f64 \<Rightarrow> rat option" where
  "finite_part (Finite a) = Some a"
| "finite_part _ = None"

definition energy_added :: "charge_row list \<Rightarrow> rat option" where
  "energy_added rows =
     (let counters = filter_map (\<lambda>r. Option.bind (energy_added_kwh r) finite_part) rows;
          counter_reset = list_ex (\<lambda>(a, b). fl (b + fl (1 / 10)) < a) (windows2 counters);
          first_soc = find_map battery_pct rows; last_soc = find_map battery_pct (rev rows)
      in if counter_reset then None
         else case (energy_added_kwh (hd rows), energy_added_kwh (last rows)) of
             (Some (Finite a), Some (Finite b)) \<Rightarrow>
               if b \<ge> a
               then let gain = fl (b - a);
                        soc_rise = (case (first_soc, last_soc) of
                                      (Some x, Some y) \<Rightarrow> f64_ge (f64_add y (f64_neg x)) 1 | _ \<Rightarrow> False)
                    in if gain = 0 \<and> soc_rise then None else Some gain
               else None
           | (None, Some (Finite b)) \<Rightarrow> if b \<ge> 0 then Some b else None
           | _ \<Rightarrow> None)"

definition clamp_pct :: "rat \<Rightarrow> rat" where
  "clamp_pct x = (if x < 0 then 0 else if x > 100 then 100 else x)"

definition max_opt :: "int list \<Rightarrow> int option" where
  "max_opt xs = (if xs = [] then None else Some (Max (set xs)))"

definition summarize :: "charge_row list \<Rightarrow> charge_session_summary" where
  "summarize rows =
     (let peak = max_opt (filter_map power_kw rows); used = integrate_power_kwh rows; added = energy_added rows
      in \<lparr>s_id = ts (hd rows), start_ms = ts (hd rows) * 1000, end_ms = ts (last rows) * 1000,
          duration_secs = ts (last rows) - ts (hd rows), s_location = find_map location rows,
          location_lat = fst (session_coord rows), location_lon = snd (session_coord rows),
          s_energy_added_kwh = added, energy_used_kwh = used,
          efficiency_pct = (case (added, used) of
             (Some a, Some u) \<Rightarrow> if u > 0 then Some (clamp_pct (fl (fl (a / u) * 100))) else None | _ \<Rightarrow> None),
          peak_power_kw = peak, start_soc = find_map battery_pct rows, end_soc = find_map battery_pct (rev rows),
          start_range_mi = find_map range_mi rows, end_range_mi = find_map range_mi (rev rows),
          charge_limit_soc = find_map limit_soc (rev rows), tags = [], cost = None, rate = None, currency = [],
          fast_charging = (case peak of Some p \<Rightarrow> p > fast_charge_threshold_kw | None \<Rightarrow> False),
          cost_overridden = False, at_home = False\<rparr>)"

definition session_points :: "charge_row list \<Rightarrow> charge_point list" where
  "session_points rows = map (\<lambda>r. \<lparr>p_ts = ts r * 1000, p_power_kw = power_kw r,
      p_current_a = display_current_a (power_kw r) (voltage_v r) (current_a r), p_voltage_v = voltage_v r,
      p_rate_mph = rate_mph r, p_soc = battery_pct r, p_range_mi = range_mi r, p_energy_added_kwh = energy_added_kwh r\<rparr>) rows"

definition chart_index :: "nat \<Rightarrow> nat \<Rightarrow> nat \<Rightarrow> nat" where
  "chart_index n max_pts i =
     min (nat (round_f64 (fl (of_nat i * fl (of_nat (n - 1) / of_nat (max_pts - 1)))))) (n - 1)"

fun dedup_indexes :: "nat option \<Rightarrow> nat list \<Rightarrow> nat list" where
  "dedup_indexes prev [] = []"
| "dedup_indexes prev (i # is) = (if prev = Some i then dedup_indexes prev is else i # dedup_indexes (Some i) is)"

definition downsample_points :: "'a list \<Rightarrow> nat \<Rightarrow> 'a list" where
  "downsample_points points max_pts =
     (let n = length points
      in if n \<le> max_pts \<or> max_pts < 2 then points
         else map (\<lambda>i. points ! i) (dedup_indexes None (map (chart_index n max_pts) [0..<max_pts])))"

subsection \<open>Reserved tags\<close>

definition home_tag :: ustr where "home_tag = lit ''Home''"
definition fast_tag :: ustr where "fast_tag = lit ''Fast charging''"

definition eq_ignore_ascii_case :: "ustr \<Rightarrow> ustr \<Rightarrow> bool" where
  "eq_ignore_ascii_case a b \<longleftrightarrow> map ascii_lower a = map ascii_lower b"

definition is_reserved_tag :: "ustr \<Rightarrow> bool" where
  "is_reserved_tag t \<longleftrightarrow> eq_ignore_ascii_case t home_tag \<or> eq_ignore_ascii_case t fast_tag"

definition strip_reserved_tags :: "ustr list \<Rightarrow> ustr list" where
  "strip_reserved_tags names = filter (\<lambda>t. \<not> is_reserved_tag t) names"

section \<open>Lemmas\<close>

subsection \<open>Grouping\<close>

lemma push_row_nonempty [simp]: "push_row ss r \<noteq> []"
  by (simp add: push_row_def)

lemma push_row_append: "us \<noteq> [] \<Longrightarrow> push_row (ss @ us) r = ss @ push_row us r"
  by (simp add: push_row_def butlast_append)

lemma foldl_push_append: "us \<noteq> [] \<Longrightarrow> foldl push_row (ss @ us) rs = ss @ foldl push_row us rs"
  by (induction rs arbitrary: us) (simp_all add: push_row_append)

lemma group_Nil [simp]: "group_sessions [] = []"
  by (simp add: group_sessions_def)

lemma group_single [simp]: "group_sessions [r] = [[r]]"
  by (simp add: group_sessions_def push_row_def)

lemma group_snoc: "group_sessions (rows @ [r]) = push_row (group_sessions rows) r"
  by (simp add: group_sessions_def)

lemma group_eq_Nil [simp]: "group_sessions rows = [] \<longleftrightarrow> rows = []"
  by (cases rows rule: rev_cases) (simp_all add: group_snoc)

text \<open>
  The contract of the grouping: the sessions are the rows in order, none is empty, samples within a
  session follow each other within the gap and sessions are further apart.
\<close>

definition far :: "charge_row \<Rightarrow> charge_row \<Rightarrow> bool" where
  "far a b \<longleftrightarrow> session_gap_secs < ts b - ts a"

fun linked :: "charge_row list \<Rightarrow> bool" where
  "linked (a # b # rs) \<longleftrightarrow> \<not> far a b \<and> linked (b # rs)"
| "linked _ \<longleftrightarrow> True"

fun apart :: "charge_row list list \<Rightarrow> bool" where
  "apart (x # y # ss) \<longleftrightarrow> far (last x) (hd y) \<and> apart (y # ss)"
| "apart _ \<longleftrightarrow> True"

definition session_split :: "charge_row list \<Rightarrow> charge_row list list \<Rightarrow> bool" where
  "session_split rows ss \<longleftrightarrow> concat ss = rows \<and> [] \<notin> set ss \<and> list_all linked ss \<and> apart ss"

lemma linked_snoc: "xs \<noteq> [] \<Longrightarrow> linked (xs @ [r]) \<longleftrightarrow> linked xs \<and> \<not> far (last xs) r"
  by (induction xs rule: linked.induct) auto

lemma apart_snoc: "ss \<noteq> [] \<Longrightarrow> apart (ss @ [x]) \<longleftrightarrow> apart ss \<and> far (last (last ss)) (hd x)"
  by (induction ss rule: apart.induct) auto

lemma apart_replace_last: "x \<noteq> [] \<Longrightarrow> apart (ss @ [x @ ys]) = apart (ss @ [x])"
  by (cases "ss = []") (simp_all add: apart_snoc)

lemma group_sessions_split: "session_split rows (group_sessions rows)"
proof (induction rows rule: rev_induct)
  case Nil
  then show ?case by (simp add: session_split_def)
next
  case (snoc r rows)
  show ?case
  proof (cases rows rule: rev_cases)
    case Nil
    then show ?thesis by (simp add: group_snoc push_row_def session_split_def)
  next
    case (snoc xs x)
    obtain ss l where g: "group_sessions rows = ss @ [l]"
      using snoc by (metis group_eq_Nil rev_exhaust snoc_eq_iff_butlast)
    then have "l \<noteq> []" using snoc.IH by (auto simp: session_split_def)
    then show ?thesis
      using snoc.IH g apart_snoc [of "ss @ [l]" "[r]"]
      by (auto simp: group_snoc push_row_def session_split_def linked_snoc apart_replace_last far_def)
  qed
qed

lemma group_rows [simp]: "concat (group_sessions rows) = rows"
  using group_sessions_split by (simp add: session_split_def)

lemma group_nonempty: "x \<in> set (group_sessions rows) \<Longrightarrow> x \<noteq> []"
  using group_sessions_split [of rows] by (auto simp: session_split_def)

lemma last_group: "rows \<noteq> [] \<Longrightarrow> last (last (group_sessions rows)) = last rows"
proof -
  assume "rows \<noteq> []"
  then obtain ss l where g: "group_sessions rows = ss @ [l]"
    by (metis group_eq_Nil rev_exhaust)
  have "l \<noteq> []" using g group_nonempty [of l rows] by simp
  then show ?thesis
    using g group_rows [of rows] by (metis concat_append concat.simps(1,2) append_Nil2 last_appendR last_snoc)
qed

lemma group_append_far:
  assumes "xs \<noteq> []" "ys \<noteq> []" "far (last xs) (hd ys)"
  shows "group_sessions (xs @ ys) = group_sessions xs @ group_sessions ys"
proof -
  obtain y zs where y: "ys = y # zs" using assms(2) by (cases ys) auto
  have "push_row (group_sessions xs) y = group_sessions xs @ [[y]]"
    using assms last_group [OF assms(1)] by (simp add: push_row_def far_def y)
  then have "group_sessions (xs @ ys) = foldl push_row (group_sessions xs @ [[y]]) zs"
    by (simp add: group_sessions_def y)
  also have "\<dots> = group_sessions xs @ foldl push_row [[y]] zs"
    by (simp add: foldl_push_append)
  finally show ?thesis by (simp add: group_sessions_def y push_row_def)
qed

lemma group_linked: "linked xs \<Longrightarrow> xs \<noteq> [] \<Longrightarrow> group_sessions xs = [xs]"
proof (induction xs rule: rev_induct)
  case (snoc x xs)
  then show ?case
    by (cases "xs = []") (auto simp: group_snoc push_row_def linked_snoc far_def)
qed simp

lemma split_unique: "session_split rows ss \<Longrightarrow> ss = group_sessions rows"
proof (induction ss arbitrary: rows)
  case Nil
  then show ?case by (simp add: session_split_def)
next
  case (Cons x ss)
  show ?case
  proof (cases ss)
    case Nil
    then show ?thesis using Cons.prems by (auto simp: session_split_def group_linked)
  next
    case (Cons y zs)
    have rest: "session_split (concat ss) ss" and x: "x \<noteq> []" "linked x" "rows = x @ concat ss" "y \<noteq> []" "far (last x) (hd y)"
      using Cons.prems Cons by (auto simp: session_split_def)
    have "concat ss \<noteq> []" "hd (concat ss) = hd y"
      using Cons x(4) by simp_all
    then show ?thesis
      using group_append_far [OF x(1)] Cons.IH [OF rest] x by (simp add: group_linked)
  qed
qed

lemma apart_append: "apart (ss @ us) \<Longrightarrow> apart us"
  by (induction ss rule: apart.induct) (auto elim: apart.elims)

lemma group_suffix: "group_sessions rows = ss @ us \<Longrightarrow> group_sessions (concat us) = us"
  using group_sessions_split [of rows] by (intro split_unique [symmetric]) (auto simp: session_split_def dest: apart_append)

lemma apart_prefix: "apart (ss @ us) \<Longrightarrow> apart ss"
proof (induction ss rule: apart.induct)
  case (1 x y ss)
  then show ?case by simp
qed simp_all

lemma group_prefix: "group_sessions rows = ss @ us \<Longrightarrow> group_sessions (concat ss) = ss"
  using group_sessions_split [of rows] by (intro split_unique [symmetric]) (auto simp: session_split_def dest: apart_prefix)

lemma far_between:
  assumes "group_sessions rows = ss @ us" "ss \<noteq> []" "us \<noteq> []"
  shows "far (last (concat ss)) (hd (concat us))"
proof -
  obtain ss' x where x: "ss = ss' @ [x]" using assms(2) by (cases ss rule: rev_cases) auto
  obtain y us' where y: "us = y # us'" using assms(3) by (cases us) auto
  have "apart (ss' @ x # y # us')" "x \<noteq> []" "y \<noteq> []"
    using group_sessions_split [of rows] assms(1) by (auto simp: session_split_def x y)
  then have "far (last x) (hd y)"
    using apart_append by fastforce
  then show ?thesis
    using \<open>x \<noteq> []\<close> \<open>y \<noteq> []\<close> by (simp add: x y)
qed

subsection \<open>The rows of the table\<close>

definition charging_rows :: "charge_row list \<Rightarrow> charge_row list" where
  "charging_rows table = filter (\<lambda>r. charge_signal r \<and> row_charging r) table"

text \<open>The primary key is a unique time in seconds since 1970.\<close>

definition table_ok :: "charge_row list \<Rightarrow> bool" where
  "table_ok table \<longleftrightarrow> sorted_wrt (\<lambda>a b. ts a < ts b) table \<and> list_all (\<lambda>r. 0 \<le> ts r \<and> ts r \<le> 2 ^ 63 - 1) table"

lemma load_from: "table_ok table \<Longrightarrow> load_charge_rows table from None = filter (\<lambda>r. from \<le> ts r) (charging_rows table)"
  by (auto simp: load_charge_rows_def charging_rows_def table_ok_def list_all_iff intro!: filter_cong)

lemma load_window:
  "load_charge_rows table from (Some to') = filter (\<lambda>r. from \<le> ts r \<and> ts r \<le> to') (charging_rows table)"
  by (auto simp: load_charge_rows_def charging_rows_def intro!: filter_cong)

lemma charging_rows_sorted: "table_ok table \<Longrightarrow> sorted_wrt (\<lambda>a b. ts a < ts b) (charging_rows table)"
  by (simp add: table_ok_def charging_rows_def sorted_wrt_filter)

text \<open>Cutting a sorted list at the key of one of its rows.\<close>

lemma filter_cut:
  assumes "sorted_wrt (\<lambda>a b. ts a < ts b) (xs @ ys)" "ys \<noteq> []"
  shows "filter (\<lambda>r. ts (hd ys) \<le> ts r) (xs @ ys) = ys"
proof -
  have "filter (\<lambda>r. ts (hd ys) \<le> ts r) xs = []"
    using assms by (auto simp: sorted_wrt_append filter_empty_conv neq_Nil_conv)
  moreover have "filter (\<lambda>r. ts (hd ys) \<le> ts r) ys = ys"
    using assms by (cases ys) (auto simp: sorted_wrt_append filter_id_conv)
  ultimately show ?thesis by simp
qed

lemma sessions_from:
  assumes "table_ok table" "group_sessions (charging_rows table) = ss @ us" "us \<noteq> []"
  shows "group_sessions (load_charge_rows table (ts (hd (hd us))) None) = us"
proof -
  have rows: "charging_rows table = concat ss @ concat us"
    using group_rows [of "charging_rows table"] assms(2) by (metis concat_append)
  obtain y us' where y: "us = y # us'" using assms(3) by (cases us) auto
  have "y \<noteq> []" using group_nonempty [of y "charging_rows table"] assms(2) by (simp add: y)
  then have ne: "concat us \<noteq> []" "hd (concat us) = hd y" by (simp_all add: y)
  have "load_charge_rows table (ts (hd (hd us))) None = concat us"
    using filter_cut [of "concat ss" "concat us"] charging_rows_sorted [OF assms(1)] ne
    by (simp add: load_from [OF assms(1)] rows y)
  then show ?thesis
    using group_suffix [OF assms(2)] by simp
qed

section \<open>Properties\<close>

text \<open>
  The sessions are the unique way to cut the charging samples into pieces within which samples follow
  each other by at most half an hour and between which the pause is longer; every consumer that groups
  the same samples derives the same sessions.
\<close>

theorem sessions_unique:
  "session_split rows (group_sessions rows) \<and> (session_split rows ss \<longleftrightarrow> ss = group_sessions rows)"
  using group_sessions_split split_unique by blast

end
