(* ===== verification/Json.thy ===== *)
theory Json
  imports Float64 "HOL-Library.List_Lexorder"
begin

section \<open>JSON documents\<close>

text \<open>
  The values of \<^verbatim>\<open>serde_json\<close> as the sources use them. An object is a list of pairs; the first pair with a key
  counts. Numbers are integers or finite floats. \<open>jget\<close> is indexing by a key, which gives null where
  there is nothing, and \<open>btree_set\<close> the elements of a \<^verbatim>\<open>BTreeSet\<close> in its order: texts are compared by
  their code points, which is also the order of their bytes.
\<close>

datatype json = JNull | JBool bool | JInt int | JFloat rat | JStr ustr | JArr "json list" | JObj "(ustr \<times> json) list"

fun as_i64 :: "json \<Rightarrow> int option" where
  "as_i64 (JInt n) = (if - (2 ^ 63) \<le> n \<and> n < 2 ^ 63 then Some n else None)"
| "as_i64 _ = None"

fun as_f64 :: "json \<Rightarrow> rat option" where
  "as_f64 (JInt n) = Some (fl (of_int n))"
| "as_f64 (JFloat q) = Some q"
| "as_f64 _ = None"

fun as_str :: "json \<Rightarrow> ustr option" where
  "as_str (JStr s) = Some s"
| "as_str _ = None"

fun as_array :: "json \<Rightarrow> json list option" where
  "as_array (JArr xs) = Some xs"
| "as_array _ = None"

fun as_object :: "json \<Rightarrow> (ustr \<times> json) list option" where
  "as_object (JObj m) = Some m"
| "as_object _ = None"

fun as_u64 :: "json \<Rightarrow> nat option" where
  "as_u64 (JInt n) = (if 0 \<le> n \<and> n < 2 ^ 64 then Some (nat n) else None)"
| "as_u64 _ = None"

definition is_object :: "json \<Rightarrow> bool" where "is_object v \<longleftrightarrow> as_object v \<noteq> None"

definition is_array :: "json \<Rightarrow> bool" where "is_array v \<longleftrightarrow> as_array v \<noteq> None"

definition jget :: "json \<Rightarrow> ustr \<Rightarrow> json" where
  "jget v k = (case as_object v of None \<Rightarrow> JNull | Some m \<Rightarrow> (case map_of m k of None \<Rightarrow> JNull | Some x \<Rightarrow> x))"

definition assoc_insert :: "'k \<Rightarrow> 'v \<Rightarrow> ('k \<times> 'v) list \<Rightarrow> ('k \<times> 'v) list" where
  "assoc_insert k v m = (k, v) # filter (\<lambda>(k', _). k' \<noteq> k) m"

text \<open>Assignment to an index of an object (\<^verbatim>\<open>value[key] = x\<close>).\<close>

definition jset :: "ustr \<Rightarrow> json \<Rightarrow> json \<Rightarrow> json" where
  "jset k x v = (case as_object v of None \<Rightarrow> v | Some m \<Rightarrow> JObj (assoc_insert k x m))"

definition btree_set :: "('a :: linorder) list \<Rightarrow> 'a list" where
  "btree_set xs = sort (remdups xs)"

lemma map_of_filter_ne: "k' \<noteq> k \<Longrightarrow> map_of (filter (\<lambda>(k', _). k' \<noteq> k) m) k' = map_of m k'"
  by (induction m) auto

lemma map_of_assoc_insert [simp]: "map_of (assoc_insert k v m) k' = (if k' = k then Some v else map_of m k')"
  by (simp add: assoc_insert_def map_of_filter_ne)

lemma jget_jset [simp]: "is_object v \<Longrightarrow> jget (jset k x v) k' = (if k' = k then x else jget v k')"
  by (auto simp: is_object_def jget_def jset_def)

lemma jset_object [simp]: "is_object (jset k x v) = is_object v"
  by (cases v) (auto simp: is_object_def jset_def)

lemma set_btree_set [simp]: "set (btree_set xs) = set xs"
  by (simp add: btree_set_def)

lemma btree_set_sorted [simp]: "sorted (btree_set xs)" "distinct (btree_set xs)"
  by (simp_all add: btree_set_def)

lemma btree_set_id: "sorted xs \<Longrightarrow> distinct xs \<Longrightarrow> btree_set xs = xs"
  by (simp add: btree_set_def distinct_remdups_id sorted_sort_id)

lemma btree_set_eqI: "set xs = set ys \<Longrightarrow> btree_set xs = btree_set ys"
  by (intro sorted_distinct_set_unique) simp_all

end
