(* ===== verification/ChargeList.thy ===== *)
theory ChargeList
  imports ChargeSessions Json "HOL-Library.Multiset"
begin

section \<open>The charging history\<close>

text \<open>
  \<^verbatim>\<open>crates/api/src/charging.rs\<close>: prices, the list of sessions with its stored projection, the detail view,
  deletion, and the controls. The triggers of \<^verbatim>\<open>crates/drives/src/schema.rs\<close> that keep the projection's clock
  are part of the model. The local time of an instant (\<^verbatim>\<open>chrono\<close>), whether a place lies within the home
  circle (trigonometry) and reading back a stored list (\<^verbatim>\<open>serde_json\<close>) are parameters. Maps are lists of
  pairs with distinct keys, and two contexts are equal when they hold the same values.
\<close>

subsection \<open>Prices\<close>

record rate_schedule =
  sch_rate :: rat
  start_min :: int
  end_min :: int
  days :: "int list"
  start_month :: int
  end_month :: int

definition covers_time :: "rate_schedule \<Rightarrow> int \<Rightarrow> bool" where
  "covers_time s m \<longleftrightarrow>
     (if start_min s = end_min s then True
      else if start_min s < end_min s then m \<ge> start_min s \<and> m < end_min s
      else m \<ge> start_min s \<or> m < end_min s)"

definition covers_day :: "rate_schedule \<Rightarrow> int \<Rightarrow> bool" where
  "covers_day s weekday \<longleftrightarrow> days s = [] \<or> weekday \<in> set (days s)"

definition covers_month :: "rate_schedule \<Rightarrow> int \<Rightarrow> bool" where
  "covers_month s month \<longleftrightarrow>
     (if start_month s \<le> end_month s then month \<ge> start_month s \<and> month \<le> end_month s
      else month \<ge> start_month s \<or> month \<le> end_month s)"

definition covers :: "rate_schedule \<Rightarrow> int \<times> int \<times> int \<Rightarrow> bool" where
  "covers s t = (case t of (minute, weekday, month) \<Rightarrow> covers_time s minute \<and> covers_day s weekday \<and> covers_month s month)"

record tag_rate =
  flat :: "rat option"
  schedules :: "rate_schedule list"

definition is_configured :: "tag_rate \<Rightarrow> bool" where
  "is_configured p \<longleftrightarrow> flat p \<noteq> None \<or> schedules p \<noteq> []"

definition parse_i32 :: "ustr \<Rightarrow> int option" where
  "parse_i32 s = (case parse_i64 s of Some n \<Rightarrow> if - (2 ^ 31) \<le> n \<and> n < 2 ^ 31 then Some n else None | None \<Rightarrow> None)"

definition in_day :: "int \<Rightarrow> int option" where
  "in_day m = (if 0 \<le> m \<and> m \<le> 1440 then Some m else None)"

definition parse_minute_of_day :: "json \<Rightarrow> int option" where
  "parse_minute_of_day v =
     (case as_str v of
        Some s0 \<Rightarrow>
          (let s = trim s0
           in case split_once 58 s of
                Some (h, m) \<Rightarrow>
                  (case (parse_i32 (trim h), parse_i32 (trim m)) of
                     (Some h, Some m) \<Rightarrow> if 0 \<le> h \<and> h \<le> 24 \<and> 0 \<le> m \<and> m < 60 then Some (min (h * 60 + m) 1440) else None
                   | _ \<Rightarrow> None)
              | None \<Rightarrow> Option.bind (parse_i32 s) in_day)
      | None \<Rightarrow> Option.bind (as_i64 v) (\<lambda>n. in_day (wrap_i32 n)))"

definition parse_days :: "json option \<Rightarrow> int list" where
  "parse_days v =
     (case Option.bind v as_array of None \<Rightarrow> []
      | Some arr \<Rightarrow> remdups_adj (sort (filter (\<lambda>d. 0 \<le> d \<and> d \<le> 6) (map wrap_i32 (filter_map as_i64 arr)))))"

definition parse_month :: "json option \<Rightarrow> int option" where
  "parse_month v =
     (case v of None \<Rightarrow> None
      | Some v \<Rightarrow>
          (case (case as_i64 v of Some n \<Rightarrow> Some n | None \<Rightarrow> Option.bind (as_str v) (\<lambda>s. parse_i64 (trim s))) of
             None \<Rightarrow> None
           | Some n \<Rightarrow> (let m = wrap_i32 n in if 1 \<le> m \<and> m \<le> 12 then Some m else None)))"

definition num_from_json :: "json \<Rightarrow> rat option" where
  "num_from_json v =
     (case (case as_f64 v of Some q \<Rightarrow> Some (Finite q) | None \<Rightarrow> Option.bind (as_str v) (\<lambda>s. parse_f64 (trim s))) of
        Some (Finite q) \<Rightarrow> if q \<ge> 0 then Some q else None
      | _ \<Rightarrow> None)"

definition parse_schedule :: "json \<Rightarrow> rate_schedule option" where
  "parse_schedule v =
     (case as_object v of None \<Rightarrow> None
      | Some obj \<Rightarrow>
          (case (Option.bind (map_of obj (lit ''rate'')) num_from_json, Option.bind (map_of obj (lit ''start'')) parse_minute_of_day,
                 Option.bind (map_of obj (lit ''end'')) parse_minute_of_day) of
             (Some r, Some a, Some b) \<Rightarrow>
               Some \<lparr>sch_rate = r, start_min = a, end_min = b, days = parse_days (map_of obj (lit ''days'')),
                 start_month = (case parse_month (map_of obj (lit ''startMonth'')) of Some m \<Rightarrow> m | None \<Rightarrow> 1),
                 end_month = (case parse_month (map_of obj (lit ''endMonth'')) of Some m \<Rightarrow> m | None \<Rightarrow> 12)\<rparr>
           | _ \<Rightarrow> None))"

definition parse_tag_rate :: "json \<Rightarrow> tag_rate" where
  "parse_tag_rate v =
     (case as_object v of
        Some obj \<Rightarrow> \<lparr>flat = Option.bind (map_of obj (lit ''flat'')) num_from_json,
                     schedules = (case Option.bind (map_of obj (lit ''schedules'')) as_array of
                                    Some arr \<Rightarrow> filter_map parse_schedule arr | None \<Rightarrow> [])\<rparr>
      | None \<Rightarrow> \<lparr>flat = num_from_json v, schedules = []\<rparr>)"

record charge_rate_config =
  rc_currency :: ustr
  default_rate :: "rat option"
  tag_rates :: "(ustr \<times> tag_rate) list"

definition pref_rates :: "(ustr \<times> json) list \<Rightarrow> (ustr \<times> json) list option" where
  "pref_rates prefs = Option.bind (map_of prefs (lit ''charging_tag_rates'')) as_object"

definition load_rates :: "(ustr \<times> json) list \<Rightarrow> charge_rate_config" where
  "load_rates prefs =
     \<lparr>rc_currency = (case map_option trim (Option.bind (map_of prefs (lit ''charging_currency'')) as_str) of
                       Some s \<Rightarrow> if s \<noteq> [] then s else lit ''$'' | None \<Rightarrow> lit ''$''),
      default_rate = Option.bind (map_of prefs (lit ''charging_default_rate'')) num_from_json,
      tag_rates = (case pref_rates prefs of Some m \<Rightarrow> map (\<lambda>(k, v). (k, parse_tag_rate v)) m | None \<Rightarrow> [])\<rparr>"

text \<open>The clock: from a revision of the time zone and an instant to minute of the day, weekday and month.\<close>

type_synonym local_clock = "int \<Rightarrow> (int \<times> int \<times> int) option"

definition half_toward_zero :: "int \<Rightarrow> int" where
  "half_toward_zero x = (if x \<ge> 0 then x div 2 else - ((- x) div 2))"

definition or_else :: "'a option \<Rightarrow> 'a option \<Rightarrow> 'a option" where
  "or_else a b = (case a of Some x \<Rightarrow> Some x | None \<Rightarrow> b)"

definition interval_rate :: "local_clock \<Rightarrow> tag_rate \<Rightarrow> rat option \<Rightarrow> int \<Rightarrow> rat option" where
  "interval_rate clock plan dflt mid =
     Option.bind (clock mid) (\<lambda>t. or_else (or_else (map_option sch_rate (find (\<lambda>s. covers s t) (schedules plan))) (flat plan)) dflt)"

definition price_interval ::
  "local_clock \<Rightarrow> tag_rate \<Rightarrow> rat option \<Rightarrow> rat option \<Rightarrow> (int \<times> rat) \<times> (int \<times> rat) \<Rightarrow> rat option" where
  "price_interval clock plan dflt acc w =
     (if interval_hours w \<le> 0 then acc
      else case interval_rate clock plan dflt (half_toward_zero (fst (fst w) + fst (snd w))) of
          Some r \<Rightarrow> Some (fl ((case acc of Some c \<Rightarrow> c | None \<Rightarrow> 0) + fl (interval_kwh w * r)))
        | None \<Rightarrow> acc)"

definition plan_cost :: "local_clock \<Rightarrow> charge_row list \<Rightarrow> tag_rate \<Rightarrow> rat option \<Rightarrow> rat option" where
  "plan_cost clock rows plan dflt =
     (let pts = power_points rows
      in if length pts < 2 then None else foldl (price_interval clock plan dflt) None (windows2 pts))"

definition max_cost :: "rat option \<Rightarrow> rat \<Rightarrow> rat option" where
  "max_cost acc c = (case acc of None \<Rightarrow> Some c | Some a \<Rightarrow> Some (max a c))"

definition rate_keys :: "ustr list \<Rightarrow> bool \<Rightarrow> charge_rate_config \<Rightarrow> ustr list" where
  "rate_keys names home rates =
     (if home then names @ filter (\<lambda>k. eq_ignore_ascii_case k home_tag \<and> k \<notin> set names) (map fst (tag_rates rates)) else names)"

definition best_tag_cost :: "local_clock \<Rightarrow> charge_row list \<Rightarrow> ustr list \<Rightarrow> charge_rate_config \<Rightarrow> rat option" where
  "best_tag_cost clock rows keys rates =
     foldl max_cost None
       (filter_map (\<lambda>p. plan_cost clock rows p (default_rate rates))
          (filter is_configured (filter_map (map_of (tag_rates rates)) keys)))"

definition apply_rates ::
  "local_clock \<Rightarrow> charge_row list \<Rightarrow> ustr list \<Rightarrow> bool \<Rightarrow> charge_rate_config \<Rightarrow> charge_session_summary \<Rightarrow> charge_session_summary" where
  "apply_rates clock rows names home rates s =
     (let (c, r) = (case best_tag_cost clock rows (rate_keys names home rates) rates of
                      Some c \<Rightarrow> (Some c, (case energy_used_kwh s of Some u \<Rightarrow> if u > 0 then Some (fl (c / u)) else None | None \<Rightarrow> None))
                    | None \<Rightarrow> (case default_rate rates of
                                 Some dr \<Rightarrow> (map_option (\<lambda>u. fl (dr * u)) (energy_used_kwh s), Some dr)
                               | None \<Rightarrow> (None, None)))
      in s\<lparr>cost := c, rate := r, currency := rc_currency rates, tags := names, at_home := home\<rparr>)"

definition apply_cost_override :: "(rat \<times> ustr) option \<Rightarrow> charge_session_summary \<Rightarrow> charge_session_summary" where
  "apply_cost_override o' s =
     (case o' of None \<Rightarrow> s
      | Some (amount, cur) \<Rightarrow> s\<lparr>cost := Some amount, currency := (if cur \<noteq> [] then cur else currency s), rate := None,
                               cost_overridden := True\<rparr>)"

subsection \<open>Freezing the home rate\<close>

datatype rate_copy = CopyNothing | CopyConflict | CopyRate json

definition home_rate_copy_plan :: "(ustr \<times> json) list \<Rightarrow> ustr \<Rightarrow> rate_copy" where
  "home_rate_copy_plan prefs tag =
     (case pref_rates prefs of None \<Rightarrow> CopyNothing
      | Some rates \<Rightarrow>
          let home_keys = map snd (filter (\<lambda>(k, v). eq_ignore_ascii_case k home_tag \<and> is_configured (parse_tag_rate v)) rates);
              priced = (\<lambda>k. case map_of rates k of Some v \<Rightarrow> if is_configured (parse_tag_rate v) then Some v else None | None \<Rightarrow> None)
          in if length home_keys > 1 \<and> list_ex (\<lambda>(a, b). parse_tag_rate a \<noteq> parse_tag_rate b) (windows2 home_keys) then CopyConflict
             else case (or_else (priced home_tag) (case home_keys of v # _ \<Rightarrow> Some v | [] \<Rightarrow> None), priced tag) of
                 (None, Some _) \<Rightarrow> CopyConflict
               | (None, None) \<Rightarrow> CopyNothing
               | (Some home, None) \<Rightarrow> CopyRate home
               | (Some home, Some d) \<Rightarrow> if parse_tag_rate home = parse_tag_rate d then CopyNothing else CopyConflict)"

definition tag_is_priced :: "(ustr \<times> json) list \<Rightarrow> ustr \<Rightarrow> bool" where
  "tag_is_priced prefs tag =
     (case Option.bind (pref_rates prefs) (\<lambda>m. map_of m tag) of Some v \<Rightarrow> is_configured (parse_tag_rate v) | None \<Rightarrow> False)"

datatype freeze_error = RateConflict | LabelInUse | ReservedName

definition copy_home_rate_to :: "ustr \<Rightarrow> bool \<Rightarrow> (ustr \<times> json) list \<Rightarrow> freeze_error + (ustr \<times> json) list \<times> bool" where
  "copy_home_rate_to tag label_in_use prefs =
     (case home_rate_copy_plan prefs tag of
        CopyNothing \<Rightarrow> Inr (prefs, tag_is_priced prefs tag)
      | CopyConflict \<Rightarrow> Inl RateConflict
      | CopyRate r \<Rightarrow>
          if label_in_use then Inl LabelInUse
          else let rates = (case pref_rates prefs of Some m \<Rightarrow> m | None \<Rightarrow> [])
               in Inr (assoc_insert (lit ''charging_tag_rates'') (JObj (assoc_insert tag r rates)) prefs, True))"

subsection \<open>The list and its projection\<close>

record charge_env =
  env_clock :: "ustr \<Rightarrow> local_clock"
  env_home :: "rat \<times> rat \<times> rat \<Rightarrow> f64 option \<Rightarrow> f64 option \<Rightarrow> bool"
  env_reread :: "charge_session_summary list \<Rightarrow> charge_session_summary list option"

record charge_context =
  cx_rates :: charge_rate_config
  cx_home :: "(rat \<times> rat \<times> rat) option"
  cx_tags :: "(int \<times> ustr list) list"
  cx_costs :: "(int \<times> rat \<times> ustr) list"
  cx_timezone :: ustr

definition is_home_charge :: "charge_env \<Rightarrow> f64 option \<Rightarrow> f64 option \<Rightarrow> (rat \<times> rat \<times> rat) option \<Rightarrow> bool" where
  "is_home_charge env la lo home = (case home of None \<Rightarrow> False | Some h \<Rightarrow> env_home env h la lo)"

definition price_session :: "charge_env \<Rightarrow> charge_context \<Rightarrow> charge_row list \<Rightarrow> charge_session_summary" where
  "price_session env ctx rows =
     (let summary = summarize rows;
          stored = (case map_of (cx_tags ctx) (s_id summary) of Some t \<Rightarrow> t | None \<Rightarrow> []);
          home = is_home_charge env (location_lat summary) (location_lon summary) (cx_home ctx)
      in apply_cost_override (map_of (cx_costs ctx) (s_id summary))
           (apply_rates (env_clock env (cx_timezone ctx)) rows stored home (cx_rates ctx) summary))"

definition newest_first :: "charge_session_summary list \<Rightarrow> charge_session_summary list" where
  "newest_first ss = sort_key (\<lambda>s. - s_id s) ss"

definition resume_charging_projection ::
  "charge_session_summary list \<Rightarrow> int \<Rightarrow> int \<times> charge_session_summary list" where
  "resume_charging_projection sessions latest_ts =
     (case sessions of [] \<Rightarrow> (min (latest_ts + 1) (2 ^ 63 - 1), [])
      | s # rest \<Rightarrow> if end_ms s div 1000 + session_gap_secs < latest_ts then (min (latest_ts + 1) (2 ^ 63 - 1), sessions)
                    else (s_id s, rest))"

record projection =
  pr_revision :: nat
  pr_rewrite :: nat
  pr_context :: charge_context
  pr_body :: "charge_session_summary list"
  pr_latest :: int

record charge_db =
  db_table :: "charge_row list"
  db_revision :: nat
  db_rewrite :: nat
  db_latest :: int
  db_projection :: "projection option"
  db_tags :: "(int \<times> ustr list) list"
  db_costs :: "(int \<times> rat \<times> ustr) list"
  db_outbox :: "int list"
  db_uploads :: "int list"
  db_dirty :: "int list"

text \<open>
  The part of \<^verbatim>\<open>build_charging_list_with_context\<close> inside the read transaction: the list, and the projection to
  save when it is not the stored one.
\<close>

definition resume_point :: "charge_env \<Rightarrow> charge_context \<Rightarrow> charge_db \<Rightarrow> int \<times> charge_session_summary list" where
  "resume_point env ctx db =
     (case db_projection db of None \<Rightarrow> (0, [])
      | Some p \<Rightarrow> if pr_context p = ctx \<and> pr_rewrite p = db_rewrite db
                 then (case env_reread env (pr_body p) of Some old \<Rightarrow> resume_charging_projection old (pr_latest p) | None \<Rightarrow> (0, []))
                 else (0, []))"

definition stored_list :: "charge_env \<Rightarrow> charge_context \<Rightarrow> charge_db \<Rightarrow> charge_session_summary list option" where
  "stored_list env ctx db =
     (case db_projection db of None \<Rightarrow> None
      | Some p \<Rightarrow> if pr_context p = ctx \<and> pr_rewrite p = db_rewrite db \<and> pr_revision p = db_revision db
                 then env_reread env (pr_body p) else None)"

definition build_charging_list ::
  "charge_env \<Rightarrow> charge_context \<Rightarrow> charge_db \<Rightarrow> charge_session_summary list \<times> projection option" where
  "build_charging_list env ctx db =
     (case stored_list env ctx db of Some old \<Rightarrow> (old, None)
      | None \<Rightarrow>
          (let (from, kept) = resume_point env ctx db;
               sessions = newest_first (map (price_session env ctx) (group_sessions (load_charge_rows (db_table db) from None)) @ kept)
           in (sessions, Some \<lparr>pr_revision = db_revision db, pr_rewrite = db_rewrite db, pr_context = ctx, pr_body = sessions,
                            pr_latest = db_latest db\<rparr>)))"

text \<open>A late save never attaches an old list to a newer revision.\<close>

definition save_projection :: "projection \<Rightarrow> charge_db \<Rightarrow> charge_db" where
  "save_projection p db = (if db_revision db = pr_revision p then db\<lparr>db_projection := Some p\<rparr> else db)"

subsection \<open>Writes and their triggers\<close>

definition merge_row :: "charge_row \<Rightarrow> charge_row \<Rightarrow> charge_row" where
  "merge_row new old = \<lparr>ts = ts old, power_kw = or_else (power_kw new) (power_kw old), current_a = or_else (current_a new) (current_a old),
     voltage_v = or_else (voltage_v new) (voltage_v old), rate_mph = or_else (rate_mph new) (rate_mph old),
     energy_added_kwh = or_else (energy_added_kwh new) (energy_added_kwh old), limit_soc = or_else (limit_soc new) (limit_soc old),
     range_mi = or_else (range_mi new) (range_mi old), battery_pct = or_else (battery_pct new) (battery_pct old),
     location = or_else (location new) (location old), lat = or_else (lat new) (lat old), lon = or_else (lon new) (lon old),
     charging_state = or_else (charging_state new) (charging_state old)\<rparr>"

definition on_insert :: "int \<Rightarrow> charge_db \<Rightarrow> charge_db" where
  "on_insert t db = db\<lparr>db_revision := db_revision db + 1, db_rewrite := db_rewrite db + (if t \<le> db_latest db then 1 else 0),
     db_latest := max (db_latest db) t\<rparr>"

definition on_update :: "int \<Rightarrow> charge_db \<Rightarrow> charge_db" where
  "on_update t db = db\<lparr>db_revision := db_revision db + 1, db_rewrite := db_rewrite db + 1, db_latest := max (db_latest db) t\<rparr>"

definition on_delete :: "nat \<Rightarrow> charge_db \<Rightarrow> charge_db" where
  "on_delete n db = db\<lparr>db_revision := db_revision db + n, db_rewrite := db_rewrite db + n\<rparr>"

definition insert_sample :: "charge_row \<Rightarrow> charge_db \<Rightarrow> charge_db" where
  "insert_sample r db =
     (if ts r \<in> ts ` set (db_table db)
      then on_update (ts r) (db\<lparr>db_table := map (\<lambda>o'. if ts o' = ts r then merge_row r o' else o') (db_table db)\<rparr>)
      else on_insert (ts r) (db\<lparr>db_table := insort_key ts r (db_table db)\<rparr>))"

definition delete_samples :: "(charge_row \<Rightarrow> bool) \<Rightarrow> charge_db \<Rightarrow> charge_db" where
  "delete_samples P db = on_delete (length (filter P (db_table db))) (db\<lparr>db_table := filter (\<lambda>r. \<not> P r) (db_table db)\<rparr>)"

definition session_window :: int where "session_window = 7 * 24 * 60 * 60"

text \<open>The session that starts at \<open>id\<close>, as the detail view and the deletion derive it.\<close>

definition session_at :: "charge_db \<Rightarrow> int \<Rightarrow> charge_row list option" where
  "session_at db i =
     (case group_sessions (load_charge_rows (db_table db) i (Some (i + session_window))) of s # _ \<Rightarrow> Some s | [] \<Rightarrow> None)"

record charge_session_detail =
  d_summary :: charge_session_summary
  avg_power_kw :: "f64 option"
  peak_current_a :: "int option"
  avg_current_a :: "f64 option"
  peak_voltage_v :: "int option"
  avg_voltage_v :: "f64 option"
  peak_rate_mph :: "f64 option"
  points :: "charge_point list"

definition f64_of_int :: "int \<Rightarrow> f64" where
  "f64_of_int n = Finite (fl (of_int n))"

fun f64_max :: "f64 \<Rightarrow> f64 \<Rightarrow> f64" where
  "f64_max (Finite a) (Finite b) = Finite (max a b)"
| "f64_max NotANumber y = y"
| "f64_max x NotANumber = x"
| "f64_max NegInfinity y = y"
| "f64_max x NegInfinity = x"
| "f64_max PosInfinity y = PosInfinity"
| "f64_max x PosInfinity = PosInfinity"

definition session_detail :: "charge_env \<Rightarrow> charge_context \<Rightarrow> charge_row list \<Rightarrow> charge_session_detail" where
  "session_detail env ctx session =
     (let amps = filter_map (\<lambda>r. display_current_a (power_kw r) (voltage_v r) (current_a r)) session;
          volts = filter_map voltage_v session; speeds = filter_map rate_mph session
      in \<lparr>d_summary = price_session env ctx session, avg_power_kw = avg (map f64_of_int (filter_map power_kw session)),
          peak_current_a = max_opt amps, avg_current_a = avg (map f64_of_int amps), peak_voltage_v = max_opt volts,
          avg_voltage_v = avg (map f64_of_int volts),
          peak_rate_mph = (case speeds of [] \<Rightarrow> None | v # vs \<Rightarrow> Some (foldl f64_max v vs)), points = session_points session\<rparr>)"

definition single_charging :: "charge_env \<Rightarrow> charge_context \<Rightarrow> charge_db \<Rightarrow> int \<Rightarrow> charge_session_detail option" where
  "single_charging env ctx db i = map_option (session_detail env ctx) (session_at db i)"

definition delete_charge :: "int \<Rightarrow> charge_db \<Rightarrow> charge_db" where
  "delete_charge i db =
     (case session_at db i of None \<Rightarrow> db
      | Some session \<Rightarrow>
          let start = ts (hd session); last_ts = ts (last session);
              db1 = delete_samples (\<lambda>r. start \<le> ts r \<and> ts r \<le> last_ts \<and> charge_signal r) db
          in db1\<lparr>db_tags := filter (\<lambda>(k, _). k \<noteq> start) (db_tags db1), db_costs := filter (\<lambda>(k, _). k \<noteq> start) (db_costs db1),
                 db_outbox := start # filter (\<lambda>k. k \<noteq> start) (db_outbox db1),
                 db_uploads := filter (\<lambda>k. k \<noteq> start) (db_uploads db1), db_dirty := filter (\<lambda>k. k \<noteq> start) (db_dirty db1)\<rparr>)"

definition bulk_delete_charges :: "int list \<Rightarrow> charge_db \<Rightarrow> charge_db" where
  "bulk_delete_charges ids db = foldl (\<lambda>db i. delete_charge i db) db ids"

text \<open>
  The clients interleave: the sampler inserts, the user deletes, lists are built in a read transaction
  and saved later.
\<close>

type_synonym list_state = "charge_db \<times> projection list"

inductive list_step :: "charge_env \<Rightarrow> list_state \<Rightarrow> list_state \<Rightarrow> bool" for env :: charge_env where
  inserted: "0 \<le> ts r \<Longrightarrow> ts r < 2 ^ 63 \<Longrightarrow> list_step env (db, ps) (insert_sample r db, ps)"
| deleted: "list_step env (db, ps) (bulk_delete_charges ids db, ps)"
| built: "build_charging_list env ctx db = (ss, Some p) \<Longrightarrow> list_step env (db, ps) (db, p # ps)"
| saved: "p \<in> set ps \<Longrightarrow> list_step env (db, ps) (save_projection p db, ps)"
| dropped: "list_step env (db, p # ps) (db, ps)"

definition init_db :: "charge_row list \<Rightarrow> charge_db" where
  "init_db table = \<lparr>db_table = table, db_revision = 0, db_rewrite = 0,
     db_latest = (if table = [] then 0 else ts (last table)), db_projection = None, db_tags = [], db_costs = [], db_outbox = [],
     db_uploads = [], db_dirty = []\<rparr>"

definition list_reachable :: "charge_env \<Rightarrow> list_state \<Rightarrow> bool" where
  "list_reachable env st \<longleftrightarrow> (\<exists>table. table_ok table \<and> (list_step env)\<^sup>*\<^sup>* (init_db table, []) st)"

text \<open>The reference: the whole table grouped and priced.\<close>

definition full_list :: "charge_env \<Rightarrow> charge_context \<Rightarrow> charge_row list \<Rightarrow> charge_session_summary list" where
  "full_list env ctx table = rev (map (price_session env ctx) (group_sessions (charging_rows table)))"

subsection \<open>The dashboard and the controls\<close>

definition charging_control_fresh_secs :: int where "charging_control_fresh_secs = 120"
definition known_limit_max_age_secs :: int where "known_limit_max_age_secs = 7 * 86400"
definition charge_stale_secs :: int where "charge_stale_secs = 86400"

record latest_charge =
  l_row :: charge_row
  minutes_to_full :: "int option"
  charging_amps_set :: "int option"
  charge_current_request_max :: "int option"
  charge_port_door_open :: "bool option"

record current_charge =
  c_charging :: bool
  c_soc :: "f64 option"
  c_limit_soc :: "int option"
  limit_adjustable :: bool
  c_power_kw :: "int option"
  c_current_a :: "int option"
  c_voltage_v :: "int option"
  c_rate_mph :: "f64 option"
  c_energy_added_kwh :: "f64 option"
  c_minutes_to_full :: "int option"
  c_range_mi :: "f64 option"
  charging_amps :: "int option"
  max_charging_amps :: "int option"
  charge_port_open :: "bool option"
  c_controls_available :: bool
  controls_valid_until_ts :: "int option"

definition idle_charge :: current_charge where
  "idle_charge = \<lparr>c_charging = False, c_soc = None, c_limit_soc = None, limit_adjustable = False, c_power_kw = None,
     c_current_a = None, c_voltage_v = None, c_rate_mph = None, c_energy_added_kwh = None, c_minutes_to_full = None,
     c_range_mi = None, charging_amps = None, max_charging_amps = None, charge_port_open = None, c_controls_available = False,
     controls_valid_until_ts = None\<rparr>"

definition controls_fresh :: "int \<Rightarrow> latest_charge \<Rightarrow> bool" where
  "controls_fresh now l \<longleftrightarrow> 0 \<le> now - ts (l_row l) \<and> now - ts (l_row l) \<le> charging_control_fresh_secs"

definition controls_available :: "int \<Rightarrow> latest_charge \<Rightarrow> bool" where
  "controls_available now l \<longleftrightarrow>
     (let r = l_row l;
          active = (phase_is_active (charging_state r) = Some True \<or>
                    (charging_state r = None \<and> is_charging (power_kw r) (rate_mph r)))
      in controls_fresh now l \<and> (charge_port_door_open l = Some True \<or> active))"

definition keep_if :: "bool \<Rightarrow> 'a option \<Rightarrow> 'a option" where
  "keep_if b x = (if b then x else None)"

definition from_latest :: "latest_charge option \<Rightarrow> int \<Rightarrow> current_charge" where
  "from_latest latest now =
     (case latest of None \<Rightarrow> idle_charge
      | Some l \<Rightarrow>
          let r = l_row l; age = now - ts r;
              charging = (case phase_is_active (charging_state r) of
                            Some True \<Rightarrow> age \<le> charge_stale_secs
                          | Some False \<Rightarrow> False
                          | None \<Rightarrow> age \<le> 600 \<and> is_charging (power_kw r) (rate_mph r));
              soc = keep_if (age \<le> charge_stale_secs) (battery_pct r);
              available = controls_available now l; fresh = controls_fresh now l
          in \<lparr>c_charging = charging, c_soc = soc, c_limit_soc = keep_if charging (limit_soc r), limit_adjustable = False,
              c_power_kw = keep_if charging (power_kw r),
              c_current_a = keep_if charging (display_current_a (power_kw r) (voltage_v r) (current_a r)),
              c_voltage_v = keep_if charging (voltage_v r), c_rate_mph = keep_if charging (rate_mph r),
              c_energy_added_kwh = keep_if charging (energy_added_kwh r), c_minutes_to_full = keep_if charging (minutes_to_full l),
              c_range_mi = (if charging then range_mi r else keep_if (soc \<noteq> None) (range_mi r)),
              charging_amps = keep_if fresh (charging_amps_set l), max_charging_amps = keep_if fresh (charge_current_request_max l),
              charge_port_open = keep_if fresh (charge_port_door_open l), c_controls_available = available,
              controls_valid_until_ts = keep_if available (Some (ts r + charging_control_fresh_secs))\<rparr>)"

definition from_snapshot :: "latest_charge option \<Rightarrow> (int \<times> int) option \<Rightarrow> bool \<Rightarrow> int \<Rightarrow> current_charge" where
  "from_snapshot latest known health_ok now =
     (let cur = from_latest latest now;
          limit = or_else (c_limit_soc cur)
                    (case known of Some (l, t) \<Rightarrow> keep_if (0 \<le> now - t \<and> now - t \<le> known_limit_max_age_secs) (Some l) | None \<Rightarrow> None)
      in cur\<lparr>c_limit_soc := limit, limit_adjustable := health_ok \<and> limit \<noteq> None\<rparr>)"

datatype action_error = ValueRequired | NoSafeMaximum | AmpsOutOfRange | LimitOutOfRange | UnknownAction
  | NoTelemetry | Unhealthy | StaleControls

definition charging_action_verb :: "ustr \<Rightarrow> int option \<Rightarrow> int option \<Rightarrow> action_error + ustr" where
  "charging_action_verb action v max_amps =
     (if action = lit ''start'' then Inr (lit ''charge-start'')
      else if action = lit ''stop'' then Inr (lit ''charge-stop'')
      else if action = lit ''setAmps''
      then (case v of None \<Rightarrow> Inl ValueRequired
            | Some n \<Rightarrow>
                (case max_amps of
                   Some m \<Rightarrow> if 1 \<le> m \<and> m \<le> 80
                             then if 1 \<le> n \<and> n \<le> m then Inr (lit ''set-charging-amps:'' @ show_int n) else Inl AmpsOutOfRange
                             else Inl NoSafeMaximum
                 | None \<Rightarrow> Inl NoSafeMaximum))
      else if action = lit ''setLimit''
      then (case v of None \<Rightarrow> Inl ValueRequired
            | Some n \<Rightarrow> if 50 \<le> n \<and> n \<le> 100 then Inr (lit ''set-charge-limit:'' @ show_int n) else Inl LimitOutOfRange)
      else Inl UnknownAction)"

definition charging_action_gate :: "bool \<Rightarrow> latest_charge option \<Rightarrow> bool \<Rightarrow> int \<Rightarrow> action_error + unit" where
  "charging_action_gate set_limit latest health_ok now =
     (if \<not> set_limit \<and> latest = None then Inl NoTelemetry
      else if \<not> health_ok then Inl Unhealthy
      else if \<not> set_limit \<and> \<not> (case latest of Some l \<Rightarrow> controls_available now l | None \<Rightarrow> False) then Inl StaleControls
      else Inr ())"

text \<open>The command sent to the car; the health is the one of waking commands for a limit, else the green one.\<close>

definition charging_action ::
  "ustr \<Rightarrow> int option \<Rightarrow> latest_charge option \<Rightarrow> bool \<Rightarrow> bool \<Rightarrow> int \<Rightarrow> action_error + ustr" where
  "charging_action action v latest wake_ok green now =
     (let set_limit = (action = lit ''setLimit'')
      in bindR (charging_action_gate set_limit latest (if set_limit then wake_ok else green) now)
           (\<lambda>_. charging_action_verb action v (Option.bind latest charge_current_request_max)))"

section \<open>Lemmas\<close>

lemma price_session_key [simp]:
  "s_id (price_session env ctx rows) = ts (hd rows)" "end_ms (price_session env ctx rows) = ts (last rows) * 1000"
  by (simp_all add: price_session_def apply_cost_override_def apply_rates_def summarize_def Let_def split: option.splits prod.splits)

lemma session_keys_ascend:
  assumes "sorted_wrt (\<lambda>a b. ts a < ts b) (concat ss)" "[] \<notin> set ss"
  shows "sorted_wrt (<) (map (\<lambda>x. ts (hd x)) ss)"
  using assms
proof (induction ss)
  case (Cons x ss)
  then obtain a xs where x: "x = a # xs" by (cases x) auto
  have "ts (hd x) < ts (hd y)" if "y \<in> set ss" for y
  proof -
    have "y \<noteq> []" using that Cons.prems(2) by auto
    then have "hd y \<in> set (concat ss)" using that by (auto intro!: bexI [of _ y])
    then show ?thesis using Cons.prems(1) by (auto simp: x sorted_wrt_append)
  qed
  then show ?case using Cons by (auto simp: sorted_wrt_append)
qed simp

lemma newest_first_sessions:
  assumes "sorted_wrt (<) (map s_id (olds @ news))"
  shows "newest_first (news @ rev olds) = rev (olds @ news)"
proof -
  have "distinct (map s_id (olds @ news))"
    using assms by (simp add: strict_sorted_iff)
  then have "inj_on s_id (set (olds @ news))"
    by (simp only: distinct_map)
  then have inj: "inj_on (\<lambda>s. - s_id s) (set (news @ rev olds))"
    by (auto simp: inj_on_def)
  have "sorted_wrt (\<lambda>a b. s_id a < s_id b) (olds @ news)"
    using assms by (simp only: sorted_wrt_map)
  then have "sorted_wrt (\<lambda>a b. s_id b < s_id a) (rev (olds @ news))"
    by (simp only: sorted_wrt_rev)
  then have "sorted (map (\<lambda>s. - s_id s) (rev (olds @ news)))"
    unfolding sorted_wrt_map by (rule sorted_wrt_mono_rel [rotated]) simp
  then show ?thesis
    unfolding newest_first_def by (intro sort_key_inj_key_eq inj) simp_all
qed

lemma charging_rows_cut:
  assumes "table_ok table"
  shows "charging_rows table = charging_rows (filter (\<lambda>r. ts r \<le> t) table) @ filter (\<lambda>r. t < ts r) (charging_rows table)"
proof -
  have cut: "sorted_wrt (\<lambda>a b. ts a < ts b) rs \<Longrightarrow> rs = filter (\<lambda>r. ts r \<le> t) rs @ filter (\<lambda>r. t < ts r) rs" for rs
  proof (induction rs)
    case (Cons r rs)
    show ?case
    proof (cases "ts r \<le> t")
      case True
      then show ?thesis using Cons by simp
    next
      case False
      then have "filter (\<lambda>r. ts r \<le> t) rs = []" "filter (\<lambda>r. t < ts r) rs = rs"
        using Cons.prems by (auto simp: filter_empty_conv filter_id_conv)
      then show ?thesis using False by simp
    qed
  qed simp
  have "filter (\<lambda>r. ts r \<le> t) (charging_rows table) = charging_rows (filter (\<lambda>r. ts r \<le> t) table)"
    by (simp add: charging_rows_def conj_commute)
  then show ?thesis
    using cut [OF charging_rows_sorted [OF assms]] by simp
qed

lemma table_ok_filter: "table_ok table \<Longrightarrow> table_ok (filter P table)"
  by (auto simp: table_ok_def sorted_wrt_filter list_all_iff)

lemma load_all:
  assumes "table_ok table"
  shows "load_charge_rows table 0 None = charging_rows table"
proof -
  have "0 \<le> ts r" if "r \<in> set (charging_rows table)" for r
    using assms that by (auto simp: charging_rows_def table_ok_def list_all_iff)
  then show ?thesis by (simp add: load_from [OF assms] filter_id_conv)
qed

lemma next_le: "x \<le> m \<Longrightarrow> t < m \<or> x < m \<Longrightarrow> min (t + 1) m \<le> x \<longleftrightarrow> t < (x :: int)"
  by (auto simp: min_def)

lemma full_list_keys:
  assumes "table_ok table"
  shows "sorted_wrt (<) (map s_id (map (price_session env ctx) (group_sessions (charging_rows table))))"
  using session_keys_ascend [of "group_sessions (charging_rows table)"] charging_rows_sorted [OF assms]
    group_nonempty [of "[]"] by (auto simp: comp_def)

text \<open>Resuming a list that is right up to \<open>t\<close> gives the list of the whole table.\<close>

lemma resume_correct:
  assumes ok: "table_ok table" and t: "t \<le> 2 ^ 63 - 1"
    and resume: "resume_charging_projection (full_list env ctx (filter (\<lambda>r. ts r \<le> t) table)) t = (from, kept)"
  shows "newest_first (map (price_session env ctx) (group_sessions (load_charge_rows table from None)) @ kept) = full_list env ctx table"
proof -
  let ?f = "price_session env ctx"
  define R0 where "R0 = charging_rows (filter (\<lambda>r. ts r \<le> t) table)"
  define N where "N = filter (\<lambda>r. t < ts r) (charging_rows table)"
  have R: "charging_rows table = R0 @ N"
    using charging_rows_cut [OF ok] by (simp add: R0_def N_def)
  have old: "ts r \<le> t" if "r \<in> set R0" for r
    using that by (auto simp: R0_def charging_rows_def)
  have new: "t < ts r" if "r \<in> set N" for r
    using that by (auto simp: N_def)
  have sorted: "sorted_wrt (\<lambda>a b. ts a < ts b) (R0 @ N)"
    using charging_rows_sorted [OF ok] by (simp add: R)
  have top: "ts r \<le> 2 ^ 63 - 1" if "r \<in> set N" for r
    using that ok by (auto simp: N_def charging_rows_def table_ok_def list_all_iff)
  have from_next: "load_charge_rows table (min (t + 1) (2 ^ 63 - 1)) None = N" if "\<forall>r\<in>set R0. ts r < 2 ^ 63 - 1"
  proof -
    have "min (t + 1) (2 ^ 63 - 1) \<le> ts r \<longleftrightarrow> t < ts r" if "r \<in> set (R0 @ N)" for r
    proof (cases "r \<in> set R0")
      case True
      then have "ts r < 2 ^ 63 - 1" using \<open>\<forall>r\<in>set R0. ts r < 2 ^ 63 - 1\<close> by blast
      then show ?thesis by (intro next_le) simp_all
    next
      case False
      then have "ts r \<le> 2 ^ 63 - 1" "t < ts r" using that new top by auto
      then show ?thesis by (intro next_le) simp_all
    qed
    then have "filter (\<lambda>r. min (t + 1) (2 ^ 63 - 1) \<le> ts r) (R0 @ N) = filter (\<lambda>r. t < ts r) (R0 @ N)"
      by (intro filter_cong refl) blast
    also have "\<dots> = N"
      using old new by (auto simp: filter_empty_conv filter_id_conv not_less)
    finally show ?thesis by (simp add: load_from [OF ok] R)
  qed
  have joined: "newest_first (map ?f us @ rev (map ?f ss)) = full_list env ctx table"
    if "group_sessions (R0 @ N) = ss @ us" for ss us
    using newest_first_sessions [of "map ?f ss" "map ?f us"] full_list_keys [OF ok, of env ctx] that
    by (simp add: full_list_def R)
  show ?thesis
  proof (cases "R0 = []")
    case True
    then have "from = min (t + 1) (2 ^ 63 - 1) \<and> kept = []"
      using resume by (simp add: full_list_def R0_def [symmetric] resume_charging_projection_def)
    then show ?thesis
      using from_next joined [of "[]"] True by simp
  next
    case False
    then obtain ss x where g: "group_sessions R0 = ss @ [x]"
      by (metis group_eq_Nil rev_exhaust)
    have x: "x \<noteq> []" using group_nonempty [of x R0] g by simp
    have lx: "last x = last R0" using last_group [OF False] by (simp add: g)
    have body: "full_list env ctx (filter (\<lambda>r. ts r \<le> t) table) = ?f x # rev (map ?f ss)"
      by (simp add: full_list_def R0_def [symmetric] g)
    show ?thesis
    proof (cases "ts (last x) + session_gap_secs < t")
      case True
      then have r: "from = min (t + 1) (2 ^ 63 - 1)" "kept = rev (map ?f (ss @ [x]))"
        using resume by (simp_all add: body resume_charging_projection_def)
      have "ts r < 2 ^ 63 - 1" if "r \<in> set R0" for r
      proof -
        have "ts r \<le> ts (last R0)"
          using that sorted by (cases R0 rule: rev_cases) (auto simp: sorted_wrt_append)
        moreover have "ts (last R0) + session_gap_secs < t"
          using True by (simp add: lx)
        ultimately show ?thesis using t by (simp add: session_gap_secs_def)
      qed
      then have load: "load_charge_rows table from None = N"
        using from_next r by blast
      have "group_sessions (R0 @ N) = (ss @ [x]) @ group_sessions N"
      proof (cases "N = []")
        case True
        then show ?thesis by (simp add: g)
      next
        case False
        then have "far (last R0) (hd N)"
          using \<open>ts (last x) + session_gap_secs < t\<close> new [of "hd N"] by (simp add: far_def lx)
        then show ?thesis
          using group_append_far [OF \<open>R0 \<noteq> []\<close> False] g by simp
      qed
      from joined [OF this] show ?thesis unfolding load by (simp add: r(2))
    next
      case False
      then have r: "from = ts (hd x)" "kept = rev (map ?f ss)"
        using resume by (simp_all add: body resume_charging_projection_def)
      have R0: "R0 = concat ss @ x" using group_rows [of R0] by (simp add: g)
      have load: "load_charge_rows table from None = x @ N"
        using filter_cut [of "concat ss" "x @ N"] sorted x by (simp add: load_from [OF ok] R R0 r)
      have "group_sessions (R0 @ N) = ss @ group_sessions (x @ N)"
      proof (cases "ss = []")
        case True
        then show ?thesis by (simp add: R0)
      next
        case False
        then have "far (last (concat ss)) (hd (x @ N))" "concat ss \<noteq> []"
          using far_between [OF g] x group_nonempty [of _ R0] by (auto simp: g)
        then show ?thesis
          using group_append_far [of "concat ss" "x @ N"] group_prefix [OF g] x by (simp add: R0)
      qed
      from joined [OF this] show ?thesis unfolding load by (simp add: r(2))
    qed
  qed
qed

subsection \<open>The projection over all interleavings\<close>

text \<open>
  A projection made at a revision is right for the samples up to its newest one as long as no sample was
  rewritten; at the same revision nothing has changed at all.
\<close>

definition proj_ok :: "charge_env \<Rightarrow> charge_db \<Rightarrow> projection \<Rightarrow> bool" where
  "proj_ok env db p \<longleftrightarrow> pr_revision p \<le> db_revision db \<and> pr_rewrite p \<le> db_rewrite db \<and>
     (pr_revision p = db_revision db \<longrightarrow> pr_rewrite p = db_rewrite db \<and> pr_latest p = db_latest db) \<and>
     (pr_rewrite p = db_rewrite db \<longrightarrow> pr_latest p \<le> db_latest db \<and>
        pr_body p = full_list env (pr_context p) (filter (\<lambda>r. ts r \<le> pr_latest p) (db_table db)))"

definition db_ok :: "charge_db \<Rightarrow> bool" where
  "db_ok db \<longleftrightarrow> table_ok (db_table db) \<and> list_all (\<lambda>r. ts r \<le> db_latest db) (db_table db) \<and> db_latest db \<le> 2 ^ 63 - 1"

definition list_inv :: "charge_env \<Rightarrow> list_state \<Rightarrow> bool" where
  "list_inv env st \<longleftrightarrow> db_ok (fst st) \<and> list_all (proj_ok env (fst st)) (snd st) \<and>
     (case db_projection (fst st) of Some p \<Rightarrow> proj_ok env (fst st) p | None \<Rightarrow> True)"

lemma sorted_insort_ts:
  "sorted_wrt (\<lambda>a b. ts a < ts b) rs \<Longrightarrow> ts r \<notin> ts ` set rs \<Longrightarrow> sorted_wrt (\<lambda>a b. ts a < ts b) (insort_key ts r rs)"
  by (induction rs) (auto simp: set_insort_key)

lemma merge_row_ts [simp]: "ts (merge_row new old) = ts old"
  by (simp add: merge_row_def)

lemma db_ok_insert: "db_ok db \<Longrightarrow> 0 \<le> ts r \<Longrightarrow> ts r < 2 ^ 63 \<Longrightarrow> db_ok (insert_sample r db)"
  by (auto simp: db_ok_def insert_sample_def on_update_def on_insert_def table_ok_def list_all_iff set_insort_key
      sorted_insort_ts sorted_wrt_map if_distrib [of ts] cong: if_cong)

lemma proj_ok_insert: "db_ok db \<Longrightarrow> proj_ok env db p \<Longrightarrow> proj_ok env (insert_sample r db) p"
  by (auto simp: proj_ok_def insert_sample_def on_update_def on_insert_def filter_insort_triv split: if_splits)

lemma db_ok_delete_samples: "db_ok db \<Longrightarrow> db_ok (delete_samples P db)"
  by (auto simp: db_ok_def delete_samples_def on_delete_def table_ok_filter list_all_iff)

lemma proj_ok_delete_samples:
  assumes "proj_ok env db p"
  shows "proj_ok env (delete_samples P db) p"
proof (cases "filter P (db_table db) = []")
  case True
  then have "filter (\<lambda>r. \<not> P r) (db_table db) = db_table db"
    by (simp add: filter_empty_conv filter_id_conv)
  then show ?thesis using assms True by (simp add: proj_ok_def delete_samples_def on_delete_def)
next
  case False
  then have "0 < length (filter P (db_table db))" by simp
  then show ?thesis using assms by (auto simp: proj_ok_def delete_samples_def on_delete_def)
qed

text \<open>The tags, costs and queues do not matter to the projection.\<close>

lemma proj_ok_queues [simp]:
  "proj_ok env (db\<lparr>db_tags := a, db_costs := b, db_outbox := c, db_uploads := d, db_dirty := e\<rparr>) p = proj_ok env db p"
  "db_ok (db\<lparr>db_tags := a, db_costs := b, db_outbox := c, db_uploads := d, db_dirty := e\<rparr>) = db_ok db"
  "proj_ok env (db\<lparr>db_projection := q\<rparr>) p = proj_ok env db p"
  "db_ok (db\<lparr>db_projection := q\<rparr>) = db_ok db"
  by (simp_all add: proj_ok_def db_ok_def)

lemma db_projection_writes [simp]:
  "db_projection (insert_sample r db) = db_projection db" "db_projection (delete_samples P db) = db_projection db"
  by (simp_all add: insert_sample_def on_update_def on_insert_def delete_samples_def on_delete_def)

lemma list_inv_insert:
  "list_inv env (db, ps) \<Longrightarrow> 0 \<le> ts r \<Longrightarrow> ts r < 2 ^ 63 \<Longrightarrow> list_inv env (insert_sample r db, ps)"
  by (auto simp: list_inv_def list_all_iff db_ok_insert proj_ok_insert split: option.splits)

lemma list_inv_delete_charge: "list_inv env (db, ps) \<Longrightarrow> list_inv env (delete_charge i db, ps)"
  by (auto simp: list_inv_def delete_charge_def Let_def list_all_iff db_ok_delete_samples proj_ok_delete_samples split: option.splits)

lemma list_inv_bulk_delete: "list_inv env (db, ps) \<Longrightarrow> list_inv env (bulk_delete_charges ids db, ps)"
  by (induction ids arbitrary: db) (auto simp: bulk_delete_charges_def list_inv_delete_charge)

lemma build_correct:
  assumes inv: "list_inv env (db, ps)" and reread: "\<And>b. env_reread env b = Some b \<or> env_reread env b = None"
  shows "fst (build_charging_list env ctx db) = full_list env ctx (db_table db)"
proof -
  have ok: "table_ok (db_table db)" and top: "list_all (\<lambda>r. ts r \<le> db_latest db) (db_table db)" "db_latest db \<le> 2 ^ 63 - 1"
    using inv by (simp_all add: list_inv_def db_ok_def)
  have all: "filter (\<lambda>r. ts r \<le> db_latest db) (db_table db) = db_table db"
    using top(1) by (simp add: filter_id_conv list_all_iff)
  have scratch: "newest_first (map (price_session env ctx) (group_sessions (load_charge_rows (db_table db) 0 None)) @ []) = full_list env ctx (db_table db)"
    using newest_first_sessions [of "[]" "map (price_session env ctx) (group_sessions (charging_rows (db_table db)))"]
      full_list_keys [OF ok, of env ctx] by (simp add: load_all [OF ok] full_list_def rev_map)
  have resumed: "newest_first (map (price_session env ctx) (group_sessions (load_charge_rows (db_table db) fr None)) @ kept) = full_list env ctx (db_table db)"
    if "resume_point env ctx db = (fr, kept)" for fr kept
  proof (cases "\<exists>p old. db_projection db = Some p \<and> pr_context p = ctx \<and> pr_rewrite p = db_rewrite db \<and> env_reread env (pr_body p) = Some old")
    case True
    then obtain p old where p: "db_projection db = Some p" "pr_context p = ctx" "pr_rewrite p = db_rewrite db" "env_reread env (pr_body p) = Some old"
      by blast
    then have "proj_ok env db p" using inv by (simp add: list_inv_def)
    moreover have "old = pr_body p" using p(4) reread [of "pr_body p"] by simp
    ultimately have "pr_latest p \<le> 2 ^ 63 - 1" "resume_charging_projection (full_list env ctx (filter (\<lambda>r. ts r \<le> pr_latest p) (db_table db))) (pr_latest p) = (fr, kept)"
      using that p top(2) by (simp_all add: proj_ok_def resume_point_def)
    then show ?thesis by (rule resume_correct [OF ok])
  next
    case False
    then have "fr = 0 \<and> kept = []"
      using that by (auto simp: resume_point_def split: option.splits if_splits)
    then show ?thesis using scratch by simp
  qed
  show ?thesis
  proof (cases "stored_list env ctx db")
    case None
    obtain fr kept where "resume_point env ctx db = (fr, kept)" by fastforce
    with resumed show ?thesis by (simp add: build_charging_list_def None Let_def)
  next
    case (Some old)
    then obtain p where p: "db_projection db = Some p" "pr_context p = ctx" "pr_rewrite p = db_rewrite db"
        "pr_revision p = db_revision db" "env_reread env (pr_body p) = Some old"
      by (auto simp: stored_list_def split: option.splits if_splits)
    then have "proj_ok env db p" using inv by (simp add: list_inv_def)
    then have "pr_body p = full_list env ctx (db_table db)" using p all by (simp add: proj_ok_def)
    then show ?thesis using Some p(5) reread [of "pr_body p"] by (simp add: build_charging_list_def)
  qed
qed

lemma built_proj_ok:
  assumes inv: "list_inv env (db, ps)" and reread: "\<And>b. env_reread env b = Some b \<or> env_reread env b = None"
    and b: "build_charging_list env ctx db = (ss, Some p)"
  shows "proj_ok env db p"
proof -
  have "ss = full_list env ctx (db_table db)"
    using build_correct [OF inv reread, of ctx] b by simp
  moreover have "p = \<lparr>pr_revision = db_revision db, pr_rewrite = db_rewrite db, pr_context = ctx, pr_body = ss, pr_latest = db_latest db\<rparr>"
    using b by (auto simp: build_charging_list_def Let_def split: option.splits prod.splits)
  moreover have "filter (\<lambda>r. ts r \<le> db_latest db) (db_table db) = db_table db"
    using inv by (simp add: list_inv_def db_ok_def filter_id_conv list_all_iff)
  ultimately show ?thesis by (simp add: proj_ok_def)
qed

lemma list_inv_step:
  assumes reread: "\<And>b. env_reread env b = Some b \<or> env_reread env b = None"
  shows "list_step env st st' \<Longrightarrow> list_inv env st \<Longrightarrow> list_inv env st'"
proof (induction rule: list_step.induct)
  case (built ctx db ss p ps)
  then have "proj_ok env db p" using built_proj_ok [OF _ reread] by blast
  then show ?case using built by (auto simp: list_inv_def split: option.splits)
next
  case (saved p ps db)
  then show ?case by (auto simp: list_inv_def save_projection_def list_all_iff)
qed (simp_all add: list_inv_insert list_inv_bulk_delete, auto simp: list_inv_def split: option.splits)

lemma list_inv_init: "table_ok table \<Longrightarrow> list_inv env (init_db table, [])"
  by (cases table rule: rev_cases)
     (auto simp: list_inv_def init_db_def db_ok_def table_ok_def sorted_wrt_append list_all_iff)

lemma list_inv_reachable:
  assumes "\<And>b. env_reread env b = Some b \<or> env_reread env b = None" "list_reachable env st"
  shows "list_inv env st"
proof -
  obtain table where t: "table_ok table" and run: "(list_step env)\<^sup>*\<^sup>* (init_db table, []) st"
    using assms(2) by (auto simp: list_reachable_def)
  show ?thesis
    using run by (induction rule: rtranclp_induct) (auto intro: list_inv_init t list_inv_step [OF assms(1)])
qed

subsection \<open>One session\<close>

lemma session_at_start:
  assumes ok: "table_ok (db_table db)" and g: "group_sessions (charging_rows (db_table db)) = ss @ x # us"
    and short: "ts (last x) \<le> ts (hd x) + session_window"
  shows "session_at db (ts (hd x)) = Some x"
proof -
  let ?to = "ts (hd x) + session_window"
  have x: "x \<noteq> []" using group_nonempty [of x "charging_rows (db_table db)"] g by simp
  have rows: "charging_rows (db_table db) = concat ss @ x @ concat us"
    using group_rows [of "charging_rows (db_table db)"] g by (metis concat.simps(2) concat_append)
  have sorted: "sorted_wrt (\<lambda>a b. ts a < ts b) (concat ss @ x @ concat us)"
    using charging_rows_sorted [OF ok] by (simp add: rows)
  have "load_charge_rows (db_table db) (ts (hd x)) (Some ?to) = filter (\<lambda>r. ts r \<le> ?to) (filter (\<lambda>r. ts (hd x) \<le> ts r) (concat ss @ x @ concat us))"
    by (simp add: load_window rows conj_commute)
  also have "\<dots> = filter (\<lambda>r. ts r \<le> ?to) (x @ concat us)"
    using filter_cut [of "concat ss" "x @ concat us"] sorted x by simp
  also have "\<dots> = x @ filter (\<lambda>r. ts r \<le> ?to) (concat us)"
  proof -
    have "ts r \<le> ts (last x)" if "r \<in> set x" for r
      using that sorted by (cases x rule: rev_cases) (auto simp: sorted_wrt_append)
    then show ?thesis using short by (auto simp: filter_id_conv intro: order_trans)
  qed
  finally have load: "load_charge_rows (db_table db) (ts (hd x)) (Some ?to) = x @ filter (\<lambda>r. ts r \<le> ?to) (concat us)" .
  have one: "group_sessions x = [x]"
    using group_suffix [of _ ss "x # us"] group_prefix [of "concat (x # us)" "[x]" us] g by simp
  show ?thesis
  proof (cases "filter (\<lambda>r. ts r \<le> ?to) (concat us) = []")
    case True
    then show ?thesis by (simp add: session_at_def load one)
  next
    case False
    then have "concat us \<noteq> []" by (metis filter.simps(1))
    then have ne: "us \<noteq> []" "concat us \<noteq> []" by auto
    then have "far (last x) (hd (concat us))"
      using far_between [of _ "ss @ [x]" us] g x by auto
    moreover note ne(2)
    moreover have "hd (filter (\<lambda>r. ts r \<le> ?to) (concat us)) \<in> set (concat us)"
      using hd_in_set [OF False] by (simp only: set_filter) blast
    ultimately have "far (last x) (hd (filter (\<lambda>r. ts r \<le> ?to) (concat us)))"
      using sorted by (cases "concat us") (auto simp: far_def sorted_wrt_append)
    then show ?thesis
      using group_append_far [OF x False] by (simp add: session_at_def load one)
  qed
qed

lemma charging_rows_without:
  assumes "charging_rows table = as @ x @ bs" "sorted_wrt (\<lambda>a b. ts a < ts b) (as @ x @ bs)" "x \<noteq> []"
  shows "charging_rows (filter (\<lambda>r. \<not> (ts (hd x) \<le> ts r \<and> ts r \<le> ts (last x) \<and> charge_signal r)) table) = as @ bs"
proof -
  let ?Q = "\<lambda>r. \<not> (ts (hd x) \<le> ts r \<and> ts r \<le> ts (last x))"
  have "charging_rows (filter (\<lambda>r. \<not> (ts (hd x) \<le> ts r \<and> ts r \<le> ts (last x) \<and> charge_signal r)) table) =
      filter ?Q (charging_rows table)"
    by (auto simp: charging_rows_def intro!: filter_cong)
  also have "\<dots> = as @ bs"
  proof -
    have "?Q r" if "r \<in> set as \<or> r \<in> set bs" for r
    proof -
      have "ts r < ts (hd x) \<or> ts (last x) < ts r"
        using that assms(2) hd_in_set [OF assms(3)] last_in_set [OF assms(3)] by (auto simp: sorted_wrt_append)
      then show ?thesis by auto
    qed
    moreover have "\<not> ?Q r" if "r \<in> set x" for r
    proof -
      have "ts (hd x) \<le> ts r" using that assms(2) by (cases x) (auto simp: sorted_wrt_append intro: less_imp_le)
      moreover have "ts r \<le> ts (last x)" using that assms(2) by (cases x rule: rev_cases) (auto simp: sorted_wrt_append intro: less_imp_le)
      ultimately show ?thesis by blast
    qed
    ultimately show ?thesis by (auto simp: assms(1) filter_id_conv filter_empty_conv)
  qed
  finally show ?thesis .
qed

lemma sessions_without:
  assumes "group_sessions rows = ss @ x # us" "sorted_wrt (\<lambda>a b. ts a < ts b) rows"
  shows "group_sessions (concat ss @ concat us) = ss @ us"
proof (cases "ss = [] \<or> us = []")
  case True
  then show ?thesis
    using group_suffix [of rows "[x]" us] group_prefix [of rows ss "[x]"] assms(1) by auto
next
  case False
  have rows: "rows = concat ss @ x @ concat us"
    using group_rows [of rows] assms(1) by (metis concat.simps(2) concat_append)
  have x: "x \<noteq> []" using group_nonempty [of x rows] assms(1) by simp
  have ne: "concat ss \<noteq> []" "concat us \<noteq> []"
    using False group_nonempty [of _ rows] assms(1) by (auto simp: neq_Nil_conv)
  have "far (last (concat ss)) (hd (concat (x # us)))"
    using far_between [OF assms(1)] False by simp
  moreover have "ts (hd x) < ts (hd (concat us))"
    using assms(2) hd_in_set [OF x] hd_in_set [OF ne(2)] by (simp add: rows sorted_wrt_append del: set_concat)
  ultimately have "far (last (concat ss)) (hd (concat us))"
    using x by (simp add: far_def)
  then show ?thesis
    using group_append_far [OF ne] group_prefix [of rows ss "x # us"] group_suffix [of rows "ss @ [x]" us] assms(1) by simp
qed

subsection \<open>Prices depend on the set of plans\<close>

lemma max_cost_fold: "foldl max_cost acc cs = (if cs = [] then acc else Some (case acc of None \<Rightarrow> Max (set cs) | Some a \<Rightarrow> max a (Max (set cs))))"
proof (induction cs arbitrary: acc)
  case (Cons c cs)
  then show ?case by (cases acc; cases "cs = []") (auto simp: max_cost_def max.assoc)
qed simp

definition plans :: "ustr set \<Rightarrow> (ustr \<times> tag_rate) list \<Rightarrow> tag_rate set" where
  "plans keys m = {p. is_configured p \<and> (\<exists>k\<in>keys. map_of m k = Some p)}"

lemma set_filter_map: "set (filter_map f xs) = {y. \<exists>x\<in>set xs. f x = Some y}"
  by (auto simp: filter_map_def List.map_filter_def image_iff) force

lemma best_tag_cost_plans:
  "plans (set keys) (tag_rates r) = plans (set keys') (tag_rates r') \<Longrightarrow> default_rate r = default_rate r' \<Longrightarrow>
   best_tag_cost clock rows keys r = best_tag_cost clock rows keys' r'"
proof -
  assume eq: "plans (set keys) (tag_rates r) = plans (set keys') (tag_rates r')" "default_rate r = default_rate r'"
  let ?c = "\<lambda>keys r. filter_map (\<lambda>p. plan_cost clock rows p (default_rate r)) (filter is_configured (filter_map (map_of (tag_rates r)) keys))"
  have A: "set (?c keys r) = {y. \<exists>p\<in>plans (set keys) (tag_rates r). plan_cost clock rows p (default_rate r) = Some y}" for keys r
    by (auto simp: set_filter_map plans_def)
  have "set (?c keys r) = set (?c keys' r')" by (subst A, subst A) (simp add: eq)
  then have "(?c keys r = []) = (?c keys' r' = [])" "Max (set (?c keys r)) = Max (set (?c keys' r'))"
    by (metis set_empty, simp)
  then show ?thesis by (simp only: best_tag_cost_def max_cost_fold option.case)
qed

subsection \<open>Freezing\<close>

lemma map_of_parse: "map_of (map (\<lambda>(k, v). (k, parse_tag_rate v)) m) k = map_option parse_tag_rate (map_of m k)"
  by (induction m) auto

lemma load_rates_tags:
  "map_of (tag_rates (load_rates prefs)) k = map_option parse_tag_rate (Option.bind (pref_rates prefs) (\<lambda>m. map_of m k))"
  by (simp add: load_rates_def map_of_parse split: option.splits)

text \<open>The plans of the spellings of home are one plan.\<close>

lemma windows2_all: "\<not> list_ex (\<lambda>(a, b). f a \<noteq> f b) (windows2 xs) \<Longrightarrow> v \<in> set xs \<Longrightarrow> w \<in> set xs \<Longrightarrow> f v = f w"
proof (induction xs arbitrary: v w)
  case (Cons x xs)
  show ?case
  proof (cases xs)
    case Nil
    then show ?thesis using Cons.prems by simp
  next
    case (Cons y ys)
    have xy: "f x = f y" and rest: "\<not> list_ex (\<lambda>(a, b). f a \<noteq> f b) (windows2 xs)"
      using Cons.prems(1) Cons by (simp_all add: windows2_def)
    have all: "f y = f u" if "u \<in> set xs" for u
      using Cons.IH [OF rest _ that] Cons by simp
    show ?thesis using Cons.prems(2,3) xy all [of v] all [of w] by auto
  qed
qed simp

definition home_plans :: "(ustr \<times> json) list \<Rightarrow> tag_rate set" where
  "home_plans m = {parse_tag_rate v | k v. (k, v) \<in> set m \<and> eq_ignore_ascii_case k home_tag \<and> is_configured (parse_tag_rate v)}"

definition tag_plan :: "(ustr \<times> json) list \<Rightarrow> ustr \<Rightarrow> tag_rate set" where
  "tag_plan m k = (case map_of m k of Some v \<Rightarrow> if is_configured (parse_tag_rate v) then {parse_tag_rate v} else {} | None \<Rightarrow> {})"

lemma plan_cases:
  assumes rates: "pref_rates prefs = Some m" and res: "home_rate_copy_plan prefs tag = res" "res \<noteq> CopyConflict"
  shows "case res of CopyRate h \<Rightarrow> home_plans m = {parse_tag_rate h} \<and> tag_plan m tag = {} \<and> is_configured (parse_tag_rate h)
         | _ \<Rightarrow> home_plans m = tag_plan m tag"
proof -
  define hk where "hk = map snd (filter (\<lambda>(k, v). eq_ignore_ascii_case k home_tag \<and> is_configured (parse_tag_rate v)) m)"
  define priced where "priced = (\<lambda>k. case map_of m k of Some v \<Rightarrow> if is_configured (parse_tag_rate v) then Some v else None | None \<Rightarrow> None)"
  define src where "src = or_else (priced home_tag) (case hk of v # _ \<Rightarrow> Some v | [] \<Rightarrow> None)"
  have hp: "home_plans m = parse_tag_rate ` set hk"
    by (force simp: home_plans_def hk_def image_iff)
  have tp: "tag_plan m tag = (case priced tag of Some v \<Rightarrow> {parse_tag_rate v} | None \<Rightarrow> {})"
    by (simp add: tag_plan_def priced_def split: option.splits)
  have home_in: "v \<in> set hk" if "priced home_tag = Some v" for v
  proof -
    have "map_of m home_tag = Some v" "is_configured (parse_tag_rate v)"
      using that by (auto simp: priced_def split: option.splits if_splits)
    then show ?thesis
      using map_of_SomeD [of m home_tag v] by (force simp: hk_def eq_ignore_ascii_case_def)
  qed
  define clash where "clash \<longleftrightarrow> length hk > 1 \<and> list_ex (\<lambda>(a, b). parse_tag_rate a \<noteq> parse_tag_rate b) (windows2 hk)"
  define choice where "choice = (case (src, priced tag) of (None, Some _) \<Rightarrow> CopyConflict | (None, None) \<Rightarrow> CopyNothing
      | (Some home, None) \<Rightarrow> CopyRate home
      | (Some home, Some d) \<Rightarrow> if parse_tag_rate home = parse_tag_rate d then CopyNothing else CopyConflict)"
  have eq: "home_rate_copy_plan prefs tag = (if clash then CopyConflict else choice)"
    unfolding home_rate_copy_plan_def rates option.case Let_def clash_def choice_def src_def priced_def hk_def by (rule refl)
  then have unfold: "\<not> clash" "res = choice"
    using res by (auto split: if_splits)
  have same: "parse_tag_rate v = parse_tag_rate w" if "v \<in> set hk" "w \<in> set hk" for v w
  proof (cases "length hk > 1")
    case True
    then have "\<not> list_ex (\<lambda>(a, b). parse_tag_rate a \<noteq> parse_tag_rate b) (windows2 hk)"
      using unfold(1) by (simp add: clash_def)
    from windows2_all [OF this that] show ?thesis .
  next
    case False
    then show ?thesis using that by (cases hk) auto
  qed
  have src_None: "src = None \<Longrightarrow> hk = []"
    by (auto simp: src_def or_else_def split: option.splits list.splits)
  have src_Some: "src = Some h \<Longrightarrow> h \<in> set hk" for h
    using home_in by (auto simp: src_def or_else_def split: option.splits list.splits)
  have conf: "v \<in> set hk \<Longrightarrow> is_configured (parse_tag_rate v)" for v
    by (auto simp: hk_def)
  have one: "home_plans m = {parse_tag_rate h}" if "src = Some h" for h
  proof -
    have "parse_tag_rate v = parse_tag_rate h" if "v \<in> set hk" for v
      by (rule same [OF that src_Some [OF \<open>src = Some h\<close>]])
    then have "parse_tag_rate ` set hk \<subseteq> {parse_tag_rate h}" by blast
    moreover have "parse_tag_rate h \<in> parse_tag_rate ` set hk" by (rule imageI [OF src_Some [OF that]])
    ultimately show ?thesis unfolding hp by blast
  qed
  show ?thesis
  proof (cases src)
    case None
    then show ?thesis using unfold(2) res(2) src_None by (cases "priced tag") (simp_all add: hp tp choice_def)
  next
    case (Some h)
    then show ?thesis
      using unfold(2) res(2) one [OF Some] conf [OF src_Some [OF Some]] by (cases "priced tag") (auto simp: tp choice_def split: if_splits)
  qed
qed

lemma plans_load_rates:
  "plans K (tag_rates (load_rates prefs)) = (case pref_rates prefs of None \<Rightarrow> {} | Some m \<Rightarrow> \<Union>k\<in>K. tag_plan m k)"
proof (cases "pref_rates prefs")
  case None
  then show ?thesis by (simp add: plans_def load_rates_tags)
next
  case (Some m)
  then have "p \<in> tag_plan m k \<longleftrightarrow> is_configured p \<and> map_of (tag_rates (load_rates prefs)) k = Some p" for p k
    by (auto simp: load_rates_tags tag_plan_def split: option.splits)
  then show ?thesis using Some by (auto simp: plans_def)
qed

lemma plans_home:
  assumes "pref_rates prefs = Some m" "distinct (map fst m)"
  shows "plans (set (rate_keys names True (load_rates prefs))) (tag_rates (load_rates prefs)) = (\<Union>k\<in>set names. tag_plan m k) \<union> home_plans m"
proof -
  have keys: "map fst (tag_rates (load_rates prefs)) = map fst m"
    using assms(1) by (simp add: load_rates_def comp_def case_prod_beta)
  have "home_plans m = (\<Union>k\<in>{k \<in> fst ` set m. eq_ignore_ascii_case k home_tag}. tag_plan m k)"
    using assms(2) by (force simp: home_plans_def tag_plan_def split: option.splits if_splits)
  then show ?thesis
    by (auto simp: plans_load_rates assms(1) rate_keys_def keys simp del: map_map)
qed

subsection \<open>An example\<close>

definition a_row :: "int \<Rightarrow> charge_row" where
  "a_row t = \<lparr>ts = t, power_kw = Some 7, current_a = Some 30, voltage_v = Some 240, rate_mph = None, energy_added_kwh = None,
     limit_soc = Some 80, range_mi = None, battery_pct = None, location = None, lat = None, lon = None,
     charging_state = Some (lit ''charging'')\<rparr>"

definition an_env :: charge_env where
  "an_env = \<lparr>env_clock = (\<lambda>_ _. Some (0, 0, 1)), env_home = (\<lambda>_ _ _. False), env_reread = Some\<rparr>"

definition a_context :: charge_context where
  "a_context = \<lparr>cx_rates = \<lparr>rc_currency = lit ''$'', default_rate = Some (1 / 4), tag_rates = []\<rparr>, cx_home = None, cx_tags = [],
     cx_costs = [], cx_timezone = lit ''UTC''\<rparr>"

text \<open>One sample, a list built and saved, and a second sample two hours later.\<close>

definition one_sample :: charge_db where
  "one_sample = insert_sample (a_row 1000) (init_db [])"

definition its_projection :: projection where
  "its_projection = the (snd (build_charging_list an_env a_context one_sample))"

definition two_samples :: charge_db where
  "two_samples = insert_sample (a_row 8200) (save_projection its_projection one_sample)"

lemma one_sample_reachable: "list_reachable an_env (one_sample, [])"
proof -
  have "table_ok []" by (simp add: table_ok_def)
  moreover have "list_step an_env (init_db [], []) (one_sample, [])"
    unfolding one_sample_def by (rule inserted) (simp_all add: a_row_def)
  ultimately show ?thesis unfolding list_reachable_def by blast
qed

lemma list_reachable_step: "list_reachable env st \<Longrightarrow> list_step env st st' \<Longrightarrow> list_reachable env st'"
  by (auto simp: list_reachable_def intro: rtranclp.rtrancl_into_rtrancl)

lemma two_samples_reachable: "list_reachable an_env (two_samples, [its_projection])"
proof -
  have "stored_list an_env a_context one_sample = None"
    by (simp add: stored_list_def one_sample_def init_db_def)
  then have "snd (build_charging_list an_env a_context one_sample) \<noteq> None"
    by (simp add: build_charging_list_def Let_def split: prod.splits)
  then have "build_charging_list an_env a_context one_sample = (fst (build_charging_list an_env a_context one_sample), Some its_projection)"
    by (simp add: its_projection_def prod_eq_iff)
  then have "list_step an_env (one_sample, []) (one_sample, [its_projection])" by (rule built)
  moreover have "list_step an_env (one_sample, [its_projection]) (save_projection its_projection one_sample, [its_projection])"
    by (rule saved) simp
  moreover have "list_step an_env (save_projection its_projection one_sample, [its_projection]) (two_samples, [its_projection])"
    unfolding two_samples_def by (rule inserted) (simp_all add: a_row_def)
  ultimately show ?thesis using one_sample_reachable list_reachable_step by blast
qed

section \<open>Properties\<close>



text \<open>
  The detail view of a session shows the samples that the list was made of, and deleting it removes that
  session and leaves every other session as it was. (A session of more than a week is cut at a week.)
\<close>

theorem session_detail_and_delete:
  assumes "list_reachable env (db, ps)" "\<And>b. env_reread env b = Some b \<or> env_reread env b = None"
    and "group_sessions (charging_rows (db_table db)) = ss @ x # us" "ts (last x) \<le> ts (hd x) + session_window"
  shows "single_charging env ctx db (ts (hd x)) = Some (session_detail env ctx x) \<and>
    group_sessions (charging_rows (db_table (delete_charge (ts (hd x)) db))) = ss @ us \<and>
    ts (hd x) \<in> set (db_outbox (delete_charge (ts (hd x)) db))"
proof -
  have ok: "table_ok (db_table db)"
    using list_inv_reachable [OF assms(2,1)] by (simp add: list_inv_def db_ok_def)
  note x = session_at_start [OF ok assms(3,4)]
  have ne: "x \<noteq> []" using group_nonempty [of x "charging_rows (db_table db)"] assms(3) by simp
  have rows: "charging_rows (db_table db) = concat ss @ x @ concat us"
    using group_rows [of "charging_rows (db_table db)"] assms(3) by (metis concat.simps(2) concat_append)
  note sorted = charging_rows_sorted [OF ok]
  have "charging_rows (db_table (delete_charge (ts (hd x)) db)) = concat ss @ concat us"
    using charging_rows_without [OF rows _ ne] sorted
    by (simp add: delete_charge_def x Let_def delete_samples_def on_delete_def rows)
  then show ?thesis
    using x sessions_without [OF assms(3) sorted] by (simp add: single_charging_def delete_charge_def Let_def)
qed

theorem session_detail_and_delete_witness:
  "single_charging an_env a_context one_sample 1000 = Some (session_detail an_env a_context [a_row 1000]) \<and>
   group_sessions (charging_rows (db_table (delete_charge 1000 one_sample))) = []"
proof -
  have g: "group_sessions (charging_rows (db_table one_sample)) = [] @ [a_row 1000] # []"
    by (simp add: one_sample_def insert_sample_def init_db_def on_insert_def charging_rows_def charge_signal_def row_charging_def
        is_actively_charging_def phase_is_active_def a_row_def)
  have r: "ts (last [a_row 1000]) \<le> ts (hd [a_row 1000]) + session_window" "ts (hd [a_row 1000]) = 1000"
    by (simp_all add: a_row_def session_window_def)
  from session_detail_and_delete [OF one_sample_reachable _ g r(1), of a_context] r(2)
  show ?thesis by (simp add: an_env_def)
qed

text \<open>
  Freezing keeps prices: when the copy of the home rate to a label succeeds, a session that was priced as
  a home charge costs the same once it carries the label and is no longer at home.
\<close>

theorem freeze_preserves_cost:
  assumes "copy_home_rate_to tag in_use prefs = Inr (prefs', dirty)"
    and "\<And>m. pref_rates prefs = Some m \<Longrightarrow> distinct (map fst m)" "set names' = insert tag (set names)"
  shows "cost (apply_rates clock rows names' False (load_rates prefs') s) = cost (apply_rates clock rows names True (load_rates prefs) s)"
proof -
  have key: "lit ''charging_currency'' \<noteq> lit ''charging_tag_rates''" "lit ''charging_default_rate'' \<noteq> lit ''charging_tag_rates''"
    by simp_all
  have "plans (set (rate_keys names' False (load_rates prefs'))) (tag_rates (load_rates prefs')) =
        plans (set (rate_keys names True (load_rates prefs))) (tag_rates (load_rates prefs)) \<and>
        default_rate (load_rates prefs') = default_rate (load_rates prefs)"
  proof (cases "pref_rates prefs")
    case None
    then have "prefs' = prefs"
      using assms(1) by (simp add: copy_home_rate_to_def home_rate_copy_plan_def)
    then show ?thesis using None by (simp add: plans_load_rates)
  next
    case (Some m)
    have home: "plans (set (rate_keys names True (load_rates prefs))) (tag_rates (load_rates prefs)) = (\<Union>k\<in>set names. tag_plan m k) \<union> home_plans m"
      using plans_home Some assms(2) by blast
    show ?thesis
    proof (cases "home_rate_copy_plan prefs tag")
      case CopyNothing
      then have "prefs' = prefs" "home_plans m = tag_plan m tag"
        using assms(1) plan_cases [OF Some CopyNothing] by (simp_all add: copy_home_rate_to_def)
      then show ?thesis using home Some assms(3) by (auto simp: plans_load_rates rate_keys_def)
    next
      case CopyConflict
      then show ?thesis using assms(1) by (simp add: copy_home_rate_to_def)
    next
      case (CopyRate h)
      then have p: "prefs' = assoc_insert (lit ''charging_tag_rates'') (JObj (assoc_insert tag h m)) prefs"
        using assms(1) Some by (simp add: copy_home_rate_to_def split: if_splits)
      have h: "home_plans m = {parse_tag_rate h}" "tag_plan m tag = {}" "is_configured (parse_tag_rate h)"
        using plan_cases [OF Some CopyRate] by simp_all
      have new: "pref_rates prefs' = Some (assoc_insert tag h m)"
        by (simp add: p pref_rates_def)
      have tp: "tag_plan (assoc_insert tag h m) k = (if k = tag then {parse_tag_rate h} else tag_plan m k)" for k
        using h(3) by (simp add: tag_plan_def)
      have "(\<Union>k\<in>set names'. tag_plan (assoc_insert tag h m) k) = (\<Union>k\<in>set names. tag_plan m k) \<union> home_plans m"
        using h(2) by (auto simp: tp h(1) assms(3) split: if_splits)
      moreover have "default_rate (load_rates prefs') = default_rate (load_rates prefs)"
        using key by (simp add: load_rates_def p del: lit_Cons)
      ultimately show ?thesis using home new by (simp add: plans_load_rates rate_keys_def)
    qed
  qed
  then have "best_tag_cost clock rows (rate_keys names' False (load_rates prefs')) (load_rates prefs') =
      best_tag_cost clock rows (rate_keys names True (load_rates prefs)) (load_rates prefs)"
      "default_rate (load_rates prefs') = default_rate (load_rates prefs)"
    using best_tag_cost_plans by blast+
  then show ?thesis
    by (simp add: apply_rates_def split: option.splits)
qed

theorem freeze_preserves_cost_witness:
  "cost (apply_rates (\<lambda>_. Some (0, 0, 1)) [a_row 0, a_row 3600] [lit ''Cabin''] False
      (load_rates [(lit ''charging_tag_rates'', JObj [(lit ''Cabin'', JFloat (1 / 4)), (lit ''home'', JFloat (1 / 4))])]) (summarize [a_row 0])) =
   cost (apply_rates (\<lambda>_. Some (0, 0, 1)) [a_row 0, a_row 3600] [] True
      (load_rates [(lit ''charging_tag_rates'', JObj [(lit ''home'', JFloat (1 / 4))])]) (summarize [a_row 0]))"
proof -
  let ?prefs = "[(lit ''charging_tag_rates'', JObj [(lit ''home'', JFloat (1 / 4))])]"
  have c: "copy_home_rate_to (lit ''Cabin'') False ?prefs =
      Inr ([(lit ''charging_tag_rates'', JObj [(lit ''Cabin'', JFloat (1 / 4)), (lit ''home'', JFloat (1 / 4))])], True)"
    by code_simp
  have d: "distinct (map fst m)" if "pref_rates ?prefs = Some m" for m
    using that by (auto simp: pref_rates_def)
  have n: "set [lit ''Cabin''] = insert (lit ''Cabin'') (set [])"
    by (simp only: list.set)
  show ?thesis
    by (rule freeze_preserves_cost [OF c d n])
qed

text \<open>
  A command reaches the car only from a healthy connection; a charging current lies between one ampere and
  the maximum the car reported, which is at most eighty, a limit between fifty and a hundred percent, and
  every command but the limit needs a sample of the last two minutes with an open port or an active charge.
\<close>

theorem charging_commands_safe:
  assumes "charging_action action v latest wake_ok green now = Inr verb"
  shows "(action = lit ''setLimit'' \<and> wake_ok \<and> (\<exists>n. v = Some n \<and> 50 \<le> n \<and> n \<le> 100 \<and> verb = lit ''set-charge-limit:'' @ show_int n)) \<or>
    (green \<and> (\<exists>l. latest = Some l \<and> now - ts (l_row l) \<in> {0..120} \<and>
       (charge_port_door_open l = Some True \<or> row_charging (l_row l)) \<and>
       (verb = lit ''charge-start'' \<or> verb = lit ''charge-stop'' \<or>
        (\<exists>n m. v = Some n \<and> charge_current_request_max l = Some m \<and> 1 \<le> n \<and> n \<le> m \<and> m \<le> 80 \<and>
           verb = lit ''set-charging-amps:'' @ show_int n))))"
proof (cases "action = lit ''setLimit''")
  case True
  then have "wake_ok" "charging_action_verb action v (Option.bind latest charge_current_request_max) = Inr verb"
    using assms by (auto simp: charging_action_def Let_def charging_action_gate_def split: if_splits)
  then show ?thesis using True by (auto simp: charging_action_verb_def split: option.splits if_splits)
next
  case False
  then obtain l where l: "latest = Some l" "green" "controls_available now l"
      "charging_action_verb action v (charge_current_request_max l) = Inr verb"
    using assms by (auto simp: charging_action_def Let_def charging_action_gate_def simp del: lit_Cons split: if_splits option.splits)
  have "now - ts (l_row l) \<in> {0..120}" "charge_port_door_open l = Some True \<or> row_charging (l_row l)"
    using l(3) by (auto simp: controls_available_def controls_fresh_def charging_control_fresh_secs_def Let_def row_charging_def
        is_actively_charging_def phase_is_active_def simp del: lit_Cons split: option.splits)
  then show ?thesis
    using l False by (auto simp: charging_action_verb_def simp del: lit_Cons split: option.splits if_splits)
qed

theorem charging_commands_safe_witness:
  "charging_action (lit ''setLimit'') (Some 80) None True False 0 = Inr (lit ''set-charge-limit:80'') \<and>
   (\<exists>n. Some 80 = Some n \<and> 50 \<le> n \<and> n \<le> (100 :: int) \<and> lit ''set-charge-limit:80'' = lit ''set-charge-limit:'' @ show_int n)"
proof -
  have "charging_action (lit ''setLimit'') (Some 80) None True False 0 = Inr (lit ''set-charge-limit:80'')"
    by code_simp
  with charging_commands_safe [OF this] show ?thesis by (simp del: lit_Cons)
qed

end
