(* ===== verification/ScopedTags.thy ===== *)
theory ScopedTags
  imports Json
begin

section \<open>Tags of parts of a recording\<close>

text \<open>
  \<^verbatim>\<open>crates/drives/src/scoped_tags.rs\<close>: two drives can share one recording, so a document of tags gives a set of
  tags to every frame: spans of frames with tags of their own over default tags. Frames are the \<^verbatim>\<open>u32\<close>
  of the code as natural numbers. \<open>frame_tags\<close> is what a document means; reading ranges and applying an
  edit are proved against it.
\<close>

datatype scoped_error =
    InvalidTagList | TooManyTags | InvalidTag | InvalidTagLength
  | InvalidFrame | FrameOutOfRange | InvalidRange | EmptySource | SourceMismatch
  | MissingSpans | TooManySpans | InvalidSpan | UnsupportedSpanField | OverlappingSpans
  | InvalidSelection | ContradictoryEdit

text \<open>\<^verbatim>\<open>encode_utf16().count()\<close>.\<close>

definition utf16_len :: "ustr \<Rightarrow> nat" where
  "utf16_len s = sum_list (map (\<lambda>c. if c < 65536 then 1 else 2) s)"

definition scoped_tag :: "json \<Rightarrow> scoped_error + ustr" where
  "scoped_tag item =
     bindR (ok_or InvalidTag (as_str item)) (\<lambda>tag.
     bindR (ensure InvalidTagLength (tag \<noteq> [] \<and> utf16_len tag \<le> 64)) (\<lambda>_. Inr tag))"

definition scoped_tags :: "json \<Rightarrow> scoped_error + ustr list" where
  "scoped_tags v =
     bindR (ok_or InvalidTagList (as_array v)) (\<lambda>items.
     bindR (ensure TooManyTags (length items \<le> 128)) (\<lambda>_.
     bindR (mapR scoped_tag items) (\<lambda>tags. Inr (btree_set tags))))"

definition frame_no :: "json \<Rightarrow> scoped_error + nat" where
  "frame_no v =
     bindR (ok_or InvalidFrame (as_u64 v)) (\<lambda>n.
     bindR (ensure FrameOutOfRange (n < 2 ^ 32)) (\<lambda>_. Inr n))"

definition frame_range :: "nat \<Rightarrow> nat \<Rightarrow> nat \<Rightarrow> scoped_error + unit" where
  "frame_range start stop tot = ensure InvalidRange (start < stop \<and> stop \<le> tot)"

record tag_span =
  span_start :: nat
  span_end :: nat
  span_tags :: "ustr list"

record tag_document =
  original :: json
  doc_total :: nat
  default_tags :: "ustr list"
  doc_spans :: "tag_span list"

definition span_fields :: "ustr list" where
  "span_fields = [lit ''startFrame'', lit ''endFrame'', lit ''tags'']"

fun parse_spans :: "nat \<Rightarrow> nat \<Rightarrow> json list \<Rightarrow> scoped_error + tag_span list" where
  "parse_spans tot prior_end [] = Inr []"
| "parse_spans tot prior_end (item # raw) =
     bindR (ok_or InvalidSpan (as_object item)) (\<lambda>object.
     bindR (ensure UnsupportedSpanField (list_all (\<lambda>(k, _). k \<in> set span_fields) object)) (\<lambda>_.
     bindR (frame_no (jget item (lit ''startFrame''))) (\<lambda>start.
     bindR (frame_no (jget item (lit ''endFrame''))) (\<lambda>stop.
     bindR (frame_range start stop tot) (\<lambda>_.
     bindR (ensure OverlappingSpans (start \<ge> prior_end)) (\<lambda>_.
     bindR (scoped_tags (jget item (lit ''tags''))) (\<lambda>tags.
     bindR (parse_spans tot stop raw) (\<lambda>spans.
       Inr (\<lparr>span_start = start, span_end = stop, span_tags = tags\<rparr> # spans)))))))))"

definition json_tags :: "ustr list \<Rightarrow> json" where
  "json_tags tags = JArr (map JStr tags)"

definition parse_document :: "json \<Rightarrow> nat \<Rightarrow> scoped_error + tag_document" where
  "parse_document v tot =
     bindR (ensure EmptySource (tot > 0)) (\<lambda>_.
     if is_array v
     then bindR (scoped_tags v) (\<lambda>dflt.
       Inr \<lparr>original = JObj [(lit ''version'', JInt 2), (lit ''totalFrames'', JInt (int tot)),
                             (lit ''defaultTags'', json_tags dflt), (lit ''spans'', JArr [])],
            doc_total = tot, default_tags = dflt, doc_spans = []\<rparr>)
     else
       bindR (ensure SourceMismatch (is_object v \<and> as_i64 (jget v (lit ''version'')) = Some 2)) (\<lambda>_.
       bindR (frame_no (jget v (lit ''totalFrames''))) (\<lambda>n.
       bindR (ensure SourceMismatch (n = tot)) (\<lambda>_.
       bindR (scoped_tags (jget v (lit ''defaultTags''))) (\<lambda>dflt.
       bindR (ok_or MissingSpans (as_array (jget v (lit ''spans'')))) (\<lambda>raw.
       bindR (ensure TooManySpans (length raw \<le> 256)) (\<lambda>_.
       bindR (parse_spans tot 0 raw) (\<lambda>spans.
         Inr \<lparr>original = v, doc_total = tot, default_tags = dflt, doc_spans = spans\<rparr>))))))))"

definition covers_frame :: "tag_span \<Rightarrow> nat \<Rightarrow> bool" where
  "covers_frame s f \<longleftrightarrow> span_start s \<le> f \<and> f < span_end s"

definition tags_at_frame :: "tag_span list \<Rightarrow> ustr list \<Rightarrow> nat \<Rightarrow> ustr list" where
  "tags_at_frame spans dflt f = (case find (\<lambda>s. covers_frame s f) spans of Some s \<Rightarrow> span_tags s | None \<Rightarrow> dflt)"

definition doc_at :: "tag_document \<Rightarrow> nat \<Rightarrow> ustr list" where
  "doc_at doc f = tags_at_frame (doc_spans doc) (default_tags doc) f"

definition cuts :: "tag_document \<Rightarrow> (nat \<times> nat) list \<Rightarrow> scoped_error + nat list" where
  "cuts doc ranges =
     bindR (ensure InvalidSelection (ranges \<noteq> [] \<and> length ranges \<le> 256)) (\<lambda>_.
     bindR (mapR (\<lambda>(a, b). frame_range a b (doc_total doc)) ranges) (\<lambda>_.
       Inr (btree_set ([0, doc_total doc] @ concat (map (\<lambda>s. [span_start s, span_end s]) (doc_spans doc))
                        @ concat (map (\<lambda>(a, b). [a, b]) ranges)))))"

definition in_ranges :: "(nat \<times> nat) list \<Rightarrow> nat \<Rightarrow> bool" where
  "in_ranges ranges f \<longleftrightarrow> list_ex (\<lambda>(a, b). a \<le> f \<and> f < b) ranges"

definition tags_for_ranges :: "json \<Rightarrow> nat \<Rightarrow> (nat \<times> nat) list \<Rightarrow> scoped_error + ustr list" where
  "tags_for_ranges v tot ranges =
     bindR (parse_document v tot) (\<lambda>doc.
     bindR (cuts doc ranges) (\<lambda>cs.
       Inr (btree_set (concat (map (\<lambda>(start, _). if in_ranges ranges start then doc_at doc start else []) (windows2 cs))))))"

definition edited_tags :: "ustr list \<Rightarrow> ustr list \<Rightarrow> ustr list \<Rightarrow> ustr list" where
  "edited_tags added removed current = btree_set (filter (\<lambda>t. t \<notin> set removed) current @ added)"

definition push_span :: "ustr list \<Rightarrow> tag_span list \<Rightarrow> nat \<Rightarrow> nat \<Rightarrow> ustr list \<Rightarrow> tag_span list" where
  "push_span dflt spans start stop next =
     (if next = dflt then spans
      else if spans \<noteq> [] \<and> span_end (last spans) = start \<and> span_tags (last spans) = next
      then butlast spans @ [(last spans)\<lparr>span_end := stop\<rparr>]
      else spans @ [\<lparr>span_start = start, span_end = stop, span_tags = next\<rparr>])"

definition edit_window ::
  "tag_document \<Rightarrow> (nat \<times> nat) list \<Rightarrow> ustr list \<Rightarrow> ustr list \<Rightarrow> tag_span list \<Rightarrow> nat \<times> nat \<Rightarrow> tag_span list" where
  "edit_window doc ranges added removed spans w =
     (let current = doc_at doc (fst w);
          next = (if in_ranges ranges (fst w) then edited_tags added removed current else current)
      in push_span (default_tags doc) spans (fst w) (snd w) next)"

definition span_json :: "tag_span \<Rightarrow> json" where
  "span_json s = JObj [(lit ''startFrame'', JInt (int (span_start s))), (lit ''endFrame'', JInt (int (span_end s))),
                       (lit ''tags'', json_tags (span_tags s))]"

definition apply_delta :: "json \<Rightarrow> nat \<Rightarrow> (nat \<times> nat) list \<Rightarrow> ustr list \<Rightarrow> ustr list \<Rightarrow> scoped_error + json" where
  "apply_delta v tot ranges added0 removed0 =
     bindR (parse_document v tot) (\<lambda>doc.
     bindR (cuts doc ranges) (\<lambda>cs.
     bindR (scoped_tags (json_tags added0)) (\<lambda>added.
     bindR (scoped_tags (json_tags removed0)) (\<lambda>removed.
     bindR (ensure ContradictoryEdit (list_all (\<lambda>t. t \<notin> set removed) added)) (\<lambda>_.
       let spans = foldl (edit_window doc ranges added removed) [] (windows2 cs)
       in bindR (ensure TooManySpans (length spans \<le> 256)) (\<lambda>_.
            Inr (jset (lit ''spans'') (JArr (map span_json spans))
                   (jset (lit ''defaultTags'') (json_tags (default_tags doc)) (original doc)))))))))"

section \<open>What a document means\<close>

text \<open>The tags a document gives to a frame of its recording.\<close>

definition frame_tags :: "json \<Rightarrow> nat \<Rightarrow> nat \<Rightarrow> ustr set" where
  "frame_tags v tot f = (case parse_document v tot of Inl _ \<Rightarrow> {} | Inr doc \<Rightarrow> set (doc_at doc f))"

definition good_tags :: "ustr list \<Rightarrow> bool" where
  "good_tags ts \<longleftrightarrow> sorted ts \<and> distinct ts \<and> length ts \<le> 128 \<and> list_all (\<lambda>t. t \<noteq> [] \<and> utf16_len t \<le> 64) ts"

fun spans_from :: "nat \<Rightarrow> nat \<Rightarrow> tag_span list \<Rightarrow> bool" where
  "spans_from tot lo [] = True"
| "spans_from tot lo (s # ss) =
     (lo \<le> span_start s \<and> span_start s < span_end s \<and> span_end s \<le> tot \<and> spans_from tot (span_end s) ss)"

subsection \<open>Reading and writing the parts of a document\<close>

lemma mapR_scoped_tag: "mapR scoped_tag xs = Inr ts \<longleftrightarrow> xs = map JStr ts \<and> list_all (\<lambda>t. t \<noteq> [] \<and> utf16_len t \<le> 64) ts"
proof (induction xs arbitrary: ts)
  case (Cons x xs)
  then show ?case by (cases x; cases ts) (auto simp: scoped_tag_def res_simps)
qed auto

lemma length_btree_set: "length (btree_set xs) \<le> length xs"
  by (simp add: btree_set_def length_remdups_leq)

lemma scoped_tags_good: "scoped_tags v = Inr ts \<Longrightarrow> good_tags ts"
  by (auto simp: scoped_tags_def good_tags_def res_simps mapR_scoped_tag list_all_iff intro: le_trans [OF length_btree_set])

lemma scoped_tags_json: "good_tags ts \<Longrightarrow> scoped_tags (json_tags ts) = Inr ts"
  using mapR_scoped_tag [of "map JStr ts" ts]
  by (simp add: scoped_tags_def good_tags_def json_tags_def ok_or_def ensure_def btree_set_id)

lemma map_JStr_inj [simp]: "map JStr xs = map JStr ys \<longleftrightarrow> xs = ys"
  by (simp add: inj_map_eq_map inj_def)

lemma scoped_tags_set: "scoped_tags (json_tags ts0) = Inr ts \<Longrightarrow> set ts = set ts0"
  by (auto simp: scoped_tags_def json_tags_def res_simps mapR_scoped_tag)

lemma frame_int: "n < 2 ^ 32 \<Longrightarrow> frame_no (JInt (int n)) = Inr n"
  by (simp add: frame_no_def ok_or_def ensure_def)

lemma spans_from_alt:
  "spans_from tot lo ss \<longleftrightarrow> (\<forall>s \<in> set ss. lo \<le> span_start s \<and> span_start s < span_end s \<and> span_end s \<le> tot)
     \<and> sorted_wrt (\<lambda>s t. span_end s \<le> span_start t) ss"
  by (induction ss arbitrary: lo) fastforce+

lemma parse_spans_ok:
  "parse_spans tot lo raw = Inr ss \<Longrightarrow> spans_from tot lo ss \<and> list_all (\<lambda>s. good_tags (span_tags s)) ss \<and> length ss = length raw"
  by (induction raw arbitrary: lo ss) (auto simp: res_simps frame_range_def scoped_tags_good)

lemma parse_spans_json:
  "tot < 2 ^ 32 \<Longrightarrow> spans_from tot lo ss \<Longrightarrow> list_all (\<lambda>s. good_tags (span_tags s)) ss \<Longrightarrow>
   parse_spans tot lo (map span_json ss) = Inr ss"
proof (induction ss arbitrary: lo)
  case (Cons s ss)
  then have "span_start s < 2 ^ 32" "span_end s < 2 ^ 32" by auto
  with Cons show ?case
    by (simp add: span_json_def ok_or_def jget_def ensure_def span_fields_def frame_int frame_range_def scoped_tags_json)
qed simp

lemma parse_document_ok:
  assumes "parse_document v tot = Inr doc" and "tot < 2 ^ 32"
  shows "doc_total doc = tot" "0 < tot" "good_tags (default_tags doc)" "spans_from tot 0 (doc_spans doc)"
    "list_all (\<lambda>s. good_tags (span_tags s)) (doc_spans doc)" "is_object (original doc)"
    "as_i64 (jget (original doc) (lit ''version'')) = Some 2" "frame_no (jget (original doc) (lit ''totalFrames'')) = Inr tot"
  using assms by (auto simp: parse_document_def res_simps scoped_tags_good dest: parse_spans_ok split: if_splits)
    (auto simp: is_object_def jget_def frame_int)

subsection \<open>Cutting at the bounds\<close>

lemma windows2_Cons [simp]: "windows2 [] = []" "windows2 [x] = []" "windows2 (x # y # xs) = (x, y) # windows2 (y # xs)"
  by (simp_all add: windows2_def)

lemma windows2_cover:
  "sorted cs \<Longrightarrow> cs \<noteq> [] \<Longrightarrow> hd cs \<le> f \<Longrightarrow> f < last cs \<Longrightarrow> \<exists>(a, b) \<in> set (windows2 cs). a \<le> f \<and> f < (b :: nat)"
proof (induction cs)
  case (Cons c cs)
  show ?case
  proof (cases cs)
    case (Cons d ds)
    then show ?thesis using Cons.prems Cons.IH by (cases "f < d") auto
  qed (use Cons.prems in simp)
qed simp

lemma windows2_gap:
  "sorted cs \<Longrightarrow> (a, b) \<in> set (windows2 cs) \<Longrightarrow> a \<in> set cs \<and> b \<in> set cs \<and> a \<le> b \<and> (\<forall>c \<in> set cs. c \<le> a \<or> b \<le> (c :: nat))"
proof (induction cs)
  case (Cons c cs)
  show ?case
  proof (cases cs)
    case (Cons d ds)
    then have s: "sorted cs" and le: "\<forall>x \<in> set cs. c \<le> x" using Cons.prems(1) by auto
    from Cons.prems(2) consider "a = c" "b = d" | "(a, b) \<in> set (windows2 cs)" unfolding Cons by auto
    then show ?thesis
    proof cases
      case 1
      then show ?thesis using s le unfolding Cons by auto
    next
      case 2
      then show ?thesis using Cons.IH [OF s 2] le by auto
    qed
  qed (use Cons.prems in simp)
qed simp

lemma sorted_ends: "sorted cs \<Longrightarrow> x \<in> set cs \<Longrightarrow> hd cs \<le> x \<and> x \<le> (last cs :: nat)"
  by (induction cs) auto

lemma cuts_ok:
  assumes "cuts doc ranges = Inr cs" and "spans_from (doc_total doc) 0 (doc_spans doc)" and "0 < doc_total doc"
  shows "sorted cs" "distinct cs" "cs \<noteq> []" "hd cs = 0" "last cs = doc_total doc"
    "\<forall>s \<in> set (doc_spans doc). span_start s \<in> set cs \<and> span_end s \<in> set cs"
    "\<forall>(a, b) \<in> set ranges. a \<in> set cs \<and> b \<in> set cs"
proof -
  have r: "\<forall>(a, b) \<in> set ranges. a < b \<and> b \<le> doc_total doc"
    using assms(1) by (fastforce simp: cuts_def res_simps mapR_Inr_iff frame_range_def list_all2_conv_all_nth in_set_conv_nth)
  have cs: "cs = btree_set ([0, doc_total doc] @ concat (map (\<lambda>s. [span_start s, span_end s]) (doc_spans doc))
                        @ concat (map (\<lambda>(a, b). [a, b]) ranges))"
    using assms(1) by (simp add: cuts_def res_simps)
  show sd: "sorted cs" and "distinct cs" by (simp_all add: cs del: append.simps)
  show "\<forall>s \<in> set (doc_spans doc). span_start s \<in> set cs \<and> span_end s \<in> set cs" "\<forall>(a, b) \<in> set ranges. a \<in> set cs \<and> b \<in> set cs"
    by (fastforce simp: cs)+
  have m: "0 \<in> set cs" "doc_total doc \<in> set cs" by (simp_all add: cs)
  then show ne: "cs \<noteq> []" by auto
  have le: "c \<le> doc_total doc" if "c \<in> set cs" for c
    using that assms(2) r by (fastforce simp: cs spans_from_alt)
  show "hd cs = 0" using sorted_ends [OF sd m(1)] by simp
  have "doc_total doc \<le> last cs" using sorted_ends [OF sd m(2)] by simp
  then show "last cs = doc_total doc" using le [OF last_in_set [OF ne]] by simp
qed

lemma window_uniform:
  assumes cs: "sorted cs" and w: "(a, b) \<in> set (windows2 cs)" and f: "a \<le> f" "f < b"
  shows "span_start s \<in> set cs \<Longrightarrow> span_end s \<in> set cs \<Longrightarrow> covers_frame s f = covers_frame s a"
    and "\<forall>(x, y) \<in> set ranges. x \<in> set cs \<and> y \<in> set cs \<Longrightarrow> in_ranges ranges f = in_ranges ranges a"
proof -
  have g: "(c \<le> f) = (c \<le> a)" "(f < c) = (a < c)" if "c \<in> set cs" for c
    using windows2_gap [OF cs w] that f by (force, force)
  then show "span_start s \<in> set cs \<Longrightarrow> span_end s \<in> set cs \<Longrightarrow> covers_frame s f = covers_frame s a"
    by (simp add: covers_frame_def)
  show "in_ranges ranges f = in_ranges ranges a" if all: "\<forall>(x, y) \<in> set ranges. x \<in> set cs \<and> y \<in> set cs"
  proof -
    have "(case r of (x, y) \<Rightarrow> x \<le> f \<and> f < y) = (case r of (x, y) \<Rightarrow> x \<le> a \<and> a < y)" if "r \<in> set ranges" for r
      using that g all by (cases r) auto
    then show ?thesis by (auto simp: in_ranges_def list_ex_iff)
  qed
qed

lemma find_cong_set: "(\<And>x. x \<in> set xs \<Longrightarrow> P x = Q x) \<Longrightarrow> find P xs = find Q xs"
  by (induction xs) auto

lemma doc_at_window:
  assumes "cuts doc ranges = Inr cs" and "spans_from (doc_total doc) 0 (doc_spans doc)" and "0 < doc_total doc"
    and "(a, b) \<in> set (windows2 cs)" and "a \<le> f" "f < b"
  shows "doc_at doc f = doc_at doc a" "in_ranges ranges f = in_ranges ranges a"
proof -
  note c = cuts_ok [OF assms(1-3)]
  have "find (\<lambda>s. covers_frame s f) (doc_spans doc) = find (\<lambda>s. covers_frame s a) (doc_spans doc)"
    using c(6) window_uniform(1) [OF c(1) assms(4-6)] by (intro find_cong_set) blast
  then show "doc_at doc f = doc_at doc a" by (simp add: doc_at_def tags_at_frame_def)
  show "in_ranges ranges f = in_ranges ranges a" by (rule window_uniform(2) [OF c(1) assms(4-6) c(7)])
qed

subsection \<open>Rebuilding the spans\<close>

lemma find_append_cases: "find P (xs @ ys) = (case find P xs of Some x \<Rightarrow> Some x | None \<Rightarrow> find P ys)"
  by (induction xs) auto

lemma find_covering: "find (\<lambda>s. covers_frame s f) ss = Some s \<Longrightarrow> s \<in> set ss \<and> covers_frame s f"
  by (auto simp: find_Some_iff)

lemma tags_at_snoc:
  assumes "spans_from c 0 ss" and "c \<le> span_start s"
  shows "tags_at_frame (ss @ [s]) dflt f = (if covers_frame s f then span_tags s else tags_at_frame ss dflt f)"
proof (cases "covers_frame s f")
  case True
  then have "find (\<lambda>s. covers_frame s f) ss = None"
    using assms by (fastforce simp: find_None_iff spans_from_alt covers_frame_def)
  then show ?thesis using True by (simp add: tags_at_frame_def find_append_cases)
qed (auto simp: tags_at_frame_def find_append_cases split: option.splits)

lemma spans_from_snoc:
  "spans_from tot lo (ss @ [s]) \<longleftrightarrow> spans_from tot lo ss \<and> (\<forall>x \<in> set ss. span_end x \<le> span_start s)
     \<and> lo \<le> span_start s \<and> span_start s < span_end s \<and> span_end s \<le> tot"
  by (auto simp: spans_from_alt sorted_wrt_append)

lemma tags_at_beyond: "spans_from c 0 ss \<Longrightarrow> c \<le> f \<Longrightarrow> tags_at_frame ss dflt f = dflt"
  by (auto simp: tags_at_frame_def spans_from_alt split: option.splits dest!: find_covering) (auto simp: covers_frame_def)

lemma spans_from_mono: "spans_from c lo ss \<Longrightarrow> c \<le> d \<Longrightarrow> spans_from d lo ss"
  by (auto simp: spans_from_alt)

lemma push_span_ok:
  assumes "spans_from a 0 ss" and "a < b"
  shows "spans_from b 0 (push_span dflt ss a b x)"
    and "f < b \<Longrightarrow> tags_at_frame (push_span dflt ss a b x) dflt f = (if f < a then tags_at_frame ss dflt f else x)"
    and "list_all (\<lambda>s. P (span_tags s)) ss \<Longrightarrow> P x \<Longrightarrow> list_all (\<lambda>s. P (span_tags s)) (push_span dflt ss a b x)"
proof -
  have "spans_from b 0 (push_span dflt ss a b x) \<and>
     (f < b \<longrightarrow> tags_at_frame (push_span dflt ss a b x) dflt f = (if f < a then tags_at_frame ss dflt f else x))"
  proof (cases "x = dflt")
    case True
    then show ?thesis using assms spans_from_mono [of a 0 ss b] tags_at_beyond [of a ss f dflt] by (auto simp: push_span_def)
  next
    case new: False
    show ?thesis
    proof (cases "ss \<noteq> [] \<and> span_end (last ss) = a \<and> span_tags (last ss) = x")
      case True
      define us u where "us = butlast ss" and "u = last ss"
      have ss: "ss = us @ [u]" using True by (simp add: us_def u_def)
      have u: "span_end u = a" "span_tags u = x" using True by (simp_all add: u_def)
      have su: "spans_from (span_start u) 0 us" "span_start u < a" using assms(1) u unfolding ss spans_from_snoc by (auto simp: spans_from_alt)
      have p: "push_span dflt ss a b x = us @ [u\<lparr>span_end := b\<rparr>]" using new True by (simp add: push_span_def us_def u_def)
      have "spans_from b 0 (us @ [u\<lparr>span_end := b\<rparr>])"
        using assms u unfolding ss spans_from_snoc by (auto intro: spans_from_mono)
      moreover have "tags_at_frame (us @ [u\<lparr>span_end := b\<rparr>]) dflt f = (if f < a then tags_at_frame ss dflt f else x)" if "f < b"
        using that su u assms(2) by (auto simp: ss tags_at_snoc [OF su(1)] covers_frame_def)
      ultimately show ?thesis unfolding p by blast
    next
      case False
      then have p: "push_span dflt ss a b x = ss @ [\<lparr>span_start = a, span_end = b, span_tags = x\<rparr>]"
        using new by (auto simp: push_span_def)
      show ?thesis using assms unfolding p
        by (auto simp: spans_from_snoc tags_at_snoc [OF assms(1)] covers_frame_def intro: spans_from_mono) (auto simp: spans_from_alt)
    qed
  qed
  then show "spans_from b 0 (push_span dflt ss a b x)"
    and "f < b \<Longrightarrow> tags_at_frame (push_span dflt ss a b x) dflt f = (if f < a then tags_at_frame ss dflt f else x)" by blast+
  show "list_all (\<lambda>s. P (span_tags s)) ss \<Longrightarrow> P x \<Longrightarrow> list_all (\<lambda>s. P (span_tags s)) (push_span dflt ss a b x)"
    by (auto simp: push_span_def list_all_iff dest: in_set_butlastD)
qed

lemma push_fold_ok:
  assumes "sorted cs" "distinct cs" "cs \<noteq> []" "spans_from (hd cs) 0 ss"
    and "\<And>a b f. (a, b) \<in> set (windows2 cs) \<Longrightarrow> a \<le> f \<Longrightarrow> f < b \<Longrightarrow> h f = h a"
    and "\<And>f. f < last cs \<Longrightarrow> P (h f)" "list_all (\<lambda>s. P (span_tags s)) ss"
  shows "spans_from (last cs) 0 (foldl (\<lambda>ss w. push_span dflt ss (fst w) (snd w) (h (fst w))) ss (windows2 cs))
    \<and> (f < last cs \<longrightarrow> tags_at_frame (foldl (\<lambda>ss w. push_span dflt ss (fst w) (snd w) (h (fst w))) ss (windows2 cs)) dflt f
         = (if f < hd cs then tags_at_frame ss dflt f else h f))
    \<and> list_all (\<lambda>s. P (span_tags s)) (foldl (\<lambda>ss w. push_span dflt ss (fst w) (snd w) (h (fst w))) ss (windows2 cs))"
  using assms
proof (induction cs arbitrary: ss)
  case (Cons c cs)
  show ?case
  proof (cases cs)
    case Nil
    then show ?thesis using Cons.prems by simp
  next
    case cs: (Cons d ds)
    let ?ss = "push_span dflt ss c d (h c)"
    have lt: "c < d" using Cons.prems(1,2) cs by auto
    have sub: "(a, b) \<in> set (windows2 cs) \<Longrightarrow> (a, b) \<in> set (windows2 (c # cs))" for a b by (simp add: cs)
    have "spans_from (hd cs) 0 ?ss" using push_span_ok(1) [OF _ lt] Cons.prems(4) by (simp add: cs)
    moreover have "c < last cs" using lt sorted_ends [of cs d] Cons.prems(1) by (simp add: cs)
    then have "list_all (\<lambda>s. P (span_tags s)) ?ss"
      using push_span_ok(3) [OF _ lt, of ss P] Cons.prems(4,7) Cons.prems(6) [of c] by (simp add: cs)
    ultimately have ih: "spans_from (last cs) 0 (foldl (\<lambda>ss w. push_span dflt ss (fst w) (snd w) (h (fst w))) ?ss (windows2 cs))
      \<and> (f < last cs \<longrightarrow> tags_at_frame (foldl (\<lambda>ss w. push_span dflt ss (fst w) (snd w) (h (fst w))) ?ss (windows2 cs)) dflt f
         = (if f < hd cs then tags_at_frame ?ss dflt f else h f))
      \<and> list_all (\<lambda>s. P (span_tags s)) (foldl (\<lambda>ss w. push_span dflt ss (fst w) (snd w) (h (fst w))) ?ss (windows2 cs))"
      using Cons.prems(1,2,5,6) sub by (intro Cons.IH) (auto simp: cs)
    have "tags_at_frame ?ss dflt f = (if f < c then tags_at_frame ss dflt f else h f)" if "f < d"
      using push_span_ok(2) [OF _ lt that] Cons.prems(4) Cons.prems(5) [of c d f] that by (simp add: cs)
    with ih lt show ?thesis by (auto simp: cs)
  qed
qed simp

lemma edit_fold: "foldl (edit_window doc ranges added removed) ss ws =
    foldl (\<lambda>ss w. push_span (default_tags doc) ss (fst w) (snd w)
      ((\<lambda>f. if in_ranges ranges f then edited_tags added removed (doc_at doc f) else doc_at doc f) (fst w))) ss ws"
  by (rule foldl_cong) (simp_all add: edit_window_def Let_def)

lemma doc_at_good:
  "good_tags (default_tags doc) \<Longrightarrow> list_all (\<lambda>s. good_tags (span_tags s)) (doc_spans doc) \<Longrightarrow> good_tags (doc_at doc f)"
  by (auto simp: doc_at_def tags_at_frame_def list_all_iff split: option.splits dest!: find_covering)

lemma good_edited:
  assumes "good_tags current" "good_tags added" "card (set current - set removed \<union> set added) \<le> 128"
  shows "good_tags (edited_tags added removed current)"
proof -
  have "set (edited_tags added removed current) = set current - set removed \<union> set added" by (auto simp: edited_tags_def)
  moreover have "distinct (edited_tags added removed current)" "sorted (edited_tags added removed current)" by (simp_all add: edited_tags_def)
  ultimately show ?thesis using assms
    by (auto simp: good_tags_def list_all_iff distinct_card [symmetric] simp del: distinct_card)
qed

lemma apply_delta_parsed:
  assumes "apply_delta v tot ranges added0 removed0 = Inr v'" and tot: "tot < 2 ^ 32"
    and room: "\<And>f. f < tot \<Longrightarrow> in_ranges ranges f \<Longrightarrow> card (frame_tags v tot f - set removed0 \<union> set added0) \<le> 128"
  obtains doc doc' where "parse_document v tot = Inr doc" "parse_document v' tot = Inr doc'"
    "\<And>f. f < tot \<Longrightarrow> set (doc_at doc' f) =
        (if in_ranges ranges f then set (doc_at doc f) - set removed0 \<union> set added0 else set (doc_at doc f))"
    "\<And>k. k \<notin> {lit ''defaultTags'', lit ''spans''} \<Longrightarrow> jget v' k = jget (original doc) k"
proof -
  from assms(1) obtain doc cs added removed where doc: "parse_document v tot = Inr doc" and cs: "cuts doc ranges = Inr cs"
    and tags: "scoped_tags (json_tags added0) = Inr added" "scoped_tags (json_tags removed0) = Inr removed"
    and v': "let spans = foldl (edit_window doc ranges added removed) [] (windows2 cs) in
       length spans \<le> 256 \<and> v' = jset (lit ''spans'') (JArr (map span_json spans))
                   (jset (lit ''defaultTags'') (json_tags (default_tags doc)) (original doc))"
    by (auto simp: apply_delta_def res_simps Let_def)
  note d = parse_document_ok [OF doc tot]
  have sp: "spans_from (doc_total doc) 0 (doc_spans doc)" "0 < doc_total doc" using d(1,2,4) by simp_all
  note c = cuts_ok [OF cs sp]
  have sets: "set added = set added0" "set removed = set removed0" using tags scoped_tags_set by blast+
  let ?h = "\<lambda>f. if in_ranges ranges f then edited_tags added removed (doc_at doc f) else doc_at doc f"
  define spans where "spans = foldl (edit_window doc ranges added removed) [] (windows2 cs)"
  have good: "good_tags (?h f)" if "f < tot" for f
  proof (cases "in_ranges ranges f")
    case True
    then have "card (set (doc_at doc f) - set removed \<union> set added) \<le> 128"
      using room [OF that True] by (simp add: frame_tags_def doc sets)
    then show ?thesis using good_edited [OF doc_at_good [OF d(3,5)] scoped_tags_good [OF tags(1)]] True by simp
  qed (simp add: doc_at_good d(3,5))
  have "spans_from (last cs) 0 spans \<and> (f < last cs \<longrightarrow> tags_at_frame spans (default_tags doc) f =
      (if f < hd cs then tags_at_frame [] (default_tags doc) f else ?h f)) \<and> list_all (\<lambda>s. good_tags (span_tags s)) spans" for f
    unfolding spans_def edit_fold
  proof (rule push_fold_ok [OF c(1-3)])
    show "?h f = ?h a" if "(a, b) \<in> set (windows2 cs)" "a \<le> f" "f < b" for a b f
      using doc_at_window [OF cs sp that] by simp
    show "good_tags (?h f)" if "f < last cs" for f using good that c(5) d(1) by simp
  qed simp_all
  then have spans: "spans_from tot 0 spans" "list_all (\<lambda>s. good_tags (span_tags s)) spans"
    "\<And>f. f < tot \<Longrightarrow> tags_at_frame spans (default_tags doc) f = ?h f"
    using c(4,5) d(1) by auto
  have v: "v' = jset (lit ''spans'') (JArr (map span_json spans)) (jset (lit ''defaultTags'') (json_tags (default_tags doc)) (original doc))"
    and len: "length spans \<le> 256" using v' by (simp_all add: spans_def Let_def)
  have obj: "is_object v'" using d(6) by (simp add: v)
  then have "\<not> is_array v'" by (cases v') (simp_all add: is_object_def is_array_def)
  then have "parse_document v' tot = Inr \<lparr>original = v', doc_total = tot, default_tags = default_tags doc, doc_spans = spans\<rparr>"
    using d(2,3,6,7,8) obj len parse_spans_json [OF tot spans(1,2)]
    by (simp add: parse_document_def v scoped_tags_json ensure_def ok_or_def)
  then show ?thesis
    using doc spans(3) d(6) sets by (intro that [of doc "\<lparr>original = v', doc_total = tot, default_tags = default_tags doc, doc_spans = spans\<rparr>"])
      (auto simp: doc_at_def edited_tags_def v)
qed

subsection \<open>Reading ranges\<close>

definition valid_selection :: "nat \<Rightarrow> (nat \<times> nat) list \<Rightarrow> bool" where
  "valid_selection tot ranges \<longleftrightarrow> ranges \<noteq> [] \<and> length ranges \<le> 256 \<and> list_all (\<lambda>(a, b). a < b \<and> b \<le> tot) ranges"

lemma cuts_total: "valid_selection (doc_total doc) ranges \<Longrightarrow> \<exists>cs. cuts doc ranges = Inr cs"
proof -
  have "list_all (\<lambda>(a, b). a < b \<and> b \<le> t) rs \<Longrightarrow> \<exists>us. mapR (\<lambda>(a, b). frame_range a b t) rs = Inr us" for t rs
    by (induction rs) (auto simp: frame_range_def ensure_def)
  then show "valid_selection (doc_total doc) ranges \<Longrightarrow> \<exists>cs. cuts doc ranges = Inr cs"
    by (fastforce simp: valid_selection_def cuts_def ensure_def)
qed

lemma windows2_less: "sorted cs \<Longrightarrow> distinct cs \<Longrightarrow> (a, b) \<in> set (windows2 cs) \<Longrightarrow> a < (b :: nat)"
proof (induction cs)
  case (Cons c cs)
  then show ?case by (cases cs) auto
qed simp

lemma read_windows:
  assumes "cuts doc ranges = Inr cs" and "spans_from (doc_total doc) 0 (doc_spans doc)" and "0 < doc_total doc"
  shows "set (concat (map (\<lambda>(start, _). if in_ranges ranges start then doc_at doc start else []) (windows2 cs))) =
    (\<Union>f \<in> {f. f < doc_total doc \<and> in_ranges ranges f}. set (doc_at doc f))" (is "?L = ?R")
proof
  note c = cuts_ok [OF assms]
  show "?L \<subseteq> ?R"
  proof
    fix t assume "t \<in> ?L"
    then obtain a b where w: "(a, b) \<in> set (windows2 cs)" and t: "in_ranges ranges a" "t \<in> set (doc_at doc a)"
      by (auto split: if_splits)
    have "a < b" by (rule windows2_less [OF c(1,2) w])
    moreover have "b \<le> doc_total doc" using windows2_gap [OF c(1) w] sorted_ends [OF c(1), of b] c(5) by simp
    ultimately have "a < doc_total doc" by simp
    then show "t \<in> ?R" using t by blast
  qed
  show "?R \<subseteq> ?L"
  proof
    fix t assume "t \<in> ?R"
    then obtain f where f: "f < doc_total doc" "in_ranges ranges f" "t \<in> set (doc_at doc f)" by auto
    obtain a b where w: "(a, b) \<in> set (windows2 cs)" "a \<le> f" "f < b"
      using windows2_cover [OF c(1,3), of f] c(4,5) f(1) by auto
    have "in_ranges ranges a" "t \<in> set (doc_at doc a)" using doc_at_window [OF assms w] f by simp_all
    then show "t \<in> ?L" using w(1) by force
  qed
qed

lemma tags_for_ranges_exact:
  assumes "parse_document v tot = Inr doc" and "tot < 2 ^ 32" and "valid_selection tot ranges"
  shows "tags_for_ranges v tot ranges = Inr (sorted_list_of_set (\<Union>f \<in> {f. f < tot \<and> in_ranges ranges f}. set (doc_at doc f)))"
proof -
  note d = parse_document_ok [OF assms(1,2)]
  obtain cs where cs: "cuts doc ranges = Inr cs" using cuts_total [of doc ranges] assms(3) d(1) by auto
  have "spans_from (doc_total doc) 0 (doc_spans doc)" "0 < doc_total doc" using d(1,2,4) by simp_all
  from read_windows [OF cs this] d(1) show ?thesis
    by (simp add: tags_for_ranges_def assms(1) cs btree_set_def sorted_list_of_set_sort_remdups [symmetric] del: set_concat)
qed

section \<open>Properties\<close>

text \<open>
  C20. Editing the tags of some frame ranges changes those frames and no others: reading any ranges of the
  new document gives, in order, the tags of their frames, where a frame in the edited ranges has lost the
  removed tags and gained the added ones and every other frame has kept its tags; fields of the document that this
  version does not know are kept. (A frame may have 128 tags.)
\<close>

theorem scoped_edit_exact:
  assumes "apply_delta v tot ranges added removed = Inr v'" and "tot < 2 ^ 32" and "valid_selection tot rs"
    and "\<And>f. f < tot \<Longrightarrow> in_ranges ranges f \<Longrightarrow> card (frame_tags v tot f - set removed \<union> set added) \<le> 128"
  shows "tags_for_ranges v' tot rs = Inr (sorted_list_of_set (\<Union>f \<in> {f. f < tot \<and> in_ranges rs f}.
      if in_ranges ranges f then frame_tags v tot f - set removed \<union> set added else frame_tags v tot f)) \<and>
    (is_object v \<and> k \<notin> {lit ''defaultTags'', lit ''spans''} \<longrightarrow> jget v' k = jget v k)"
proof -
  from apply_delta_parsed [OF assms(1,2,4)] obtain doc doc' where doc: "parse_document v tot = Inr doc"
    and doc': "parse_document v' tot = Inr doc'"
    and tags: "\<And>f. f < tot \<Longrightarrow> set (doc_at doc' f) =
        (if in_ranges ranges f then set (doc_at doc f) - set removed \<union> set added else set (doc_at doc f))"
    and kept: "\<And>k. k \<notin> {lit ''defaultTags'', lit ''spans''} \<Longrightarrow> jget v' k = jget (original doc) k" by blast
  have "original doc = v" if "is_object v"
    using doc that by (cases v) (auto simp: parse_document_def is_object_def is_array_def res_simps)
  with kept [of k] have "is_object v \<and> k \<notin> {lit ''defaultTags'', lit ''spans''} \<longrightarrow> jget v' k = jget v k" by auto
  moreover have "(\<Union>f \<in> {f. f < tot \<and> in_ranges rs f}. set (doc_at doc' f)) = (\<Union>f \<in> {f. f < tot \<and> in_ranges rs f}.
      if in_ranges ranges f then frame_tags v tot f - set removed \<union> set added else frame_tags v tot f)"
    by (intro SUP_cong refl) (simp add: tags frame_tags_def doc)
  ultimately show ?thesis using tags_for_ranges_exact [OF doc' assms(2,3)] by simp
qed

definition shared_clip :: json where
  "shared_clip = JObj [(lit ''version'', JInt 2), (lit ''totalFrames'', JInt 60), (lit ''defaultTags'', json_tags [lit ''Home'']),
     (lit ''spans'', JArr [span_json \<lparr>span_start = 10, span_end = 40, span_tags = [lit ''Work'']\<rparr>]), (lit ''origin'', JInt 7)]"

definition edited_clip :: json where
  "edited_clip = (case apply_delta shared_clip 60 [(20, 50)] [lit ''Trip''] [lit ''Home''] of Inr v \<Rightarrow> v | Inl _ \<Rightarrow> JNull)"

lemma shared_clip_parsed:
  "parse_document shared_clip 60 = Inr \<lparr>original = shared_clip, doc_total = 60, default_tags = [lit ''Home''],
      doc_spans = [\<lparr>span_start = 10, span_end = 40, span_tags = [lit ''Work'']\<rparr>]\<rparr>"
proof -
  have "good_tags [lit ''Home'']" "good_tags [lit ''Work'']" "frame_no (JInt 60) = Inr 60" "frame_no (JInt 10) = Inr 10" "frame_no (JInt 40) = Inr 40"
    by (simp_all add: good_tags_def utf16_len_def frame_no_def ok_or_def ensure_def)
  then show ?thesis
    by (simp add: parse_document_def shared_clip_def is_array_def is_object_def jget_def ensure_def ok_or_def scoped_tags_json
        span_json_def span_fields_def frame_range_def)
qed

lemma edited_clip_ok: "apply_delta shared_clip 60 [(20, 50)] [lit ''Trip''] [lit ''Home''] = Inr edited_clip"
proof -
  have "good_tags [lit ''Trip'']" "good_tags [lit ''Home'']" by (simp_all add: good_tags_def utf16_len_def)
  then have "is_ok (apply_delta shared_clip 60 [(20, 50)] [lit ''Trip''] [lit ''Home''])"
    by (simp add: apply_delta_def shared_clip_parsed cuts_def ensure_def frame_range_def btree_set_def scoped_tags_json Let_def
        windows2_def edit_window_def doc_at_def tags_at_frame_def covers_frame_def in_ranges_def push_span_def edited_tags_def)
  then show ?thesis by (cases "apply_delta shared_clip 60 [(20, 50)] [lit ''Trip''] [lit ''Home'']") (simp_all add: edited_clip_def)
qed

lemma shared_clip_tags: "frame_tags shared_clip 60 f \<subseteq> {lit ''Home'', lit ''Work''}"
  by (auto simp: frame_tags_def doc_at_def tags_at_frame_def shared_clip_parsed split: if_splits)

theorem scoped_edit_exact_witness:
  "tags_for_ranges edited_clip 60 [(0, 5)] = Inr (sorted_list_of_set (\<Union>f \<in> {f. f < 60 \<and> in_ranges [(0, 5)] f}.
      if in_ranges [(20, 50)] f then frame_tags shared_clip 60 f - set [lit ''Home''] \<union> set [lit ''Trip''] else frame_tags shared_clip 60 f)) \<and>
   jget edited_clip (lit ''origin'') = JInt 7"
proof -
  have room: "card (frame_tags shared_clip 60 f - set [lit ''Home''] \<union> set [lit ''Trip'']) \<le> 128" for f
  proof -
    have "frame_tags shared_clip 60 f - set [lit ''Home''] \<union> set [lit ''Trip''] \<subseteq> set [lit ''Home'', lit ''Work'', lit ''Trip'']"
      using shared_clip_tags [of f] by auto
    then have "card (frame_tags shared_clip 60 f - set [lit ''Home''] \<union> set [lit ''Trip'']) \<le> card (set [lit ''Home'', lit ''Work'', lit ''Trip''])"
      by (intro card_mono) simp_all
    also have "\<dots> \<le> 3" using card_length [of "[lit ''Home'', lit ''Work'', lit ''Trip'']"] by simp
    finally show ?thesis by simp
  qed
  show ?thesis
    using scoped_edit_exact [OF edited_clip_ok _ _ room, of "[(0, 5)]" "lit ''origin''"]
    by (simp add: valid_selection_def) (simp add: is_object_def shared_clip_def jget_def)
qed

lemma overfull_list: "128 < length ts \<Longrightarrow> scoped_tags (json_tags ts) = Inl TooManyTags"
  by (simp add: scoped_tags_def json_tags_def ok_or_def ensure_def)

lemma overfull_document:
  assumes "good_tags ts" "length ts = 128" "good_tags [t]" "t \<notin> set ts"
  shows "\<exists>v. apply_delta (json_tags ts) 1 [(0, 1)] [t] [] = Inr v \<and> parse_document v 1 = Inl TooManyTags"
proof -
  let ?new = "edited_tags [t] [] ts"
  have "distinct ts" using assms(1) by (simp add: good_tags_def)
  then have "distinct (ts @ [t])" using assms(4) by simp
  then have len: "length ?new = 129" using assms(2) by (simp add: edited_tags_def btree_set_def distinct_remdups_id)
  then have ne: "?new \<noteq> ts" using assms(2) by auto
  have none: "scoped_tags (json_tags []) = Inr []" by (rule scoped_tags_json) (simp add: good_tags_def)
  have "apply_delta (json_tags ts) 1 [(0, 1)] [t] [] = Inr
     (jset (lit ''spans'') (JArr [span_json \<lparr>span_start = 0, span_end = 1, span_tags = ?new\<rparr>])
       (jset (lit ''defaultTags'') (json_tags ts)
         (JObj [(lit ''version'', JInt 2), (lit ''totalFrames'', JInt 1), (lit ''defaultTags'', json_tags ts), (lit ''spans'', JArr [])])))"
    using ne none scoped_tags_json [OF assms(1)] scoped_tags_json [OF assms(3)]
    by (simp add: apply_delta_def parse_document_def is_array_def json_tags_def [of ts] cuts_def ensure_def frame_range_def btree_set_def
        windows2_def edit_window_def doc_at_def tags_at_frame_def in_ranges_def push_span_def Let_def)
  moreover have "parse_document (jset (lit ''spans'') (JArr [span_json \<lparr>span_start = 0, span_end = 1, span_tags = ?new\<rparr>])
       (jset (lit ''defaultTags'') (json_tags ts)
         (JObj [(lit ''version'', JInt 2), (lit ''totalFrames'', JInt 1), (lit ''defaultTags'', json_tags ts), (lit ''spans'', JArr [])]))) 1
     = Inl TooManyTags"
    using scoped_tags_json [OF assms(1)] overfull_list [of ?new] len
    by (simp add: parse_document_def is_array_def is_object_def jget_def jset_def assoc_insert_def span_json_def span_fields_def ensure_def
        ok_or_def frame_no_def frame_range_def)
  ultimately show ?thesis by blast
qed

lemma crowded_good: "good_tags (map (\<lambda>n. [int n]) [0..<128])"
proof -
  have "sorted (map (\<lambda>n. [int n]) [0..<m])" for m by (induction m) (auto simp: sorted_append)
  then show ?thesis by (auto simp: good_tags_def distinct_map inj_on_def list_all_iff utf16_len_def)
qed


end
