(* ===== verification/EditQueue.thy ===== *)
theory EditQueue
  imports ChargeSessions Json
begin

section \<open>The queue of local edits\<close>

text \<open>
  \<^verbatim>\<open>crates/drives/src/mutable_intent.rs, drive_edit_scope.rs\<close> and the part of \<^verbatim>\<open>db.rs\<close> that edits tags and costs: an edit
  writes the local value, stamps the queue row and appends the operation; an acknowledgement removes the
  operations it covers and adopts the confirmed values under the newer ones. The tables are maps from
  their keys; deleting a queue row deletes its dependent rows, as the schema's foreign keys say. A list
  of tags is what the ordered query returns. A transaction that fails leaves the store as it was, so a
  failing operation returns only its error. The windows of a drive that the grouping gives now are a
  parameter.
\<close>

datatype edit = Tags "ustr list" "ustr list" | CostOverride json json | RateConfigEdit json json bool "ustr option"

record intent =
  legacy :: bool
  edits :: "(int \<times> edit) list"

datatype edit_key = DriveQ ustr | ChargeQ int | RateQ

datatype edit_error =
    ClockExhausted | DuplicateStamp | InvalidCost | ReservedOrEmptyTag | UploadChanged | RateIntentOnCharge
  | EmptyVerifiedKey | ScopeChanged | SourcesChanged | RouteIdentityChanged | RouteKeyChanged
  | SourceMissing | InvalidRun | FrameOverflow | FrameWindowChanged

record clip_window =
  cw_file :: ustr
  cw_start :: nat
  cw_end :: nat
  cw_total :: nat

record scope_source =
  sc_runs :: "nat list"
  sc_id :: "ustr option"
  sc_key :: "ustr option"
  sc_uploaded_at :: "int option"

record scope =
  sc_version :: nat
  sc_windows :: "clip_window list"
  sc_sources :: "(ustr \<times> scope_source) list"

record route_ident =
  ri_id :: "ustr option"
  ri_key :: "ustr option"
  ri_uploaded_at :: "int option"

record edit_store =
  q_clock :: "int option"
  q_dirty :: "(edit_key \<times> int) list"
  q_state :: "edit_key \<Rightarrow> int option option"
  q_events :: "edit_key \<Rightarrow> (int \<times> edit) list"
  q_scope :: "ustr \<Rightarrow> scope option option"
  charge_tags :: "int \<Rightarrow> ustr list"
  charge_costs :: "int \<Rightarrow> (f64 \<times> ustr) option"
  charge_uploads :: "int \<Rightarrow> (ustr \<times> ustr \<times> int) option"
  delete_outbox :: "int \<Rightarrow> (ustr \<times> int option) option"
  drive_tags :: "ustr \<Rightarrow> ustr list"
  route_idents :: "ustr \<Rightarrow> route_ident option"
  source_clock :: int
  meta :: "ustr \<Rightarrow> ustr option"

subsection \<open>Edits and the queue\<close>

definition tag_edit :: "ustr list \<Rightarrow> ustr list \<Rightarrow> edit" where
  "tag_edit before0 after0 =
     (let before = btree_set (filter (\<lambda>s. s \<noteq> []) before0); after = btree_set (filter (\<lambda>s. s \<noteq> []) after0)
      in Tags (filter (\<lambda>t. t \<notin> set before) after) (filter (\<lambda>t. t \<notin> set after) before))"

definition valid_amount :: "f64 \<Rightarrow> bool" where
  "valid_amount a = (case a of Finite q \<Rightarrow> q \<ge> 0 | _ \<Rightarrow> False)"

definition cost_value :: "(f64 \<times> ustr) option \<Rightarrow> edit_error + json" where
  "cost_value cst =
     (case cst of None \<Rightarrow> Inr JNull
      | Some (amount, cur) \<Rightarrow>
          (case amount of
             Finite q \<Rightarrow> if q \<ge> 0 then Inr (JObj [(lit ''amount'', JFloat q), (lit ''currency'', JStr cur)]) else Inl InvalidCost
           | _ \<Rightarrow> Inl InvalidCost))"

definition queued :: "edit_store \<Rightarrow> edit_key \<Rightarrow> int option" where
  "queued s k = map_of (q_dirty s) k"

definition stamp_of :: "int option \<Rightarrow> (edit_key \<times> int) list \<Rightarrow> int" where
  "stamp_of clock dirty = (case clock of Some v \<Rightarrow> v
     | None \<Rightarrow> (case dirty of [] \<Rightarrow> 0 | (_, stamp) # rest \<Rightarrow> fold max (map snd rest) stamp))"

definition last_stamp :: "edit_store \<Rightarrow> int" where
  "last_stamp s = stamp_of (q_clock s) (q_dirty s)"

definition mark_mutable_dirty_at :: "edit_key \<Rightarrow> int \<Rightarrow> edit_store \<Rightarrow> edit_error + edit_store" where
  "mark_mutable_dirty_at k now_ms s =
     (let last = last_stamp s
      in bindR (ensure ClockExhausted (last + 1 < 2 ^ 63)) (\<lambda>_.
           let changed_at = max now_ms (last + 1)
           in Inr (s\<lparr>q_clock := Some changed_at, q_dirty := assoc_insert k changed_at (q_dirty s)\<rparr>)))"

definition record_edit :: "edit_key \<Rightarrow> int option \<Rightarrow> edit \<Rightarrow> edit_store \<Rightarrow> edit_error + edit_store" where
  "record_edit k prior_generation e s =
     (let state = (case q_state s k of None \<Rightarrow> Some prior_generation | Some l \<Rightarrow> Some l);
          generation = (case queued s k of Some stamp \<Rightarrow> stamp | None \<Rightarrow> 0)
      in bindR (ensure DuplicateStamp (generation \<notin> fst ` set (q_events s k))) (\<lambda>_.
           Inr (s\<lparr>q_state := (q_state s)(k := state),
                  q_events := (q_events s)(k := insort_key fst (generation, e) (q_events s k))\<rparr>)))"

definition read_intent :: "edit_store \<Rightarrow> edit_key \<Rightarrow> intent" where
  "read_intent s k = \<lparr>legacy = (case q_state s k of Some through \<Rightarrow> through \<noteq> None | None \<Rightarrow> True), edits = q_events s k\<rparr>"

definition retire :: "edit_key \<Rightarrow> int \<Rightarrow> edit_store \<Rightarrow> edit_store" where
  "retire k through s =
     s\<lparr>q_events := (q_events s)(k := filter (\<lambda>(stamp, _). \<not> stamp \<le> through) (q_events s k)),
       q_state := (q_state s)(k := map_option (\<lambda>l. case l of Some stamp \<Rightarrow> if stamp \<le> through then None else Some stamp | None \<Rightarrow> None) (q_state s k))\<rparr>"

text \<open>Deleting a queue row at its stamp, with the rows that depend on it.\<close>

definition drop_dirty :: "edit_key \<Rightarrow> int \<Rightarrow> edit_store \<Rightarrow> edit_store" where
  "drop_dirty k stamp s =
     (if queued s k = Some stamp
      then s\<lparr>q_dirty := filter (\<lambda>(k', _). k' \<noteq> k) (q_dirty s), q_state := (q_state s)(k := None), q_events := (q_events s)(k := []),
             q_scope := (case k of DriveQ d \<Rightarrow> (q_scope s)(d := None) | _ \<Rightarrow> q_scope s)\<rparr>
      else s)"

definition acknowledge :: "edit_key \<Rightarrow> int \<Rightarrow> edit_store \<Rightarrow> edit_store" where
  "acknowledge k through s = drop_dirty k through (retire k through s)"

definition covers_stamp :: "edit_store \<Rightarrow> edit_key \<Rightarrow> int \<Rightarrow> bool" where
  "covers_stamp s k through = (case queued s k of Some stamp \<Rightarrow> stamp \<ge> through | None \<Rightarrow> False)"

text \<open>Whether the queue holds edits after the acknowledged ones whose operations are not recorded.\<close>

definition unknown_newer :: "edit_store \<Rightarrow> edit_key \<Rightarrow> int \<Rightarrow> bool" where
  "unknown_newer s k through \<longleftrightarrow>
     (case queued s k of Some stamp \<Rightarrow> stamp > through | None \<Rightarrow> False) \<and>
     (case q_state s k of Some l \<Rightarrow> (case l of Some stamp \<Rightarrow> stamp > through | None \<Rightarrow> False) | None \<Rightarrow> True)"

definition newer_edits :: "int \<Rightarrow> (int \<times> edit) list \<Rightarrow> edit list" where
  "newer_edits through es = map snd (filter (\<lambda>(stamp, _). \<not> stamp \<le> through) es)"

fun replay_edit :: "edit \<Rightarrow> ustr list \<Rightarrow> ustr list" where
  "replay_edit (Tags added removed) sid = btree_set (filter (\<lambda>t. t \<notin> set removed) sid @ added)"
| "replay_edit _ sid = sid"

definition replay :: "edit list \<Rightarrow> ustr list \<Rightarrow> ustr list" where
  "replay es sid = fold replay_edit es sid"

text \<open>What a table of tags holds after its rows are replaced: no empty tag, no duplicates.\<close>

definition stored_tags :: "ustr list \<Rightarrow> ustr list" where
  "stored_tags tgs = btree_set (filter (\<lambda>t. t \<noteq> []) tgs)"

subsection \<open>Charging sessions\<close>

definition put_charge_tags :: "int \<Rightarrow> ustr list \<Rightarrow> edit_store \<Rightarrow> edit_store" where
  "put_charge_tags sid tgs s = s\<lparr>charge_tags := (charge_tags s)(sid := stored_tags tgs)\<rparr>"

definition put_charge_cost :: "int \<Rightarrow> (f64 \<times> ustr) option \<Rightarrow> edit_store \<Rightarrow> edit_store" where
  "put_charge_cost sid cst s = s\<lparr>charge_costs := (charge_costs s)(sid := cst)\<rparr>"

definition set_charge_tags_inner :: "int \<Rightarrow> int \<Rightarrow> ustr list \<Rightarrow> bool \<Rightarrow> edit_store \<Rightarrow> edit_error + edit_store" where
  "set_charge_tags_inner now sid tgs mark_dirty s =
     (let before = charge_tags s sid; was_queued = queued s (ChargeQ sid); s1 = put_charge_tags sid tgs s
      in if mark_dirty
         then bindR (mark_mutable_dirty_at (ChargeQ sid) now s1) (record_edit (ChargeQ sid) was_queued (tag_edit before tgs))
         else Inr s1)"

definition set_charge_tags :: "int \<Rightarrow> int \<Rightarrow> ustr list \<Rightarrow> edit_store \<Rightarrow> edit_error + edit_store" where
  "set_charge_tags now sid tgs s = set_charge_tags_inner now sid tgs True s"

definition add_charge_tag :: "int \<Rightarrow> ustr \<Rightarrow> int \<Rightarrow> edit_store \<Rightarrow> edit_error + edit_store" where
  "add_charge_tag now tag sid s =
     (let before = charge_tags s sid; was_queued = queued s (ChargeQ sid); after = (if tag \<in> set before then before else before @ [tag])
      in bindR (mark_mutable_dirty_at (ChargeQ sid) now (s\<lparr>charge_tags := (charge_tags s)(sid := btree_set (before @ [tag]))\<rparr>))
           (record_edit (ChargeQ sid) was_queued (tag_edit before after)))"

fun add_tag_loop :: "ustr \<Rightarrow> (int \<times> int) list \<Rightarrow> edit_store \<Rightarrow> edit_error + edit_store" where
  "add_tag_loop tag [] s = Inr s"
| "add_tag_loop tag ((sid, now) # rest) s = bindR (add_charge_tag now tag sid s) (add_tag_loop tag rest)"

definition add_charge_tag_bulk :: "(int \<times> int) list \<Rightarrow> ustr \<Rightarrow> edit_store \<Rightarrow> edit_error + edit_store" where
  "add_charge_tag_bulk sessions tag0 s =
     (let tag = trim tag0
      in if tag = [] \<or> is_reserved_tag tag then Inl ReservedOrEmptyTag
         else if sessions = [] then Inr s else add_tag_loop tag sessions s)"

definition set_charge_cost_inner :: "int \<Rightarrow> int \<Rightarrow> (f64 \<times> ustr) option \<Rightarrow> bool \<Rightarrow> edit_store \<Rightarrow> edit_error + edit_store" where
  "set_charge_cost_inner now sid cst mark_dirty s =
     (let was_queued = queued s (ChargeQ sid)
      in bindR (cost_value (charge_costs s sid)) (\<lambda>before.
         bindR (cost_value cst) (\<lambda>after.
           let s1 = put_charge_cost sid cst s
           in if mark_dirty
              then bindR (mark_mutable_dirty_at (ChargeQ sid) now s1) (record_edit (ChargeQ sid) was_queued (CostOverride before after))
              else Inr s1)))"

definition set_charge_cost :: "int \<Rightarrow> int \<Rightarrow> (f64 \<times> ustr) option \<Rightarrow> edit_store \<Rightarrow> edit_error + edit_store" where
  "set_charge_cost now sid cst s = set_charge_cost_inner now sid cst True s"

definition apply_charge_mutable_from_sync ::
  "int \<Rightarrow> ustr \<Rightarrow> ustr \<Rightarrow> ustr list \<Rightarrow> (f64 \<times> ustr) option \<Rightarrow> edit_store \<Rightarrow> edit_error + edit_store" where
  "apply_charge_mutable_from_sync sid cloud_id wrapped tgs cst s =
     (case charge_uploads s sid of None \<Rightarrow> Inr s
      | Some (i, k, stamp) \<Rightarrow>
          bindR (ensure UploadChanged (i = cloud_id \<and> (k = [] \<or> k = wrapped))) (\<lambda>_.
          if queued s (ChargeQ sid) \<noteq> None then Inr s
          else let s1 = (if k = [] then s\<lparr>charge_uploads := (charge_uploads s)(sid \<mapsto> (i, wrapped, stamp))\<rparr> else s);
                   s2 = put_charge_tags sid tgs s1
               in case cst of
                    None \<Rightarrow> Inr (put_charge_cost sid None s2)
                  | Some (amount, cur) \<Rightarrow>
                      bindR (ensure InvalidCost (valid_amount amount)) (\<lambda>_. Inr (put_charge_cost sid (Some (amount, cur)) s2))))"

record charge_snapshot =
  cs_tags :: "ustr list"
  cs_cost :: "(f64 \<times> ustr) option"
  cs_upload :: "(ustr \<times> ustr \<times> int) option"
  cs_intent :: intent

definition charge_mutable_for_sync :: "edit_store \<Rightarrow> int \<Rightarrow> int \<Rightarrow> charge_snapshot option" where
  "charge_mutable_for_sync s sid changed_at =
     (if queued s (ChargeQ sid) = Some changed_at
      then Some \<lparr>cs_tags = charge_tags s sid, cs_cost = charge_costs s sid, cs_upload = charge_uploads s sid,
                 cs_intent = read_intent s (ChargeQ sid)\<rparr>
      else None)"

definition dirty_mutables :: "edit_store \<Rightarrow> (edit_key \<times> int) list" where
  "dirty_mutables s = sort_key snd (q_dirty s)"

definition clear_mutable_dirty :: "edit_key \<Rightarrow> int \<Rightarrow> edit_store \<Rightarrow> edit_store" where
  "clear_mutable_dirty k changed_at s = (if covers_stamp s k changed_at then acknowledge k changed_at s else s)"

definition clear_charge_mutable_dirty_if_source :: "int \<Rightarrow> int \<Rightarrow> ustr \<times> ustr \<times> int \<Rightarrow> edit_store \<Rightarrow> edit_store" where
  "clear_charge_mutable_dirty_if_source sid changed_at source s =
     (if charge_uploads s sid = Some source \<and> covers_stamp s (ChargeQ sid) changed_at then acknowledge (ChargeQ sid) changed_at s else s)"

definition adopt_confirmed :: "int \<Rightarrow> int \<Rightarrow> ustr list \<Rightarrow> (f64 \<times> ustr) option \<Rightarrow> edit_store \<Rightarrow> edit_error + edit_store" where
  "adopt_confirmed sid through tgs cst s =
     (let newer = newer_edits through (q_events s (ChargeQ sid))
      in bindR (ensure RateIntentOnCharge (list_all (\<lambda>e. case e of RateConfigEdit _ _ _ _ \<Rightarrow> False | _ \<Rightarrow> True) newer)) (\<lambda>_.
           let s1 = put_charge_tags sid (strip_reserved_tags (replay newer (btree_set tgs))) s
           in if list_ex (\<lambda>e. case e of CostOverride _ _ \<Rightarrow> True | _ \<Rightarrow> False) newer then Inr s1
              else bindR (cost_value cst) (\<lambda>_. Inr (put_charge_cost sid cst s1))))"

definition receipt_stale :: "edit_store \<Rightarrow> (ustr \<times> ustr) option \<Rightarrow> bool" where
  "receipt_stale s receipt = (case receipt of None \<Rightarrow> False | Some (k, expected) \<Rightarrow> meta s k \<noteq> Some expected)"

definition drop_receipt :: "(ustr \<times> ustr) option \<Rightarrow> edit_store \<Rightarrow> edit_store" where
  "drop_receipt receipt s = (case receipt of None \<Rightarrow> s | Some (k, _) \<Rightarrow> s\<lparr>meta := (meta s)(k := None)\<rparr>)"

definition confirm_charge_mutable_push_with_receipt ::
  "int \<Rightarrow> int \<Rightarrow> ustr \<times> ustr \<times> int \<Rightarrow> ustr list \<Rightarrow> (f64 \<times> ustr) option \<Rightarrow> (ustr \<times> ustr) option \<Rightarrow> edit_store
     \<Rightarrow> edit_error + edit_store \<times> bool" where
  "confirm_charge_mutable_push_with_receipt sid through source tgs cst receipt s =
     (if receipt_stale s receipt then Inr (s, False)
      else if charge_uploads s sid \<noteq> Some source \<or> \<not> covers_stamp s (ChargeQ sid) through then Inr (s, False)
      else bindR (if unknown_newer s (ChargeQ sid) through then Inr s else adopt_confirmed sid through tgs cst s) (\<lambda>s1.
             Inr (drop_receipt receipt (acknowledge (ChargeQ sid) through s1), True)))"

subsection \<open>Uploads and deletions of sessions\<close>

record upload_snapshot =
  us_tags :: "ustr list"
  us_cost :: "(f64 \<times> ustr) option"
  us_changed_at :: "int option"

definition charge_mutable_for_upload :: "edit_store \<Rightarrow> int \<Rightarrow> edit_error + upload_snapshot" where
  "charge_mutable_for_upload s sid =
     bindR (cost_value (charge_costs s sid)) (\<lambda>_.
       Inr \<lparr>us_tags = charge_tags s sid, us_cost = charge_costs s sid, us_changed_at = queued s (ChargeQ sid)\<rparr>)"

definition confirm_charge_upload :: "int \<Rightarrow> ustr \<Rightarrow> ustr option \<Rightarrow> int \<Rightarrow> int option \<Rightarrow> edit_store \<Rightarrow> edit_store \<times> bool" where
  "confirm_charge_upload sid cloud_id stored_key uploaded_at included s =
     (if delete_outbox s sid \<noteq> None then (s, False)
      else let clash = (case charge_uploads s sid of None \<Rightarrow> False
                          | Some (i, k, _) \<Rightarrow> i \<noteq> cloud_id \<or> (case stored_key of Some stored \<Rightarrow> k \<noteq> stored | None \<Rightarrow> False))
           in if clash then (s, False)
              else let s1 = (case charge_uploads s sid of Some _ \<Rightarrow> s
                              | None \<Rightarrow> s\<lparr>charge_uploads := (charge_uploads s)(sid \<mapsto> (cloud_id, (case stored_key of Some k \<Rightarrow> k | None \<Rightarrow> []), uploaded_at))\<rparr>)
                   in (case (stored_key, included) of
                         (Some _, Some through) \<Rightarrow>
                           if covers_stamp s1 (ChargeQ sid) through then acknowledge (ChargeQ sid) through s1 else s1
                       | _ \<Rightarrow> s1, True))"

definition backfill_charge_upload_key :: "int \<Rightarrow> ustr \<Rightarrow> int \<Rightarrow> ustr \<Rightarrow> edit_store \<Rightarrow> edit_error + edit_store \<times> bool" where
  "backfill_charge_upload_key sid cloud_id uploaded_at verified_key s =
     bindR (ensure EmptyVerifiedKey (verified_key \<noteq> [])) (\<lambda>_.
       case charge_uploads s sid of
         Some (i, k, stamp) \<Rightarrow>
           if i = cloud_id \<and> stamp = uploaded_at \<and> (k = [] \<or> k = verified_key) \<and> delete_outbox s sid = None
           then Inr (if k = [] then s\<lparr>charge_uploads := (charge_uploads s)(sid \<mapsto> (i, verified_key, stamp))\<rparr> else s, True)
           else Inr (s, False)
       | None \<Rightarrow> Inr (s, False))"

definition charge_upload_mark :: "int \<Rightarrow> ustr \<Rightarrow> ustr \<Rightarrow> int \<Rightarrow> edit_store \<Rightarrow> edit_store" where
  "charge_upload_mark sid cloud_id wrapped uploaded_at s =
     (if delete_outbox s sid = None then s\<lparr>charge_uploads := (charge_uploads s)(sid \<mapsto> (cloud_id, wrapped, uploaded_at))\<rparr> else s)"

definition charge_delete_ack :: "int \<Rightarrow> int \<Rightarrow> edit_store \<Rightarrow> edit_store" where
  "charge_delete_ack sid now s = s\<lparr>delete_outbox := (delete_outbox s)(sid := map_option (\<lambda>(i, _). (i, Some now)) (delete_outbox s sid))\<rparr>"

definition charge_delete_remove :: "int \<Rightarrow> edit_store \<Rightarrow> edit_store" where
  "charge_delete_remove sid s =
     (case delete_outbox s sid of Some (_, Some _) \<Rightarrow> s\<lparr>delete_outbox := (delete_outbox s)(sid := None)\<rparr> | _ \<Rightarrow> s)"

subsection \<open>Drives\<close>

text \<open>What the grouping and the stored routes say now: the windows of a drive and the gear runs of a clip.\<close>

record drive_view =
  dv_windows :: "ustr \<Rightarrow> clip_window list option"
  dv_runs :: "ustr \<Rightarrow> nat list option"

definition source_matches :: "scope_source \<Rightarrow> scope_source \<Rightarrow> bool" where
  "source_matches old new \<longleftrightarrow> sc_runs old = sc_runs new \<and>
     (case sc_id old of None \<Rightarrow> True | Some i \<Rightarrow> sc_id new = Some i) \<and>
     (case sc_key old of None \<Rightarrow> True | Some k \<Rightarrow> sc_key new = Some k) \<and>
     (case sc_uploaded_at old of Some a \<Rightarrow> if a > 0 then sc_uploaded_at new = Some a else True | None \<Rightarrow> True)"

definition scope_matches :: "scope \<Rightarrow> scope \<Rightarrow> bool" where
  "scope_matches old current \<longleftrightarrow> sc_version old = 1 \<and> sc_version current = 1 \<and> sc_windows old = sc_windows current \<and>
     length (sc_sources old) = length (sc_sources current) \<and>
     list_all (\<lambda>(file, o'). case map_of (sc_sources current) file of Some n \<Rightarrow> source_matches o' n | None \<Rightarrow> False) (sc_sources old)"

fun frames_of_runs :: "nat \<Rightarrow> nat list \<Rightarrow> edit_error + nat" where
  "frames_of_runs acc (g # n # rest) =
     (if n = 0 then Inl InvalidRun else if acc + n \<ge> 2 ^ 32 then Inl FrameOverflow else frames_of_runs (acc + n) rest)"
| "frames_of_runs acc _ = Inr acc"

definition capture_source :: "drive_view \<Rightarrow> edit_store \<Rightarrow> ustr \<Rightarrow> edit_error + (ustr \<times> scope_source)" where
  "capture_source view s file =
     (case (dv_runs view file, route_idents s file) of
        (Some runs, Some r) \<Rightarrow> Inr (file, \<lparr>sc_runs = runs, sc_id = ri_id r, sc_key = ri_key r, sc_uploaded_at = ri_uploaded_at r\<rparr>)
      | _ \<Rightarrow> Inl SourceMissing)"

definition check_window :: "drive_view \<Rightarrow> clip_window \<Rightarrow> edit_error + unit" where
  "check_window view w =
     bindR (frames_of_runs 0 (case dv_runs view (cw_file w) of Some r \<Rightarrow> r | None \<Rightarrow> [])) (\<lambda>n.
       ensure FrameWindowChanged (cw_total w = max n 1 \<and> cw_start w < cw_end w \<and> cw_end w \<le> max n 1))"

definition capture_scope_windows :: "drive_view \<Rightarrow> edit_store \<Rightarrow> clip_window list \<Rightarrow> edit_error + scope" where
  "capture_scope_windows view s windows =
     bindR (mapR (capture_source view s) (btree_set (map cw_file windows))) (\<lambda>sources.
     bindR (mapR (check_window view) windows) (\<lambda>_.
       Inr \<lparr>sc_version = 1, sc_windows = windows, sc_sources = sources\<rparr>))"

definition capture_drive_edit_scope :: "drive_view \<Rightarrow> edit_store \<Rightarrow> ustr \<Rightarrow> edit_error + scope option" where
  "capture_drive_edit_scope view s key =
     (case dv_windows view key of None \<Rightarrow> Inr None
      | Some windows \<Rightarrow> bindR (capture_scope_windows view s windows) (\<lambda>sc. Inr (Some sc)))"

definition scopes_agree :: "scope option \<Rightarrow> scope option \<Rightarrow> bool" where
  "scopes_agree previous current =
     (case (previous, current) of (Some o', Some n) \<Rightarrow> scope_matches o' n | (None, None) \<Rightarrow> True | _ \<Rightarrow> False)"

text \<open>The scope to store with an edit, or nothing for a queue from before scopes were recorded.\<close>

definition edit_scope :: "drive_view \<Rightarrow> ustr \<Rightarrow> edit_store \<Rightarrow> edit_error + scope option option" where
  "edit_scope view key s =
     (let captured = q_scope s key
      in if queued s (DriveQ key) = None \<or> captured \<noteq> None
         then bindR (capture_drive_edit_scope view s key) (\<lambda>current.
              bindR (ensure ScopeChanged (case captured of Some previous \<Rightarrow> scopes_agree previous current | None \<Rightarrow> True)) (\<lambda>_.
                Inr (Some current)))
         else Inr None)"

definition put_drive_tags :: "ustr \<Rightarrow> ustr list \<Rightarrow> edit_store \<Rightarrow> edit_store" where
  "put_drive_tags key tgs s = s\<lparr>drive_tags := (drive_tags s)(key := stored_tags tgs)\<rparr>"

fun add_missing :: "ustr list \<Rightarrow> ustr list \<Rightarrow> ustr list" where
  "add_missing known [] = known"
| "add_missing known (t # rest) = add_missing (if t \<in> set known then known else known @ [t]) rest"

definition keep_scope :: "ustr \<Rightarrow> scope option option \<Rightarrow> edit_store \<Rightarrow> edit_store" where
  "keep_scope key sc s =
     (case (sc, q_scope s key) of (Some x, None) \<Rightarrow> s\<lparr>q_scope := (q_scope s)(key \<mapsto> x)\<rparr> | _ \<Rightarrow> s)"

definition set_drive_tags_inner ::
  "drive_view \<Rightarrow> int \<Rightarrow> ustr \<Rightarrow> ustr list \<Rightarrow> bool \<Rightarrow> bool \<Rightarrow> edit_store \<Rightarrow> edit_error + edit_store" where
  "set_drive_tags_inner view now key tgs0 mark_dirty add_only s =
     (let before = drive_tags s key; tgs = (if add_only then add_missing before tgs0 else tgs0);
          was_queued = queued s (DriveQ key)
      in bindR (if mark_dirty then edit_scope view key s else Inr None) (\<lambda>sc.
           let s1 = put_drive_tags key tgs s
           in if mark_dirty
              then bindR (mark_mutable_dirty_at (DriveQ key) now s1) (\<lambda>s2.
                   bindR (record_edit (DriveQ key) was_queued (tag_edit before tgs) s2) (\<lambda>s3. Inr (keep_scope key sc s3)))
              else Inr s1))"

record verified_key =
  vk_file :: ustr
  vk_route_id :: ustr
  vk_expected :: "ustr option"
  vk_uploaded_at :: int
  vk_wrapped :: ustr

definition check_verified :: "edit_store \<Rightarrow> verified_key \<Rightarrow> edit_error + unit" where
  "check_verified s v =
     bindR (ensure RouteIdentityChanged (case route_idents s (vk_file v) of None \<Rightarrow> False
         | Some r \<Rightarrow> ri_id r = Some (vk_route_id v) \<and> ri_key r = vk_expected v \<and> ri_uploaded_at r = Some (vk_uploaded_at v) \<and>
                    vk_uploaded_at v > 0)) (\<lambda>_.
       ensure RouteKeyChanged (vk_wrapped v \<noteq> [] \<and> (case vk_expected v of None \<Rightarrow> True | Some k \<Rightarrow> k = vk_wrapped v)))"

text \<open>Every row that is written moves the clock of the sources, by the trigger of the table.\<close>

definition install_key :: "edit_store \<Rightarrow> verified_key \<Rightarrow> edit_store" where
  "install_key s v =
     (case route_idents s (vk_file v) of
        Some r \<Rightarrow> if ri_key r = None
                  then s\<lparr>route_idents := (route_idents s)(vk_file v \<mapsto> r\<lparr>ri_key := Some (vk_wrapped v)\<rparr>), source_clock := source_clock s + 1\<rparr>
                  else s
      | None \<Rightarrow> s)"

definition install_verified_route_keys :: "verified_key list \<Rightarrow> edit_store \<Rightarrow> edit_error + edit_store" where
  "install_verified_route_keys sources s =
     bindR (mapR (check_verified s) sources) (\<lambda>_. Inr (foldl install_key s sources))"

definition project_drive :: "edit_store \<Rightarrow> ustr \<times> ustr list \<Rightarrow> edit_store" where
  "project_drive s d = (if queued s (DriveQ (fst d)) \<noteq> None then s else put_drive_tags (fst d) (snd d) s)"

definition apply_projected_drive_tags ::
  "int \<Rightarrow> verified_key list \<Rightarrow> (ustr \<times> ustr list) list \<Rightarrow> edit_store \<Rightarrow> edit_error + edit_store" where
  "apply_projected_drive_tags source_revision sources drives s =
     bindR (ensure SourcesChanged (source_clock s = source_revision)) (\<lambda>_.
     bindR (install_verified_route_keys sources s) (\<lambda>s1. Inr (foldl project_drive s1 drives)))"

definition confirm_drive_mutable_push_with_projection ::
  "ustr \<Rightarrow> int \<Rightarrow> int \<Rightarrow> ustr list \<Rightarrow> verified_key list \<Rightarrow> (ustr \<times> ustr) option \<Rightarrow> (ustr \<times> ustr list) list \<Rightarrow> edit_store
     \<Rightarrow> edit_error + edit_store \<times> bool" where
  "confirm_drive_mutable_push_with_projection key through source_revision confirmed sources receipt current_drives s =
     (if source_clock s \<noteq> source_revision \<or> receipt_stale s receipt \<or> \<not> covers_stamp s (DriveQ key) through then Inr (s, False)
      else bindR (install_verified_route_keys sources s) (\<lambda>s1.
             let s2 = (if unknown_newer s1 (DriveQ key) through then s1
                       else put_drive_tags key (replay (newer_edits through (q_events s1 (DriveQ key))) (btree_set confirmed)) s1);
                 s3 = foldl project_drive (acknowledge (DriveQ key) through s2) current_drives
             in Inr (drop_receipt receipt s3, True)))"

definition drive_mutable_for_sync :: "edit_store \<Rightarrow> ustr \<Rightarrow> int \<Rightarrow> (ustr list \<times> intent) option" where
  "drive_mutable_for_sync s key changed_at =
     (if queued s (DriveQ key) = Some changed_at then Some (drive_tags s key, read_intent s (DriveQ key)) else None)"

section \<open>All interleavings\<close>

text \<open>
  The store, with the values of each item that the device and the cloud last agreed on. Users edit, the
  cloud's values are pulled, and publications are confirmed late, in any order and with any answer.
\<close>

record agreed =
  ag_charge :: "int \<Rightarrow> ustr list"
  ag_cost :: "int \<Rightarrow> (f64 \<times> ustr) option"
  ag_drive :: "ustr \<Rightarrow> ustr list"

type_synonym edit_world = "edit_store \<times> agreed"

definition agree_drives :: "(ustr \<Rightarrow> int option) \<Rightarrow> (ustr \<times> ustr list) list \<Rightarrow> (ustr \<Rightarrow> ustr list) \<Rightarrow> ustr \<Rightarrow> ustr list" where
  "agree_drives q drives g = foldl (\<lambda>g d. if q (fst d) = None then g(fst d := snd d) else g) g drives"

inductive edit_step :: "edit_world \<Rightarrow> edit_world \<Rightarrow> bool" where
  tags_edited: "set_charge_tags now sid tgs s = Inr s' \<Longrightarrow> edit_step (s, a) (s', a)"
| tag_added: "add_charge_tag_bulk sessions tag s = Inr s' \<Longrightarrow> edit_step (s, a) (s', a)"
| cost_edited: "set_charge_cost now sid cst s = Inr s' \<Longrightarrow> edit_step (s, a) (s', a)"
| drive_edited: "set_drive_tags_inner view now key tgs True add_only s = Inr s' \<Longrightarrow> edit_step (s, a) (s', a)"
| charge_pulled: "apply_charge_mutable_from_sync sid i k tgs cst s = Inr s' \<Longrightarrow>
    edit_step (s, a) (s', if charge_uploads s sid \<noteq> None \<and> queued s (ChargeQ sid) = None
                          then a\<lparr>ag_charge := (ag_charge a)(sid := tgs), ag_cost := (ag_cost a)(sid := cst)\<rparr> else a)"
| drives_pulled: "apply_projected_drive_tags sr sources drives s = Inr s' \<Longrightarrow>
    edit_step (s, a) (s', a\<lparr>ag_drive := agree_drives (\<lambda>d. queued s (DriveQ d)) drives (ag_drive a)\<rparr>)"
| charge_confirmed: "confirm_charge_mutable_push_with_receipt sid through source tgs cst receipt s = Inr (s', True) \<Longrightarrow>
    edit_step (s, a) (s', if unknown_newer s (ChargeQ sid) through then a
                          else a\<lparr>ag_charge := (ag_charge a)(sid := tgs), ag_cost := (ag_cost a)(sid := cst)\<rparr>)"
| drive_confirmed: "confirm_drive_mutable_push_with_projection key through sr tgs sources receipt drives s = Inr (s', True) \<Longrightarrow>
    edit_step (s, a) (s', a\<lparr>ag_drive := agree_drives (\<lambda>d. queued s' (DriveQ d)) drives
       (if unknown_newer s (DriveQ key) through then ag_drive a else (ag_drive a)(key := tgs))\<rparr>)"
| key_backfilled: "backfill_charge_upload_key sid i at0 k s = Inr (s', b) \<Longrightarrow> edit_step (s, a) (s', a)"
| receipt_kept: "edit_step (s, a) (s\<lparr>meta := m\<rparr>, a)"
| sources_moved: "edit_step (s, a) (s\<lparr>route_idents := ri, source_clock := c\<rparr>, a)"

text \<open>A store as an earlier version left it: queued items without recorded operations.\<close>

definition edit_init :: "edit_world \<Rightarrow> bool" where
  "edit_init w = (case w of (s, a) \<Rightarrow> q_clock s = None \<and> q_state s = (\<lambda>_. None) \<and> q_events s = (\<lambda>_. []) \<and> q_scope s = (\<lambda>_. None) \<and>
     charge_tags s = ag_charge a \<and> charge_costs s = ag_cost a \<and> drive_tags s = ag_drive a)"

subsection \<open>The invariant\<close>

definition queue_ok :: "edit_store \<Rightarrow> bool" where
  "queue_ok s \<longleftrightarrow>
     (\<forall>k stamp. queued s k = Some stamp \<longrightarrow> stamp \<le> last_stamp s) \<and>
     (\<forall>k. sorted_wrt (<) (map fst (q_events s k))) \<and>
     (\<forall>k. \<forall>e \<in> set (q_events s k). \<exists>stamp. queued s k = Some stamp \<and> fst e \<le> stamp) \<and>
     (\<forall>k. q_state s k \<noteq> None \<longrightarrow> queued s k \<noteq> None)"

definition tracked :: "edit_store \<Rightarrow> edit_key \<Rightarrow> bool" where
  "tracked s k \<longleftrightarrow> queued s k = None \<or> q_state s k = Some None"

text \<open>Tags that a user gave: reserved names are derived from the recording and never stored.\<close>

definition own_tags :: "ustr list \<Rightarrow> ustr set" where
  "own_tags tgs = {t \<in> set tgs. t \<noteq> [] \<and> \<not> is_reserved_tag t}"

definition named_tags :: "ustr list \<Rightarrow> ustr set" where
  "named_tags tgs = {t \<in> set tgs. t \<noteq> []}"

definition last_cost :: "edit list \<Rightarrow> json option" where
  "last_cost es = fold (\<lambda>e acc. case e of CostOverride _ after \<Rightarrow> Some after | _ \<Rightarrow> acc) es None"

definition pending :: "edit_store \<Rightarrow> edit_key \<Rightarrow> edit list" where
  "pending s k = map snd (q_events s k)"

definition charge_claim :: "edit_store \<Rightarrow> agreed \<Rightarrow> int \<Rightarrow> bool" where
  "charge_claim s a sid \<longleftrightarrow>
     own_tags (charge_tags s sid) = own_tags (replay (pending s (ChargeQ sid)) (ag_charge a sid)) \<and>
     (case last_cost (pending s (ChargeQ sid)) of None \<Rightarrow> charge_costs s sid = ag_cost a sid
      | Some j \<Rightarrow> cost_value (charge_costs s sid) = Inr j)"

definition drive_claim :: "edit_store \<Rightarrow> agreed \<Rightarrow> ustr \<Rightarrow> bool" where
  "drive_claim s a key \<longleftrightarrow> named_tags (drive_tags s key) = named_tags (replay (pending s (DriveQ key)) (ag_drive a key))"

definition cost_backed :: "edit_store \<Rightarrow> int \<Rightarrow> bool" where
  "cost_backed s sid = (case last_cost (pending s (ChargeQ sid)) of None \<Rightarrow> True | Some j \<Rightarrow> cost_value (charge_costs s sid) = Inr j)"

definition edit_ok :: "edit_world \<Rightarrow> bool" where
  "edit_ok w = (case w of (s, a) \<Rightarrow> queue_ok s \<and> (\<forall>sid. cost_backed s sid) \<and>
     (\<forall>sid. tracked s (ChargeQ sid) \<longrightarrow> charge_claim s a sid) \<and> (\<forall>key. tracked s (DriveQ key) \<longrightarrow> drive_claim s a key))"

lemma edit_okI:
  assumes "queue_ok s" "\<And>x. cost_backed s x" "\<And>x. tracked s (ChargeQ x) \<Longrightarrow> charge_claim s a x"
    "\<And>x. tracked s (DriveQ x) \<Longrightarrow> drive_claim s a x"
  shows "edit_ok (s, a)"
  using assms by (auto simp: edit_ok_def)

lemma edit_okD:
  assumes "edit_ok (s, a)"
  shows "queue_ok s" "cost_backed s x" "tracked s (ChargeQ x) \<Longrightarrow> charge_claim s a x" "tracked s (DriveQ y) \<Longrightarrow> drive_claim s a y"
  using assms by (auto simp: edit_ok_def)

subsection \<open>Replaying\<close>

lemma stored_tags_simps [simp]: "own_tags (stored_tags tgs) = own_tags tgs" "named_tags (stored_tags tgs) = named_tags tgs"
  by (auto simp: own_tags_def named_tags_def stored_tags_def)

lemma replay_simps [simp]: "replay [] tgs = tgs" "replay (es @ es') tgs = replay es' (replay es tgs)"
    "replay [e] tgs = replay_edit e tgs"
  by (simp_all add: replay_def)

lemma visible_replay_edit:
  "set xs \<inter> V = set ys \<inter> V \<Longrightarrow> set (replay_edit e xs) \<inter> V = set (replay_edit e ys) \<inter> V"
  by (cases e) auto

lemma visible_replay: "set xs \<inter> V = set ys \<inter> V \<Longrightarrow> set (replay es xs) \<inter> V = set (replay es ys) \<inter> V"
proof (induction es arbitrary: xs ys)
  case (Cons e es)
  from Cons.IH [OF visible_replay_edit [OF Cons.prems]] show ?case by (simp add: replay_def)
qed simp

lemma own_tags_alt: "own_tags tgs = set tgs \<inter> {t. t \<noteq> [] \<and> \<not> is_reserved_tag t}"
  and named_tags_alt: "named_tags tgs = set tgs \<inter> {t. t \<noteq> []}"
  by (auto simp: own_tags_def named_tags_def)

lemma tag_edit_visible:
  assumes "V \<subseteq> {t. t \<noteq> []}" and "set xs \<inter> V = set before \<inter> V"
  shows "set (replay_edit (tag_edit before after) xs) \<inter> V = set after \<inter> V"
  using assms by (auto simp: tag_edit_def Let_def)

lemma own_tag_edit: "own_tags xs = own_tags before \<Longrightarrow> own_tags (replay_edit (tag_edit before after) xs) = own_tags after"
  unfolding own_tags_alt by (rule tag_edit_visible) auto

lemma named_tag_edit: "named_tags xs = named_tags before \<Longrightarrow> named_tags (replay_edit (tag_edit before after) xs) = named_tags after"
  unfolding named_tags_alt by (rule tag_edit_visible) auto

lemma last_cost_snoc: "last_cost (es @ [e]) = (case e of CostOverride _ after \<Rightarrow> Some after | _ \<Rightarrow> last_cost es)"
  by (cases e) (simp_all add: last_cost_def)

lemma last_cost_None: "last_cost es = None \<longleftrightarrow> \<not> list_ex (\<lambda>e. case e of CostOverride _ _ \<Rightarrow> True | _ \<Rightarrow> False) es"
proof (induction es rule: rev_induct)
  case (snoc e es)
  then show ?case by (cases e) (auto simp: last_cost_snoc)
qed (simp add: last_cost_def)

lemma last_cost_append: "last_cost (es @ es') = (case last_cost es' of None \<Rightarrow> last_cost es | Some j \<Rightarrow> Some j)"
proof (induction es' rule: rev_induct)
  case (snoc e es')
  then show ?case unfolding append_assoc [symmetric] last_cost_snoc by (cases e) auto
qed (simp add: last_cost_def)

subsection \<open>Recording an edit\<close>

lemma fold_max_ge: "(x :: int) = y \<or> x \<in> set xs \<Longrightarrow> x \<le> fold max xs y"
proof (induction xs arbitrary: x y)
  case (Cons z xs)
  have m: "max z y \<le> fold max xs (max z y)" using Cons.IH [of "max z y" "max z y"] by simp
  show ?case
  proof (cases "x \<in> set xs")
    case True
    then show ?thesis using Cons.IH [of x "max z y"] by simp
  next
    case False
    then show ?thesis using Cons.prems m by auto
  qed
qed simp

lemma queued_assoc [simp]: "queued (s\<lparr>q_clock := c, q_dirty := assoc_insert k stamp (q_dirty s)\<rparr>) k' = (if k' = k then Some stamp else queued s k')"
  by (simp add: queued_def)

lemma mark_Inr:
  assumes "mark_mutable_dirty_at k now s = Inr s'"
  obtains c where "last_stamp s < c" "s' = s\<lparr>q_clock := Some c, q_dirty := assoc_insert k c (q_dirty s)\<rparr>"
proof (rule that)
  show "last_stamp s < max now (last_stamp s + 1)" by simp
  show "s' = s\<lparr>q_clock := Some (max now (last_stamp s + 1)), q_dirty := assoc_insert k (max now (last_stamp s + 1)) (q_dirty s)\<rparr>"
    using assms by (simp add: mark_mutable_dirty_at_def Let_def res_simps)
qed

definition with_edit :: "edit_key \<Rightarrow> int \<Rightarrow> edit \<Rightarrow> edit_store \<Rightarrow> edit_store" where
  "with_edit k c e s =
     s\<lparr>q_clock := Some c, q_dirty := assoc_insert k c (q_dirty s),
       q_state := (q_state s)(k := (case q_state s k of None \<Rightarrow> Some (queued s k) | Some l \<Rightarrow> Some l)),
       q_events := (q_events s)(k := q_events s k @ [(c, e)])\<rparr>"

lemma insort_last: "\<forall>y \<in> set ys. fst y < fst x \<Longrightarrow> insort_key fst x ys = ys @ [(x :: int \<times> 'a)]"
  by (induction ys) auto

lemma mark_and_record:
  assumes ok: "queue_ok s" and mark: "mark_mutable_dirty_at k now s = Inr s1" and q: "q = queued s k"
  obtains c where "last_stamp s < c" "record_edit k q e s1 = Inr (with_edit k c e s)"
proof -
  obtain c where c: "last_stamp s < c" and s1: "s1 = s\<lparr>q_clock := Some c, q_dirty := assoc_insert k c (q_dirty s)\<rparr>"
    by (rule mark_Inr [OF mark])
  have lt: "fst e' < c" if "e' \<in> set (q_events s k)" for e'
    using ok that c unfolding queue_ok_def by fastforce
  then have "c \<notin> fst ` set (q_events s k)" by force
  then have "record_edit k q e s1 = Inr (with_edit k c e s)"
    using insort_last [of "q_events s k" "(c, e)"] lt
    by (auto simp: record_edit_def s1 with_edit_def q ensure_def Let_def split: option.splits)
  with c show ?thesis by (rule that)
qed

lemma with_edit_simps [simp]:
  "queued (with_edit k c e s) k' = (if k' = k then Some c else queued s k')"
  "q_events (with_edit k c e s) = (q_events s)(k := q_events s k @ [(c, e)])"
  "q_state (with_edit k c e s) = (q_state s)(k := (case q_state s k of None \<Rightarrow> Some (queued s k) | Some l \<Rightarrow> Some l))"
  "last_stamp (with_edit k c e s) = c"
  "charge_tags (with_edit k c e s) = charge_tags s" "charge_costs (with_edit k c e s) = charge_costs s"
  "drive_tags (with_edit k c e s) = drive_tags s"
  by (simp_all add: with_edit_def queued_def last_stamp_def stamp_of_def)

lemma queue_ok_with_edit:
  assumes "queue_ok s" "last_stamp s < c"
  shows "queue_ok (with_edit k c e s)"
proof -
  have "fst e' < c" if "e' \<in> set (q_events s k')" for e' k' using assms that unfolding queue_ok_def by fastforce
  moreover have "stamp < c" if "queued s k' = Some stamp" for k' stamp using assms that unfolding queue_ok_def by fastforce
  ultimately show ?thesis using assms
    by (auto simp: queue_ok_def sorted_wrt_append intro: less_imp_le)
qed

text \<open>Only the queue and the values of the edited item matter to the claims.\<close>

lemma queue_ok_cong:
  assumes "q_clock s' = q_clock s" "q_dirty s' = q_dirty s" "q_state s' = q_state s" "q_events s' = q_events s"
  shows "queue_ok s' = queue_ok s"
  unfolding queue_ok_def queued_def last_stamp_def assms ..

lemma queue_ok_values [simp]:
  "queue_ok (put_charge_tags sid tgs s) = queue_ok s" "queue_ok (put_charge_cost sid cst s) = queue_ok s"
  "queue_ok (put_drive_tags key tgs s) = queue_ok s" "queue_ok (drop_receipt r s) = queue_ok s"
  "queue_ok (keep_scope key sc s) = queue_ok s" "queue_ok (s\<lparr>charge_uploads := u\<rparr>) = queue_ok s"
  by (rule queue_ok_cong;
      simp add: put_charge_tags_def put_charge_cost_def put_drive_tags_def drop_receipt_def keep_scope_def split: option.splits prod.splits)+

lemma tracked_with_edit: "tracked (with_edit k c e s) k \<Longrightarrow> queue_ok s \<Longrightarrow> tracked s k"
  by (auto simp: tracked_def split: option.splits)

lemma tracked_with_edit_other: "k' \<noteq> k \<Longrightarrow> tracked (with_edit k c e s) k' = tracked s k'"
  by (simp add: tracked_def)

lemma pending_with_edit [simp]: "pending (with_edit k c e s) k' = (if k' = k then pending s k @ [e] else pending s k')"
  by (simp add: pending_def)

lemma value_simps [simp]:
  "queued (put_charge_tags sid tgs s) = queued s" "q_state (put_charge_tags sid tgs s) = q_state s"
  "q_events (put_charge_tags sid tgs s) = q_events s" "charge_costs (put_charge_tags sid tgs s) = charge_costs s"
  "drive_tags (put_charge_tags sid tgs s) = drive_tags s" "charge_tags (put_charge_tags sid tgs s) = (charge_tags s)(sid := stored_tags tgs)"
  "queued (put_charge_cost sid cst s) = queued s" "q_state (put_charge_cost sid cst s) = q_state s"
  "q_events (put_charge_cost sid cst s) = q_events s" "charge_costs (put_charge_cost sid cst s) = (charge_costs s)(sid := cst)"
  "drive_tags (put_charge_cost sid cst s) = drive_tags s" "charge_tags (put_charge_cost sid cst s) = charge_tags s"
  "queued (put_drive_tags key tgs s) = queued s" "q_state (put_drive_tags key tgs s) = q_state s"
  "q_events (put_drive_tags key tgs s) = q_events s" "charge_costs (put_drive_tags key tgs s) = charge_costs s"
  "drive_tags (put_drive_tags key tgs s) = (drive_tags s)(key := stored_tags tgs)" "charge_tags (put_drive_tags key tgs s) = charge_tags s"
  "last_stamp (put_charge_tags sid tgs s) = last_stamp s" "last_stamp (put_charge_cost sid cst s) = last_stamp s"
  "last_stamp (put_drive_tags key tgs s) = last_stamp s"
  "charge_uploads (put_charge_tags sid tgs s) = charge_uploads s" "charge_uploads (put_charge_cost sid cst s) = charge_uploads s"
  by (simp_all add: put_charge_tags_def put_charge_cost_def put_drive_tags_def queued_def last_stamp_def fun_eq_iff)

lemma put_queue_simps [simp]:
  "q_clock (put_charge_tags sid tgs s) = q_clock s" "q_dirty (put_charge_tags sid tgs s) = q_dirty s"
  "q_clock (put_charge_cost sid cst s) = q_clock s" "q_dirty (put_charge_cost sid cst s) = q_dirty s"
  "q_clock (put_drive_tags key tgs s) = q_clock s" "q_dirty (put_drive_tags key tgs s) = q_dirty s"
  by (simp_all add: put_charge_tags_def put_charge_cost_def put_drive_tags_def)

lemma tag_edit_no_cost [simp]: "(case tag_edit before after of CostOverride x j \<Rightarrow> P x j | _ \<Rightarrow> Q) = Q"
  by (simp add: tag_edit_def Let_def)

lemma inert_simps [simp]:
  "queued (drop_receipt r s) = queued s" "q_state (drop_receipt r s) = q_state s" "q_events (drop_receipt r s) = q_events s"
  "charge_costs (drop_receipt r s) = charge_costs s" "drive_tags (drop_receipt r s) = drive_tags s" "charge_tags (drop_receipt r s) = charge_tags s"
  "queued (keep_scope key sc s) = queued s" "q_state (keep_scope key sc s) = q_state s" "q_events (keep_scope key sc s) = q_events s"
  "charge_costs (keep_scope key sc s) = charge_costs s" "drive_tags (keep_scope key sc s) = drive_tags s" "charge_tags (keep_scope key sc s) = charge_tags s"
  by (simp_all add: drop_receipt_def keep_scope_def queued_def fun_eq_iff split: option.splits)

lemma edit_ok_cong:
  assumes "q_clock s' = q_clock s" "q_dirty s' = q_dirty s" "q_state s' = q_state s" "q_events s' = q_events s"
    "charge_tags s' = charge_tags s" "charge_costs s' = charge_costs s" "drive_tags s' = drive_tags s"
  shows "edit_ok (s', a) = edit_ok (s, a)"
proof -
  have "queued s' = queued s" by (simp add: queued_def assms fun_eq_iff)
  then show ?thesis unfolding edit_ok_def prod.case queue_ok_cong [OF assms(1-4)] tracked_def charge_claim_def drive_claim_def cost_backed_def pending_def assms
    by simp
qed

lemma tracked_cong: "queued s' k = queued s k \<Longrightarrow> q_state s' k = q_state s k \<Longrightarrow> tracked s' k = tracked s k"
  by (simp add: tracked_def)

lemma charge_claim_cong:
  assumes "charge_tags s' x = charge_tags s x" "charge_costs s' x = charge_costs s x" "q_events s' (ChargeQ x) = q_events s (ChargeQ x)"
    "ag_charge a' x = ag_charge a x" "ag_cost a' x = ag_cost a x"
  shows "charge_claim s' a' x = charge_claim s a x"
  unfolding charge_claim_def pending_def assms ..

lemma cost_backed_cong:
  assumes "charge_costs s' x = charge_costs s x" "q_events s' (ChargeQ x) = q_events s (ChargeQ x)"
  shows "cost_backed s' x = cost_backed s x"
  unfolding cost_backed_def pending_def assms ..

lemma drive_claim_cong:
  assumes "drive_tags s' x = drive_tags s x" "q_events s' (DriveQ x) = q_events s (DriveQ x)" "ag_drive a' x = ag_drive a x"
  shows "drive_claim s' a' x = drive_claim s a x"
  unfolding drive_claim_def pending_def assms ..

lemma charge_edit_ok:
  assumes ok: "edit_ok (s, a)" and c: "last_stamp s < c" and s': "s' = with_edit (ChargeQ sid) c e s1"
    and same: "q_clock s1 = q_clock s" "q_dirty s1 = q_dirty s" "q_state s1 = q_state s" "q_events s1 = q_events s" "drive_tags s1 = drive_tags s"
      "\<And>x. x \<noteq> sid \<Longrightarrow> charge_tags s1 x = charge_tags s x \<and> charge_costs s1 x = charge_costs s x"
    and tags: "\<And>tgs. own_tags tgs = own_tags (charge_tags s sid) \<Longrightarrow> own_tags (replay_edit e tgs) = own_tags (charge_tags s1 sid)"
    and cost: "case e of CostOverride _ j \<Rightarrow> cost_value (charge_costs s1 sid) = Inr j | _ \<Rightarrow> charge_costs s1 sid = charge_costs s sid"
  shows "edit_ok (s', a)"
proof -
  have q: "queued s1 = queued s" by (simp add: queued_def same fun_eq_iff)
  have ls: "last_stamp s1 = last_stamp s" unfolding last_stamp_def same ..
  have qo: "queue_ok s1" using ok queue_ok_cong [OF same(1-4)] by (simp add: edit_ok_def)
  have "queue_ok s'" unfolding s' by (rule queue_ok_with_edit [OF qo]) (simp add: ls c)
  moreover have "cost_backed s' x" for x
  proof (cases "x = sid")
    case True
    have "cost_backed s sid" using ok by (simp add: edit_ok_def)
    then show ?thesis using cost by (cases e) (auto simp: True s' cost_backed_def pending_def same last_cost_snoc split: option.splits)
  next
    case False
    have "cost_backed s' x = cost_backed s x" using same(6) [OF False] by (intro cost_backed_cong) (simp_all add: s' same False)
    then show ?thesis using ok by (simp add: edit_ok_def)
  qed
  moreover have "charge_claim s' a x" if t: "tracked s' (ChargeQ x)" for x
  proof (cases "x = sid")
    case True
    have "tracked s (ChargeQ sid)" using tracked_with_edit [OF t [unfolded s' True] qo] by (simp add: tracked_def q same)
    then have old: "charge_claim s a sid" using ok by (simp add: edit_ok_def)
    have "own_tags (replay (pending s' (ChargeQ sid)) (ag_charge a sid)) = own_tags (charge_tags s' sid)"
      using old tags by (simp add: s' charge_claim_def pending_def same)
    then show ?thesis using old cost unfolding True
      by (cases e) (auto simp: s' charge_claim_def pending_def same last_cost_snoc split: option.splits)
  next
    case False
    then have "tracked s' (ChargeQ x) = tracked s (ChargeQ x)" "charge_claim s' a x = charge_claim s a x"
      using same(6) [OF False] by (intro tracked_cong charge_claim_cong; simp add: s' q same)+
    then show ?thesis using t ok by (simp add: edit_ok_def)
  qed
  moreover have "drive_claim s' a x" if t: "tracked s' (DriveQ x)" for x
  proof -
    have "tracked s' (DriveQ x) = tracked s (DriveQ x)" "drive_claim s' a x = drive_claim s a x"
      by (intro tracked_cong drive_claim_cong; simp add: s' q same)+
    then show ?thesis using t ok by (simp add: edit_ok_def)
  qed
  ultimately show ?thesis by (rule edit_okI)
qed

lemma drive_edit_ok:
  assumes ok: "edit_ok (s, a)" and c: "last_stamp s < c"
  shows "edit_ok (with_edit (DriveQ key) c (tag_edit (drive_tags s key) tgs) (put_drive_tags key tgs s), a)"
proof -
  define s1 e where "s1 = put_drive_tags key tgs s" and "e = tag_edit (drive_tags s key) tgs"
  define s' where "s' = with_edit (DriveQ key) c e s1"
  have s1: "queued s1 = queued s" "q_state s1 = q_state s" "q_events s1 = q_events s" "charge_tags s1 = charge_tags s"
    "charge_costs s1 = charge_costs s" "last_stamp s1 = last_stamp s" "queue_ok s1" "drive_tags s1 = (drive_tags s)(key := stored_tags tgs)"
    using ok by (simp_all add: s1_def edit_ok_def)
  have "queue_ok s'" unfolding s'_def by (rule queue_ok_with_edit [OF s1(7)]) (simp add: s1 c)
  moreover have "cost_backed s' x" for x
  proof -
    have "cost_backed s' x = cost_backed s x" by (rule cost_backed_cong) (simp_all add: s'_def s1)
    then show ?thesis using ok by (simp add: edit_ok_def)
  qed
  moreover have "charge_claim s' a x" if t: "tracked s' (ChargeQ x)" for x
  proof -
    have "tracked s' (ChargeQ x) = tracked s (ChargeQ x)" "charge_claim s' a x = charge_claim s a x"
      by (intro tracked_cong charge_claim_cong; simp add: s'_def s1)+
    then show ?thesis using t ok by (simp add: edit_ok_def)
  qed
  moreover have "drive_claim s' a x" if t: "tracked s' (DriveQ x)" for x
  proof (cases "x = key")
    case True
    have "tracked s (DriveQ key)" using tracked_with_edit [OF t [unfolded True s'_def] s1(7)] by (simp add: tracked_def s1)
    then have "drive_claim s a key" using ok by (simp add: edit_ok_def)
    then show ?thesis by (simp add: True drive_claim_def pending_def named_tag_edit s'_def s1 e_def)
  next
    case False
    then have "tracked s' (DriveQ x) = tracked s (DriveQ x)" "drive_claim s' a x = drive_claim s a x"
      by (intro tracked_cong drive_claim_cong; simp add: s'_def s1)+
    then show ?thesis using t ok by (simp add: edit_ok_def)
  qed
  ultimately have "edit_ok (s', a)" by (rule edit_okI)
  then show ?thesis by (simp add: s'_def s1_def e_def)
qed

subsection \<open>Edits of the user\<close>

lemma set_charge_tags_ok:
  assumes "edit_ok (s, a)" and "set_charge_tags now sid tgs s = Inr s'"
  shows "edit_ok (s', a)"
proof -
  let ?s1 = "put_charge_tags sid tgs s"
  have qo: "queue_ok ?s1" using assms(1) by (simp add: edit_ok_def)
  from assms(2) obtain s2 where m: "mark_mutable_dirty_at (ChargeQ sid) now ?s1 = Inr s2"
    and r: "record_edit (ChargeQ sid) (queued s (ChargeQ sid)) (tag_edit (charge_tags s sid) tgs) s2 = Inr s'"
    by (auto simp: set_charge_tags_def set_charge_tags_inner_def Let_def res_simps)
  have q: "queued s (ChargeQ sid) = queued ?s1 (ChargeQ sid)" by simp
  obtain c where c: "last_stamp ?s1 < c" and s': "s' = with_edit (ChargeQ sid) c (tag_edit (charge_tags s sid) tgs) ?s1"
    using mark_and_record [OF qo m q, of "tag_edit (charge_tags s sid) tgs"] r by auto
  show ?thesis
    by (rule charge_edit_ok [OF assms(1) _ s']) (use c in \<open>simp_all add: own_tag_edit\<close>)
qed

lemma own_tags_add: "own_tags (btree_set (before @ [t])) = own_tags (if t \<in> set before then before else before @ [t])"
  by (auto simp: own_tags_def)

lemma add_charge_tag_ok:
  assumes "edit_ok (s, a)" and "add_charge_tag now tag sid s = Inr s'"
  shows "edit_ok (s', a)"
proof -
  let ?before = "charge_tags s sid" and ?s1 = "s\<lparr>charge_tags := (charge_tags s)(sid := btree_set (charge_tags s sid @ [tag]))\<rparr>"
  let ?e = "tag_edit ?before (if tag \<in> set ?before then ?before else ?before @ [tag])"
  have qo: "queue_ok ?s1" using assms(1) queue_ok_cong [of ?s1 s] by (simp add: edit_ok_def)
  from assms(2) obtain s2 where m: "mark_mutable_dirty_at (ChargeQ sid) now ?s1 = Inr s2"
    and r: "record_edit (ChargeQ sid) (queued s (ChargeQ sid)) ?e s2 = Inr s'"
    by (auto simp: add_charge_tag_def Let_def res_simps)
  have q: "queued s (ChargeQ sid) = queued ?s1 (ChargeQ sid)" by (simp add: queued_def)
  obtain c where c: "last_stamp ?s1 < c" and s': "s' = with_edit (ChargeQ sid) c ?e ?s1"
    using mark_and_record [OF qo m q, of ?e] r by auto
  have "own_tags (replay_edit ?e xs) = own_tags (charge_tags ?s1 sid)" if "own_tags xs = own_tags ?before" for xs
    using own_tag_edit [OF that, of "if tag \<in> set ?before then ?before else ?before @ [tag]"] own_tags_add [of ?before tag] by simp
  moreover have "case ?e of CostOverride _ j \<Rightarrow> cost_value (charge_costs ?s1 sid) = Inr j | _ \<Rightarrow> charge_costs ?s1 sid = charge_costs s sid"
    by simp
  moreover have "last_stamp s < c" using c by (simp add: last_stamp_def)
  ultimately show ?thesis by (intro charge_edit_ok [OF assms(1) _ s']) simp_all
qed

lemma add_tag_loop_ok: "edit_ok (s, a) \<Longrightarrow> add_tag_loop tag sessions s = Inr s' \<Longrightarrow> edit_ok (s', a)"
proof (induction tag sessions s rule: add_tag_loop.induct)
  case (2 tag sid now rest s)
  from 2(3) obtain s1 where "add_charge_tag now tag sid s = Inr s1" "add_tag_loop tag rest s1 = Inr s'" by (auto simp: res_simps)
  then show ?case using 2(1) add_charge_tag_ok [OF 2(2)] by blast
qed simp

lemma set_charge_cost_ok:
  assumes "edit_ok (s, a)" and "set_charge_cost now sid cst s = Inr s'"
  shows "edit_ok (s', a)"
proof -
  let ?s1 = "put_charge_cost sid cst s"
  have qo: "queue_ok ?s1" using assms(1) by (simp add: edit_ok_def)
  from assms(2) obtain s2 before after where v: "cost_value cst = Inr after" and m: "mark_mutable_dirty_at (ChargeQ sid) now ?s1 = Inr s2"
    and r: "record_edit (ChargeQ sid) (queued s (ChargeQ sid)) (CostOverride before after) s2 = Inr s'"
    by (auto simp: set_charge_cost_def set_charge_cost_inner_def Let_def res_simps)
  have q: "queued s (ChargeQ sid) = queued ?s1 (ChargeQ sid)" by simp
  obtain c where c: "last_stamp ?s1 < c" and s': "s' = with_edit (ChargeQ sid) c (CostOverride before after) ?s1"
    using mark_and_record [OF qo m q, of "CostOverride before after"] r by auto
  show ?thesis
    by (rule charge_edit_ok [OF assms(1) _ s']) (use c v in simp_all)
qed

lemma set_drive_tags_ok:
  assumes "edit_ok (s, a)" and "set_drive_tags_inner view now key tgs0 True add_only s = Inr s'"
  shows "edit_ok (s', a)"
proof -
  define tgs where "tgs = (if add_only then add_missing (drive_tags s key) tgs0 else tgs0)"
  let ?s1 = "put_drive_tags key tgs s"
  have qo: "queue_ok ?s1" using assms(1) by (simp add: edit_ok_def)
  from assms(2) obtain s2 s3 sc where m: "mark_mutable_dirty_at (DriveQ key) now ?s1 = Inr s2"
    and r: "record_edit (DriveQ key) (queued s (DriveQ key)) (tag_edit (drive_tags s key) tgs) s2 = Inr s3" and s': "s' = keep_scope key sc s3"
    by (auto simp: set_drive_tags_inner_def Let_def res_simps tgs_def)
  have q: "queued s (DriveQ key) = queued ?s1 (DriveQ key)" by simp
  obtain c where c: "last_stamp ?s1 < c" and s3: "s3 = with_edit (DriveQ key) c (tag_edit (drive_tags s key) tgs) ?s1"
    using mark_and_record [OF qo m q, of "tag_edit (drive_tags s key) tgs"] r by auto
  have "edit_ok (s3, a)" unfolding s3 by (rule drive_edit_ok [OF assms(1)]) (use c in simp)
  moreover have "edit_ok (keep_scope key sc s3, a) = edit_ok (s3, a)"
    by (rule edit_ok_cong) (simp_all add: keep_scope_def split: option.splits)
  ultimately show ?thesis by (simp add: s')
qed

subsection \<open>Acknowledgements\<close>

lemma queued_drop: "map_of (filter (\<lambda>(k', _). k' \<noteq> k) d) k' = (if k' = k then None else map_of d k')"
  by (induction d) auto

lemma stamp_of_ge: "map_of d k = Some stamp \<Longrightarrow> stamp \<le> stamp_of None d"
proof (cases d)
  case (Cons x xs)
  assume "map_of d k = Some stamp"
  then have "stamp = snd x \<or> stamp \<in> set (map snd xs)"
    using map_of_SomeD [of d k stamp] by (force simp: Cons)
  then show ?thesis using fold_max_ge [of stamp "snd x" "map snd xs"] by (cases x) (simp add: Cons stamp_of_def)
qed simp

lemma ack_simps:
  assumes "queue_ok s" "covers_stamp s k through"
  shows "queued (acknowledge k through s) = (queued s)(k := if queued s k = Some through then None else queued s k)"
    and "q_events (acknowledge k through s) = (q_events s)(k := filter (\<lambda>(stamp, _). \<not> stamp \<le> through) (q_events s k))"
    and "q_state (acknowledge k through s) = (q_state s)(k := if queued s k = Some through then None
           else map_option (\<lambda>l. case l of Some stamp \<Rightarrow> if stamp \<le> through then None else Some stamp | None \<Rightarrow> None) (q_state s k))"
    and "charge_tags (acknowledge k through s) = charge_tags s" "charge_costs (acknowledge k through s) = charge_costs s"
      "drive_tags (acknowledge k through s) = drive_tags s" "q_clock (acknowledge k through s) = q_clock s"
proof -
  have r: "queued (retire k through s) = queued s" by (simp add: retire_def queued_def fun_eq_iff)
  have "filter (\<lambda>(stamp, _). \<not> stamp \<le> through) (q_events s k) = []" if "queued s k = Some through"
    using assms(1) that unfolding queue_ok_def by (fastforce simp: filter_empty_conv)
  then show "q_events (acknowledge k through s) = (q_events s)(k := filter (\<lambda>(stamp, _). \<not> stamp \<le> through) (q_events s k))"
    using r by (auto simp: acknowledge_def drop_dirty_def) (auto simp: retire_def)
qed (auto simp: acknowledge_def drop_dirty_def retire_def queued_def queued_drop fun_eq_iff)

lemma queue_ok_ack:
  assumes "queue_ok s" "covers_stamp s k through"
  shows "queue_ok (acknowledge k through s)"
proof -
  note a = ack_simps [OF assms]
  have "stamp \<le> last_stamp (acknowledge k through s)" if "queued (acknowledge k through s) k' = Some stamp" for k' stamp
  proof (cases "q_clock s")
    case None
    then show ?thesis using that by (simp add: last_stamp_def a(7) queued_def stamp_of_ge)
  next
    case (Some v)
    have "queued s k' = Some stamp" using that by (simp add: a(1) split: if_splits)
    then show ?thesis using assms(1) Some by (simp add: queue_ok_def last_stamp_def a(7) stamp_of_def)
  qed
  moreover have "\<exists>stamp. queued (acknowledge k through s) k' = Some stamp \<and> fst e \<le> stamp" if "e \<in> set (q_events (acknowledge k through s) k')" for k' e
  proof -
    have e: "e \<in> set (q_events s k')" and new: "k' = k \<Longrightarrow> \<not> fst e \<le> through" using that by (auto simp: a(2) split: if_splits)
    from e obtain stamp where st: "queued s k' = Some stamp" "fst e \<le> stamp" using assms(1) unfolding queue_ok_def by blast
    then have "queued (acknowledge k through s) k' = Some stamp" using new by (auto simp: a(1))
    with st(2) show ?thesis by blast
  qed
  moreover have "sorted_wrt (<) (map fst (q_events (acknowledge k through s) k'))" for k'
  proof -
    have "sorted_wrt (<) (map fst (q_events s k'))" using assms(1) by (simp add: queue_ok_def)
    then show ?thesis by (auto simp: a(2) sorted_wrt_map intro: sorted_wrt_filter)
  qed
  moreover have "queued (acknowledge k through s) k' \<noteq> None" if "q_state (acknowledge k through s) k' \<noteq> None" for k'
  proof (cases "k' = k")
    case True
    then show ?thesis using that assms by (auto simp: a(1,3) covers_stamp_def queue_ok_def split: if_splits option.splits)
  next
    case False
    then show ?thesis using that assms(1) by (simp add: a(1,3) queue_ok_def)
  qed
  ultimately show ?thesis unfolding queue_ok_def by blast
qed

lemma newer_pending:
  assumes "queue_ok s" "covers_stamp s k through"
  shows "pending (acknowledge k through s) k = newer_edits through (q_events s k)"
  by (simp add: pending_def newer_edits_def ack_simps [OF assms])

text \<open>The newer edits are the last ones.\<close>

lemma newer_suffix:
  assumes "sorted_wrt (<) (map fst es)"
  shows "\<exists>older. map snd es = older @ newer_edits through es"
  using assms
proof (induction es)
  case (Cons e es)
  show ?case
  proof (cases "fst e \<le> through")
    case True
    then show ?thesis using Cons by (auto simp: newer_edits_def split: prod.splits)
  next
    case False
    then have "\<forall>x \<in> set es. \<not> fst x \<le> through" using Cons.prems by auto
    then have "filter (\<lambda>(stamp, _). \<not> stamp \<le> through) es = es" by (auto simp: filter_id_conv)
    then have "newer_edits through es = map snd es" by (simp add: newer_edits_def)
    then have "newer_edits through (e # es) = map snd (e # es)" using False by (cases e) (simp add: newer_edits_def)
    then show ?thesis by (intro exI [of _ "[]"]) simp
  qed
qed (simp add: newer_edits_def)

lemma tracked_ack:
  assumes "\<not> unknown_newer s k through" "covers_stamp s k through" "queue_ok s"
  shows "tracked (acknowledge k through s) k"
  using assms(1,2) by (auto simp: tracked_def ack_simps [OF assms(3,2)] unknown_newer_def covers_stamp_def split: option.splits if_splits)

lemma untracked_ack:
  assumes "unknown_newer s k through" "covers_stamp s k through" "queue_ok s"
  shows "\<not> tracked (acknowledge k through s) k"
  using assms(1,2) by (auto simp: tracked_def ack_simps [OF assms(3,2)] unknown_newer_def covers_stamp_def split: option.splits if_splits)

text \<open>Acknowledging one item, with its value set before.\<close>

lemma ack_ok:
  assumes ok: "edit_ok (s, a)" and cov: "covers_stamp s k through"
    and same: "q_clock s1 = q_clock s" "q_dirty s1 = q_dirty s" "q_state s1 = q_state s" "q_events s1 = q_events s"
    and other: "\<And>x. ChargeQ x \<noteq> k \<Longrightarrow> charge_tags s1 x = charge_tags s x \<and> charge_costs s1 x = charge_costs s x \<and>
        ag_charge a' x = ag_charge a x \<and> ag_cost a' x = ag_cost a x"
      "\<And>x. DriveQ x \<noteq> k \<Longrightarrow> drive_tags s1 x = drive_tags s x \<and> ag_drive a' x = ag_drive a x"
    and charge: "\<And>x. k = ChargeQ x \<Longrightarrow> cost_backed (acknowledge k through s1) x \<and>
        (tracked (acknowledge k through s1) k \<longrightarrow> charge_claim (acknowledge k through s1) a' x)"
    and drive: "\<And>x. k = DriveQ x \<Longrightarrow> tracked (acknowledge k through s1) k \<longrightarrow> drive_claim (acknowledge k through s1) a' x"
  shows "edit_ok (acknowledge k through s1, a')"
proof -
  have q: "queued s1 = queued s" by (simp add: queued_def same fun_eq_iff)
  have qo: "queue_ok s1" using edit_okD(1) [OF ok] queue_ok_cong [OF same] by simp
  have cov1: "covers_stamp s1 k through" using cov by (simp add: covers_stamp_def q)
  note ack = ack_simps [OF qo cov1]
  let ?t = "acknowledge k through s1"
  show ?thesis
  proof (rule edit_okI)
    show "queue_ok ?t" by (rule queue_ok_ack [OF qo cov1])
    show "cost_backed ?t x" for x
    proof (cases "k = ChargeQ x")
      case False
      then have "cost_backed ?t x = cost_backed s x" using other(1) [of x] by (intro cost_backed_cong) (auto simp: ack same)
      then show ?thesis using edit_okD(2) [OF ok] by simp
    qed (use charge in blast)
    show "charge_claim ?t a' x" if "tracked ?t (ChargeQ x)" for x
    proof (cases "k = ChargeQ x")
      case False
      then have "charge_claim ?t a' x = charge_claim s a x" "tracked ?t (ChargeQ x) = tracked s (ChargeQ x)"
        using other(1) [of x] by (intro charge_claim_cong tracked_cong; auto simp: ack same q)+
      then show ?thesis using that edit_okD(3) [OF ok] by simp
    qed (use charge that in blast)
    show "drive_claim ?t a' x" if "tracked ?t (DriveQ x)" for x
    proof (cases "k = DriveQ x")
      case False
      then have "drive_claim ?t a' x = drive_claim s a x" "tracked ?t (DriveQ x) = tracked s (DriveQ x)"
        using other(2) [of x] by (intro drive_claim_cong tracked_cong; auto simp: ack same q)+
      then show ?thesis using that edit_okD(4) [OF ok] by simp
    qed (use drive that in blast)
  qed
qed

lemma own_tags_strip: "own_tags (strip_reserved_tags xs) = own_tags xs"
  by (auto simp: own_tags_def strip_reserved_tags_def)

lemma own_replay_btree: "own_tags (replay es (btree_set tgs)) = own_tags (replay es tgs)"
  unfolding own_tags_alt by (rule visible_replay) simp

lemma named_replay_btree: "named_tags (replay es (btree_set tgs)) = named_tags (replay es tgs)"
  unfolding named_tags_alt by (rule visible_replay) simp

lemma cost_backed_ack:
  assumes "queue_ok s" "covers_stamp s (ChargeQ sid) through" "cost_backed s sid"
  shows "cost_backed (acknowledge (ChargeQ sid) through s) sid"
proof -
  obtain older where "pending s (ChargeQ sid) = older @ newer_edits through (q_events s (ChargeQ sid))"
    using newer_suffix [of "q_events s (ChargeQ sid)" through] assms(1) by (auto simp: queue_ok_def pending_def)
  then show ?thesis using assms(3)
    by (auto simp: cost_backed_def newer_pending [OF assms(1,2)] last_cost_append ack_simps [OF assms(1,2)] split: option.splits)
qed

lemma confirm_charge_ok:
  assumes ok: "edit_ok (s, a)" and conf: "confirm_charge_mutable_push_with_receipt sid through source tgs cst receipt s = Inr (s', True)"
  shows "edit_ok (s', if unknown_newer s (ChargeQ sid) through then a
     else a\<lparr>ag_charge := (ag_charge a)(sid := tgs), ag_cost := (ag_cost a)(sid := cst)\<rparr>)"
proof -
  let ?k = "ChargeQ sid"
  have cov: "covers_stamp s ?k through" using conf by (auto simp: confirm_charge_mutable_push_with_receipt_def split: if_splits)
  have drop: "edit_ok (drop_receipt receipt t, b) = edit_ok (t, b)" for t b
    by (rule edit_ok_cong) (simp_all add: drop_receipt_def split: option.splits)
  have qo: "queue_ok s" by (rule edit_okD(1) [OF ok])
  show ?thesis
  proof (cases "unknown_newer s ?k through")
    case True
    then have s': "s' = drop_receipt receipt (acknowledge ?k through s)"
      using conf by (auto simp: confirm_charge_mutable_push_with_receipt_def split: if_splits)
    have "edit_ok (acknowledge ?k through s, a)"
      using cost_backed_ack [OF qo cov edit_okD(2) [OF ok]] untracked_ack [OF True cov qo]
      by (intro ack_ok [OF ok cov]) auto
    then show ?thesis using True by (simp add: s' drop)
  next
    case False
    define newer where "newer = newer_edits through (q_events s ?k)"
    define s1 where "s1 = put_charge_tags sid (strip_reserved_tags (replay newer (btree_set tgs))) s"
    define s2 where "s2 = (if last_cost newer = None then put_charge_cost sid cst s1 else s1)"
    have s': "s' = drop_receipt receipt (acknowledge ?k through s2)"
      using conf False by (auto simp: confirm_charge_mutable_push_with_receipt_def adopt_confirmed_def Let_def res_simps s2_def s1_def
          last_cost_None newer_def split: if_splits)
    have same: "q_clock s2 = q_clock s" "q_dirty s2 = q_dirty s" "q_state s2 = q_state s" "q_events s2 = q_events s" "queued s2 = queued s"
      "drive_tags s2 = drive_tags s" "queue_ok s2" by (simp_all add: s2_def s1_def qo)
    have cov2: "covers_stamp s2 ?k through" using cov by (simp add: covers_stamp_def same)
    have pend: "pending (acknowledge ?k through s2) ?k = newer" using newer_pending [OF same(7) cov2] by (simp add: newer_def same)
    have backed: "cost_backed s2 sid \<or> last_cost newer = None"
    proof (cases "last_cost newer")
      case (Some j)
      have "cost_backed s2 sid = cost_backed s sid" by (rule cost_backed_cong) (simp_all add: s2_def s1_def Some)
      then show ?thesis using edit_okD(2) [OF ok] by simp
    qed simp
    have "cost_backed (acknowledge ?k through s2) sid"
      using backed cost_backed_ack [OF same(7) cov2] by (auto simp: cost_backed_def pend)
    moreover have "charge_claim (acknowledge ?k through s2) (a\<lparr>ag_charge := (ag_charge a)(sid := tgs), ag_cost := (ag_cost a)(sid := cst)\<rparr>) sid"
    proof -
      have tg: "charge_tags (acknowledge ?k through s2) sid = stored_tags (strip_reserved_tags (replay newer (btree_set tgs)))"
        unfolding ack_simps(4) [OF same(7) cov2] by (simp add: s2_def s1_def)
      have co: "last_cost newer = None \<Longrightarrow> charge_costs (acknowledge ?k through s2) sid = cst"
        unfolding ack_simps(5) [OF same(7) cov2] by (simp add: s2_def s1_def)
      show ?thesis using \<open>cost_backed (acknowledge ?k through s2) sid\<close> co
        by (auto simp: charge_claim_def tg pend own_tags_strip own_replay_btree cost_backed_def split: option.splits)
    qed
    ultimately have "edit_ok (acknowledge ?k through s2, a\<lparr>ag_charge := (ag_charge a)(sid := tgs), ag_cost := (ag_cost a)(sid := cst)\<rparr>)"
      by (intro ack_ok [OF ok cov]) (auto simp: same, auto simp: s2_def s1_def)
    then show ?thesis using False by (simp add: s' drop)
  qed
qed

subsection \<open>Projections of drives\<close>

lemma install_neutral:
  assumes "install_verified_route_keys sources s = Inr s1"
  shows "q_clock s1 = q_clock s" "q_dirty s1 = q_dirty s" "q_state s1 = q_state s" "q_events s1 = q_events s"
    "charge_tags s1 = charge_tags s" "charge_costs s1 = charge_costs s" "drive_tags s1 = drive_tags s" "queued s1 = queued s"
proof -
  have one: "q_clock (install_key t v) = q_clock t \<and> q_dirty (install_key t v) = q_dirty t \<and> q_state (install_key t v) = q_state t \<and>
      q_events (install_key t v) = q_events t \<and> charge_tags (install_key t v) = charge_tags t \<and>
      charge_costs (install_key t v) = charge_costs t \<and> drive_tags (install_key t v) = drive_tags t" for t v
    by (simp add: install_key_def split: option.splits)
  have "q_clock (foldl install_key s vs) = q_clock s \<and> q_dirty (foldl install_key s vs) = q_dirty s \<and> q_state (foldl install_key s vs) = q_state s \<and>
      q_events (foldl install_key s vs) = q_events s \<and> charge_tags (foldl install_key s vs) = charge_tags s \<and>
      charge_costs (foldl install_key s vs) = charge_costs s \<and> drive_tags (foldl install_key s vs) = drive_tags s" for vs
    by (induction vs rule: rev_induct) (simp_all add: one)
  moreover have "s1 = foldl install_key s sources" using assms by (auto simp: install_verified_route_keys_def res_simps)
  ultimately show "q_clock s1 = q_clock s" "q_dirty s1 = q_dirty s" "q_state s1 = q_state s" "q_events s1 = q_events s"
    "charge_tags s1 = charge_tags s" "charge_costs s1 = charge_costs s" "drive_tags s1 = drive_tags s" by simp_all
  then show "queued s1 = queued s" by (simp add: queued_def fun_eq_iff)
qed

lemma project_one_ok:
  assumes ok: "edit_ok (s, a)"
  shows "edit_ok (project_drive s d, a\<lparr>ag_drive := (if queued s (DriveQ (fst d)) = None then (ag_drive a)(fst d := snd d) else ag_drive a)\<rparr>)"
proof (cases "queued s (DriveQ (fst d)) = None")
  case True
  define s' a' where "s' = put_drive_tags (fst d) (snd d) s" and "a' = a\<lparr>ag_drive := (ag_drive a)(fst d := snd d)\<rparr>"
  have s': "queued s' = queued s" "q_state s' = q_state s" "q_events s' = q_events s" "charge_tags s' = charge_tags s"
    "charge_costs s' = charge_costs s" "queue_ok s'" "drive_tags s' = (drive_tags s)(fst d := stored_tags (snd d))"
    using edit_okD(1) [OF ok] by (simp_all add: s'_def)
  have none: "q_events s (DriveQ (fst d)) = []"
  proof (rule ccontr)
    assume "q_events s (DriveQ (fst d)) \<noteq> []"
    then have "hd (q_events s (DriveQ (fst d))) \<in> set (q_events s (DriveQ (fst d)))" by simp
    then show False using edit_okD(1) [OF ok] True unfolding queue_ok_def by fastforce
  qed
  have "edit_ok (s', a')"
  proof (rule edit_okI)
    show "queue_ok s'" by (rule s'(6))
    show "cost_backed s' x" for x
      using edit_okD(2) [OF ok, of x] cost_backed_cong [of s' x s] by (simp add: s')
    show "charge_claim s' a' x" if "tracked s' (ChargeQ x)" for x
      using that edit_okD(3) [OF ok, of x] tracked_cong [of s' "ChargeQ x" s] charge_claim_cong [of s' x s a' a] by (simp add: s' a'_def)
    show "drive_claim s' a' x" if t: "tracked s' (DriveQ x)" for x
    proof (cases "x = fst d")
      case True
      then show ?thesis by (simp add: drive_claim_def pending_def s' a'_def none)
    next
      case False
      then show ?thesis
        using t edit_okD(4) [OF ok, of x] tracked_cong [of s' "DriveQ x" s] drive_claim_cong [of s' x s a' a] by (simp add: s' a'_def)
    qed
  qed
  then show ?thesis using True by (simp add: project_drive_def s'_def a'_def)
qed (use ok in \<open>auto simp: project_drive_def\<close>)

lemma queued_project [simp]: "queued (project_drive s d) = queued s"
  by (simp add: project_drive_def)

lemma queued_project_fold [simp]: "queued (foldl project_drive s ds) = queued s"
  by (induction ds rule: rev_induct) simp_all

lemma project_fold_ok:
  assumes "edit_ok (s, a)"
  shows "edit_ok (foldl project_drive s ds, a\<lparr>ag_drive := agree_drives (\<lambda>d. queued s (DriveQ d)) ds (ag_drive a)\<rparr>)"
proof (induction ds rule: rev_induct)
  case Nil
  then show ?case using assms by (simp add: agree_drives_def)
next
  case (snoc d ds)
  from project_one_ok [OF snoc, of d] show ?case by (simp add: agree_drives_def cong: if_cong)
qed

lemma apply_projected_ok:
  assumes "edit_ok (s, a)" "apply_projected_drive_tags sr sources drives s = Inr s'"
  shows "edit_ok (s', a\<lparr>ag_drive := agree_drives (\<lambda>d. queued s (DriveQ d)) drives (ag_drive a)\<rparr>)"
proof -
  from assms(2) obtain s1 where inst: "install_verified_route_keys sources s = Inr s1" and s': "s' = foldl project_drive s1 drives"
    by (auto simp: apply_projected_drive_tags_def res_simps)
  have "edit_ok (s1, a)" using assms(1) edit_ok_cong [OF install_neutral(1-7) [OF inst]] by simp
  from project_fold_ok [OF this, of drives] show ?thesis by (simp add: s' install_neutral(8) [OF inst])
qed

lemma confirm_drive_ok:
  assumes ok0: "edit_ok (s0, a)" and conf: "confirm_drive_mutable_push_with_projection key through sr tgs sources receipt drives s0 = Inr (s', True)"
  shows "edit_ok (s', a\<lparr>ag_drive := agree_drives (\<lambda>d. queued s' (DriveQ d)) drives
       (if unknown_newer s0 (DriveQ key) through then ag_drive a else (ag_drive a)(key := tgs))\<rparr>)"
proof -
  let ?k = "DriveQ key"
  from conf obtain s where inst: "install_verified_route_keys sources s0 = Inr s" and cov0: "covers_stamp s0 ?k through"
    and s': "s' = drop_receipt receipt (foldl project_drive (acknowledge ?k through (if unknown_newer s ?k through then s
        else put_drive_tags key (replay (newer_edits through (q_events s ?k)) (btree_set tgs)) s)) drives)"
    by (auto simp: confirm_drive_mutable_push_with_projection_def res_simps Let_def split: if_splits)
  note neutral = install_neutral [OF inst]
  have ok: "edit_ok (s, a)" using ok0 edit_ok_cong [OF neutral(1-7)] by simp
  have qo: "queue_ok s" by (rule edit_okD(1) [OF ok])
  have cov: "covers_stamp s ?k through" using cov0 by (simp add: covers_stamp_def neutral)
  have unk: "unknown_newer s ?k through = unknown_newer s0 ?k through" by (simp add: unknown_newer_def neutral)
  have drop: "edit_ok (drop_receipt receipt t, b) = edit_ok (t, b)" for t b
    by (rule edit_ok_cong) (simp_all add: drop_receipt_def split: option.splits)
  define t where "t = acknowledge ?k through (if unknown_newer s ?k through then s
        else put_drive_tags key (replay (newer_edits through (q_events s ?k)) (btree_set tgs)) s)"
  have "edit_ok (t, a\<lparr>ag_drive := (if unknown_newer s0 ?k through then ag_drive a else (ag_drive a)(key := tgs))\<rparr>)"
  proof (cases "unknown_newer s ?k through")
    case True
    then have "edit_ok (acknowledge ?k through s, a)"
      using untracked_ack [OF True cov qo] by (intro ack_ok [OF ok cov]) auto
    then show ?thesis using True unk by (simp add: t_def)
  next
    case False
    define s2 where "s2 = put_drive_tags key (replay (newer_edits through (q_events s ?k)) (btree_set tgs)) s"
    have same: "q_clock s2 = q_clock s" "q_dirty s2 = q_dirty s" "q_state s2 = q_state s" "q_events s2 = q_events s" "queued s2 = queued s"
      "charge_tags s2 = charge_tags s" "charge_costs s2 = charge_costs s" "queue_ok s2" by (simp_all add: s2_def qo)
    have cov2: "covers_stamp s2 ?k through" using cov by (simp add: covers_stamp_def same)
    have "drive_claim (acknowledge ?k through s2) (a\<lparr>ag_drive := (ag_drive a)(key := tgs)\<rparr>) key"
      by (simp add: drive_claim_def newer_pending [OF same(8) cov2] ack_simps [OF same(8) cov2] same named_replay_btree)
        (simp add: s2_def named_replay_btree)
    then have "edit_ok (acknowledge ?k through s2, a\<lparr>ag_drive := (ag_drive a)(key := tgs)\<rparr>)"
      by (intro ack_ok [OF ok cov]) (auto simp: same, auto simp: s2_def)
    then show ?thesis using False unk by (simp add: t_def s2_def)
  qed
  from project_fold_ok [OF this, of drives] show ?thesis unfolding s' t_def [symmetric] drop by simp
qed

subsection \<open>Pulled values and the invariant\<close>

lemma pull_charge_ok:
  assumes ok: "edit_ok (s, a)" and pull: "apply_charge_mutable_from_sync sid i k tgs cst s = Inr s'"
  shows "edit_ok (s', if charge_uploads s sid \<noteq> None \<and> queued s (ChargeQ sid) = None
     then a\<lparr>ag_charge := (ag_charge a)(sid := tgs), ag_cost := (ag_cost a)(sid := cst)\<rparr> else a)"
proof (cases "charge_uploads s sid \<noteq> None \<and> queued s (ChargeQ sid) = None")
  case False
  then have "s' = s" using pull by (auto simp: apply_charge_mutable_from_sync_def res_simps split: option.splits if_splits)
  then show ?thesis using ok False by auto
next
  case True
  then obtain u where s': "s' = put_charge_cost sid cst (put_charge_tags sid tgs (s\<lparr>charge_uploads := u\<rparr>))"
    using pull by (fastforce simp: apply_charge_mutable_from_sync_def res_simps Let_def split: option.splits if_splits prod.splits
        intro: that [of "charge_uploads s"])
  define a' where "a' = a\<lparr>ag_charge := (ag_charge a)(sid := tgs), ag_cost := (ag_cost a)(sid := cst)\<rparr>"
  have same: "queued s' = queued s" "q_state s' = q_state s" "q_events s' = q_events s" "drive_tags s' = drive_tags s" "queue_ok s'"
    "charge_tags s' = (charge_tags s)(sid := stored_tags tgs)" "charge_costs s' = (charge_costs s)(sid := cst)"
    using edit_okD(1) [OF ok] by (simp_all add: s' queued_def fun_eq_iff)
  have none: "pending s (ChargeQ sid) = []"
    using edit_okD(1) [OF ok] True unfolding queue_ok_def pending_def by (metis list.set_intros(1) list.simps(8) neq_Nil_conv option.distinct(1))
  have "edit_ok (s', a')"
  proof (rule edit_okI)
    show "queue_ok s'" by (rule same(5))
    show "cost_backed s' x" for x
      using edit_okD(2) [OF ok, of x] none cost_backed_cong [of s' x s] by (cases "x = sid") (auto simp: same cost_backed_def pending_def last_cost_def)
    show "charge_claim s' a' x" if t: "tracked s' (ChargeQ x)" for x
    proof (cases "x = sid")
      case True
      then show ?thesis using none by (simp add: charge_claim_def same a'_def pending_def last_cost_def)
    next
      case False
      then show ?thesis
        using t edit_okD(3) [OF ok, of x] tracked_cong [of s' "ChargeQ x" s] charge_claim_cong [of s' x s a' a] by (simp add: same a'_def)
    qed
    show "drive_claim s' a' x" if "tracked s' (DriveQ x)" for x
      using that edit_okD(4) [OF ok, of x] tracked_cong [of s' "DriveQ x" s] drive_claim_cong [of s' x s a' a] by (simp add: same a'_def)
  qed
  then show ?thesis using True by (simp add: a'_def)
qed

lemma edit_init_ok: "edit_init w \<Longrightarrow> edit_ok w"
proof -
  assume "edit_init w"
  then obtain s a where w: "w = (s, a)" and i: "q_clock s = None" "q_state s = (\<lambda>_. None)" "q_events s = (\<lambda>_. [])"
      "charge_tags s = ag_charge a" "charge_costs s = ag_cost a" "drive_tags s = ag_drive a"
    by (auto simp: edit_init_def split: prod.splits)
  have "queue_ok s" by (auto simp: queue_ok_def i queued_def last_stamp_def stamp_of_ge)
  then show "edit_ok w" unfolding w
    by (intro edit_okI) (simp_all add: cost_backed_def charge_claim_def drive_claim_def pending_def last_cost_def i)
qed

lemma edit_step_ok: "edit_step w w' \<Longrightarrow> edit_ok w \<Longrightarrow> edit_ok w'"
proof (induction rule: edit_step.induct)
  case (tags_edited now sid tgs s s' a)
  then show ?case using set_charge_tags_ok by blast
next
  case (tag_added sessions tag s s' a)
  then show ?case using add_tag_loop_ok by (auto simp: add_charge_tag_bulk_def Let_def split: if_splits)
next
  case (cost_edited now sid cst s s' a)
  then show ?case using set_charge_cost_ok by blast
next
  case (drive_edited view now key tgs add_only s s' a)
  then show ?case using set_drive_tags_ok by blast
next
  case (charge_pulled sid i k tgs cst s s' a)
  then show ?case using pull_charge_ok by blast
next
  case (drives_pulled sr sources drives s s' a)
  then show ?case using apply_projected_ok by blast
next
  case (charge_confirmed sid through source tgs cst receipt s s' a)
  then show ?case using confirm_charge_ok by blast
next
  case (drive_confirmed key through sr tgs sources receipt drives s s' a)
  then show ?case using confirm_drive_ok by blast
next
  case (key_backfilled sid i at0 k s s' b a)
  have "edit_ok (s', a) = edit_ok (s, a)"
    using key_backfilled(1) by (intro edit_ok_cong) (auto simp: backfill_charge_upload_key_def res_simps split: option.splits if_splits prod.splits)
  then show ?case using key_backfilled(2) by simp
next
  case (receipt_kept s a m)
  have "edit_ok (s\<lparr>meta := m\<rparr>, a) = edit_ok (s, a)" by (rule edit_ok_cong) simp_all
  then show ?case using receipt_kept by simp
next
  case (sources_moved s a c ri)
  have "edit_ok (s\<lparr>route_idents := ri, source_clock := c\<rparr>, a) = edit_ok (s, a)" by (rule edit_ok_cong) simp_all
  then show ?case using sources_moved by simp
qed

interpretation edit_inv: reachable_invariant edit_init edit_step edit_ok
  by unfold_locales (blast intro: edit_init_ok edit_step_ok)+

section \<open>Properties\<close>

text \<open>
  C6. However edits, pulls from the cloud and late confirmations interleave, no edit is lost and none is
  applied twice: the tags and the cost of an item are those the device and the cloud last agreed on, with
  the pending edits replayed on them in the order of their stamps, for every item whose edits are all
  recorded; the stamps increase, so recording never fails on a stamp that exists.
\<close>

theorem edits_never_lost:
  assumes "edit_init w0" "edit_step\<^sup>*\<^sup>* w0 (s, a)"
  shows "(tracked s (ChargeQ sid) \<longrightarrow>
      own_tags (charge_tags s sid) = own_tags (replay (pending s (ChargeQ sid)) (ag_charge a sid)) \<and>
      (case last_cost (pending s (ChargeQ sid)) of None \<Rightarrow> charge_costs s sid = ag_cost a sid
       | Some j \<Rightarrow> cost_value (charge_costs s sid) = Inr j)) \<and>
    (tracked s (DriveQ key) \<longrightarrow> named_tags (drive_tags s key) = named_tags (replay (pending s (DriveQ key)) (ag_drive a key))) \<and>
    sorted_wrt (<) (map fst (q_events s k)) \<and> set_charge_tags now sid tgs s \<noteq> Inl DuplicateStamp"
proof -
  have ok: "edit_ok (s, a)" by (rule edit_inv.reached_inv [OF assms])
  have "set_charge_tags now sid tgs s \<noteq> Inl DuplicateStamp"
  proof
    let ?s1 = "put_charge_tags sid tgs s"
    assume "set_charge_tags now sid tgs s = Inl DuplicateStamp"
    then have "mark_mutable_dirty_at (ChargeQ sid) now ?s1 = Inl DuplicateStamp \<or> (\<exists>s2. mark_mutable_dirty_at (ChargeQ sid) now ?s1 = Inr s2 \<and>
        record_edit (ChargeQ sid) (queued s (ChargeQ sid)) (tag_edit (charge_tags s sid) tgs) s2 = Inl DuplicateStamp)"
      by (auto simp: set_charge_tags_def set_charge_tags_inner_def Let_def res_simps)
    then show False
    proof
      assume "mark_mutable_dirty_at (ChargeQ sid) now ?s1 = Inl DuplicateStamp"
      then show False by (auto simp: mark_mutable_dirty_at_def Let_def res_simps)
    next
      assume "\<exists>s2. mark_mutable_dirty_at (ChargeQ sid) now ?s1 = Inr s2 \<and>
        record_edit (ChargeQ sid) (queued s (ChargeQ sid)) (tag_edit (charge_tags s sid) tgs) s2 = Inl DuplicateStamp"
      then obtain s2 where m: "mark_mutable_dirty_at (ChargeQ sid) now ?s1 = Inr s2"
        and r: "record_edit (ChargeQ sid) (queued s (ChargeQ sid)) (tag_edit (charge_tags s sid) tgs) s2 = Inl DuplicateStamp" by blast
      have "queue_ok ?s1" using edit_okD(1) [OF ok] by simp
      moreover have "queued s (ChargeQ sid) = queued ?s1 (ChargeQ sid)" by simp
      ultimately show False using mark_and_record [OF _ m, of "queued s (ChargeQ sid)" "tag_edit (charge_tags s sid) tgs"] r by auto
    qed
  qed
  then show ?thesis using edit_okD(1) [OF ok] edit_okD(3) [OF ok, of sid] edit_okD(4) [OF ok, of key] by (auto simp: charge_claim_def drive_claim_def queue_ok_def)
qed

definition a_store :: edit_store where
  "a_store = \<lparr>q_clock = None, q_dirty = [], q_state = (\<lambda>_. None), q_events = (\<lambda>_. []), q_scope = (\<lambda>_. None),
     charge_tags = (\<lambda>_. []), charge_costs = (\<lambda>_. None), charge_uploads = (\<lambda>_. None)(7 \<mapsto> (lit ''c'', lit ''k'', 5)),
     delete_outbox = (\<lambda>_. None), drive_tags = (\<lambda>_. []), route_idents = (\<lambda>_. None), source_clock = 0, meta = (\<lambda>_. None)\<rparr>"

definition no_agreement :: agreed where
  "no_agreement = \<lparr>ag_charge = (\<lambda>_. []), ag_cost = (\<lambda>_. None), ag_drive = (\<lambda>_. [])\<rparr>"

definition tagged_store :: edit_store where
  "tagged_store = with_edit (ChargeQ 7) 100 (Tags [lit ''Work''] []) (put_charge_tags 7 [lit ''Work''] a_store)"

lemma tagged_store_reached: "edit_step (a_store, no_agreement) (tagged_store, no_agreement)"
proof -
  have "queue_ok (put_charge_tags 7 [lit ''Work''] a_store)" by (simp add: queue_ok_def a_store_def queued_def)
  moreover have m: "mark_mutable_dirty_at (ChargeQ 7) 100 (put_charge_tags 7 [lit ''Work''] a_store) =
      Inr ((put_charge_tags 7 [lit ''Work''] a_store)\<lparr>q_clock := Some 100, q_dirty := [(ChargeQ 7, 100)]\<rparr>)"
    by (simp add: mark_mutable_dirty_at_def last_stamp_def stamp_of_def a_store_def put_charge_tags_def ensure_def assoc_insert_def)
  moreover have "tag_edit [] [lit ''Work''] = Tags [lit ''Work''] []" by (simp add: tag_edit_def btree_set_def)
  ultimately have "set_charge_tags 100 7 [lit ''Work''] a_store = Inr tagged_store"
    by (simp add: set_charge_tags_def set_charge_tags_inner_def Let_def record_edit_def queued_def ensure_def tagged_store_def with_edit_def)
      (simp add: a_store_def put_charge_tags_def assoc_insert_def queued_def)
  then show ?thesis by (rule tags_edited)
qed

theorem edits_never_lost_witness:
  "edit_step\<^sup>*\<^sup>* (a_store, no_agreement) (tagged_store, no_agreement) \<and>
   own_tags (charge_tags tagged_store 7) = own_tags (replay (pending tagged_store (ChargeQ 7)) []) \<and>
   pending tagged_store (ChargeQ 7) = [Tags [lit ''Work''] []]"
proof -
  have "edit_init (a_store, no_agreement)" by (simp add: edit_init_def a_store_def no_agreement_def)
  moreover have r: "edit_step\<^sup>*\<^sup>* (a_store, no_agreement) (tagged_store, no_agreement)" using tagged_store_reached by (rule r_into_rtranclp)
  moreover have "tracked tagged_store (ChargeQ 7)" by (simp add: tracked_def tagged_store_def queued_def a_store_def)
  ultimately have "own_tags (charge_tags tagged_store 7) = own_tags (replay (pending tagged_store (ChargeQ 7)) [])"
    using edits_never_lost [of "(a_store, no_agreement)" tagged_store no_agreement 7] by (simp add: no_agreement_def)
  with r show ?thesis by (simp add: tagged_store_def pending_def a_store_def)
qed

text \<open>
  A late acknowledgement retires exactly the edits it covers: after a confirmed publication, a confirmed
  upload or a cleared queue row, the pending edits are those stamped later, and the item leaves the queue
  only if nothing was edited after the acknowledged stamp.
\<close>

theorem acknowledgement_exact:
  assumes "edit_init w0" "edit_step\<^sup>*\<^sup>* w0 (s, a)" "covers_stamp s k through"
    and "s' = clear_mutable_dirty k through s \<or>
      k = ChargeQ sid \<and> confirm_charge_mutable_push_with_receipt sid through source tgs cst receipt s = Inr (s', True) \<or>
      k = ChargeQ sid \<and> confirm_charge_upload sid i (Some key) upl (Some through) s = (s', True)"
  shows "pending s' k = newer_edits through (q_events s k) \<and> (queued s' k = None \<longleftrightarrow> queued s k = Some through)"
proof -
  have qo: "queue_ok s" using edit_okD(1) edit_inv.reached_inv [OF assms(1,2)] by blast
  have ack: "pending s' k = newer_edits through (q_events s k) \<and> (queued s' k = None \<longleftrightarrow> queued s k = Some through)"
    if s': "q_events s' = q_events (acknowledge k through s1)" "queued s' = queued (acknowledge k through s1)"
      and same: "q_clock s1 = q_clock s" "q_dirty s1 = q_dirty s" "q_state s1 = q_state s" "q_events s1 = q_events s" for s1
  proof -
    have "queued s1 = queued s" by (simp add: queued_def same fun_eq_iff)
    then have "queue_ok s1" "covers_stamp s1 k through" using qo queue_ok_cong [OF same] assms(3) by (simp_all add: covers_stamp_def)
    note a = ack_simps [OF this]
    show ?thesis using assms(3) \<open>queued s1 = queued s\<close>
      by (auto simp: pending_def s' a same newer_edits_def covers_stamp_def split: option.splits)
  qed
  from assms(4) show ?thesis
  proof (elim disjE conjE)
    assume "s' = clear_mutable_dirty k through s"
    then have "s' = acknowledge k through s" using assms(3) by (simp add: clear_mutable_dirty_def)
    then show ?thesis by (intro ack [of s]) simp_all
  next
    assume k: "k = ChargeQ sid" and c: "confirm_charge_mutable_push_with_receipt sid through source tgs cst receipt s = Inr (s', True)"
    then obtain s1 where "s' = drop_receipt receipt (acknowledge k through s1)"
      "s1 = s \<or> adopt_confirmed sid through tgs cst s = Inr s1"
      by (auto simp: confirm_charge_mutable_push_with_receipt_def res_simps split: if_splits)
    then show ?thesis
      by (intro ack [of s1]) (auto simp: adopt_confirmed_def Let_def res_simps split: if_splits)
  next
    assume k: "k = ChargeQ sid" and c: "confirm_charge_upload sid i (Some key) upl (Some through) s = (s', True)"
    define s1 where "s1 = (case charge_uploads s sid of Some _ \<Rightarrow> s | None \<Rightarrow> s\<lparr>charge_uploads := (charge_uploads s)(sid \<mapsto> (i, key, upl))\<rparr>)"
    have same: "q_clock s1 = q_clock s" "q_dirty s1 = q_dirty s" "q_state s1 = q_state s" "q_events s1 = q_events s"
      by (simp_all add: s1_def split: option.splits)
    have "covers_stamp s1 k through" using assms(3) by (simp add: covers_stamp_def queued_def same)
    then have "s' = acknowledge k through s1"
      using c by (auto simp: confirm_charge_upload_def Let_def k s1_def cong: option.case_cong split: if_splits)
    then show ?thesis using same by (intro ack [of s1]) simp_all
  qed
qed

theorem acknowledgement_exact_witness:
  "pending (clear_mutable_dirty (ChargeQ 7) 40 tagged_store) (ChargeQ 7) = [Tags [lit ''Work''] []]"
proof -
  have "edit_init (a_store, no_agreement)" by (simp add: edit_init_def a_store_def no_agreement_def)
  moreover have "edit_step\<^sup>*\<^sup>* (a_store, no_agreement) (tagged_store, no_agreement)" using tagged_store_reached by (rule r_into_rtranclp)
  moreover have "covers_stamp tagged_store (ChargeQ 7) 40" by (simp add: covers_stamp_def tagged_store_def)
  ultimately have "pending (clear_mutable_dirty (ChargeQ 7) 40 tagged_store) (ChargeQ 7) = newer_edits 40 (q_events tagged_store (ChargeQ 7))"
    using acknowledgement_exact [of "(a_store, no_agreement)" tagged_store no_agreement "ChargeQ 7" 40] by blast
  then show ?thesis by (simp add: newer_edits_def tagged_store_def a_store_def)
qed

text \<open>
  A session whose deletion is queued is not marked as uploaded again by an answer that arrives late, and its queue entry
  leaves only after the cloud has acknowledged the deletion.
\<close>

theorem deletion_outlives_upload:
  assumes "delete_outbox s sid = Some (i, acked)"
  shows "charge_upload_mark sid j w upl s = s \<and> confirm_charge_upload sid j st upl inc s = (s, False) \<and>
    backfill_charge_upload_key sid j upl v s \<noteq> Inr (s', True) \<and>
    (delete_outbox (charge_delete_remove sid s) sid = None \<longleftrightarrow> acked \<noteq> None)"
  using assms
  by (auto simp: charge_upload_mark_def confirm_charge_upload_def backfill_charge_upload_key_def charge_delete_remove_def res_simps
      split: option.splits if_splits prod.splits)

theorem deletion_outlives_upload_witness:
  "charge_upload_mark 9 (lit ''j'') (lit ''w'') 1 (a_store\<lparr>delete_outbox := (\<lambda>_. Some (lit ''i'', None))\<rparr>) =
     a_store\<lparr>delete_outbox := (\<lambda>_. Some (lit ''i'', None))\<rparr>"
  using deletion_outlives_upload [of "a_store\<lparr>delete_outbox := (\<lambda>_. Some (lit ''i'', None))\<rparr>" 9 "lit ''i''" None] by simp

end
