(* ===== verification/CloudFeed.thy ===== *)
theory CloudFeed
  imports Json "HOL-Library.Product_Lexorder" "HOL-Library.Multiset"
begin

section \<open>The feed of changes from the cloud\<close>

text \<open>
  \<^verbatim>\<open>crates/cloud_uploader/src/sync/revision.rs, incoming_retry.rs, incoming_apply.rs\<close>: the pages of the revision feed,
  their validation, applying them with isolation of unreadable records, the durable list of records to
  read again, and the progress that is saved with compare-and-swap. The server, other users of the
  store, and the application of one record to the local store are parameters; base64 is a parameter.
  A saved value is what its text parses to, or unreadable text. The retry rows of one pairing are a list
  in the order of their keys, which is the order of kind and id.
\<close>

datatype kind = Charge | RateConfig | Route

fun kind_no :: "kind \<Rightarrow> nat" where
  "kind_no Charge = 0"
| "kind_no RateConfig = 1"
| "kind_no Route = 2"

instantiation kind :: linorder
begin

definition less_eq_kind :: "kind \<Rightarrow> kind \<Rightarrow> bool" where "less_eq_kind a b \<longleftrightarrow> kind_no a \<le> kind_no b"
definition less_kind :: "kind \<Rightarrow> kind \<Rightarrow> bool" where "less_kind a b \<longleftrightarrow> kind_no a < kind_no b"

instance
proof
  fix a b :: kind
  show "a \<le> b \<Longrightarrow> b \<le> a \<Longrightarrow> a = b" by (cases a; cases b) (simp_all add: less_eq_kind_def)
qed (auto simp: less_eq_kind_def less_kind_def)

end

definition kind_name :: "kind \<Rightarrow> ustr" where
  "kind_name k = (case k of Charge \<Rightarrow> lit ''charge'' | RateConfig \<Rightarrow> lit ''rateConfig'' | Route \<Rightarrow> lit ''route'')"

type_synonym target = "kind \<times> ustr"

datatype feed_error =
    InvalidRevision | InvalidPage | CheckpointRegressed | CheckpointChanged | InvalidCursor | InvalidTimestamp
  | OutsideCheckpoint | OrderNotAdvanced | ForeignRate | MissingRate | InvalidRecordId | MissingKey
  | EnvelopeTooLarge | InvalidEncoding | InvalidFraming
  | PairingEnded | PairingChanged | ProgressChanged | RetryChanged | RetryExhausted | RetryUnreadable
  | Cancelled | FeedUnavailable | ResetFailed | DecodeFailed | MissingCheckpoint
  | StatesIncomplete | StatesUnexpected | PendingIdentity | PendingUnavailable | RemainForRetry

record feed_item =
  it_kind :: kind
  it_id :: ustr
  it_revision :: ustr
  it_updated_at_ms :: int
  it_ciphertext :: "ustr option"
  it_wrapped_key :: "ustr option"

record feed_page =
  pg_ok :: bool
  pg_items :: "feed_item list"
  pg_next_cursor :: "ustr option"
  pg_version :: nat
  pg_revision :: ustr

record checkpoint =
  cp_version :: nat
  cp_binding :: ustr
  cp_revision :: ustr

record walk =
  wk_since :: "ustr option"
  wk_checkpoint :: "ustr option"
  wk_cursor :: "ustr option"
  wk_last :: "(int \<times> kind \<times> ustr) option"

datatype 'a saved = Readable 'a | Unreadable ustr

record saved_walk =
  sw_version :: nat
  sw_binding :: ustr
  sw_base :: "checkpoint saved option"
  sw_walk :: walk

record base64 =
  b64_decode :: "ustr \<Rightarrow> bytes option"
  b64_encode :: "bytes \<Rightarrow> ustr"

subsection \<open>Revisions, envelopes and cursors\<close>

definition revision :: "ustr \<Rightarrow> feed_error + int" where
  "revision v =
     (if v \<noteq> [] \<and> utf8_len v \<le> 19 \<and> list_all is_digit v \<and> (v = lit ''0'' \<or> hd v \<noteq> 48)
      then ok_or InvalidRevision (parse_i64 v) else Inl InvalidRevision)"

definition max_time_ms :: int where "max_time_ms = 8640000000000000"

definition valid_envelope :: "base64 \<Rightarrow> ustr \<Rightarrow> nat \<Rightarrow> nat option \<Rightarrow> feed_error + unit" where
  "valid_envelope b v mx exact =
     bindR (ensure EnvelopeTooLarge (utf8_len v \<le> (mx + 2) div 3 * 4)) (\<lambda>_.
     bindR (ok_or InvalidEncoding (b64_decode b v)) (\<lambda>bs.
       ensure InvalidFraming (length bs \<ge> 31 \<and> length bs \<le> mx \<and> hd bs = 1 \<and>
         (case exact of None \<Rightarrow> True | Some n \<Rightarrow> length bs = n) \<and> b64_encode b bs = v)))"

definition hex_char :: "int \<Rightarrow> bool" where
  "hex_char c \<longleftrightarrow> is_digit c \<or> (97 \<le> c \<and> c \<le> 102)"

definition hex_id :: "ustr \<Rightarrow> bool" where
  "hex_id i \<longleftrightarrow> utf8_len i = 64 \<and> list_all hex_char i"

definition valid_cursor :: "ustr \<Rightarrow> bool" where
  "valid_cursor c \<longleftrightarrow> c \<noteq> [] \<and> utf8_len c \<le> 2048 \<and> list_all (\<lambda>x. is_alnum x \<or> x = 95 \<or> x = 45) c"

definition resume_valid :: "walk \<Rightarrow> ustr \<Rightarrow> bool" where
  "resume_valid w pi_id =
     (case (wk_cursor w, Option.bind (wk_checkpoint w) (\<lambda>c. ok (revision c)), wk_last w) of
        (Some cursor, Some cp, Some (stamp, k, i)) \<Rightarrow>
          valid_cursor cursor \<and> (if k = RateConfig then i = pi_id else hex_id i) \<and>
          (case wk_since w of
             Some v \<Rightarrow> (case revision v of Inr since \<Rightarrow> since \<le> cp \<and> stamp > since \<and> stamp \<le> cp | Inl _ \<Rightarrow> False)
           | None \<Rightarrow> stamp = 0)
      | _ \<Rightarrow> False)"

definition new_walk :: "ustr option \<Rightarrow> walk" where
  "new_walk since = \<lparr>wk_since = since, wk_checkpoint = None, wk_cursor = None, wk_last = None\<rparr>"

definition walk_path :: "walk \<Rightarrow> ustr" where
  "walk_path w = lit ''/api/pi/sync/changes/v2?limit=200'' @
     (case wk_since w of Some s \<Rightarrow> lit ''&since='' @ s | None \<Rightarrow> []) @
     (case wk_cursor w of Some c \<Rightarrow> lit ''&cursor='' @ c | None \<Rightarrow> [])"

definition item_envelopes :: "base64 \<Rightarrow> ustr \<Rightarrow> feed_item \<Rightarrow> feed_error + unit" where
  "item_envelopes b pi_id it =
     (if it_kind it = RateConfig
      then bindR (ensure ForeignRate (it_id it = pi_id \<and> it_wrapped_key it = None)) (\<lambda>_.
           bindR (ok_or MissingRate (it_ciphertext it)) (\<lambda>ct. valid_envelope b ct 16384 None))
      else bindR (ensure InvalidRecordId (hex_id (it_id it))) (\<lambda>_.
           bindR (ok_or MissingKey (it_wrapped_key it)) (\<lambda>key.
           bindR (valid_envelope b key 61 (Some 61)) (\<lambda>_.
             case it_ciphertext it of Some ct \<Rightarrow> valid_envelope b ct 2048 None | None \<Rightarrow> Inr ()))))"

definition item_order :: "ustr option \<Rightarrow> int \<Rightarrow> feed_item \<Rightarrow> int \<times> kind \<times> ustr" where
  "item_order since stamp it = (if since \<noteq> None then stamp else 0, it_kind it, it_id it)"

fun validate_items ::
  "base64 \<Rightarrow> ustr \<Rightarrow> ustr option \<Rightarrow> int \<Rightarrow> (int \<times> kind \<times> ustr) option \<Rightarrow> feed_item list \<Rightarrow> feed_error + (int \<times> kind \<times> ustr) option" where
  "validate_items b pi_id since cp prev [] = Inr prev"
| "validate_items b pi_id since cp prev (it # items) =
     bindR (revision (it_revision it)) (\<lambda>stamp.
     bindR (ensure InvalidTimestamp (0 \<le> it_updated_at_ms it \<and> it_updated_at_ms it \<le> max_time_ms)) (\<lambda>_.
     bindR (case since of None \<Rightarrow> Inr ()
            | Some s \<Rightarrow> bindR (revision s) (\<lambda>from. ensure OutsideCheckpoint (stamp > from \<and> stamp \<le> cp))) (\<lambda>_.
       let order = item_order since stamp it
       in bindR (ensure OrderNotAdvanced (case prev of None \<Rightarrow> True | Some l \<Rightarrow> l < order)) (\<lambda>_.
          bindR (item_envelopes b pi_id it) (\<lambda>_. validate_items b pi_id since cp (Some order) items)))))"

definition validate :: "base64 \<Rightarrow> ustr \<Rightarrow> walk \<Rightarrow> feed_page \<Rightarrow> feed_error + walk" where
  "validate b pi_id w page =
     bindR (ensure InvalidPage (pg_ok page \<and> pg_version page = 2 \<and> length (pg_items page) \<le> 200)) (\<lambda>_.
     bindR (revision (pg_revision page)) (\<lambda>cp.
     bindR (case wk_since w of None \<Rightarrow> Inr () | Some s \<Rightarrow> bindR (revision s) (\<lambda>from. ensure CheckpointRegressed (cp \<ge> from))) (\<lambda>_.
     bindR (ensure CheckpointChanged (case wk_checkpoint w of None \<Rightarrow> True | Some previous \<Rightarrow> previous = pg_revision page)) (\<lambda>_.
     bindR (ensure InvalidCursor (case pg_next_cursor page of None \<Rightarrow> True
              | Some c \<Rightarrow> pg_items page \<noteq> [] \<and> valid_cursor c \<and> wk_cursor w \<noteq> Some c)) (\<lambda>_.
     bindR (validate_items b pi_id (wk_since w) cp (wk_last w) (pg_items page)) (\<lambda>prev.
       Inr (w\<lparr>wk_checkpoint := Some (pg_revision page), wk_cursor := pg_next_cursor page, wk_last := prev\<rparr>)))))))"

subsection \<open>Records to read again\<close>

record retry_store =
  rt_rows :: "(target \<times> ustr) list"
  rt_cursor :: "target option"
  rt_generation :: int

definition target_of :: "feed_item \<Rightarrow> target" where
  "target_of it = (it_kind it, it_id it)"

fun put_row :: "target \<Rightarrow> ustr \<Rightarrow> (target \<times> ustr) list \<Rightarrow> (target \<times> ustr) list" where
  "put_row t n [] = [(t, n)]"
| "put_row t n ((u, m) # rows) = (if t = u then (t, n) # rows else if t < u then (t, n) # (u, m) # rows else (u, m) # put_row t n rows)"

definition del_row :: "target \<Rightarrow> (target \<times> ustr) list \<Rightarrow> (target \<times> ustr) list" where
  "del_row t rows = filter (\<lambda>(u, _). u \<noteq> t) rows"

definition bump_generation :: "retry_store \<Rightarrow> feed_error + retry_store" where
  "bump_generation q =
     bindR (ensure RetryExhausted (rt_generation q + 1 < 2 ^ 63)) (\<lambda>_. Inr (q\<lparr>rt_generation := rt_generation q + 1\<rparr>))"

definition record_outcome :: "ustr \<Rightarrow> target list \<Rightarrow> target list \<Rightarrow> retry_store \<Rightarrow> feed_error + retry_store" where
  "record_outcome nonce failed done' q =
     (let q1 = q\<lparr>rt_rows := fold del_row done' (fold (\<lambda>t. put_row t nonce) failed (rt_rows q))\<rparr>
      in if failed \<noteq> [] \<or> done' \<noteq> [] then bump_generation q1 else Inr q1)"

definition read_rows :: "retry_store \<Rightarrow> target option \<Rightarrow> (target \<times> ustr) list" where
  "read_rows q after = take 100 (filter (\<lambda>(t, _). case after of None \<Rightarrow> True | Some c \<Rightarrow> c < t) (rt_rows q))"

definition valid_target :: "target \<Rightarrow> bool" where
  "valid_target t = (case t of (RateConfig, i) \<Rightarrow> i \<noteq> [] \<and> utf8_len i \<le> 64 | (_, i) \<Rightarrow> hex_id i)"

definition retry_entries :: "retry_store \<Rightarrow> feed_error + (target \<times> ustr) list" where
  "retry_entries q =
     (let rows = read_rows q (rt_cursor q); rows' = (if rows = [] then read_rows q None else rows)
      in bindR (ensure RetryUnreadable (list_all (\<lambda>(t, _). valid_target t) rows')) (\<lambda>_. Inr rows'))"

definition complete_entry :: "target \<times> ustr \<Rightarrow> retry_store \<Rightarrow> feed_error + retry_store" where
  "complete_entry e q =
     (if map_of (rt_rows q) (fst e) = Some (snd e) then bump_generation (q\<lparr>rt_rows := del_row (fst e) (rt_rows q)\<rparr>) else Inr q)"

definition advance_cursor :: "target \<times> ustr \<Rightarrow> retry_store \<Rightarrow> retry_store" where
  "advance_cursor e q = q\<lparr>rt_cursor := Some (fst e)\<rparr>"

fun complete_all :: "target list \<Rightarrow> (target \<times> ustr) list \<Rightarrow> retry_store \<Rightarrow> feed_error + retry_store" where
  "complete_all done' [] q = Inr q"
| "complete_all done' (e # es) q =
     bindR (if fst e \<in> set done' then complete_entry e q else Inr q) (complete_all done' es)"

subsection \<open>Applying a page\<close>

text \<open>
  What the device shares with others: the pairing, the saved progress, the rows to read again, and the
  local store. The environment gives the server's answers, what others do while the reader waits (time
  counts the waits), and how a record changes the local store.
\<close>

record 'l feed_world =
  fw_pairing :: "ustr option"
  fw_checkpoint :: "checkpoint saved option"
  fw_walk :: "saved_walk saved option"
  fw_retry :: "ustr \<Rightarrow> retry_store"
  fw_local :: 'l

datatype feed_response = Conflict bool | ConflictUnreadable | Unavailable | Undecodable | PageResponse feed_page

datatype 'p prepared = NothingToDo | Projection 'p | ReadUnavailable | SourceError

record ('l, 'p) feed_env =
  en_b64 :: base64
  en_pi_id :: ustr
  en_binding :: ustr
  en_cancelled :: "nat \<Rightarrow> bool"
  en_others :: "nat \<Rightarrow> 'l feed_world \<Rightarrow> 'l feed_world"
  en_server :: "nat \<Rightarrow> walk \<Rightarrow> feed_response"
  en_prepare :: "nat \<Rightarrow> target list \<Rightarrow> 'p prepared"
  en_apply :: "feed_item \<Rightarrow> 'l \<Rightarrow> 'l option"
  en_project :: "'p \<Rightarrow> 'l \<Rightarrow> 'l option"
  en_states :: "nat \<Rightarrow> target list \<Rightarrow> json option"
  en_nonce :: "nat \<Rightarrow> ustr"

record apply_context =
  ax_checkpoint :: "checkpoint saved option"
  ax_walk :: "saved_walk saved option"
  ax_generation :: "int option"

definition current_pairing :: "ustr \<Rightarrow> 'l feed_world \<Rightarrow> feed_error + unit" where
  "current_pairing expected w =
     (case fw_pairing w of None \<Rightarrow> Inl PairingEnded | Some b \<Rightarrow> ensure PairingChanged (b = expected))"

definition check_progress :: "checkpoint saved option \<Rightarrow> saved_walk saved option \<Rightarrow> 'l feed_world \<Rightarrow> feed_error + unit" where
  "check_progress cp sw w = ensure ProgressChanged (fw_checkpoint w = cp \<and> fw_walk w = sw)"

definition apply_guard :: "ustr \<Rightarrow> apply_context \<Rightarrow> 'l feed_world \<Rightarrow> feed_error + unit" where
  "apply_guard binding ax w =
     bindR (current_pairing binding w) (\<lambda>_.
     bindR (check_progress (ax_checkpoint ax) (ax_walk ax) w) (\<lambda>_.
       case ax_generation ax of None \<Rightarrow> Inr () | Some g \<Rightarrow> ensure RetryChanged (rt_generation (fw_retry w binding) = g)))"

record 'l applied =
  ap_time :: nat
  ap_world :: "'l feed_world"
  ap_done :: "target list"
  ap_failed :: "target list"

definition await :: "('l, 'p) feed_env \<Rightarrow> 'l applied \<Rightarrow> 'l applied" where
  "await env a = a\<lparr>ap_time := Suc (ap_time a), ap_world := en_others env (ap_time a) (ap_world a)\<rparr>"

text \<open>An error leaves what was applied before it.\<close>

type_synonym 'l apply_result = "(feed_error \<times> 'l applied) + 'l applied"

fun apply_items :: "('l, 'p) feed_env \<Rightarrow> apply_context \<Rightarrow> feed_item list \<Rightarrow> 'l applied \<Rightarrow> 'l apply_result" where
  "apply_items env ax [] a = Inr a"
| "apply_items env ax (it # items) a =
     (if it_kind it = Route then apply_items env ax items a
      else let a1 = await env a
           in case apply_guard (en_binding env) ax (ap_world a1) of Inl e \<Rightarrow> Inl (e, a1)
              | Inr _ \<Rightarrow>
                apply_items env ax items
                  (case en_apply env it (fw_local (ap_world a1)) of
                     Some l \<Rightarrow> a1\<lparr>ap_world := (ap_world a1)\<lparr>fw_local := l\<rparr>, ap_done := ap_done a1 @ [target_of it]\<rparr>
                   | None \<Rightarrow> a1\<lparr>ap_failed := ap_failed a1 @ [target_of it]\<rparr>))"

definition group_weight :: "target list \<Rightarrow> nat" where
  "group_weight g = (if g = [] then 1 else 2 * length g - 1)"

lemma group_weight_pos: "0 < group_weight g"
  by (cases g) (simp_all add: group_weight_def)

lemma group_weight_halves:
  "Suc 0 < length g \<Longrightarrow> group_weight (take (length g div 2) g) + group_weight (drop (length g div 2) g) < group_weight g"
  by (auto simp: group_weight_def)

text \<open>
  Routes are prepared together; a group that cannot be read is halved until the unreadable routes are
  alone.
\<close>

function apply_groups :: "('l, 'p) feed_env \<Rightarrow> apply_context \<Rightarrow> target list list \<Rightarrow> 'l applied \<Rightarrow> 'l apply_result" where
  "apply_groups env ax [] a = Inr a"
| "apply_groups env ax (g # groups) a =
     (if en_cancelled env (ap_time a) then Inl (Cancelled, a)
      else let prepared = en_prepare env (ap_time a) g; a1 = await env a
           in case apply_guard (en_binding env) ax (ap_world a1) of Inl e \<Rightarrow> Inl (e, a1)
              | Inr _ \<Rightarrow>
                 (case prepared of
                    Projection p \<Rightarrow>
                      (case en_project env p (fw_local (ap_world a1)) of
                         Some l \<Rightarrow> apply_groups env ax groups (a1\<lparr>ap_world := (ap_world a1)\<lparr>fw_local := l\<rparr>, ap_done := ap_done a1 @ g\<rparr>)
                       | None \<Rightarrow> apply_groups env ax groups (a1\<lparr>ap_failed := ap_failed a1 @ g\<rparr>))
                  | NothingToDo \<Rightarrow> apply_groups env ax groups (a1\<lparr>ap_done := ap_done a1 @ g\<rparr>)
                  | SourceError \<Rightarrow>
                      if length g > 1 then apply_groups env ax (take (length g div 2) g # drop (length g div 2) g # groups) a1
                      else apply_groups env ax groups (a1\<lparr>ap_failed := ap_failed a1 @ g\<rparr>)
                  | ReadUnavailable \<Rightarrow> apply_groups env ax groups (a1\<lparr>ap_failed := ap_failed a1 @ g\<rparr>)))"
  by pat_completeness auto
termination
  by (relation "measure (\<lambda>(env, ax, groups, a). sum_list (map group_weight groups))") (simp_all add: group_weight_pos group_weight_halves)

definition apply_page :: "('l, 'p) feed_env \<Rightarrow> apply_context \<Rightarrow> feed_item list \<Rightarrow> nat \<Rightarrow> 'l feed_world \<Rightarrow> 'l apply_result" where
  "apply_page env ax items t w =
     (let routes = map target_of (filter (\<lambda>it. it_kind it = Route) items)
      in bindR (apply_items env ax items \<lparr>ap_time = t, ap_world = w, ap_done = [], ap_failed = []\<rparr>)
           (apply_groups env ax (if routes = [] then [] else [routes])))"

subsection \<open>Walking the feed\<close>

record walker =
  wl_initial :: "checkpoint saved option"
  wl_saved :: "saved_walk saved option"
  wl_walk :: walk
  wl_reset :: bool

text \<open>A round of the loop ends the walk or goes on. What a round committed is kept beside the state.\<close>

record commit =
  cm_items :: "feed_item list"
  cm_done :: "target list"
  cm_failed :: "target list"

datatype 'l round_result =
    Finished "feed_error + unit" "'l feed_world" "commit list"
  | Again walker nat "'l feed_world" "commit list"

definition commit_round ::
  "('l, 'p) feed_env \<Rightarrow> walker \<Rightarrow> walk \<Rightarrow> feed_item list \<Rightarrow> 'l applied \<Rightarrow> 'l round_result" where
  "commit_round env wl walk items a =
     (let w = ap_world a; b = en_binding env;
          c = \<lparr>cm_items = items, cm_done = ap_done a, cm_failed = ap_failed a\<rparr>
      in case bindR (current_pairing b w) (\<lambda>_. bindR (check_progress (wl_initial wl) (wl_saved wl) w) (\<lambda>_.
                record_outcome (en_nonce env (ap_time a)) (ap_failed a) (ap_done a) (fw_retry w b))) of
           Inl e \<Rightarrow> Finished (Inl e) w []
         | Inr q \<Rightarrow>
             (let w1 = w\<lparr>fw_retry := (fw_retry w)(b := q)\<rparr>
              in case wk_cursor walk of
                   None \<Rightarrow>
                     (case wk_checkpoint walk of
                        None \<Rightarrow> Finished (Inl MissingCheckpoint) w []
                      | Some r \<Rightarrow> Finished (Inr ())
                          (w1\<lparr>fw_checkpoint := Some (Readable \<lparr>cp_version = 2, cp_binding = b, cp_revision = r\<rparr>), fw_walk := None\<rparr>) [c])
                 | Some _ \<Rightarrow>
                     (let next = Some (Readable \<lparr>sw_version = 1, sw_binding = b, sw_base = wl_initial wl, sw_walk = walk\<rparr>)
                      in Again (wl\<lparr>wl_saved := next, wl_walk := walk\<rparr>) (ap_time a) (w1\<lparr>fw_walk := next\<rparr>) [c])))"

definition reset_round :: "('l, 'p) feed_env \<Rightarrow> walker \<Rightarrow> nat \<Rightarrow> 'l feed_world \<Rightarrow> 'l round_result" where
  "reset_round env wl t w =
     (case bindR (current_pairing (en_binding env) w) (\<lambda>_. check_progress (wl_initial wl) (wl_saved wl) w) of
        Inl e \<Rightarrow> Finished (Inl e) w []
      | Inr _ \<Rightarrow> Again (wl\<lparr>wl_saved := None, wl_walk := new_walk None, wl_reset := True\<rparr>) t (w\<lparr>fw_walk := None\<rparr>) [])"

definition feed_round :: "('l, 'p) feed_env \<Rightarrow> walker \<Rightarrow> nat \<Rightarrow> 'l feed_world \<Rightarrow> 'l round_result" where
  "feed_round env wl t w =
     (if en_cancelled env t then Finished (Inl Cancelled) w []
      else let w1 = en_others env t w
           in case current_pairing (en_binding env) w1 of Inl e \<Rightarrow> Finished (Inl e) w1 []
              | Inr _ \<Rightarrow>
                 (let w2 = en_others env (Suc t) w1
                  in case en_server env (Suc t) (wl_walk wl) of
                       ConflictUnreadable \<Rightarrow> Finished (Inl DecodeFailed) w2 []
                     | Conflict required \<Rightarrow>
                         if \<not> wl_reset wl \<and> required then reset_round env wl (Suc (Suc t)) w2
                         else Finished (Inl ResetFailed) w2 []
                     | Unavailable \<Rightarrow> Finished (Inl FeedUnavailable) w2 []
                     | Undecodable \<Rightarrow> Finished (Inl DecodeFailed) w2 []
                     | PageResponse page \<Rightarrow>
                         (case validate (en_b64 env) (en_pi_id env) (wl_walk wl) page of
                            Inl e \<Rightarrow> Finished (Inl e) w2 []
                          | Inr walk \<Rightarrow>
                             (case apply_page env \<lparr>ax_checkpoint = wl_initial wl, ax_walk = wl_saved wl, ax_generation = None\<rparr>
                                     (pg_items page) (Suc (Suc t)) w2 of
                                Inl (e, a) \<Rightarrow> Finished (Inl e) (ap_world a) []
                              | Inr a \<Rightarrow> commit_round env wl walk (pg_items page) (await env a)))))"

partial_function (option) feed_loop ::
  "('l, 'p) feed_env \<Rightarrow> walker \<Rightarrow> nat \<Rightarrow> 'l feed_world \<Rightarrow> ((feed_error + unit) \<times> 'l feed_world \<times> commit list) option" where
  "feed_loop env wl t w =
     (case feed_round env wl t w of
        Finished r w' cs \<Rightarrow> Some (r, w', cs)
      | Again wl' t' w' cs \<Rightarrow>
          Option.bind (feed_loop env wl' t' w') (\<lambda>(r, w'', cs'). Some (r, w'', cs @ cs')))"

definition since_of :: "ustr \<Rightarrow> checkpoint saved option \<Rightarrow> ustr option" where
  "since_of binding stored =
     (case stored of
        Some (Readable c) \<Rightarrow> if cp_version c = 2 \<and> cp_binding c = binding \<and> is_ok (revision (cp_revision c)) then Some (cp_revision c) else None
      | _ \<Rightarrow> None)"

definition resume_walk :: "ustr \<Rightarrow> ustr \<Rightarrow> checkpoint saved option \<Rightarrow> saved_walk saved option \<Rightarrow> walk" where
  "resume_walk binding pi_id initial stored =
     (let since = since_of binding initial
      in case stored of
           Some (Readable r) \<Rightarrow>
             if sw_version r = 1 \<and> sw_binding r = binding \<and> sw_base r = initial \<and>
                (wk_since (sw_walk r) = None \<or> wk_since (sw_walk r) = since) \<and> resume_valid (sw_walk r) pi_id
             then sw_walk r else new_walk since
         | _ \<Rightarrow> new_walk since)"

definition pull_feed :: "('l, 'p) feed_env \<Rightarrow> nat \<Rightarrow> 'l feed_world \<Rightarrow> ((feed_error + unit) \<times> 'l feed_world \<times> commit list) option" where
  "pull_feed env t w =
     (case current_pairing (en_binding env) w of Inl e \<Rightarrow> Some (Inl e, w, [])
      | Inr _ \<Rightarrow>
          feed_loop env \<lparr>wl_initial = fw_checkpoint w, wl_saved = fw_walk w,
            wl_walk = resume_walk (en_binding env) (en_pi_id env) (fw_checkpoint w) (fw_walk w), wl_reset = False\<rparr> t w)"

subsection \<open>Reading records again\<close>

definition target_key :: "target \<Rightarrow> ustr" where
  "target_key t = kind_name (fst t) @ lit '':'' @ snd t"

fun collect_states :: "ustr list \<Rightarrow> json list \<Rightarrow> (ustr \<times> json) list \<Rightarrow> feed_error + (ustr \<times> json) list" where
  "collect_states wanted [] found = Inr found"
| "collect_states wanted (row # rows) found =
     bindR (ok_or StatesUnexpected (as_str (jget row (lit ''id'')))) (\<lambda>i.
     bindR (ok_or StatesUnexpected (as_str (jget row (lit ''kind'')))) (\<lambda>k.
       let key = k @ lit '':'' @ i
       in bindR (ensure StatesUnexpected (key \<in> set wanted \<and> key \<notin> fst ` set found)) (\<lambda>_.
            collect_states wanted rows ((key, row) # found))))"

definition read_states :: "target list \<Rightarrow> json option \<Rightarrow> feed_error + (ustr \<times> json) list" where
  "read_states targets response =
     (if targets = [] then Inr []
      else bindR (ok_or StatesIncomplete response) (\<lambda>body.
           bindR (ok_or StatesIncomplete (as_array (jget body (lit ''items'')))) (\<lambda>rows.
           bindR (ensure StatesIncomplete (jget body (lit ''ok'') = JBool True \<and> as_i64 (jget body (lit ''writeProtocol'')) = Some 3 \<and>
                    length rows = length targets)) (\<lambda>_.
             collect_states (map target_key targets) rows []))))"

definition row_field :: "json \<Rightarrow> ustr \<Rightarrow> json option" where
  "row_field row k = Option.bind (as_object row) (\<lambda>m. map_of m k)"

definition current_item :: "base64 \<Rightarrow> ustr \<Rightarrow> target \<Rightarrow> json \<Rightarrow> feed_error + feed_item option" where
  "current_item b pi_id t row =
     bindR (ensure PendingIdentity (as_str (jget row (lit ''kind'')) = Some (kind_name (fst t)) \<and> as_str (jget row (lit ''id'')) = Some (snd t))) (\<lambda>_.
     if as_str (jget row (lit ''status'')) = Some (lit ''not_found'') \<and> fst t = Charge then Inr None
     else
       bindR (ensure PendingUnavailable (as_str (jget row (lit ''status'')) = Some (lit ''ok''))) (\<lambda>_.
       bindR (ok_or InvalidTimestamp (as_i64 (jget row (lit ''updatedAtMs'')))) (\<lambda>stamp.
       bindR (ensure InvalidTimestamp (0 \<le> stamp \<and> stamp \<le> max_time_ms)) (\<lambda>_.
       bindR (case row_field row (lit ''ciphertext'') of Some JNull \<Rightarrow> Inr None | Some (JStr v) \<Rightarrow> Inr (Some v) | _ \<Rightarrow> Inl PendingUnavailable) (\<lambda>ct.
       bindR (if fst t = RateConfig
              then bindR (ensure PendingIdentity (snd t = pi_id \<and> row_field row (lit ''wrappedKey'') = Some JNull \<and>
                            row_field row (lit ''recordVersion'') = Some JNull)) (\<lambda>_.
                   bindR (ok_or MissingRate ct) (\<lambda>c. bindR (valid_envelope b c 16384 None) (\<lambda>_. Inr None)))
              else bindR (ensure PendingIdentity (case as_str (jget row (lit ''recordVersion'')) of Some v \<Rightarrow> hex_id v | None \<Rightarrow> False)) (\<lambda>_.
                   bindR (ok_or MissingKey (as_str (jget row (lit ''wrappedKey'')))) (\<lambda>key.
                   bindR (valid_envelope b key 61 (Some 61)) (\<lambda>_.
                   bindR (case ct of Some c \<Rightarrow> valid_envelope b c 2048 None | None \<Rightarrow> Inr ()) (\<lambda>_. Inr (Some key)))))) (\<lambda>wrapped.
         Inr (Some \<lparr>it_kind = fst t, it_id = snd t, it_revision = lit ''0'', it_updated_at_ms = stamp, it_ciphertext = ct, it_wrapped_key = wrapped\<rparr>)))))))"

text \<open>
  The items to apply and the records that are gone. The lookup of a record in the answer fails (a panic)
  when it is missing; it never is.
\<close>

fun retry_items ::
  "base64 \<Rightarrow> ustr \<Rightarrow> (ustr \<times> json) list \<Rightarrow> (target \<times> ustr) list \<Rightarrow> (feed_item list \<times> target list) option" where
  "retry_items b pi_id states [] = Some ([], [])"
| "retry_items b pi_id states ((t, n) # es) =
     (case retry_items b pi_id states es of None \<Rightarrow> None
      | Some (items, gone) \<Rightarrow>
          if fst t = Route
          then Some (\<lparr>it_kind = Route, it_id = snd t, it_revision = lit ''0'', it_updated_at_ms = 0, it_ciphertext = None,
                      it_wrapped_key = None\<rparr> # items, gone)
          else case map_of states (target_key t) of None \<Rightarrow> None
               | Some row \<Rightarrow>
                  (case current_item b pi_id t row of
                     Inr (Some it) \<Rightarrow> Some (it # items, gone)
                   | Inr None \<Rightarrow> Some (items, t # gone)
                   | Inl _ \<Rightarrow> Some (items, gone)))"

definition retry_outcome ::
  "('l, 'p) feed_env \<Rightarrow> apply_context \<Rightarrow> (target \<times> ustr) list \<Rightarrow> target list \<Rightarrow> 'l applied \<Rightarrow> (feed_error + unit) \<times> 'l feed_world" where
  "retry_outcome env ax entries gone a0 =
     (let a = await env a0; w = ap_world a; b = en_binding env
      in case bindR (apply_guard b ax w) (\<lambda>_. complete_all (gone @ ap_done a) entries (fw_retry w b)) of
           Inl e \<Rightarrow> (Inl e, w)
         | Inr q \<Rightarrow> (Inr (), w\<lparr>fw_retry := (fw_retry w)(b := advance_cursor (last entries) q)\<rparr>))"

definition retry_incoming :: "('l, 'p) feed_env \<Rightarrow> nat \<Rightarrow> 'l feed_world \<Rightarrow> ((feed_error + unit) \<times> 'l feed_world) option" where
  "retry_incoming env t w =
     (let b = en_binding env
      in case bindR (current_pairing b w) (\<lambda>_. retry_entries (fw_retry w b)) of
           Inl e \<Rightarrow> Some (Inl e, w)
         | Inr entries \<Rightarrow>
             if entries = [] then Some (Inr (), w)
             else
               let ax = \<lparr>ax_checkpoint = fw_checkpoint w, ax_walk = fw_walk w, ax_generation = Some (rt_generation (fw_retry w b))\<rparr>;
                   nonroutes = map fst (filter (\<lambda>(u, _). fst u \<noteq> Route) entries); w1 = en_others env t w
               in case (if nonroutes = [] then Inr [] else bindR (current_pairing b w1) (\<lambda>_. read_states nonroutes (en_states env (Suc t) nonroutes))) of
                    Inl e \<Rightarrow>
                      (let w2 = en_others env (Suc t) w1
                       in case apply_guard b ax w2 of
                            Inl e' \<Rightarrow> Some (Inl e', w2)
                          | Inr _ \<Rightarrow> Some (Inl e, w2\<lparr>fw_retry := (fw_retry w2)(b := advance_cursor (last entries) (fw_retry w2 b))\<rparr>))
                  | Inr states \<Rightarrow>
                      (case retry_items (en_b64 env) (en_pi_id env) states entries of
                         None \<Rightarrow> None
                       | Some (items, gone) \<Rightarrow>
                           (case apply_page env ax items (Suc t) w1 of
                              Inl (e, a) \<Rightarrow> Some (Inl e, ap_world a)
                            | Inr a \<Rightarrow> Some (retry_outcome env ax entries gone a))))"

definition pull_changes ::
  "('l, 'p) feed_env \<Rightarrow> nat \<Rightarrow> nat \<Rightarrow> nat \<Rightarrow> 'l feed_world \<Rightarrow> ((feed_error + unit) \<times> 'l feed_world) option" where
  "pull_changes env t t1 t2 w =
     (if en_cancelled env t then Some (Inl Cancelled, w)
      else Option.bind (retry_incoming env t w) (\<lambda>(retried, w1).
           Option.bind (pull_feed env t1 w1) (\<lambda>(received, w2, _).
             case received of Inl e \<Rightarrow> Some (Inl e, w2)
             | Inr _ \<Rightarrow>
                (let w3 = en_others env t2 w2
                 in case current_pairing (en_binding env) w3 of Inl e \<Rightarrow> Some (Inl e, w3)
                    | Inr _ \<Rightarrow>
                        if rt_rows (fw_retry w3 (en_binding env)) \<noteq> []
                        then Some (bindR retried (\<lambda>_. Inl RemainForRetry), w3)
                        else Some (Inr (), w3)))))"

section \<open>Lemmas\<close>

subsection \<open>A walk only moves forward\<close>

lemma revision_bounds: "revision v = Inr n \<Longrightarrow> 0 \<le> n \<and> n < 2 ^ 63"
proof -
  assume r: "revision v = Inr n"
  then have d: "v \<noteq> []" "list_all is_digit v" and p: "parse_i64 v = Some n"
    by (auto simp: revision_def res_simps split: if_splits)
  then have "strip_prefix (lit ''-'') v = None" by (cases v) (auto simp: lit_def is_digit_def)
  then show ?thesis using p by (auto simp: parse_i64_def parse_unsigned_def split: option.splits if_splits)
qed

definition positions :: "ustr \<Rightarrow> (int \<times> kind \<times> ustr) set" where
  "positions pi_id = {0..<2 ^ 63} \<times> UNIV \<times> insert pi_id {i. hex_id i}"

lemma hex_id_length: "hex_id i \<Longrightarrow> length i = 64 \<and> set i \<subseteq> {0..<128}"
proof -
  assume h: "hex_id i"
  have "list_all hex_char xs \<Longrightarrow> utf8_len xs = length xs" for xs
    by (induction xs) (auto simp: utf8_len_def utf8_width_def hex_char_def is_digit_def)
  then show ?thesis using h by (auto simp: hex_id_def list_all_iff hex_char_def is_digit_def)
qed

lemma finite_kinds: "finite (UNIV :: kind set)"
proof -
  have u: "(UNIV :: kind set) = {Charge, RateConfig, Route}" by (auto intro: kind.exhaust)
  show ?thesis unfolding u by simp
qed

lemma finite_positions: "finite (positions pi_id)"
proof -
  have "{i. hex_id i} \<subseteq> {i. set i \<subseteq> {0..<128} \<and> length i = 64}" using hex_id_length by blast
  moreover have "finite {i :: ustr. set i \<subseteq> {0..<128} \<and> length i = 64}" by (rule finite_lists_length_eq) simp
  ultimately have "finite {i. hex_id i}" by (rule finite_subset)
  then show ?thesis by (simp add: positions_def finite_kinds)
qed

lemma item_position:
  "item_envelopes b pi_id it = Inr u \<Longrightarrow> it_id it \<in> insert pi_id {i. hex_id i}"
  by (auto simp: item_envelopes_def res_simps split: if_splits)

lemma validate_items_advance:
  assumes "validate_items b pi_id since cp prev items = Inr prev'"
  shows "if items = [] then prev' = prev
    else \<exists>p \<in> positions pi_id. prev' = Some p \<and> (case prev of None \<Rightarrow> True | Some q \<Rightarrow> q < p)"
  using assms
proof (induction items arbitrary: prev)
  case (Cons it items)
  from Cons.prems obtain stamp u where r: "revision (it_revision it) = Inr stamp" and env: "item_envelopes b pi_id it = Inr u"
    and adv: "case prev of None \<Rightarrow> True | Some q \<Rightarrow> q < item_order since stamp it"
    and rest: "validate_items b pi_id since cp (Some (item_order since stamp it)) items = Inr prev'"
    by (auto simp: res_simps Let_def)
  define p where "p = item_order since stamp it"
  have p: "p \<in> positions pi_id"
    using revision_bounds [OF r] item_position [OF env] by (auto simp: p_def positions_def item_order_def)
  show ?case
  proof (cases "items = []")
    case True
    then have "prev' = Some p" using rest by (simp add: p_def)
    then show ?thesis using True adv p by (auto simp: p_def)
  next
    case False
    then obtain q where q: "q \<in> positions pi_id" "prev' = Some q" "p < q"
      using Cons.IH [OF rest] by (auto simp: p_def)
    moreover have "case prev of None \<Rightarrow> True | Some o' \<Rightarrow> o' < q" using adv q(3) by (auto simp: p_def split: option.splits)
    ultimately show ?thesis by auto
  qed
qed simp

definition positions_left :: "ustr \<Rightarrow> walk \<Rightarrow> nat" where
  "positions_left pi_id w =
     (case wk_last w of None \<Rightarrow> Suc (card (positions pi_id)) | Some p \<Rightarrow> card {q \<in> positions pi_id. p < q})"

lemma positions_left_bound: "positions_left pi_id w \<le> Suc (card (positions pi_id))"
  using card_mono [OF finite_positions, of "{q \<in> positions pi_id. the (wk_last w) < q}" pi_id]
  by (auto simp: positions_left_def le_SucI split: option.splits)

lemma validate_advance:
  assumes "validate b pi_id w page = Inr w'" "wk_cursor w' \<noteq> None"
  shows "positions_left pi_id w' < positions_left pi_id w"
proof -
  from assms obtain cp prev' where items: "validate_items b pi_id (wk_since w) cp (wk_last w) (pg_items page) = Inr prev'"
    and w': "w' = w\<lparr>wk_checkpoint := Some (pg_revision page), wk_cursor := pg_next_cursor page, wk_last := prev'\<rparr>"
    and ne: "pg_items page \<noteq> []"
    by (auto simp: validate_def res_simps)
  obtain p where p: "p \<in> positions pi_id" "prev' = Some p" "case wk_last w of None \<Rightarrow> True | Some q \<Rightarrow> q < p"
    using validate_items_advance [OF items] ne by auto
  show ?thesis
  proof (cases "wk_last w")
    case None
    have "card {q \<in> positions pi_id. p < q} \<le> card (positions pi_id)" by (rule card_mono [OF finite_positions]) auto
    then show ?thesis using None p(2) by (simp add: positions_left_def w')
  next
    case (Some o')
    then have "{q \<in> positions pi_id. p < q} \<subset> {q \<in> positions pi_id. o' < q}" using p by auto
    then have "card {q \<in> positions pi_id. p < q} < card {q \<in> positions pi_id. o' < q}"
      by (intro psubset_card_mono finite_subset [OF _ finite_positions [of pi_id]]) auto
    then show ?thesis using Some p(2) by (simp add: positions_left_def w')
  qed
qed

definition rounds_left :: "ustr \<Rightarrow> walker \<Rightarrow> nat" where
  "rounds_left pi_id wl = positions_left pi_id (wl_walk wl) + (if wl_reset wl then 0 else Suc (Suc (card (positions pi_id))))"

lemma round_advance:
  assumes "feed_round env wl t w = Again wl' t' w' cs"
  shows "rounds_left (en_pi_id env) wl' < rounds_left (en_pi_id env) wl"
  using assms
  by (auto simp: feed_round_def reset_round_def commit_round_def Let_def rounds_left_def new_walk_def validate_advance
      split: if_splits sum.splits feed_response.splits option.splits prod.splits)
    (auto simp: positions_left_def)

lemma feed_rounds_induct:
  assumes "\<And>wl t w. (\<And>wl' t' w' cs. feed_round env wl t w = Again wl' t' w' cs \<Longrightarrow> P wl' t' w') \<Longrightarrow> P wl t w"
  shows "P wl t w"
proof (induction "rounds_left (en_pi_id env) wl" arbitrary: wl t w rule: less_induct)
  case less
  then show ?case using assms round_advance by blast
qed

lemma feed_loop_Finished: "feed_round env wl t w = Finished r w' cs \<Longrightarrow> feed_loop env wl t w = Some (r, w', cs)"
  by (simp add: feed_loop.simps)

lemma feed_loop_Again:
  "feed_round env wl t w = Again wl' t' w' cs \<Longrightarrow>
     feed_loop env wl t w = map_option (\<lambda>(r, v, cs'). (r, v, cs @ cs')) (feed_loop env wl' t' w')"
  by (subst feed_loop.simps) (cases "feed_loop env wl' t' w'"; auto)

lemma feed_loop_returns: "\<exists>r. feed_loop env wl t w = Some r"
proof (induction wl t w rule: feed_rounds_induct [of env])
  case (1 wl t w)
  show ?case
  proof (cases "feed_round env wl t w")
    case (Again wl' t' w' cs)
    then show ?thesis using 1 [OF Again] by (auto simp: feed_loop_Again)
  qed (simp add: feed_loop_Finished)
qed

subsection \<open>Every record of a page is applied or failed\<close>

lemma await_fields [simp]:
  "ap_done (await env a) = ap_done a" "ap_failed (await env a) = ap_failed a"
  "ap_time (await env a) = Suc (ap_time a)" "ap_world (await env a) = en_others env (ap_time a) (ap_world a)"
  by (simp_all add: await_def)

definition handled :: "'l applied \<Rightarrow> target multiset" where
  "handled a = mset (ap_done a) + mset (ap_failed a)"

lemma apply_items_handled:
  "apply_items env ax items a = Inr a' \<Longrightarrow>
     handled a' = handled a + mset (map target_of (filter (\<lambda>it. it_kind it \<noteq> Route) items))"
proof (induction items arbitrary: a)
  case (Cons it items)
  show ?case
  proof (cases "it_kind it = Route")
    case False
    then show ?thesis using Cons.prems
      by (auto simp: Let_def handled_def dest!: Cons.IH split: sum.splits option.splits)
  qed (use Cons in simp)
qed simp

lemma apply_groups_handled:
  "apply_groups env ax groups a = Inr a' \<Longrightarrow> handled a' = handled a + mset (concat groups)"
proof (induction env ax groups a rule: apply_groups.induct)
  case (2 env ax g groups a)
  have halves: "mset (take (length g div 2) g) + mset (drop (length g div 2) g) = mset g"
    by (metis append_take_drop_id mset_append)
  show ?case using 2
    by (cases "en_prepare env (ap_time a) g")
      (auto simp: Let_def handled_def halves add.assoc [symmetric] split: if_splits sum.splits option.splits)
qed simp

lemma apply_page_handled:
  assumes "apply_page env ax items t w = Inr a"
  shows "mset (ap_done a) + mset (ap_failed a) = mset (map target_of items)"
proof -
  define routes where "routes = map target_of (filter (\<lambda>it. it_kind it = Route) items)"
  from assms obtain a1 where items: "apply_items env ax items \<lparr>ap_time = t, ap_world = w, ap_done = [], ap_failed = []\<rparr> = Inr a1"
    and groups: "apply_groups env ax (if routes = [] then [] else [routes]) a1 = Inr a"
    unfolding apply_page_def Let_def bindR_Inr_iff routes_def by blast
  have "handled a = mset (map target_of (filter (\<lambda>it. it_kind it \<noteq> Route) items)) + mset routes"
    using apply_items_handled [OF items] apply_groups_handled [OF groups] by (simp add: handled_def)
  moreover have "mset (map target_of (filter (\<lambda>it. it_kind it \<noteq> Route) items)) + mset routes = mset (map target_of items)"
    unfolding routes_def by (induction items) auto
  ultimately show ?thesis by (simp add: handled_def)
qed

subsection \<open>Progress and rows stay while a page is applied\<close>

definition same_progress :: "'l feed_world \<Rightarrow> 'l feed_world \<Rightarrow> bool" where
  "same_progress v w \<longleftrightarrow> fw_checkpoint v = fw_checkpoint w \<and> fw_walk v = fw_walk w \<and> fw_retry v = fw_retry w"

definition only_reader :: "('l, 'p) feed_env \<Rightarrow> bool" where
  "only_reader env \<longleftrightarrow> (\<forall>t w. same_progress (en_others env t w) w)"

fun outcome :: "'l apply_result \<Rightarrow> 'l applied" where
  "outcome (Inl (e, a)) = a"
| "outcome (Inr a) = a"

lemma same_progress_refl [simp]: "same_progress w w"
  by (simp add: same_progress_def)

lemma same_progress_local [simp]: "same_progress (v\<lparr>fw_local := l\<rparr>) w = same_progress v w"
  by (simp add: same_progress_def)

lemma same_progress_trans: "same_progress u v \<Longrightarrow> same_progress v w \<Longrightarrow> same_progress u w"
  by (simp add: same_progress_def)

lemma only_reader_step: "only_reader env \<Longrightarrow> same_progress (en_others env t w) v = same_progress w v"
  by (simp add: only_reader_def same_progress_def)

lemma apply_items_progress:
  "only_reader env \<Longrightarrow> same_progress (ap_world a) w \<Longrightarrow> same_progress (ap_world (outcome (apply_items env ax items a))) w"
  by (induction items arbitrary: a) (auto simp: Let_def only_reader_step split: sum.splits option.splits)

lemma apply_groups_progress:
  "only_reader env \<Longrightarrow> same_progress (ap_world a) w \<Longrightarrow> same_progress (ap_world (outcome (apply_groups env ax groups a))) w"
proof (induction env ax groups a rule: apply_groups.induct)
  case (2 env ax g groups a)
  then show ?case
    by (cases "en_prepare env (ap_time a) g") (auto simp: Let_def only_reader_step split: sum.splits option.splits)
qed simp

lemma apply_page_progress:
  assumes "only_reader env"
  shows "same_progress (ap_world (outcome (apply_page env ax items t w))) w"
proof (cases "apply_items env ax items \<lparr>ap_time = t, ap_world = w, ap_done = [], ap_failed = []\<rparr>")
  case (Inl x)
  then show ?thesis
    using apply_items_progress [OF assms, of "\<lparr>ap_time = t, ap_world = w, ap_done = [], ap_failed = []\<rparr>" w ax items]
    by (simp add: apply_page_def)
next
  case (Inr a)
  then show ?thesis
    using apply_items_progress [OF assms, of "\<lparr>ap_time = t, ap_world = w, ap_done = [], ap_failed = []\<rparr>" w ax items]
    by (simp add: apply_page_def apply_groups_progress [OF assms])
qed

subsection \<open>The rows after a page\<close>

lemma map_of_put_row [simp]: "map_of (put_row t n rows) u = (if u = t then Some n else map_of rows u)"
  by (induction t n rows rule: put_row.induct) auto

lemma map_of_del_row [simp]: "map_of (del_row t rows) u = (if u = t then None else map_of rows u)"
  by (induction rows) (auto simp: del_row_def)

lemma map_of_put_rows: "map_of (fold (\<lambda>t. put_row t n) failed rows) u = (if u \<in> set failed then Some n else map_of rows u)"
  by (induction failed arbitrary: rows) auto

lemma map_of_del_rows: "map_of (fold del_row ts rows) u = (if u \<in> set ts then None else map_of rows u)"
  by (induction ts arbitrary: rows) auto

lemma record_outcome_rows:
  assumes "record_outcome n failed done' q = Inr q'"
  shows "map_of (rt_rows q') u =
    (if u \<in> set done' then None else if u \<in> set failed then Some n else map_of (rt_rows q) u)"
  using assms
  by (auto simp: record_outcome_def bump_generation_def Let_def res_simps map_of_put_rows map_of_del_rows split: if_splits)

definition remembered :: "ustr \<Rightarrow> 'l feed_world \<Rightarrow> target set" where
  "remembered b w = fst ` set (rt_rows (fw_retry w b))"

lemma remembered_iff: "t \<in> remembered b w \<longleftrightarrow> map_of (rt_rows (fw_retry w b)) t \<noteq> None"
  by (simp add: remembered_def map_of_eq_None_iff)

definition accounted :: "ustr \<Rightarrow> 'l feed_world \<Rightarrow> commit list \<Rightarrow> bool" where
  "accounted b w cs \<longleftrightarrow> (\<forall>c \<in> set cs. \<forall>it \<in> set (cm_items c). target_of it \<in> remembered b w \<or> (\<exists>d \<in> set cs. target_of it \<in> set (cm_done d)))"

text \<open>What a round leaves: its world, its commits, and whether the checkpoint was published.\<close>

fun round_world :: "'l round_result \<Rightarrow> 'l feed_world" where
  "round_world (Finished r w cs) = w"
| "round_world (Again wl t w cs) = w"

fun round_commits :: "'l round_result \<Rightarrow> commit list" where
  "round_commits (Finished r w cs) = cs"
| "round_commits (Again wl t w cs) = cs"

fun round_ok :: "'l round_result \<Rightarrow> bool" where
  "round_ok (Finished r w cs) = is_ok r"
| "round_ok (Again wl t w cs) = True"

lemma commit_round_cases:
  obtains (err) e where "commit_round env wl walk items a = Finished (Inl e) (ap_world a) []"
  | (last_page) q r where
      "record_outcome (en_nonce env (ap_time a)) (ap_failed a) (ap_done a) (fw_retry (ap_world a) (en_binding env)) = Inr q"
      "current_pairing (en_binding env) (ap_world a) = Inr ()"
      "check_progress (wl_initial wl) (wl_saved wl) (ap_world a) = Inr ()"
      "wk_cursor walk = None" "wk_checkpoint walk = Some r"
      "commit_round env wl walk items a = Finished (Inr ())
         ((ap_world a)\<lparr>fw_retry := (fw_retry (ap_world a))(en_binding env := q),
            fw_checkpoint := Some (Readable \<lparr>cp_version = 2, cp_binding = en_binding env, cp_revision = r\<rparr>), fw_walk := None\<rparr>)
         [\<lparr>cm_items = items, cm_done = ap_done a, cm_failed = ap_failed a\<rparr>]"
  | (next_page) q nxt where
      "record_outcome (en_nonce env (ap_time a)) (ap_failed a) (ap_done a) (fw_retry (ap_world a) (en_binding env)) = Inr q"
      "current_pairing (en_binding env) (ap_world a) = Inr ()"
      "check_progress (wl_initial wl) (wl_saved wl) (ap_world a) = Inr ()"
      "nxt = Some (Readable \<lparr>sw_version = 1, sw_binding = en_binding env, sw_base = wl_initial wl, sw_walk = walk\<rparr>)"
      "wk_cursor walk \<noteq> None"
      "commit_round env wl walk items a = Again (wl\<lparr>wl_saved := nxt, wl_walk := walk\<rparr>) (ap_time a)
         ((ap_world a)\<lparr>fw_retry := (fw_retry (ap_world a))(en_binding env := q), fw_walk := nxt\<rparr>)
         [\<lparr>cm_items = items, cm_done = ap_done a, cm_failed = ap_failed a\<rparr>]"
proof -
  define g where "g = bindR (current_pairing (en_binding env) (ap_world a)) (\<lambda>_.
     bindR (check_progress (wl_initial wl) (wl_saved wl) (ap_world a)) (\<lambda>_.
       record_outcome (en_nonce env (ap_time a)) (ap_failed a) (ap_done a) (fw_retry (ap_world a) (en_binding env))))"
  show thesis
  proof (cases g)
    case (Inl e)
    then show thesis using err by (simp add: commit_round_def Let_def g_def)
  next
    case (Inr q)
    then have ok: "current_pairing (en_binding env) (ap_world a) = Inr ()"
      "check_progress (wl_initial wl) (wl_saved wl) (ap_world a) = Inr ()"
      "record_outcome (en_nonce env (ap_time a)) (ap_failed a) (ap_done a) (fw_retry (ap_world a) (en_binding env)) = Inr q"
      by (simp_all add: g_def res_simps)
    show thesis
    proof (cases "wk_cursor walk")
      case None
      show thesis
      proof (cases "wk_checkpoint walk")
        case None
        then show thesis using \<open>wk_cursor walk = None\<close> ok err by (simp add: commit_round_def Let_def)
      next
        case (Some r)
        then show thesis using \<open>wk_cursor walk = None\<close> ok last_page by (simp add: commit_round_def Let_def)
      qed
    next
      case (Some c)
      then show thesis using ok next_page by (simp add: commit_round_def Let_def)
    qed
  qed
qed

lemma feed_round_cases:
  obtains (stop) e v where "feed_round env wl t w = Finished (Inl e) v []" "only_reader env \<Longrightarrow> same_progress v w"
  | (reset) t' v where
      "feed_round env wl t w = Again (wl\<lparr>wl_saved := None, wl_walk := new_walk None, wl_reset := True\<rparr>) t' (v\<lparr>fw_walk := None\<rparr>) []"
      "check_progress (wl_initial wl) (wl_saved wl) v = Inr ()" "only_reader env \<Longrightarrow> same_progress v w" "\<not> wl_reset wl"
  | (commit) page walk a where
      "feed_round env wl t w = commit_round env wl walk (pg_items page) a"
      "validate (en_b64 env) (en_pi_id env) (wl_walk wl) page = Inr walk"
      "mset (ap_done a) + mset (ap_failed a) = mset (map target_of (pg_items page))"
      "only_reader env \<Longrightarrow> same_progress (ap_world a) w"
proof (cases "en_cancelled env t")
  case True
  then show thesis using stop by (simp add: feed_round_def)
next
  case nc: False
  define w1 where "w1 = en_others env t w"
  define w2 where "w2 = en_others env (Suc t) w1"
  have quiet: "only_reader env \<Longrightarrow> same_progress w1 w" "only_reader env \<Longrightarrow> same_progress w2 w"
    by (simp_all add: w1_def w2_def only_reader_step)
  note unfold = feed_round_def nc if_False Let_def w1_def [symmetric] w2_def [symmetric]
  show thesis
  proof (cases "current_pairing (en_binding env) w1")
    case (Inl e)
    then show thesis using stop quiet(1) by (simp add: unfold)
  next
    case (Inr u)
    note unfold = unfold Inr sum.case
    show thesis
    proof (cases "en_server env (Suc t) (wl_walk wl)")
      case (Conflict required)
      show thesis
      proof (cases "\<not> wl_reset wl \<and> required")
        case True
        then have eq: "feed_round env wl t w = reset_round env wl (Suc (Suc t)) w2" by (simp add: unfold Conflict)
        show thesis
        proof (cases "bindR (current_pairing (en_binding env) w2) (\<lambda>_. check_progress (wl_initial wl) (wl_saved wl) w2)")
          case (Inl e)
          then show thesis using stop quiet(2) eq by (simp add: reset_round_def)
        next
          case (Inr u')
          then show thesis using reset quiet(2) eq True by (auto simp: reset_round_def res_simps)
        qed
      qed (use stop quiet(2) Conflict in \<open>auto simp: unfold\<close>)
    next
      case (PageResponse page)
      show thesis
      proof (cases "validate (en_b64 env) (en_pi_id env) (wl_walk wl) page")
        case (Inl e)
        then show thesis using stop quiet(2) by (simp add: unfold PageResponse)
      next
        case (Inr walk)
        define ax where "ax = \<lparr>ax_checkpoint = wl_initial wl, ax_walk = wl_saved wl, ax_generation = None\<rparr>"
        define out where "out = apply_page env ax (pg_items page) (Suc (Suc t)) w2"
        have kept: "only_reader env \<Longrightarrow> same_progress (ap_world (outcome out)) w"
          unfolding out_def using apply_page_progress quiet(2) same_progress_trans by blast
        have eq: "feed_round env wl t w = (case out of Inl (e, a) \<Rightarrow> Finished (Inl e) (ap_world a) []
          | Inr a \<Rightarrow> commit_round env wl walk (pg_items page) (await env a))"
          by (simp add: unfold PageResponse Inr out_def ax_def)
        show thesis
        proof (cases out)
          case (Inl x)
          then obtain e a where "out = Inl (e, a)" by (cases x) simp
          then show thesis using stop kept eq by simp
        next
          case (Inr a)
          then show thesis
            using commit [of walk page "await env a"] eq kept \<open>validate _ _ _ page = Inr walk\<close>
              apply_page_handled [OF Inr [unfolded out_def]] by (simp add: only_reader_step)
        qed
      qed
    qed (use stop quiet(2) in \<open>simp_all add: unfold\<close>)
  qed
qed

definition loop_sound :: "ustr \<Rightarrow> 'l feed_world \<Rightarrow> (feed_error + unit) \<times> 'l feed_world \<times> commit list \<Rightarrow> bool" where
  "loop_sound b w x = (case x of (r, w', cs) \<Rightarrow>
     (\<forall>c \<in> set cs. mset (cm_done c) + mset (cm_failed c) = mset (map target_of (cm_items c))) \<and>
     remembered b w \<union> (\<Union>c \<in> set cs. set (cm_failed c)) \<subseteq> remembered b w' \<union> (\<Union>c \<in> set cs. set (cm_done c)) \<and>
     (if is_ok r then fw_walk w' = None \<and> cs \<noteq> [] \<and> since_of b (fw_checkpoint w') \<noteq> None
      else fw_checkpoint w' = fw_checkpoint w))"

lemma loop_sound_stop: "same_progress v w \<Longrightarrow> loop_sound b w (Inl e, v, [])"
  by (simp add: loop_sound_def same_progress_def remembered_def)

lemma remembered_commit:
  assumes "record_outcome n failed done' (fw_retry v b) = Inr q" "fw_retry w = (fw_retry v)(b := q)"
  shows "remembered b w = (set failed \<union> remembered b v) - set done'"
  using assms by (intro set_eqI) (simp add: remembered_iff record_outcome_rows [OF assms(1)])

lemma loop_sound_commit:
  assumes "record_outcome n failed done' (fw_retry v b) = Inr q" "fw_retry w' = (fw_retry v)(b := q)"
    and "same_progress v w" "mset done' + mset failed = mset (map target_of items)"
    and "fw_walk w' = None" "since_of b (fw_checkpoint w') \<noteq> None"
  shows "loop_sound b w (Inr (), w', [\<lparr>cm_items = items, cm_done = done', cm_failed = failed\<rparr>])"
proof -
  have "remembered b v = remembered b w" using assms(3) by (simp add: same_progress_def remembered_def)
  then show ?thesis using assms(4-6) remembered_commit [OF assms(1,2)] by (auto simp: loop_sound_def)
qed

lemma loop_sound_next:
  assumes "record_outcome n failed done' (fw_retry v b) = Inr q" "fw_retry w' = (fw_retry v)(b := q)"
    and "same_progress v w" "mset done' + mset failed = mset (map target_of items)"
    and "fw_checkpoint w' = fw_checkpoint v" "loop_sound b w' (r, z, cs)"
  shows "loop_sound b w (r, z, [\<lparr>cm_items = items, cm_done = done', cm_failed = failed\<rparr>] @ cs)"
proof -
  have "remembered b v = remembered b w" "fw_checkpoint w' = fw_checkpoint w"
    using assms(3,5) by (simp_all add: same_progress_def remembered_def)
  moreover note remembered_commit [OF assms(1,2)]
  ultimately show ?thesis using assms(4,6) unfolding loop_sound_def prod.case set_append list.set by (simp, blast)
qed

lemma validate_checkpoint: "validate b pi_id w page = Inr w' \<Longrightarrow> wk_checkpoint w' = Some r \<Longrightarrow> is_ok (revision r)"
  by (auto simp: validate_def res_simps)

lemma feed_loop_sound:
  "only_reader env \<Longrightarrow> feed_loop env wl t w = Some x \<Longrightarrow> loop_sound (en_binding env) w x"
proof (induction wl t w arbitrary: x rule: feed_rounds_induct [of env])
  case (1 wl t w)
  show ?case
  proof (cases rule: feed_round_cases [of env wl t w])
    case (stop e v)
    then show ?thesis using 1(2,3) by (auto simp: feed_loop_Finished intro: loop_sound_stop)
  next
    case (reset t' v)
    then obtain y where y: "feed_loop env (wl\<lparr>wl_saved := None, wl_walk := new_walk None, wl_reset := True\<rparr>) t' (v\<lparr>fw_walk := None\<rparr>) = Some y"
      using feed_loop_returns by blast
    have "loop_sound (en_binding env) (v\<lparr>fw_walk := None\<rparr>) y" by (rule 1(1) [OF reset(1) 1(2) y])
    then show ?thesis using reset(3) [OF 1(2)] 1(3) y
      by (auto simp: feed_loop_Again [OF reset(1)] loop_sound_def same_progress_def remembered_def split: prod.splits)
  next
    case (commit page walk a)
    note same = commit(4) [OF 1(2)]
    show ?thesis
    proof (cases rule: commit_round_cases [of env wl walk "pg_items page" a])
      case (err e)
      then show ?thesis using 1(3) same commit(1) by (auto simp: feed_loop_Finished intro: loop_sound_stop)
    next
      case (last_page q r)
      have "x = (Inr (), (ap_world a)\<lparr>fw_retry := (fw_retry (ap_world a))(en_binding env := q),
            fw_checkpoint := Some (Readable \<lparr>cp_version = 2, cp_binding = en_binding env, cp_revision = r\<rparr>), fw_walk := None\<rparr>,
            [\<lparr>cm_items = pg_items page, cm_done = ap_done a, cm_failed = ap_failed a\<rparr>])"
        using 1(3) commit(1) last_page(6) by (simp add: feed_loop_Finished)
      then show ?thesis
        using loop_sound_commit [OF last_page(1) _ same commit(3)] validate_checkpoint [OF commit(2) last_page(5)]
        by (simp add: since_of_def)
    next
      case (next_page q nxt)
      have again: "feed_round env wl t w = Again (wl\<lparr>wl_saved := nxt, wl_walk := walk\<rparr>) (ap_time a)
         ((ap_world a)\<lparr>fw_retry := (fw_retry (ap_world a))(en_binding env := q), fw_walk := nxt\<rparr>)
         [\<lparr>cm_items = pg_items page, cm_done = ap_done a, cm_failed = ap_failed a\<rparr>]"
        using commit(1) next_page(6) by simp
      then obtain r z cs where y: "feed_loop env (wl\<lparr>wl_saved := nxt, wl_walk := walk\<rparr>) (ap_time a)
         ((ap_world a)\<lparr>fw_retry := (fw_retry (ap_world a))(en_binding env := q), fw_walk := nxt\<rparr>) = Some (r, z, cs)"
        using feed_loop_returns by (metis prod_cases3)
      then have x: "x = (r, z, [\<lparr>cm_items = pg_items page, cm_done = ap_done a, cm_failed = ap_failed a\<rparr>] @ cs)"
        using 1(3) by (simp add: feed_loop_Again [OF again])
      show ?thesis unfolding x
        by (rule loop_sound_next [OF next_page(1) _ same commit(3) _ 1(1) [OF again 1(2) y]]) simp_all
    qed
  qed
qed

subsection \<open>The answer about the remembered records is complete\<close>

lemma collect_states_keys:
  assumes "collect_states wanted rows found = Inr res" "distinct (map fst found)" "fst ` set found \<subseteq> set wanted"
  shows "distinct (map fst res) \<and> fst ` set res \<subseteq> set wanted \<and> length res = length rows + length found"
  using assms
proof (induction rows arbitrary: found)
  case (Cons row rows)
  from Cons.prems(1) obtain i k where ik: "as_str (jget row (lit ''id'')) = Some i" "as_str (jget row (lit ''kind'')) = Some k"
    by (auto simp: res_simps ok_or_def split: option.splits)
  define key where "key = k @ lit '':'' @ i"
  have key: "key \<in> set wanted" "key \<notin> fst ` set found" and rest: "collect_states wanted rows ((key, row) # found) = Inr res"
    using Cons.prems(1) ik by (auto simp: res_simps ok_or_def key_def Let_def)
  show ?case using Cons.IH [OF rest] key Cons.prems(2,3) by auto
qed simp

lemma read_states_complete:
  assumes "read_states targets response = Inr states" "u \<in> set targets"
  shows "map_of states (target_key u) \<noteq> None"
proof -
  obtain rows where rows: "collect_states (map target_key targets) rows [] = Inr states" "length rows = length targets"
    using assms by (auto simp: read_states_def res_simps split: if_splits)
  note keys = collect_states_keys [OF rows(1)]
  have "card (set (map target_key targets)) \<le> card (set (map fst states))"
    using keys rows(2) distinct_card [of "map fst states"] card_length [of "map target_key targets"] by simp
  then have "set (map fst states) = set (map target_key targets)"
    using keys by (intro card_seteq) auto
  then have "target_key u \<in> fst ` set states" using assms(2) by simp
  then show ?thesis by (simp add: map_of_eq_None_iff)
qed

lemma retry_items_found:
  assumes "\<forall>e \<in> set es. fst (fst e) \<noteq> Route \<longrightarrow> map_of states (target_key (fst e)) \<noteq> None"
  shows "retry_items b pi_id states es \<noteq> None"
  using assms
proof (induction b pi_id states es rule: retry_items.induct)
  case (2 b pi_id states t n es)
  then show ?case by (auto split: option.splits sum.splits)
qed simp

lemma retry_incoming_returns: "\<exists>x. retry_incoming env t w = Some x"
proof (cases "bindR (current_pairing (en_binding env) w) (\<lambda>_. retry_entries (fw_retry w (en_binding env)))")
  case (Inl e)
  then show ?thesis by (simp add: retry_incoming_def Let_def)
next
  case (Inr entries)
  define targets where "targets = map fst (filter (\<lambda>(u, _). fst u \<noteq> Route) entries)"
  define w1 where "w1 = en_others env t w"
  define answer where "answer = (if targets = [] then Inr []
    else bindR (current_pairing (en_binding env) w1) (\<lambda>_. read_states targets (en_states env (Suc t) targets)))"
  note unfold = retry_incoming_def Let_def Inr sum.case targets_def [symmetric] w1_def [symmetric] answer_def [symmetric]
  show ?thesis
  proof (cases answer)
    case Inl
    then show ?thesis by (simp add: unfold split: sum.splits)
  next
    case (Inr states)
    then have "targets = [] \<or> read_states targets (en_states env (Suc t) targets) = Inr states"
      by (auto simp: answer_def res_simps split: if_splits)
    then have "\<forall>u \<in> set targets. map_of states (target_key u) \<noteq> None" using read_states_complete by fastforce
    then have "retry_items (en_b64 env) (en_pi_id env) states entries \<noteq> None"
      by (intro retry_items_found) (force simp: targets_def)
    then obtain items gone where "retry_items (en_b64 env) (en_pi_id env) states entries = Some (items, gone)" by auto
    then show ?thesis using Inr by (simp add: unfold split: sum.splits prod.splits)
  qed
qed

lemma pull_feed_returns: "\<exists>x. pull_feed env t w = Some x"
  using feed_loop_returns by (auto simp: pull_feed_def split: sum.splits)

subsection \<open>Halving isolates the unreadable routes\<close>

lemma apply_guard_local [simp]: "apply_guard b ax (w\<lparr>fw_local := l\<rparr>) = apply_guard b ax w"
  by (cases "ax_generation ax") (simp_all add: apply_guard_def current_pairing_def check_progress_def)

lemma filter_take_drop: "filter P (take n xs) @ filter P (drop n xs) = filter P xs"
  by (metis append_take_drop_id filter_append)

lemma filter_take_drop2: "filter P (take n xs) @ filter P (drop n xs) @ ys = filter P xs @ ys"
  by (metis append_assoc filter_take_drop)

definition calm :: "('l, 'p) feed_env \<Rightarrow> apply_context \<Rightarrow> bool" where
  "calm env ax \<longleftrightarrow> (\<forall>t. \<not> en_cancelled env t) \<and>
     (\<forall>t v. apply_guard (en_binding env) ax v = Inr () \<longrightarrow> apply_guard (en_binding env) ax (en_others env t v) = Inr ())"

definition readable_but :: "('l, 'p) feed_env \<Rightarrow> (target \<Rightarrow> bool) \<Rightarrow> bool" where
  "readable_but env bad \<longleftrightarrow> (\<forall>t g. if list_ex bad g then en_prepare env t g = SourceError
     else en_prepare env t g = NothingToDo \<or> (\<exists>p. en_prepare env t g = Projection p \<and> (\<forall>l. en_project env p l \<noteq> None)))"

lemma apply_groups_isolates:
  assumes "calm env ax" "readable_but env bad" "apply_guard (en_binding env) ax (ap_world a) = Inr ()"
  shows "\<exists>a'. apply_groups env ax groups a = Inr a' \<and> ap_failed a' = ap_failed a @ filter bad (concat groups) \<and>
    ap_done a' = ap_done a @ filter (\<lambda>u. \<not> bad u) (concat groups)"
  using assms
proof (induction env ax groups a rule: apply_groups.induct)
  case (2 env ax g groups a)
  have guard: "apply_guard (en_binding env) ax (en_others env (ap_time a) (ap_world a)) = Inr ()" and nc: "\<not> en_cancelled env (ap_time a)"
    using 2(7,9) by (simp_all add: calm_def)
  show ?case
  proof (cases "list_ex bad g")
    case True
    then have src: "en_prepare env (ap_time a) g = SourceError" using 2(8) by (simp add: readable_but_def)
    show ?thesis
    proof (cases "length g > 1")
      case True
      have "apply_groups env ax (g # groups) a = apply_groups env ax (take (length g div 2) g # drop (length g div 2) g # groups) (await env a)"
        using True guard nc src by (subst apply_groups.simps) (simp add: Let_def)
      then show ?thesis using 2(5) [OF nc refl refl _ src True 2(7,8)] guard
        by (simp add: filter_take_drop2 del: apply_groups.simps)
    next
      case False
      then obtain u where "g = [u]" "bad u" using \<open>list_ex bad g\<close> by (cases g) auto
      then show ?thesis using 2(6) [OF nc refl refl _ src _ 2(7,8)] guard nc src by simp
    qed
  next
    case False
    then have keep: "filter bad g = []" "filter (\<lambda>u. \<not> bad u) g = g" by (auto simp: list_ex_iff filter_id_conv)
    consider "en_prepare env (ap_time a) g = NothingToDo"
      | p l where "en_prepare env (ap_time a) g = Projection p" "en_project env p (fw_local (en_others env (ap_time a) (ap_world a))) = Some l"
      using 2(8) False unfolding readable_but_def by (metis not_Some_eq)
    then show ?thesis
    proof cases
      case 1
      then show ?thesis using "2.IH"(1) [OF nc refl refl _ 1 "2.prems"(1,2)] guard nc keep by simp
    next
      case (2 p l)
      then show ?thesis using "2.IH"(3) [OF nc refl refl _ 2(1) _ "2.prems"(1,2)] guard nc keep by simp
    qed
  qed
qed simp

lemma apply_items_calm:
  assumes "calm env ax" "apply_guard (en_binding env) ax (ap_world a) = Inr ()" "\<forall>u \<in> set (ap_done a) \<union> set (ap_failed a). fst u \<noteq> Route"
  shows "\<exists>a'. apply_items env ax items a = Inr a' \<and> apply_guard (en_binding env) ax (ap_world a') = Inr () \<and>
    (\<forall>u \<in> set (ap_done a') \<union> set (ap_failed a'). fst u \<noteq> Route)"
  using assms(2,3)
proof (induction items arbitrary: a)
  case (Cons it items)
  have guard: "apply_guard (en_binding env) ax (en_others env (ap_time a) (ap_world a)) = Inr ()"
    using assms(1) Cons.prems(1) by (simp add: calm_def)
  show ?case
  proof (cases "it_kind it = Route")
    case False
    then show ?thesis using guard Cons.prems
      by (cases "en_apply env it (fw_local (en_others env (ap_time a) (ap_world a)))")
        (auto simp: Let_def target_of_def intro!: Cons.IH)
  qed (use Cons in simp)
qed simp

subsection \<open>Every remembered record gets its turn\<close>

definition retry_turn :: "retry_store \<Rightarrow> retry_store" where
  "retry_turn q = (case retry_entries q of Inr (e # es) \<Rightarrow> advance_cursor (last (e # es)) q | _ \<Rightarrow> q)"

definition above :: "retry_store \<Rightarrow> (target \<times> ustr) list" where
  "above q = filter (\<lambda>(u, _). case rt_cursor q of None \<Rightarrow> True | Some c \<Rightarrow> c < u) (rt_rows q)"

definition batch :: "retry_store \<Rightarrow> (target \<times> ustr) list" where
  "batch q = (if above q = [] then take 100 (rt_rows q) else take 100 (above q))"

definition orderly :: "retry_store \<Rightarrow> bool" where
  "orderly q \<longleftrightarrow> sorted_wrt (<) (map fst (rt_rows q)) \<and> (\<forall>e \<in> set (rt_rows q). valid_target (fst e))"

lemma retry_entries_batch: "orderly q \<Longrightarrow> retry_entries q = Inr (batch q)"
proof -
  assume "orderly q"
  moreover have "set (batch q) \<subseteq> set (rt_rows q)"
    by (auto simp: batch_def above_def dest!: in_set_takeD)
  ultimately have "list_all (\<lambda>(t, _). valid_target t) (batch q)" by (fastforce simp: list_all_iff orderly_def)
  moreover have "retry_entries q = bindR (ensure RetryUnreadable (list_all (\<lambda>(t, _). valid_target t) (batch q))) (\<lambda>_. Inr (batch q))"
    by (simp add: batch_def above_def read_rows_def retry_entries_def Let_def)
  ultimately show ?thesis by (simp add: ensure_def)
qed

lemma sorted_suffix_filter:
  fixes c :: "'a :: linorder"
  assumes "sorted_wrt (<) (map fst (xs @ (c, n) # ys))"
  shows "filter (\<lambda>(u, _). c < u) (xs @ (c, n) # ys) = ys"
proof -
  have "\<forall>e \<in> set xs. fst e < c" "\<forall>e \<in> set ys. c < fst e" using assms by (auto simp: sorted_wrt_append)
  then have "filter (\<lambda>e. c < fst e) xs = []" "filter (\<lambda>e. c < fst e) ys = ys"
    unfolding filter_empty_conv filter_id_conv by (blast dest: order.asym)+
  then show ?thesis by (simp add: case_prod_unfold)
qed

text \<open>What lies above the cursor after a turn.\<close>

lemma above_next:
  assumes "orderly q" "rt_rows q = pre @ rest" "rest \<noteq> []" "batch q = take 100 rest"
  shows "above (retry_turn q) = drop 100 rest"
proof -
  define k where "k = min 100 (length rest) - 1"
  have k: "k < length rest" "Suc k = min 100 (length rest)" using assms(3) by (cases rest; auto simp: k_def min_def)+
  have lst: "last (take 100 rest) = rest ! k" using assms(3) k by (subst last_conv_nth) (auto simp: k_def min_def)
  have "retry_turn q = advance_cursor (rest ! k) q"
    using assms lst by (cases "take 100 rest") (auto simp: retry_turn_def retry_entries_batch)
  then have "above (retry_turn q) = filter (\<lambda>(u, _). fst (rest ! k) < u) (pre @ rest)"
    using assms(2) by (simp add: above_def advance_cursor_def)
  also have "pre @ rest = (pre @ take k rest) @ (fst (rest ! k), snd (rest ! k)) # drop (Suc k) rest"
    using k(1) by (simp add: id_take_nth_drop [symmetric])
  also have "filter (\<lambda>(u, _). fst (rest ! k) < u) \<dots> = drop (Suc k) rest"
    using assms(1,2) k(1) by (intro sorted_suffix_filter) (simp add: orderly_def id_take_nth_drop [symmetric])
  also have "\<dots> = drop 100 rest" using k(2) by (cases "length rest \<le> 100") (auto simp: min_def)
  finally show ?thesis .
qed

lemma turn_rows [simp]: "rt_rows (retry_turn q) = rt_rows q"
  by (auto simp: retry_turn_def advance_cursor_def split: sum.splits list.splits)

lemma turn_orderly [simp]: "orderly (retry_turn q) = orderly q"
  by (simp add: orderly_def)

lemma turns_rows [simp]: "rt_rows ((retry_turn ^^ n) q) = rt_rows q"
  by (induction n) simp_all

lemma turns_orderly [simp]: "orderly ((retry_turn ^^ n) q) = orderly q"
  by (simp add: orderly_def)

lemma turns_read:
  assumes "orderly q" "rt_rows q = pre @ rest" "batch q = take 100 rest" "i < length rest"
  shows "rest ! i \<in> set (batch ((retry_turn ^^ (i div 100)) q))"
  using assms
proof (induction "i div 100" arbitrary: i q pre rest)
  case 0
  then have "i < length (take 100 rest)" "take 100 rest ! i = rest ! i" by auto
  then show ?case using 0 by (metis funpow_0 nth_mem)
next
  case (Suc n)
  have i: "100 \<le> i" "n = (i - 100) div 100" using Suc(2) by (auto intro: ccontr)
  have ab: "above (retry_turn q) = drop 100 rest" using Suc.prems i by (intro above_next) auto
  have ne: "drop 100 rest \<noteq> []" using Suc.prems(4) i(1) by simp
  have "drop 100 rest ! (i - 100) \<in> set (batch ((retry_turn ^^ ((i - 100) div 100)) (retry_turn q)))"
  proof (rule Suc(1) [OF i(2)])
    show "rt_rows (retry_turn q) = (pre @ take 100 rest) @ drop 100 rest" using Suc.prems(2) by simp
  qed (use Suc.prems i ne ab in \<open>auto simp: batch_def\<close>)
  moreover have "drop 100 rest ! (i - 100) = rest ! i" using i(1) Suc.prems(4) by simp
  moreover have "(retry_turn ^^ (i div 100)) q = (retry_turn ^^ n) (retry_turn q)"
    using Suc(2) by (metis funpow_Suc_right o_apply)
  ultimately show ?case using i(2) by simp
qed

lemma turns_exhaust:
  assumes "orderly q" "rt_rows q = pre @ rest" "batch q = take 100 rest" "rest \<noteq> []"
  shows "above ((retry_turn ^^ ((length rest + 99) div 100)) q) = []"
  using assms
proof (induction "length rest" arbitrary: q pre rest rule: less_induct)
  case less
  have ab: "above (retry_turn q) = drop 100 rest" by (rule above_next [OF less.prems(1,2,4,3)])
  show ?case
  proof (cases "length rest \<le> 100")
    case True
    moreover have "Suc 0 \<le> length rest" using less.prems(4) by (simp add: Suc_le_eq)
    ultimately have "(length rest + 99) div 100 = 1" by (intro div_nat_eqI) simp_all
    then show ?thesis using ab True by simp
  next
    case False
    then have ne: "drop 100 rest \<noteq> []" by simp
    have "above ((retry_turn ^^ ((length (drop 100 rest) + 99) div 100)) (retry_turn q)) = []"
    proof (rule less.hyps)
      show "rt_rows (retry_turn q) = (pre @ take 100 rest) @ drop 100 rest" using less.prems(2) by simp
    qed (use less.prems ne ab False in \<open>auto simp: batch_def\<close>)
    moreover have "(length rest + 99) div 100 = Suc ((length (drop 100 rest) + 99) div 100)"
      using False by (simp add: le_div_geq)
    ultimately show ?thesis by (metis funpow_Suc_right o_apply)
  qed
qed

lemma filter_above_suffix:
  fixes c :: "'a :: linorder"
  shows "sorted_wrt (<) (map fst xs) \<Longrightarrow> \<exists>pre. xs = pre @ filter (\<lambda>(u, _). c < u) xs"
proof (induction xs)
  case (Cons x xs)
  show ?case
  proof (cases "c < fst x")
    case True
    then have "filter (\<lambda>(u, _). c < u) (x # xs) = x # xs"
      using Cons.prems unfolding filter_id_conv by (auto intro: order.strict_trans [of c "fst x"])
    then show ?thesis by (metis append_Nil)
  next
    case False
    obtain pre where "xs = pre @ filter (\<lambda>(u, _). c < u) xs" using Cons by auto
    then show ?thesis using False by (intro exI [of _ "x # pre"]) (auto split: prod.splits)
  qed
qed simp

lemma above_suffix: "orderly q \<Longrightarrow> \<exists>pre. rt_rows q = pre @ above q"
  using filter_above_suffix by (cases "rt_cursor q") (auto simp: above_def orderly_def)

lemma row_gets_turn:
  assumes "orderly q" "e \<in> set (rt_rows q)"
  shows "\<exists>n \<le> length (rt_rows q) div 100 + 1. e \<in> set (batch ((retry_turn ^^ n) q))"
proof -
  obtain pre where pre: "rt_rows q = pre @ above q" using above_suffix [OF assms(1)] by blast
  show ?thesis
  proof (cases "above q = []")
    case True
    obtain i where i: "i < length (rt_rows q)" "e = rt_rows q ! i" using assms(2) by (metis in_set_conv_nth)
    then have "e \<in> set (batch ((retry_turn ^^ (i div 100)) q))"
      using turns_read [OF assms(1), of "[]" "rt_rows q"] True by (simp add: batch_def)
    then show ?thesis using i(1) by (intro exI [of _ "i div 100"]) (simp add: div_le_mono le_SucI less_imp_le)
  next
    case False
    then have b: "batch q = take 100 (above q)" by (simp add: batch_def)
    show ?thesis
    proof (cases "e \<in> set (above q)")
      case True
      then obtain i where i: "i < length (above q)" "e = above q ! i" by (metis in_set_conv_nth)
      moreover have "i div 100 \<le> length (rt_rows q) div 100" using i(1) by (intro div_le_mono) (simp add: pre)
      ultimately show ?thesis using turns_read [OF assms(1) pre b i(1)] by (intro exI [of _ "i div 100"]) simp
    next
      case low: False
      define h where "h = length (above q)"
      define q1 where "q1 = (retry_turn ^^ ((h + 99) div 100)) q"
      have "above q1 = []" using turns_exhaust [OF assms(1) pre b False] by (simp add: q1_def h_def)
      then have b1: "batch q1 = take 100 (rt_rows q1)" by (simp add: batch_def)
      obtain j where j: "j < length pre" "e = pre ! j"
        using assms(2) low pre by (metis Un_iff in_set_conv_nth set_append)
      then have "e = rt_rows q1 ! j" "j < length (rt_rows q1)" using pre by (simp_all add: q1_def nth_append)
      then have "e \<in> set (batch ((retry_turn ^^ (j div 100)) q1))"
        using turns_read [of q1 "[]" "rt_rows q1" j] assms(1) b1 by (simp add: q1_def)
      then have "e \<in> set (batch ((retry_turn ^^ (j div 100 + (h + 99) div 100)) q))"
        by (simp add: q1_def funpow_add)
      moreover have "length (rt_rows q) = length pre + h" using pre by (simp add: h_def)
      then have "j div 100 + (h + 99) div 100 \<le> length (rt_rows q) div 100 + 1" using j(1) by linarith
      ultimately show ?thesis by blast
    qed
  qed
qed

subsection \<open>A concrete feed\<close>

definition demo_item :: feed_item where
  "demo_item = \<lparr>it_kind = RateConfig, it_id = lit ''p'', it_revision = lit ''7'', it_updated_at_ms = 5,
     it_ciphertext = Some (lit ''x''), it_wrapped_key = None\<rparr>"

definition demo_env :: "(unit, unit) feed_env" where
  "demo_env = \<lparr>en_b64 = \<lparr>b64_decode = \<lambda>_. Some (1 # replicate 30 0), b64_encode = \<lambda>_. lit ''x''\<rparr>, en_pi_id = lit ''p'',
     en_binding = lit ''b'', en_cancelled = \<lambda>_. False, en_others = \<lambda>_ w. w,
     en_server = \<lambda>_ _. PageResponse \<lparr>pg_ok = True, pg_items = [demo_item], pg_next_cursor = None, pg_version = 2, pg_revision = lit ''9''\<rparr>,
     en_prepare = \<lambda>_ g. if list_ex (\<lambda>u. snd u = lit ''bad'') g then SourceError else NothingToDo,
     en_apply = \<lambda>_ _. None, en_project = \<lambda>_ l. Some l, en_states = \<lambda>_ _. None, en_nonce = \<lambda>_. lit ''n''\<rparr>"

definition demo_world :: "unit feed_world" where
  "demo_world = \<lparr>fw_pairing = Some (lit ''b''), fw_checkpoint = None, fw_walk = None,
     fw_retry = \<lambda>_. \<lparr>rt_rows = [], rt_cursor = None, rt_generation = 0\<rparr>, fw_local = ()\<rparr>"

definition demo_after :: "unit feed_world" where
  "demo_after = demo_world\<lparr>fw_checkpoint := Some (Readable \<lparr>cp_version = 2, cp_binding = lit ''b'', cp_revision = lit ''9''\<rparr>),
     fw_retry := (fw_retry demo_world)(lit ''b'' := \<lparr>rt_rows = [((RateConfig, lit ''p''), lit ''n'')], rt_cursor = None, rt_generation = 1\<rparr>)\<rparr>"

lemma demo_validate:
  "validate (en_b64 demo_env) [112] (new_walk None)
     \<lparr>pg_ok = True, pg_items = [demo_item], pg_next_cursor = None, pg_version = 2, pg_revision = [57]\<rparr> =
   Inr \<lparr>wk_since = None, wk_checkpoint = Some [57], wk_cursor = None, wk_last = Some (0, RateConfig, [112])\<rparr>"
  by (simp add: validate_def demo_item_def demo_env_def new_walk_def revision_def utf8_len_def utf8_width_def is_digit_def parse_i64_def
      parse_unsigned_def parse_digits_def lit_def ensure_def ok_or_def max_time_ms_def item_order_def item_envelopes_def valid_envelope_def Let_def)

lemma demo_pull:
  "pull_feed demo_env 0 demo_world =
     Some (Inr (), demo_after, [\<lparr>cm_items = [demo_item], cm_done = [], cm_failed = [(RateConfig, lit ''p'')]\<rparr>])"
proof -
  have k: "it_kind demo_item = RateConfig" "target_of demo_item = (RateConfig, lit ''p'')" by (simp_all add: demo_item_def target_of_def)
  have v: "en_server demo_env n wk = PageResponse \<lparr>pg_ok = True, pg_items = [demo_item], pg_next_cursor = None, pg_version = 2, pg_revision = lit ''9''\<rparr>"
    "en_pi_id demo_env = lit ''p''" "en_binding demo_env = lit ''b''" "en_cancelled demo_env n = False" "en_others demo_env n w = w"
    "en_apply demo_env i l = None" "en_nonce demo_env n = lit ''n''" for n wk w i l by (simp_all add: demo_env_def)
  show ?thesis
    by (simp add: pull_feed_def feed_loop.simps feed_round_def v demo_validate apply_page_def k await_def apply_guard_def current_pairing_def
        check_progress_def commit_round_def record_outcome_def bump_generation_def demo_world_def demo_after_def Let_def ensure_def
        resume_walk_def since_of_def fun_eq_iff)
qed

section \<open>Properties\<close>

text \<open>
  C15. A pull of changes returns for every server, every interleaving with other users of the store and
  every state of the store: each accepted page moves the walk forward in a finite set of positions and
  the feed is reset at most once, so a server cannot keep the device in the loop with fresh cursors, and
  the lookup of a remembered record in the server's answer never fails.
\<close>

theorem pull_changes_returns: "\<exists>x. pull_changes env t t1 t2 w = Some x"
proof -
  obtain retried w1 where r: "retry_incoming env t w = Some (retried, w1)" using retry_incoming_returns by (metis surj_pair)
  obtain received w2 cs where f: "pull_feed env t1 w1 = Some (received, w2, cs)" using pull_feed_returns by (metis prod_cases3)
  show ?thesis by (simp add: pull_changes_def r f Let_def split: sum.splits)
qed



text \<open>
  C27. Routes that cannot be read are isolated: when exactly the groups with a bad route fail to be
  prepared, halving ends with every bad route, and no other, in the list of failures, and all the others
  applied, in their order.
\<close>

theorem unreadable_routes_isolated:
  assumes "\<forall>i. \<not> en_cancelled env i"
    and "\<forall>i v. apply_guard (en_binding env) ax v = Inr () \<longrightarrow> apply_guard (en_binding env) ax (en_others env i v) = Inr ()"
    and "apply_guard (en_binding env) ax w = Inr ()"
    and "\<forall>i g. if list_ex bad g then en_prepare env i g = SourceError
      else en_prepare env i g = NothingToDo \<or> (\<exists>p. en_prepare env i g = Projection p \<and> (\<forall>l. en_project env p l \<noteq> None))"
  shows "\<exists>a. apply_page env ax items t w = Inr a \<and>
    filter (\<lambda>u. fst u = Route) (ap_failed a) = filter bad (map target_of (filter (\<lambda>it. it_kind it = Route) items)) \<and>
    filter (\<lambda>u. fst u = Route) (ap_done a) = filter (\<lambda>u. \<not> bad u) (map target_of (filter (\<lambda>it. it_kind it = Route) items))"
proof -
  define routes where "routes = map target_of (filter (\<lambda>it. it_kind it = Route) items)"
  have calm: "calm env ax" and ready: "readable_but env bad" using assms by (simp_all add: calm_def readable_but_def)
  obtain a1 where a1: "apply_items env ax items \<lparr>ap_time = t, ap_world = w, ap_done = [], ap_failed = []\<rparr> = Inr a1"
    "apply_guard (en_binding env) ax (ap_world a1) = Inr ()" "\<forall>u \<in> set (ap_done a1) \<union> set (ap_failed a1). fst u \<noteq> Route"
    using apply_items_calm [OF calm, of "\<lparr>ap_time = t, ap_world = w, ap_done = [], ap_failed = []\<rparr>" items] assms(3) by auto
  have c: "concat (if routes = [] then [] else [routes]) = routes" by simp
  obtain a where a: "apply_groups env ax (if routes = [] then [] else [routes]) a1 = Inr a"
    "ap_failed a = ap_failed a1 @ filter bad routes" "ap_done a = ap_done a1 @ filter (\<lambda>u. \<not> bad u) routes"
    using apply_groups_isolates [OF calm ready a1(2)] c by metis
  have "filter (\<lambda>u. fst u = Route) (ap_failed a1) = []" "filter (\<lambda>u. fst u = Route) (ap_done a1) = []"
    using a1(3) by (auto simp: filter_empty_conv)
  moreover have "\<forall>u \<in> set routes. fst u = Route" by (auto simp: routes_def target_of_def)
  ultimately have "filter (\<lambda>u. fst u = Route) (ap_failed a) = filter bad routes"
    "filter (\<lambda>u. fst u = Route) (ap_done a) = filter (\<lambda>u. \<not> bad u) routes"
    using a(2,3) by (auto intro: filter_cong)
  moreover have "apply_page env ax items t w = Inr a" 
    unfolding apply_page_def Let_def routes_def [symmetric] a1(1) bindR.simps by (rule a(1))
  ultimately show ?thesis unfolding routes_def by blast
qed

theorem unreadable_routes_isolated_witness:
  "\<exists>a. apply_page demo_env \<lparr>ax_checkpoint = None, ax_walk = None, ax_generation = None\<rparr>
       (map (\<lambda>i. demo_item\<lparr>it_kind := Route, it_id := i\<rparr>) [lit ''u'', lit ''bad'', lit ''v'']) 0 demo_world = Inr a \<and>
     filter (\<lambda>u. fst u = Route) (ap_failed a) = [(Route, lit ''bad'')] \<and>
     filter (\<lambda>u. fst u = Route) (ap_done a) = [(Route, lit ''u''), (Route, lit ''v'')]"
  using unreadable_routes_isolated [of demo_env "\<lparr>ax_checkpoint = None, ax_walk = None, ax_generation = None\<rparr>" demo_world
      "\<lambda>u. snd u = lit ''bad''" "map (\<lambda>i. demo_item\<lparr>it_kind := Route, it_id := i\<rparr>) [lit ''u'', lit ''bad'', lit ''v'']" 0]
  by (simp add: demo_env_def demo_world_def demo_item_def target_of_def apply_guard_def current_pairing_def check_progress_def ensure_def)

text \<open>
  No remembered record starves: whatever the cursor, and even when none of the records ever becomes
  readable, each row is among those that are read in one of the next \<open>n div 100 + 2\<close> turns, where \<open>n\<close> is
  the number of rows and a turn reads the next rows and moves the cursor to the last of them.
\<close>

theorem retry_rows_get_turn:
  assumes "sorted_wrt (<) (map fst (rt_rows q))" "list_all (\<lambda>e. valid_target (fst e)) (rt_rows q)" "e \<in> set (rt_rows q)"
  shows "\<exists>n \<le> length (rt_rows q) div 100 + 1. \<exists>es. retry_entries ((retry_turn ^^ n) q) = Inr es \<and> e \<in> set es"
proof -
  have o: "orderly q" using assms(1,2) by (simp add: orderly_def list_all_iff)
  then obtain n where "n \<le> length (rt_rows q) div 100 + 1" "e \<in> set (batch ((retry_turn ^^ n) q))"
    using row_gets_turn assms(3) by blast
  then show ?thesis using retry_entries_batch [of "(retry_turn ^^ n) q"] o by auto
qed

theorem retry_rows_get_turn_witness:
  "\<exists>n \<le> 1. \<exists>es. retry_entries ((retry_turn ^^ n)
     \<lparr>rt_rows = [((RateConfig, lit ''p''), lit ''n'')], rt_cursor = Some (Route, []), rt_generation = 1\<rparr>) = Inr es \<and>
     ((RateConfig, lit ''p''), lit ''n'') \<in> set es"
  using retry_rows_get_turn [of "\<lparr>rt_rows = [((RateConfig, lit ''p''), lit ''n'')], rt_cursor = Some (Route, []), rt_generation = 1\<rparr>"
      "((RateConfig, lit ''p''), lit ''n'')"]
  by (simp add: valid_target_def utf8_len_def utf8_width_def)

end
