(* ===== verification/KeepAccessory.thy ===== *)
theory KeepAccessory
  imports Config Float64
begin

section \<open>Keeping the accessory outlet powered\<close>

text \<open>
  \<^verbatim>\<open>crates/tesla_telemetry/src/keep_accessory.rs\<close> and \<^verbatim>\<open>config.rs\<close>: the policy that turns the car's accessory power
  on and off for a device powered from the outlet. One evaluation is a function from the state and the
  inputs of a tick to the new state and the effects, in their order: pushes, commands to the car and
  entries of the persistent log. The great-circle distance, made of trigonometric functions, is a
  parameter. A clock gives the successive readings of \<^verbatim>\<open>Instant::now\<close> within the tick, in nanoseconds; the
  result of a command is an input. Messages of \<^verbatim>\<open>tracing\<close> are left out.
\<close>

datatype charging_state = Unknown | Disconnected | NoPower | Starting | Charging | Complete | Stopped | Calibrating

record accessory_config =
  ka_enabled :: bool
  home_lat :: "f64 option"
  home_lon :: "f64 option"
  home_radius_m :: f64
  hold_for_charge :: bool
  charge_grace_min :: nat

subsection \<open>Reading the configuration\<close>

record ble_config =
  bc_enabled :: bool
  bc_vin :: ustr
  bc_adapter :: ustr
  bc_accessory :: accessory_config
  bc_away_auto :: bool
  bc_experimental :: bool
  bc_nudge_secs :: nat
  bc_keep_awake :: bool

definition yes_value :: "ustr \<Rightarrow> bool" where
  "yes_value v \<longleftrightarrow> v = lit ''yes'' \<or> v = lit ''true'' \<or> v = lit ''1''"

definition parse_keep_awake_enabled :: "ustr option \<Rightarrow> bool" where
  "parse_keep_awake_enabled raw = (case raw of Some v \<Rightarrow> yes_value v | None \<Rightarrow> False)"

definition trimmed_switch :: "setup_config \<Rightarrow> ustr \<Rightarrow> bool" where
  "trimmed_switch active k = (case active k of Some v \<Rightarrow> yes_value (trim v) | None \<Rightarrow> False)"

definition trimmed_f64 :: "setup_config \<Rightarrow> ustr \<Rightarrow> f64 option" where
  "trimmed_f64 active k = Option.bind (active k) (\<lambda>v. parse_f64 (trim v))"

definition u64_max :: nat where "u64_max = 2 ^ 64 - 1"

definition default_home_radius :: f64 where "default_home_radius = Finite 120"

definition default_charge_grace_min :: nat where "default_charge_grace_min = 45"

definition load_accessory :: "setup_config \<Rightarrow> accessory_config" where
  "load_accessory active =
     \<lparr>ka_enabled = trimmed_switch active (lit ''KEEP_ACCESSORY_ENABLED''),
      home_lat = trimmed_f64 active (lit ''KEEP_ACCESSORY_HOME_LAT''),
      home_lon = trimmed_f64 active (lit ''KEEP_ACCESSORY_HOME_LON''),
      home_radius_m = (case trimmed_f64 active (lit ''KEEP_ACCESSORY_HOME_RADIUS_M'') of
         Some r \<Rightarrow> if f64_gt r 0 then r else default_home_radius | None \<Rightarrow> default_home_radius),
      hold_for_charge = trimmed_switch active (lit ''KEEP_ACCESSORY_HOLD_FOR_CHARGE''),
      charge_grace_min = (case Option.bind (active (lit ''KEEP_ACCESSORY_CHARGE_GRACE_MIN'')) (\<lambda>v. parse_unsigned u64_max (trim v)) of
         Some m \<Rightarrow> if m > 0 then m else default_charge_grace_min | None \<Rightarrow> default_charge_grace_min)\<rparr>"

definition default_adapter :: ustr where "default_adapter = lit ''hci0''"

definition pick_adapter :: "(ustr \<Rightarrow> bool) \<Rightarrow> ustr option \<Rightarrow> ustr" where
  "pick_adapter adapter_exists configured =
     (case configured of None \<Rightarrow> default_adapter
      | Some v \<Rightarrow> let want = trim v
          in if take 3 want = lit ''hci'' \<and> adapter_exists want then want else default_adapter)"

definition load_ble_config :: "(ustr \<Rightarrow> ustr) \<Rightarrow> (ustr \<Rightarrow> bool) \<Rightarrow> setup_config \<Rightarrow> setup_config \<Rightarrow> ble_config" where
  "load_ble_config to_uppercase adapter_exists active commented =
     \<lparr>bc_enabled = (case get_config_value active commented (lit ''BLE_ENABLED'') of Some v \<Rightarrow> yes_value v | None \<Rightarrow> False),
      bc_vin = to_uppercase (case active (lit ''TESLA_BLE_VIN'') of Some v \<Rightarrow> v | None \<Rightarrow> []),
      bc_adapter = pick_adapter adapter_exists (active (lit ''BLE_ADAPTER'')),
      bc_accessory = load_accessory active,
      bc_away_auto = trimmed_switch active (lit ''AWAY_MODE_AUTO_ENABLED''),
      bc_experimental = (case get_config_value active commented (lit ''SENTRYUSB_EXPERIMENTAL'') of Some v \<Rightarrow> yes_value v | None \<Rightarrow> False),
      bc_nudge_secs = (case Option.bind (get_config_value active commented (lit ''BLE_KEEP_AWAKE_INTERVAL_SEC'')) (\<lambda>v. parse_unsigned u64_max (trim v)) of
         Some n \<Rightarrow> if 15 \<le> n \<and> n \<le> 900 then n else 60 | None \<Rightarrow> 60),
      bc_keep_awake = parse_keep_awake_enabled (get_config_value active commented (lit ''BLE_KEEP_AWAKE_ENABLED''))\<rparr>"

subsection \<open>The decision\<close>

datatype reason =
    Away | Archiving | PluggedIn | ChargeCompleteSoon | ChargeReleased | ArchiveFinished | WaitingForArchive | NothingToArchive

definition decide_desired :: "bool \<Rightarrow> bool \<Rightarrow> bool \<Rightarrow> bool \<Rightarrow> bool \<Rightarrow> bool \<Rightarrow> bool \<Rightarrow> bool \<Rightarrow> (bool \<times> reason) option" where
  "decide_desired is_home parked archive_active archive_seen grace_expired charge_hold charge_complete_grace charge_done =
     (if \<not> is_home then Some (True, Away)
      else if \<not> parked then None
      else if archive_active then Some (True, Archiving)
      else if charge_hold then Some (True, PluggedIn)
      else if charge_complete_grace then Some (True, ChargeCompleteSoon)
      else if charge_done then Some (False, ChargeReleased)
      else if archive_seen then Some (False, ArchiveFinished)
      else if \<not> grace_expired then Some (True, WaitingForArchive)
      else Some (False, NothingToArchive))"

subsection \<open>The state and the inputs\<close>

record accessory_state =
  last_sent :: "bool option"
  home_arrival :: "nat option"
  archive_seen_active :: bool
  offline_notified :: bool
  coverage_notified :: bool
  send_fail_streak :: nat
  fail_notified :: bool
  charge_hold_since :: "nat option"
  charge_complete_at :: "nat option"
  charge_hb_at :: "nat option"
  charge_hold_notified :: bool
  charge_grace_notified :: bool

definition accessory_init :: accessory_state where
  "accessory_init =
     \<lparr>last_sent = None, home_arrival = None, archive_seen_active = False, offline_notified = False, coverage_notified = False,
      send_fail_streak = 0, fail_notified = False, charge_hold_since = None, charge_complete_at = None, charge_hb_at = None,
      charge_hold_notified = False, charge_grace_notified = False\<rparr>"

record tick =
  tk_cfg :: accessory_config
  tk_lat :: "f64 option"
  tk_lon :: "f64 option"
  tk_parked :: bool
  tk_archive :: bool
  tk_radio :: bool
  tk_charging :: "charging_state option"
  tk_clock :: "nat \<Rightarrow> nat"
  tk_send_ok :: bool

datatype push =
    ChargingPowerRequested
  | ChargeCompletePush nat
  | SentryPowerRequested
  | ReleasingPower bool
  | AccessoryIssue bool

datatype log_entry =
    HoldingFor nat
  | ReleasingIn nat
  | SentOk bool reason
  | SendFailed bool reason

datatype effect = Push push | Command bool | Log log_entry

definition secs :: "nat \<Rightarrow> nat" where "secs n = n * 1000000000"

definition archive_start_grace :: nat where "archive_start_grace = secs (5 * 60)"

definition charge_hold_max :: nat where "charge_hold_max = secs (18 * 60 * 60)"

definition charge_hold_heartbeat :: nat where "charge_hold_heartbeat = secs (5 * 60)"

definition fail_notify_streak :: nat where "fail_notify_streak = 4"

definition u32_max :: nat where "u32_max = 2 ^ 32 - 1"

definition elapsed :: "tick \<Rightarrow> nat \<Rightarrow> nat \<Rightarrow> nat" where
  "elapsed tk k t = tk_clock tk k - t"

fun f64_leq :: "f64 \<Rightarrow> f64 \<Rightarrow> bool" where
  "f64_leq (Finite a) (Finite b) = (a \<le> b)"
| "f64_leq NotANumber y = False"
| "f64_leq x NotANumber = False"
| "f64_leq NegInfinity y = True"
| "f64_leq x NegInfinity = False"
| "f64_leq x PosInfinity = True"
| "f64_leq PosInfinity y = False"

type_synonym distance = "f64 \<Rightarrow> f64 \<Rightarrow> f64 \<Rightarrow> f64 \<Rightarrow> f64"

text \<open>Whether the car is at home; \<open>None\<close> when the policy is off, has no home centre or no position.\<close>

definition home_check :: "distance \<Rightarrow> tick \<Rightarrow> bool option" where
  "home_check distance_m tk =
     (if \<not> ka_enabled (tk_cfg tk) then None
      else case (home_lat (tk_cfg tk), home_lon (tk_cfg tk)) of
             (Some hla, Some hlo) \<Rightarrow>
               (case (tk_lat tk, tk_lon tk) of
                  (Some la, Some lo) \<Rightarrow> Some (f64_leq (distance_m la lo hla hlo) (home_radius_m (tk_cfg tk)))
                | _ \<Rightarrow> None)
           | _ \<Rightarrow> None)"

subsection \<open>One evaluation\<close>

definition note_arrival :: "bool \<Rightarrow> tick \<Rightarrow> accessory_state \<Rightarrow> accessory_state" where
  "note_arrival is_home tk s =
     (let s1 = (if is_home \<and> tk_parked tk
                then if home_arrival s = None then s\<lparr>home_arrival := Some (tk_clock tk 0), archive_seen_active := False\<rparr> else s
                else s\<lparr>home_arrival := None, archive_seen_active := False\<rparr>)
      in if tk_archive tk then s1\<lparr>archive_seen_active := True\<rparr> else s1)"

definition grace_over :: "tick \<Rightarrow> accessory_state \<Rightarrow> bool" where
  "grace_over tk s = (case home_arrival s of Some t \<Rightarrow> elapsed tk 1 t \<ge> archive_start_grace | None \<Rightarrow> False)"

definition cable_connected :: "tick \<Rightarrow> bool" where
  "cable_connected tk \<longleftrightarrow> hold_for_charge (tk_cfg tk) \<and>
     tk_charging tk \<in> {Some Starting, Some Charging, Some Calibrating, Some Complete, Some Stopped, Some NoPower}"

definition charge_eligible :: "bool \<Rightarrow> tick \<Rightarrow> bool" where
  "charge_eligible is_home tk \<longleftrightarrow> hold_for_charge (tk_cfg tk) \<and> is_home \<and> tk_parked tk \<and> cable_connected tk"

definition charge_session_live :: "bool \<Rightarrow> tick \<Rightarrow> bool" where
  "charge_session_live is_home tk \<longleftrightarrow> hold_for_charge (tk_cfg tk) \<and> is_home \<and> cable_connected tk"

definition note_charge :: "bool \<Rightarrow> tick \<Rightarrow> accessory_state \<Rightarrow> accessory_state" where
  "note_charge is_home tk s =
     (if charge_eligible is_home tk
      then let s1 = (if charge_hold_since s = None then s\<lparr>charge_hold_since := Some (tk_clock tk 2), charge_complete_at := None\<rparr> else s)
           in if tk_charging tk = Some Complete \<and> charge_complete_at s1 = None then s1\<lparr>charge_complete_at := Some (tk_clock tk 3)\<rparr> else s1
      else if charge_hold_since s \<noteq> None \<and> charge_session_live is_home tk then s
      else s\<lparr>charge_hold_since := None, charge_complete_at := None, charge_hold_notified := False, charge_grace_notified := False\<rparr>)"

definition charge_grace :: "tick \<Rightarrow> nat" where
  "charge_grace tk = secs (min u64_max (charge_grace_min (tk_cfg tk) * 60))"

definition hold_capped :: "tick \<Rightarrow> accessory_state \<Rightarrow> bool" where
  "hold_capped tk s = (case charge_hold_since s of Some t \<Rightarrow> elapsed tk 4 t \<ge> charge_hold_max | None \<Rightarrow> False)"

definition complete_grace_active :: "tick \<Rightarrow> accessory_state \<Rightarrow> bool" where
  "complete_grace_active tk s = (case charge_complete_at s of Some t \<Rightarrow> elapsed tk 5 t < charge_grace tk | None \<Rightarrow> False)"

definition charge_done :: "bool \<Rightarrow> tick \<Rightarrow> accessory_state \<Rightarrow> bool" where
  "charge_done is_home tk s \<longleftrightarrow> charge_eligible is_home tk \<and> (hold_capped tk s \<or> charge_complete_at s \<noteq> None \<and> \<not> complete_grace_active tk s)"

definition charge_complete_grace :: "bool \<Rightarrow> tick \<Rightarrow> accessory_state \<Rightarrow> bool" where
  "charge_complete_grace is_home tk s \<longleftrightarrow> charge_eligible is_home tk \<and> \<not> charge_done is_home tk s \<and> complete_grace_active tk s"

definition charge_hold :: "bool \<Rightarrow> tick \<Rightarrow> accessory_state \<Rightarrow> bool" where
  "charge_hold is_home tk s \<longleftrightarrow> charge_eligible is_home tk \<and> \<not> charge_done is_home tk s \<and> \<not> charge_complete_grace is_home tk s"

definition charge_pushes :: "bool \<Rightarrow> tick \<Rightarrow> accessory_state \<Rightarrow> accessory_state \<times> effect list" where
  "charge_pushes is_home tk s =
     (let hold = charge_hold is_home tk s; soon = charge_complete_grace is_home tk s;
          p1 = hold \<and> \<not> charge_hold_notified s; p2 = soon \<and> \<not> charge_grace_notified s
      in (s\<lparr>charge_hold_notified := charge_hold_notified s \<or> p1, charge_grace_notified := charge_grace_notified s \<or> p2\<rparr>,
          (if p1 then [Push ChargingPowerRequested] else []) @
          (if p2 then [Push (ChargeCompletePush (charge_grace_min (tk_cfg tk)))] else [])))"

definition heartbeat :: "bool \<Rightarrow> tick \<Rightarrow> accessory_state \<Rightarrow> accessory_state \<times> effect list" where
  "heartbeat is_home tk s =
     (if charge_hold is_home tk s \<or> charge_complete_grace is_home tk s
      then if (case charge_hb_at s of Some t \<Rightarrow> elapsed tk 6 t \<ge> charge_hold_heartbeat | None \<Rightarrow> True)
           then (s\<lparr>charge_hb_at := Some (tk_clock tk 7)\<rparr>,
                 [Log (if charge_complete_grace is_home tk s
                       then ReleasingIn (case charge_complete_at s of Some t \<Rightarrow> (charge_grace tk - elapsed tk 8 t) div secs 1 div 60 | None \<Rightarrow> 0)
                       else HoldingFor (case charge_hold_since s of Some t \<Rightarrow> elapsed tk 8 t div secs 1 div 60 | None \<Rightarrow> 0))])
           else (s, [])
      else (s\<lparr>charge_hb_at := None\<rparr>, []))"

definition coverage_push :: "bool \<Rightarrow> bool \<Rightarrow> accessory_state \<Rightarrow> accessory_state \<times> effect list" where
  "coverage_push is_home desired s =
     (let s1 = (if is_home then s\<lparr>coverage_notified := False\<rparr> else s)
      in if desired \<and> \<not> is_home \<and> \<not> coverage_notified s1
         then (s1\<lparr>coverage_notified := True\<rparr>, [Push SentryPowerRequested]) else (s1, []))"

definition send_result :: "bool \<Rightarrow> reason \<Rightarrow> bool \<Rightarrow> accessory_state \<Rightarrow> accessory_state \<times> effect list" where
  "send_result desired why answered s =
     (if answered
      then (s\<lparr>last_sent := Some desired, send_fail_streak := 0, fail_notified := False\<rparr>, [Log (SentOk desired why)])
      else let s1 = s\<lparr>send_fail_streak := min u32_max (send_fail_streak s + 1)\<rparr>
           in if send_fail_streak s1 \<ge> fail_notify_streak \<and> \<not> fail_notified s1
              then (s1\<lparr>fail_notified := True\<rparr>, [Log (SendFailed desired why), Push (AccessoryIssue desired)])
              else (s1, [Log (SendFailed desired why)]))"

definition send_power :: "bool \<Rightarrow> reason \<Rightarrow> tick \<Rightarrow> accessory_state \<Rightarrow> accessory_state \<times> effect list" where
  "send_power desired why tk s =
     (let s1 = (if desired then s\<lparr>offline_notified := False\<rparr> else s);
          warn = \<not> desired \<and> \<not> offline_notified s1;
          s2 = (if warn then s1\<lparr>offline_notified := True\<rparr> else s1);
          (s3, es) = send_result desired why (tk_send_ok tk) s2
      in (s3, (if warn then [Push (ReleasingPower (archive_seen_active s1))] else []) @ [Command desired] @ es))"

definition enforce :: "bool \<Rightarrow> tick \<Rightarrow> bool \<times> reason \<Rightarrow> accessory_state \<Rightarrow> accessory_state \<times> effect list" where
  "enforce is_home tk d s =
     (let (desired, why) = d; (s1, es) = coverage_push is_home desired s
      in if last_sent s1 = Some desired \<or> \<not> tk_radio tk then (s1, es)
         else let (s2, es') = send_power desired why tk s1 in (s2, es @ es'))"

definition decision :: "bool \<Rightarrow> tick \<Rightarrow> accessory_state \<Rightarrow> (bool \<times> reason) option" where
  "decision is_home tk s =
     decide_desired is_home (tk_parked tk) (tk_archive tk) (archive_seen_active s) (grace_over tk s)
       (charge_hold is_home tk s) (charge_complete_grace is_home tk s) (charge_done is_home tk s)"

definition noted :: "bool \<Rightarrow> tick \<Rightarrow> accessory_state \<Rightarrow> accessory_state" where
  "noted is_home tk s = note_charge is_home tk (note_arrival is_home tk s)"

definition evaluate :: "distance \<Rightarrow> tick \<Rightarrow> accessory_state \<Rightarrow> accessory_state \<times> effect list" where
  "evaluate distance_m tk s =
     (case home_check distance_m tk of None \<Rightarrow> (s, [])
      | Some is_home \<Rightarrow>
          (let s0 = noted is_home tk s;
               (s1, es1) = charge_pushes is_home tk s0;
               (s2, es2) = heartbeat is_home tk s1
           in case decision is_home tk s0 of None \<Rightarrow> (s2, es1 @ es2)
              | Some d \<Rightarrow> (let (s3, es3) = enforce is_home tk d s2 in (s3, es1 @ es2 @ es3))))"

fun run_ticks :: "distance \<Rightarrow> tick list \<Rightarrow> accessory_state \<Rightarrow> accessory_state \<times> effect list list" where
  "run_ticks distance_m [] s = (s, [])"
| "run_ticks distance_m (tk # tks) s =
     (let (s1, es) = evaluate distance_m tk s; (s2, ess) = run_ticks distance_m tks s1 in (s2, es # ess))"

subsection \<open>What the history asks for\<close>

text \<open>
  The ticks that count, with whether the car was at home; the stay at home that is going on, newest tick
  first; the ticks of the charge that is going on during which the car was parked, oldest first.
\<close>

definition counted :: "distance \<Rightarrow> tick list \<Rightarrow> (bool \<times> tick) list" where
  "counted distance_m tks = List.map_filter (\<lambda>tk. map_option (\<lambda>h. (h, tk)) (home_check distance_m tk)) tks"

definition stay :: "(bool \<times> tick) list \<Rightarrow> tick list" where
  "stay hs = map snd (takeWhile (\<lambda>(h, tk). h \<and> tk_parked tk) (rev hs))"

definition charge_ticks :: "(bool \<times> tick) list \<Rightarrow> tick list" where
  "charge_ticks hs = map snd (filter (\<lambda>(h, tk). charge_eligible h tk) (rev (takeWhile (\<lambda>(h, tk). charge_session_live h tk) (rev hs))))"

definition complete_ticks :: "(bool \<times> tick) list \<Rightarrow> tick list" where
  "complete_ticks hs = filter (\<lambda>tk. tk_charging tk = Some Complete) (charge_ticks hs)"

text \<open>
  Whether the outlet should be on after the given ticks, the last of which is \<open>tk\<close>: on away from home,
  no change while moving at home, on while the archive runs; while plugged in on until the charge has
  been complete for the configured time or held for 18 hours; else off once the archive has run during
  this stay, or the stay is 5 minutes old.
\<close>

definition charge_over :: "(bool \<times> tick) list \<Rightarrow> tick \<Rightarrow> bool" where
  "charge_over hs tk \<longleftrightarrow>
     elapsed tk 4 (tk_clock (hd (charge_ticks hs)) 2) \<ge> secs (18 * 60 * 60) \<or>
     complete_ticks hs \<noteq> [] \<and> elapsed tk 5 (tk_clock (hd (complete_ticks hs)) 3) \<ge> charge_grace tk"

definition wants_power :: "(bool \<times> tick) list \<Rightarrow> bool \<times> tick \<Rightarrow> bool option" where
  "wants_power hs x = (case x of (is_home, tk) \<Rightarrow>
     if \<not> is_home then Some True
     else if \<not> tk_parked tk then None
     else if tk_archive tk then Some True
     else if cable_connected tk then Some (\<not> charge_over hs tk)
     else if \<exists>u \<in> set (stay hs). tk_archive u then Some False
     else Some (elapsed tk 1 (tk_clock (last (stay hs)) 0) < secs (5 * 60)))"

definition accepted :: "effect list list \<Rightarrow> bool list" where
  "accepted ess = List.map_filter (\<lambda>e. case e of Log (SentOk b r) \<Rightarrow> Some b | _ \<Rightarrow> None) (concat ess)"

section \<open>Lemmas\<close>

subsection \<open>The memory of the policy\<close>

type_synonym memory = "nat option \<times> bool \<times> nat option \<times> nat option"

definition memory :: "accessory_state \<Rightarrow> memory" where
  "memory s = (home_arrival s, archive_seen_active s, charge_hold_since s, charge_complete_at s)"

lemma memory_charge_pushes [simp]: "memory (fst (charge_pushes h tk s)) = memory s"
  by (simp add: charge_pushes_def memory_def Let_def)

lemma memory_heartbeat [simp]: "memory (fst (heartbeat h tk s)) = memory s"
  by (simp add: heartbeat_def memory_def)

lemma memory_coverage_push [simp]: "memory (fst (coverage_push h d s)) = memory s"
  by (simp add: coverage_push_def memory_def Let_def)

lemma memory_send_result [simp]: "memory (fst (send_result d y a s)) = memory s"
  by (simp add: send_result_def memory_def Let_def)

lemma memory_send_power [simp]: "memory (fst (send_power d y tk s)) = memory s"
  using memory_send_result by (simp add: send_power_def Let_def case_prod_beta memory_def)

lemma memory_enforce [simp]: "memory (fst (enforce h tk d s)) = memory s"
  by (simp add: enforce_def Let_def case_prod_beta)

lemma memory_evaluate:
  "memory (fst (evaluate distance_m tk s)) = (case home_check distance_m tk of None \<Rightarrow> memory s | Some h \<Rightarrow> memory (noted h tk s))"
  by (simp add: evaluate_def Let_def case_prod_beta split: option.splits)

definition remembers :: "(bool \<times> tick) list \<Rightarrow> accessory_state \<Rightarrow> bool" where
  "remembers hs s \<longleftrightarrow>
     home_arrival s = (if stay hs = [] then None else Some (tk_clock (last (stay hs)) 0)) \<and>
     archive_seen_active s = (if stay hs = [] then hs \<noteq> [] \<and> tk_archive (snd (last hs)) else \<exists>u \<in> set (stay hs). tk_archive u) \<and>
     charge_hold_since s = (if charge_ticks hs = [] then None else Some (tk_clock (hd (charge_ticks hs)) 2)) \<and>
     charge_complete_at s = (if complete_ticks hs = [] then None else Some (tk_clock (hd (complete_ticks hs)) 3))"

lemma remembers_cong: "memory s = memory s' \<Longrightarrow> remembers hs s = remembers hs s'"
  by (simp add: memory_def remembers_def)

lemma stay_snoc: "stay (hs @ [(h, tk)]) = (if h \<and> tk_parked tk then tk # stay hs else [])"
  by (simp add: stay_def)

lemma charge_ticks_snoc:
  "charge_ticks (hs @ [(h, tk)]) =
     (if charge_eligible h tk then charge_ticks hs @ [tk] else if charge_session_live h tk then charge_ticks hs else [])"
  by (simp add: charge_ticks_def charge_eligible_def charge_session_live_def)

lemma complete_ticks_snoc:
  "complete_ticks (hs @ [(h, tk)]) =
     (if charge_eligible h tk then complete_ticks hs @ (if tk_charging tk = Some Complete then [tk] else [])
      else if charge_session_live h tk then complete_ticks hs else [])"
  by (simp add: complete_ticks_def charge_ticks_snoc)

lemma complete_ticks_sub: "complete_ticks hs \<noteq> [] \<Longrightarrow> charge_ticks hs \<noteq> []"
  by (auto simp: complete_ticks_def)

lemma remembers_noted: "remembers hs s \<Longrightarrow> remembers (hs @ [(h, tk)]) (noted h tk s)"
proof -
  assume r: "remembers hs s"
  have arrival: "home_arrival (noted h tk s) = home_arrival (note_arrival h tk s)"
    "archive_seen_active (noted h tk s) = archive_seen_active (note_arrival h tk s)"
    by (simp_all add: noted_def note_charge_def Let_def)
  have charge: "charge_hold_since (note_arrival h tk s) = charge_hold_since s" "charge_complete_at (note_arrival h tk s) = charge_complete_at s"
    by (simp_all add: note_arrival_def Let_def)
  have "home_arrival (note_arrival h tk s) = (if stay (hs @ [(h, tk)]) = [] then None else Some (tk_clock (last (stay (hs @ [(h, tk)]))) 0))"
    using r by (auto simp: remembers_def stay_snoc note_arrival_def Let_def)
  moreover have "archive_seen_active (note_arrival h tk s) = (if stay (hs @ [(h, tk)]) = [] then tk_archive tk else \<exists>u \<in> set (stay (hs @ [(h, tk)])). tk_archive u)"
    using r by (auto simp: remembers_def stay_snoc note_arrival_def Let_def)
  moreover have "charge_hold_since (noted h tk s) = (if charge_ticks (hs @ [(h, tk)]) = [] then None else Some (tk_clock (hd (charge_ticks (hs @ [(h, tk)]))) 2))"
    using r by (auto simp: remembers_def charge_ticks_snoc noted_def note_charge_def Let_def charge)
  moreover have "charge_complete_at (noted h tk s) = (if complete_ticks (hs @ [(h, tk)]) = [] then None else Some (tk_clock (hd (complete_ticks (hs @ [(h, tk)]))) 3))"
    using r complete_ticks_sub [of hs] by (auto simp: remembers_def complete_ticks_snoc noted_def note_charge_def Let_def charge)
  ultimately show ?thesis unfolding remembers_def arrival by simp
qed

lemma counted_snoc:
  "counted distance_m (tks @ [tk]) = counted distance_m tks @ (case home_check distance_m tk of None \<Rightarrow> [] | Some h \<Rightarrow> [(h, tk)])"
  by (simp add: counted_def List.map_filter_def split: option.splits)

lemma run_ticks_snoc:
  "run_ticks distance_m (tks @ [tk]) s =
     (let (s1, ess) = run_ticks distance_m tks s; (s2, es) = evaluate distance_m tk s1 in (s2, ess @ [es]))"
  by (induction tks arbitrary: s) (simp_all add: Let_def case_prod_beta)

lemma run_remembers: "remembers (counted distance_m tks) (fst (run_ticks distance_m tks accessory_init))"
proof (induction tks rule: rev_induct)
  case Nil
  then show ?case by (simp add: remembers_def counted_def List.map_filter_def stay_def charge_ticks_def complete_ticks_def accessory_init_def)
next
  case (snoc tk tks)
  define s where "s = fst (run_ticks distance_m tks accessory_init)"
  have run: "fst (run_ticks distance_m (tks @ [tk]) accessory_init) = fst (evaluate distance_m tk s)"
    by (simp add: run_ticks_snoc Let_def case_prod_beta s_def)
  show ?case
  proof (cases "home_check distance_m tk")
    case None
    then have "memory (fst (evaluate distance_m tk s)) = memory s" by (simp add: memory_evaluate)
    then have "remembers (counted distance_m tks) (fst (evaluate distance_m tk s))"
      using snoc remembers_cong unfolding s_def by blast
    then show ?thesis using None run by (simp add: counted_snoc)
  next
    case (Some h)
    then have "memory (fst (evaluate distance_m tk s)) = memory (noted h tk s)" by (simp add: memory_evaluate)
    then have "remembers (counted distance_m tks @ [(h, tk)]) (fst (evaluate distance_m tk s))"
      using remembers_noted [OF snoc] remembers_cong unfolding s_def by blast
    then show ?thesis using Some run by (simp add: counted_snoc)
  qed
qed

subsection \<open>The decision follows the history\<close>

lemma charge_flags_cong:
  assumes "memory s = memory s'"
  shows "charge_done h tk s = charge_done h tk s'" "charge_complete_grace h tk s = charge_complete_grace h tk s'" "charge_hold h tk s = charge_hold h tk s'"
proof -
  have m: "charge_hold_since s = charge_hold_since s'" "charge_complete_at s = charge_complete_at s'" using assms by (simp_all add: memory_def)
  show d: "charge_done h tk s = charge_done h tk s'" by (simp add: charge_done_def hold_capped_def complete_grace_active_def m)
  show c: "charge_complete_grace h tk s = charge_complete_grace h tk s'" by (simp add: charge_complete_grace_def d complete_grace_active_def m)
  show "charge_hold h tk s = charge_hold h tk s'" by (simp add: charge_hold_def d c)
qed

lemma eligible_iff: "charge_eligible True tk \<longleftrightarrow> tk_parked tk \<and> cable_connected tk"
  by (auto simp: charge_eligible_def cable_connected_def)

lemma charge_done_over:
  assumes "remembers (hs @ [(True, tk)]) s" "tk_parked tk" "cable_connected tk"
  shows "charge_done True tk s \<longleftrightarrow> charge_over (hs @ [(True, tk)]) tk"
proof -
  have e: "charge_eligible True tk" using assms(2,3) by (simp add: eligible_iff)
  then have "charge_ticks (hs @ [(True, tk)]) \<noteq> []" by (simp add: charge_ticks_snoc)
  then show ?thesis using assms(1) e
    by (auto simp: charge_done_def charge_over_def hold_capped_def complete_grace_active_def remembers_def charge_hold_max_def)
qed

lemma decision_wants:
  assumes "remembers (hs @ [(h, tk)]) s"
  shows "map_option fst (decision h tk s) = wants_power (hs @ [(h, tk)]) (h, tk)"
proof (cases "h \<and> tk_parked tk \<and> \<not> tk_archive tk")
  case False
  then show ?thesis by (auto simp: decision_def decide_desired_def wants_power_def)
next
  case True
  then have stay: "stay (hs @ [(h, tk)]) = tk # stay hs" by (simp add: stay_snoc)
  show ?thesis
  proof (cases "cable_connected tk")
    case c: True
    then have "charge_done h tk s \<longleftrightarrow> charge_over (hs @ [(h, tk)]) tk" using assms True charge_done_over by auto
    moreover have "charge_eligible h tk" using c True by (simp add: eligible_iff)
    ultimately show ?thesis using True c
      by (auto simp: decision_def decide_desired_def wants_power_def charge_hold_def charge_complete_grace_def)
  next
    case nc: False
    then have "\<not> charge_eligible h tk" by (auto simp: charge_eligible_def)
    then show ?thesis using True nc assms stay
      by (auto simp: decision_def decide_desired_def wants_power_def charge_hold_def charge_complete_grace_def charge_done_def
          grace_over_def archive_start_grace_def remembers_def)
  qed
qed

subsection \<open>Commands\<close>

lemma last_sent_simps [simp]:
  "last_sent (note_arrival h tk s) = last_sent s" "last_sent (note_charge h tk s) = last_sent s" "last_sent (noted h tk s) = last_sent s"
  "last_sent (fst (charge_pushes h tk s)) = last_sent s" "last_sent (fst (heartbeat h tk s)) = last_sent s"
  "last_sent (fst (coverage_push h d s)) = last_sent s"
  by (simp_all add: noted_def note_arrival_def note_charge_def charge_pushes_def heartbeat_def coverage_push_def Let_def)

definition commands :: "effect list \<Rightarrow> bool list" where
  "commands es = List.map_filter (\<lambda>e. case e of Command b \<Rightarrow> Some b | _ \<Rightarrow> None) es"

lemma commands_append [simp]: "commands (xs @ ys) = commands xs @ commands ys"
  by (simp add: commands_def List.map_filter_def)

lemma accepted_simps [simp]: "accepted [] = []" "accepted [[]] = []" "accepted (xs @ ys) = accepted xs @ accepted ys" "accepted [es @ fs] = accepted [es] @ accepted [fs]"
  by (simp_all add: accepted_def List.map_filter_def)

lemma quiet_effects [simp]:
  "commands (snd (charge_pushes h tk s)) = []" "commands (snd (heartbeat h tk s)) = []" "commands (snd (coverage_push h d s)) = []"
  "accepted [snd (charge_pushes h tk s)] = []" "accepted [snd (heartbeat h tk s)] = []" "accepted [snd (coverage_push h d s)] = []"
  by (simp_all add: charge_pushes_def heartbeat_def coverage_push_def commands_def accepted_def List.map_filter_def Let_def)

lemma send_power_effects:
  "commands (snd (send_power d y tk s)) = [d]"
  "accepted [snd (send_power d y tk s)] = (if tk_send_ok tk then [d] else [])"
  "last_sent (fst (send_power d y tk s)) = (if tk_send_ok tk then Some d else last_sent s)"
  by (simp_all add: send_power_def send_result_def commands_def accepted_def List.map_filter_def Let_def case_prod_beta)

lemma enforce_effects:
  "commands (snd (enforce h tk (d, y) s)) = (if last_sent s \<noteq> Some d \<and> tk_radio tk then [d] else [])"
  "accepted [snd (enforce h tk (d, y) s)] = (if last_sent s \<noteq> Some d \<and> tk_radio tk \<and> tk_send_ok tk then [d] else [])"
  "last_sent (fst (enforce h tk (d, y) s)) = (if tk_radio tk \<and> tk_send_ok tk then Some d else last_sent s)"
  by (auto simp: enforce_def Let_def case_prod_beta send_power_effects)

lemma evaluate_effects:
  assumes "home_check distance_m tk = Some h"
  shows "commands (snd (evaluate distance_m tk s)) =
      (case decision h tk (noted h tk s) of Some (d, _) \<Rightarrow> if last_sent s \<noteq> Some d \<and> tk_radio tk then [d] else [] | None \<Rightarrow> [])"
    and "accepted [snd (evaluate distance_m tk s)] =
      (case decision h tk (noted h tk s) of Some (d, _) \<Rightarrow> if last_sent s \<noteq> Some d \<and> tk_radio tk \<and> tk_send_ok tk then [d] else [] | None \<Rightarrow> [])"
    and "last_sent (fst (evaluate distance_m tk s)) =
      (case decision h tk (noted h tk s) of Some (d, _) \<Rightarrow> if tk_radio tk \<and> tk_send_ok tk then Some d else last_sent s | None \<Rightarrow> last_sent s)"
  using assms by (auto simp: evaluate_def Let_def case_prod_beta enforce_effects split: option.splits)

lemma evaluate_ignored: "home_check distance_m tk = None \<Longrightarrow> evaluate distance_m tk s = (s, [])"
  by (simp add: evaluate_def)

definition sent_value :: "bool list \<Rightarrow> bool option" where
  "sent_value bs = (if bs = [] then None else Some (last bs))"

lemma last_sent_step:
  assumes "last_sent s = sent_value bs"
  shows "last_sent (fst (evaluate distance_m tk s)) = sent_value (bs @ accepted [snd (evaluate distance_m tk s)])"
  using assms
  by (cases "home_check distance_m tk") (auto simp: evaluate_ignored evaluate_effects sent_value_def split: option.splits)

lemma run_last_sent:
  "last_sent (fst (run_ticks distance_m tks accessory_init)) = sent_value (accepted (snd (run_ticks distance_m tks accessory_init)))"
proof (induction tks rule: rev_induct)
  case Nil
  then show ?case by (simp add: accessory_init_def sent_value_def)
next
  case (snoc tk tks)
  then show ?case using last_sent_step [OF snoc, of distance_m tk] by (simp add: run_ticks_snoc Let_def case_prod_beta)
qed

subsection \<open>Pushes\<close>

lemma one_shot:
  assumes step: "\<And>n. n < N \<Longrightarrow> E n \<Longrightarrow> \<not> f n \<and> f (Suc n)" and keep: "\<And>n. n < N \<Longrightarrow> f n \<Longrightarrow> \<not> R n \<Longrightarrow> f (Suc n)"
    and "i < j" "j < N" "E i" "E j"
  shows "\<exists>k. i < k \<and> k < j \<and> R k"
proof (rule ccontr)
  assume none: "\<nexists>k. i < k \<and> k < j \<and> R k"
  have "f (Suc i)" using step [of i] assms(3-5) by simp
  then have "f (Suc i + m)" if "Suc i + m \<le> j" for m
    using that
  proof (induction m)
    case (Suc m)
    then show ?case using keep [of "Suc i + m"] none assms(4) by simp
  qed simp
  from this [of "j - Suc i"] have "f j" using assms(3) by simp
  then show False using step [of j] assms(4,6) by simp
qed

lemma push_places:
  "Push p \<in> set (snd (charge_pushes h tk s)) \<longleftrightarrow>
     p = ChargingPowerRequested \<and> charge_hold h tk s \<and> \<not> charge_hold_notified s \<or>
     p = ChargeCompletePush (charge_grace_min (tk_cfg tk)) \<and> charge_complete_grace h tk s \<and> \<not> charge_grace_notified s"
  "Push p \<notin> set (snd (heartbeat h tk s))"
  "Push p \<in> set (snd (coverage_push h d s)) \<longleftrightarrow> p = SentryPowerRequested \<and> d \<and> \<not> h \<and> \<not> coverage_notified s"
  "Push p \<in> set (snd (send_power d y tk s)) \<longleftrightarrow>
     p = ReleasingPower (archive_seen_active s) \<and> \<not> d \<and> \<not> offline_notified s \<or>
     p = AccessoryIssue d \<and> \<not> tk_send_ok tk \<and> fail_notify_streak \<le> min u32_max (send_fail_streak s + 1) \<and> \<not> fail_notified s"
  by (auto simp: charge_pushes_def heartbeat_def coverage_push_def send_power_def send_result_def Let_def case_prod_beta)

lemma flag_simps [simp]:
  "coverage_notified (noted h tk s) = coverage_notified s" "coverage_notified (fst (charge_pushes h tk s)) = coverage_notified s"
  "coverage_notified (fst (heartbeat h tk s)) = coverage_notified s"
  "offline_notified (noted h tk s) = offline_notified s" "offline_notified (fst (charge_pushes h tk s)) = offline_notified s"
  "offline_notified (fst (heartbeat h tk s)) = offline_notified s" "offline_notified (fst (coverage_push h d s)) = offline_notified s"
  "fail_notified (noted h tk s) = fail_notified s" "fail_notified (fst (charge_pushes h tk s)) = fail_notified s"
  "fail_notified (fst (heartbeat h tk s)) = fail_notified s" "fail_notified (fst (coverage_push h d s)) = fail_notified s"
  by (simp_all add: noted_def note_charge_def note_arrival_def charge_pushes_def heartbeat_def coverage_push_def Let_def)

lemma flag_changes [simp]:
  "coverage_notified (fst (coverage_push h d s)) \<longleftrightarrow> \<not> h \<and> (coverage_notified s \<or> d)"
  "coverage_notified (fst (send_power d y tk s)) = coverage_notified s"
  "offline_notified (fst (send_power d y tk s)) \<longleftrightarrow> \<not> d"
  "fail_notified (fst (send_power d y tk s)) \<longleftrightarrow>
     \<not> tk_send_ok tk \<and> (fail_notified s \<or> fail_notify_streak \<le> min u32_max (send_fail_streak s + 1))"
  by (auto simp: coverage_push_def send_power_def send_result_def Let_def case_prod_beta)

lemma charge_flag_simps [simp]:
  "charge_hold_notified (fst (heartbeat h tk s)) = charge_hold_notified s" "charge_hold_since (fst (heartbeat h tk s)) = charge_hold_since s"
  "charge_hold_notified (fst (coverage_push h d s)) = charge_hold_notified s" "charge_hold_since (fst (coverage_push h d s)) = charge_hold_since s"
  "charge_hold_notified (fst (send_power d y tk s)) = charge_hold_notified s" "charge_hold_since (fst (send_power d y tk s)) = charge_hold_since s"
  "charge_hold_since (fst (charge_pushes h tk s)) = charge_hold_since s"
  "charge_hold_notified (fst (charge_pushes h tk s)) \<longleftrightarrow> charge_hold_notified s \<or> charge_hold h tk s"
  by (auto simp: heartbeat_def coverage_push_def send_power_def send_result_def charge_pushes_def Let_def case_prod_beta)

lemma evaluate_cases:
  obtains (ignored) "home_check distance_m tk = None" "evaluate distance_m tk s = (s, [])"
  | (kept) h where "home_check distance_m tk = Some h" "decision h tk (noted h tk s) = None"
      "evaluate distance_m tk s = (fst (heartbeat h tk (fst (charge_pushes h tk (noted h tk s)))),
         snd (charge_pushes h tk (noted h tk s)) @ snd (heartbeat h tk (fst (charge_pushes h tk (noted h tk s)))))"
  | (settled) h d y t where "home_check distance_m tk = Some h" "decision h tk (noted h tk s) = Some (d, y)" "last_sent s = Some d \<or> \<not> tk_radio tk"
      "t = fst (heartbeat h tk (fst (charge_pushes h tk (noted h tk s))))"
      "evaluate distance_m tk s = (fst (coverage_push h d t),
         snd (charge_pushes h tk (noted h tk s)) @ snd (heartbeat h tk (fst (charge_pushes h tk (noted h tk s)))) @ snd (coverage_push h d t))"
  | (sent) h d y t where "home_check distance_m tk = Some h" "decision h tk (noted h tk s) = Some (d, y)" "last_sent s \<noteq> Some d" "tk_radio tk"
      "t = fst (heartbeat h tk (fst (charge_pushes h tk (noted h tk s))))"
      "evaluate distance_m tk s = (fst (send_power d y tk (fst (coverage_push h d t))),
         snd (charge_pushes h tk (noted h tk s)) @ snd (heartbeat h tk (fst (charge_pushes h tk (noted h tk s)))) @ snd (coverage_push h d t) @
         snd (send_power d y tk (fst (coverage_push h d t))))"
proof (cases "home_check distance_m tk")
  case None
  then show thesis using ignored by (simp add: evaluate_ignored)
next
  case (Some h)
  show thesis
  proof (cases "decision h tk (noted h tk s)")
    case None
    then show thesis using kept Some by (simp add: evaluate_def Let_def case_prod_beta)
  next
    case d: (Some x)
    obtain dd y where x: "x = (dd, y)" by fastforce
    show thesis
    proof (cases "last_sent s = Some dd \<or> \<not> tk_radio tk")
      case True
      show thesis by (rule settled [OF Some d [unfolded x] True refl]) (use Some d x True in \<open>auto simp: evaluate_def enforce_def Let_def case_prod_beta\<close>)
    next
      case False
      show thesis by (rule sent [OF Some d [unfolded x] _ _ refl]) (use Some d x False in \<open>auto simp: evaluate_def enforce_def Let_def case_prod_beta\<close>)
    qed
  qed
qed

lemma away_wants: "decision False tk s = Some (True, Away)"
  by (simp add: decision_def decide_desired_def)

lemma home_moving: "decision True tk s = None \<longleftrightarrow> \<not> tk_parked tk"
  by (auto simp: decision_def decide_desired_def)

lemma sentry_push:
  "Push SentryPowerRequested \<in> set (snd (evaluate distance_m tk s)) \<Longrightarrow>
     \<not> coverage_notified s \<and> coverage_notified (fst (evaluate distance_m tk s))"
  "coverage_notified s \<Longrightarrow> \<not> (home_check distance_m tk = Some True \<and> tk_parked tk) \<Longrightarrow> coverage_notified (fst (evaluate distance_m tk s))"
proof (cases rule: evaluate_cases [of distance_m tk s])
  case (kept h)
  assume "Push SentryPowerRequested \<in> set (snd (evaluate distance_m tk s))"
  then show "\<not> coverage_notified s \<and> coverage_notified (fst (evaluate distance_m tk s))" using kept by (simp add: push_places)
next
  show "coverage_notified (fst (evaluate distance_m tk s))"
    if "coverage_notified s" "\<not> (home_check distance_m tk = Some True \<and> tk_parked tk)"
    using that
    by (cases rule: evaluate_cases [of distance_m tk s])
      (auto simp: home_moving decision_def decide_desired_def split: if_splits)
qed (auto simp: push_places)

lemma releasing_push:
  "Push (ReleasingPower b) \<in> set (snd (evaluate distance_m tk s)) \<Longrightarrow>
     \<not> offline_notified s \<and> offline_notified (fst (evaluate distance_m tk s))"
  "offline_notified s \<Longrightarrow> Command True \<notin> set (snd (evaluate distance_m tk s)) \<Longrightarrow> offline_notified (fst (evaluate distance_m tk s))"
proof -
  show "\<not> offline_notified s \<and> offline_notified (fst (evaluate distance_m tk s))"
    if "Push (ReleasingPower b) \<in> set (snd (evaluate distance_m tk s))"
    using that by (cases rule: evaluate_cases [of distance_m tk s]) (auto simp: push_places)
  show "offline_notified (fst (evaluate distance_m tk s))"
    if "offline_notified s" "Command True \<notin> set (snd (evaluate distance_m tk s))"
    using that
  proof (cases rule: evaluate_cases [of distance_m tk s])
    case (sent h d y t)
    have "Command d \<in> set (snd (send_power d y tk (fst (coverage_push h d t))))" by (simp add: send_power_def Let_def case_prod_beta)
    then show ?thesis using sent that by (cases d) auto
  qed auto
qed

lemma issue_push:
  "Push (AccessoryIssue b) \<in> set (snd (evaluate distance_m tk s)) \<Longrightarrow>
     \<not> fail_notified s \<and> fail_notified (fst (evaluate distance_m tk s))"
  "fail_notified s \<Longrightarrow> accepted [snd (evaluate distance_m tk s)] = [] \<Longrightarrow> fail_notified (fst (evaluate distance_m tk s))"
proof -
  show "\<not> fail_notified s \<and> fail_notified (fst (evaluate distance_m tk s))"
    if "Push (AccessoryIssue b) \<in> set (snd (evaluate distance_m tk s))"
    using that by (cases rule: evaluate_cases [of distance_m tk s]) (auto simp: push_places)
  show "fail_notified (fst (evaluate distance_m tk s))"
    if "fail_notified s" "accepted [snd (evaluate distance_m tk s)] = []"
    using that by (cases rule: evaluate_cases [of distance_m tk s]) (auto simp: send_power_effects split: if_splits)
qed

lemma arrival_keeps [simp]:
  "charge_hold_since (note_arrival h tk s) = charge_hold_since s" "charge_hold_notified (note_arrival h tk s) = charge_hold_notified s"
  by (simp_all add: note_arrival_def Let_def)

lemma eligible_noted:
  "charge_eligible h tk \<Longrightarrow> charge_hold_since (noted h tk s) \<noteq> None \<and> charge_hold_notified (noted h tk s) = charge_hold_notified s"
  by (simp add: noted_def note_charge_def Let_def)

lemma hold_noted:
  "charge_hold h tk (noted h tk s) \<Longrightarrow> charge_hold_since (noted h tk s) \<noteq> None"
  "charge_hold h tk (noted h tk s) \<Longrightarrow> charge_hold_notified (noted h tk s) = charge_hold_notified s"
  using eligible_noted by (auto simp: charge_hold_def)

lemma live_noted:
  assumes "charge_hold_notified s" "charge_hold_since s \<noteq> None" "charge_session_live h tk"
  shows "charge_hold_notified (noted h tk s) \<and> charge_hold_since (noted h tk s) \<noteq> None"
proof (cases "charge_eligible h tk")
  case True
  then show ?thesis using assms eligible_noted by blast
next
  case False
  then show ?thesis using assms by (simp add: noted_def note_charge_def)
qed

lemma charging_push_where:
  "Push ChargingPowerRequested \<in> set (snd (evaluate distance_m tk s)) \<Longrightarrow>
     \<exists>h. home_check distance_m tk = Some h \<and> charge_hold h tk (noted h tk s) \<and> \<not> charge_hold_notified (noted h tk s)"
  by (cases rule: evaluate_cases [of distance_m tk s]) (simp_all add: push_places)

lemma evaluate_charge:
  assumes "home_check distance_m tk = Some h"
  shows "charge_hold_since (fst (evaluate distance_m tk s)) = charge_hold_since (noted h tk s)"
    "charge_hold_notified (fst (evaluate distance_m tk s)) \<longleftrightarrow> charge_hold_notified (noted h tk s) \<or> charge_hold h tk (noted h tk s)"
  using assms by (cases rule: evaluate_cases [of distance_m tk s]; simp)+

lemma charging_push:
  "Push ChargingPowerRequested \<in> set (snd (evaluate distance_m tk s)) \<Longrightarrow>
     \<not> (charge_hold_notified s \<and> charge_hold_since s \<noteq> None) \<and>
     charge_hold_notified (fst (evaluate distance_m tk s)) \<and> charge_hold_since (fst (evaluate distance_m tk s)) \<noteq> None"
  "charge_hold_notified s \<and> charge_hold_since s \<noteq> None \<Longrightarrow> \<forall>h. home_check distance_m tk = Some h \<longrightarrow> charge_session_live h tk \<Longrightarrow>
     charge_hold_notified (fst (evaluate distance_m tk s)) \<and> charge_hold_since (fst (evaluate distance_m tk s)) \<noteq> None"
proof -
  show "\<not> (charge_hold_notified s \<and> charge_hold_since s \<noteq> None) \<and>
     charge_hold_notified (fst (evaluate distance_m tk s)) \<and> charge_hold_since (fst (evaluate distance_m tk s)) \<noteq> None"
    if push: "Push ChargingPowerRequested \<in> set (snd (evaluate distance_m tk s))"
  proof -
    obtain h where "home_check distance_m tk = Some h" "charge_hold h tk (noted h tk s)" "\<not> charge_hold_notified (noted h tk s)"
      using charging_push_where [OF push] by blast
    then show ?thesis using hold_noted(1,2) [of h tk s] by (simp add: evaluate_charge)
  qed
  show "charge_hold_notified (fst (evaluate distance_m tk s)) \<and> charge_hold_since (fst (evaluate distance_m tk s)) \<noteq> None"
    if "charge_hold_notified s \<and> charge_hold_since s \<noteq> None" "\<forall>h. home_check distance_m tk = Some h \<longrightarrow> charge_session_live h tk"
  proof (cases "home_check distance_m tk")
    case (Some h)
    then show ?thesis using that live_noted [of s h tk] by (simp add: evaluate_charge)
  qed (use that in \<open>simp add: evaluate_ignored\<close>)
qed

text \<open>The states between the ticks.\<close>

definition state_at :: "distance \<Rightarrow> tick list \<Rightarrow> nat \<Rightarrow> accessory_state" where
  "state_at distance_m tks n = fst (run_ticks distance_m (take n tks) accessory_init)"

lemma run_length [simp]: "length (snd (run_ticks distance_m tks s)) = length tks"
  by (induction tks arbitrary: s) (simp_all add: Let_def case_prod_beta)

lemma run_ticks_nth:
  "n < length tks \<Longrightarrow> snd (run_ticks distance_m tks s) ! n = snd (evaluate distance_m (tks ! n) (fst (run_ticks distance_m (take n tks) s)))"
proof (induction tks arbitrary: s n)
  case (Cons tk tks)
  then show ?case by (cases n) (simp_all add: Let_def case_prod_beta)
qed simp

lemma state_at_Suc: "n < length tks \<Longrightarrow> state_at distance_m tks (Suc n) = fst (evaluate distance_m (tks ! n) (state_at distance_m tks n))"
  by (simp add: state_at_def take_Suc_conv_app_nth run_ticks_snoc Let_def case_prod_beta)

subsection \<open>A concrete run\<close>

definition demo_tick :: "rat \<Rightarrow> bool \<Rightarrow> tick" where
  "demo_tick d parked =
     \<lparr>tk_cfg = \<lparr>ka_enabled = True, home_lat = Some (Finite 0), home_lon = Some (Finite 0), home_radius_m = Finite 120,
        hold_for_charge = False, charge_grace_min = 45\<rparr>,
      tk_lat = Some (Finite d), tk_lon = Some (Finite 0), tk_parked = parked, tk_archive = False, tk_radio = True, tk_charging = None,
      tk_clock = (\<lambda>_. 0), tk_send_ok = True\<rparr>"

definition demo_ticks :: "tick list" where
  "demo_ticks = [demo_tick 500 False, demo_tick 0 True, demo_tick 500 False]"

lemmas demo_eval = demo_ticks_def demo_tick_def evaluate_def home_check_def noted_def note_arrival_def note_charge_def charge_eligible_def
  charge_session_live_def charge_pushes_def charge_hold_def charge_done_def charge_complete_grace_def heartbeat_def decision_def
  decide_desired_def enforce_def coverage_push_def send_power_def send_result_def accessory_init_def grace_over_def elapsed_def
  archive_start_grace_def secs_def Let_def

section \<open>Properties\<close>

text \<open>
  C9. The commands sent to the car are those the history asks for: after any sequence of ticks, the next
  tick sends a command exactly when it counts, the history asks for a value that differs from the last one
  the car accepted, and the radio is held; it sends that value, once. The history asks for power away
  from home and while the archive runs, for none after the stay at home is over with its archive, and
  holds a charge until it has been complete for the configured time or held for 18 hours.
\<close>

theorem accessory_commands_exact:
  "commands (snd (run_ticks distance_m (tks @ [tk]) accessory_init) ! length tks) =
     (case home_check distance_m tk of None \<Rightarrow> []
      | Some h \<Rightarrow>
         (case wants_power (counted distance_m (tks @ [tk])) (h, tk) of None \<Rightarrow> []
          | Some b \<Rightarrow>
              if tk_radio tk \<and> sent_value (accepted (snd (run_ticks distance_m tks accessory_init))) \<noteq> Some b then [b] else []))"
proof -
  define s where "s = fst (run_ticks distance_m tks accessory_init)"
  have es: "snd (run_ticks distance_m (tks @ [tk]) accessory_init) ! length tks = snd (evaluate distance_m tk s)"
    by (simp add: run_ticks_nth s_def)
  show ?thesis
  proof (cases "home_check distance_m tk")
    case (Some h)
    define hs where "hs = counted distance_m tks"
    have "remembers (hs @ [(h, tk)]) (noted h tk s)" unfolding hs_def s_def by (rule remembers_noted [OF run_remembers])
    then have wants: "map_option fst (decision h tk (noted h tk s)) = wants_power (hs @ [(h, tk)]) (h, tk)" by (rule decision_wants)
    have c: "counted distance_m (tks @ [tk]) = hs @ [(h, tk)]" using Some by (simp add: counted_snoc hs_def)
    have l: "last_sent s = sent_value (accepted (snd (run_ticks distance_m tks accessory_init)))" unfolding s_def by (rule run_last_sent)
    show ?thesis unfolding es c l [symmetric] Some option.case wants [symmetric]
      using Some by (cases "decision h tk (noted h tk s)") (auto simp: evaluate_effects)
  qed (simp add: es evaluate_ignored commands_def List.map_filter_def)
qed

text \<open>
  The pushes are not repeated: between two requests for Sentry power the car was parked at home in
  between, between two announcements of a release power was requested, between two reports of a problem
  a command was accepted, and between two announcements of a charge the car left or was unplugged.
\<close>

theorem accessory_pushes_once:
  assumes "effs = snd (run_ticks distance_m tks accessory_init)" "i < j" "j < length tks"
  shows "(Push SentryPowerRequested \<in> set (effs ! i) \<and> Push SentryPowerRequested \<in> set (effs ! j) \<longrightarrow>
      (\<exists>k. i < k \<and> k < j \<and> home_check distance_m (tks ! k) = Some True \<and> tk_parked (tks ! k))) \<and>
    (Push (ReleasingPower a) \<in> set (effs ! i) \<and> Push (ReleasingPower b) \<in> set (effs ! j) \<longrightarrow>
      (\<exists>k. i < k \<and> k < j \<and> Command True \<in> set (effs ! k))) \<and>
    (Push (AccessoryIssue a) \<in> set (effs ! i) \<and> Push (AccessoryIssue b) \<in> set (effs ! j) \<longrightarrow>
      (\<exists>k. i < k \<and> k < j \<and> accepted [effs ! k] \<noteq> [])) \<and>
    (Push ChargingPowerRequested \<in> set (effs ! i) \<and> Push ChargingPowerRequested \<in> set (effs ! j) \<longrightarrow>
      (\<exists>k h. i < k \<and> k < j \<and> home_check distance_m (tks ! k) = Some h \<and> \<not> charge_session_live h (tks ! k)))"
proof -
  have es: "effs ! n = snd (evaluate distance_m (tks ! n) (state_at distance_m tks n))" if "n < length tks" for n
    using that by (simp add: assms(1) run_ticks_nth state_at_def)
  have st: "state_at distance_m tks (Suc n) = fst (evaluate distance_m (tks ! n) (state_at distance_m tks n))" if "n < length tks" for n
    using that by (rule state_at_Suc)
  note shot = one_shot [of "length tks", OF _ _ assms(2,3)]
  have 1: "\<exists>k. i < k \<and> k < j \<and> home_check distance_m (tks ! k) = Some True \<and> tk_parked (tks ! k)"
    if "Push SentryPowerRequested \<in> set (effs ! i)" "Push SentryPowerRequested \<in> set (effs ! j)"
    by (rule shot [of "\<lambda>n. Push SentryPowerRequested \<in> set (effs ! n)" "\<lambda>n. coverage_notified (state_at distance_m tks n)"])
      (use that sentry_push in \<open>auto simp: es st\<close>)
  have 2: "\<exists>k. i < k \<and> k < j \<and> Command True \<in> set (effs ! k)"
    if "Push (ReleasingPower a) \<in> set (effs ! i)" "Push (ReleasingPower b) \<in> set (effs ! j)"
    by (rule shot [of "\<lambda>n. \<exists>c. Push (ReleasingPower c) \<in> set (effs ! n)" "\<lambda>n. offline_notified (state_at distance_m tks n)"])
      (use that releasing_push in \<open>auto simp: es st\<close>)
  have 3: "\<exists>k. i < k \<and> k < j \<and> accepted [effs ! k] \<noteq> []"
    if "Push (AccessoryIssue a) \<in> set (effs ! i)" "Push (AccessoryIssue b) \<in> set (effs ! j)"
    by (rule shot [of "\<lambda>n. \<exists>c. Push (AccessoryIssue c) \<in> set (effs ! n)" "\<lambda>n. fail_notified (state_at distance_m tks n)"])
      (use that issue_push in \<open>auto simp: es st\<close>)
  have 4: "\<exists>k. i < k \<and> k < j \<and> (\<exists>h. home_check distance_m (tks ! k) = Some h \<and> \<not> charge_session_live h (tks ! k))"
    if "Push ChargingPowerRequested \<in> set (effs ! i)" "Push ChargingPowerRequested \<in> set (effs ! j)"
  proof (rule shot [of "\<lambda>n. Push ChargingPowerRequested \<in> set (effs ! n)"
        "\<lambda>n. charge_hold_notified (state_at distance_m tks n) \<and> charge_hold_since (state_at distance_m tks n) \<noteq> None"])
    show "\<not> (charge_hold_notified (state_at distance_m tks n) \<and> charge_hold_since (state_at distance_m tks n) \<noteq> None) \<and>
      charge_hold_notified (state_at distance_m tks (Suc n)) \<and> charge_hold_since (state_at distance_m tks (Suc n)) \<noteq> None"
      if "n < length tks" "Push ChargingPowerRequested \<in> set (effs ! n)" for n
      using that charging_push(1) by (simp add: es st)
    show "charge_hold_notified (state_at distance_m tks (Suc n)) \<and> charge_hold_since (state_at distance_m tks (Suc n)) \<noteq> None"
      if "n < length tks" "charge_hold_notified (state_at distance_m tks n) \<and> charge_hold_since (state_at distance_m tks n) \<noteq> None"
        "\<not> (\<exists>h. home_check distance_m (tks ! n) = Some h \<and> \<not> charge_session_live h (tks ! n))" for n
      unfolding st [OF that(1)] by (rule charging_push(2) [OF that(2)]) (use that(3) in blast)
  qed (use that in auto)
  show ?thesis using 1 2 3 4 by blast
qed

theorem accessory_pushes_once_witness:
  "Push SentryPowerRequested \<in> set (snd (run_ticks (\<lambda>a b c d. a) demo_ticks accessory_init) ! 0) \<and>
   Push SentryPowerRequested \<in> set (snd (run_ticks (\<lambda>a b c d. a) demo_ticks accessory_init) ! 2) \<and>
   (\<exists>k. 0 < k \<and> k < 2 \<and> home_check (\<lambda>a b c d. a) (demo_ticks ! k) = Some True \<and> tk_parked (demo_ticks ! k))"
proof -
  have p: "Push SentryPowerRequested \<in> set (snd (run_ticks (\<lambda>a b c d. a) demo_ticks accessory_init) ! 0)"
    "Push SentryPowerRequested \<in> set (snd (run_ticks (\<lambda>a b c d. a) demo_ticks accessory_init) ! 2)"
    by (simp_all add: demo_eval)
  have "length demo_ticks = 3" by (simp add: demo_ticks_def)
  then show ?thesis using accessory_pushes_once [OF refl, of 0 2 demo_ticks "\<lambda>a b c d. a"] p by simp
qed

end
