(* ===== verification/SafetyScore.thy ===== *)
theory SafetyScore
  imports DriveOverview
begin

section \<open>Safety metrics of a clip and the score\<close>

text \<open>
  \<^verbatim>\<open>crates/drives/src/safety.rs\<close>: the walk over one clip that adds up the time of each driving behaviour, and the
  score of a window of clips. The distance and the curvature, made of trigonometric functions and square
  roots, and the power function are parameters, like the calendar, which reads the start of the clip from its
  name, in milliseconds of local time.
\<close>

definition gravity :: rat where "gravity = fl (980665 / 100000)"

definition hard_brake_mps2 :: rat where "hard_brake_mps2 = fl (fl (30 / 100) * gravity)"
definition any_brake_mps2 :: rat where "any_brake_mps2 = fl (fl (10 / 100) * gravity)"
definition aggr_turn_mps2 :: rat where "aggr_turn_mps2 = fl (fl (40 / 100) * gravity)"
definition any_turn_mps2 :: rat where "any_turn_mps2 = fl (fl (20 / 100) * gravity)"
definition speeding_mps :: rat where "speeding_mps = 38"
definition moving_mps :: rat where "moving_mps = fl (45 / 100)"
definition turn_min_mps :: rat where "turn_min_mps = fl (67 / 10)"

definition night_weight :: "int \<Rightarrow> rat" where
  "night_weight hour =
     (if hour = 23 then fl (21 / 100) else if hour = 0 then fl (53 / 100) else if hour = 1 then fl (71 / 100)
      else if hour = 2 then fl (82 / 100) else if hour = 3 then 1 else 0)"

record safety_bucket =
  b_hard_brake :: int
  b_brake_any :: int
  b_aggr_turn :: int
  b_turn_any :: int
  b_speeding :: int

definition empty_bucket :: safety_bucket where
  "empty_bucket = \<lparr>b_hard_brake = 0, b_brake_any = 0, b_aggr_turn = 0, b_turn_any = 0, b_speeding = 0\<rparr>"

record clip_safety =
  hard_brake_ms :: int
  hard_brake_events :: int
  aggr_turn_ms :: int
  aggr_turn_events :: int
  speeding_ms :: int
  moving_ms :: int
  manual_moving_ms :: int
  imu_moving_ms :: int
  night_ms :: int
  night_weighted_ms :: int
  grace_ms_end :: int
  grace_prefix :: "safety_bucket list"
  ap_at_end :: "u8 option"
  brake_any_ms :: int
  turn_any_ms :: int

definition empty_safety :: clip_safety where
  "empty_safety = \<lparr>hard_brake_ms = 0, hard_brake_events = 0, aggr_turn_ms = 0, aggr_turn_events = 0, speeding_ms = 0, moving_ms = 0,
     manual_moving_ms = 0, imu_moving_ms = 0, night_ms = 0, night_weighted_ms = 0, grace_ms_end = 0,
     grace_prefix = replicate 5 empty_bucket, ap_at_end = None, brake_any_ms = 0, turn_any_ms = 0\<rparr>"

definition autopilot_tacc :: u8 where "autopilot_tacc = 3"

definition driver_controls_factor :: "u8 \<Rightarrow> f32 \<Rightarrow> bool" where
  "driver_controls_factor ap pedal \<longleftrightarrow> ap = autopilot_off \<or> (ap = autopilot_tacc \<and> f64_gt pedal 1)"

definition file_name :: "ustr \<Rightarrow> ustr" where
  "file_name file = rev (takeWhile (\<lambda>c. c \<noteq> 47 \<and> c \<noteq> 92) (rev file))"

text \<open>The first 19 bytes of the name, when they end at a character boundary.\<close>

fun byte_prefix :: "nat \<Rightarrow> ustr \<Rightarrow> ustr option" where
  "byte_prefix n [] = (if n = 0 then Some [] else None)"
| "byte_prefix n (c # s) =
     (if n = 0 then Some [] else if n < utf8_width c then None else map_option ((#) c) (byte_prefix (n - utf8_width c) s))"

definition clip_local_start :: "(ustr \<Rightarrow> int option) \<Rightarrow> ustr \<Rightarrow> int option" where
  "clip_local_start parse_stamp file = Option.bind (byte_prefix 19 (file_name file)) parse_stamp"

definition flag_brake :: u8 where "flag_brake = 4"

fun brake_runs :: "rat \<Rightarrow> nat \<Rightarrow> flag_run list \<Rightarrow> (rat \<times> rat) list" where
  "brake_runs per acc [] = []"
| "brake_runs per acc (run # runs) =
     (if and (fr_flags run) flag_brake \<noteq> 0 \<and> fr_frames run > 0
      then (fl (fl (of_nat acc) * per), fl (fl (of_nat (acc + fr_frames run)) * per)) # brake_runs per (acc + fr_frames run) runs
      else brake_runs per (acc + fr_frames run) runs)"

definition brake_intervals :: "flag_run list \<Rightarrow> (rat \<times> rat) list" where
  "brake_intervals runs =
     (let total = sum_list (map fr_frames runs)
      in if total = 0 then [] else brake_runs (fl (60000 / fl (of_nat total))) 0 runs)"

subsection \<open>The walk\<close>

record clip_env =
  ce_geodesic :: geodesic
  ce_curvature :: "gps_point \<Rightarrow> gps_point \<Rightarrow> gps_point \<Rightarrow> f64"
  ce_parse_stamp :: "ustr \<Rightarrow> int option"

record safety_walk =
  sw_out :: clip_safety
  in_brake_run :: bool
  in_turn_run :: bool
  turn_streak :: nat
  grace_remaining :: rat

definition dt_ms :: "route \<Rightarrow> rat" where
  "dt_ms r = fl (60000 / fl (fl (of_nat (length (r_points r))) - 1))"

definition interval_ms :: "route \<Rightarrow> int" where
  "interval_ms r = round_f64 (dt_ms r)"

definition has_ap :: "route \<Rightarrow> bool" where
  "has_ap r \<longleftrightarrow> length (r_autopilot_states r) = length (r_points r)"

definition has_imu :: "route \<Rightarrow> bool" where
  "has_imu r \<longleftrightarrow> length (r_accel_x r) = length (r_points r) \<and> length (r_accel_y r) = length (r_points r)"

definition has_sei_speeds :: "route \<Rightarrow> bool" where
  "has_sei_speeds r \<longleftrightarrow> length (r_speeds r) = length (r_points r) \<and> list_ex (\<lambda>v. f64_gt v 0) (r_speeds r)"

definition ap_at :: "route \<Rightarrow> nat \<Rightarrow> u8" where
  "ap_at r i = (if has_ap r then r_autopilot_states r ! i else autopilot_off)"

definition pedal_at :: "route \<Rightarrow> nat \<Rightarrow> f32" where
  "pedal_at r i = (if length (r_accel_positions r) = length (r_points r) then r_accel_positions r ! i else Finite 0)"

definition brake_near :: "route \<Rightarrow> rat \<Rightarrow> bool" where
  "brake_near r t \<longleftrightarrow>
     r_flag_runs r = [] \<or> list_ex (\<lambda>(s, e). e > fl (t - 2000) \<and> s < fl (t + 500)) (brake_intervals (r_flag_runs r))"

definition valid_at :: "route \<Rightarrow> nat \<Rightarrow> bool" where
  "valid_at r i = valid_point (r_points r ! i)"

definition prefix_index :: "route \<Rightarrow> nat \<Rightarrow> nat" where
  "prefix_index r i = nat \<lfloor>fl (fl (fl (of_nat (i - 1)) * dt_ms r) / 1000)\<rfloor>"

definition add_prefix :: "nat \<Rightarrow> (safety_bucket \<Rightarrow> safety_bucket) \<Rightarrow> clip_safety \<Rightarrow> clip_safety" where
  "add_prefix k f out = (if k < length (grace_prefix out) then out\<lparr>grace_prefix := (grace_prefix out)[k := f (grace_prefix out ! k)]\<rparr> else out)"

definition speed_between :: "rat \<Rightarrow> rat \<Rightarrow> f64 \<Rightarrow> bool" where
  "speed_between a b v \<longleftrightarrow> f64_ge v a \<and> f64_lt v b"

text \<open>The grace after assistance was switched off, and whether the driver is charged with this interval.\<close>

definition grace_before :: "route \<Rightarrow> nat \<Rightarrow> rat \<Rightarrow> rat" where
  "grace_before r i g = (if has_ap r \<and> ap_at r (i - 1) \<noteq> autopilot_off \<and> ap_at r i = autopilot_off then 5000 else g)"

definition factor_allowed :: "route \<Rightarrow> nat \<Rightarrow> rat \<Rightarrow> bool" where
  "factor_allowed r i g \<longleftrightarrow> driver_controls_factor (ap_at r i) (pedal_at r i) \<and> grace_before r i g \<le> 0"

definition grace_after :: "route \<Rightarrow> nat \<Rightarrow> rat \<Rightarrow> rat" where
  "grace_after r i g = (let b = grace_before r i g in if b > 0 then max 0 (fl (b - dt_ms r)) else b)"

definition night_hour_at :: "clip_env \<Rightarrow> route \<Rightarrow> nat \<Rightarrow> int option" where
  "night_hour_at env r i =
     map_option (\<lambda>start. (start + round_f64 (fl ((of_nat i - 1 / 2) * dt_ms r))) div 3600000 mod 24)
       (clip_local_start (ce_parse_stamp env) (r_file r))"

definition note_moving :: "clip_env \<Rightarrow> route \<Rightarrow> nat \<Rightarrow> bool \<Rightarrow> clip_safety \<Rightarrow> clip_safety" where
  "note_moving env r i allowed out =
     (let vc = r_speeds r ! i; ms = interval_ms r
      in if f64_ge (f64_abs vc) moving_mps \<and> f64_lt (f64_abs vc) 100
         then let o1 = out\<lparr>moving_ms := moving_ms out + ms,
                           imu_moving_ms := imu_moving_ms out + (if has_imu r then ms else 0),
                           manual_moving_ms := manual_moving_ms out + (if allowed then ms else 0)\<rparr>;
                  weight = (case night_hour_at env r i of Some h \<Rightarrow> night_weight h | None \<Rightarrow> 0);
                  o2 = (if weight > 0
                        then o1\<lparr>night_ms := night_ms o1 + ms,
                                night_weighted_ms := night_weighted_ms o1 + round_f64 (fl (fl (of_int ms) * weight))\<rparr>
                        else o1)
              in if allowed \<and> speed_between speeding_mps 100 vc
                 then add_prefix (prefix_index r i) (\<lambda>b. b\<lparr>b_speeding := b_speeding b + ms\<rparr>) (o2\<lparr>speeding_ms := speeding_ms o2 + ms\<rparr>)
                 else o2
         else out)"

text \<open>Braking and turning as measured by the car.\<close>

definition imu_brake :: "route \<Rightarrow> nat \<Rightarrow> safety_walk \<Rightarrow> safety_walk" where
  "imu_brake r i w =
     (let decel = r_accel_y r ! i; ms = interval_ms r; k = prefix_index r i; out = sw_out w
      in if f64_abs_lt decel 30 \<and> f64_ge decel any_brake_mps2
         then let o1 = add_prefix k (\<lambda>b. b\<lparr>b_brake_any := b_brake_any b + ms\<rparr>) (out\<lparr>brake_any_ms := brake_any_ms out + ms\<rparr>)
              in if f64_ge decel hard_brake_mps2
                 then let o2 = add_prefix k (\<lambda>b. b\<lparr>b_hard_brake := b_hard_brake b + ms\<rparr>) (o1\<lparr>hard_brake_ms := hard_brake_ms o1 + ms\<rparr>)
                      in w\<lparr>sw_out := (if in_brake_run w then o2 else o2\<lparr>hard_brake_events := hard_brake_events o2 + 1\<rparr>), in_brake_run := True\<rparr>
                 else w\<lparr>sw_out := o1, in_brake_run := False\<rparr>
         else w\<lparr>in_brake_run := False\<rparr>)"

definition imu_turn :: "route \<Rightarrow> nat \<Rightarrow> safety_walk \<Rightarrow> safety_walk" where
  "imu_turn r i w =
     (let lateral = f64_abs (r_accel_x r ! i); ms = interval_ms r; k = prefix_index r i; out = sw_out w
      in if speed_between any_turn_mps2 30 lateral
         then let o1 = add_prefix k (\<lambda>b. b\<lparr>b_turn_any := b_turn_any b + ms\<rparr>) (out\<lparr>turn_any_ms := turn_any_ms out + ms\<rparr>)
              in if f64_ge lateral aggr_turn_mps2
                 then let o2 = add_prefix k (\<lambda>b. b\<lparr>b_aggr_turn := b_aggr_turn b + ms\<rparr>) (o1\<lparr>aggr_turn_ms := aggr_turn_ms o1 + ms\<rparr>)
                      in w\<lparr>sw_out := (if in_turn_run w then o2 else o2\<lparr>aggr_turn_events := aggr_turn_events o2 + 1\<rparr>), in_turn_run := True\<rparr>
                 else w\<lparr>sw_out := o1, in_turn_run := False\<rparr>
         else w\<lparr>in_turn_run := False\<rparr>)"

definition imu_step :: "route \<Rightarrow> nat \<Rightarrow> bool \<Rightarrow> safety_walk \<Rightarrow> safety_walk" where
  "imu_step r i allowed w =
     (if allowed \<and> f64_ge (f64_abs (r_speeds r ! i)) moving_mps then imu_turn r i (imu_brake r i w)
      else w\<lparr>in_brake_run := False, in_turn_run := False\<rparr>)"

text \<open>Braking and turning derived from speed and position.\<close>

definition sane_pair :: "route \<Rightarrow> nat \<Rightarrow> bool" where
  "sane_pair r i \<longleftrightarrow> speed_between (- 1) 100 (r_speeds r ! (i - 1)) \<and> speed_between (- 1) 100 (r_speeds r ! i)"

definition finite_part :: "f64 \<Rightarrow> rat" where
  "finite_part v = (case v of Finite a \<Rightarrow> a | _ \<Rightarrow> 0)"

definition pair_decel :: "clip_env \<Rightarrow> route \<Rightarrow> nat \<Rightarrow> f64" where
  "pair_decel env r i =
     (let vp = finite_part (r_speeds r ! (i - 1)); vc = finite_part (r_speeds r ! i); v_avg = fl (fl (vp + vc) / 2);
          p = r_points r ! (i - 1); q = r_points r ! i
      in if v_avg \<ge> 1
         then case ce_geodesic env (fst p) (snd p) (fst q) (snd q) of
                Finite d \<Rightarrow> Finite (fl (fl (vp - vc) / min 4 (max (1 / 4) (fl (d / v_avg)))))
              | PosInfinity \<Rightarrow> Finite (fl (fl (vp - vc) / 4))
              | NegInfinity \<Rightarrow> Finite (fl (fl (vp - vc) / (1 / 4)))
              | NotANumber \<Rightarrow> NotANumber
         else NotANumber)"

definition derived_brake :: "clip_env \<Rightarrow> route \<Rightarrow> nat \<Rightarrow> bool \<Rightarrow> safety_walk \<Rightarrow> safety_walk" where
  "derived_brake env r i allowed w =
     (let ms = interval_ms r; k = prefix_index r i; out = sw_out w
      in if sane_pair r i \<and> f64_ge (r_speeds r ! (i - 1)) 2 \<and> f64_ge (r_speeds r ! i) 0 \<and> allowed
         then let decel = pair_decel env r i;
                  o1 = (if f64_ge decel any_brake_mps2
                        then add_prefix k (\<lambda>b. b\<lparr>b_brake_any := b_brake_any b + ms\<rparr>) (out\<lparr>brake_any_ms := brake_any_ms out + ms\<rparr>)
                        else out)
              in if f64_ge decel hard_brake_mps2 \<and> brake_near r (fl (fl (of_nat i) * dt_ms r))
                 then let o2 = add_prefix k (\<lambda>b. b\<lparr>b_hard_brake := b_hard_brake b + ms\<rparr>) (o1\<lparr>hard_brake_ms := hard_brake_ms o1 + ms\<rparr>)
                      in w\<lparr>sw_out := (if in_brake_run w then o2 else o2\<lparr>hard_brake_events := hard_brake_events o2 + 1\<rparr>), in_brake_run := True\<rparr>
                 else w\<lparr>sw_out := o1, in_brake_run := False\<rparr>
         else w\<lparr>in_brake_run := False\<rparr>)"

definition lateral_at :: "clip_env \<Rightarrow> route \<Rightarrow> nat \<Rightarrow> f64" where
  "lateral_at env r i =
     (let v = \<bar>finite_part (r_speeds r ! i)\<bar>;
          p = r_points r ! (i - 1); q = r_points r ! i; s = r_points r ! (i + 1);
          hop_a = ce_geodesic env (fst p) (snd p) (fst q) (snd q); hop_b = ce_geodesic env (fst q) (snd q) (fst s) (snd s)
      in if v \<ge> turn_min_mps \<and> f64_ge hop_a 2 \<and> f64_ge hop_b 2
         then case ce_curvature env p q s of
                Finite k \<Rightarrow> Finite (fl (fl (v * v) * k))
              | x \<Rightarrow> x
         else NotANumber)"

definition derived_turn :: "clip_env \<Rightarrow> route \<Rightarrow> nat \<Rightarrow> bool \<Rightarrow> safety_walk \<Rightarrow> safety_walk" where
  "derived_turn env r i allowed w =
     (let ms = interval_ms r; k = prefix_index r i; out = sw_out w
      in if i + 1 < length (r_points r) \<and> valid_at r (i + 1) \<and> sane_pair r i \<and> allowed
         then let lateral = lateral_at env r i;
                  o1 = (if f64_ge lateral any_turn_mps2
                        then add_prefix k (\<lambda>b. b\<lparr>b_turn_any := b_turn_any b + ms\<rparr>) (out\<lparr>turn_any_ms := turn_any_ms out + ms\<rparr>)
                        else out)
              in if f64_ge lateral aggr_turn_mps2
                 then let n = Suc (turn_streak w);
                          more = (if n = 2 then 2 * ms else if n > 2 then ms else 0);
                          o2 = (if n \<ge> 2
                                then add_prefix k (\<lambda>b. b\<lparr>b_aggr_turn := b_aggr_turn b + more\<rparr>) (o1\<lparr>aggr_turn_ms := aggr_turn_ms o1 + more\<rparr>)
                                else o1)
                      in w\<lparr>sw_out := (if n = 2 then o2\<lparr>aggr_turn_events := aggr_turn_events o2 + 1\<rparr> else o2), turn_streak := n\<rparr>
                 else w\<lparr>sw_out := o1, turn_streak := 0\<rparr>
         else w\<lparr>turn_streak := 0\<rparr>)"

definition safety_step :: "clip_env \<Rightarrow> route \<Rightarrow> safety_walk \<Rightarrow> nat \<Rightarrow> safety_walk" where
  "safety_step env r w i =
     (let allowed = factor_allowed r i (grace_remaining w);
          w1 = w\<lparr>grace_remaining := grace_after r i (grace_remaining w)\<rparr>
      in if \<not> valid_at r i \<or> \<not> valid_at r (i - 1)
         then w1\<lparr>in_brake_run := False, in_turn_run := False, turn_streak := 0\<rparr>
         else let w2 = w1\<lparr>sw_out := note_moving env r i allowed (sw_out w1)\<rparr>
              in if has_imu r then imu_step r i allowed w2
                 else derived_turn env r i allowed (derived_brake env r i allowed w2))"

definition compute_clip_safety :: "clip_env \<Rightarrow> route \<Rightarrow> clip_safety" where
  "compute_clip_safety env r =
     (let n = length (r_points r)
      in if n < 2 \<or> \<not> has_sei_speeds r then empty_safety
         else let w = foldl (safety_step env r)
                        \<lparr>sw_out = empty_safety, in_brake_run = False, in_turn_run = False, turn_streak = 0, grace_remaining = 0\<rparr> [1..<n]
              in (sw_out w)\<lparr>grace_ms_end := round_f64 (grace_remaining w),
                            ap_at_end := (if has_ap r then Some (r_autopilot_states r ! (n - 1)) else None)\<rparr>)"

subsection \<open>The score\<close>

record safety_totals =
  t_distance_mi :: rat
  t_assisted_mi :: rat
  t_moving_ms :: int
  t_imu_moving_ms :: int
  t_night_ms :: int
  t_night_weighted_ms :: int
  t_hard_brake_ms :: int
  t_aggr_turn_ms :: int
  t_speeding_ms :: int
  t_brake_any_ms :: int
  t_turn_any_ms :: int

record safety_score =
  sc_score :: rat
  sc_hard_brake_pct :: rat
  sc_aggr_turn_pct :: rat
  sc_speeding_pct :: rat
  sc_night_pct :: rat
  sc_hard_brake_penalty :: rat
  sc_aggr_turn_penalty :: rat
  sc_speeding_penalty :: rat
  sc_night_penalty :: rat
  sc_fsd_share_pct :: rat

definition clamp :: "rat \<Rightarrow> rat \<Rightarrow> rat \<Rightarrow> rat" where
  "clamp lo hi x = (if x < lo then lo else if x > hi then hi else x)"

definition round1 :: "rat \<Rightarrow> rat" where
  "round1 v = fl (of_int (round_f64 (fl (v * 10))) / 10)"

definition score_from_percentages :: "(rat \<Rightarrow> rat \<Rightarrow> rat) \<Rightarrow> rat \<Rightarrow> rat \<Rightarrow> rat \<Rightarrow> rat \<Rightarrow> rat" where
  "score_from_percentages powf hard_brake aggr_turn night speeding =
     (let pcf = fl (fl (fl (fl (fl (57198191 / 100000000) * powf (fl (123599110 / 100000000)) (clamp 0 (fl (52 / 10)) hard_brake)) *
                  powf (fl (101219290 / 100000000)) (clamp 0 (fl (132 / 10)) aggr_turn)) *
                  powf (fl (103231810 / 100000000)) (clamp 0 (fl (142 / 10)) night)) *
                  powf (fl (102439511 / 100000000)) (clamp 0 10 speeding))
      in clamp 0 100 (fl (fl (12215240383 / 100000000) - fl (fl (3872920381 / 100000000) * pcf))))"

definition ratio_pct :: "int \<Rightarrow> int \<Rightarrow> rat" where
  "ratio_pct part base = fl (fl (100 * fl (of_int part)) / fl (of_int base))"

definition compute_safety_score :: "(rat \<Rightarrow> rat \<Rightarrow> rat) \<Rightarrow> safety_totals \<Rightarrow> safety_score option" where
  "compute_safety_score powf t =
     (if t_moving_ms t \<le> 0 \<or> t_distance_mi t < fl (1 / 10) then None
      else if fl (fl (of_int (t_imu_moving_ms t)) / fl (of_int (t_moving_ms t))) < fl (90 / 100) then None
      else let hb = (if t_brake_any_ms t > 0 then ratio_pct (t_hard_brake_ms t) (t_brake_any_ms t) else 0);
               tn = (if t_turn_any_ms t > 0 then ratio_pct (t_aggr_turn_ms t) (t_turn_any_ms t) else 0);
               sp = ratio_pct (t_speeding_ms t) (t_moving_ms t);
               shown = fl (100 * clamp 0 1 (fl (fl (of_int (t_night_ms t)) / fl (of_int (t_moving_ms t)))));
               ln = fl (100 * clamp 0 1 (fl (fl (of_int (t_night_weighted_ms t)) / fl (of_int (t_moving_ms t)))));
               share = clamp 0 1 (fl (t_assisted_mi t / t_distance_mi t));
               score = score_from_percentages powf hb tn ln sp
           in Some \<lparr>sc_score = round1 score,
                    sc_hard_brake_pct = round1 hb, sc_aggr_turn_pct = round1 tn, sc_speeding_pct = round1 sp, sc_night_pct = round1 shown,
                    sc_hard_brake_penalty = round1 (fl (score_from_percentages powf 0 tn ln sp - score)),
                    sc_aggr_turn_penalty = round1 (fl (score_from_percentages powf hb 0 ln sp - score)),
                    sc_speeding_penalty = round1 (fl (score_from_percentages powf hb tn ln 0 - score)),
                    sc_night_penalty = round1 (fl (score_from_percentages powf hb tn 0 sp - score)),
                    sc_fsd_share_pct = round1 (fl (share * 100))\<rparr>)"

definition mileage_weighted_score :: "(rat \<times> rat) list \<Rightarrow> rat option" where
  "mileage_weighted_score days =
     (let total = foldl (\<lambda>a d. fl (a + max (snd d) 0)) 0 days
      in if total \<le> 0 then None
         else Some (round1 (fl (foldl (\<lambda>a d. fl (a + fl (clamp 0 100 (fst d) * max (snd d) 0))) 0 days / total))))"

definition is_night_hour :: "int \<Rightarrow> bool" where
  "is_night_hour hour \<longleftrightarrow> \<not> (4 \<le> hour \<and> hour < 23)"

section \<open>Lemmas\<close>

subsection \<open>The length of an interval\<close>

lemma round_f64_mono: "x \<le> y \<Longrightarrow> round_f64 x \<le> round_f64 y"
proof -
  assume xy: "x \<le> y"
  have up: "0 \<le> \<lfloor>z + 1 / 2\<rfloor>" if "0 \<le> z" for z :: rat using that by simp
  consider "0 \<le> x" | "x < 0" "0 \<le> y" | "y < 0" by linarith
  then show ?thesis
  proof cases
    case 1
    then show ?thesis using xy by (simp add: round_f64_def floor_mono)
  next
    case 2
    then have "round_f64 x = - \<lfloor>- x + 1 / 2\<rfloor>" "round_f64 y = \<lfloor>y + 1 / 2\<rfloor>" by (simp_all add: round_f64_def)
    moreover have "0 \<le> \<lfloor>- x + 1 / 2\<rfloor>" "0 \<le> \<lfloor>y + 1 / 2\<rfloor>" using 2 up by simp_all
    ultimately show ?thesis by linarith
  next
    case 3
    then show ?thesis using xy floor_mono [of "- y + 1 / 2" "- x + 1 / 2"] by (simp add: round_f64_def)
  qed
qed

lemma round_f64_of_int [simp]: "round_f64 (of_int i) = i"
proof -
  have "\<lfloor>(of_int j :: rat) + 1 / 2\<rfloor> = j" for j by (intro floor_unique) simp_all
  from this [of i] this [of "- i"] show ?thesis by (simp add: round_f64_def)
qed

lemma round_f64_nonneg: "0 \<le> x \<Longrightarrow> 0 \<le> round_f64 x"
  using round_f64_mono [of 0 x] round_f64_of_int [of 0] by simp

lemma interval_bounds:
  assumes "2 \<le> length (r_points r)"
  shows "0 \<le> dt_ms r" "0 \<le> interval_ms r" "interval_ms r \<le> 60000"
proof -
  define d where "d = fl (fl (of_nat (length (r_points r))) - 1)"
  have "2 \<le> fl (of_nat (length (r_points r)))" using fl_mono [of 2 "of_nat (length (r_points r))"] assms by simp
  then have d: "1 \<le> d" using fl_mono [of 1 "fl (of_nat (length (r_points r))) - 1"] by (simp add: d_def)
  then have q: "0 \<le> 60000 / d" "60000 / d \<le> 60000" by (simp_all add: divide_le_eq)
  show dt: "0 \<le> dt_ms r" using q(1) by (simp add: dt_ms_def d_def [symmetric])
  have "dt_ms r \<le> 60000" using fl_mono [OF q(2)] by (simp add: dt_ms_def d_def [symmetric])
  then show "interval_ms r \<le> 60000" using round_f64_mono [of "dt_ms r" 60000] round_f64_of_int [of 60000] by (simp add: interval_ms_def)
  show "0 \<le> interval_ms r" using dt by (simp add: interval_ms_def round_f64_nonneg)
qed

lemma weight_bounds: "0 \<le> night_weight h \<and> night_weight h \<le> 1"
proof -
  have "fl (21 / 100) \<le> fl 1" "fl (53 / 100) \<le> fl 1" "fl (71 / 100) \<le> fl 1" "fl (82 / 100) \<le> fl 1" by (rule fl_mono, simp)+
  then show ?thesis by (auto simp: night_weight_def)
qed

lemma weighted_bounds:
  assumes "0 \<le> ms" "ms \<le> 60000" "0 \<le> x" "x \<le> 1"
  shows "0 \<le> round_f64 (fl (fl (of_int ms) * x)) \<and> round_f64 (fl (fl (of_int ms) * x)) \<le> ms"
proof -
  have f: "fl (of_int ms) = of_int ms" using assms(1,2) by (intro fl_of_int) simp
  have "(of_int ms :: rat) * x \<le> of_int ms" using assms by (simp add: mult_left_le)
  then have "fl (of_int ms * x) \<le> of_int ms" using fl_mono [of "of_int ms * x" "of_int ms"] by (simp add: f)
  then have "round_f64 (fl (of_int ms * x)) \<le> ms" using round_f64_mono [of "fl (of_int ms * x)" "of_int ms"] by simp
  then show ?thesis using assms by (simp add: f round_f64_nonneg)
qed

lemma thresholds: "any_brake_mps2 \<le> hard_brake_mps2" "any_turn_mps2 \<le> aggr_turn_mps2"
proof -
  have g: "0 \<le> gravity" by (simp add: gravity_def)
  show "any_brake_mps2 \<le> hard_brake_mps2" "any_turn_mps2 \<le> aggr_turn_mps2"
    unfolding any_brake_mps2_def hard_brake_mps2_def any_turn_mps2_def aggr_turn_mps2_def
    by (intro fl_mono mult_right_mono g; simp)+
qed

lemma f64_ge_mono: "f64_ge v b \<Longrightarrow> a \<le> b \<Longrightarrow> f64_ge v a"
  by (auto simp: f64_ge_def split: f64.splits)

subsection \<open>Buckets\<close>

definition psum :: "(safety_bucket \<Rightarrow> int) \<Rightarrow> clip_safety \<Rightarrow> int" where
  "psum g out = sum_list (map g (grace_prefix out))"

lemma sum_list_put: "k < length xs \<Longrightarrow> sum_list (xs[k := x]) = sum_list xs + x - (xs ! k :: int)"
proof (induction xs arbitrary: k)
  case (Cons y xs)
  then show ?case by (cases k) auto
qed simp

lemma psum_add_prefix:
  assumes "\<And>b. g (f b) = g b + x"
  shows "psum g (add_prefix k f out) = psum g out + (if k < length (grace_prefix out) then x else 0)"
proof (cases "k < length (grace_prefix out)")
  case True
  then have "sum_list ((map g (grace_prefix out))[k := g (f (grace_prefix out ! k))]) = psum g out + x"
    by (subst sum_list_put) (simp_all add: psum_def assms)
  then show ?thesis using True by (simp add: psum_def add_prefix_def map_update)
qed (simp add: psum_def add_prefix_def)

lemma psum_add_prefix_same:
  assumes "\<And>b. g (f b) = g b"
  shows "psum g (add_prefix k f out) = psum g out"
  using psum_add_prefix [of g f 0] assms by simp

lemma add_prefix_fields [simp]:
  "hard_brake_ms (add_prefix k f out) = hard_brake_ms out" "brake_any_ms (add_prefix k f out) = brake_any_ms out"
  "aggr_turn_ms (add_prefix k f out) = aggr_turn_ms out" "turn_any_ms (add_prefix k f out) = turn_any_ms out"
  "speeding_ms (add_prefix k f out) = speeding_ms out" "moving_ms (add_prefix k f out) = moving_ms out"
  "manual_moving_ms (add_prefix k f out) = manual_moving_ms out" "imu_moving_ms (add_prefix k f out) = imu_moving_ms out"
  "night_ms (add_prefix k f out) = night_ms out" "night_weighted_ms (add_prefix k f out) = night_weighted_ms out"
  "length (grace_prefix (add_prefix k f out)) = length (grace_prefix out)"
  by (simp_all add: add_prefix_def)

lemma psum_update [simp]:
  "psum g (out\<lparr>hard_brake_ms := x\<rparr>) = psum g out" "psum g (out\<lparr>brake_any_ms := x\<rparr>) = psum g out" "psum g (out\<lparr>aggr_turn_ms := x\<rparr>) = psum g out"
  "psum g (out\<lparr>turn_any_ms := x\<rparr>) = psum g out" "psum g (out\<lparr>speeding_ms := x\<rparr>) = psum g out" "psum g (out\<lparr>hard_brake_events := x\<rparr>) = psum g out"
  "psum g (out\<lparr>aggr_turn_events := x\<rparr>) = psum g out" "psum g (out\<lparr>moving_ms := x\<rparr>) = psum g out" "psum g (out\<lparr>manual_moving_ms := x\<rparr>) = psum g out"
  "psum g (out\<lparr>imu_moving_ms := x\<rparr>) = psum g out" "psum g (out\<lparr>night_ms := x\<rparr>) = psum g out" "psum g (out\<lparr>night_weighted_ms := x\<rparr>) = psum g out"
  "psum g (out\<lparr>grace_ms_end := x\<rparr>) = psum g out" "psum g (out\<lparr>ap_at_end := y\<rparr>) = psum g out"
  by (simp_all add: psum_def)

subsection \<open>What holds during the walk\<close>

definition moving_ok :: "int \<Rightarrow> clip_safety \<Rightarrow> bool" where
  "moving_ok cap out \<longleftrightarrow> 0 \<le> speeding_ms out \<and> speeding_ms out \<le> manual_moving_ms out \<and> manual_moving_ms out \<le> moving_ms out \<and>
     0 \<le> imu_moving_ms out \<and> imu_moving_ms out \<le> moving_ms out \<and> 0 \<le> night_weighted_ms out \<and> night_weighted_ms out \<le> night_ms out \<and>
     night_ms out \<le> moving_ms out \<and> moving_ms out \<le> cap \<and> 0 \<le> psum b_speeding out \<and> psum b_speeding out \<le> speeding_ms out"

definition brakes_ok :: "clip_safety \<Rightarrow> bool" where
  "brakes_ok out \<longleftrightarrow> 0 \<le> psum b_hard_brake out \<and> 0 \<le> psum b_brake_any out \<and> psum b_hard_brake out \<le> hard_brake_ms out \<and>
     psum b_brake_any out \<le> brake_any_ms out \<and> hard_brake_ms out \<le> brake_any_ms out"

definition turns_ok :: "int \<Rightarrow> nat \<Rightarrow> clip_safety \<Rightarrow> bool" where
  "turns_ok ms streak out \<longleftrightarrow> 0 \<le> psum b_aggr_turn out \<and> 0 \<le> psum b_turn_any out \<and> psum b_aggr_turn out \<le> aggr_turn_ms out \<and>
     psum b_turn_any out \<le> turn_any_ms out \<and> aggr_turn_ms out + (if streak = 1 then ms else 0) \<le> turn_any_ms out"

lemma turns_ok_reset: "turns_ok ms n out \<Longrightarrow> 0 \<le> ms \<Longrightarrow> turns_ok ms 0 out"
  by (auto simp: turns_ok_def split: if_splits)

lemma note_moving_brakes: "brakes_ok (note_moving env r i a out) = brakes_ok out"
  by (simp add: note_moving_def brakes_ok_def Let_def psum_add_prefix psum_add_prefix_same)

lemma note_moving_turns: "turns_ok ms n (note_moving env r i a out) = turns_ok ms n out"
  by (simp add: note_moving_def turns_ok_def Let_def psum_add_prefix psum_add_prefix_same)

lemma note_moving_ok:
  assumes "moving_ok cap out" "0 \<le> interval_ms r" "interval_ms r \<le> 60000"
  shows "moving_ok (cap + interval_ms r) (note_moving env r i a out)"
proof (cases "f64_ge (f64_abs (r_speeds r ! i)) moving_mps \<and> f64_lt (f64_abs (r_speeds r ! i)) 100")
  case True
  define weight where "weight = (case night_hour_at env r i of Some h \<Rightarrow> night_weight h | None \<Rightarrow> 0)"
  have w: "0 \<le> weight" "weight \<le> 1" using weight_bounds by (auto simp: weight_def split: option.splits)
  define x where "x = round_f64 (fl (fl (of_int (interval_ms r)) * weight))"
  have x: "0 \<le> x" "x \<le> interval_ms r" using weighted_bounds [OF assms(2,3) w] by (simp_all add: x_def)
  define o2 where "o2 = out\<lparr>moving_ms := moving_ms out + interval_ms r,
    imu_moving_ms := imu_moving_ms out + (if has_imu r then interval_ms r else 0),
    manual_moving_ms := manual_moving_ms out + (if a then interval_ms r else 0),
    night_ms := night_ms out + (if weight > 0 then interval_ms r else 0),
    night_weighted_ms := night_weighted_ms out + (if weight > 0 then x else 0)\<rparr>"
  have eq: "note_moving env r i a out = (if a \<and> speed_between speeding_mps 100 (r_speeds r ! i)
    then add_prefix (prefix_index r i) (\<lambda>b. b\<lparr>b_speeding := b_speeding b + interval_ms r\<rparr>) (o2\<lparr>speeding_ms := speeding_ms o2 + interval_ms r\<rparr>) else o2)"
    using True by (simp add: note_moving_def Let_def weight_def [symmetric] x_def [symmetric] o2_def)
  have "psum b_speeding o2 = psum b_speeding out" by (simp add: o2_def)
  then show ?thesis using assms x unfolding eq by (auto simp: moving_ok_def psum_add_prefix psum_add_prefix_same o2_def split: if_splits)
next
  case False
  then have "note_moving env r i a out = out" by (auto simp: note_moving_def Let_def)
  then show ?thesis using assms by (simp add: moving_ok_def)
qed

lemma imu_brake_ok:
  assumes "0 \<le> interval_ms r"
  shows "brakes_ok (sw_out w) \<Longrightarrow> brakes_ok (sw_out (imu_brake r i w))"
    "turns_ok ms n (sw_out (imu_brake r i w)) = turns_ok ms n (sw_out w)"
    "moving_ok cap (sw_out (imu_brake r i w)) = moving_ok cap (sw_out w)" "turn_streak (imu_brake r i w) = turn_streak w"
  using assms by (simp_all add: imu_brake_def Let_def brakes_ok_def turns_ok_def moving_ok_def psum_add_prefix psum_add_prefix_same)

lemma imu_turn_ok:
  assumes "0 \<le> interval_ms r"
  shows "turns_ok ms n (sw_out w) \<Longrightarrow> turns_ok ms n (sw_out (imu_turn r i w))"
    "brakes_ok (sw_out (imu_turn r i w)) = brakes_ok (sw_out w)"
    "moving_ok cap (sw_out (imu_turn r i w)) = moving_ok cap (sw_out w)" "turn_streak (imu_turn r i w) = turn_streak w"
  using assms by (simp_all add: imu_turn_def Let_def brakes_ok_def turns_ok_def moving_ok_def psum_add_prefix psum_add_prefix_same)

lemma derived_brake_ok:
  assumes "0 \<le> interval_ms r"
  shows "brakes_ok (sw_out w) \<Longrightarrow> brakes_ok (sw_out (derived_brake env r i a w))"
    "turns_ok ms n (sw_out (derived_brake env r i a w)) = turns_ok ms n (sw_out w)"
    "moving_ok cap (sw_out (derived_brake env r i a w)) = moving_ok cap (sw_out w)" "turn_streak (derived_brake env r i a w) = turn_streak w"
proof -
  have any: "f64_ge d hard_brake_mps2 \<Longrightarrow> f64_ge d any_brake_mps2" for d using f64_ge_mono thresholds(1) by blast
  show "brakes_ok (sw_out (derived_brake env r i a w))" if "brakes_ok (sw_out w)"
    using that assms any [of "pair_decel env r i"] by (simp add: derived_brake_def Let_def brakes_ok_def psum_add_prefix psum_add_prefix_same)
qed (simp_all add: derived_brake_def Let_def turns_ok_def moving_ok_def psum_add_prefix psum_add_prefix_same)

lemma derived_turn_ok:
  assumes "0 \<le> interval_ms r"
  shows "turns_ok (interval_ms r) (turn_streak w) (sw_out w) \<Longrightarrow>
      turns_ok (interval_ms r) (turn_streak (derived_turn env r i a w)) (sw_out (derived_turn env r i a w))"
    "brakes_ok (sw_out (derived_turn env r i a w)) = brakes_ok (sw_out w)"
    "moving_ok cap (sw_out (derived_turn env r i a w)) = moving_ok cap (sw_out w)"
proof -
  have any: "f64_ge d aggr_turn_mps2 \<Longrightarrow> f64_ge d any_turn_mps2" for d using f64_ge_mono thresholds(2) by blast
  show "turns_ok (interval_ms r) (turn_streak (derived_turn env r i a w)) (sw_out (derived_turn env r i a w))"
    if "turns_ok (interval_ms r) (turn_streak w) (sw_out w)"
    using that assms any [of "lateral_at env r i"]
    by (auto simp: derived_turn_def Let_def turns_ok_def psum_add_prefix psum_add_prefix_same split: if_splits)
qed (simp_all add: derived_turn_def Let_def brakes_ok_def moving_ok_def psum_add_prefix psum_add_prefix_same)

definition walk_ok :: "route \<Rightarrow> int \<Rightarrow> safety_walk \<Rightarrow> bool" where
  "walk_ok r cap w \<longleftrightarrow> moving_ok cap (sw_out w) \<and> brakes_ok (sw_out w) \<and> turns_ok (interval_ms r) (turn_streak w) (sw_out w)"

lemma safety_step_ok:
  assumes "walk_ok r cap w" "0 \<le> interval_ms r" "interval_ms r \<le> 60000"
  shows "walk_ok r (cap + interval_ms r) (safety_step env r w i)"
proof -
  define a where "a = factor_allowed r i (grace_remaining w)"
  define w2 where "w2 = w\<lparr>grace_remaining := grace_after r i (grace_remaining w), sw_out := note_moving env r i a (sw_out w)\<rparr>"
  have w2: "walk_ok r (cap + interval_ms r) w2"
    using assms note_moving_ok [of cap "sw_out w" r env i a]
    by (simp add: walk_ok_def w2_def note_moving_brakes note_moving_turns)
  have skip: "walk_ok r (cap + interval_ms r) (w\<lparr>grace_remaining := g, in_brake_run := x, in_turn_run := y, turn_streak := 0\<rparr>)" for g x y
    using assms turns_ok_reset by (auto simp: walk_ok_def moving_ok_def)
  have imu: "walk_ok r (cap + interval_ms r) (imu_step r i a w2)"
    using w2 imu_brake_ok [OF assms(2)] imu_turn_ok [OF assms(2)] by (auto simp: imu_step_def walk_ok_def)
  have derived: "walk_ok r (cap + interval_ms r) (derived_turn env r i a (derived_brake env r i a w2))"
    using w2 derived_brake_ok [OF assms(2)] derived_turn_ok [OF assms(2)] by (simp add: walk_ok_def)
  show ?thesis using skip imu derived by (simp add: safety_step_def Let_def a_def [symmetric] w2_def)
qed

lemma safety_walk_ok:
  assumes "walk_ok r cap w" "0 \<le> interval_ms r" "interval_ms r \<le> 60000"
  shows "walk_ok r (cap + int (length is) * interval_ms r) (foldl (safety_step env r) w is)"
  using assms(1)
proof (induction "is" arbitrary: cap w)
  case (Cons i rest)
  then show ?case using Cons.IH [OF safety_step_ok [OF Cons.prems assms(2,3), of env i]] by (simp add: algebra_simps)
qed simp

lemma empty_safety_ok: "0 \<le> interval_ms r \<Longrightarrow> walk_ok r 0
    \<lparr>sw_out = empty_safety, in_brake_run = x, in_turn_run = y, turn_streak = 0, grace_remaining = g\<rparr>"
  by (simp add: walk_ok_def moving_ok_def brakes_ok_def turns_ok_def empty_safety_def psum_def empty_bucket_def sum_list_replicate)

lemma clip_safety_ok:
  "let s = compute_clip_safety env r in
     moving_ok (int (length (r_points r) - 1) * interval_ms r) s \<and> brakes_ok s \<and> aggr_turn_ms s \<le> turn_any_ms s \<and>
     0 \<le> psum b_aggr_turn s \<and> psum b_aggr_turn s \<le> aggr_turn_ms s \<and> psum b_turn_any s \<le> turn_any_ms s"
proof (cases "length (r_points r) < 2")
  case True
  then have "length (r_points r) - 1 = 0" by simp
  then show ?thesis using True
    by (simp add: compute_clip_safety_def Let_def moving_ok_def brakes_ok_def empty_safety_def psum_def empty_bucket_def sum_list_replicate)
next
  case False
  then have n: "2 \<le> length (r_points r)" by simp
  note ms = interval_bounds [OF n]
  show ?thesis
  proof (cases "has_sei_speeds r")
    case no: False
    have "0 \<le> int (length (r_points r) - 1) * interval_ms r" using ms by simp
    then show ?thesis using no
      by (simp add: compute_clip_safety_def Let_def moving_ok_def brakes_ok_def empty_safety_def psum_def empty_bucket_def sum_list_replicate)
  next
    case True
    define w where "w = foldl (safety_step env r)
      \<lparr>sw_out = empty_safety, in_brake_run = False, in_turn_run = False, turn_streak = 0, grace_remaining = 0\<rparr> [1..<length (r_points r)]"
    have "walk_ok r (0 + int (length [1..<length (r_points r)]) * interval_ms r) w"
      unfolding w_def by (rule safety_walk_ok [OF empty_safety_ok]) (use ms in auto)
    then have "walk_ok r (int (length (r_points r) - 1) * interval_ms r) w" by simp
    moreover have "compute_clip_safety env r = (sw_out w)\<lparr>grace_ms_end := round_f64 (grace_remaining w),
        ap_at_end := (if has_ap r then Some (r_autopilot_states r ! (length (r_points r) - 1)) else None)\<rparr>"
      using True False by (simp add: compute_clip_safety_def Let_def w_def)
    ultimately show ?thesis using ms(2)
      by (auto simp: walk_ok_def moving_ok_def brakes_ok_def turns_ok_def Let_def split: if_splits)
  qed
qed

subsection \<open>The score\<close>

lemma clamp_bounds: "lo \<le> hi \<Longrightarrow> lo \<le> clamp lo hi x \<and> clamp lo hi x \<le> hi"
  by (simp add: clamp_def)

lemma clamp_mono: "lo \<le> hi \<Longrightarrow> x \<le> y \<Longrightarrow> clamp lo hi x \<le> clamp lo hi y"
  by (auto simp: clamp_def)

lemma round1_mono: "x \<le> y \<Longrightarrow> round1 x \<le> round1 y"
  unfolding round1_def
  by (intro fl_mono divide_right_mono iffD2 [OF of_int_le_iff] round_f64_mono fl_mono mult_right_mono) auto

lemma round1_values: "round1 0 = 0" "round1 100 = 100"
  using round_f64_of_int [of 1000] round_f64_of_int [of 0] by (simp_all add: round1_def)

lemma round1_nonneg: "0 \<le> x \<Longrightarrow> 0 \<le> round1 x"
  using round1_mono [of 0 x] by (simp add: round1_values)

lemma round1_top:
  assumes "x \<le> 100 + 1 / 100"
  shows "round1 x \<le> 100"
proof -
  have "\<lfloor>(1000 + 49 / 100 + 1 / 2 :: rat)\<rfloor> = 1000" by (intro floor_unique) simp_all
  then have top: "round_f64 (1000 + 49 / 100) = 1000" by (simp add: round_f64_def)
  have "fl (x * 10) \<le> fl ((100 + 1 / 100) * 10)" using assms by (intro fl_mono mult_right_mono) auto
  also have "\<dots> \<le> 10001 / 10 + (10001 / 10) / 2 ^ 53" using fl_upper [of "(100 + 1 / 100) * 10"] by simp
  also have "\<dots> \<le> 1000 + 49 / 100" by simp
  finally have "round_f64 (fl (x * 10)) \<le> 1000"
    using round_f64_mono [of "fl (x * 10)" "1000 + 49 / 100"] top by simp
  then have "(of_int (round_f64 (fl (x * 10))) :: rat) / 10 \<le> 100" by (simp add: divide_le_eq)
  then show ?thesis using fl_mono [of "of_int (round_f64 (fl (x * 10))) / 10" 100] by (simp add: round1_def)
qed

lemma fl_pos_of_ge_one: "1 \<le> x \<Longrightarrow> 1 \<le> fl x"
  using fl_mono [of 1 x] by simp

lemma ratio_pct_bounds:
  assumes "0 \<le> part" "part \<le> base" "0 < base"
  shows "0 \<le> ratio_pct part base \<and> ratio_pct part base \<le> 100 + 1 / 100"
proof -
  define F P where "F = fl (of_int base)" and "P = fl (of_int part)"
  have F: "1 \<le> F" using assms(3) by (simp add: F_def fl_pos_of_ge_one)
  have P: "0 \<le> P" "P \<le> F" using assms by (auto simp: F_def P_def intro: fl_mono)
  have "fl (100 * P) \<le> fl (100 * F)" using P by (intro fl_mono) simp
  also have "\<dots> \<le> 100 * F + (100 * F) / 2 ^ 53" using F by (intro fl_upper) simp
  finally have "fl (100 * P) / F \<le> (100 * F + (100 * F) / 2 ^ 53) / F" using F by (intro divide_right_mono) auto
  also have "\<dots> = 100 + 100 / 2 ^ 53" using F by (simp add: field_simps)
  finally have q: "fl (100 * P) / F \<le> 100 + 100 / 2 ^ 53" .
  have "fl (fl (100 * P) / F) \<le> fl (100 + 100 / 2 ^ 53)" by (rule fl_mono [OF q])
  also have "\<dots> \<le> 100 + 100 / 2 ^ 53 + (100 + 100 / 2 ^ 53) / 2 ^ 53" by (intro fl_upper) simp
  also have "\<dots> \<le> 100 + 1 / 100" by simp
  finally show ?thesis using P F by (simp add: ratio_pct_def F_def [symmetric] P_def [symmetric])
qed

lemma score_bounds: "0 \<le> score_from_percentages powf h t n s \<and> score_from_percentages powf h t n s \<le> 100"
  by (simp add: score_from_percentages_def Let_def clamp_bounds)

lemma score_antimono:
  assumes mono: "\<And>b x y. 1 \<le> b \<Longrightarrow> x \<le> y \<Longrightarrow> powf b x \<le> powf b y" and pos: "\<And>b x. 1 \<le> b \<Longrightarrow> 0 \<le> powf b x"
    and "h \<le> h'" "t \<le> t'" "n \<le> n'" "s \<le> s'"
  shows "score_from_percentages powf h' t' n' s' \<le> score_from_percentages powf h t n s"
proof -
  have b: "1 \<le> fl (123599110 / 100000000)" "1 \<le> fl (101219290 / 100000000)" "1 \<le> fl (103231810 / 100000000)" "1 \<le> fl (102439511 / 100000000)"
    by (rule fl_pos_of_ge_one, simp)+
  have step: "fl (a * powf q (clamp 0 c x)) \<le> fl (a' * powf q (clamp 0 c y))"
    if "0 \<le> a" "a \<le> a'" "1 \<le> q" "0 \<le> c" "x \<le> y" for a a' q c x y
    using that by (intro fl_mono mult_mono mono clamp_mono pos) auto
  have nn: "0 \<le> fl (a * powf q x)" if "0 \<le> a" "1 \<le> q" for a q x using that pos by simp
  show ?thesis unfolding score_from_percentages_def Let_def
    by (intro clamp_mono fl_mono diff_left_mono mult_left_mono step nn b assms(3-6)) simp_all
qed

section \<open>Properties\<close>

text \<open>
  C21. The parts never exceed their wholes, for every clip and whatever the distances and curvatures are: hard
  braking is part of braking, aggressive turning part of turning (although a streak of turns is only
  charged from its second sample, and then for two), speeding part of the driver's moving time, which is
  part of the moving time, like the night and the measured time; weighted night time is at most night time;
  and what the grace after a seam takes away is at most what was counted.
\<close>

theorem safety_parts_bounded:
  "let s = compute_clip_safety env r in
    0 \<le> hard_brake_ms s \<and> hard_brake_ms s \<le> brake_any_ms s \<and> 0 \<le> aggr_turn_ms s \<and> aggr_turn_ms s \<le> turn_any_ms s \<and>
    0 \<le> speeding_ms s \<and> speeding_ms s \<le> manual_moving_ms s \<and> manual_moving_ms s \<le> moving_ms s \<and>
    0 \<le> imu_moving_ms s \<and> imu_moving_ms s \<le> moving_ms s \<and>
    0 \<le> night_weighted_ms s \<and> night_weighted_ms s \<le> night_ms s \<and> night_ms s \<le> moving_ms s \<and>
    moving_ms s \<le> int (length (r_points r) - 1) * interval_ms r \<and>
    sum_list (map b_hard_brake (grace_prefix s)) \<le> hard_brake_ms s \<and> sum_list (map b_brake_any (grace_prefix s)) \<le> brake_any_ms s \<and>
    sum_list (map b_aggr_turn (grace_prefix s)) \<le> aggr_turn_ms s \<and> sum_list (map b_turn_any (grace_prefix s)) \<le> turn_any_ms s \<and>
    sum_list (map b_speeding (grace_prefix s)) \<le> speeding_ms s"
  using clip_safety_ok [of env r] by (simp add: Let_def moving_ok_def brakes_ok_def psum_def)

text \<open>
  A score is well formed: when the totals are parts of their wholes, the score and every percentage
  lie between 0 and 100 and no penalty is negative, whatever the power function is, as long as it is not
  negative and grows with its exponent for bases of at least one.
\<close>

theorem safety_score_well_formed:
  assumes "\<forall>b x y. 1 \<le> b \<and> x \<le> y \<longrightarrow> 0 \<le> powf b x \<and> powf b x \<le> powf b y"
    and "0 \<le> t_hard_brake_ms t" "t_hard_brake_ms t \<le> t_brake_any_ms t" "0 \<le> t_aggr_turn_ms t" "t_aggr_turn_ms t \<le> t_turn_any_ms t"
    and "0 \<le> t_speeding_ms t" "t_speeding_ms t \<le> t_moving_ms t"
    and "compute_safety_score powf t = Some sc"
  shows "sc_score sc \<in> {0..100} \<and> sc_hard_brake_pct sc \<in> {0..100} \<and> sc_aggr_turn_pct sc \<in> {0..100} \<and> sc_speeding_pct sc \<in> {0..100} \<and>
    sc_night_pct sc \<in> {0..100} \<and> sc_fsd_share_pct sc \<in> {0..100} \<and>
    0 \<le> sc_hard_brake_penalty sc \<and> 0 \<le> sc_aggr_turn_penalty sc \<and> 0 \<le> sc_speeding_penalty sc \<and> 0 \<le> sc_night_penalty sc"
proof -
  define hb tn sp ln where "hb = (if t_brake_any_ms t > 0 then ratio_pct (t_hard_brake_ms t) (t_brake_any_ms t) else 0)"
    and "tn = (if t_turn_any_ms t > 0 then ratio_pct (t_aggr_turn_ms t) (t_turn_any_ms t) else 0)"
    and "sp = ratio_pct (t_speeding_ms t) (t_moving_ms t)"
    and "ln = fl (100 * clamp 0 1 (fl (fl (of_int (t_night_weighted_ms t)) / fl (of_int (t_moving_ms t)))))"
  have moving: "0 < t_moving_ms t" using assms(8) by (auto simp: compute_safety_score_def split: if_splits)
  have pct: "0 \<le> hb \<and> hb \<le> 100 + 1 / 100" "0 \<le> tn \<and> tn \<le> 100 + 1 / 100" "0 \<le> sp \<and> sp \<le> 100 + 1 / 100"
    using ratio_pct_bounds assms(2-7) moving by (auto simp: hb_def tn_def sp_def)
  have unit: "0 \<le> fl (100 * clamp 0 1 x) \<and> fl (100 * clamp 0 1 x) \<le> 100" for x
    using clamp_bounds [of 0 1 x] fl_mono [of "100 * clamp 0 1 x" 100] by simp
  have share: "0 \<le> fl (clamp 0 1 x * 100) \<and> fl (clamp 0 1 x * 100) \<le> 100" for x using unit [of x] by (simp add: mult.commute)
  have mono: "\<And>b x y. 1 \<le> b \<Longrightarrow> x \<le> y \<Longrightarrow> powf b x \<le> powf b y" and pos: "\<And>b x. 1 \<le> b \<Longrightarrow> 0 \<le> powf b x"
    using assms(1) by blast+
  have pen: "0 \<le> fl (score_from_percentages powf h' t' n' s' - score_from_percentages powf hb tn ln sp)"
    if "h' \<le> hb" "t' \<le> tn" "n' \<le> ln" "s' \<le> sp" for h' t' n' s'
    using score_antimono [OF mono pos that] by simp
  have rng: "round1 x \<in> {0..100}" if "0 \<le> x \<and> x \<le> 100 + 1 / 100" for x using that round1_nonneg round1_top by auto
  have sc: "sc = \<lparr>sc_score = round1 (score_from_percentages powf hb tn ln sp),
      sc_hard_brake_pct = round1 hb, sc_aggr_turn_pct = round1 tn, sc_speeding_pct = round1 sp,
      sc_night_pct = round1 (fl (100 * clamp 0 1 (fl (fl (of_int (t_night_ms t)) / fl (of_int (t_moving_ms t)))))),
      sc_hard_brake_penalty = round1 (fl (score_from_percentages powf 0 tn ln sp - score_from_percentages powf hb tn ln sp)),
      sc_aggr_turn_penalty = round1 (fl (score_from_percentages powf hb 0 ln sp - score_from_percentages powf hb tn ln sp)),
      sc_speeding_penalty = round1 (fl (score_from_percentages powf hb tn ln 0 - score_from_percentages powf hb tn ln sp)),
      sc_night_penalty = round1 (fl (score_from_percentages powf hb tn 0 sp - score_from_percentages powf hb tn ln sp)),
      sc_fsd_share_pct = round1 (fl (clamp 0 1 (fl (t_assisted_mi t / t_distance_mi t)) * 100))\<rparr>"
    using assms(8) by (simp add: compute_safety_score_def Let_def hb_def tn_def sp_def ln_def split: if_splits)
  have ln: "0 \<le> ln" using unit by (simp add: ln_def)
  have narrow: "round1 x \<in> {0..100}" if "0 \<le> x \<and> x \<le> 100" for x using that by (intro rng) linarith
  show ?thesis unfolding sc safety_score.simps
    by (intro conjI round1_nonneg rng [OF pct(1)] rng [OF pct(2)] rng [OF pct(3)] narrow [OF unit] narrow [OF share] narrow [OF score_bounds] pen)
      (use pct ln in auto)
qed

theorem safety_score_well_formed_witness:
  "\<exists>sc. compute_safety_score (\<lambda>_ _. 1) \<lparr>t_distance_mi = 1, t_assisted_mi = 0, t_moving_ms = 60000, t_imu_moving_ms = 60000, t_night_ms = 0,
      t_night_weighted_ms = 0, t_hard_brake_ms = 500, t_aggr_turn_ms = 0, t_speeding_ms = 0, t_brake_any_ms = 1000, t_turn_any_ms = 0\<rparr> = Some sc \<and>
     sc_score sc \<in> {0..100} \<and> sc_hard_brake_pct sc \<in> {0..100} \<and> 0 \<le> sc_hard_brake_penalty sc"
proof -
  define t :: safety_totals where "t = \<lparr>t_distance_mi = 1, t_assisted_mi = 0, t_moving_ms = 60000, t_imu_moving_ms = 60000, t_night_ms = 0,
      t_night_weighted_ms = 0, t_hard_brake_ms = 500, t_aggr_turn_ms = 0, t_speeding_ms = 0, t_brake_any_ms = 1000, t_turn_any_ms = 0\<rparr>"
  have "fl (1 / 10) \<le> 1" "fl (90 / 100) \<le> 1" using fl_mono [of "1 / 10" 1] fl_mono [of "90 / 100" 1] by simp_all
  then obtain sc where sc: "compute_safety_score (\<lambda>_ _. 1) t = Some sc" by (simp add: compute_safety_score_def t_def Let_def)
  have "0 \<le> t_hard_brake_ms t" "t_hard_brake_ms t \<le> t_brake_any_ms t" "0 \<le> t_aggr_turn_ms t" "t_aggr_turn_ms t \<le> t_turn_any_ms t"
    "0 \<le> t_speeding_ms t" "t_speeding_ms t \<le> t_moving_ms t" by (simp_all add: t_def)
  then show ?thesis using safety_score_well_formed [of "\<lambda>_ _. 1" t sc] sc unfolding t_def by simp
qed

end
