(* ===== verification/ClipAggregates.thy ===== *)
theory ClipAggregates
  imports SafetyScore
begin

section \<open>Statistics of a clip\<close>

text \<open>
  \<^verbatim>\<open>crates/drives/src/aggregate.rs\<close>: the walk over the points of one clip that adds up distance, speed, time and
  distance under each kind of assistance, counts disengagements and pushes of the accelerator, and exports
  what is still open at the end of the clip. The distance is a parameter, as in the overview.
\<close>

record route_aggregates =
  ag_distance_m :: f64
  ag_max_speed_mps :: f64
  ag_avg_speed_mps :: f64
  ag_speed_sample_count :: nat
  ag_valid_point_count :: nat
  ag_fsd_engaged_ms :: int
  ag_autosteer_engaged_ms :: int
  ag_tacc_engaged_ms :: int
  ag_fsd_distance_m :: f64
  ag_autosteer_distance_m :: f64
  ag_tacc_distance_m :: f64
  ag_assisted_distance_m :: f64
  ag_fsd_disengagements :: nat
  ag_fsd_accel_pushes :: nat
  ag_fsd_pend_ms_end :: "rat option"
  ag_park_ms_start :: "rat option"
  ag_fsd_at_end :: bool
  ag_fsd_accel_pushes_early :: nat
  ag_ap_at_start :: "u8 option"
  ag_start_point :: "gps_point option"
  ag_end_point :: "gps_point option"
  ag_sei_speed_abs_max :: "rat option"
  ag_safety :: "clip_safety option"

definition empty_aggregates :: route_aggregates where
  "empty_aggregates =
     \<lparr>ag_distance_m = Finite 0, ag_max_speed_mps = Finite 0, ag_avg_speed_mps = Finite 0, ag_speed_sample_count = 0, ag_valid_point_count = 0,
      ag_fsd_engaged_ms = 0, ag_autosteer_engaged_ms = 0, ag_tacc_engaged_ms = 0, ag_fsd_distance_m = Finite 0,
      ag_autosteer_distance_m = Finite 0, ag_tacc_distance_m = Finite 0, ag_assisted_distance_m = Finite 0, ag_fsd_disengagements = 0,
      ag_fsd_accel_pushes = 0, ag_fsd_pend_ms_end = None, ag_park_ms_start = None, ag_fsd_at_end = False, ag_fsd_accel_pushes_early = 0,
      ag_ap_at_start = None, ag_start_point = None, ag_end_point = None, ag_sei_speed_abs_max = None, ag_safety = None\<rparr>"

definition autopilot_autosteer :: u8 where "autopilot_autosteer = 2"

definition f64_div_pos :: "f64 \<Rightarrow> rat \<Rightarrow> f64" where
  "f64_div_pos x c = (case x of Finite a \<Rightarrow> Finite (fl (a / c)) | _ \<Rightarrow> x)"

definition dt_sec :: "route \<Rightarrow> rat" where
  "dt_sec r = fl (dt_ms r / 1000)"

subsection \<open>Park intervals\<close>

fun park_runs :: "rat \<Rightarrow> nat \<Rightarrow> gear_run list \<Rightarrow> (rat \<times> rat) list" where
  "park_runs per acc [] = []"
| "park_runs per acc (run # runs) =
     (if gr_gear run = gear_park \<and> gr_frames run > 0
      then (fl (fl (of_nat acc) * per), fl (fl (of_nat (acc + gr_frames run)) * per)) # park_runs per (acc + gr_frames run) runs
      else park_runs per (acc + gr_frames run) runs)"

fun park_states :: "rat \<Rightarrow> nat \<Rightarrow> nat option \<Rightarrow> u8 list \<Rightarrow> (rat \<times> rat) list" where
  "park_states dt i run_start [] = (case run_start of Some s \<Rightarrow> [(fl (fl (of_nat s) * dt), 60000)] | None \<Rightarrow> [])"
| "park_states dt i run_start (g # gs) =
     (case run_start of
        None \<Rightarrow> park_states dt (Suc i) (if g = gear_park then Some i else None) gs
      | Some s \<Rightarrow>
          if g = gear_park then park_states dt (Suc i) (Some s) gs
          else (fl (fl (of_nat s) * dt), fl (fl (of_nat i) * dt)) # park_states dt (Suc i) None gs)"

definition park_intervals :: "route \<Rightarrow> (rat \<times> rat) list" where
  "park_intervals r =
     (let gear_total = sum_list (map gr_frames (r_gear_runs r))
      in if gear_total > 0 then park_runs (fl (60000 / fl (of_nat gear_total))) 0 (r_gear_runs r)
         else if length (r_gear_states r) = length (r_points r) then park_states (dt_ms r) 0 None (r_gear_states r)
         else [])"

definition is_park_at :: "route \<Rightarrow> rat \<Rightarrow> bool" where
  "is_park_at r ms = list_ex (\<lambda>(s, e). s \<le> ms \<and> ms < e) (park_intervals r)"

subsection \<open>The walk\<close>

record agg_walk =
  aw_agg :: route_aggregates
  speed_sum :: f64
  sei_abs_max :: rat
  in_accel_press :: bool
  accel_press_early :: bool
  fsd_engage_idx :: "nat option"
  pending_disengage :: "nat option"

definition engaged_from_start :: "route \<Rightarrow> bool" where
  "engaged_from_start r \<longleftrightarrow> has_ap r \<and> r_autopilot_states r ! 0 = autopilot_fsd"

definition pair_distance :: "geodesic \<Rightarrow> route \<Rightarrow> nat \<Rightarrow> f64" where
  "pair_distance geo r i =
     (let p = r_points r ! (i - 1); q = r_points r ! i in geo (fst p) (snd p) (fst q) (snd q))"

text \<open>Pairs with a point without a fix are skipped, and jumps when the speed is not known.\<close>

definition pair_counts :: "geodesic \<Rightarrow> route \<Rightarrow> nat \<Rightarrow> bool" where
  "pair_counts geo r i \<longleftrightarrow>
     valid_at r (i - 1) \<and> valid_at r i \<and>
     \<not> (\<not> has_sei_speeds r \<and> dt_sec r > 0 \<and> f64_gt (f64_div_pos (pair_distance geo r i) (dt_sec r)) 70)"

definition note_speed :: "f64 \<Rightarrow> agg_walk \<Rightarrow> agg_walk" where
  "note_speed speed w =
     (let a = aw_agg w
      in w\<lparr>speed_sum := f64_add (speed_sum w) speed,
           aw_agg := a\<lparr>ag_speed_sample_count := ag_speed_sample_count a + 1,
                       ag_max_speed_mps := (if f64_greater speed (ag_max_speed_mps a) then speed else ag_max_speed_mps a)\<rparr>\<rparr>)"

definition walk_speed :: "geodesic \<Rightarrow> route \<Rightarrow> nat \<Rightarrow> agg_walk \<Rightarrow> agg_walk" where
  "walk_speed geo r i w =
     (let d = pair_distance geo r i; a = aw_agg w;
          w1 = w\<lparr>aw_agg := a\<lparr>ag_distance_m := f64_add (ag_distance_m a) d\<rparr>\<rparr>;
          w2 = (if length (r_speeds r) = length (r_points r)
                then case f64_abs (r_speeds r ! i) of
                       Finite v \<Rightarrow> if v < 100 \<and> v > sei_abs_max w1 then w1\<lparr>sei_abs_max := v\<rparr> else w1
                     | _ \<Rightarrow> w1
                else w1)
      in if has_sei_speeds r
         then if speed_between 0 100 (r_speeds r ! i) then note_speed (r_speeds r ! i) w2 else w2
         else if dt_sec r > 0
              then let speed = f64_div_pos d (dt_sec r) in if f64_lt speed 70 then note_speed speed w2 else w2
              else w2)"

definition engaged_time :: "route \<Rightarrow> u8 \<Rightarrow> f64 \<Rightarrow> route_aggregates \<Rightarrow> route_aggregates" where
  "engaged_time r cur_ap d a =
     (if cur_ap = autopilot_off then a
      else let a1 = a\<lparr>ag_assisted_distance_m := f64_add (ag_assisted_distance_m a) d\<rparr>; ms = f64_as_i64 (dt_ms r)
           in if cur_ap = autopilot_fsd
              then a1\<lparr>ag_fsd_engaged_ms := ag_fsd_engaged_ms a1 + ms, ag_fsd_distance_m := f64_add (ag_fsd_distance_m a1) d\<rparr>
              else if cur_ap = autopilot_autosteer
              then a1\<lparr>ag_autosteer_engaged_ms := ag_autosteer_engaged_ms a1 + ms, ag_autosteer_distance_m := f64_add (ag_autosteer_distance_m a1) d\<rparr>
              else if cur_ap = autopilot_tacc
              then a1\<lparr>ag_tacc_engaged_ms := ag_tacc_engaged_ms a1 + ms, ag_tacc_distance_m := f64_add (ag_tacc_distance_m a1) d\<rparr>
              else a1)"

definition note_engage :: "u8 \<Rightarrow> u8 \<Rightarrow> nat \<Rightarrow> agg_walk \<Rightarrow> agg_walk" where
  "note_engage prev_ap cur_ap i w =
     (if prev_ap \<noteq> autopilot_fsd \<and> cur_ap = autopilot_fsd then w\<lparr>fsd_engage_idx := Some i, in_accel_press := False\<rparr> else w)"

definition since_ms :: "route \<Rightarrow> nat \<Rightarrow> nat \<Rightarrow> rat" where
  "since_ms r k i = fl (fl (of_nat (i - k)) * dt_ms r)"

definition resolve_pending :: "route \<Rightarrow> u8 \<Rightarrow> nat \<Rightarrow> agg_walk \<Rightarrow> agg_walk" where
  "resolve_pending r cur_ap i w =
     (case pending_disengage w of None \<Rightarrow> w
      | Some k \<Rightarrow>
          if is_park_at r (fl (fl (of_nat i) * dt_ms r)) \<and> since_ms r k i \<le> 2000 then w\<lparr>pending_disengage := None\<rparr>
          else if since_ms r k i > 2000 \<or> cur_ap = autopilot_fsd
          then w\<lparr>aw_agg := (aw_agg w)\<lparr>ag_fsd_disengagements := ag_fsd_disengagements (aw_agg w) + 1\<rparr>, pending_disengage := None\<rparr>
          else w)"

definition defer_disengage :: "u8 \<Rightarrow> u8 \<Rightarrow> nat \<Rightarrow> agg_walk \<Rightarrow> agg_walk" where
  "defer_disengage prev_ap cur_ap i w =
     (if prev_ap = autopilot_fsd \<and> cur_ap \<noteq> autopilot_fsd then w\<lparr>pending_disengage := Some i, in_accel_press := False\<rparr> else w)"

definition accel_percent :: "f32 \<Rightarrow> f64" where
  "accel_percent p = (if f64_le p 1 then case p of Finite a \<Rightarrow> Finite (fl (a * 100)) | _ \<Rightarrow> p else p)"

definition note_accel :: "route \<Rightarrow> u8 \<Rightarrow> nat \<Rightarrow> agg_walk \<Rightarrow> agg_walk" where
  "note_accel r cur_ap i w =
     (if cur_ap = autopilot_fsd \<and> length (r_accel_positions r) = length (r_points r)
      then let pct = accel_percent (r_accel_positions r ! i);
               since = (case fsd_engage_idx w of Some k \<Rightarrow> since_ms r k i | None \<Rightarrow> 0)
           in if \<not> in_accel_press w \<and> f64_gt pct 1
              then if since \<ge> 3000 then w\<lparr>in_accel_press := True, accel_press_early := False\<rparr>
                   else if engaged_from_start r \<and> fsd_engage_idx w = Some 0 then w\<lparr>in_accel_press := True, accel_press_early := True\<rparr>
                   else w
              else if in_accel_press w \<and> f64_le pct 0
              then w\<lparr>aw_agg := (if accel_press_early w
                                then (aw_agg w)\<lparr>ag_fsd_accel_pushes_early := ag_fsd_accel_pushes_early (aw_agg w) + 1\<rparr>
                                else (aw_agg w)\<lparr>ag_fsd_accel_pushes := ag_fsd_accel_pushes (aw_agg w) + 1\<rparr>),
                     in_accel_press := False\<rparr>
              else w
      else if cur_ap \<noteq> autopilot_fsd then w\<lparr>in_accel_press := False\<rparr>
      else w)"

definition walk_autopilot :: "geodesic \<Rightarrow> route \<Rightarrow> nat \<Rightarrow> agg_walk \<Rightarrow> agg_walk" where
  "walk_autopilot geo r i w =
     (let cur = r_autopilot_states r ! i; prev = r_autopilot_states r ! (i - 1);
          w1 = w\<lparr>aw_agg := engaged_time r cur (pair_distance geo r i) (aw_agg w)\<rparr>
      in note_accel r cur i (defer_disengage prev cur i (resolve_pending r cur i (note_engage prev cur i w1))))"

definition agg_step :: "geodesic \<Rightarrow> route \<Rightarrow> agg_walk \<Rightarrow> nat \<Rightarrow> agg_walk" where
  "agg_step geo r w i =
     (if \<not> pair_counts geo r i then w
      else let w1 = walk_speed geo r i w in if has_ap r then walk_autopilot geo r i w1 else w1)"

definition agg_start :: "route \<Rightarrow> route_aggregates" where
  "agg_start r =
     (let good = filter valid_point (r_points r)
      in empty_aggregates\<lparr>ag_start_point := (if good = [] then None else Some (hd good)),
                          ag_end_point := (if good = [] then None else Some (last good)),
                          ag_valid_point_count := length good\<rparr>)"

definition agg_boundary :: "route \<Rightarrow> route_aggregates \<Rightarrow> route_aggregates" where
  "agg_boundary r a =
     (let n = length (r_points r)
      in a\<lparr>ag_fsd_at_end := has_ap r \<and> r_autopilot_states r ! (n - 1) = autopilot_fsd,
           ag_ap_at_start := (if has_ap r then Some (r_autopilot_states r ! 0) else None),
           ag_park_ms_start := map_option fst (List.find (\<lambda>iv. fst iv < 2000) (park_intervals r))\<rparr>)"

definition close_pending :: "route \<Rightarrow> agg_walk \<Rightarrow> route_aggregates" where
  "close_pending r w =
     (case pending_disengage w of None \<Rightarrow> aw_agg w
      | Some k \<Rightarrow>
          (let elapsed = since_ms r k (length (r_points r) - 1)
           in if elapsed > 2000 then (aw_agg w)\<lparr>ag_fsd_disengagements := ag_fsd_disengagements (aw_agg w) + 1\<rparr>
              else (aw_agg w)\<lparr>ag_fsd_pend_ms_end := Some elapsed\<rparr>))"

definition agg_init :: "route \<Rightarrow> agg_walk" where
  "agg_init r =
     \<lparr>aw_agg = agg_boundary r (agg_start r), speed_sum = Finite 0, sei_abs_max = 0, in_accel_press = False, accel_press_early = False,
      fsd_engage_idx = (if engaged_from_start r then Some 0 else None), pending_disengage = None\<rparr>"

definition compute_route_aggregates :: "clip_env \<Rightarrow> route \<Rightarrow> route_aggregates" where
  "compute_route_aggregates env r =
     (let n = length (r_points r)
      in if n = 0 then empty_aggregates
         else if n < 2 then agg_start r
         else let w = foldl (agg_step (ce_geodesic env) r) (agg_init r) [1..<n];
                  a = close_pending r w;
                  a1 = (if ag_speed_sample_count a > 0
                        then a\<lparr>ag_avg_speed_mps := f64_div_count (speed_sum w) (ag_speed_sample_count a)\<rparr> else a)
              in a1\<lparr>ag_sei_speed_abs_max := (if length (r_speeds r) = n then Some (sei_abs_max w) else None),
                    ag_safety := Some (compute_clip_safety env r)\<rparr>)"

subsection \<open>What becomes of a disengagement\<close>

text \<open>
  The reference for the counter: each step away from full self driving is judged by the pairs that count
  after it. Park within two seconds means the car parked itself; two seconds without it, or being engaged
  again, means the driver took over; a later step away before either drops it.
\<close>

datatype verdict = Parked | TakenOver | Dropped | StillOpen

definition steps_away :: "route \<Rightarrow> nat \<Rightarrow> bool" where
  "steps_away r i \<longleftrightarrow> has_ap r \<and> r_autopilot_states r ! (i - 1) = autopilot_fsd \<and> r_autopilot_states r ! i \<noteq> autopilot_fsd"

fun verdict_of :: "route \<Rightarrow> nat \<Rightarrow> nat list \<Rightarrow> verdict" where
  "verdict_of r k [] = StillOpen"
| "verdict_of r k (j # js) =
     (if is_park_at r (fl (fl (of_nat j) * dt_ms r)) \<and> since_ms r k j \<le> 2000 then Parked
      else if since_ms r k j > 2000 \<or> r_autopilot_states r ! j = autopilot_fsd then TakenOver
      else if steps_away r j then Dropped
      else verdict_of r k js)"

fun verdicts :: "route \<Rightarrow> nat list \<Rightarrow> (nat \<times> verdict) list" where
  "verdicts r [] = []"
| "verdicts r (j # js) = (if steps_away r j then (j, verdict_of r j js) # verdicts r js else verdicts r js)"

section \<open>Lemmas\<close>

definition dis :: "agg_walk \<Rightarrow> nat \<times> nat option" where
  "dis w = (ag_fsd_disengagements (aw_agg w), pending_disengage w)"

definition dis_step :: "route \<Rightarrow> nat \<times> nat option \<Rightarrow> nat \<Rightarrow> nat \<times> nat option" where
  "dis_step r x i =
     (let (c, p) = x;
          (c1, p1) = (case p of None \<Rightarrow> (c, None)
            | Some k \<Rightarrow>
                if is_park_at r (fl (fl (of_nat i) * dt_ms r)) \<and> since_ms r k i \<le> 2000 then (c, None)
                else if since_ms r k i > 2000 \<or> r_autopilot_states r ! i = autopilot_fsd then (c + 1, None)
                else (c, Some k))
      in (c1, if steps_away r i then Some i else p1))"

lemma dis_note_speed [simp]: "dis (note_speed v w) = dis w"
  by (simp add: dis_def note_speed_def Let_def)

lemma dis_walk_speed [simp]: "dis (walk_speed geo r i w) = dis w"
proof -
  have [simp]: "dis (w\<lparr>aw_agg := (aw_agg w)\<lparr>ag_distance_m := x\<rparr>, sei_abs_max := y\<rparr>) = dis w" for x y by (simp add: dis_def)
  have [simp]: "dis (w\<lparr>aw_agg := (aw_agg w)\<lparr>ag_distance_m := x\<rparr>\<rparr>) = dis w" for x by (simp add: dis_def)
  show ?thesis by (simp add: walk_speed_def Let_def split: f64.splits)
qed

lemma engaged_time_keeps [simp]: "ag_fsd_disengagements (engaged_time r ap d a) = ag_fsd_disengagements a"
  by (simp add: engaged_time_def Let_def)

lemma dis_note_accel [simp]: "dis (note_accel r ap i w) = dis w"
  by (simp add: dis_def note_accel_def Let_def)

lemma dis_note_engage [simp]: "dis (note_engage p c i w) = dis w"
  by (simp add: dis_def note_engage_def)

lemma dis_autopilot: "has_ap r \<Longrightarrow> dis (walk_autopilot geo r i w) = dis_step r (dis w) i"
proof -
  assume ap: "has_ap r"
  define cur prev where "cur = r_autopilot_states r ! i" and "prev = r_autopilot_states r ! (i - 1)"
  define w1 where "w1 = note_engage prev cur i (w\<lparr>aw_agg := engaged_time r cur (pair_distance geo r i) (aw_agg w)\<rparr>)"
  have w1: "dis w1 = dis w" by (simp add: w1_def) (simp add: dis_def)
  have "dis (walk_autopilot geo r i w) = dis (defer_disengage prev cur i (resolve_pending r cur i w1))"
    by (simp add: walk_autopilot_def Let_def cur_def prev_def w1_def)
  also have "\<dots> = dis_step r (dis w1) i"
    using ap by (auto simp: dis_def dis_step_def defer_disengage_def resolve_pending_def steps_away_def cur_def prev_def Let_def split: option.splits)
  finally show ?thesis by (simp add: w1)
qed

lemma dis_agg_step:
  "dis (agg_step geo r w i) = (if pair_counts geo r i \<and> has_ap r then dis_step r (dis w) i else dis w)"
  by (simp add: agg_step_def Let_def dis_autopilot)

lemma dis_walk:
  "has_ap r \<Longrightarrow> dis (foldl (agg_step geo r) w is) = foldl (dis_step r) (dis w) (filter (pair_counts geo r) is)"
  by (induction "is" arbitrary: w) (simp_all add: dis_agg_step)

lemma dis_walk_no_ap: "\<not> has_ap r \<Longrightarrow> dis (foldl (agg_step geo r) w is) = dis w"
  by (induction "is" arbitrary: w) (simp_all add: dis_agg_step)

definition with_pending :: "route \<Rightarrow> nat option \<Rightarrow> nat list \<Rightarrow> (nat \<times> verdict) list" where
  "with_pending r p js = (case p of None \<Rightarrow> verdicts r js | Some k \<Rightarrow> (k, verdict_of r k js) # verdicts r js)"

definition open_one :: "(nat \<times> verdict) list \<Rightarrow> nat option" where
  "open_one vs = map_option fst (List.find (\<lambda>x. snd x = StillOpen) vs)"

lemma dis_fold:
  "foldl (dis_step r) (c, p) js =
     (c + length (filter (\<lambda>x. snd x = TakenOver) (with_pending r p js)), open_one (with_pending r p js))"
proof (induction js arbitrary: c p)
  case Nil
  then show ?case by (cases p) (simp_all add: with_pending_def open_one_def)
next
  case (Cons j js)
  show ?case
  proof (cases p)
    case None
    then show ?thesis using Cons.IH by (simp add: dis_step_def with_pending_def Let_def)
  next
    case (Some k)
    consider (parked) "is_park_at r (fl (fl (of_nat j) * dt_ms r)) \<and> since_ms r k j \<le> 2000"
      | (taken) "\<not> (is_park_at r (fl (fl (of_nat j) * dt_ms r)) \<and> since_ms r k j \<le> 2000)"
          "since_ms r k j > 2000 \<or> r_autopilot_states r ! j = autopilot_fsd"
      | (stays) "\<not> (is_park_at r (fl (fl (of_nat j) * dt_ms r)) \<and> since_ms r k j \<le> 2000)"
          "\<not> (since_ms r k j > 2000 \<or> r_autopilot_states r ! j = autopilot_fsd)" by blast
    then show ?thesis
    proof cases
      case parked
      then have "dis_step r (c, p) j = (c, if steps_away r j then Some j else None)" "verdict_of r k (j # js) = Parked"
        by (simp_all add: dis_step_def Some)
      then show ?thesis using Cons.IH by (simp add: with_pending_def Some open_one_def del: verdict_of.simps)
    next
      case taken
      then have "dis_step r (c, p) j = (c + 1, if steps_away r j then Some j else None)" "verdict_of r k (j # js) = TakenOver"
        by (simp_all only: dis_step_def Some verdict_of.simps prod.case option.case Let_def if_False if_True)
      then show ?thesis using Cons.IH by (simp add: with_pending_def Some open_one_def del: verdict_of.simps)
    next
      case stays
      then have "dis_step r (c, p) j = (c, if steps_away r j then Some j else Some k)"
        "verdict_of r k (j # js) = (if steps_away r j then Dropped else verdict_of r k js)"
        by (simp_all only: dis_step_def Some verdict_of.simps prod.case option.case Let_def if_False)
      then show ?thesis using Cons.IH by (simp add: with_pending_def Some open_one_def del: verdict_of.simps)
    qed
  qed
qed

lemma no_steps_without_ap: "\<not> has_ap r \<Longrightarrow> verdicts r js = []"
  by (induction js) (simp_all add: steps_away_def)

lemma dis_run:
  "dis (foldl (agg_step geo r) (agg_init r) is) =
     (length (filter (\<lambda>x. snd x = TakenOver) (verdicts r (filter (pair_counts geo r) is))), open_one (verdicts r (filter (pair_counts geo r) is)))"
proof -
  have init: "dis (agg_init r) = (0, None)"
    by (simp add: dis_def agg_init_def agg_boundary_def agg_start_def empty_aggregates_def Let_def)
  show ?thesis
  proof (cases "has_ap r")
    case True
    then show ?thesis by (simp add: dis_walk init dis_fold with_pending_def)
  next
    case False
    then show ?thesis by (simp add: dis_walk_no_ap init no_steps_without_ap open_one_def)
  qed
qed

lemma pend_step: "ag_fsd_pend_ms_end (aw_agg (agg_step geo r w i)) = ag_fsd_pend_ms_end (aw_agg w)"
proof -
  have 1: "ag_fsd_pend_ms_end (aw_agg (walk_speed geo r i w)) = ag_fsd_pend_ms_end (aw_agg w)" for w
    by (simp add: walk_speed_def note_speed_def Let_def split: f64.splits)
  have 2: "ag_fsd_pend_ms_end (engaged_time r c d a) = ag_fsd_pend_ms_end a" for c d a by (simp add: engaged_time_def Let_def)
  have 3: "ag_fsd_pend_ms_end (aw_agg (note_accel r c i w)) = ag_fsd_pend_ms_end (aw_agg w)"
    "ag_fsd_pend_ms_end (aw_agg (defer_disengage p c i w)) = ag_fsd_pend_ms_end (aw_agg w)"
    "ag_fsd_pend_ms_end (aw_agg (resolve_pending r c i w)) = ag_fsd_pend_ms_end (aw_agg w)"
    "ag_fsd_pend_ms_end (aw_agg (note_engage p c i w)) = ag_fsd_pend_ms_end (aw_agg w)" for p c w
    by (simp_all add: note_accel_def defer_disengage_def resolve_pending_def note_engage_def Let_def split: option.splits)
  show ?thesis by (simp add: agg_step_def walk_autopilot_def Let_def 1 2 3)
qed

lemma pend_none: "ag_fsd_pend_ms_end (aw_agg (foldl (agg_step geo r) (agg_init r) is)) = None"
proof -
  have "ag_fsd_pend_ms_end (aw_agg (foldl (agg_step geo r) w is)) = ag_fsd_pend_ms_end (aw_agg w)" for w
    by (induction "is" arbitrary: w) (simp_all add: pend_step)
  then show ?thesis by (simp add: agg_init_def agg_boundary_def agg_start_def empty_aggregates_def Let_def)
qed

subsection \<open>Time under assistance\<close>

definition engaged_total :: "route_aggregates \<Rightarrow> int" where
  "engaged_total a = ag_fsd_engaged_ms a + ag_autosteer_engaged_ms a + ag_tacc_engaged_ms a"

definition sample_ms :: "route \<Rightarrow> int" where
  "sample_ms r = f64_as_i64 (dt_ms r)"

lemma engaged_walk_speed [simp]: "engaged_total (aw_agg (walk_speed geo r i w)) = engaged_total (aw_agg w)"
  by (simp add: walk_speed_def note_speed_def engaged_total_def Let_def split: f64.splits)

lemma engaged_after [simp]:
  "engaged_total (aw_agg (note_accel r c i w)) = engaged_total (aw_agg w)" "engaged_total (aw_agg (defer_disengage p c i w)) = engaged_total (aw_agg w)"
  "engaged_total (aw_agg (resolve_pending r c i w)) = engaged_total (aw_agg w)" "engaged_total (aw_agg (note_engage p c i w)) = engaged_total (aw_agg w)"
  by (simp_all add: note_accel_def defer_disengage_def resolve_pending_def note_engage_def engaged_total_def Let_def split: option.splits)

lemma engaged_time_total:
  "0 \<le> sample_ms r \<Longrightarrow> engaged_total a \<le> engaged_total (engaged_time r c d a) \<and> engaged_total (engaged_time r c d a) \<le> engaged_total a + sample_ms r"
  by (simp add: engaged_time_def engaged_total_def sample_ms_def Let_def)

lemma engaged_step:
  "0 \<le> sample_ms r \<Longrightarrow> engaged_total (aw_agg w) \<le> engaged_total (aw_agg (agg_step geo r w i)) \<and>
     engaged_total (aw_agg (agg_step geo r w i)) \<le> engaged_total (aw_agg w) + sample_ms r"
  using engaged_time_total [of r "aw_agg (walk_speed geo r i w)" "r_autopilot_states r ! i" "pair_distance geo r i"]
  by (simp add: agg_step_def walk_autopilot_def Let_def)

lemma engaged_walk:
  assumes "0 \<le> sample_ms r"
  shows "engaged_total (aw_agg w) \<le> engaged_total (aw_agg (foldl (agg_step geo r) w is)) \<and>
    engaged_total (aw_agg (foldl (agg_step geo r) w is)) \<le> engaged_total (aw_agg w) + int (length is) * sample_ms r"
proof (induction "is" arbitrary: w)
  case (Cons i rest)
  have "int (length (i # rest)) * sample_ms r = sample_ms r + int (length rest) * sample_ms r" by (simp add: algebra_simps)
  then show ?case using engaged_step [OF assms, of w geo i] Cons.IH [of "agg_step geo r w i"] unfolding foldl.simps by linarith
qed simp

text \<open>The truncated interval never adds up to more than a minute, although the quotient is rounded.\<close>

lemma sample_ms_total:
  assumes "2 \<le> n" "n = length (r_points r)" "n < 2 ^ 53"
  shows "0 \<le> sample_ms r \<and> int (n - 1) * sample_ms r \<le> 60000"
proof -
  define k :: rat where "k = of_nat (n - 1)"
  have k: "1 \<le> k" using assms(1) by (simp add: k_def)
  have "fl (of_nat n) = (of_nat n :: rat)" using fl_of_int [of "int n"] assms(3) by simp
  moreover have "fl (of_nat n - 1) = k" using fl_of_int [of "int (n - 1)"] assms(1,3) by (simp add: k_def of_nat_diff)
  ultimately have dt: "dt_ms r = fl (60000 / k)" using assms(2) by (simp add: dt_ms_def)
  define x where "x = fl (60000 / k)"
  have x0: "0 \<le> x" using k by (simp add: x_def)
  have up: "x * k \<le> 60000 + 60000 / 2 ^ 53"
  proof -
    have "x \<le> 60000 / k + (60000 / k) / 2 ^ 53" unfolding x_def using k by (intro fl_upper) simp
    then have "x * k \<le> (60000 / k + (60000 / k) / 2 ^ 53) * k" using k by (intro mult_right_mono) auto
    also have "\<dots> = 60000 + 60000 / 2 ^ 53" using k by (simp add: field_simps)
    finally show ?thesis .
  qed
  have s: "0 \<le> sample_ms r" "of_int (sample_ms r) \<le> x"
    using x0 by (auto simp: sample_ms_def dt x_def [symmetric] f64_as_i64_def min_def max_def split: if_splits)
  have "of_int (sample_ms r) * k \<le> x * k" using s(2) k by (intro mult_right_mono) auto
  then have "(of_int (int (n - 1) * sample_ms r) :: rat) < of_int 60001" using up by (simp add: k_def mult.commute)
  then have "int (n - 1) * sample_ms r < 60001" unfolding of_int_less_iff .
  then show ?thesis using s(1) by simp
qed

lemma aggregates_run:
  assumes "2 \<le> length (r_points r)" "w = foldl (agg_step (ce_geodesic env) r) (agg_init r) [1..<length (r_points r)]"
  shows "ag_fsd_disengagements (compute_route_aggregates env r) = ag_fsd_disengagements (close_pending r w)"
    "ag_fsd_pend_ms_end (compute_route_aggregates env r) = ag_fsd_pend_ms_end (close_pending r w)"
    "engaged_total (compute_route_aggregates env r) = engaged_total (aw_agg w)"
proof -
  have n: "(length (r_points r) = 0) = False" "(length (r_points r) < 2) = False" using assms(1) by auto
  note unfold = compute_route_aggregates_def Let_def n if_False assms(2) [symmetric]
  show "ag_fsd_disengagements (compute_route_aggregates env r) = ag_fsd_disengagements (close_pending r w)" unfolding unfold by simp
  show "ag_fsd_pend_ms_end (compute_route_aggregates env r) = ag_fsd_pend_ms_end (close_pending r w)" unfolding unfold by simp
  show "engaged_total (compute_route_aggregates env r) = engaged_total (aw_agg w)"
    unfolding unfold engaged_total_def close_pending_def by (simp split: option.splits)
qed

subsection \<open>A concrete clip\<close>

definition demo_clip_env :: clip_env where
  "demo_clip_env = \<lparr>ce_geodesic = \<lambda>_ _ _ _. Finite 0, ce_curvature = \<lambda>_ _ _. Finite 0, ce_parse_stamp = \<lambda>_. None\<rparr>"

definition demo_disengaged :: route where
  "demo_disengaged = empty_route\<lparr>r_points := replicate 3 (Finite 40, Finite 40), r_autopilot_states := [autopilot_fsd, 0, 0]\<rparr>"

section \<open>Properties\<close>



text \<open>
  The time under the three kinds of assistance is not negative and together never exceeds the minute
  of the clip.
\<close>

theorem engaged_within_clip:
  assumes "length (r_points r) < 2 ^ 53" "a = compute_route_aggregates env r"
  shows "0 \<le> ag_fsd_engaged_ms a + ag_autosteer_engaged_ms a + ag_tacc_engaged_ms a \<and>
    ag_fsd_engaged_ms a + ag_autosteer_engaged_ms a + ag_tacc_engaged_ms a \<le> 60000"
proof (cases "2 \<le> length (r_points r)")
  case True
  define w where "w = foldl (agg_step (ce_geodesic env) r) (agg_init r) [1..<length (r_points r)]"
  have b: "0 \<le> sample_ms r" "int (length (r_points r) - 1) * sample_ms r \<le> 60000"
    using sample_ms_total [OF True refl assms(1)] by auto
  have i: "engaged_total (aw_agg (agg_init r)) = 0"
    by (simp add: engaged_total_def agg_init_def agg_boundary_def agg_start_def empty_aggregates_def Let_def)
  have "0 \<le> engaged_total (aw_agg w) \<and> engaged_total (aw_agg w) \<le> 60000"
    using engaged_walk [OF b(1), of "agg_init r" "ce_geodesic env" "[1..<length (r_points r)]"] b(2) i by (simp add: w_def)
  moreover have "engaged_total a = engaged_total (aw_agg w)" unfolding assms(2) by (rule aggregates_run(3) [OF True w_def])
  ultimately show ?thesis by (simp add: engaged_total_def)
next
  case False
  then show ?thesis by (simp add: assms(2) compute_route_aggregates_def agg_start_def empty_aggregates_def Let_def)
qed

theorem engaged_within_clip_witness:
  "ag_fsd_engaged_ms (compute_route_aggregates demo_clip_env demo_disengaged) +
   ag_autosteer_engaged_ms (compute_route_aggregates demo_clip_env demo_disengaged) +
   ag_tacc_engaged_ms (compute_route_aggregates demo_clip_env demo_disengaged) \<le> 60000"
  using engaged_within_clip [OF _ refl, of demo_disengaged demo_clip_env] by (simp add: demo_disengaged_def)

end
