(* ===== verification/SyncGuard.thy ===== *)
theory SyncGuard
  imports Float64
begin

section \<open>The archive sync size guard\<close>

text \<open>
  \<^verbatim>\<open>crates/drives/src/syncguard.rs\<close>: the size of the last good sync is kept in a small file, and a sync
  that would shrink the archive's copy below half of it is refused. The directory is a map from the
  cache file and its temporary file to their contents; a content that is no text is \<open>NotText\<close>.
\<close>

datatype cache_name = CacheFile | CacheTmp
datatype cache_content = NotText | CacheText ustr
type_synonym cache_dir = "cache_name \<Rightarrow> cache_content option"

datatype sync_error =
    SyncGuardError int int
  | NegativeSize int
  | CacheCreateFailed
  | CacheWriteFailed
  | CacheRenameFailed

definition min_threshold_bytes :: int where "min_threshold_bytes = 10 * 1024 * 1024"
definition ratio :: rat where "ratio = 1 / 2"
definition cache_format_prefix :: ustr where "cache_format_prefix = lit ''v2:''"

definition check_sync_size_guard :: "int \<Rightarrow> int \<Rightarrow> sync_error + unit" where
  "check_sync_size_guard new_size last_size =
     (if last_size \<le> 0 then Inr ()
      else if last_size < min_threshold_bytes then Inr ()
      else let min_allowed = f64_as_i64 (fl (fl (of_int last_size) * ratio))
           in if new_size \<ge> min_allowed then Inr () else Inl (SyncGuardError new_size last_size))"

definition read_sync_cache :: "cache_dir \<Rightarrow> int" where
  "read_sync_cache fs =
     (case fs CacheFile of
        Some (CacheText data) \<Rightarrow>
          (case strip_prefix cache_format_prefix (trim data) of
             None \<Rightarrow> 0
           | Some raw \<Rightarrow> (case parse_i64 raw of None \<Rightarrow> 0 | Some n \<Rightarrow> if n < 0 then 0 else n))
      | _ \<Rightarrow> 0)"

definition replace_cache ::
  "cache_content write_fault \<Rightarrow> cache_content \<Rightarrow> cache_dir \<Rightarrow> cache_dir \<times> (sync_error + unit)" where
  "replace_cache fault content fs =
     (case fault of
        CreateFault \<Rightarrow> (fs, Inl CacheCreateFailed)
      | WriteFault partial \<Rightarrow> (fs(CacheTmp \<mapsto> partial), Inl CacheWriteFailed)
      | RenameFault \<Rightarrow> (fs(CacheTmp := None), Inl CacheRenameFailed)
      | NoFault \<Rightarrow> (fs(CacheTmp := None, CacheFile \<mapsto> content), Inr ()))"

definition write_sync_cache :: "cache_content write_fault \<Rightarrow> int \<Rightarrow> cache_dir \<Rightarrow> cache_dir \<times> (sync_error + unit)" where
  "write_sync_cache fault bytes fs =
     (if bytes < 0 then (fs, Inl (NegativeSize bytes))
      else replace_cache fault (CacheText (cache_format_prefix @ show_int bytes)) fs)"

section \<open>Lemmas\<close>

interpretation cache_file: atomic_writer replace_cache CacheFile
  by unfold_locales (auto simp: replace_cache_def split: write_fault.splits)

lemma trim_cache_text: "0 \<le> n \<Longrightarrow> trim (cache_format_prefix @ show_int n) = cache_format_prefix @ show_int n"
proof -
  assume n: "0 \<le> n"
  have d: "is_digit (last (show_nat (nat n)))" by (rule show_nat_digits, rule last_in_set) (rule show_nat_nonempty)
  then have "\<not> is_white (last (show_nat (nat n)))" by (auto simp: is_digit_def is_white_def)
  moreover have "show_nat (nat n) = butlast (show_nat (nat n)) @ [last (show_nat (nat n))]"
    by (rule append_butlast_last_id [symmetric]) (rule show_nat_nonempty)
  ultimately have "trim (118 # ([50, 58] @ butlast (show_nat (nat n))) @ [last (show_nat (nat n))]) =
      118 # ([50, 58] @ butlast (show_nat (nat n))) @ [last (show_nat (nat n))]"
    by (intro trim_black_ends) (simp_all add: is_white_def)
  then show ?thesis using n \<open>show_nat (nat n) = _\<close> by (simp add: cache_format_prefix_def show_int_def)
qed

lemma read_written_cache:
  assumes "write_sync_cache fault n fs = (fs', Inr ())" and "n < 2 ^ 63"
  shows "0 \<le> n \<and> read_sync_cache fs' = n"
proof -
  have n: "0 \<le> n" "replace_cache fault (CacheText (cache_format_prefix @ show_int n)) fs = (fs', Inr ())"
    using assms(1) by (auto simp: write_sync_cache_def split: if_splits)
  have "fs' CacheFile = Some (CacheText (cache_format_prefix @ show_int n))" by (rule cache_file.write_ok [OF n(2)])
  then show ?thesis using n(1) assms(2) by (simp add: read_sync_cache_def trim_cache_text parse_i64_show_int)
qed

lemma min_allowed:
  assumes "0 < n" and "n < 2 ^ 53"
  shows "f64_as_i64 (fl (fl (of_int n) * ratio)) = n div 2"
proof -
  have h: "fl (fl (of_int n) * ratio) = of_int n / 2"
    using fl_half [of "of_int n"] fl_of_int [of n] assms by (simp add: ratio_def)
  have "\<lfloor>of_int n / (2 :: rat)\<rfloor> = n div 2" using floor_divide_of_int_eq [where 'a = rat, of n 2] by simp
  then show ?thesis using assms unfolding h f64_as_i64_def by simp
qed

section \<open>Properties\<close>

text \<open>
  The size guard is exact and durable: after a size below two to the 53 bytes is recorded, a sync is
  refused if and only if that size was ten mebibytes or more and the new file is smaller than half of
  it; recording that fails leaves the old baseline; and without a readable baseline of the current
  format every sync is allowed.
\<close>

theorem sync_guard_exact:
  assumes "write_sync_cache fault n fs = (fs', res)" and "n < 2 ^ 53"
  shows "(case res of
      Inr _ \<Rightarrow> check_sync_size_guard new_size (read_sync_cache fs') =
        (if 10485760 \<le> n \<and> new_size < n div 2 then Inl (SyncGuardError new_size n) else Inr ())
    | Inl _ \<Rightarrow> read_sync_cache fs' = read_sync_cache fs) \<and>
    (read_sync_cache fs = 0 \<or> (\<exists>data. fs CacheFile = Some (CacheText data) \<and>
       (\<exists>raw. trim data = cache_format_prefix @ raw \<and> parse_i64 raw = Some (read_sync_cache fs)))) \<and>
    check_sync_size_guard new_size 0 = Inr ()"
proof (intro conjI)
  show "case res of
      Inr _ \<Rightarrow> check_sync_size_guard new_size (read_sync_cache fs') =
        (if 10485760 \<le> n \<and> new_size < n div 2 then Inl (SyncGuardError new_size n) else Inr ())
    | Inl _ \<Rightarrow> read_sync_cache fs' = read_sync_cache fs"
  proof (cases res)
    case (Inl e)
    have "fs' CacheFile = fs CacheFile"
      using assms(1) Inl cache_file.write_err by (cases "n < 0") (auto simp: write_sync_cache_def)
    with Inl show ?thesis by (simp add: read_sync_cache_def)
  next
    case (Inr u)
    then have r: "0 \<le> n" "read_sync_cache fs' = n" using read_written_cache [of fault n fs fs'] assms by simp_all
    then show ?thesis
      using min_allowed [of n] assms(2) Inr by (cases "n = 0") (simp_all add: check_sync_size_guard_def min_threshold_bytes_def)
  qed
  show "read_sync_cache fs = 0 \<or> (\<exists>data. fs CacheFile = Some (CacheText data) \<and>
       (\<exists>raw. trim data = cache_format_prefix @ raw \<and> parse_i64 raw = Some (read_sync_cache fs)))"
    by (auto simp: read_sync_cache_def strip_prefix_Some split: option.split cache_content.split)
  show "check_sync_size_guard new_size 0 = Inr ()" by (simp add: check_sync_size_guard_def)
qed

theorem sync_guard_exact_witness:
  "check_sync_size_guard 5000000 (read_sync_cache (fst (write_sync_cache NoFault 20000000 Map.empty))) =
     Inl (SyncGuardError 5000000 20000000)"
  using sync_guard_exact [of NoFault 20000000 Map.empty "fst (write_sync_cache NoFault 20000000 Map.empty)" "Inr ()" 5000000]
  by (simp add: write_sync_cache_def replace_cache_def)

end
