(* ===== verification/UpdateInstall.thy ===== *)
theory UpdateInstall
  imports Prelude "HOL-Library.FSet"
begin

section \<open>Automatic updates\<close>

text \<open>
  \<^verbatim>\<open>crates/api/src/update_attempt.rs\<close> (the crash-durable receipt of an update), the parts of
  \<^verbatim>\<open>auto_update.rs\<close> and of \<^verbatim>\<open>crates/sentryusb/src/migrate.rs\<close> that decide at startup what became of
  it, and \<^verbatim>\<open>replace_files\<close> of \<^verbatim>\<open>auto_update_install.rs\<close>, which replaces the installed files. The JSON
  text of a receipt has the type \<open>'d\<close> and its coding is a parameter: \<open>encode\<close> and \<open>decode\<close> for attempts, and \<open>proof_of\<close> for the two
  members of a shutdown receipt (\<open>None\<close> in place of a member that is no text).
\<close>

subsection \<open>Receipts\<close>

record attempt =
  schema :: nat
  att_id :: ustr
  boot_id :: ustr
  cycle_id :: ustr
  version_from :: ustr
  target :: ustr
  phase :: ustr
  binary_sha256 :: ustr
  detail :: ustr
  delivered :: "ustr fset"
  history_recorded :: bool
  verifying_boot_id :: ustr
  att_timestamp :: int

datatype 'd stored = Absent | Unreadable | Contents 'd

datatype update_error =
    ReceiptIo
  | Malformed
  | InvalidAttemptId
  | UnsupportedSchema
  | UnknownPhase
  | NoAttempt
  | NoExpectedReboot
  | InvalidShutdownReceipt
  | ExecutableMismatch
  | BootIdUnavailable

text \<open>Saving fails before the rename, or after it when the directory cannot be flushed.\<close>

datatype save_fault = SaveOk | BeforeRename | AfterRename

definition new_attempt :: "int \<Rightarrow> int \<Rightarrow> nat \<Rightarrow> ustr \<Rightarrow> ustr \<Rightarrow> ustr \<Rightarrow> ustr \<Rightarrow> attempt" where
  "new_attempt now_ms now_s pid boot cyc source to_version =
     \<lparr>schema = 1, att_id = lit ''auto-update-'' @ show_int now_ms @ lit ''-'' @ show_nat pid,
      boot_id = boot, cycle_id = cyc, version_from = source, target = to_version,
      phase = lit ''preparing'', binary_sha256 = [], detail = [], delivered = {||},
      history_recorded = False, verifying_boot_id = [], att_timestamp = now_s\<rparr>"

definition terminal :: "attempt \<Rightarrow> bool" where
  "terminal a \<longleftrightarrow> phase a \<in> {lit ''verified'', lit ''failed'', lit ''interrupted''}"

definition boot_outcome :: "attempt \<Rightarrow> ustr \<Rightarrow> bool \<Rightarrow> bool \<Rightarrow> ustr" where
  "boot_outcome a boot binary_matches migration_ok =
     (if phase a \<noteq> lit ''verifying'' \<or> verifying_boot_id a \<noteq> boot \<or> boot_id a = boot \<or> \<not> binary_matches
      then lit ''interrupted''
      else if \<not> migration_ok then lit ''failed'' else lit ''verified'')"

definition outcome_text :: "attempt \<Rightarrow> ustr" where
  "outcome_text a =
     (if phase a = lit ''verified'' then lit ''Updated to '' @ target a @ lit '' successfully.''
      else if phase a = lit ''interrupted''
      then lit ''Update was interrupted. Check Notifications for details.''
      else if target a = [] then lit ''Automatic update check failed. Check Notifications for details.''
      else lit ''Update to '' @ target a @ lit '' failed. Check Notifications for details.'')"

definition valid_attempt_id :: "ustr \<Rightarrow> bool" where
  "valid_attempt_id i \<longleftrightarrow>
     strip_prefix (lit ''auto-update-'') i \<noteq> None \<and> utf8_len i < 128 \<and> list_all (\<lambda>c. is_alnum c \<or> c = 45) i"

definition phases :: "ustr list" where
  "phases = map lit [''preparing'', ''installing'', ''awaiting_reboot'', ''verifying'', ''verified'', ''failed'', ''interrupted'']"

definition load :: "('d \<Rightarrow> attempt option) \<Rightarrow> 'd stored \<Rightarrow> update_error + attempt option" where
  "load decode f =
     (case f of
        Absent \<Rightarrow> Inr None
      | Unreadable \<Rightarrow> Inl ReceiptIo
      | Contents data \<Rightarrow>
          (case decode data of
             None \<Rightarrow> Inl Malformed
           | Some a \<Rightarrow>
               if \<not> valid_attempt_id (att_id a) then Inl InvalidAttemptId
               else if schema a \<noteq> 1 then Inl UnsupportedSchema
               else if phase a \<notin> set phases then Inl UnknownPhase
               else Inr (Some a)))"

definition save ::
  "('d \<Rightarrow> attempt option) \<Rightarrow> (attempt \<Rightarrow> 'd) \<Rightarrow> save_fault \<Rightarrow> attempt \<Rightarrow> 'd stored \<Rightarrow> 'd stored \<times> (update_error + unit)" where
  "save decode encode fault a f =
     (case load decode f of
        Inl e \<Rightarrow> (f, Inl e)
      | Inr _ \<Rightarrow>
          (case fault of
             BeforeRename \<Rightarrow> (f, Inl ReceiptIo)
           | AfterRename \<Rightarrow> (Contents (encode a), Inl ReceiptIo)
           | SaveOk \<Rightarrow> (Contents (encode a), Inr ())))"

text \<open>The manual repair keeps the bytes of a receipt under a new name and removes it after success.\<close>

definition preserve_before_manual_repair :: "bool \<Rightarrow> 'd stored \<Rightarrow> update_error + 'd stored option" where
  "preserve_before_manual_repair write_ok f =
     (case f of
        Absent \<Rightarrow> Inr None
      | Unreadable \<Rightarrow> Inl ReceiptIo
      | Contents d \<Rightarrow> if write_ok then Inr (Some (Contents d)) else Inl ReceiptIo)"

datatype remove_fault = RemoveOk | RemoveFailed | RemoveSyncFailed

definition clear_after_manual_repair :: "remove_fault \<Rightarrow> 'd stored \<Rightarrow> 'd stored \<times> (update_error + unit)" where
  "clear_after_manual_repair fault f =
     (if f = Absent then (f, Inr ())
      else case fault of
          RemoveFailed \<Rightarrow> (f, Inl ReceiptIo)
        | RemoveSyncFailed \<Rightarrow> (Absent, Inl ReceiptIo)
        | RemoveOk \<Rightarrow> (Absent, Inr ()))"

subsection \<open>Startup\<close>

text \<open>The directory of receipts: the current one, the shutdown receipts and the outcomes, by attempt.\<close>

record 'd receipts =
  current :: "'d stored"
  shutdown :: "ustr \<Rightarrow> 'd stored"
  outcomes :: "ustr \<Rightarrow> 'd stored"

definition begin_verification ::
  "('d \<Rightarrow> attempt option) \<Rightarrow> (attempt \<Rightarrow> 'd) \<Rightarrow> ('d \<Rightarrow> (ustr option \<times> ustr option) option) \<Rightarrow>
   save_fault \<Rightarrow> ustr \<Rightarrow> 'd receipts \<Rightarrow> 'd receipts \<times> (update_error + attempt)" where
  "begin_verification decode encode proof_of fault boot fs =
     (case load decode (current fs) of
        Inl e \<Rightarrow> (fs, Inl e)
      | Inr None \<Rightarrow> (fs, Inl NoAttempt)
      | Inr (Some a) \<Rightarrow>
          if \<not> (phase a = lit ''awaiting_reboot'' \<and> boot_id a \<noteq> boot) then (fs, Inl NoExpectedReboot)
          else (case shutdown fs (att_id a) of
              Contents d \<Rightarrow>
                (case proof_of d of
                   None \<Rightarrow> (fs, Inl Malformed)
                 | Some (i, b) \<Rightarrow>
                     if \<not> (i = Some (att_id a) \<and> b = Some (boot_id a)) then (fs, Inl InvalidShutdownReceipt)
                     else let a' = a\<lparr>phase := lit ''verifying'', verifying_boot_id := boot\<rparr>;
                              (f, res) = save decode encode fault a' (current fs)
                          in (fs\<lparr>current := f\<rparr>, map_sum id (\<lambda>_. a') res))
            | _ \<Rightarrow> (fs, Inl ReceiptIo)))"

text \<open>\<open>exe\<close> is the digest of the running executable and \<open>boot\<close> the id of this boot, when they can be read.\<close>

definition prepare_startup_verification ::
  "('d \<Rightarrow> attempt option) \<Rightarrow> (attempt \<Rightarrow> 'd) \<Rightarrow> ('d \<Rightarrow> (ustr option \<times> ustr option) option) \<Rightarrow>
   save_fault \<Rightarrow> ustr option \<Rightarrow> ustr option \<Rightarrow> 'd receipts \<Rightarrow> 'd receipts \<times> (update_error + attempt)" where
  "prepare_startup_verification decode encode proof_of fault exe boot fs =
     (case load decode (current fs) of
        Inl e \<Rightarrow> (fs, Inl e)
      | Inr None \<Rightarrow> (fs, Inl NoAttempt)
      | Inr (Some a) \<Rightarrow>
          if binary_sha256 a = [] then (fs, Inl ExecutableMismatch)
          else (case exe of
              None \<Rightarrow> (fs, Inl ReceiptIo)
            | Some h \<Rightarrow>
                if h \<noteq> binary_sha256 a then (fs, Inl ExecutableMismatch)
                else (case boot of
                    None \<Rightarrow> (fs, Inl BootIdUnavailable)
                  | Some b \<Rightarrow> begin_verification decode encode proof_of fault b fs)))"

text \<open>
  The decision that precedes the startup migration: \<open>None\<close> when it is not run, else whether it is that of
  an automatic update.
\<close>

definition startup_gate ::
  "('d \<Rightarrow> attempt option) \<Rightarrow> (attempt \<Rightarrow> 'd) \<Rightarrow> ('d \<Rightarrow> (ustr option \<times> ustr option) option) \<Rightarrow>
   save_fault \<Rightarrow> ustr option \<Rightarrow> ustr option \<Rightarrow> ustr option \<Rightarrow> 'd receipts \<Rightarrow> 'd receipts \<times> bool option" where
  "startup_gate decode encode proof_of fault exe boot version_file fs =
     (case version_file of
        None \<Rightarrow> (fs, None)
      | Some v \<Rightarrow>
          let current_version = trim v
          in if current_version = [] \<or> current_version = lit ''dev'' then (fs, None)
             else (case load decode (current fs) of
                 Inl _ \<Rightarrow> (fs, None)
               | Inr None \<Rightarrow> (fs, Some False)
               | Inr (Some a) \<Rightarrow>
                   if \<not> terminal a
                   then if phase a \<noteq> lit ''awaiting_reboot'' \<or> target a \<noteq> current_version then (fs, None)
                        else (case prepare_startup_verification decode encode proof_of fault exe boot fs of
                            (fs', Inl _) \<Rightarrow> (fs', None)
                          | (fs', Inr _) \<Rightarrow> (fs', Some True))
                   else if phase a \<noteq> lit ''verified'' \<and> target a = current_version then (fs, None)
                   else (fs, Some False)))"

text \<open>\<open>marked\<close>: the migration of this version has run before; \<open>migrate\<close>: the outcome of running it.\<close>

definition run_startup_migration :: "bool \<Rightarrow> (bool \<Rightarrow> bool) \<Rightarrow> bool option \<Rightarrow> bool" where
  "run_startup_migration marked migrate gate =
     (case gate of
        None \<Rightarrow> False
      | Some automatic \<Rightarrow> if \<not> automatic \<and> marked then True else migrate automatic)"

definition queue_outcome ::
  "('d \<Rightarrow> attempt option) \<Rightarrow> (attempt \<Rightarrow> 'd) \<Rightarrow> save_fault \<Rightarrow> attempt \<Rightarrow> 'd receipts \<Rightarrow> 'd receipts \<times> (update_error + unit)" where
  "queue_outcome decode encode fault a fs =
     (case load decode (outcomes fs (att_id a)) of
        Inl e \<Rightarrow> (fs, Inl e)
      | Inr (Some _) \<Rightarrow> (fs, Inr ())
      | Inr None \<Rightarrow>
          let (f, res) = save decode encode fault a (outcomes fs (att_id a))
          in (fs\<lparr>outcomes := (outcomes fs)(att_id a := f)\<rparr>, res))"

definition recover_after_startup ::
  "('d \<Rightarrow> attempt option) \<Rightarrow> (attempt \<Rightarrow> 'd) \<Rightarrow> save_fault \<Rightarrow> save_fault \<Rightarrow> ustr option \<Rightarrow> ustr option \<Rightarrow> bool \<Rightarrow>
   'd receipts \<Rightarrow> 'd receipts \<times> (update_error + unit)" where
  "recover_after_startup decode encode fault fault' exe boot migration_ok fs =
     (case load decode (current fs) of
        Inl e \<Rightarrow> (fs, Inl e)
      | Inr None \<Rightarrow> (fs, Inr ())
      | Inr (Some a) \<Rightarrow>
          if terminal a then queue_outcome decode encode fault' a fs
          else (case boot of
              None \<Rightarrow> (fs, Inl BootIdUnavailable)
            | Some b \<Rightarrow>
                let matches = (binary_sha256 a \<noteq> [] \<and> exe = Some (binary_sha256 a));
                    ph = boot_outcome a b matches migration_ok;
                    a' = a\<lparr>phase := ph,
                           detail := lit ''Update from '' @ version_from a @ lit '' to '' @ target a @
                             lit ''; startup outcome: '' @ ph\<rparr>;
                    (f, res) = save decode encode fault a' (current fs)
                in (case res of
                      Inl e \<Rightarrow> (fs\<lparr>current := f\<rparr>, Inl e)
                    | Inr _ \<Rightarrow> queue_outcome decode encode fault' a' (fs\<lparr>current := f\<rparr>))))"

text \<open>One boot of the program, as \<^verbatim>\<open>main\<close> runs it, with the boot's environment.\<close>

record boot_env =
  this_boot :: "ustr option"
  running_exe :: "ustr option"
  version_file :: "ustr option"
  migrated_before :: bool
  migration :: "bool \<Rightarrow> bool"
  prepare_fault :: save_fault
  recover_fault :: save_fault
  outcome_fault :: save_fault

definition startup ::
  "('d \<Rightarrow> attempt option) \<Rightarrow> (attempt \<Rightarrow> 'd) \<Rightarrow> ('d \<Rightarrow> (ustr option \<times> ustr option) option) \<Rightarrow>
   boot_env \<Rightarrow> 'd receipts \<Rightarrow> 'd receipts" where
  "startup decode encode proof_of env fs =
     (let (fs1, gate) = startup_gate decode encode proof_of (prepare_fault env) (running_exe env) (this_boot env)
                          (version_file env) fs;
          migration_ok = run_startup_migration (migrated_before env) (migration env) gate
      in fst (recover_after_startup decode encode (recover_fault env) (outcome_fault env) (running_exe env)
                (this_boot env) migration_ok fs1))"

subsection \<open>The next attempt\<close>

definition comparison_version :: "ustr \<Rightarrow> attempt option \<Rightarrow> ustr" where
  "comparison_version recorded previous =
     (case previous of
        Some a \<Rightarrow> if phase a \<noteq> lit ''verified'' \<and> target a = recorded then version_from a else recorded
      | None \<Rightarrow> recorded)"

text \<open>One update per archive cycle: the marker files, and whether the file can be created.\<close>

definition valid_cycle_id :: "ustr \<Rightarrow> bool" where
  "valid_cycle_id i \<longleftrightarrow> utf8_len i \<le> 128 \<and> i \<noteq> [] \<and> list_all (\<lambda>c. is_alnum c \<or> c = 58 \<or> c = 45) i"

datatype claim_error = InvalidCycleId | ClaimIo

definition claim_cycle :: "bool \<Rightarrow> ustr \<Rightarrow> ustr set \<Rightarrow> ustr set \<times> (claim_error + bool)" where
  "claim_cycle io_ok i claimed =
     (if \<not> valid_cycle_id i then (claimed, Inl InvalidCycleId)
      else if i \<in> claimed then (claimed, Inr False)
      else if io_ok then (insert i claimed, Inr True) else (claimed, Inl ClaimIo))"

text \<open>A concrete installation and its reboot.\<close>

type_synonym demo_text = "attempt + ustr \<times> ustr"

definition demo_decode :: "demo_text \<Rightarrow> attempt option" where
  "demo_decode d = (case d of Inl a \<Rightarrow> Some a | Inr _ \<Rightarrow> None)"

definition demo_proof :: "demo_text \<Rightarrow> (ustr option \<times> ustr option) option" where
  "demo_proof d = (case d of Inl _ \<Rightarrow> None | Inr (i, b) \<Rightarrow> Some (Some i, Some b))"

definition demo_attempt :: attempt where
  "demo_attempt = (new_attempt 5000 5 7 (lit ''b1'') (lit ''c1'') (lit ''v1'') (lit ''v2''))
     \<lparr>phase := lit ''awaiting_reboot'', binary_sha256 := lit ''ab''\<rparr>"

definition demo_receipts :: "demo_text receipts" where
  "demo_receipts = \<lparr>current = Contents (Inl demo_attempt),
     shutdown = (\<lambda>_. Absent)(att_id demo_attempt := Contents (Inr (att_id demo_attempt, lit ''b1''))),
     outcomes = (\<lambda>_. Absent)\<rparr>"

definition demo_boot :: boot_env where
  "demo_boot = \<lparr>this_boot = Some (lit ''b2''), running_exe = Some (lit ''ab''), version_file = Some (lit ''v2''),
     migrated_before = False, migration = (\<lambda>_. True), prepare_fault = SaveOk, recover_fault = SaveOk,
     outcome_fault = SaveOk\<rparr>"

section \<open>Lemmas\<close>

subsection \<open>Receipts\<close>

definition receipt_ok :: "attempt \<Rightarrow> bool" where
  "receipt_ok a \<longleftrightarrow> valid_attempt_id (att_id a) \<and> schema a = 1 \<and> phase a \<in> set phases"

lemma load_Some: "load decode f = Inr (Some a) \<longleftrightarrow> (\<exists>d. f = Contents d \<and> decode d = Some a \<and> receipt_ok a)"
  by (auto simp: load_def receipt_ok_def split: stored.splits option.splits)

lemma phase_in_phases [simp]:
  "lit ''verifying'' \<in> set phases" "lit ''awaiting_reboot'' \<in> set phases" "boot_outcome a b m k \<in> set phases"
  by (simp_all add: phases_def boot_outcome_def)

lemma save_current: "save decode encode fault a f = (f', res) \<Longrightarrow> f' = f \<or> f' = Contents (encode a)"
  by (auto simp: save_def split: sum.splits save_fault.splits)

text \<open>The evidence a verification rests on: a shutdown receipt for this attempt from the boot that installed it.\<close>

definition attested :: "('d \<Rightarrow> (ustr option \<times> ustr option) option) \<Rightarrow> 'd receipts \<Rightarrow> attempt \<Rightarrow> bool" where
  "attested proof_of fs a \<longleftrightarrow>
     (\<exists>d. shutdown fs (att_id a) = Contents d \<and> proof_of d = Some (Some (att_id a), Some (boot_id a))) \<and>
     verifying_boot_id a \<noteq> boot_id a"

definition receipt_inv ::
  "('d \<Rightarrow> attempt option) \<Rightarrow> (attempt \<Rightarrow> 'd) \<Rightarrow> ('d \<Rightarrow> (ustr option \<times> ustr option) option) \<Rightarrow>
   (ustr \<Rightarrow> 'd stored) \<Rightarrow> 'd receipts \<Rightarrow> bool" where
  "receipt_inv decode encode proof_of proofs fs \<longleftrightarrow>
     (\<forall>a. decode (encode a) = Some a) \<and> shutdown fs = proofs \<and>
     (\<forall>a. load decode (current fs) = Inr (Some a) \<longrightarrow> phase a \<in> {lit ''verifying'', lit ''verified''} \<longrightarrow>
        attested proof_of fs a)"

lemma receipt_inv_saved:
  assumes "receipt_inv decode encode proof_of proofs fs" and "f = current fs \<or> f = Contents (encode a)"
    and "phase a \<in> {lit ''verifying'', lit ''verified''} \<Longrightarrow> attested proof_of fs a"
  shows "receipt_inv decode encode proof_of proofs (fs\<lparr>current := f\<rparr>)"
proof -
  have "attested proof_of (fs\<lparr>current := f\<rparr>) b \<longleftrightarrow> attested proof_of fs b" for b by (simp add: attested_def)
  with assms show ?thesis by (fastforce simp: receipt_inv_def load_Some)
qed

lemma begin_verification_inv:
  assumes "receipt_inv decode encode proof_of proofs fs"
  shows "receipt_inv decode encode proof_of proofs (fst (begin_verification decode encode proof_of fault b fs))"
proof (cases "\<exists>a d. load decode (current fs) = Inr (Some a) \<and> phase a = lit ''awaiting_reboot'' \<and> boot_id a \<noteq> b \<and>
    shutdown fs (att_id a) = Contents d \<and> proof_of d = Some (Some (att_id a), Some (boot_id a))")
  case True
  then obtain a d where a: "load decode (current fs) = Inr (Some a)" "phase a = lit ''awaiting_reboot''" "boot_id a \<noteq> b"
    "shutdown fs (att_id a) = Contents d" "proof_of d = Some (Some (att_id a), Some (boot_id a))" by blast
  let ?a = "a\<lparr>phase := lit ''verifying'', verifying_boot_id := b\<rparr>"
  obtain f res where s: "save decode encode fault ?a (current fs) = (f, res)" by fastforce
  have "receipt_inv decode encode proof_of proofs (fs\<lparr>current := f\<rparr>)"
    by (rule receipt_inv_saved [OF assms save_current [OF s]]) (use a in \<open>simp add: attested_def\<close>)
  then show ?thesis using a s by (simp add: begin_verification_def)
next
  case False
  then have "fst (begin_verification decode encode proof_of fault b fs) = fs"
    by (auto simp: begin_verification_def split: sum.splits option.splits stored.splits)
  with assms show ?thesis by simp
qed

lemma startup_gate_inv:
  assumes "receipt_inv decode encode proof_of proofs fs"
  shows "receipt_inv decode encode proof_of proofs (fst (startup_gate decode encode proof_of fault exe boot ver fs))"
proof -
  have "receipt_inv decode encode proof_of proofs (fst (prepare_startup_verification decode encode proof_of fault exe boot fs))"
    using assms begin_verification_inv [OF assms]
    by (auto simp: prepare_startup_verification_def split: sum.splits option.splits)
  with assms show ?thesis
    by (auto simp: startup_gate_def Let_def split: option.splits sum.splits prod.splits)
qed

lemma queue_outcome_fields:
  "current (fst (queue_outcome decode encode fault a fs)) = current fs"
  "shutdown (fst (queue_outcome decode encode fault a fs)) = shutdown fs"
  by (auto simp: queue_outcome_def Let_def split: sum.splits option.splits prod.splits)

lemma receipt_inv_cong:
  "receipt_inv decode encode proof_of proofs fs \<Longrightarrow> current fs' = current fs \<Longrightarrow> shutdown fs' = shutdown fs \<Longrightarrow>
     receipt_inv decode encode proof_of proofs fs'"
  unfolding receipt_inv_def attested_def by auto

text \<open>What recovery makes of the current receipt.\<close>

lemma recover_current:
  fixes exe mig
  assumes "load decode (current fs) = Inr (Some a)" and "\<not> terminal a" and "boot = Some b"
  defines "ph \<equiv> boot_outcome a b (binary_sha256 a \<noteq> [] \<and> exe = Some (binary_sha256 a)) mig"
  shows "\<exists>a'. att_id a' = att_id a \<and> boot_id a' = boot_id a \<and> verifying_boot_id a' = verifying_boot_id a \<and> phase a' = ph \<and>
    current (fst (recover_after_startup decode encode fault fault' exe boot mig fs)) =
      fst (save decode encode fault a' (current fs)) \<and>
    shutdown (fst (recover_after_startup decode encode fault fault' exe boot mig fs)) = shutdown fs"
proof -
  let ?a = "a\<lparr>phase := ph, detail := lit ''Update from '' @ version_from a @ lit '' to '' @ target a @
                             lit ''; startup outcome: '' @ ph\<rparr>"
  obtain f res where s: "save decode encode fault ?a (current fs) = (f, res)" by fastforce
  show ?thesis
    by (rule exI [of _ ?a], cases res)
      (use assms(1-3) s in \<open>simp_all add: recover_after_startup_def Let_def queue_outcome_fields ph_def\<close>)
qed

lemma recover_inv:
  assumes "receipt_inv decode encode proof_of proofs fs"
  shows "receipt_inv decode encode proof_of proofs (fst (recover_after_startup decode encode fault fault' exe boot mig fs))"
proof (cases "\<exists>a b. load decode (current fs) = Inr (Some a) \<and> \<not> terminal a \<and> boot = Some b")
  case True
  then obtain a b where a: "load decode (current fs) = Inr (Some a)" "\<not> terminal a" "boot = Some b" by blast
  let ?fs = "fst (recover_after_startup decode encode fault fault' exe boot mig fs)"
  let ?ph = "boot_outcome a b (binary_sha256 a \<noteq> [] \<and> exe = Some (binary_sha256 a)) mig"
  from recover_current [OF a, of exe mig encode fault fault'] obtain a' where
    a': "att_id a' = att_id a" "boot_id a' = boot_id a" "verifying_boot_id a' = verifying_boot_id a" "phase a' = ?ph"
    and cur: "current ?fs = fst (save decode encode fault a' (current fs))" and sh: "shutdown ?fs = shutdown fs"
    by blast
  have "attested proof_of fs a'" if "phase a' \<in> {lit ''verifying'', lit ''verified''}"
  proof -
    have "phase a = lit ''verifying''" using that unfolding a'(4) boot_outcome_def by (auto split: if_splits)
    then have "attested proof_of fs a" using assms a(1) by (auto simp: receipt_inv_def)
    then show ?thesis using a' by (simp add: attested_def)
  qed
  then have "receipt_inv decode encode proof_of proofs (fs\<lparr>current := current ?fs\<rparr>)"
    using save_current [of decode encode fault a' "current fs"] cur
    by (intro receipt_inv_saved [OF assms]) (auto simp: prod_eq_iff)
  then show ?thesis by (rule receipt_inv_cong) (simp_all add: sh)
next
  case False
  have "current (fst (recover_after_startup decode encode fault fault' exe boot mig fs)) = current fs \<and>
      shutdown (fst (recover_after_startup decode encode fault fault' exe boot mig fs)) = shutdown fs"
    using False by (auto simp: recover_after_startup_def queue_outcome_fields split: sum.splits option.splits)
  then show ?thesis using receipt_inv_cong [OF assms] by blast
qed

interpretation boots: invariant_machine "\<lambda>fs env. startup decode encode proof_of env fs"
  "receipt_inv decode encode proof_of proofs" for decode encode proof_of proofs
  by unfold_locales (simp add: startup_def startup_gate_inv recover_inv split: prod.split, metis fst_conv recover_inv startup_gate_inv)

text \<open>The first boot after an installation.\<close>

definition completes :: "('d \<Rightarrow> (ustr option \<times> ustr option) option) \<Rightarrow> boot_env \<Rightarrow> 'd receipts \<Rightarrow> attempt \<Rightarrow> bool" where
  "completes proof_of env fs a \<longleftrightarrow>
     (\<exists>b v d. this_boot env = Some b \<and> b \<noteq> boot_id a \<and>
        binary_sha256 a \<noteq> [] \<and> running_exe env = Some (binary_sha256 a) \<and>
        version_file env = Some v \<and> trim v = target a \<and> target a \<notin> {[], lit ''dev''} \<and>
        shutdown fs (att_id a) = Contents d \<and> proof_of d = Some (Some (att_id a), Some (boot_id a)))"

lemma gate_awaiting:
  assumes "\<And>a. decode (encode a) = Some a" and "current fs = Contents (encode a)" and "receipt_ok a"
    and "phase a = lit ''awaiting_reboot''"
  shows "startup_gate decode encode proof_of SaveOk (running_exe env) (this_boot env) (version_file env) fs =
    (if completes proof_of env fs a
     then (fs\<lparr>current := Contents (encode (a\<lparr>phase := lit ''verifying'', verifying_boot_id := the (this_boot env)\<rparr>))\<rparr>, Some True)
     else (fs, None))"
proof -
  have l: "load decode (current fs) = Inr (Some a)" using assms(1-3) by (auto simp: load_Some)
  have t: "\<not> terminal a" using assms(4) by (simp add: terminal_def)
  show ?thesis
    using assms(4) by (auto simp: startup_gate_def prepare_startup_verification_def begin_verification_def save_def
        completes_def Let_def l t split: option.splits stored.splits)
qed

section \<open>Properties\<close>

text \<open>
  C25. An update is never called a success without evidence: over any sequence of boots, with any faults
  and environments, a receipt that did not begin under verification is verified only if a shutdown
  receipt for that very attempt was written by the boot that installed it, and the boot that verified it
  was another one.
\<close>

theorem update_verified_attested:
  assumes "\<And>a. decode (encode a) = Some a"
    and "\<And>a. load decode (current fs) = Inr (Some a) \<Longrightarrow> phase a \<notin> {lit ''verifying'', lit ''verified''}"
    and "load decode (current (foldl (\<lambda>fs env. startup decode encode proof_of env fs) fs envs)) = Inr (Some a)"
    and "phase a = lit ''verified''"
  shows "(\<exists>d. shutdown fs (att_id a) = Contents d \<and> proof_of d = Some (Some (att_id a), Some (boot_id a))) \<and>
    verifying_boot_id a \<noteq> boot_id a"
proof -
  have "receipt_inv decode encode proof_of (shutdown fs) fs" using assms(1,2) by (auto simp: receipt_inv_def)
  then have "receipt_inv decode encode proof_of (shutdown fs) (foldl (\<lambda>fs env. startup decode encode proof_of env fs) fs envs)"
    by (rule boots.run_inv)
  with assms(3,4) show ?thesis by (auto simp: receipt_inv_def attested_def)
qed

text \<open>
  The first boot after an installation settles it: when receipts can be saved, the receipt ends in a
  final phase, and that phase is verified if and only if this is another boot, the running executable is
  the installed one, the version file names the target, the shutdown receipt of the installing boot is
  there, and the migration succeeds.
\<close>

theorem update_settled_at_boot:
  assumes "\<And>a. decode (encode a) = Some a" and "current fs = Contents (encode a)"
    and "valid_attempt_id (att_id a)" and "schema a = 1" and "phase a = lit ''awaiting_reboot''"
    and "this_boot env \<noteq> None" and "prepare_fault env = SaveOk" and "recover_fault env = SaveOk"
  shows "\<exists>a'. current (startup decode encode proof_of env fs) = Contents (encode a') \<and> att_id a' = att_id a \<and> terminal a' \<and>
    (phase a' = lit ''verified'' \<longleftrightarrow> completes proof_of env fs a \<and> migration env True)"
proof -
  obtain b where b: "this_boot env = Some b" using assms(6) by blast
  have r: "receipt_ok a" using assms(3-5) by (simp add: receipt_ok_def phases_def)
  let ?gate = "startup_gate decode encode proof_of SaveOk (running_exe env) (this_boot env) (version_file env) fs"
  let ?a1 = "if completes proof_of env fs a then a\<lparr>phase := lit ''verifying'', verifying_boot_id := b\<rparr> else a"
  let ?mig = "run_startup_migration (migrated_before env) (migration env) (snd ?gate)"
  have gate: "fst ?gate = fs\<lparr>current := Contents (encode ?a1)\<rparr>"
      "?mig \<longleftrightarrow> completes proof_of env fs a \<and> migration env True"
    unfolding gate_awaiting [OF assms(1,2) r assms(5)] using assms(2) b by (simp_all add: run_startup_migration_def)
  have l: "load decode (current (fst ?gate)) = Inr (Some ?a1)" "\<not> terminal ?a1"
    using assms(1,5) r unfolding gate(1) by (simp_all add: load_Some receipt_ok_def terminal_def phases_def)
  obtain a' where a': "att_id a' = att_id ?a1" "phase a' = boot_outcome ?a1 b (binary_sha256 ?a1 \<noteq> [] \<and> running_exe env = Some (binary_sha256 ?a1)) ?mig"
    and cur: "current (startup decode encode proof_of env fs) = fst (save decode encode SaveOk a' (current (fst ?gate)))"
    using recover_current [OF l b, of "running_exe env" ?mig encode SaveOk "outcome_fault env"] assms(7,8)
    by (auto simp: startup_def Let_def case_prod_beta)
  have "fst (save decode encode SaveOk a' (current (fst ?gate))) = Contents (encode a')" by (simp add: save_def l)
  moreover have "phase a' = lit ''verified'' \<longleftrightarrow> completes proof_of env fs a \<and> migration env True"
    using b assms(5) unfolding a'(2) gate(2) by (auto simp: boot_outcome_def completes_def)
  moreover have "terminal a'" unfolding terminal_def a'(2) boot_outcome_def by simp
  ultimately show ?thesis using cur a'(1) by auto
qed

lemmas demo_defs = demo_receipts_def demo_attempt_def demo_boot_def new_attempt_def demo_decode_def demo_proof_def

lemma demo_completes: "completes demo_proof demo_boot demo_receipts demo_attempt"
  by (simp add: completes_def demo_defs text_eval)

lemma demo_id: "valid_attempt_id (att_id demo_attempt)"
  by (simp add: valid_attempt_id_def demo_defs show_int_def show_nat.simps utf8_len_def utf8_width_def is_alnum_def is_alpha_def is_digit_def)

theorem update_settled_at_boot_witness:
  "\<exists>a'. current (startup demo_decode Inl demo_proof demo_boot demo_receipts) = Contents (Inl a') \<and> phase a' = lit ''verified''"
  using update_settled_at_boot [of demo_decode Inl demo_receipts demo_attempt demo_boot demo_proof] demo_completes demo_id
  by (auto simp: demo_defs)

definition demo_verified :: attempt where
  "demo_verified = demo_attempt\<lparr>phase := lit ''verified'', verifying_boot_id := lit ''b2'',
     detail := lit ''Update from v1 to v2; startup outcome: verified''\<rparr>"

lemma demo_startup:
  "load demo_decode (current (startup demo_decode Inl demo_proof demo_boot demo_receipts)) = Inr (Some demo_verified)"
proof -
  have d: "demo_decode (Inl a) = Some a" for a by (simp add: demo_decode_def)
  have r: "receipt_ok demo_attempt" using demo_id by (simp add: receipt_ok_def phases_def demo_defs)
  have c: "current demo_receipts = Contents (Inl demo_attempt)" "phase demo_attempt = lit ''awaiting_reboot''"
    by (simp_all add: demo_receipts_def demo_attempt_def)
  have gate: "startup_gate demo_decode Inl demo_proof SaveOk (running_exe demo_boot) (this_boot demo_boot) (version_file demo_boot) demo_receipts =
      (demo_receipts\<lparr>current := Contents (Inl (demo_attempt\<lparr>phase := lit ''verifying'', verifying_boot_id := lit ''b2''\<rparr>))\<rparr>, Some True)"
    using demo_completes unfolding gate_awaiting [of demo_decode Inl, OF d c(1) r c(2)] by (simp add: demo_boot_def)
  have i: "valid_attempt_id (att_id demo_attempt)" "schema demo_attempt = 1" using r by (simp_all add: receipt_ok_def)
  have p: "prepare_fault demo_boot = SaveOk" "recover_fault demo_boot = SaveOk" "this_boot demo_boot = Some (lit ''b2'')"
      "running_exe demo_boot = Some (binary_sha256 demo_attempt)" "binary_sha256 demo_attempt \<noteq> []" "boot_id demo_attempt \<noteq> lit ''b2''"
      "migration demo_boot True" "version_from demo_attempt = lit ''v1''" "target demo_attempt = lit ''v2''"
    by (simp_all add: demo_boot_def demo_attempt_def new_attempt_def)
  show ?thesis
    unfolding startup_def p(1,2) gate Let_def prod.case
    using i p by (simp add: recover_after_startup_def load_def d terminal_def phases_def save_def boot_outcome_def
        run_startup_migration_def queue_outcome_fields demo_verified_def Let_def)
qed

theorem update_verified_attested_witness:
  "(\<exists>d. shutdown demo_receipts (att_id demo_verified) = Contents d \<and>
     demo_proof d = Some (Some (att_id demo_verified), Some (boot_id demo_verified))) \<and>
   verifying_boot_id demo_verified \<noteq> boot_id demo_verified"
proof (rule update_verified_attested [of demo_decode Inl demo_receipts demo_proof "[demo_boot]"])
  show "demo_decode (Inl a) = Some a" for a by (simp add: demo_decode_def)
  show "phase a \<notin> {lit ''verifying'', lit ''verified''}" if "load demo_decode (current demo_receipts) = Inr (Some a)" for a
    using that by (auto simp: load_Some demo_decode_def demo_receipts_def demo_attempt_def)
  show "load demo_decode (current (foldl (\<lambda>fs env. startup demo_decode Inl demo_proof env fs) demo_receipts [demo_boot])) =
      Inr (Some demo_verified)" using demo_startup by simp
  show "phase demo_verified = lit ''verified''" by (simp add: demo_verified_def)
qed

end
