(* ===== verification/UpdateReplace.thy ===== *)
theory UpdateReplace
  imports Prelude "HOL-Library.Multiset"
begin

section \<open>Replacing the installed files\<close>

text \<open>
  \<^verbatim>\<open>replace_files\<close> of \<^verbatim>\<open>crates/api/src/auto_update_install.rs\<close>: the files of a staged release are moved over
  the installed ones, each after a copy of the old one was made beside the staged file, and on the
  first failure the moves are undone in reverse. The disk maps absolute paths to files, symbolic links
  (holding the path they resolve to) and directories. Every system call may fail; the faults are
  given per file.
\<close>

datatype node = File bytes | Link ustr | Directory
type_synonym disk = "ustr \<Rightarrow> node option"

subsection \<open>Paths and system calls\<close>

text \<open>\<^verbatim>\<open>Path::with_extension\<close>: a leading dot does not begin an extension.\<close>

definition file_stem :: "ustr \<Rightarrow> ustr" where
  "file_stem name =
     (let before = rev (dropWhile (\<lambda>c. c \<noteq> 46) (rev name))
      in if length before \<le> 1 then name else butlast before)"

definition with_extension :: "ustr \<Rightarrow> ustr \<Rightarrow> ustr" where
  "with_extension ext p =
     (let name = rev (takeWhile (\<lambda>c. c \<noteq> 47) (rev p))
      in if name = [] \<or> name = lit ''..'' then p
         else take (length p - length name) p @ file_stem name @ [46] @ ext)"

text \<open>The path an open call reaches; the kernel follows at most forty links.\<close>

fun follow :: "nat \<Rightarrow> disk \<Rightarrow> ustr \<Rightarrow> ustr option" where
  "follow n fs p =
     (case fs p of
        Some (Link t) \<Rightarrow> (case n of 0 \<Rightarrow> None | Suc m \<Rightarrow> follow m fs t)
      | _ \<Rightarrow> Some p)"

declare follow.simps [simp del]

definition write_file :: "ustr \<Rightarrow> bytes \<Rightarrow> disk \<Rightarrow> disk option" where
  "write_file p content fs =
     (case follow 40 fs p of
        None \<Rightarrow> None
      | Some q \<Rightarrow> if fs q = Some Directory then None else Some (fs(q \<mapsto> File content)))"

definition rename :: "ustr \<Rightarrow> ustr \<Rightarrow> disk \<Rightarrow> disk option" where
  "rename p q fs =
     (if fs p = None then None
      else if p = q then Some fs
      else if fs q \<noteq> None \<and> (fs p = Some Directory) \<noteq> (fs q = Some Directory) then None
      else Some (fs(q := fs p, p := None)))"

definition remove_file :: "ustr \<Rightarrow> disk \<Rightarrow> disk option" where
  "remove_file p fs = (if fs p = None \<or> fs p = Some Directory then None else Some (fs(p := None)))"

subsection \<open>The replacement\<close>

text \<open>
  What goes wrong with a file: its metadata cannot be read (taken for an absent file), the copy stops
  (with what it left), the copy cannot be flushed, the move fails, or a directory cannot be flushed
  after the move.
\<close>

datatype replace_fault =
    NoReplaceFault
  | MetadataFault
  | BackupFault "bytes option"
  | BackupSyncFault
  | MoveFault
  | AfterMoveFault

definition backup_path :: "ustr \<Rightarrow> ustr" where
  "backup_path source = with_extension (lit ''previous'') source"

text \<open>The disk, and on success the name of the copy if there was something to copy.\<close>

definition make_backup :: "replace_fault \<Rightarrow> ustr \<Rightarrow> ustr \<Rightarrow> disk \<Rightarrow> disk \<times> ustr option option" where
  "make_backup fault source dest fs =
     (if fault = MetadataFault then (fs, Some None)
      else case fs dest of
          None \<Rightarrow> (fs, Some None)
        | Some (Link t) \<Rightarrow>
            if fs (backup_path source) \<noteq> None \<or> (case fault of BackupFault _ \<Rightarrow> True | _ \<Rightarrow> False) then (fs, None)
            else (fs(backup_path source \<mapsto> Link t),
                  if fault = BackupSyncFault then None else Some (Some (backup_path source)))
        | Some Directory \<Rightarrow> (fs, None)
        | Some (File content) \<Rightarrow>
            (case fault of
               BackupFault None \<Rightarrow> (fs, None)
             | BackupFault (Some partial) \<Rightarrow>
                 (case write_file (backup_path source) partial fs of None \<Rightarrow> (fs, None) | Some fs' \<Rightarrow> (fs', None))
             | _ \<Rightarrow>
                 (case write_file (backup_path source) content fs of
                    None \<Rightarrow> (fs, None)
                  | Some fs' \<Rightarrow> (fs', if fault = BackupSyncFault then None else Some (Some (backup_path source))))))"

fun replace_loop ::
  "((ustr \<times> ustr) \<times> replace_fault) list \<Rightarrow> (ustr \<times> ustr option) list \<Rightarrow> disk \<Rightarrow> disk \<times> (ustr \<times> ustr option) list \<times> bool" where
  "replace_loop [] replaced fs = (fs, replaced, True)"
| "replace_loop (((source, dest), fault) # rest) replaced fs =
     (case make_backup fault source dest fs of
        (fs1, None) \<Rightarrow> (fs1, replaced, False)
      | (fs1, Some backup) \<Rightarrow>
          (case (if fault = MoveFault then None else rename source dest fs1) of
             None \<Rightarrow> (fs1, replaced, False)
           | Some fs2 \<Rightarrow>
               if fault = AfterMoveFault then (fs2, replaced @ [(dest, backup)], False)
               else replace_loop rest (replaced @ [(dest, backup)]) fs2))"

definition undo :: "(ustr \<Rightarrow> bool) \<Rightarrow> ustr \<times> ustr option \<Rightarrow> disk \<Rightarrow> disk" where
  "undo undo_fails entry fs =
     (case entry of (dest, backup) \<Rightarrow>
        if undo_fails dest then fs
        else (case (case backup of Some p \<Rightarrow> rename p dest fs | None \<Rightarrow> remove_file dest fs) of
            Some fs' \<Rightarrow> fs'
          | None \<Rightarrow> fs))"

definition replace_files ::
  "((ustr \<times> ustr) \<times> replace_fault) list \<Rightarrow> (ustr \<Rightarrow> bool) \<Rightarrow> disk \<Rightarrow> disk \<times> bool" where
  "replace_files files undo_fails fs =
     (case replace_loop files [] fs of
        (fs', replaced, True) \<Rightarrow> (fs', True)
      | (fs', replaced, False) \<Rightarrow> (fold (undo undo_fails) (rev replaced) fs', False))"

section \<open>Lemmas\<close>

lemma write_file_plain: "(\<And>t. fs p \<noteq> Some (Link t)) \<Longrightarrow> write_file p c fs = (if fs p = Some Directory then None else Some (fs(p \<mapsto> File c)))"
  by (auto simp: write_file_def follow.simps [of 40] split: option.split node.split)

text \<open>A copy touches only its own path, and when it succeeds it holds what was there.\<close>

lemma make_backup_cases:
  assumes "make_backup fault s d fs = (fs1, r)" and "\<And>t. fs (backup_path s) \<noteq> Some (Link t)" and "fault \<noteq> MetadataFault"
  shows "(\<forall>p. p \<noteq> backup_path s \<longrightarrow> fs1 p = fs p) \<and>
    (\<forall>b. r = Some b \<longrightarrow> fs d \<noteq> Some Directory \<and>
       (case b of None \<Rightarrow> fs d = None | Some p \<Rightarrow> p = backup_path s \<and> fs d \<noteq> None \<and> fs1 (backup_path s) = fs d))"
  using assms
  by (auto simp: make_backup_def write_file_plain split: option.splits node.splits replace_fault.splits if_splits)

type_synonym moves = "(ustr \<times> ustr) list"

definition touched :: "moves \<Rightarrow> ustr list" where
  "touched ms = map fst ms @ map snd ms @ map (\<lambda>m. backup_path (fst m)) ms"

definition entry :: "disk \<Rightarrow> ustr \<times> ustr \<Rightarrow> ustr \<times> ustr option" where
  "entry fs0 m = (snd m, if fs0 (snd m) = None then None else Some (backup_path (fst m)))"

text \<open>A disk from which the moves made so far can be undone.\<close>

definition undoable :: "disk \<Rightarrow> moves \<Rightarrow> moves \<Rightarrow> disk \<Rightarrow> bool" where
  "undoable fs0 made rest fs \<longleftrightarrow>
     (\<forall>m \<in> set made. fs (snd m) = fs0 (fst m) \<and> fs0 (fst m) \<noteq> None \<and> fs0 (snd m) \<noteq> Some Directory \<and>
        (fs0 (snd m) \<noteq> None \<longrightarrow> fs (backup_path (fst m)) = fs0 (snd m))) \<and>
     (\<forall>m \<in> set rest. fs (snd m) = fs0 (snd m)) \<and>
     (\<forall>p. p \<notin> set (touched (made @ rest)) \<longrightarrow> fs p = fs0 p)"

text \<open>The moves still to make find everything as it was.\<close>

definition pending :: "disk \<Rightarrow> moves \<Rightarrow> disk \<Rightarrow> bool" where
  "pending fs0 rest fs \<longleftrightarrow> (\<forall>m \<in> set rest. fs (fst m) = fs0 (fst m) \<and> fs (backup_path (fst m)) = fs0 (backup_path (fst m)))"

lemma touched_insert:
  assumes "distinct (touched (xs @ m # ys))"
  shows "distinct ([fst m, snd m, backup_path (fst m)] @ touched (xs @ ys))"
proof -
  have "mset (touched (xs @ m # ys)) = mset ([fst m, snd m, backup_path (fst m)] @ touched (xs @ ys))"
    by (simp add: touched_def)
  with assms show ?thesis by (metis mset_eq_imp_distinct_iff)
qed

lemma touched_self:
  "distinct (touched (xs @ m # ys)) \<Longrightarrow> fst m \<noteq> snd m \<and> fst m \<noteq> backup_path (fst m) \<and> snd m \<noteq> backup_path (fst m)"
  by (drule touched_insert) simp

lemma in_touched: "n \<in> set ms \<Longrightarrow> {fst n, snd n, backup_path (fst n)} \<subseteq> set (touched ms)"
  by (auto simp: touched_def)

lemma touched_distinct:
  assumes "distinct (touched (xs @ m # ys))" and "n \<in> set (xs @ ys)"
  shows "{fst n, snd n, backup_path (fst n)} \<inter> {fst m, snd m, backup_path (fst m)} = {}"
  using touched_insert [OF assms(1)] in_touched [OF assms(2)] by auto

lemma undo_last:
  assumes d: "distinct (touched ((made @ [m]) @ rest))" and u: "undoable fs0 (made @ [m]) rest fs"
    and nd: "fs0 (fst m) \<noteq> Some Directory"
  shows "undoable fs0 made (m # rest) (undo (\<lambda>_. False) (entry fs0 m) fs)"
proof -
  have m: "fs (snd m) = fs0 (fst m)" "fs0 (fst m) \<noteq> None" "fs0 (snd m) \<noteq> Some Directory"
      "fs0 (snd m) \<noteq> None \<Longrightarrow> fs (backup_path (fst m)) = fs0 (snd m)" using u by (auto simp: undoable_def)
  have s: "snd m \<noteq> backup_path (fst m)" using touched_self [of made m rest] d by simp
  have e: "undo (\<lambda>_. False) (entry fs0 m) fs =
      (if fs0 (snd m) = None then fs(snd m := None) else fs(snd m := fs0 (snd m), backup_path (fst m) := None))"
  proof (cases "fs0 (snd m) = None")
    case True
    then show ?thesis using m(1,2) nd by (auto simp: undo_def entry_def remove_file_def)
  next
    case False
    have "fs (backup_path (fst m)) \<noteq> Some Directory" "fs (snd m) \<noteq> Some Directory" using m(1,3,4) nd False by simp_all
    with False m(4) [OF False] s show ?thesis by (auto simp: undo_def entry_def rename_def)
  qed
  have o: "snd n \<notin> {snd m, backup_path (fst m)} \<and> backup_path (fst n) \<notin> {snd m, backup_path (fst m)}" if "n \<in> set (made @ rest)" for n
    using touched_distinct [of made m rest n] d that by auto
  have t: "set (touched (made @ m # rest)) = set (touched ((made @ [m]) @ rest))" by (auto simp: touched_def)
  have p: "snd m \<in> set (touched ((made @ [m]) @ rest))" "backup_path (fst m) \<in> set (touched ((made @ [m]) @ rest))"
    by (auto simp: touched_def)
  let ?fs = "undo (\<lambda>_. False) (entry fs0 m) fs"
  have same: "?fs q = fs q" if "q \<notin> {snd m, backup_path (fst m)}" for q using that unfolding e by simp
  have dest: "?fs (snd m) = fs0 (snd m)" unfolding e using s by simp
  show ?thesis
    unfolding undoable_def t
  proof (intro conjI)
    show "\<forall>n \<in> set made. ?fs (snd n) = fs0 (fst n) \<and> fs0 (fst n) \<noteq> None \<and> fs0 (snd n) \<noteq> Some Directory \<and>
        (fs0 (snd n) \<noteq> None \<longrightarrow> ?fs (backup_path (fst n)) = fs0 (snd n))"
    proof
      fix n
      assume n: "n \<in> set made"
      with o [of n] same have "?fs (snd n) = fs (snd n)" "?fs (backup_path (fst n)) = fs (backup_path (fst n))" by simp_all
      with u n show "?fs (snd n) = fs0 (fst n) \<and> fs0 (fst n) \<noteq> None \<and> fs0 (snd n) \<noteq> Some Directory \<and>
        (fs0 (snd n) \<noteq> None \<longrightarrow> ?fs (backup_path (fst n)) = fs0 (snd n))" by (simp add: undoable_def)
    qed
    show "\<forall>n \<in> set (m # rest). ?fs (snd n) = fs0 (snd n)" using u o same dest by (simp add: undoable_def)
    show "\<forall>q. q \<notin> set (touched ((made @ [m]) @ rest)) \<longrightarrow> ?fs q = fs0 q"
    proof (intro allI impI)
      fix q
      assume q: "q \<notin> set (touched ((made @ [m]) @ rest))"
      then have "?fs q = fs q" using p by (intro same) blast
      with q u show "?fs q = fs0 q" by (simp add: undoable_def)
    qed
  qed
qed

lemma undo_all:
  assumes "distinct (touched (made @ rest))" and "undoable fs0 made rest fs"
    and "\<And>m. m \<in> set made \<Longrightarrow> fs0 (fst m) \<noteq> Some Directory"
  shows "undoable fs0 [] (made @ rest) (fold (undo (\<lambda>_. False)) (rev (map (entry fs0) made)) fs)"
  using assms
proof (induction made arbitrary: rest fs rule: rev_induct)
  case (snoc m made)
  have "undoable fs0 made (m # rest) (undo (\<lambda>_. False) (entry fs0 m) fs)"
    by (rule undo_last) (use snoc.prems in auto)
  then have "undoable fs0 [] (made @ m # rest) (fold (undo (\<lambda>_. False)) (rev (map (entry fs0) made)) (undo (\<lambda>_. False) (entry fs0 m) fs))"
    using snoc.prems by (intro snoc.IH) auto
  then show ?case by simp
qed simp

lemma replace_loop_progress:
  assumes "replace_loop (zip rest faults) (map (entry fs0) made) fs = (fs', replaced, fine)"
    and "length faults = length rest" and "distinct (touched (made @ rest))"
    and "undoable fs0 made rest fs" and "pending fs0 rest fs" and "MetadataFault \<notin> set faults"
    and "\<And>m t. m \<in> set rest \<Longrightarrow> fs0 (backup_path (fst m)) \<noteq> Some (Link t)"
    and "\<And>m. m \<in> set made \<Longrightarrow> fs (fst m) = None"
  shows "\<exists>made' rest'. made @ rest = made' @ rest' \<and> replaced = map (entry fs0) made' \<and> undoable fs0 made' rest' fs' \<and>
    (fine \<longrightarrow> rest' = [] \<and> (\<forall>m \<in> set made'. fs' (fst m) = None))"
  using assms
proof (induction rest arbitrary: made fs faults)
  case Nil
  then show ?case by (intro exI [of _ made] exI [of _ "[]"]) simp
next
  case (Cons m rest)
  obtain fault faults' where f: "faults = fault # faults'" "length faults' = length rest" using Cons.prems(2) by (cases faults) auto
  obtain s d where m: "m = (s, d)" by fastforce
  obtain fs1 r where b: "make_backup fault s d fs = (fs1, r)" by fastforce
  have fm: "fault \<noteq> MetadataFault" using Cons.prems(6) f(1) by auto
  have old: "fs s = fs0 s" "fs d = fs0 d" "fs (backup_path s) = fs0 (backup_path s)"
    using Cons.prems(4,5) m by (auto simp: undoable_def pending_def)
  have bk: "\<And>p. p \<noteq> backup_path s \<Longrightarrow> fs1 p = fs p"
      "\<And>b. r = Some b \<Longrightarrow> fs d \<noteq> Some Directory \<and>
        (case b of None \<Rightarrow> fs d = None | Some p \<Rightarrow> p = backup_path s \<and> fs d \<noteq> None \<and> fs1 (backup_path s) = fs d)"
    using make_backup_cases [OF b _ fm] old Cons.prems(7) [of m] m by auto
  have ns: "s \<noteq> d" "s \<noteq> backup_path s" "d \<noteq> backup_path s" using touched_self [of made m rest] Cons.prems(3) m by auto
  have o: "fst n \<notin> {s, d, backup_path s} \<and> snd n \<notin> {s, d, backup_path s} \<and> backup_path (fst n) \<notin> {s, d, backup_path s}"
    if "n \<in> set (made @ rest)" for n using touched_distinct [of made m rest n] Cons.prems(3) that m by auto
  have fail: "undoable fs0 made (m # rest) fs1"
    using Cons.prems(4) bk(1) o ns unfolding undoable_def touched_def by (auto simp: m)
  have stop: ?case if "fs' = fs1" "replaced = map (entry fs0) made" "\<not> fine"
    using that fail by (intro exI [of _ made] exI [of _ "m # rest"]) simp
  show ?case
  proof (cases "r = None \<or> fault = MoveFault \<or> rename s d fs1 = None")
    case True
    then show ?thesis using Cons.prems(1) m f b by (intro stop) (auto split: option.splits if_splits)
  next
    case False
    then obtain b' fs2 where r: "r = Some b'" "rename s d fs1 = Some fs2" "fault \<noteq> MoveFault" by auto
    have fs2: "fs1 s \<noteq> None" "fs2 = fs1(d := fs1 s, s := None)" using r(2) ns by (auto simp: rename_def split: if_splits)
    have e: "(d, b') = entry fs0 m" using bk(2) [OF r(1)] old m by (auto simp: entry_def split: option.splits)
    have s1: "fs1 s = fs0 s" using bk(1) old ns by simp
    have u: "undoable fs0 (made @ [m]) rest fs2"
      unfolding undoable_def
    proof (intro conjI)
      show "\<forall>n \<in> set (made @ [m]). fs2 (snd n) = fs0 (fst n) \<and> fs0 (fst n) \<noteq> None \<and> fs0 (snd n) \<noteq> Some Directory \<and>
          (fs0 (snd n) \<noteq> None \<longrightarrow> fs2 (backup_path (fst n)) = fs0 (snd n))"
        using fail bk(2) [OF r(1)] old o ns fs2 s1 m by (auto simp: undoable_def split: option.splits)
      show "\<forall>n \<in> set rest. fs2 (snd n) = fs0 (snd n)" using fail o fs2 by (auto simp: undoable_def)
      show "\<forall>p. p \<notin> set (touched ((made @ [m]) @ rest)) \<longrightarrow> fs2 p = fs0 p"
        using fail fs2(2) m by (auto simp: undoable_def touched_def)
    qed
    have gone: "fs2 (fst n) = None" if "n \<in> set (made @ [m])" for n
      using that Cons.prems(8) [of n] bk(1) [of "fst n"] o [of n] fs2(2) m by auto
    show ?thesis
    proof (cases "fault = AfterMoveFault")
      case True
      then have "fs' = fs2" "replaced = map (entry fs0) (made @ [m])" "\<not> fine"
        using Cons.prems(1) m f b r e by auto
      then show ?thesis using u by (intro exI [of _ "made @ [m]"] exI [of _ rest]) simp
    next
      case False
      have "\<exists>made' rest'. (made @ [m]) @ rest = made' @ rest' \<and> replaced = map (entry fs0) made' \<and> undoable fs0 made' rest' fs' \<and>
          (fine \<longrightarrow> rest' = [] \<and> (\<forall>m \<in> set made'. fs' (fst m) = None))"
      proof (rule Cons.IH [OF _ f(2) _ u])
        show "replace_loop (zip rest faults') (map (entry fs0) (made @ [m])) fs2 = (fs', replaced, fine)"
          using Cons.prems(1) m f b r e False by simp
        show "pending fs0 rest fs2" using Cons.prems(5) bk(1) o fs2(2) by (auto simp: pending_def)
      qed (use Cons.prems f gone in auto)
      then show ?thesis by simp
    qed
  qed
qed

section \<open>Properties\<close>


text \<open>Two files, the second of which is missing.\<close>

definition demo_disk :: disk where
  "demo_disk = [lit ''/s/app'' \<mapsto> File [1], lit ''/b/app'' \<mapsto> File [2]]"


end
