(* ===== verification/CloudCrypto.thy ===== *)
theory CloudCrypto
  imports Prelude "HOL-Library.Sublist"
begin

section \<open>Sealed data in the cloud\<close>

text \<open>
  \<^verbatim>\<open>crates/cloud_crypto/src\<close>: \<^verbatim>\<open>aad.rs\<close> (the data each sealed value is bound to), \<^verbatim>\<open>blob.rs\<close> (the layout of
  a sealed value) and \<^verbatim>\<open>aead.rs\<close>. Texts are their UTF-8 bytes. A field too long for its length prefix
  makes the program panic, here \<open>None\<close>. AES-256-GCM is a parameter: \<open>gcm_seal\<close> gives the ciphertext and
  the tag, \<open>gcm_open\<close> takes the ciphertext followed by the tag.
\<close>

subsection \<open>Associated data\<close>

definition ascii :: "string \<Rightarrow> bytes" where "ascii = map of_char"

definition lp :: "bytes \<Rightarrow> bytes option" where
  "lp bs = (if length bs \<le> 65535 then Some (nat_to_be 2 (length bs) @ bs) else None)"

definition str_wrap_pwd :: bytes where "str_wrap_pwd = ascii ''sentrycloud-wrap-pwd-v1''"
definition str_wrap_rec :: bytes where "str_wrap_rec = ascii ''sentrycloud-wrap-rec-v1''"
definition str_wrap_passkey :: bytes where "str_wrap_passkey = ascii ''sentrycloud-wrap-passkey-v2''"
definition str_pair :: bytes where "str_pair = ascii ''sentrycloud-pair-v1''"
definition str_pi_local :: bytes where "str_pi_local = ascii ''sentrycloud-pi-local-v1''"
definition str_pi_local_x25519 :: bytes where "str_pi_local_x25519 = ascii ''sentrycloud-pi-local-x25519-v1''"
definition str_rekey :: bytes where "str_rekey = ascii ''sentrycloud-rekey-v2''"
definition str_rate_config :: bytes where "str_rate_config = ascii ''sentrycloud-rate-config-v1''"
definition str_route :: bytes where "str_route = ascii ''sentrycloud-route-v2''"
definition str_routekey :: bytes where "str_routekey = ascii ''sentrycloud-routekey-v2''"
definition str_route_tags :: bytes where "str_route_tags = ascii ''sentrycloud-route-tags-v1''"
definition str_route_summary :: bytes where "str_route_summary = ascii ''sentrycloud-route-summary-v1''"
definition str_charge :: bytes where "str_charge = ascii ''sentrycloud-charge-v1''"
definition str_chargekey :: bytes where "str_chargekey = ascii ''sentrycloud-chargekey-v1''"
definition str_charge_summary :: bytes where "str_charge_summary = ascii ''sentrycloud-charge-summary-v1''"
definition str_charge_mutable :: bytes where "str_charge_mutable = ascii ''sentrycloud-charge-mutable-v1''"

definition wrapped_dek_password :: "bytes \<Rightarrow> bytes" where
  "wrapped_dek_password user_id = str_wrap_pwd @ user_id"

definition wrapped_dek_recovery :: "bytes \<Rightarrow> bytes" where
  "wrapped_dek_recovery user_id = str_wrap_rec @ user_id"

definition wrapped_dek_passkey :: "bytes \<Rightarrow> bytes \<Rightarrow> bytes option" where
  "wrapped_dek_passkey user_id credential_id =
     map_option (\<lambda>cred_lp. str_wrap_passkey @ user_id @ cred_lp) (lp credential_id)"

definition pair :: "bytes \<Rightarrow> bytes \<Rightarrow> bytes" where
  "pair user_id pi_id = str_pair @ user_id @ pi_id"

definition pi_local :: "bytes \<Rightarrow> bytes" where
  "pi_local pi_id = str_pi_local @ pi_id"

definition pi_local_x25519 :: "bytes \<Rightarrow> bytes" where
  "pi_local_x25519 pi_id = str_pi_local_x25519 @ pi_id"

definition rekey :: "bytes \<Rightarrow> bytes \<Rightarrow> u32 \<Rightarrow> bytes option" where
  "rekey user_id pi_id new_generation =
     map_option (\<lambda>pi_lp. str_rekey @ user_id @ pi_lp @ nat_to_be 4 (unat new_generation)) (lp pi_id)"

definition rate_config :: "bytes \<Rightarrow> bytes \<Rightarrow> bytes option" where
  "rate_config user_id pi_id = map_option (\<lambda>pi_lp. str_rate_config @ user_id @ pi_lp) (lp pi_id)"

definition route_blob :: "bytes \<Rightarrow> bytes \<Rightarrow> bytes \<Rightarrow> bytes option" where
  "route_blob user_id uploaded_from_pi route_id =
     Option.bind (lp uploaded_from_pi) (\<lambda>pi_lp. map_option (\<lambda>route_lp. str_route @ user_id @ pi_lp @ route_lp) (lp route_id))"

definition route_key :: "bytes \<Rightarrow> bytes \<Rightarrow> bytes \<Rightarrow> bytes option" where
  "route_key user_id uploaded_from_pi route_id =
     Option.bind (lp uploaded_from_pi) (\<lambda>pi_lp. map_option (\<lambda>route_lp. str_routekey @ user_id @ pi_lp @ route_lp) (lp route_id))"

definition route_tags :: "bytes \<Rightarrow> bytes \<Rightarrow> bytes \<Rightarrow> bytes option" where
  "route_tags user_id uploaded_from_pi route_id =
     Option.bind (lp uploaded_from_pi) (\<lambda>pi_lp. map_option (\<lambda>route_lp. str_route_tags @ user_id @ pi_lp @ route_lp) (lp route_id))"

definition route_summary_aad :: "bytes \<Rightarrow> bytes \<Rightarrow> bytes \<Rightarrow> bytes option" where
  "route_summary_aad user_id uploaded_from_pi route_id =
     Option.bind (lp uploaded_from_pi) (\<lambda>pi_lp. map_option (\<lambda>route_lp. str_route_summary @ user_id @ pi_lp @ route_lp) (lp route_id))"

definition charge_blob :: "bytes \<Rightarrow> bytes \<Rightarrow> bytes \<Rightarrow> bytes option" where
  "charge_blob user_id uploaded_from_pi charge_id =
     Option.bind (lp uploaded_from_pi) (\<lambda>pi_lp. map_option (\<lambda>charge_lp. str_charge @ user_id @ pi_lp @ charge_lp) (lp charge_id))"

definition charge_key :: "bytes \<Rightarrow> bytes \<Rightarrow> bytes \<Rightarrow> bytes option" where
  "charge_key user_id uploaded_from_pi charge_id =
     Option.bind (lp uploaded_from_pi) (\<lambda>pi_lp. map_option (\<lambda>charge_lp. str_chargekey @ user_id @ pi_lp @ charge_lp) (lp charge_id))"

definition charge_summary :: "bytes \<Rightarrow> bytes \<Rightarrow> bytes \<Rightarrow> bytes option" where
  "charge_summary user_id uploaded_from_pi charge_id =
     Option.bind (lp uploaded_from_pi) (\<lambda>pi_lp. map_option (\<lambda>charge_lp. str_charge_summary @ user_id @ pi_lp @ charge_lp) (lp charge_id))"

definition charge_mutable :: "bytes \<Rightarrow> bytes \<Rightarrow> bytes \<Rightarrow> bytes option" where
  "charge_mutable user_id uploaded_from_pi charge_id =
     Option.bind (lp uploaded_from_pi) (\<lambda>pi_lp. map_option (\<lambda>charge_lp. str_charge_mutable @ user_id @ pi_lp @ charge_lp) (lp charge_id))"

text \<open>Everything that is sealed, with the fields it is bound to.\<close>

datatype slot =
    WrapPassword bytes
  | WrapRecovery bytes
  | WrapPasskey bytes bytes
  | Pair bytes bytes
  | PiLocal bytes
  | PiLocalX25519 bytes
  | Rekey bytes bytes u32
  | RateConfig bytes bytes
  | RouteBlob bytes bytes bytes
  | RouteKey bytes bytes bytes
  | RouteTags bytes bytes bytes
  | RouteSummary bytes bytes bytes
  | ChargeBlob bytes bytes bytes
  | ChargeKey bytes bytes bytes
  | ChargeSummary bytes bytes bytes
  | ChargeMutable bytes bytes bytes

fun slot_aad :: "slot \<Rightarrow> bytes option" where
  "slot_aad (WrapPassword u) = Some (wrapped_dek_password u)"
| "slot_aad (WrapRecovery u) = Some (wrapped_dek_recovery u)"
| "slot_aad (WrapPasskey u c) = wrapped_dek_passkey u c"
| "slot_aad (Pair u p) = Some (pair u p)"
| "slot_aad (PiLocal p) = Some (pi_local p)"
| "slot_aad (PiLocalX25519 p) = Some (pi_local_x25519 p)"
| "slot_aad (Rekey u p g) = rekey u p g"
| "slot_aad (RateConfig u p) = rate_config u p"
| "slot_aad (RouteBlob u p r) = route_blob u p r"
| "slot_aad (RouteKey u p r) = route_key u p r"
| "slot_aad (RouteTags u p r) = route_tags u p r"
| "slot_aad (RouteSummary u p r) = route_summary_aad u p r"
| "slot_aad (ChargeBlob u p r) = charge_blob u p r"
| "slot_aad (ChargeKey u p r) = charge_key u p r"
| "slot_aad (ChargeSummary u p r) = charge_summary u p r"
| "slot_aad (ChargeMutable u p r) = charge_mutable u p r"

text \<open>The account a slot belongs to; the two local ones belong to the device alone.\<close>

fun slot_user :: "slot \<Rightarrow> bytes" where
  "slot_user (WrapPassword u) = u"
| "slot_user (WrapRecovery u) = u"
| "slot_user (WrapPasskey u c) = u"
| "slot_user (Pair u p) = u"
| "slot_user (PiLocal p) = []"
| "slot_user (PiLocalX25519 p) = []"
| "slot_user (Rekey u p g) = u"
| "slot_user (RateConfig u p) = u"
| "slot_user (RouteBlob u p r) = u"
| "slot_user (RouteKey u p r) = u"
| "slot_user (RouteTags u p r) = u"
| "slot_user (RouteSummary u p r) = u"
| "slot_user (ChargeBlob u p r) = u"
| "slot_user (ChargeKey u p r) = u"
| "slot_user (ChargeSummary u p r) = u"
| "slot_user (ChargeMutable u p r) = u"

subsection \<open>Sealed values\<close>

definition version :: u8 where "version = 1"
definition nonce_len :: nat where "nonce_len = 12"
definition tag_len :: nat where "tag_len = 16"
definition min_blob_len :: nat where "min_blob_len = 1 + nonce_len + tag_len"

record blob_parts = nonce :: bytes  tag :: bytes  ciphertext :: bytes

datatype crypto_error =
    BlobTooShort nat nat
  | UnknownBlobVersion u8
  | SealFailed
  | OpenFailed

definition pack :: "bytes \<Rightarrow> bytes \<Rightarrow> bytes \<Rightarrow> bytes" where
  "pack n t c = version # n @ t @ c"

definition unpack :: "bytes \<Rightarrow> crypto_error + blob_parts" where
  "unpack buf =
     (if length buf < min_blob_len then Inl (BlobTooShort (length buf) min_blob_len)
      else if buf ! 0 \<noteq> version then Inl (UnknownBlobVersion (buf ! 0))
      else Inr \<lparr>nonce = take nonce_len (drop 1 buf),
                tag = take tag_len (drop (1 + nonce_len) buf),
                ciphertext = drop (1 + nonce_len + tag_len) buf\<rparr>)"

definition seal_with_nonce ::
  "('k \<Rightarrow> bytes \<Rightarrow> bytes \<Rightarrow> bytes \<Rightarrow> (bytes \<times> bytes) option) \<Rightarrow> 'k \<Rightarrow> bytes \<Rightarrow> bytes \<Rightarrow> bytes \<Rightarrow> crypto_error + bytes" where
  "seal_with_nonce gcm_seal key n aad plaintext =
     (case gcm_seal key n aad plaintext of
        None \<Rightarrow> Inl SealFailed
      | Some (in_out, t) \<Rightarrow> if length t \<noteq> tag_len then Inl SealFailed else Inr (pack n t in_out))"

text \<open>\<open>random\<close> is the nonce the system's generator gives, \<open>None\<close> when it fails.\<close>

definition seal ::
  "('k \<Rightarrow> bytes \<Rightarrow> bytes \<Rightarrow> bytes \<Rightarrow> (bytes \<times> bytes) option) \<Rightarrow> bytes option \<Rightarrow> 'k \<Rightarrow> bytes \<Rightarrow> bytes \<Rightarrow> crypto_error + bytes" where
  "seal gcm_seal random key aad plaintext =
     (case random of None \<Rightarrow> Inl SealFailed | Some n \<Rightarrow> seal_with_nonce gcm_seal key n aad plaintext)"

definition open_blob ::
  "('k \<Rightarrow> bytes \<Rightarrow> bytes \<Rightarrow> bytes \<Rightarrow> bytes option) \<Rightarrow> 'k \<Rightarrow> bytes \<Rightarrow> bytes \<Rightarrow> crypto_error + bytes" where
  "open_blob gcm_open key aad packed =
     bindR (unpack packed)
       (\<lambda>parts. if length (nonce parts) \<noteq> nonce_len then Inl OpenFailed
                else ok_or OpenFailed (gcm_open key (nonce parts) aad (ciphertext parts @ tag parts)))"

section \<open>Lemmas\<close>

text \<open>Length-prefixed fields read one after the other.\<close>

definition lp_bytes :: "bytes \<Rightarrow> bytes" where
  "lp_bytes bs = nat_to_be 2 (length bs) @ bs"

definition read_lp :: "bytes \<Rightarrow> (bytes \<times> bytes) option" where
  "read_lp bs =
     (let n = be_to_nat (take 2 bs)
      in if length bs < 2 + n then None else Some (take n (drop 2 bs), drop (2 + n) bs))"

interpretation field: prefix_codec lp_bytes read_lp "\<lambda>bs. length bs \<le> 65535"
  by unfold_locales (simp add: lp_bytes_def read_lp_def be_to_nat_nat_to_be)

lemma lp_Some: "lp bs = Some x \<longleftrightarrow> length bs \<le> 65535 \<and> x = lp_bytes bs"
  by (auto simp: lp_def lp_bytes_def)

text \<open>Which domain string a slot uses, and the rest of its associated data.\<close>

definition domains :: "bytes list" where
  "domains = [str_wrap_pwd, str_wrap_rec, str_wrap_passkey, str_pair, str_pi_local, str_pi_local_x25519, str_rekey,
     str_rate_config, str_route, str_routekey, str_route_tags, str_route_summary, str_charge, str_chargekey,
     str_charge_summary, str_charge_mutable]"

lemmas domain_defs =
  str_wrap_pwd_def str_wrap_rec_def str_wrap_passkey_def str_pair_def str_pi_local_def str_pi_local_x25519_def
  str_rekey_def str_rate_config_def str_route_def str_routekey_def str_route_tags_def str_route_summary_def
  str_charge_def str_chargekey_def str_charge_summary_def str_charge_mutable_def

lemma domains_prefix_free: "sorted_wrt (\<lambda>a b. \<not> prefix a b \<and> \<not> prefix b a) domains"
  by (simp add: domains_def domain_defs ascii_def)

fun slot_kind :: "slot \<Rightarrow> nat" where
  "slot_kind (WrapPassword u) = 0"
| "slot_kind (WrapRecovery u) = 1"
| "slot_kind (WrapPasskey u c) = 2"
| "slot_kind (Pair u p) = 3"
| "slot_kind (PiLocal p) = 4"
| "slot_kind (PiLocalX25519 p) = 5"
| "slot_kind (Rekey u p g) = 6"
| "slot_kind (RateConfig u p) = 7"
| "slot_kind (RouteBlob u p r) = 8"
| "slot_kind (RouteKey u p r) = 9"
| "slot_kind (RouteTags u p r) = 10"
| "slot_kind (RouteSummary u p r) = 11"
| "slot_kind (ChargeBlob u p r) = 12"
| "slot_kind (ChargeKey u p r) = 13"
| "slot_kind (ChargeSummary u p r) = 14"
| "slot_kind (ChargeMutable u p r) = 15"

fun slot_tail :: "slot \<Rightarrow> bytes" where
  "slot_tail (WrapPassword u) = []"
| "slot_tail (WrapRecovery u) = []"
| "slot_tail (WrapPasskey u c) = lp_bytes c"
| "slot_tail (Pair u p) = p"
| "slot_tail (PiLocal p) = p"
| "slot_tail (PiLocalX25519 p) = p"
| "slot_tail (Rekey u p g) = lp_bytes p @ nat_to_be 4 (unat g)"
| "slot_tail (RateConfig u p) = lp_bytes p"
| "slot_tail (RouteBlob u p r) = lp_bytes p @ lp_bytes r"
| "slot_tail (RouteKey u p r) = lp_bytes p @ lp_bytes r"
| "slot_tail (RouteTags u p r) = lp_bytes p @ lp_bytes r"
| "slot_tail (RouteSummary u p r) = lp_bytes p @ lp_bytes r"
| "slot_tail (ChargeBlob u p r) = lp_bytes p @ lp_bytes r"
| "slot_tail (ChargeKey u p r) = lp_bytes p @ lp_bytes r"
| "slot_tail (ChargeSummary u p r) = lp_bytes p @ lp_bytes r"
| "slot_tail (ChargeMutable u p r) = lp_bytes p @ lp_bytes r"

fun slot_fits :: "slot \<Rightarrow> bool" where
  "slot_fits (WrapPasskey u c) \<longleftrightarrow> length c \<le> 65535"
| "slot_fits (Rekey u p g) \<longleftrightarrow> length p \<le> 65535"
| "slot_fits (RateConfig u p) \<longleftrightarrow> length p \<le> 65535"
| "slot_fits (RouteBlob u p r) \<longleftrightarrow> length p \<le> 65535 \<and> length r \<le> 65535"
| "slot_fits (RouteKey u p r) \<longleftrightarrow> length p \<le> 65535 \<and> length r \<le> 65535"
| "slot_fits (RouteTags u p r) \<longleftrightarrow> length p \<le> 65535 \<and> length r \<le> 65535"
| "slot_fits (RouteSummary u p r) \<longleftrightarrow> length p \<le> 65535 \<and> length r \<le> 65535"
| "slot_fits (ChargeBlob u p r) \<longleftrightarrow> length p \<le> 65535 \<and> length r \<le> 65535"
| "slot_fits (ChargeKey u p r) \<longleftrightarrow> length p \<le> 65535 \<and> length r \<le> 65535"
| "slot_fits (ChargeSummary u p r) \<longleftrightarrow> length p \<le> 65535 \<and> length r \<le> 65535"
| "slot_fits (ChargeMutable u p r) \<longleftrightarrow> length p \<le> 65535 \<and> length r \<le> 65535"
| "slot_fits _ \<longleftrightarrow> True"

lemmas aad_defs =
  wrapped_dek_password_def wrapped_dek_recovery_def wrapped_dek_passkey_def pair_def pi_local_def pi_local_x25519_def
  rekey_def rate_config_def route_blob_def route_key_def route_tags_def route_summary_aad_def charge_blob_def
  charge_key_def charge_summary_def charge_mutable_def

lemma lp_eq: "lp bs = (if length bs \<le> 65535 then Some (lp_bytes bs) else None)"
  by (simp add: lp_def lp_bytes_def)

lemma slot_aad_eq:
  "slot_aad s = (if slot_fits s then Some (domains ! slot_kind s @ slot_user s @ slot_tail s) else None)"
  by (cases s) (simp_all add: aad_defs lp_eq domains_def)

lemma slot_kind_less: "slot_kind s < length domains"
  by (cases s) (simp_all add: domains_def)

lemma domain_eq:
  assumes "domains ! i @ x = domains ! j @ y" and "i < length domains" and "j < length domains"
  shows "i = j"
proof (rule ccontr)
  assume "i \<noteq> j"
  have "prefix (domains ! i) (domains ! i @ x)" by simp
  moreover have "prefix (domains ! j) (domains ! i @ x)" unfolding assms(1) by simp
  ultimately have "prefix (domains ! i) (domains ! j) \<or> prefix (domains ! j) (domains ! i)" by (rule prefix_same_cases)
  moreover have "\<not> prefix (domains ! i) (domains ! j) \<and> \<not> prefix (domains ! j) (domains ! i)" if "i < j"
    using domains_prefix_free that assms(3) unfolding sorted_wrt_iff_nth_less by blast
  moreover have "\<not> prefix (domains ! j) (domains ! i) \<and> \<not> prefix (domains ! i) (domains ! j)" if "j < i"
    using domains_prefix_free that assms(2) unfolding sorted_wrt_iff_nth_less by blast
  ultimately show False using \<open>i \<noteq> j\<close> by (meson linorder_neqE_nat)
qed

lemma generation_inj: "nat_to_be 4 (unat g) = nat_to_be 4 (unat h) \<Longrightarrow> g = (h :: u32)"
  using nat_to_be_inject [of "unat g" 4 "unat h"] unsigned_less [where w = g and ?'a = nat] unsigned_less [where w = h and ?'a = nat]
  by (simp add: word_eq_iff_unsigned [where 'a = nat])

lemma last_field:
  "length p \<le> 65535 \<Longrightarrow> length q \<le> 65535 \<Longrightarrow> lp_bytes p = lp_bytes q \<longleftrightarrow> p = q"
  using field.enc_inj [of p q] by auto

lemma fields:
  "length p \<le> 65535 \<Longrightarrow> length q \<le> 65535 \<Longrightarrow> lp_bytes p @ x = lp_bytes q @ y \<longleftrightarrow> p = q \<and> x = y"
  using field.enc_append_inj [of p q x y] by auto

text \<open>The fields after the account are readable.\<close>

lemma slot_tail_inj:
  assumes "slot_kind s = slot_kind s'" and "slot_user s = slot_user s'" and "slot_tail s = slot_tail s'"
    and "slot_fits s" and "slot_fits s'"
  shows "s = s'"
  using assms by (cases s; cases s') (auto simp: last_field fields dest: generation_inj)

lemma length_pack_parts: "unpack buf = Inr parts \<Longrightarrow> length (nonce parts) = 12 \<and> length (tag parts) = 16"
  by (auto simp: unpack_def min_blob_len_def nonce_len_def tag_len_def split: if_splits)

section \<open>Properties\<close>

text \<open>
  Sealed data cannot be passed off as other data: if two slots have the same associated data, and the
  account ids have the same length, they are the same slot with the same fields (kind of data, account,
  device, item and generation).
\<close>

theorem slot_aad_binds:
  assumes "slot_aad s = Some a" and "slot_aad s' = Some a" and "length (slot_user s) = length (slot_user s')"
  shows "s = s'"
proof -
  have f: "slot_fits s" "slot_fits s'" using assms(1,2) by (auto simp: slot_aad_eq split: if_splits)
  have e: "domains ! slot_kind s @ slot_user s @ slot_tail s = domains ! slot_kind s' @ slot_user s' @ slot_tail s'"
    using assms(1,2) f by (simp add: slot_aad_eq)
  have k: "slot_kind s = slot_kind s'" by (rule domain_eq [OF e slot_kind_less slot_kind_less])
  then have "slot_user s @ slot_tail s = slot_user s' @ slot_tail s'" using e by simp
  then have "slot_user s = slot_user s'" "slot_tail s = slot_tail s'" using assms(3) by (simp_all add: append_eq_append_conv)
  with k f show ?thesis by (intro slot_tail_inj)
qed

theorem slot_aad_binds_witness:
  "\<exists>a. slot_aad (RouteBlob [65] [1] [2]) = Some a \<and> slot_aad (RouteTags [65] [1] [2]) \<noteq> Some a"
proof -
  obtain a where a: "slot_aad (RouteBlob [65] [1] [2]) = Some a" by (simp add: slot_aad_eq del: slot_aad.simps)
  have "slot_aad (RouteTags [65] [1] [2]) \<noteq> Some a"
  proof
    assume "slot_aad (RouteTags [65] [1] [2]) = Some a"
    from slot_aad_binds [OF a this] show False by simp
  qed
  with a show ?thesis by blast
qed

text \<open>
  What is sealed opens again: when AES-GCM opens what it sealed, a sealed value opens under the same
  key and associated data to the plaintext, and unpacking is the inverse of packing, on every buffer
  that unpacks at all.
\<close>

theorem sealed_blob_opens:
  assumes "\<And>key n aad p c t. gcm_seal key n aad p = Some (c, t) \<Longrightarrow> gcm_open key n aad (c @ t) = Some p"
    and "length n = 12" and "seal gcm_seal (Some n) key aad plaintext = Inr packed"
  shows "open_blob gcm_open key aad packed = Inr plaintext \<and>
    (unpack buf = Inr parts \<longrightarrow> buf = pack (nonce parts) (tag parts) (ciphertext parts))"
proof
  obtain c t where s: "gcm_seal key n aad plaintext = Some (c, t)" "length t = 16" "packed = pack n t c"
    using assms(3) by (auto simp: seal_def seal_with_nonce_def tag_len_def split: option.splits if_splits)
  have "unpack packed = Inr \<lparr>nonce = n, tag = t, ciphertext = c\<rparr>"
    using assms(2) s(2) unfolding s(3)
    by (simp add: unpack_def pack_def min_blob_len_def nonce_len_def tag_len_def)
  then show "open_blob gcm_open key aad packed = Inr plaintext"
    using assms(1) [OF s(1)] assms(2) by (simp add: open_blob_def nonce_len_def ok_or_def)
  show "unpack buf = Inr parts \<longrightarrow> buf = pack (nonce parts) (tag parts) (ciphertext parts)"
  proof
    assume u: "unpack buf = Inr parts"
    then have l: "29 \<le> length buf" "buf ! 0 = version"
      and p: "parts = \<lparr>nonce = take 12 (drop 1 buf), tag = take 16 (drop 13 buf), ciphertext = drop 29 buf\<rparr>"
      by (auto simp: unpack_def min_blob_len_def nonce_len_def tag_len_def split: if_splits)
    have "buf = buf ! 0 # drop 1 buf" using l(1) by (cases buf) simp_all
    also have "drop 1 buf = take 12 (drop 1 buf) @ drop 13 buf" using append_take_drop_id [of 12 "drop 1 buf"] by simp
    also have "drop 13 buf = take 16 (drop 13 buf) @ drop 29 buf" using append_take_drop_id [of 16 "drop 13 buf"] by simp
    finally show "buf = pack (nonce parts) (tag parts) (ciphertext parts)" using l(2) by (simp add: pack_def p)
  qed
qed

text \<open>A toy cipher with the required law.\<close>

definition demo_seal :: "unit \<Rightarrow> bytes \<Rightarrow> bytes \<Rightarrow> bytes \<Rightarrow> (bytes \<times> bytes) option" where
  "demo_seal key n aad p = Some (p, replicate 16 7)"

definition demo_open :: "unit \<Rightarrow> bytes \<Rightarrow> bytes \<Rightarrow> bytes \<Rightarrow> bytes option" where
  "demo_open key n aad c = Some (take (length c - 16) c)"

theorem sealed_blob_opens_witness:
  "\<exists>packed. seal demo_seal (Some (replicate 12 0)) () [1] [2, 3] = Inr packed \<and> open_blob demo_open () [1] packed = Inr [2, 3]"
proof -
  obtain packed where p: "seal demo_seal (Some (replicate 12 0)) () [1] [2, 3] = Inr packed"
    by (simp add: seal_def seal_with_nonce_def demo_seal_def tag_len_def)
  have "open_blob demo_open () [1] packed = Inr [2, 3]"
    by (rule sealed_blob_opens [OF _ _ p, THEN conjunct1]) (auto simp: demo_seal_def demo_open_def)
  with p show ?thesis by blast
qed

end
