(* ===== verification/Spec2Isabelle.thy ===== *)
theory Spec2Isabelle
  imports Config SnapshotRelease StatusLed PushRetry TtlCache AwayMode ArchiveControl BleHealth TeslaAuth RadioLock Mp4Samples
    DriveIndex DriveOverview SeiExtract ChargeList ScopedTags EditQueue CloudFeed KeepAccessory ClipAggregates SyncGuard UpdateInstall UpdateReplace CloudCrypto
begin

text \<open>
  SentryUSB is the software of a small computer that plays a USB stick for a car's dashcam. This library
  models the parts of its Rust implementation (under \<^verbatim>\<open>crates/\<close>) that keep the footage, the settings
  and the car's trust, and proves what makes them correct.

  \<^bold>\<open>The program.\<close> The car writes its recordings to a disk image that the computer exports. Snapshots of
  that image are taken, their clips are linked into a browsable tree (the link farm), and when space or
  inodes run short the oldest snapshots are released (\<^verbatim>\<open>usb_gadget\<close>). A worker reads the telemetry in
  the recordings, stores one row per clip and groups the rows into drives (\<^verbatim>\<open>drives\<close>). The car is spoken
  to over Bluetooth (\<^verbatim>\<open>tesla_ble\<close>, \<^verbatim>\<open>ble_health\<close>, \<^verbatim>\<open>tesla_telemetry\<close>). An HTTP service (\<^verbatim>\<open>api\<close>) shows all of
  it, sends notifications and installs updates; drives can be sealed and uploaded (\<^verbatim>\<open>cloud_crypto\<close>); a
  status light shows what the stick is doing (\<^verbatim>\<open>status_led\<close>); every part reads one settings file
  (\<^verbatim>\<open>config\<close>).

  \<^bold>\<open>Theories.\<close>

  \<^item> \<open>Prelude\<close>: bytes, words, texts, fallible computations, sorted search, and the contracts
    shared by components as locales: \<open>codec\<close> and \<open>prefix_codec\<close> (an encoder and its decoder),
    \<open>atomic_writer\<close> (replacing a file), \<open>invariant_machine\<close> (an invariant over runs) and
    \<open>reachable_invariant\<close> (an invariant of the reachable states of a step relation). Each is
    interpreted by the components that keep it: frames of the radio, boxes of a recording, tagged
    fields, length-prefixed fields; the settings file, the radio lock file, the sync cache; the light,
    the lock and the update receipt; away mode and the edit queue.
  \<^item> \<open>Config\<close> (\<^verbatim>\<open>config/src/lib.rs\<close>): parsing, quoting and rewriting the settings file. What is written
    is read back, a failing write changes nothing, the exact values that survive quoting.
  \<^item> \<open>FreeSpace\<close> (\<^verbatim>\<open>usb_gadget/src/space.rs\<close>): reserves, the releasable snapshots, the release loop with its
    stall guard, over an \<open>eviction_host\<close> (a locale of what the loop may rely on).
  \<^item> \<open>SnapshotStore\<close>, \<open>LinkFarm\<close>, \<open>SnapshotRelease\<close> (\<^verbatim>\<open>usb_gadget/src/snapshot.rs\<close>): slots and listings; pruning
    and re-pointing of links; release and sweep, and the host that \<open>FreeSpace\<close> runs on. The newest
    snapshot and live links survive every release, links move to the largest remaining copy.
  \<^item> \<open>StatusLed\<close> (\<^verbatim>\<open>status_led/src/model.rs, driver.rs\<close>): the display state machine, and taking over and giving back the lights.
  \<^item> \<open>PushRetry\<close>, \<open>TtlCache\<close> (\<^verbatim>\<open>api/src\<close>), \<open>ArchiveControl\<close> (\<^verbatim>\<open>drives/src/archive_control.rs\<close>): concurrent parts, as
    step relations over every interleaving: no stale push, no stale cache hit, no update during work.
  \<^item> \<open>AwayMode\<close> (\<^verbatim>\<open>api/src/away_mode.rs\<close>): the hotspot of a parked car: timer, geofence and restart as a step
    relation over every interleaving of its tasks. The radio settles in the mode the timer asks for.
  \<^item> \<open>BleHealth\<close> (\<^verbatim>\<open>ble_health/src/lib.rs\<close>), \<open>RadioLock\<close> (\<^verbatim>\<open>tesla_telemetry/src/lock.rs\<close>).
  \<^item> \<open>BleTransport\<close>, \<open>TeslaAuth\<close> (\<^verbatim>\<open>tesla_ble/src\<close>): framing and reassembly, authenticated messages, the session
    handshake.
  \<^item> \<open>Float64\<close>: rounding to double precision on rational numbers.
  \<^item> \<open>Mp4Samples\<close> (\<^verbatim>\<open>drives/src/mp4_samples.rs\<close>): the sample tables of a recording; the scan that finds boxes ends
    on well-formed files and not on a crafted one.
  \<^item> \<open>GearRuns\<close>, \<open>GapFill\<close>, \<open>DriveGrouping\<close>, \<open>DriveIndex\<close> (\<^verbatim>\<open>drives/src/grouper.rs\<close>): run-length telemetry and the
    detector of driverless manoeuvres (a refinement of per-frame statements); which event clips
    join the timeline; the cut of the timeline into drives (drives share no frame and hold exactly the
    frames outside park gaps); ids of drives and the cached index (an equivalence with the full
    resolver).
  \<^item> \<open>DriveOverview\<close> (\<^verbatim>\<open>drives/src/grouper.rs, db.rs\<close>): the overview of a drive, planned from metadata and read
    in batches, equals the overview of the drives grouped in memory.
  \<^item> \<open>FloatBits\<close>, \<open>BlobCodec\<close> (\<^verbatim>\<open>drives/src/blob.rs\<close>): bit patterns of floats, and the binary columns of a
    stored route, as the locales \<open>record_codec\<close> and \<open>exact_record_codec\<close> with one interpretation per column.
  \<^item> \<open>SeiExtract\<close> (\<^verbatim>\<open>drives/src/extract.rs\<close>): from the bytes of a recording to the route: the media data, its NAL
    units, the metadata decoder, and the runs and points made of the frames.
  \<^item> \<open>ChargeSessions\<close> (\<^verbatim>\<open>drives/src/charging.rs\<close>) and \<open>ChargeList\<close> (\<^verbatim>\<open>api/src/charging.rs\<close>, the triggers of
    \<^verbatim>\<open>drives/src/schema.rs\<close>): samples cut into charging sessions, and the list of sessions with its costs,
    kept by revisions; the list shown is the one rebuilt from all samples.
  \<^item> \<open>SafetyScore\<close> (\<^verbatim>\<open>drives/src/safety.rs\<close>) and \<open>ClipAggregates\<close> (\<^verbatim>\<open>drives/src/aggregate.rs\<close>): the walks over the
    points of a clip: braking, turning, speeding and the score made of them; distance, assistance and
    disengagements. Parts never exceed their whole, the score is a percentage, and the counter of
    disengagements agrees with a verdict on each of them.
  \<^item> \<open>Json\<close> (the documents of the library the code uses), \<open>ScopedTags\<close> (\<^verbatim>\<open>drives/src/scoped_tags.rs\<close>) and
    \<open>EditQueue\<close> (\<^verbatim>\<open>drives/src/mutable_intent.rs, drive_edit_scope.rs, db.rs\<close>): tags of ranges of frames, and the
    edits waiting for the cloud, as a step relation over edits, pulls and late confirmations. No edit
    is lost and an acknowledgement retires exactly what it covers.
  \<^item> \<open>CloudFeed\<close> (\<^verbatim>\<open>cloud_uploader/src/sync/revision.rs, incoming_retry.rs, incoming_apply.rs\<close>): the pages of changes
    pulled from the cloud. A pull always returns, and a change that cannot be read is kept for a retry.
  \<^item> \<open>KeepAccessory\<close> (\<^verbatim>\<open>tesla_telemetry/src/keep_accessory.rs, config.rs\<close>): the controller of the car's accessory
    power, as a fold over its ticks; the commands it sends are those the history asks for.
  \<^item> \<open>SyncGuard\<close> (\<^verbatim>\<open>drives/src/syncguard.rs\<close>): the refusal to overwrite the archive with a much smaller file.
  \<^item> \<open>UpdateInstall\<close> (\<^verbatim>\<open>api/src/update_attempt.rs, auto_update.rs, sentryusb/src/migrate.rs\<close>) and \<open>UpdateReplace\<close>
    (\<^verbatim>\<open>api/src/auto_update_install.rs\<close>): the receipt of an automatic update over reboots, and the
    replacement of files with rollback.
  \<^item> \<open>CloudCrypto\<close> (\<^verbatim>\<open>cloud_crypto/src\<close>): the data a sealed value is bound to, and its layout.

  In each theory the definitions come first, in the order of the code and with its names; records are
  the structs, datatypes the enums and the errors. A definition that stands for a loop or an inner part
  of a function is named after it.

  \<^bold>\<open>Conventions.\<close> \<^verbatim>\<open>usize\<close> has 64 bits. Arithmetic wraps as in the release build wherever the code
  neither checks nor saturates; a sum that cannot overflow for want of memory is a plain sum. A text is
  a list of code points, or its bytes where the code handles bytes. \<^verbatim>\<open>f64\<close> arithmetic is exact
  rational arithmetic followed by rounding to 53 bits, ties to even; the values in question are far
  from the ends of the exponent range. Files are maps from names to contents, and a system call that can
  fail takes the fault as an argument. Code outside the repository is a parameter: the calendar of
  \<^verbatim>\<open>chrono\<close>, JSON and protobuf coding, SHA-256 and AES-GCM, the order in which a hash map iterates, and
  the host's commands. Where a law of such a parameter is needed it is an assumption of the theorem,
  and the theorem that follows it applies it to a concrete instance.

  \<^bold>\<open>Loops.\<close> The functions are total by structural recursion or a measure. The scan for top-level boxes
  in \<open>Mp4Samples\<close>, the search for the media data and the metadata decoder in \<open>SeiExtract\<close> may not
  end and are partial functions with the value \<open>None\<close> for that; they are proved to return on
  well-formed recordings, and not to return on crafted ones. The loop over pages in \<open>CloudFeed\<close> is a
  partial function too and is proved to return for every server. The reassembly in \<open>BleTransport\<close> runs over the
  notifications that arrive before its deadline. Links are followed at most forty times in
  \<open>UpdateReplace\<close>, as the kernel does.

  \<^bold>\<open>Not modelled.\<close> SQL (\<^verbatim>\<open>drives/src/db.rs, schema.rs, json_compat.rs\<close>) outside the overview, the charging list and the
  edit queue, HTTP handlers, the setup
  wizard, network and subprocess work (downloads, archiving, mounting, \<^verbatim>\<open>configfs\<close>), the statistics of
  whole drives and the trigonometry of distances, device discovery and elliptic curves, the rest of the
  cloud synchronisation, the web interface and the shell scripts. They call the modelled parts or are called by
  them; their behaviour is not part of any statement here.

  \<^bold>\<open>Next.\<close> Taking a snapshot in \<^verbatim>\<open>snapshot.rs\<close>, the partition tables of \<^verbatim>\<open>disk_reader\<close>, the uploads of
  \<^verbatim>\<open>cloud_uploader\<close>, the sums over whole drives in \<^verbatim>\<open>grouper.rs\<close>, and the modes of \<^verbatim>\<open>api\<close> (keep-awake, travel) as state machines.
\<close>

end
